(* ===== verification/Prelude.thy ===== *)
theory Prelude
  imports Main "HOL-Library.Word"
begin

unbundle bit_operations_syntax

text \<open>
  What every component of the development shares: the C integer types at their width, the
  error values a kernel routine can end in, sequencing of fallible steps, checked array
  access, and the collections of simplification rules that the component theories extend.

  A C routine that may stop the kernel returns \<open>error + 'a\<close>: \<open>Panic msg\<close> is a call of
  \<open>panic\<close> (kernel/console.c), which never returns; \<open>Fault what\<close> is an access outside an
  array or through a null pointer, where the C program has no defined behaviour.
\<close>

section \<open>Integer types\<close>

type_synonym u8 = "8 word"
type_synonym u16 = "16 word"
type_synonym u32 = "32 word"

section \<open>Errors and sequencing\<close>

datatype error = Panic string | Fault string

definition bindE :: "error + 'a \<Rightarrow> ('a \<Rightarrow> error + 'b) \<Rightarrow> error + 'b" where
  "bindE r f = (case r of Inl e \<Rightarrow> Inl e | Inr x \<Rightarrow> f x)"

lemma bindE_simps [simp]:
  "bindE (Inl e) f = Inl e"
  "bindE (Inr x) f = f x"
  by (simp_all add: bindE_def)

lemma bindE_Inr [iff]: "bindE r Inr = r"
  by (cases r) simp_all

lemma bindE_eq_Inr: "bindE r f = Inr y \<longleftrightarrow> (\<exists>x. r = Inr x \<and> f x = Inr y)"
  by (cases r) simp_all

lemma bindE_eq_Inl: "bindE r f = Inl e \<longleftrightarrow> r = Inl e \<or> (\<exists>x. r = Inr x \<and> f x = Inl e)"
  by (cases r) auto

lemma bindE_assoc: "bindE (bindE r f) g = bindE r (\<lambda>x. bindE (f x) g)"
  by (cases r) simp_all

lemma bindE_InrE [elim]:
  assumes "bindE r f = Inr y"
  obtains x where "r = Inr x" "f x = Inr y"
  using assms by (cases r) auto

lemma bindE_cong [fundef_cong]:
  "r = r' \<Longrightarrow> (\<And>x. r' = Inr x \<Longrightarrow> f x = g x) \<Longrightarrow> bindE r f = bindE r' g"
  by (cases r') simp_all

text \<open>A step that may also wait for ever (\<open>None\<close>), for loops without a bound of their own.\<close>

definition bindR :: "(error + 'a) option \<Rightarrow> ('a \<Rightarrow> (error + 'b) option) \<Rightarrow> (error + 'b) option" where
  "bindR r f = (case r of None \<Rightarrow> None | Some (Inl e) \<Rightarrow> Some (Inl e) | Some (Inr x) \<Rightarrow> f x)"

lemma bindR_simps [simp]:
  "bindR None f = None"
  "bindR (Some (Inl e)) f = Some (Inl e)"
  "bindR (Some (Inr x)) f = f x"
  by (simp_all add: bindR_def)

text \<open>A counting loop whose body may fail.\<close>

fun forE :: "('i \<Rightarrow> 's \<Rightarrow> error + 's) \<Rightarrow> 'i list \<Rightarrow> 's \<Rightarrow> error + 's" where
  "forE f [] s = Inr s"
| "forE f (i # is) s = bindE (f i s) (forE f is)"

lemma forE_append: "forE f (is @ js) s = bindE (forE f is s) (forE f js)"
  by (induction "is" arbitrary: s) (auto simp: bindE_assoc intro!: bindE_cong)

lemma forE_cong [fundef_cong]:
  "is = js \<Longrightarrow> s = t \<Longrightarrow> (\<And>i u. i \<in> set js \<Longrightarrow> f i u = g i u) \<Longrightarrow> forE f is s = forE g js t"
  by (induction js arbitrary: "is" s t) (auto intro!: bindE_cong)

text \<open>The invariant rule of such a loop: \<open>P k\<close> holds after \<open>k\<close> rounds.\<close>

lemma forE_upt:
  assumes "forE f [a..<b] s = Inr s'" and "P a s" and "a \<le> b"
    and "\<And>i u u'. a \<le> i \<Longrightarrow> i < b \<Longrightarrow> P i u \<Longrightarrow> f i u = Inr u' \<Longrightarrow> P (Suc i) u'"
  shows "P b s'"
  using assms
proof (induction "b - a" arbitrary: a s)
  case 0
  then show ?case by simp
next
  case (Suc n)
  then have "a < b" by simp
  then have ab: "[a..<b] = a # [Suc a..<b]" by (simp add: upt_conv_Cons)
  with Suc.prems(1) obtain u where u: "f a s = Inr u" "forE f [Suc a..<b] u = Inr s'" by auto
  show ?case
  proof (rule Suc.hyps(1) [OF _ u(2)])
    show "n = b - Suc a" using Suc.hyps(2) by simp
    show "P (Suc a) u" using Suc.prems(2,4) u(1) \<open>a < b\<close> by blast
    show "Suc a \<le> b" using \<open>a < b\<close> by simp
    show "P (Suc i) u'" if "Suc a \<le> i" "i < b" "P i t" "f i t = Inr u'" for i t u'
      using Suc.prems(4) that by (meson Suc_leD)
  qed
qed

text \<open>When the loop fails, a round fails in a state that satisfies the invariant.\<close>

lemma forE_upt_Inl:
  assumes "forE f [a..<b] s = Inl e" and "P a s"
    and "\<And>i u u'. a \<le> i \<Longrightarrow> i < b \<Longrightarrow> P i u \<Longrightarrow> f i u = Inr u' \<Longrightarrow> P (Suc i) u'"
  shows "\<exists>i u. a \<le> i \<and> i < b \<and> P i u \<and> f i u = Inl e"
  using assms
proof (induction "b - a" arbitrary: a s)
  case 0
  then show ?case by simp
next
  case (Suc n)
  then have "a < b" by simp
  then have ab: "[a..<b] = a # [Suc a..<b]" by (simp add: upt_conv_Cons)
  show ?case
  proof (cases "f a s")
    case (Inl e')
    then show ?thesis using Suc.prems(1,2) ab \<open>a < b\<close> by auto
  next
    case (Inr u)
    have "\<exists>i v. Suc a \<le> i \<and> i < b \<and> P i v \<and> f i v = Inl e"
    proof (rule Suc.hyps(1))
      show "n = b - Suc a" using Suc.hyps(2) by simp
      show "forE f [Suc a..<b] u = Inl e" using Suc.prems(1) ab Inr by simp
      show "P (Suc a) u" using Suc.prems(2,3) Inr \<open>a < b\<close> by blast
      show "P (Suc i) u'" if "Suc a \<le> i" "i < b" "P i t" "f i t = Inr u'" for i t u'
        using Suc.prems(3) that by (meson Suc_leD)
    qed
    then show ?thesis by (meson Suc_leD)
  qed
qed

text \<open>A pointer is an index into its array, or \<open>None\<close> for \<open>NULL\<close>.\<close>

definition deref :: "string \<Rightarrow> 'p option \<Rightarrow> error + 'p" where
  "deref what p = (case p of None \<Rightarrow> Inl (Fault what) | Some i \<Rightarrow> Inr i)"

lemma deref_simps [simp]:
  "deref w None = Inl (Fault w)"
  "deref w (Some i) = Inr i"
  by (simp_all add: deref_def)

text \<open>Access to an array of known length.\<close>

definition load_at :: "string \<Rightarrow> 'a list \<Rightarrow> nat \<Rightarrow> error + 'a" where
  "load_at what xs i = (if i < length xs then Inr (xs ! i) else Inl (Fault what))"

definition store_at :: "string \<Rightarrow> 'a list \<Rightarrow> nat \<Rightarrow> 'a \<Rightarrow> error + 'a list" where
  "store_at what xs i v = (if i < length xs then Inr (xs[i := v]) else Inl (Fault what))"

lemma load_at_ok [simp]: "i < length xs \<Longrightarrow> load_at w xs i = Inr (xs ! i)"
  by (simp add: load_at_def)

lemma load_at_out [simp]: "\<not> i < length xs \<Longrightarrow> load_at w xs i = Inl (Fault w)"
  by (simp add: load_at_def)

lemma store_at_ok [simp]: "i < length xs \<Longrightarrow> store_at w xs i v = Inr (xs[i := v])"
  by (simp add: store_at_def)

lemma store_at_out [simp]: "\<not> i < length xs \<Longrightarrow> store_at w xs i v = Inl (Fault w)"
  by (simp add: store_at_def)

section \<open>Lists updated by index\<close>

text \<open>Changing one element of an array through a function of it.\<close>

definition upd_at :: "nat \<Rightarrow> ('a \<Rightarrow> 'a) \<Rightarrow> 'a list \<Rightarrow> 'a list" where
  "upd_at i f xs = xs[i := f (xs ! i)]"

lemma length_upd_at [simp]: "length (upd_at i f xs) = length xs"
  by (simp add: upd_at_def)

lemma upd_at_eq_Nil [simp]: "upd_at i f xs = [] \<longleftrightarrow> xs = []"
  by (simp add: upd_at_def)

lemma nth_upd_at:
  "j < length xs \<Longrightarrow> upd_at i f xs ! j = (if j = i then f (xs ! j) else xs ! j)"
  by (auto simp: upd_at_def nth_list_update)

lemma nth_upd_at_eq [simp]: "i < length xs \<Longrightarrow> upd_at i f xs ! i = f (xs ! i)"
  by (simp add: upd_at_def)

lemma nth_upd_at_neq [simp]: "i \<noteq> j \<Longrightarrow> upd_at i f xs ! j = xs ! j"
  by (simp add: upd_at_def)

lemma upd_at_upd_at [simp]: "upd_at i f (upd_at i g xs) = upd_at i (f \<circ> g) xs"
  by (cases "i < length xs") (simp_all add: upd_at_def list_update_beyond)

lemma upd_at_swap: "i \<noteq> j \<Longrightarrow> upd_at i f (upd_at j g xs) = upd_at j g (upd_at i f xs)"
  by (simp add: upd_at_def list_update_swap)

lemma map_upd_at_same:
  "(\<And>x. g (f x) = g x) \<Longrightarrow> map g (upd_at i f xs) = map g xs"
  by (rule nth_equalityI) (auto simp: nth_upd_at)

text \<open>The first index below \<open>n\<close> that satisfies \<open>P\<close>: the shape of every linear search loop.\<close>

fun first_index :: "(nat \<Rightarrow> bool) \<Rightarrow> nat list \<Rightarrow> nat option" where
  "first_index P [] = None"
| "first_index P (i # is) = (if P i then Some i else first_index P is)"

lemma first_index_None: "first_index P is = None \<longleftrightarrow> (\<forall>i \<in> set is. \<not> P i)"
  by (induction "is") auto

lemma first_index_Some: "first_index P is = Some i \<Longrightarrow> i \<in> set is \<and> P i"
  by (induction "is") (auto split: if_splits)

lemma first_index_upt_least:
  "first_index P [a..<b] = Some i \<Longrightarrow> a \<le> j \<Longrightarrow> j < i \<Longrightarrow> \<not> P j"
proof (induction "b - a" arbitrary: a)
  case 0
  then show ?case by simp
next
  case (Suc k)
  then have ab: "[a..<b] = a # [Suc a..<b]" by (simp add: upt_conv_Cons)
  show ?case
  proof (cases "P a")
    case True
    with Suc.prems ab show ?thesis by simp
  next
    case False
    with Suc.prems(1) ab have "first_index P [Suc a..<b] = Some i" by simp
    moreover have "k = b - Suc a" using Suc.hyps(2) by simp
    ultimately show ?thesis using Suc.hyps(1) [of "Suc a"] Suc.prems(2,3) False
      by (cases "j = a") auto
  qed
qed


section \<open>Invariants of step relations\<close>

text \<open>A component that runs in steps, with a property that every step keeps.\<close>

locale transition_invariant =
  fixes step :: "'s \<Rightarrow> 's \<Rightarrow> bool"
    and inv :: "'s \<Rightarrow> bool"
  assumes step_keeps: "step x y \<Longrightarrow> inv x \<Longrightarrow> inv y"
begin

lemma reachable: "step\<^sup>*\<^sup>* x y \<Longrightarrow> inv x \<Longrightarrow> inv y"
  by (induction rule: rtranclp_induct) (auto intro: step_keeps)

end

end
