(* ===== verification/Ring.thy ===== *)
theory Ring
  imports Prelude
begin

text \<open>
  Circular doubly linked lists, as the kernel uses them for the run list (\<open>struct PCB\<close>,
  \<open>next\<close> and \<open>prev\<close>) and for the two message lists of a process
  (\<open>struct Message_Pool_type\<close>). Nodes are indices into an array.

  \<open>ring_on nx pv l\<close> says that the nodes \<open>l\<close>, in this order, form one circle. The locale
  \<open>link_store\<close> is the interface of an array whose elements carry two links; its lemmas are
  proved once and used by both components through an interpretation.
\<close>

lemma all_nat_split: "(\<forall>i::nat. P i) \<longleftrightarrow> P 0 \<and> (\<forall>i. P (Suc i))"
  by (metis nat.exhaust)

lemma all_less_split:
  assumes "0 < (n::nat)"
  shows "(\<forall>i < n. Q i) \<longleftrightarrow> (\<forall>i. Suc i < n \<longrightarrow> Q i) \<and> Q (n - 1)"
proof -
  obtain m where n: "n = Suc m" using assms by (cases n) auto
  show ?thesis unfolding n by (auto simp: All_less_Suc)
qed

section \<open>Circles over a pair of link functions\<close>

definition ring_on :: "('n \<Rightarrow> 'n option) \<Rightarrow> ('n \<Rightarrow> 'n option) \<Rightarrow> 'n list \<Rightarrow> bool" where
  "ring_on nx pv l \<longleftrightarrow> distinct l \<and>
     (\<forall>i < length l. nx (l ! i) = Some (l ! (Suc i mod length l)) \<and>
                     pv (l ! (Suc i mod length l)) = Some (l ! i))"

lemma ring_on_distinct: "ring_on nx pv l \<Longrightarrow> distinct l"
  by (simp add: ring_on_def)

lemma ring_on_next:
  "ring_on nx pv l \<Longrightarrow> i < length l \<Longrightarrow> nx (l ! i) = Some (l ! (Suc i mod length l))"
  by (simp add: ring_on_def)

lemma ring_on_prev_Suc:
  "ring_on nx pv l \<Longrightarrow> i < length l \<Longrightarrow> pv (l ! (Suc i mod length l)) = Some (l ! i)"
  by (simp add: ring_on_def)

lemma ring_on_singleton [simp]: "ring_on nx pv [x] \<longleftrightarrow> nx x = Some x \<and> pv x = Some x"
  by (auto simp: ring_on_def)

lemma ring_on_cong:
  assumes "ring_on nx pv l"
    and "\<And>x. x \<in> set l \<Longrightarrow> nx' x = nx x" and "\<And>x. x \<in> set l \<Longrightarrow> pv' x = pv x"
  shows "ring_on nx' pv' l"
proof (cases "l = []")
  case True
  then show ?thesis by (simp add: ring_on_def)
next
  case False
  then have "\<And>i. i < length l \<Longrightarrow> Suc i mod length l < length l" by simp
  with assms show ?thesis by (auto simp: ring_on_def)
qed

text \<open>The circle as a statement about neighbours: consecutive nodes, and the last with the first.\<close>

fun linked :: "('n \<Rightarrow> 'n option) \<Rightarrow> ('n \<Rightarrow> 'n option) \<Rightarrow> 'n list \<Rightarrow> bool" where
  "linked nx pv (x # y # l) \<longleftrightarrow> nx x = Some y \<and> pv y = Some x \<and> linked nx pv (y # l)"
| "linked nx pv _ \<longleftrightarrow> True"

lemma linked_iff:
  "linked nx pv l \<longleftrightarrow>
     (\<forall>i. Suc i < length l \<longrightarrow> nx (l ! i) = Some (l ! Suc i) \<and> pv (l ! Suc i) = Some (l ! i))"
proof (induction nx pv l rule: linked.induct)
  case (1 nx pv x y l)
  have "(\<forall>i. Suc i < length (x # y # l) \<longrightarrow> Q i) \<longleftrightarrow>
      Q 0 \<and> (\<forall>i. Suc i < length (y # l) \<longrightarrow> Q (Suc i))" for Q
    by (subst all_nat_split) simp
  from this [of "\<lambda>i. nx ((x # y # l) ! i) = Some ((x # y # l) ! Suc i) \<and>
      pv ((x # y # l) ! Suc i) = Some ((x # y # l) ! i)"] 1
  show ?case by simp
qed auto

lemma ring_on_linked:
  assumes "l \<noteq> []"
  shows "ring_on nx pv l \<longleftrightarrow>
    distinct l \<and> linked nx pv l \<and> nx (last l) = Some (hd l) \<and> pv (hd l) = Some (last l)"
proof -
  let ?n = "length l"
  let ?Q = "\<lambda>i. nx (l ! i) = Some (l ! (Suc i mod ?n)) \<and> pv (l ! (Suc i mod ?n)) = Some (l ! i)"
  have n: "0 < ?n" using assms by simp
  have last: "l ! (?n - 1) = last l" "hd l = l ! 0"
    using assms by (simp_all add: last_conv_nth hd_conv_nth)
  have "(\<forall>i < ?n. ?Q i) \<longleftrightarrow> (\<forall>i. Suc i < ?n \<longrightarrow> ?Q i) \<and> ?Q (?n - 1)"
    by (rule all_less_split [OF n])
  moreover have "?Q (?n - 1) \<longleftrightarrow> nx (last l) = Some (hd l) \<and> pv (hd l) = Some (last l)"
    using n last by simp
  moreover have "(\<forall>i. Suc i < ?n \<longrightarrow> ?Q i) \<longleftrightarrow> linked nx pv l"
    by (simp add: linked_iff)
  ultimately show ?thesis by (auto simp: ring_on_def)
qed

lemma linked_append:
  "linked nx pv (xs @ ys) \<longleftrightarrow> linked nx pv xs \<and> linked nx pv ys \<and>
     (xs \<noteq> [] \<and> ys \<noteq> [] \<longrightarrow> nx (last xs) = Some (hd ys) \<and> pv (hd ys) = Some (last xs))"
proof (induction xs)
  case Nil
  then show ?case by simp
next
  case (Cons x xs)
  then show ?case by (cases xs; cases ys) auto
qed

lemma linked_cong:
  "linked nx pv l \<Longrightarrow> (\<And>x. x \<in> set (butlast l) \<Longrightarrow> nx' x = nx x) \<Longrightarrow>
   (\<And>x. x \<in> set (tl l) \<Longrightarrow> pv' x = pv x) \<Longrightarrow> linked nx' pv' l"
  by (induction nx pv l rule: linked.induct) (auto split: if_splits)

lemma ring_on_head_prev: "ring_on nx pv l \<Longrightarrow> l \<noteq> [] \<Longrightarrow> pv (hd l) = Some (last l)"
  by (simp add: ring_on_linked)

lemma butlast_notin_last: "distinct l \<Longrightarrow> x \<in> set (butlast l) \<Longrightarrow> x \<noteq> last l"
  by (induction l) (auto split: if_splits)

lemma tl_notin_hd: "distinct l \<Longrightarrow> x \<in> set (tl l) \<Longrightarrow> x \<noteq> hd l"
  by (cases l) auto

text \<open>Appending a node at the tail, that is before the head.\<close>

lemma ring_on_insert:
  assumes r: "ring_on nx pv l" and ne: "l \<noteq> []" and n: "n \<notin> set l"
  shows "ring_on (nx(n := Some (hd l), last l := Some n)) (pv(n := Some (last l), hd l := Some n))
           (l @ [n])"
proof -
  let ?nx = "nx(n := Some (hd l), last l := Some n)"
  let ?pv = "pv(n := Some (last l), hd l := Some n)"
  from r ne have d: "distinct l" and lk: "linked nx pv l" by (simp_all add: ring_on_linked)
  have "linked ?nx ?pv l"
    using lk
  proof (rule linked_cong)
    show "?nx x = nx x" if "x \<in> set (butlast l)" for x
      using that n d butlast_notin_last [OF d that] by (auto dest: in_set_butlastD)
    show "?pv x = pv x" if "x \<in> set (tl l)" for x
      using that n d tl_notin_hd [OF d that] by (auto dest: list.set_sel(2) [OF ne])
  qed
  moreover have "last l \<noteq> n" "hd l \<noteq> n" using ne n by auto
  ultimately show ?thesis
    using d n ne by (simp add: ring_on_linked linked_append)
qed

text \<open>Unlinking a node from a circle of at least two.\<close>

lemma ring_on_remove:
  assumes r: "ring_on nx pv (xs @ p # ys)" and ne: "xs @ ys \<noteq> []"
    and a: "nx p = Some b" "pv p = Some a"
  shows "ring_on (nx(a := Some b)) (pv(b := Some a)) (xs @ ys)"
proof -
  let ?nx = "nx(a := Some b)" and ?pv = "pv(b := Some a)"
  from r have d: "distinct (xs @ p # ys)" and lk: "linked nx pv (xs @ p # ys)"
    and w: "nx (last (xs @ p # ys)) = Some (hd (xs @ p # ys))"
    and v: "pv (hd (xs @ p # ys)) = Some (last (xs @ p # ys))"
    by (simp_all add: ring_on_linked)
  have lx: "linked nx pv xs" and ly: "linked nx pv ys"
    using lk by (cases ys; simp add: linked_append)+
  have aa: "a = (if xs = [] then last ys else last xs)"
    using a v lk ne by (auto simp: linked_append split: if_splits)
  have bb: "b = (if ys = [] then hd xs else hd ys)"
    using a w lk ne by (cases ys) (auto simp: linked_append split: if_splits)
  have lx': "linked ?nx ?pv xs"
    using lx
  proof (rule linked_cong)
    show "?nx x = nx x" if "x \<in> set (butlast xs)" for x
      using that d butlast_notin_last [of xs x] aa by (auto dest: in_set_butlastD)
    show "?pv x = pv x" if "x \<in> set (tl xs)" for x
      using that d tl_notin_hd [of xs x] bb
      by (cases xs; cases ys) auto
  qed
  have ly': "linked ?nx ?pv ys"
    using ly
  proof (rule linked_cong)
    show "?nx x = nx x" if "x \<in> set (butlast ys)" for x
    proof -
      have "x \<in> set ys" using that by (rule in_set_butlastD)
      then have "x \<noteq> a" using d aa butlast_notin_last [OF _ that] last_in_set [of xs]
        by (cases "xs = []") (auto simp: disjoint_iff)
      then show ?thesis by simp
    qed
    show "?pv x = pv x" if "x \<in> set (tl ys)" for x
      using that d tl_notin_hd [of ys x] bb by (cases ys) auto
  qed
  show ?thesis
  proof (cases "xs = [] \<or> ys = []")
    case True
    then show ?thesis
    proof
      assume "xs = []"
      with ne d lx' ly' w v aa bb lk show ?thesis
        by (auto simp: ring_on_linked linked_append)
    next
      assume "ys = []"
      with ne d lx' ly' w v aa bb lk show ?thesis
        by (auto simp: ring_on_linked linked_append)
    qed
  next
    case False
    have "last ys \<noteq> last xs" using False d by (metis IntI distinct_append empty_iff last_in_set set_subset_Cons subsetD)
    moreover have "hd xs \<noteq> hd ys" using False d by (cases xs; cases ys) auto
    ultimately show ?thesis using False d lx' ly' w v aa bb
      by (auto simp: ring_on_linked linked_append)
  qed
qed

text \<open>A circle can be read from any of its nodes.\<close>

lemma ring_on_rotate:
  assumes "ring_on nx pv (xs @ ys)"
  shows "ring_on nx pv (ys @ xs)"
proof (cases "xs = [] \<or> ys = []")
  case True
  with assms show ?thesis by auto
next
  case False
  with assms show ?thesis by (auto simp: ring_on_linked linked_append)
qed

text \<open>The neighbours of a node in a circle of at least two.\<close>

lemma ring_on_neighbours:
  assumes r: "ring_on nx pv (xs @ p # ys)" and ne: "ys @ xs \<noteq> []"
  shows "nx p = Some (hd (ys @ xs))" "pv p = Some (last (ys @ xs))"
    "hd (ys @ xs) \<noteq> p" "last (ys @ xs) \<noteq> p"
proof -
  have "ring_on nx pv (p # (ys @ xs))" using ring_on_rotate [OF r] by simp
  then show "nx p = Some (hd (ys @ xs))" "pv p = Some (last (ys @ xs))"
    using ne by (cases "ys @ xs"; simp add: ring_on_linked)+
  have "p \<notin> set (ys @ xs)" using ring_on_distinct [OF r] by auto
  then show "hd (ys @ xs) \<noteq> p" "last (ys @ xs) \<noteq> p" using ne hd_in_set last_in_set by metis+
qed

section \<open>Arrays whose elements carry two links\<close>

text \<open>
  The interface of such an array: a store with a size, two readers, and two writers that
  change one link of one element. A provider promises the usual laws of writing and reading;
  a client gets that linking a node in before the head appends it to the circle, and that
  the unlinking code removes it.
\<close>

locale link_store =
  fixes size_of :: "'s \<Rightarrow> nat"
    and nxt prv :: "'s \<Rightarrow> nat \<Rightarrow> nat option"
    and set_nxt set_prv :: "nat \<Rightarrow> nat option \<Rightarrow> 's \<Rightarrow> 's"
  assumes size_set_nxt: "size_of (set_nxt i v s) = size_of s"
    and size_set_prv: "size_of (set_prv i v s) = size_of s"
    and nxt_set_nxt: "i < size_of s \<Longrightarrow> nxt (set_nxt i v s) = (nxt s)(i := v)"
    and prv_set_nxt: "prv (set_nxt i v s) = prv s"
    and nxt_set_prv: "nxt (set_prv i v s) = nxt s"
    and prv_set_prv: "i < size_of s \<Longrightarrow> prv (set_prv i v s) = (prv s)(i := v)"
begin

lemmas store_laws =
  size_set_nxt size_set_prv nxt_set_nxt prv_set_nxt nxt_set_prv prv_set_prv

lemma self_ring:
  "n < size_of s \<Longrightarrow>
   ring_on (nxt (set_nxt n (Some n) (set_prv n (Some n) s)))
           (prv (set_nxt n (Some n) (set_prv n (Some n) s))) [n]"
  by (simp add: store_laws)

lemma insert_before_head:
  assumes r: "ring_on (nxt s) (prv s) l" and ne: "l \<noteq> []" and n: "n \<notin> set l"
    and size: "n < size_of s" "\<And>i. i \<in> set l \<Longrightarrow> i < size_of s"
    and t: "prv s (hd l) = Some t"
  shows "ring_on
    (nxt (set_prv (hd l) (Some n) (set_nxt t (Some n) (set_prv n (Some t) (set_nxt n (Some (hd l)) s)))))
    (prv (set_prv (hd l) (Some n) (set_nxt t (Some n) (set_prv n (Some t) (set_nxt n (Some (hd l)) s)))))
    (l @ [n])"
proof -
  have tl: "t = last l" using ring_on_head_prev [OF r ne] t by simp
  have "hd l < size_of s" "last l < size_of s" using ne size(2) by simp_all
  then show ?thesis
    using ring_on_insert [OF r ne n] size(1) by (simp add: store_laws tl)
qed

lemma insert_before_head_swapped:
  assumes r: "ring_on (nxt s) (prv s) l" and ne: "l \<noteq> []" and n: "n \<notin> set l"
    and size: "n < size_of s" "\<And>i. i \<in> set l \<Longrightarrow> i < size_of s"
    and t: "prv s (hd l) = Some t"
  shows "ring_on
    (nxt (set_prv (hd l) (Some n) (set_nxt t (Some n) (set_nxt n (Some (hd l)) (set_prv n (Some t) s)))))
    (prv (set_prv (hd l) (Some n) (set_nxt t (Some n) (set_nxt n (Some (hd l)) (set_prv n (Some t) s)))))
    (l @ [n])"
proof -
  have "t < size_of s" "hd l < size_of s"
    using size(2) ne t ring_on_head_prev [OF r ne] by auto
  then show ?thesis using insert_before_head [OF assms] size by (simp add: store_laws)
qed

lemma unlink_node_swapped:
  assumes r: "ring_on (nxt s) (prv s) (xs @ p # ys)" and ne: "xs @ ys \<noteq> []"
    and size: "\<And>i. i \<in> set (xs @ p # ys) \<Longrightarrow> i < size_of s"
    and a: "nxt s p = Some b" "prv s p = Some a" and in_l: "a \<in> set (xs @ p # ys)" "b \<in> set (xs @ p # ys)"
  shows "ring_on (nxt (set_nxt a (Some b) (set_prv b (Some a) s)))
                 (prv (set_nxt a (Some b) (set_prv b (Some a) s))) (xs @ ys)"
  using ring_on_remove [OF r ne a] size [OF in_l(1)] size [OF in_l(2)] by (simp add: store_laws)

lemma unlink_node:
  assumes r: "ring_on (nxt s) (prv s) (xs @ p # ys)" and ne: "xs @ ys \<noteq> []"
    and size: "\<And>i. i \<in> set (xs @ p # ys) \<Longrightarrow> i < size_of s"
    and a: "nxt s p = Some b" "prv s p = Some a" and in_l: "a \<in> set (xs @ p # ys)" "b \<in> set (xs @ p # ys)"
  shows "ring_on (nxt (set_prv b (Some a) (set_nxt a (Some b) s)))
                 (prv (set_prv b (Some a) (set_nxt a (Some b) s))) (xs @ ys)"
  using ring_on_remove [OF r ne a] size [OF in_l(1)] size [OF in_l(2)] by (simp add: store_laws)

end

end
