(* ===== verification/Chain.thy ===== *)
theory Chain
  imports Prelude
begin

text \<open>
  Singly linked lists that end in \<open>NULL\<close>, as the kernel uses them for the alarm queue, for free
  lists and for the interrupt handlers: \<open>chain nx h l\<close> says that following the links \<open>nx\<close>
  from \<open>h\<close> visits exactly the nodes \<open>l\<close>.
\<close>

fun chain :: "('n \<Rightarrow> 'n option) \<Rightarrow> 'n option \<Rightarrow> 'n list \<Rightarrow> bool" where
  "chain nx h [] \<longleftrightarrow> h = None"
| "chain nx h (x # l) \<longleftrightarrow> h = Some x \<and> chain nx (nx x) l"

lemma chain_cong:
  "chain nx h l \<Longrightarrow> (\<And>x. x \<in> set l \<Longrightarrow> nx' x = nx x) \<Longrightarrow> chain nx' h l"
  by (induction nx h l rule: chain.induct) auto

lemma chain_head: "chain nx h l \<Longrightarrow> h = (case l of [] \<Rightarrow> None | x # _ \<Rightarrow> Some x)"
  by (cases l) auto

lemma chain_unique: "chain nx h l \<Longrightarrow> chain nx h l' \<Longrightarrow> l = l'"
proof (induction l arbitrary: h l')
  case Nil
  then show ?case by (cases l') auto
next
  case (Cons x l)
  then show ?case by (cases l') auto
qed

lemma chain_drop: "chain nx h (xs @ y # ys) \<Longrightarrow> chain nx (nx y) ys"
  by (induction xs arbitrary: h) auto

lemma chain_distinct:
  assumes "chain nx h l"
  shows "distinct l"
  using assms
proof (induction l arbitrary: h)
  case (Cons x l)
  have "x \<notin> set l"
  proof
    assume "x \<in> set l"
    then obtain xs ys where l: "l = xs @ x # ys" by (meson split_list)
    have "chain nx (nx x) l" using Cons.prems by simp
    moreover have "chain nx (nx x) ys" using calculation l chain_drop by metis
    ultimately have "l = ys" by (rule chain_unique)
    with l show False by simp
  qed
  with Cons show ?case by auto
qed simp

text \<open>Linking a node in behind \<open>c\<close>.\<close>

lemma chain_insert_after:
  assumes "chain nx h (xs @ c # ys)" "n \<notin> set (xs @ c # ys)"
    and "nx' n = nx c" "nx' c = Some n" "\<And>x. x \<noteq> n \<Longrightarrow> x \<noteq> c \<Longrightarrow> nx' x = nx x"
  shows "chain nx' h (xs @ c # n # ys)"
  using assms
proof (induction xs arbitrary: h)
  case Nil
  have "c \<notin> set ys" using chain_distinct [OF Nil(1)] by simp
  have "chain nx' (nx c) ys"
  proof (rule chain_cong)
    show "chain nx (nx c) ys" using Nil(1) by simp
    show "nx' x = nx x" if "x \<in> set ys" for x
      using Nil(2) \<open>c \<notin> set ys\<close> that by (intro Nil(5)) auto
  qed
  moreover have "h = Some c" using Nil(1) by simp
  ultimately show ?case using Nil(3,4) by simp
next
  case (Cons x xs)
  have "x \<noteq> c" "x \<noteq> n" using chain_distinct [OF Cons.prems(1)] Cons.prems(2) by auto
  then have x: "nx' x = nx x" by (rule Cons.prems(5) [rotated])
  have h: "h = Some x" and ch: "chain nx (nx x) (xs @ c # ys)" using Cons.prems(1) by simp_all
  have "chain nx' (nx x) (xs @ c # n # ys)"
  proof (rule Cons.IH [OF ch])
    show "n \<notin> set (xs @ c # ys)" using Cons.prems(2) by simp
  qed (rule Cons.prems(3,4,5), assumption?)+
  then show ?case using h x by simp
qed

end
