(* ===== verification/Printf.thy ===== *)
theory Printf
  imports Prelude "HOL-Library.Signed_Division"
begin

text \<open>
  kernel/vfprintf.c, the formatted output of \<open>printk\<close> and \<open>panic\<close>, and the formatting
  loop of \<open>printf\<close> in lib/oslib.c, which differs only in where the characters go. A format
  string is a HOL string without its terminating NUL; an argument is a machine word or a
  string; the result is the sequence of characters handed to the printer.
\<close>

section \<open>Digits\<close>

text \<open>The loop \<open>for (i = 0; dec != 0; dec /= 10, ++ i) temp[i] = dec % 10\<close>, as the contents
  of \<open>temp\<close> from index 0. C division truncates towards zero.\<close>

function dec_digits :: "int \<Rightarrow> u32 list" where
  "dec_digits d = (if d = 0 then [] else word_of_int (d smod 10) # dec_digits (d sdiv 10))"
  by pat_completeness auto
termination
proof (relation "measure (\<lambda>d. nat \<bar>d\<bar>)", goal_cases)
  case (2 d)
  have "\<bar>d sdiv 10\<bar> < \<bar>d\<bar>" using 2 by (simp add: signed_divide_int_def abs_mult)
  then show ?case by simp
qed simp

declare dec_digits.simps [simp del]

lemma dec_digits_0 [simp]: "dec_digits 0 = []"
  by (simp add: dec_digits.simps)

function hex_digits :: "u32 \<Rightarrow> u32 list" where
  "hex_digits h = (if h = 0 then [] else (h AND 0xF) # hex_digits (drop_bit 4 h))"
  by pat_completeness auto
termination
proof (relation "measure unat", goal_cases)
  case (2 h)
  have "unat (drop_bit 4 h) = unat h div 16" by (simp add: drop_bit_eq_div unat_div)
  with 2 show ?case by (simp add: unat_gt_0)
qed simp

declare hex_digits.simps [simp del]

lemma hex_digits_0 [simp]: "hex_digits 0 = []"
  by (simp add: hex_digits.simps)

definition put_digit :: "u32 \<Rightarrow> u8" where
  "put_digit t = ucast (t + 48)"

definition put_hex_digit :: "u32 \<Rightarrow> u8" where
  "put_hex_digit t = (if t < 10 then ucast (t + 48) else ucast (t - 10 + 65))"

text \<open>\<open>dec = -dec\<close> on a 32-bit integer: the most negative value is its own negation.\<close>

definition format_d :: "u32 \<Rightarrow> u8 list" where
  "format_d w =
     (if w = 0 then [of_char (CHR ''0'')]
      else if sint w < 0 then of_char (CHR ''-'') # map put_digit (rev (dec_digits (sint (- w))))
      else map put_digit (rev (dec_digits (sint w))))"

definition format_x :: "u32 \<Rightarrow> u8 list" where
  "format_x w =
     (if w = 0 then [of_char (CHR ''0'')] else map put_hex_digit (rev (hex_digits w)))"

section \<open>The format interpreter\<close>

datatype arg = ArgWord u32 | ArgStr string

fun vfprintf :: "string \<Rightarrow> arg list \<Rightarrow> error + u8 list" where
  "vfprintf [] args = Inr []"
| "vfprintf (c # ctl) args =
     (if c \<noteq> CHR ''%'' then bindE (vfprintf ctl args) (\<lambda>out. Inr (of_char c # out))
      else case ctl of
        [] \<Rightarrow> Inl (Fault ''vfprintf: reads past the end of the format'')
      | k # rest \<Rightarrow>
          if k = CHR ''d'' \<or> k = CHR ''x'' \<or> k = CHR ''c'' then
            (case args of
               ArgWord w # args' \<Rightarrow>
                 bindE (vfprintf rest args') (\<lambda>out. Inr
                   ((if k = CHR ''d'' then format_d w
                     else if k = CHR ''x'' then format_x w else [ucast w]) @ out))
             | _ \<Rightarrow> Inl (Fault ''vfprintf: argument''))
          else if k = CHR ''s'' then
            (case args of
               ArgStr str # args' \<Rightarrow>
                 bindE (vfprintf rest args') (\<lambda>out. Inr (map of_char str @ out))
             | _ \<Rightarrow> Inl (Fault ''vfprintf: argument''))
          else if k = CHR ''%'' then bindE (vfprintf rest args) (\<lambda>out. Inr (of_char k # out))
          else vfprintf rest args)"

text \<open>A format without directives is printed as it is.\<close>

lemma vfprintf_plain: "CHR ''%'' \<notin> set ctl \<Longrightarrow> vfprintf ctl args = Inr (map of_char ctl)"
  by (induction ctl) auto

section \<open>Reading numbers back\<close>

text \<open>The reference: the value of a decimal or hexadecimal numeral.\<close>

definition digit_val :: "u8 \<Rightarrow> int" where
  "digit_val c = (if uint c < 58 then uint c - 48 else uint c - 55)"

fun read_digits :: "int \<Rightarrow> int \<Rightarrow> u8 list \<Rightarrow> int" where
  "read_digits b acc [] = acc"
| "read_digits b acc (c # cs) = read_digits b (b * acc + digit_val c) cs"

definition read_int :: "u8 list \<Rightarrow> int" where
  "read_int s = (case s of
     c # cs \<Rightarrow> if c = of_char (CHR ''-'') then - read_digits 10 0 cs else read_digits 10 0 s
   | [] \<Rightarrow> 0)"

definition is_digit :: "u8 \<Rightarrow> bool" where
  "is_digit c \<longleftrightarrow> 48 \<le> uint c \<and> uint c \<le> 57"

definition is_hex_digit :: "u8 \<Rightarrow> bool" where
  "is_hex_digit c \<longleftrightarrow> 48 \<le> uint c \<and> uint c \<le> 57 \<or> 65 \<le> uint c \<and> uint c \<le> 70"

lemma read_digits_snoc: "read_digits b acc (s @ [c]) = b * read_digits b acc s + digit_val c"
  by (induction s arbitrary: acc) auto

text \<open>The digits of a non-negative number, in C's division, are the usual ones.\<close>

lemma sdiv_smod_pos: "0 \<le> (d::int) \<Longrightarrow> d sdiv 10 = d div 10 \<and> d smod 10 = d mod 10"
  by (auto simp: signed_divide_int_def signed_modulo_int_def sgn_if minus_div_mult_eq_mod
      zero_less_iff_neq_zero)

lemma put_digit_val:
  assumes "0 \<le> k" "k < 10"
  shows "uint (put_digit (word_of_int k)) = k + 48"
proof -
  have "uint (word_of_int k + 48 :: u32) = k + 48"
    using assms by (simp add: uint_word_ariths uint_word_of_int)
  then show ?thesis using assms by (simp add: put_digit_def unsigned_ucast_eq take_bit_eq_mod)
qed

lemma dec_digits_value:
  "0 \<le> d \<Longrightarrow> read_digits 10 0 (map put_digit (rev (dec_digits d))) = d"
proof (induction d rule: dec_digits.induct)
  case (1 d)
  show ?case
  proof (cases "d = 0")
    case True
    then show ?thesis by (simp add: dec_digits.simps)
  next
    case False
    have e: "d sdiv 10 = d div 10" "d smod 10 = d mod 10"
      using "1.prems" sdiv_smod_pos by blast+
    have "digit_val (put_digit (word_of_int (d mod 10))) = d mod 10"
      using put_digit_val [of "d mod 10"] by (simp add: digit_val_def)
    then show ?thesis
      using False "1.IH" "1.prems" e
      by (simp add: dec_digits.simps [of d] read_digits_snoc)
  qed
qed

lemma dec_digits_is_digit:
  "0 \<le> d \<Longrightarrow> t \<in> set (dec_digits d) \<Longrightarrow> is_digit (put_digit t)"
proof (induction d rule: dec_digits.induct)
  case (1 d)
  have e: "d sdiv 10 = d div 10" "d smod 10 = d mod 10"
    using "1.prems"(1) sdiv_smod_pos by blast+
  have "is_digit (put_digit (word_of_int (d mod 10)))"
    using put_digit_val [of "d mod 10"] by (simp add: is_digit_def)
  then show ?case
    using "1.IH" "1.prems" e by (cases "d = 0") (auto simp: dec_digits.simps [of d])
qed

lemma dec_digits_length: "0 \<le> d \<Longrightarrow> d < 10 ^ n \<Longrightarrow> length (dec_digits d) \<le> n"
proof (induction n arbitrary: d)
  case 0
  then show ?case by (simp add: dec_digits.simps)
next
  case (Suc n)
  have "d div 10 < 10 ^ n" using Suc.prems(2) by simp
  then show ?case using Suc sdiv_smod_pos [of d]
    by (cases "d = 0") (simp_all add: dec_digits.simps [of d])
qed

text \<open>The same for hexadecimal.\<close>

lemma put_hex_digit_val:
  assumes "t < 16"
  shows "digit_val (put_hex_digit t) = uint t" and "is_hex_digit (put_hex_digit t)"
proof -
  have lt: "uint t < 16" using assms by (simp add: word_less_def)
  have *: "uint (put_hex_digit t) = (if uint t < 10 then uint t + 48 else uint t + 55)"
  proof (cases "t < 10")
    case True
    then have "uint (t + 48) = uint t + 48"
      by (simp add: uint_word_ariths word_less_def)
    with True show ?thesis
      by (simp add: put_hex_digit_def unsigned_ucast_eq take_bit_eq_mod word_less_def)
  next
    case False
    then have "uint (t - 10 + 65) = uint t + 55"
      using lt by (simp add: uint_word_ariths word_less_def)
    with False lt show ?thesis
      by (simp add: put_hex_digit_def unsigned_ucast_eq take_bit_eq_mod word_less_def)
  qed
  show "digit_val (put_hex_digit t) = uint t" using * lt by (simp add: digit_val_def)
  show "is_hex_digit (put_hex_digit t)" using * lt by (simp add: is_hex_digit_def)
qed

lemma hex_low_digit: "(h AND 0xF :: u32) < 16" "uint (h AND 0xF :: u32) = uint h mod 16"
proof -
  have e: "h AND 0xF = take_bit 4 h" by (simp add: take_bit_eq_mask mask_eq_exp_minus_1)
  then show "uint (h AND 0xF) = uint h mod 16" by (simp add: take_bit_eq_mod uint_mod)
  then show "(h AND 0xF) < 16" by (simp add: word_less_def)
qed

lemma hex_digits_value: "read_digits 16 0 (map put_hex_digit (rev (hex_digits h))) = uint h"
proof (induction h rule: hex_digits.induct)
  case (1 h)
  show ?case
  proof (cases "h = 0")
    case True
    then show ?thesis by simp
  next
    case False
    have "uint (drop_bit 4 h) = uint h div 16" by (simp add: drop_bit_eq_div uint_div)
    then show ?thesis
      using False "1.IH" put_hex_digit_val(1) [OF hex_low_digit(1)] hex_low_digit(2) [of h]
      by (simp add: hex_digits.simps [of h] read_digits_snoc)
  qed
qed

lemma hex_digits_is_digit: "t \<in> set (hex_digits h) \<Longrightarrow> is_hex_digit (put_hex_digit t)"
proof (induction h rule: hex_digits.induct)
  case (1 h)
  then show ?case using put_hex_digit_val(2) [OF hex_low_digit(1)]
    by (cases "h = 0") (auto simp: hex_digits.simps [of h])
qed

lemma hex_digits_length: "uint h < 16 ^ n \<Longrightarrow> length (hex_digits h) \<le> n"
proof (induction n arbitrary: h)
  case 0
  then have "h < 1" by (simp add: word_less_def)
  then have "h = 0" by simp
  then show ?case by simp
next
  case (Suc n)
  have "uint (drop_bit 4 h) = uint h div 16" by (simp add: drop_bit_eq_div uint_div)
  then have "uint (drop_bit 4 h) < 16 ^ n" using Suc.prems by simp
  then show ?case using Suc.IH by (cases "h = 0") (simp_all add: hex_digits.simps [of h])
qed

lemma not_minus_digit: "is_digit c \<Longrightarrow> c \<noteq> of_char (CHR ''-'')"
  by (auto simp: is_digit_def)

lemma sint_neg_minus: "sint (w::u32) < 0 \<Longrightarrow> w \<noteq> 0x80000000 \<Longrightarrow> sint (- w) = - sint w"
proof -
  assume neg: "sint w < 0" and ne: "w \<noteq> 0x80000000"
  have "- (2 ^ 31) \<le> sint w" using sint_ge [of w] by simp
  moreover have "sint w \<noteq> - (2 ^ 31)"
  proof
    assume "sint w = - (2 ^ 31)"
    then have "word_of_int (sint w) = (word_of_int (- (2 ^ 31)) :: u32)" by simp
    then have "w = 0x80000000" by simp
    with ne show False by simp
  qed
  ultimately show ?thesis using neg
    by (simp add: sint_word_ariths signed_take_bit_int_eq_self)
qed

section \<open>Properties\<close>

lemma dec_digits_ne: "d \<noteq> 0 \<Longrightarrow> dec_digits d \<noteq> []"
  by (simp add: dec_digits.simps [of d])

lemma digits_of_pos:
  assumes "0 < d" "d < 2 ^ 31"
  defines "ds \<equiv> map put_digit (rev (dec_digits d))"
  shows "read_int ds = d" and "list_all is_digit ds" and "length ds \<le> 10"
proof -
  show dig: "list_all is_digit ds"
    using assms dec_digits_is_digit [of d] by (auto simp: list_all_iff)
  have "ds \<noteq> []" using dec_digits_ne [of d] assms by simp
  then obtain c cs where ds: "ds = c # cs" by (cases ds) auto
  with dig have "c \<noteq> of_char (CHR ''-'')" using not_minus_digit [of c] by simp
  with ds have "read_int ds = read_digits 10 0 ds" by (simp add: read_int_def)
  also have "\<dots> = d" using dec_digits_value [of d] assms by simp
  finally show "read_int ds = d" .
  show "length ds \<le> 10" using dec_digits_length [of d 10] assms by simp
qed

text \<open>C15: The digits that \<open>%d\<close> prints are read back as the signed value of the argument, for
  every 32-bit argument but the most negative one, and they are at most ten behind the sign, so
  the loop stays inside \<open>temp[12]\<close>.\<close>

theorem vfprintf_decimal:
  assumes "w \<noteq> 0x80000000"
  shows "vfprintf ''%d'' [ArgWord w] = Inr (format_d w)
    \<and> read_int (format_d w) = sint w
    \<and> list_all (\<lambda>c. is_digit c \<or> c = of_char (CHR ''-'')) (format_d w)
    \<and> length (format_d w) \<le> 11"
proof -
  have "vfprintf ''%d'' [ArgWord w] = Inr (format_d w)" by simp
  moreover have "read_int (format_d w) = sint w
    \<and> list_all (\<lambda>c. is_digit c \<or> c = of_char (CHR ''-'')) (format_d w)
    \<and> length (format_d w) \<le> 11"
  proof -
    have hi: "sint w < 2 ^ 31" "- (2 ^ 31) \<le> sint w"
      using sint_lt [of w] sint_ge [of w] by simp_all
    consider "w = 0" | "w \<noteq> 0" "sint w < 0" | "w \<noteq> 0" "0 < sint w"
      by (metis linorder_less_linear signed_eq_0_iff)
    then show ?thesis
    proof cases
      case 1
      then show ?thesis by (simp add: format_d_def read_int_def digit_val_def is_digit_def)
    next
      case 2
      have m: "sint (- w) = - sint w" using sint_neg_minus 2 assms by blast
      have "- sint w \<noteq> 2 ^ 31" using m sint_lt [of "- w"] by auto
      with 2 hi have "0 < - sint w" "- sint w < 2 ^ 31" by simp_all
      note ds = digits_of_pos [OF this]
      have "read_digits 10 0 (map put_digit (rev (dec_digits (- sint w)))) = - sint w"
        using dec_digits_value [of "- sint w"] 2 by simp
      then show ?thesis using 2 ds m
        by (auto simp: format_d_def read_int_def list_all_iff)
    next
      case 3
      note ds = digits_of_pos [OF 3(2) hi(1)]
      then show ?thesis using 3 by (auto simp: format_d_def list_all_iff)
    qed
  qed
  ultimately show ?thesis by blast
qed

theorem vfprintf_decimal_witness:
  "vfprintf ''%d'' [ArgWord (- 2012)] = Inr (format_d (- 2012))
    \<and> read_int (format_d (- 2012)) = - 2012"
  using vfprintf_decimal [of "- 2012"] by simp

text \<open>\<open>%x\<close> prints at most eight upper-case hexadecimal digits, and they are read back as
  the unsigned value of the argument, for every argument.\<close>

theorem vfprintf_hexadecimal:
  "vfprintf ''%x'' [ArgWord w] = Inr (format_x w)
    \<and> read_digits 16 0 (format_x w) = uint w
    \<and> list_all is_hex_digit (format_x w) \<and> length (format_x w) \<le> 8"
proof -
  have "length (hex_digits w) \<le> 8"
    using hex_digits_length [of w 8] uint_bounded [of w] by simp
  then show ?thesis
    using hex_digits_value [of w] hex_digits_is_digit [of _ w]
    by (auto simp: format_x_def digit_val_def is_hex_digit_def list_all_iff)
qed

text \<open>The most negative integer is not printed as a number: its negation wraps back to
  itself, every remainder is negative, and the characters below \<open>'0'\<close> come out.\<close>

theorem vfprintf_int_min:
  "vfprintf ''%d'' [ArgWord 0x80000000] = Inr (map of_char ''-./,),(-*,('')"
proof -
  have "dec_digits (- 2147483648) = map word_of_int [-8, -4, -6, -3, -8, -4, -7, -4, -1, -2]"
    by (simp add: dec_digits.simps signed_divide_int_def signed_modulo_int_def)
  then show ?thesis by (simp add: format_d_def put_digit_def)
qed

end
