(* ===== verification/Console.thy ===== *)
theory Console
  imports Printf
begin

text \<open>
  kernel/console.c: the text screen and its cursor. The state is the 25 by 80 cells of video
  memory, the cursor \<open>x\<close> (row) and \<open>y\<close> (column), and the sequence of bytes written to the
  6845 controller's ports. A store outside the cells is a \<open>Fault\<close>.
\<close>

section \<open>State and constants\<close>

record console =
  vmem :: "u16 list"
  con_x :: int
  con_y :: int
  con_ports :: "(u16 \<times> u8) list"

definition CRT_COLUMN :: int where "CRT_COLUMN = 80"
definition CRT_ROW :: int where "CRT_ROW = 25"
definition BLACK :: u32 where "BLACK = 0"
definition GREEN :: u32 where "GREEN = 2"
definition WHITE :: u32 where "WHITE = 7"
definition RED :: u32 where "RED = 12"

lemmas crt_defs = CRT_COLUMN_def CRT_ROW_def

definition cell :: "u32 \<Rightarrow> u32 \<Rightarrow> u8 \<Rightarrow> u16" where
  \<comment> \<open>\<open>(backcolor << 12) | (forecolor << 8) | ch\<close>, with \<open>ch\<close> a signed char widened to int\<close>
  "cell forecolor backcolor ch =
     ucast (push_bit 12 backcolor OR push_bit 8 forecolor OR (scast ch :: u32))"

definition blank :: u16 where
  "blank = cell WHITE BLACK (of_char (CHR '' ''))"

section \<open>Operations\<close>

definition con_out_byte :: "u16 \<Rightarrow> u8 \<Rightarrow> console \<Rightarrow> console" where
  "con_out_byte port data c = c\<lparr>con_ports := con_ports c @ [(port, data)]\<rparr>"

definition cursor_bytes :: "int \<Rightarrow> int \<Rightarrow> (u16 \<times> u8) list" where
  "cursor_bytes x y =
     (let pos = word_of_int (x * 80 + y) :: u32 in
      [(0x3D4, 0x0E), (0x3D5, ucast (drop_bit 8 pos AND 0xFF)),
       (0x3D4, 0x0F), (0x3D5, ucast (pos AND 0xFF))])"

definition move_cursor :: "int \<Rightarrow> int \<Rightarrow> console \<Rightarrow> console" where
  "move_cursor x y c = fold (\<lambda>(port, data). con_out_byte port data) (cursor_bytes x y) c"

definition init_screen :: "console \<Rightarrow> console" where
  "init_screen c =
     move_cursor 0 0 (c\<lparr>vmem := replicate (nat (CRT_COLUMN * CRT_ROW)) blank,
                        con_x := 0, con_y := 0\<rparr>)"

definition cursor_left1 :: "console \<Rightarrow> console" where
  "cursor_left1 c =
     (let c = c\<lparr>con_y := con_y c - 1\<rparr>;
          c = (if con_y c < 0 then c\<lparr>con_y := CRT_COLUMN - 1, con_x := con_x c - 1\<rparr> else c)
      in move_cursor (con_x c) (con_y c) c)"

definition cursor_right1 :: "console \<Rightarrow> console" where
  "cursor_right1 c =
     (let c = c\<lparr>con_y := con_y c + 1\<rparr>
      in if con_y c \<ge> CRT_COLUMN then c\<lparr>con_x := con_x c + 1, con_y := 0\<rparr> else c)"

text \<open>\<open>while (count --)\<close>: a negative count would run into signed overflow.\<close>

definition cursor_left :: "int \<Rightarrow> console \<Rightarrow> error + console" where
  "cursor_left count c =
     (if count < 0 then Inl (Fault ''cursor_left: count overflows'')
      else Inr ((cursor_left1 ^^ nat count) c))"

definition cursor_right :: "int \<Rightarrow> console \<Rightarrow> error + console" where
  "cursor_right count c =
     (if count < 0 then Inl (Fault ''cursor_right: count overflows'')
      else (let c = (cursor_right1 ^^ nat count) c
            in Inr (move_cursor (con_x c) (con_y c) c)))"

definition wrap_screen :: "u16 list \<Rightarrow> u16 list" where
  "wrap_screen v =
     (let v = fold (\<lambda>i v. v[i - 80 := v ! i]) [80..<25 * 80] v
      in fold (\<lambda>i v. v[25 * 80 - i - 1 := blank]) [0..<80] v)"

definition color_console_printc :: "u32 \<Rightarrow> u32 \<Rightarrow> u8 \<Rightarrow> console \<Rightarrow> error + console" where
  "color_console_printc forecolor backcolor ch c =
     bindE
       (if ch = of_char (CHR 0x0A) then Inr (c\<lparr>con_x := con_x c + 1, con_y := 0\<rparr>)
        else let i = con_x c * CRT_COLUMN + con_y c in
          if 0 \<le> i \<and> i < int (length (vmem c)) then
            (let c = c\<lparr>vmem := (vmem c)[nat i := cell forecolor backcolor ch],
                       con_y := con_y c + 1\<rparr>
             in Inr (if con_y c \<ge> CRT_COLUMN then c\<lparr>con_x := con_x c + 1, con_y := 0\<rparr> else c))
          else Inl (Fault ''vmem''))
     (\<lambda>c. let c = (if con_x c \<ge> CRT_ROW
                   then c\<lparr>con_x := CRT_ROW - 1, vmem := wrap_screen (vmem c)\<rparr> else c)
          in Inr (move_cursor (con_x c) (con_y c) c))"

definition console_printc :: "u8 \<Rightarrow> console \<Rightarrow> error + console" where
  "console_printc ch = color_console_printc WHITE BLACK ch"

definition red_console_printc :: "u8 \<Rightarrow> console \<Rightarrow> error + console" where
  "red_console_printc ch = color_console_printc RED BLACK ch"

definition green_console_printc :: "u8 \<Rightarrow> console \<Rightarrow> error + console" where
  "green_console_printc ch = color_console_printc GREEN BLACK ch"

text \<open>\<open>vfprintf\<close> hands its characters to the printer one by one.\<close>

fun print_all :: "(u8 \<Rightarrow> console \<Rightarrow> error + console) \<Rightarrow> u8 list \<Rightarrow> console \<Rightarrow> error + console" where
  "print_all printer [] c = Inr c"
| "print_all printer (ch # s) c = bindE (printer ch c) (print_all printer s)"

definition printk :: "string \<Rightarrow> arg list \<Rightarrow> console \<Rightarrow> error + console" where
  "printk ctl args c = bindE (vfprintf ctl args) (\<lambda>s. print_all console_printc s c)"

definition red_printk :: "string \<Rightarrow> arg list \<Rightarrow> console \<Rightarrow> error + console" where
  "red_printk ctl args c = bindE (vfprintf ctl args) (\<lambda>s. print_all red_console_printc s c)"

definition green_printk :: "string \<Rightarrow> arg list \<Rightarrow> console \<Rightarrow> error + console" where
  "green_printk ctl args c = bindE (vfprintf ctl args) (\<lambda>s. print_all green_console_printc s c)"

text \<open>\<open>panic\<close> prints its message, disables interrupts and idles for ever: nothing follows it.\<close>

definition panic :: "string \<Rightarrow> error + 'a" where
  "panic ctl = Inl (Panic ctl)"

lemma panic_neq_Inr [simp]: "panic m \<noteq> Inr x" "Inr x \<noteq> panic m"
  by (simp_all add: panic_def)

lemma bindE_panic [simp]: "bindE (panic m) f = panic m"
  by (simp add: panic_def)

section \<open>Scrolling\<close>

lemma scroll_copy:
  "80 + n \<le> length v \<Longrightarrow>
   fold (\<lambda>i v. v[i - 80 := v ! i]) [80..<80 + n] v = take n (drop 80 v) @ drop n v"
proof (induction n)
  case 0
  then show ?case by simp
next
  case (Suc n)
  let ?w = "take n (drop 80 v) @ drop n v"
  have len: "length (take n (drop 80 v)) = n" using Suc.prems by simp
  have at: "?w ! (80 + n) = v ! (80 + n)"
    using Suc.prems len by (simp add: nth_append add.commute)
  have "[80..<80 + Suc n] = [80..<80 + n] @ [80 + n]"
    using upt_Suc_append [of 80 "80 + n"] by simp
  then have "fold (\<lambda>i v. v[i - 80 := v ! i]) [80..<80 + Suc n] v = ?w[n := ?w ! (80 + n)]"
    using Suc by (simp only: fold_append) simp
  also have "\<dots> = take n (drop 80 v) @ (drop n v)[0 := v ! (80 + n)]"
    using Suc.prems len at by (simp add: list_update_append add.commute)
  also have "(drop n v)[0 := v ! (80 + n)] = v ! (80 + n) # drop (Suc n) v"
    using Suc.prems by (subst Cons_nth_drop_Suc [symmetric]) auto
  also have "take n (drop 80 v) @ v ! (80 + n) # drop (Suc n) v = take (Suc n) (drop 80 v) @ drop (Suc n) v"
    using Suc.prems by (simp add: take_Suc_conv_app_nth)
  finally show ?case .
qed

lemma blank_tail:
  "n \<le> length v \<Longrightarrow>
   fold (\<lambda>i v. v[length v - i - 1 := b]) [0..<n] v = take (length v - n) v @ replicate n b"
proof (induction n)
  case 0
  then show ?case by simp
next
  case (Suc n)
  let ?m = "length v - Suc n"
  have m: "length v - n = Suc ?m" "?m < length v" using Suc.prems by simp_all
  have "fold (\<lambda>i v. v[length v - i - 1 := b]) [0..<Suc n] v
      = (take (Suc ?m) v @ replicate n b)[?m := b]"
    using Suc m by simp
  also have "\<dots> = take ?m v @ b # replicate n b"
    using m by (simp add: take_Suc_conv_app_nth list_update_append)
  finally show ?case by simp
qed

lemma fold_length_cong:
  "(\<And>i v. length v = n \<Longrightarrow> f i v = g i v \<and> length (g i v) = n) \<Longrightarrow>
   length v = n \<Longrightarrow> fold f is v = fold g is v"
  by (induction "is" arbitrary: v) auto

lemma wrap_screen_eq:
  assumes "length v = 2000"
  shows "wrap_screen v = drop 80 v @ replicate 80 blank"
proof -
  let ?w = "take 1920 (drop 80 v) @ drop 1920 v"
  have w: "fold (\<lambda>i v. v[i - 80 := v ! i]) [80..<2000] v = ?w"
    using scroll_copy [of 1920 v] assms by (simp del: upt_rec_numeral)
  have "fold (\<lambda>i v. v[25 * 80 - i - 1 := blank]) [0..<80] ?w
      = fold (\<lambda>i v. v[length v - i - 1 := blank]) [0..<80] ?w"
    by (rule fold_length_cong [where n = 2000]) (simp_all add: assms)
  also have "\<dots> = take 1920 ?w @ replicate 80 blank"
    using blank_tail [of 80 ?w blank] assms by (simp del: upt_rec_numeral)
  also have "take 1920 ?w = drop 80 v" using assms by simp
  finally show ?thesis by (simp add: wrap_screen_def Let_def w del: upt_rec_numeral)
qed

lemma length_wrap_screen [simp]: "length v = 2000 \<Longrightarrow> length (wrap_screen v) = 2000"
  by (simp add: wrap_screen_eq)

section \<open>Invariant\<close>

definition console_ok :: "console \<Rightarrow> bool" where
  "console_ok c \<longleftrightarrow> length (vmem c) = 2000 \<and> 0 \<le> con_x c \<and> con_x c < 25 \<and>
                  0 \<le> con_y c \<and> con_y c < 80"

lemma move_cursor_simps [simp]:
  "vmem (move_cursor x y c) = vmem c"
  "con_x (move_cursor x y c) = con_x c"
  "con_y (move_cursor x y c) = con_y c"
  "con_ports (move_cursor x y c) = con_ports c @ cursor_bytes x y"
  by (simp_all add: move_cursor_def cursor_bytes_def con_out_byte_def Let_def)

lemma console_ok_move_cursor [simp]: "console_ok (move_cursor x y c) = console_ok c"
  by (simp add: console_ok_def)

lemma init_screen_ok: "console_ok (init_screen c)"
  by (simp add: init_screen_def console_ok_def crt_defs)

lemma printc_ok:
  assumes "console_ok c"
  shows "\<exists>c'. color_console_printc f b ch c = Inr c' \<and> console_ok c'"
proof -
  have "con_x c * 80 + con_y c < 2000" "0 \<le> con_x c * 80 + con_y c"
    using assms by (auto simp: console_ok_def)
  then show ?thesis
    using assms by (auto simp: color_console_printc_def console_ok_def crt_defs Let_def)
qed

section \<open>Cursor movement\<close>

text \<open>The cursor as one position in the 2000 cells.\<close>

definition cursor_pos_of :: "console \<Rightarrow> int" where
  "cursor_pos_of c = con_x c * 80 + con_y c"

lemma console_ok_pos: "console_ok c \<Longrightarrow> 0 \<le> cursor_pos_of c \<and> cursor_pos_of c < 2000"
  by (auto simp: console_ok_def cursor_pos_of_def)

lemma cursor_left1_step:
  assumes "console_ok c" "0 < cursor_pos_of c"
  shows "console_ok (cursor_left1 c)" and "cursor_pos_of (cursor_left1 c) = cursor_pos_of c - 1"
    and "vmem (cursor_left1 c) = vmem c"
  using assms by (auto simp: cursor_left1_def console_ok_def cursor_pos_of_def crt_defs Let_def)

lemma cursor_right1_step:
  assumes "console_ok c" "cursor_pos_of c < 1999"
  shows "console_ok (cursor_right1 c)" and "cursor_pos_of (cursor_right1 c) = cursor_pos_of c + 1"
    and "vmem (cursor_right1 c) = vmem c"
  using assms by (auto simp: cursor_right1_def console_ok_def cursor_pos_of_def crt_defs Let_def)

lemma cursor_left1_funpow:
  "console_ok c \<Longrightarrow> int n \<le> cursor_pos_of c \<Longrightarrow>
   console_ok ((cursor_left1 ^^ n) c) \<and> cursor_pos_of ((cursor_left1 ^^ n) c) = cursor_pos_of c - int n
   \<and> vmem ((cursor_left1 ^^ n) c) = vmem c"
  by (induction n) (simp_all add: cursor_left1_step)

lemma cursor_right1_funpow:
  "console_ok c \<Longrightarrow> cursor_pos_of c + int n < 2000 \<Longrightarrow>
   console_ok ((cursor_right1 ^^ n) c) \<and> cursor_pos_of ((cursor_right1 ^^ n) c) = cursor_pos_of c + int n
   \<and> vmem ((cursor_right1 ^^ n) c) = vmem c"
  by (induction n) (simp_all add: cursor_right1_step)

lemma cell_index_inj_int:
  assumes "x * 80 + y = x' * 80 + y'" "0 \<le> y" "y < 80" "0 \<le> y'" "y' < (80::int)"
  shows "x = x' \<and> y = y'"
proof -
  have "(x * 80 + y) div 80 = x" "(x' * 80 + y') div 80 = x'" using assms(2-5) by simp_all
  with assms(1) have "x = x'" by simp
  with assms(1) show ?thesis by simp
qed

lemma cell_index_inj_nat:
  assumes "y < 80" "j < (80::nat)"
  shows "80 * x + y = 80 * r + j \<longleftrightarrow> x = r \<and> y = j"
proof
  assume eq: "80 * x + y = 80 * r + j"
  have "(80 * x + y) div 80 = x" "(80 * r + j) div 80 = r" using assms by simp_all
  with eq have "x = r" by simp
  with eq show "x = r \<and> y = j" by simp
qed simp

lemma cursor_pos_inj:
  assumes "console_ok c" "console_ok c'" "cursor_pos_of c = cursor_pos_of c'"
  shows "con_x c = con_x c'" and "con_y c = con_y c'"
  using assms cell_index_inj_int [of "con_x c" "con_y c" "con_x c'" "con_y c'"]
  by (auto simp: console_ok_def cursor_pos_of_def)

lemma cursor_left_spec:
  assumes "console_ok c" "0 \<le> n" "n \<le> cursor_pos_of c"
  shows "\<exists>c'. cursor_left n c = Inr c' \<and> console_ok c' \<and> cursor_pos_of c' = cursor_pos_of c - n
    \<and> vmem c' = vmem c"
  using cursor_left1_funpow [of c "nat n"] assms by (simp add: cursor_left_def)

lemma cursor_right_spec:
  assumes "console_ok c" "0 \<le> n" "cursor_pos_of c + n < 2000"
  shows "\<exists>c'. cursor_right n c = Inr c' \<and> console_ok c' \<and> cursor_pos_of c' = cursor_pos_of c + n
    \<and> vmem c' = vmem c"
  using cursor_right1_funpow [of c "nat n"] assms
  by (simp add: cursor_right_def Let_def cursor_pos_of_def)

section \<open>The screen as a terminal\<close>

text \<open>The abstract terminal: 25 rows of 80 cells, and where the next character goes.\<close>

type_synonym terminal = "u16 list list \<times> nat \<times> nat"

definition row_of :: "u16 list \<Rightarrow> nat \<Rightarrow> u16 list" where
  "row_of v r = map (\<lambda>j. v ! (80 * r + j)) [0..<80]"

definition terminal_of :: "console \<Rightarrow> terminal" where
  "terminal_of c = (map (row_of (vmem c)) [0..<25], nat (con_x c), nat (con_y c))"

definition term_newline :: "terminal \<Rightarrow> terminal" where
  "term_newline t = (case t of (rows, x, y) \<Rightarrow>
     if Suc x < 25 then (rows, Suc x, 0) else (tl rows @ [replicate 80 blank], x, 0))"

definition term_put :: "u16 \<Rightarrow> terminal \<Rightarrow> terminal" where
  "term_put w t = (case t of (rows, x, y) \<Rightarrow>
     let rows = rows[x := (rows ! x)[y := w]]
     in if Suc y < 80 then (rows, x, Suc y) else term_newline (rows, x, y))"

definition term_print :: "u32 \<Rightarrow> u32 \<Rightarrow> u8 \<Rightarrow> terminal \<Rightarrow> terminal" where
  "term_print f b ch = (if ch = of_char (CHR 0x0A) then term_newline else term_put (cell f b ch))"

lemma length_row_of [simp]: "length (row_of v r) = 80"
  by (simp add: row_of_def)

lemma nth_row_of [simp]: "j < 80 \<Longrightarrow> row_of v r ! j = v ! (80 * r + j)"
  by (simp add: row_of_def del: upt_rec_numeral)

lemma row_of_update:
  assumes "length v = 2000" "x < 25" "y < 80" "r < 25"
  shows "row_of (v[80 * x + y := w]) r = (if r = x then (row_of v r)[y := w] else row_of v r)"
proof (rule nth_equalityI)
  fix j assume "j < length (row_of (v[80 * x + y := w]) r)"
  then have j: "j < 80" by simp
  note cell_index_inj_nat [OF assms(3) j, of x r]
  with assms j show "row_of (v[80 * x + y := w]) r ! j
      = (if r = x then (row_of v r)[y := w] else row_of v r) ! j"
    by (auto simp: nth_list_update)
qed simp

lemma rows_update:
  assumes "length v = 2000" "x < 25" "y < 80"
  shows "map (row_of (v[80 * x + y := w])) [0..<25]
    = (map (row_of v) [0..<25])[x := (row_of v x)[y := w]]"
  by (rule nth_equalityI) (use assms in \<open>simp_all add: row_of_update nth_list_update del: upt_rec_numeral\<close>)

lemma rows_scroll:
  assumes "length v = 2000"
  shows "map (row_of (wrap_screen v)) [0..<25] = tl (map (row_of v) [0..<25]) @ [replicate 80 blank]"
proof (rule nth_equalityI)
  fix r assume "r < length (map (row_of (wrap_screen v)) [0..<25])"
  then have r: "r < 25" by simp
  show "map (row_of (wrap_screen v)) [0..<25] ! r
      = (tl (map (row_of v) [0..<25]) @ [replicate 80 blank]) ! r"
  proof (cases "r < 24")
    case True
    then have "row_of (wrap_screen v) r = row_of v (Suc r)"
      using assms by (intro nth_equalityI) (simp_all add: wrap_screen_eq nth_append add.assoc)
    with True show ?thesis by (simp add: nth_append nth_tl del: upt_rec_numeral)
  next
    case False
    with r have "r = 24" by simp
    moreover have "row_of (wrap_screen v) 24 = replicate 80 blank"
      using assms by (intro nth_equalityI) (simp_all add: wrap_screen_eq nth_append)
    ultimately show ?thesis by (simp add: nth_append del: upt_rec_numeral)
  qed
qed (simp del: upt_rec_numeral)

section \<open>Properties\<close>

lemma printc_ports:
  "color_console_printc f b ch c = Inr c' \<Longrightarrow>
   \<exists>pre. con_ports c' = pre @ cursor_bytes (con_x c') (con_y c')"
  by (auto simp: color_console_printc_def Let_def bindE_eq_Inr split: if_splits)

lemma printc_terminal:
  assumes ok: "console_ok c"
  shows "\<exists>c'. color_console_printc f b ch c = Inr c' \<and> console_ok c'
    \<and> terminal_of c' = term_print f b ch (terminal_of c)"
proof -
  obtain x y where x: "con_x c = int x" "x < 25" and y: "con_y c = int y" "y < 80"
    using ok by (metis console_ok_def int_ops(3) nonneg_int_cases of_nat_less_numeral_iff)
  have len: "length (vmem c) = 2000" using ok by (simp add: console_ok_def)
  have i: "int x * 80 + int y < 2000" using x(2) y(2) by simp
  have n: "nat (int x * 80 + int y) = 80 * x + y" by (simp add: nat_plus_as_int)
  obtain c' where c': "color_console_printc f b ch c = Inr c'" "console_ok c'"
    using printc_ok [OF ok] by blast
  let ?v = "(vmem c)[80 * x + y := cell f b ch]"
  have rows: "map (row_of (vmem c)) [0..<25] ! x = row_of (vmem c) x" using x(2)
    by (simp del: upt_rec_numeral)
  have len': "length ?v = 2000" using len by simp
  show ?thesis
  proof (cases "ch = of_char (CHR 0x0A)")
    case True
    then have "terminal_of c' = term_print f b ch (terminal_of c)"
      using c'(1) x y len rows_scroll [OF len]
      by (auto simp: color_console_printc_def term_print_def term_newline_def terminal_of_def
          crt_defs Let_def simp del: upt_rec_numeral split: if_splits)
    with c' show ?thesis by blast
  next
    case False
    then have "terminal_of c' = term_print f b ch (terminal_of c)"
      using c'(1) x y len i rows_update [OF len x(2) y(2), of "cell f b ch"] rows_scroll [OF len']
      by (auto simp: color_console_printc_def term_print_def term_put_def term_newline_def
          terminal_of_def crt_defs Let_def n rows simp del: upt_rec_numeral split: if_splits)
    with c' show ?thesis by blast
  qed
qed

text \<open>C14: Printing any string in any colour from a sound console never stores outside video
  memory, keeps the cursor on the screen, and has exactly the effect of the abstract terminal:
  each character goes to the current cell, rows advance at column 80 and at a line break, and at
  the bottom the rows scroll up by one with a blank row coming in.\<close>

theorem console_refines_terminal:
  assumes "console_ok c"
  shows "\<exists>c'. print_all (color_console_printc f b) s c = Inr c' \<and> console_ok c'
    \<and> terminal_of c' = fold (term_print f b) s (terminal_of c)"
  using assms
proof (induction s arbitrary: c)
  case Nil
  then show ?case by simp
next
  case (Cons ch s)
  obtain c1 where "color_console_printc f b ch c = Inr c1" "console_ok c1"
      "terminal_of c1 = term_print f b ch (terminal_of c)"
    using printc_terminal [OF Cons.prems] by blast
  with Cons.IH [of c1] show ?case by simp
qed

theorem console_refines_terminal_witness:
  "\<exists>c'. print_all (color_console_printc RED BLACK) (map of_char ''ok'')
         (init_screen \<lparr>vmem = [], con_x = 0, con_y = 0, con_ports = []\<rparr>) = Inr c' \<and> console_ok c'"
  using console_refines_terminal [OF init_screen_ok, of RED BLACK "map of_char ''ok''"] by blast

text \<open>Moving the cursor left by a count no larger than its position and then right by the
  same count brings it back, leaves every cell unchanged and never leaves the screen, and the
  last bytes sent to the video controller are the position it shows.\<close>

theorem cursor_left_right_roundtrip:
  assumes "console_ok c" "0 \<le> n" "n \<le> con_x c * 80 + con_y c"
  shows "\<exists>c1 c2. cursor_left n c = Inr c1 \<and> console_ok c1
    \<and> con_x c1 * 80 + con_y c1 = con_x c * 80 + con_y c - n
    \<and> cursor_right n c1 = Inr c2 \<and> con_x c2 = con_x c \<and> con_y c2 = con_y c \<and> vmem c2 = vmem c
    \<and> drop (length (con_ports c2) - 4) (con_ports c2) = cursor_bytes (con_x c) (con_y c)"
proof -
  obtain c1 where c1: "cursor_left n c = Inr c1" "console_ok c1"
      "cursor_pos_of c1 = cursor_pos_of c - n" "vmem c1 = vmem c"
    using cursor_left_spec [of c n] assms by (auto simp: cursor_pos_of_def)
  obtain c2 where c2: "cursor_right n c1 = Inr c2" "console_ok c2"
      "cursor_pos_of c2 = cursor_pos_of c1 + n" "vmem c2 = vmem c1"
    using cursor_right_spec [of c1 n] assms c1 console_ok_pos [OF assms(1)] by auto
  have xy: "con_x c2 = con_x c" "con_y c2 = con_y c"
    using cursor_pos_inj [OF c2(2) assms(1)] c1(3) c2(3) by simp_all
  have "drop (length (con_ports c2) - 4) (con_ports c2) = cursor_bytes (con_x c2) (con_y c2)"
    using c2(1) assms(2) by (auto simp: cursor_right_def Let_def cursor_bytes_def)
  with c1 c2 xy show ?thesis by (auto simp: cursor_pos_of_def)
qed

theorem cursor_left_right_roundtrip_witness:
  "\<exists>c1 c2. cursor_left 3 \<lparr>vmem = replicate 2000 blank, con_x = 1, con_y = 2, con_ports = []\<rparr> = Inr c1
    \<and> cursor_right 3 c1 = Inr c2 \<and> con_x c2 = 1 \<and> con_y c2 = 2"
  using cursor_left_right_roundtrip
    [of "\<lparr>vmem = replicate 2000 blank, con_x = 1, con_y = 2, con_ports = []\<rparr>" 3]
  by (auto simp: console_ok_def)

lemma bit_0xFF: "bit (0xFF :: u16) n \<longleftrightarrow> n < 8"
proof -
  have "(0xFF :: u16) = mask 8" by (simp add: mask_numeral)
  then show ?thesis by (simp only: bit_mask_iff) auto
qed

text \<open>A character above 127 is widened as a negative number, so it overwrites the colour
  byte of its cell: whatever the colours, the high byte is all ones.\<close>

theorem high_character_loses_colour:
  assumes "128 \<le> ch"
  shows "drop_bit 8 (cell f b ch) = 0xFF"
proof (rule bit_word_eqI)
  fix n assume n: "n < LENGTH(16)"
  have msb: "bit ch 7"
  proof (rule ccontr)
    assume "\<not> bit ch 7"
    then have "take_bit 7 ch = ch"
      by (intro bit_word_eqI) (auto simp: bit_take_bit_iff less_Suc_eq_le nat_less_le numeral_eq_Suc less_Suc_eq)
    then have "uint ch = take_bit 7 (uint ch)" by (metis unsigned_take_bit_eq)
    then have "uint ch < 128" using take_bit_int_less_exp [of 7 "uint ch"] by simp
    with assms show False by (simp add: word_le_def)
  qed
  show "bit (drop_bit 8 (cell f b ch)) n = bit (0xFF :: u16) n"
  proof (cases "n < 8")
    case True
    then have "bit (drop_bit 8 (cell f b ch)) n"
      using msb by (simp add: cell_def bit_drop_bit_eq bit_ucast_iff bit_or_iff bit_signed_iff min_def)
    then show ?thesis using True bit_0xFF [of n] by blast
  next
    case False
    then have "\<not> bit (drop_bit 8 (cell f b ch)) n"
      by (auto simp: bit_drop_bit_eq dest: bit_imp_le_length)
    then show ?thesis using False bit_0xFF [of n] by blast
  qed
qed

theorem high_character_loses_colour_witness: "drop_bit 8 (cell RED BLACK 200) = 0xFF"
  by (rule high_character_loses_colour) simp

end
