(* ===== verification/Memory.thy ===== *)
theory Memory
  imports Prelude
begin

text \<open>
  The machine's memory as bytes, with 32-bit little-endian loads and stores, and the fixed
  part of the kernel's view of it: kernel code runs with \<open>kpagedir\<close> (kernel/memory/kvm.c),
  which maps the addresses from \<open>KOFFSET\<close> up to the same physical memory as the addresses
  from 0 (\<open>va_to_pa\<close> and \<open>pa_to_va\<close> of kernel/include/memory.h). The memory is indexed by
  physical address.
\<close>

section \<open>Bytes and words\<close>

type_synonym memory = "u32 \<Rightarrow> u8"

definition load32 :: "memory \<Rightarrow> u32 \<Rightarrow> u32" where
  "load32 m a = ucast (m a) OR push_bit 8 (ucast (m (a + 1)))
      OR push_bit 16 (ucast (m (a + 2))) OR push_bit 24 (ucast (m (a + 3)))"

definition store32 :: "u32 \<Rightarrow> u32 \<Rightarrow> memory \<Rightarrow> memory" where
  "store32 a v m = m(a := ucast v, a + 1 := ucast (drop_bit 8 v),
      a + 2 := ucast (drop_bit 16 v), a + 3 := ucast (drop_bit 24 v))"

definition aligned4 :: "u32 \<Rightarrow> bool" where
  "aligned4 a \<longleftrightarrow> 4 dvd unat a"

lemma word_plus_small_neq: "(a::u32) \<noteq> a + 1" "a \<noteq> a + 2" "a \<noteq> a + 3"
  "a + 1 \<noteq> a + 2" "a + 1 \<noteq> a + 3" "a + 2 \<noteq> a + 3"
  by simp_all

lemma bytes_of_word:
  "(ucast (ucast (v::u32) :: u8) :: u32) OR push_bit 8 (ucast (ucast (drop_bit 8 v) :: u8))
     OR push_bit 16 (ucast (ucast (drop_bit 16 v) :: u8))
     OR push_bit 24 (ucast (ucast (drop_bit 24 v) :: u8)) = v"
proof (rule bit_word_eqI)
  fix n assume n: "n < LENGTH(32)"
  consider "n < 8" | "8 \<le> n" "n < 16" | "16 \<le> n" "n < 24" | "24 \<le> n" by linarith
  then show "bit ((ucast (ucast v :: u8) :: u32) OR push_bit 8 (ucast (ucast (drop_bit 8 v) :: u8))
     OR push_bit 16 (ucast (ucast (drop_bit 16 v) :: u8))
     OR push_bit 24 (ucast (ucast (drop_bit 24 v) :: u8))) n = bit v n"
    using n by cases (auto simp: bit_or_iff bit_push_bit_iff bit_ucast_iff bit_drop_bit_eq)
qed

lemma load32_store32_same [simp]: "load32 (store32 a v m) a = v"
  using bytes_of_word [of v] by (simp add: load32_def store32_def)

lemma store32_other:
  "x \<noteq> a \<Longrightarrow> x \<noteq> a + 1 \<Longrightarrow> x \<noteq> a + 2 \<Longrightarrow> x \<noteq> a + 3 \<Longrightarrow> store32 a v m x = m x"
  by (simp add: store32_def)

lemma load32_cong:
  "m' a = m a \<Longrightarrow> m' (a + 1) = m (a + 1) \<Longrightarrow> m' (a + 2) = m (a + 2) \<Longrightarrow> m' (a + 3) = m (a + 3)
   \<Longrightarrow> load32 m' a = load32 m a"
  by (simp add: load32_def)

lemma aligned4_plus:
  assumes "aligned4 a" "i < 4"
  shows "unat (a + of_nat i) = unat a + i"
proof -
  have "unat a < 2 ^ 32" using unsigned_less [of a] by simp
  moreover have "4 dvd (2 ^ 32 :: nat)" by simp
  ultimately have "unat a + 4 \<le> 2 ^ 32"
    using assms(1) unfolding aligned4_def by (metis dvd_add_right_iff dvd_diff_nat dvd_imp_le
        less_imp_le_nat nat_less_le le_add_diff_inverse zero_less_diff add_le_cancel_left)
  then show ?thesis using assms(2)
    by (simp add: unat_word_ariths unat_of_nat)
qed

lemma aligned4_disjoint:
  assumes "aligned4 a" "aligned4 b" "a \<noteq> b" "i < 4" "j < 4"
  shows "a + of_nat i \<noteq> b + of_nat j"
proof
  assume "a + of_nat i = b + of_nat j"
  then have eq: "unat a + i = unat b + j"
    using aligned4_plus [OF assms(1,4)] aligned4_plus [OF assms(2,5)] by metis
  have "unat a mod 4 = 0" "unat b mod 4 = 0" using assms by (simp_all add: aligned4_def)
  then have "(unat a + i) mod 4 = i" "(unat b + j) mod 4 = j"
    using assms(4,5) by (simp_all add: mod_add_left_eq [symmetric])
  with eq have "i = j" by simp
  with eq have "unat a = unat b" by simp
  with assms(3) show False by (simp add: word_unat_eq_iff)
qed

lemmas word_offsets = semiring_1_class.of_nat_0 semiring_1_class.of_nat_1 of_nat_numeral add_0_right

lemma aligned4_disjoint_bytes:
  assumes "aligned4 a" "aligned4 b" "a \<noteq> b"
  shows "a \<noteq> b" "a \<noteq> b + 1" "a \<noteq> b + 2" "a \<noteq> b + 3"
    "a + 1 \<noteq> b" "a + 1 \<noteq> b + 1" "a + 1 \<noteq> b + 2" "a + 1 \<noteq> b + 3"
    "a + 2 \<noteq> b" "a + 2 \<noteq> b + 1" "a + 2 \<noteq> b + 2" "a + 2 \<noteq> b + 3"
    "a + 3 \<noteq> b" "a + 3 \<noteq> b + 1" "a + 3 \<noteq> b + 2" "a + 3 \<noteq> b + 3"
proof -
  show "a \<noteq> b"
    by (rule assms(3))
  show "a \<noteq> b + 1"
    by (rule aligned4_disjoint [OF assms, of 0 1, unfolded word_offsets]) simp_all
  show "a \<noteq> b + 2"
    by (rule aligned4_disjoint [OF assms, of 0 2, unfolded word_offsets]) simp_all
  show "a \<noteq> b + 3"
    by (rule aligned4_disjoint [OF assms, of 0 3, unfolded word_offsets]) simp_all
  show "a + 1 \<noteq> b"
    by (rule aligned4_disjoint [OF assms, of 1 0, unfolded word_offsets]) simp_all
  show "a + 1 \<noteq> b + 1"
    by (rule aligned4_disjoint [OF assms, of 1 1, unfolded word_offsets]) simp_all
  show "a + 1 \<noteq> b + 2"
    by (rule aligned4_disjoint [OF assms, of 1 2, unfolded word_offsets]) simp_all
  show "a + 1 \<noteq> b + 3"
    by (rule aligned4_disjoint [OF assms, of 1 3, unfolded word_offsets]) simp_all
  show "a + 2 \<noteq> b"
    by (rule aligned4_disjoint [OF assms, of 2 0, unfolded word_offsets]) simp_all
  show "a + 2 \<noteq> b + 1"
    by (rule aligned4_disjoint [OF assms, of 2 1, unfolded word_offsets]) simp_all
  show "a + 2 \<noteq> b + 2"
    by (rule aligned4_disjoint [OF assms, of 2 2, unfolded word_offsets]) simp_all
  show "a + 2 \<noteq> b + 3"
    by (rule aligned4_disjoint [OF assms, of 2 3, unfolded word_offsets]) simp_all
  show "a + 3 \<noteq> b"
    by (rule aligned4_disjoint [OF assms, of 3 0, unfolded word_offsets]) simp_all
  show "a + 3 \<noteq> b + 1"
    by (rule aligned4_disjoint [OF assms, of 3 1, unfolded word_offsets]) simp_all
  show "a + 3 \<noteq> b + 2"
    by (rule aligned4_disjoint [OF assms, of 3 2, unfolded word_offsets]) simp_all
  show "a + 3 \<noteq> b + 3"
    by (rule aligned4_disjoint [OF assms, of 3 3, unfolded word_offsets]) simp_all
qed

lemma load32_store32_other:
  "aligned4 a \<Longrightarrow> aligned4 b \<Longrightarrow> a \<noteq> b \<Longrightarrow> load32 (store32 b v m) a = load32 m a"
  using aligned4_disjoint_bytes [of a b] by (intro load32_cong store32_other) simp_all

lemma aligned4_uint: "aligned4 a \<longleftrightarrow> 4 dvd uint a"
proof -
  have "4 dvd unat a \<longleftrightarrow> int 4 dvd int (unat a)" by presburger
  then show ?thesis unfolding aligned4_def uint_nat by simp
qed

lemma aligned4_offset [simp]:
  assumes "aligned4 a"
  shows "aligned4 (a + 4 * w)" "aligned4 (a - 4 * w)"
proof -
  have a: "4 dvd uint a" using assms by (simp add: aligned4_uint)
  have w: "4 dvd uint (4 * w)" by (simp add: uint_word_ariths dvd_mod_iff)
  show "aligned4 (a + 4 * w)" using a w
    by (simp add: aligned4_uint uint_word_ariths(1) [of a] dvd_mod_iff)
  show "aligned4 (a - 4 * w)" using a w
    by (simp add: aligned4_uint uint_word_ariths(2) [of a] dvd_mod_iff)
qed

section \<open>Arrays of words\<close>

text \<open>\<open>b[k]\<close> for a pointer to 32-bit words, and the loop that stores \<open>f k\<close> at \<open>b[k]\<close> for
  \<open>k\<close> from 0 to \<open>n - 1\<close>.\<close>

definition word_at :: "u32 \<Rightarrow> nat \<Rightarrow> u32" where
  "word_at b k = b + 4 * of_nat k"

definition fill32 :: "u32 \<Rightarrow> (nat \<Rightarrow> u32) \<Rightarrow> nat \<Rightarrow> memory \<Rightarrow> memory" where
  "fill32 b f n m = fold (\<lambda>k. store32 (word_at b k) (f k)) [0..<n] m"

text \<open>An array of \<open>n\<close> words that does not wrap round the address space.\<close>

definition warray :: "u32 \<Rightarrow> nat \<Rightarrow> bool" where
  "warray b n \<longleftrightarrow> aligned4 b \<and> unat b + 4 * n \<le> 2 ^ 32"

definition apart :: "u32 \<Rightarrow> nat \<Rightarrow> u32 \<Rightarrow> nat \<Rightarrow> bool" where
  "apart b n b' n' \<longleftrightarrow> unat b + 4 * n \<le> unat b' \<or> unat b' + 4 * n' \<le> unat b"

lemma apart_sym: "apart b n b' n' \<longleftrightarrow> apart b' n' b n"
  by (auto simp: apart_def)

lemma unat_word_at: "warray b n \<Longrightarrow> k < n \<Longrightarrow> unat (word_at b k) = unat b + 4 * k"
  by (simp add: word_at_def warray_def unat_word_ariths unat_of_nat)

lemma aligned4_word_at: "aligned4 b \<Longrightarrow> aligned4 (word_at b k)"
  by (simp add: word_at_def)

lemma word_at_inj: "warray b n \<Longrightarrow> j < n \<Longrightarrow> k < n \<Longrightarrow> word_at b j = word_at b k \<longleftrightarrow> j = k"
proof
  assume "warray b n" "j < n" "k < n" "word_at b j = word_at b k"
  then have "unat b + 4 * j = unat b + 4 * k" using unat_word_at by metis
  then show "j = k" by simp
qed simp

lemma word_at_apart:
  assumes "warray b n" "warray b' n'" "apart b n b' n'" "j < n" "k < n'"
  shows "word_at b j \<noteq> word_at b' k"
proof
  assume "word_at b j = word_at b' k"
  then have "unat b + 4 * j = unat b' + 4 * k"
    using unat_word_at [OF assms(1,4)] unat_word_at [OF assms(2,5)] by metis
  then show False using assms(3,4,5) by (auto simp: apart_def)
qed

lemma load_store_word_at:
  assumes "warray b n" "j < n" "k < n"
  shows "load32 (store32 (word_at b k) v m) (word_at b j) = (if j = k then v else load32 m (word_at b j))"
  using assms word_at_inj [OF assms] by (auto simp: warray_def load32_store32_other aligned4_word_at)

lemma load_store_apart:
  assumes "warray b n" "warray b' n'" "apart b n b' n'" "j < n" "k < n'"
  shows "load32 (store32 (word_at b' k) v m) (word_at b j) = load32 m (word_at b j)"
  using assms word_at_apart [OF assms] by (auto simp: warray_def load32_store32_other aligned4_word_at)

lemma fill32_Suc: "fill32 b f (Suc n) m = store32 (word_at b n) (f n) (fill32 b f n m)"
  by (simp add: fill32_def)

lemma load_fill32:
  assumes "warray b N" "n \<le> N" "j < N"
  shows "load32 (fill32 b f n m) (word_at b j) = (if j < n then f j else load32 m (word_at b j))"
  using assms(2)
proof (induction n)
  case 0
  then show ?case by (simp add: fill32_def)
next
  case (Suc n)
  then show ?case
    using load_store_word_at [OF assms(1,3), of n] by (auto simp: fill32_Suc)
qed

lemma load_fill32_apart:
  assumes "warray b n" "warray b' n'" "apart b n b' n'" "j < n" "k \<le> n'"
  shows "load32 (fill32 b' f k m) (word_at b j) = load32 m (word_at b j)"
  using assms(5)
proof (induction k)
  case 0
  then show ?case by (simp add: fill32_def)
next
  case (Suc k)
  then show ?case
    using load_store_apart [OF assms(1-4), of k] by (simp add: fill32_Suc)
qed

section \<open>Kernel addresses\<close>

definition KOFFSET :: u32 where "KOFFSET = 0xC0000000"

definition va_to_pa :: "u32 \<Rightarrow> u32" where "va_to_pa addr = addr - KOFFSET"
definition pa_to_va :: "u32 \<Rightarrow> u32" where "pa_to_va addr = addr + KOFFSET"

definition in_kernel :: "u32 \<Rightarrow> bool" where "in_kernel addr \<longleftrightarrow> addr \<ge> KOFFSET"

lemma va_pa_inverse [simp]: "va_to_pa (pa_to_va a) = a" "pa_to_va (va_to_pa a) = a"
  by (simp_all add: va_to_pa_def pa_to_va_def)

text \<open>The physical address behind an address that kernel code dereferences.\<close>

definition kphys :: "u32 \<Rightarrow> u32" where
  "kphys addr = (if in_kernel addr then va_to_pa addr else addr)"

end
