(* ===== verification/Kernel.thy ===== *)
theory Kernel
  imports Memory Console Ring
begin

text \<open>
  The data every kernel component works on: messages and message slots
  (kernel/include/message.h), semaphores (semaphore.h), process control blocks (process.h),
  the processor's interrupt flag with the two counters of kernel/lock.c, and the record of
  the shared globals. A pointer to an element of a fixed array is the element's index.

  The fields of a \<open>struct PCB\<close> that are only read and written by name are record fields; its
  kernel stack and its page directory are reached through raw addresses, so they live in the
  byte memory at the addresses the structure gives them.
\<close>

section \<open>Messages\<close>

text \<open>The four words \<open>m_w0\<close> to \<open>m_w3\<close> are the union of \<open>struct Message\<close>; the accessors below
  give its views, which overlap as the C members do.\<close>

record message =
  m_src :: int
  m_dest :: int
  m_type :: u32
  m_w0 :: u32
  m_w1 :: u32
  m_w2 :: u32
  m_w3 :: u32

definition ANY :: int where "ANY = -1"
definition MSG_HARD_INTR :: int where "MSG_HARD_INTR = -128"
definition Max_Message_Pool :: nat where "Max_Message_Pool = 128"

definition int_p1 :: "message \<Rightarrow> u32" where "int_p1 m = m_w0 m"
definition int_p2 :: "message \<Rightarrow> u32" where "int_p2 m = m_w1 m"
definition dev_pid :: "message \<Rightarrow> u32" where "dev_pid m = m_w0 m"
definition dev_buf :: "message \<Rightarrow> u32" where "dev_buf m = m_w1 m"
definition dev_offset :: "message \<Rightarrow> u32" where "dev_offset m = m_w2 m"
definition dev_length :: "message \<Rightarrow> u32" where "dev_length m = m_w3 m"
definition fm_file_name :: "message \<Rightarrow> u32" where "fm_file_name m = m_w0 m"
definition mm_target :: "message \<Rightarrow> u32" where "mm_target m = m_w0 m"
definition mm_source :: "message \<Rightarrow> u32" where "mm_source m = m_w1 m"
definition mm_start :: "message \<Rightarrow> u32" where "mm_start m = m_w2 m"
definition mm_length :: "message \<Rightarrow> u32" where "mm_length m = m_w3 m"
definition pm_file_name :: "message \<Rightarrow> u32" where "pm_file_name m = m_w0 m"
definition pm_pid :: "message \<Rightarrow> u32" where "pm_pid m = m_w1 m"
definition pm_p1 :: "message \<Rightarrow> u32" where "pm_p1 m = m_w2 m"

lemmas message_views = int_p1_def int_p2_def dev_pid_def dev_buf_def dev_offset_def
  dev_length_def fm_file_name_def mm_target_def mm_source_def mm_start_def mm_length_def
  pm_file_name_def pm_pid_def pm_p1_def

record slot =
  sl_msg :: message
  sl_prev :: "nat option"
  sl_next :: "nat option"
  sl_flag :: bool

section \<open>Semaphores and processes\<close>

definition Max_Sem_Queue :: nat where "Max_Sem_Queue = 50"

record sem =
  token :: int
  queue_tail :: nat
  queue :: "int list"

text \<open>\<open>STATUS_WAITING\<close> is ready to run, \<open>STATUS_SLEEPING\<close> is blocked on a semaphore.\<close>

datatype proc_status = STATUS_WAITING | STATUS_SLEEPING | STATUS_RUNNING

definition MAX_PROC :: nat where "MAX_PROC = 32"
definition STACK_SIZE :: u32 where "STACK_SIZE = 8 * 1024"

record pcb =
  p_esp :: u32
  p_kstack_top :: u32
  p_next :: "nat option"
  p_prev :: "nat option"
  p_flag :: bool
  p_status :: proc_status
  p_cr3 :: u32
  p_pid :: int
  Msg_lock :: sem
  Msg_rec_Pool :: "slot list"
  Msg_rec :: "nat option"
  Msg_ign :: "nat option"
  time_elapsed :: u32

section \<open>The shared globals\<close>

text \<open>\<open>intr_flag\<close> is the processor's interrupt flag, \<open>cr3_reg\<close> the page directory in use.\<close>

record cpu =
  intr_flag :: bool
  cr3_reg :: u32
  global_lock_counter :: u32
  enter_interrupt :: u32

text \<open>
  \<open>Proc_addr\<close> and \<open>kpagedir_addr\<close> are the addresses the linker gives to \<open>Proc\<close> and
  \<open>kpagedir\<close>. The global \<open>init\<close> is assigned once, to \<open>Proc\<close>, and is index 0 here.
\<close>

record sys =
  cpu :: cpu
  Proc :: "pcb list"
  current_pcb :: nat
  need_sched :: bool
  mem :: memory
  con :: console
  Proc_addr :: u32
  kpagedir_addr :: u32

definition init_pcb :: nat where "init_pcb = 0"

text \<open>Where \<open>kstack\<close> and \<open>pagedir\<close> are inside \<open>struct PCB\<close>: two pointers come before the
  stack, and the page directory is the last member, aligned to a page.\<close>

definition sizeof_PCB :: u32 where "sizeof_PCB = 20480"

definition pcb_addr :: "sys \<Rightarrow> nat \<Rightarrow> u32" where
  "pcb_addr s i = Proc_addr s + of_nat i * sizeof_PCB"

definition kstack_addr :: "sys \<Rightarrow> nat \<Rightarrow> u32" where
  "kstack_addr s i = pcb_addr s i + 8"

definition pagedir_addr :: "sys \<Rightarrow> nat \<Rightarrow> u32" where
  "pagedir_addr s i = pcb_addr s i + 16384"

abbreviation proc :: "sys \<Rightarrow> nat \<Rightarrow> pcb" where
  "proc s i \<equiv> Proc s ! i"

definition upd_proc :: "nat \<Rightarrow> (pcb \<Rightarrow> pcb) \<Rightarrow> sys \<Rightarrow> sys" where
  "upd_proc i f s = s\<lparr>Proc := upd_at i f (Proc s)\<rparr>"

lemma upd_proc_simps [simp]:
  "Proc (upd_proc i f s) = upd_at i f (Proc s)"
  "cpu (upd_proc i f s) = cpu s"
  "current_pcb (upd_proc i f s) = current_pcb s"
  "need_sched (upd_proc i f s) = need_sched s"
  "mem (upd_proc i f s) = mem s"
  "con (upd_proc i f s) = con s"
  "Proc_addr (upd_proc i f s) = Proc_addr s"
  "kpagedir_addr (upd_proc i f s) = kpagedir_addr s"
  by (simp_all add: upd_proc_def)

lemma upd_proc_upd_proc [simp]: "upd_proc i f (upd_proc i g s) = upd_proc i (f \<circ> g) s"
  by (simp add: upd_proc_def)

text \<open>The array index behind a \<open>pid_t\<close>: \<open>Proc + pid\<close> is only an element for pids 0 to 31.\<close>

definition proc_index :: "sys \<Rightarrow> int \<Rightarrow> error + nat" where
  "proc_index s pid =
     (if 0 \<le> pid \<and> pid < int (length (Proc s)) then Inr (nat pid) else Inl (Fault ''Proc + pid''))"

lemma proc_index_Inr: "proc_index s pid = Inr i \<longleftrightarrow> pid = int i \<and> i < length (Proc s)"
  by (auto simp: proc_index_def)

lemma proc_index_of_nat [simp]: "i < length (Proc s) \<Longrightarrow> proc_index s (int i) = Inr i"
  by (simp add: proc_index_def)

text \<open>\<open>fetch_pcb\<close> of kernel/process/util.c.\<close>

definition fetch_pcb :: "sys \<Rightarrow> int \<Rightarrow> error + nat" where
  "fetch_pcb s pid = proc_index s pid"

section \<open>Locks\<close>

text \<open>kernel/lock.c: the kernel lock disables interrupts at its first level.\<close>

definition lock_cpu :: "cpu \<Rightarrow> cpu" where
  "lock_cpu c =
     (let c = (if global_lock_counter c = 0 then c\<lparr>intr_flag := False\<rparr> else c)
      in c\<lparr>global_lock_counter := global_lock_counter c + 1\<rparr>)"

definition unlock_cpu :: "cpu \<Rightarrow> cpu" where
  "unlock_cpu c =
     (let c = c\<lparr>global_lock_counter := global_lock_counter c - 1\<rparr>
      in if global_lock_counter c = 0 \<and> enter_interrupt c = 0 then c\<lparr>intr_flag := True\<rparr> else c)"

definition lock :: "sys \<Rightarrow> sys" where
  "lock s = s\<lparr>cpu := lock_cpu (cpu s)\<rparr>"

definition unlock :: "sys \<Rightarrow> sys" where
  "unlock s = s\<lparr>cpu := unlock_cpu (cpu s)\<rparr>"

lemma lock_simps [simp]:
  "Proc (lock s) = Proc s" "current_pcb (lock s) = current_pcb s"
  "need_sched (lock s) = need_sched s" "mem (lock s) = mem s" "con (lock s) = con s"
  "Proc_addr (lock s) = Proc_addr s" "kpagedir_addr (lock s) = kpagedir_addr s"
  by (simp_all add: lock_def)

lemma unlock_simps [simp]:
  "Proc (unlock s) = Proc s" "current_pcb (unlock s) = current_pcb s"
  "need_sched (unlock s) = need_sched s" "mem (unlock s) = mem s" "con (unlock s) = con s"
  "Proc_addr (unlock s) = Proc_addr s" "kpagedir_addr (unlock s) = kpagedir_addr s"
  by (simp_all add: unlock_def)

lemma lock_cpu_enter [simp]: "enter_interrupt (lock_cpu c) = enter_interrupt c"
  "global_lock_counter (lock_cpu c) = global_lock_counter c + 1" "cr3_reg (lock_cpu c) = cr3_reg c"
  by (simp_all add: lock_cpu_def Let_def)

lemma unlock_cpu_enter [simp]: "enter_interrupt (unlock_cpu c) = enter_interrupt c"
  "global_lock_counter (unlock_cpu c) = global_lock_counter c - 1" "cr3_reg (unlock_cpu c) = cr3_reg c"
  by (simp_all add: unlock_cpu_def Let_def)

lemma cpu_lock [simp]: "cpu (lock s) = lock_cpu (cpu s)"
  by (simp add: lock_def)

lemma cpu_unlock [simp]: "cpu (unlock s) = unlock_cpu (cpu s)"
  by (simp add: unlock_def)

lemma lock_upd_proc: "lock (upd_proc i f s) = upd_proc i f (lock s)"
  by (simp add: lock_def upd_proc_def)

lemma unlock_upd_proc: "unlock (upd_proc i f s) = upd_proc i f (unlock s)"
  by (simp add: unlock_def upd_proc_def)

text \<open>The counter and the interrupt flag agree outside interrupt handlers.\<close>

definition cpu_ok :: "cpu \<Rightarrow> bool" where
  "cpu_ok c \<longleftrightarrow> (enter_interrupt c \<noteq> 0 \<longrightarrow> \<not> intr_flag c) \<and>
     (global_lock_counter c \<noteq> 0 \<longrightarrow> \<not> intr_flag c)"

text \<open>What \<open>unlock\<close> after \<open>lock\<close> leaves: outside handlers the outermost pair enables interrupts.\<close>

lemma unlock_lock_cpu:
  "unlock_cpu (lock_cpu c) =
     (if global_lock_counter c = 0 then c\<lparr>intr_flag := (enter_interrupt c = 0)\<rparr> else c)"
  by (auto simp: lock_cpu_def unlock_cpu_def Let_def)

section \<open>Semaphores\<close>

text \<open>
  kernel/semaphore.c. \<open>Sem_P\<close> either takes a token or puts the current process to sleep and
  enters the scheduler through \<open>int $0x80\<close>; the model returns, next to the new semaphore and
  state, whether the caller went to sleep. A sleeping caller continues after the call once
  \<open>Sem_V\<close> has made it ready and the scheduler has picked it.
\<close>

definition Sem_init :: "int \<Rightarrow> sem \<Rightarrow> sem" where
  "Sem_init init_token sem = sem\<lparr>token := init_token, queue_tail := 0\<rparr>"

definition Sem_P :: "sem \<Rightarrow> sys \<Rightarrow> error + bool \<times> sem \<times> sys" where
  "Sem_P sem s =
     (let s = lock s in
      if token sem > 0 then Inr (False, sem\<lparr>token := token sem - 1\<rparr>, unlock s)
      else bindE (store_at ''Sem_P: queue'' (queue sem) (queue_tail sem) (p_pid (proc s (current_pcb s))))
        (\<lambda>q. let sem = sem\<lparr>queue := q, queue_tail := queue_tail sem + 1\<rparr>;
                 s = upd_proc (current_pcb s) (p_status_update (\<lambda>_. STATUS_SLEEPING)) s
             in Inr (True, sem, unlock s)))"

definition Sem_V :: "sem \<Rightarrow> sys \<Rightarrow> error + sem \<times> sys" where
  "Sem_V sem s =
     (let s = lock s in
      if queue_tail sem \<noteq> 0 then
        let sem = sem\<lparr>queue_tail := queue_tail sem - 1\<rparr> in
        bindE (load_at ''Sem_V: queue'' (queue sem) (queue_tail sem)) (\<lambda>pid.
        bindE (proc_index s pid) (\<lambda>i.
          Inr (sem, unlock (upd_proc i (p_status_update (\<lambda>_. STATUS_WAITING)) s))))
      else Inr (sem\<lparr>token := token sem + 1\<rparr>, unlock s))"

end
