(* ===== verification/Process.thy ===== *)
theory Process
  imports Kernel
begin

text \<open>
  kernel/process/util.c and kernel/process/schedule.c: the process table, the circular run
  list that starts at \<open>init\<close>, the creation of a kernel thread with its initial stack frame,
  and the scheduler.
\<close>

section \<open>The process table\<close>

definition Find_Empty_PCB :: "sys \<Rightarrow> nat option" where
  "Find_Empty_PCB s = first_index (\<lambda>i. p_flag (proc s i)) [1..<MAX_PROC]"

definition init_message_pool :: "pcb \<Rightarrow> pcb" where
  "init_message_pool p = p\<lparr>
     Msg_rec_Pool := map (sl_flag_update (\<lambda>_. True)) (Msg_rec_Pool p),
     Msg_rec := None, Msg_ign := None, Msg_lock := Sem_init 0 (Msg_lock p)\<rparr>"

text \<open>The statements that put a process at the end of the run list, before \<open>init\<close>, in
  \<open>Create_kthread\<close>, \<open>Fork_uthread\<close> and \<open>Create_uthread\<close>.\<close>

definition set_p_next :: "nat \<Rightarrow> nat option \<Rightarrow> pcb list \<Rightarrow> pcb list" where
  "set_p_next i v P = upd_at i (p_next_update (\<lambda>_. v)) P"

definition set_p_prev :: "nat \<Rightarrow> nat option \<Rightarrow> pcb list \<Rightarrow> pcb list" where
  "set_p_prev i v P = upd_at i (p_prev_update (\<lambda>_. v)) P"

definition link_before_init :: "nat \<Rightarrow> pcb list \<Rightarrow> error + pcb list" where
  "link_before_init new P =
     (let P = set_p_next new (Some init_pcb) P in
      bindE (deref ''init -> prev'' (p_prev (P ! init_pcb))) (\<lambda>t.
        let P = set_p_prev new (Some t) P;
            P = set_p_next t (Some new) P
        in Inr (set_p_prev init_pcb (Some new) P)))"

text \<open>The statements that take a process out of the run list, in \<open>Exit_uthread\<close>.\<close>

definition unlink_proc :: "nat \<Rightarrow> pcb list \<Rightarrow> error + pcb list" where
  "unlink_proc i P =
     bindE (deref ''pcb_ptr -> prev'' (p_prev (P ! i))) (\<lambda>a.
       let P = set_p_next a (p_next (P ! i)) P in
       bindE (deref ''pcb_ptr -> next -> prev'' (p_next (P ! i))) (\<lambda>b.
         Inr (set_p_prev b (p_prev (P ! i)) P)))"

section \<open>Creating a kernel thread\<close>

definition Push_Stack_4Byte :: "u32 \<times> memory \<Rightarrow> u32 \<Rightarrow> u32 \<times> memory" where
  "Push_Stack_4Byte st key =
     (let addr = fst st - 4 in (addr, store32 (kphys addr) key (snd st)))"

text \<open>The initial frame: \<open>eflags\<close> with the interrupt bit, \<open>%cs\<close>, \<open>%eip\<close>, nine zero words of
  trap frame, and the address of the trap frame.\<close>

definition kthread_frame :: "u32 \<Rightarrow> u32 \<times> memory \<Rightarrow> u32 \<times> memory" where
  "kthread_frame thread st =
     (let st = Push_Stack_4Byte st (push_bit 9 1);
          st = Push_Stack_4Byte st 8;
          st = Push_Stack_4Byte st thread;
          st = ((\<lambda>st. Push_Stack_4Byte st 0) ^^ 9) st
      in Push_Stack_4Byte st (fst st))"

definition make_cr3 :: "u32 \<Rightarrow> u32" where
  \<comment> \<open>\<open>*(uint_32 *)&cr3 = 0; cr3.page_directory_base = pa >> 12\<close>\<close>
  "make_cr3 pa = push_bit 12 (drop_bit 12 pa)"

definition Create_kthread :: "u32 \<Rightarrow> sys \<Rightarrow> error + sys" where
  "Create_kthread thread s =
     (case Find_Empty_PCB s of
        None \<Rightarrow> panic ''Process Table is Full!\<newline>''
      | Some new \<Rightarrow>
          bindE (link_before_init new (Proc s)) (\<lambda>P.
            let s = s\<lparr>Proc := P\<rparr>;
                s = upd_proc new (\<lambda>p. init_message_pool (p\<lparr>
                      p_status := STATUS_WAITING, p_pid := int new, p_flag := False,
                      time_elapsed := 0, p_cr3 := make_cr3 (va_to_pa (kpagedir_addr s))\<rparr>)) s;
                st = kthread_frame thread (kstack_addr s new + STACK_SIZE, mem s)
            in Inr (upd_proc new (p_esp_update (\<lambda>_. fst st)) (s\<lparr>mem := snd st\<rparr>))))"

definition init_proc :: "sys \<Rightarrow> sys" where
  "init_proc s =
     (let s = upd_proc init_pcb (\<lambda>p. (init_message_pool (p\<lparr>
                p_prev := Some init_pcb, p_next := Some init_pcb, p_flag := False, p_pid := 0,
                p_status := STATUS_WAITING, time_elapsed := 0\<rparr>))\<lparr>
                p_cr3 := make_cr3 (va_to_pa (kpagedir_addr s))\<rparr>) s;
          s = fold (\<lambda>i. upd_proc i (p_flag_update (\<lambda>_. True))) [1..<MAX_PROC] s
      in s\<lparr>current_pcb := init_pcb\<rparr>)"

text \<open>
  The way a process resumes, at the end of \<open>asm_do_irq\<close> and \<open>asm_do_int\<close> in
  kernel/irq/do_irq.S: \<open>%esp\<close> is loaded from the PCB, popped once, \<open>popal\<close> restores the
  registers, the interrupt number is skipped and \<open>iret\<close> pops \<open>%eip\<close>, \<open>%cs\<close> and
  \<open>eflags\<close>. (The registers are listed in memory order, the saved \<open>%esp\<close> is not restored.)
\<close>

record machine_context =
  ctx_regs :: "u32 list"
  ctx_eip :: u32
  ctx_cs :: u32
  ctx_eflags :: u32
  ctx_esp :: u32

definition restore_context :: "(u32 \<Rightarrow> u32) \<Rightarrow> u32 \<Rightarrow> machine_context" where
  "restore_context rd esp =
     (let tf = rd esp; ret = tf + 36 in
      \<lparr>ctx_regs = map (\<lambda>k. rd (tf + 4 * of_nat k)) [0, 1, 2, 4, 5, 6, 7],
       ctx_eip = rd ret, ctx_cs = rd (ret + 4), ctx_eflags = rd (ret + 8), ctx_esp = ret + 12\<rparr>)"

section \<open>The scheduler\<close>

text \<open>
  \<open>for (p = current_pcb -> next; p != NULL && p -> status != STATUS_WAITING; p = p -> next);\<close>
  The loop runs for ever on a circle without a waiting process: \<open>None\<close>. \<open>Some p\<close> is the
  pointer it returns.
\<close>

partial_function (option) next_live :: "pcb list \<Rightarrow> nat option \<Rightarrow> nat option option" where
  "next_live P p =
     (case p of
        None \<Rightarrow> Some None
      | Some i \<Rightarrow> if p_status (P ! i) = STATUS_WAITING then Some (Some i) else next_live P (p_next (P ! i)))"

definition find_next_live_process :: "sys \<Rightarrow> nat option option" where
  "find_next_live_process s = next_live (Proc s) (p_next (proc s (current_pcb s)))"

text \<open>\<open>schedule\<close>; \<open>None\<close> when the search does not return.\<close>

definition schedule :: "sys \<Rightarrow> (error + sys) option" where
  "schedule s =
     (if need_sched s then
        let s = (if p_status (proc s (current_pcb s)) = STATUS_RUNNING
                 then upd_proc (current_pcb s) (p_status_update (\<lambda>_. STATUS_WAITING)) s else s)
        in (case find_next_live_process s of
              None \<Rightarrow> None
            | Some None \<Rightarrow> Some (Inl (Fault ''current_pcb is NULL''))
            | Some (Some i) \<Rightarrow>
                let s = upd_proc i (p_status_update (\<lambda>_. STATUS_RUNNING)) (s\<lparr>current_pcb := i\<rparr>)
                in Some (Inr (s\<lparr>cpu := (cpu s)\<lparr>cr3_reg := p_cr3 (proc s i)\<rparr>, need_sched := False\<rparr>)))
      else Some (Inr s))"

section \<open>The run list\<close>

interpretation pcb_links: link_store length "\<lambda>P i. p_next (P ! i)" "\<lambda>P i. p_prev (P ! i)"
  set_p_next set_p_prev
proof unfold_locales
  fix i :: nat and v :: "nat option" and P :: "pcb list"
  show "length (set_p_next i v P) = length P" by (simp add: set_p_next_def)
  show "length (set_p_prev i v P) = length P" by (simp add: set_p_prev_def)
  show "i < length P \<Longrightarrow> (\<lambda>j. p_next (set_p_next i v P ! j)) = (\<lambda>j. p_next (P ! j))(i := v)"
    by (auto simp: set_p_next_def fun_eq_iff)
  show "i < length P \<Longrightarrow> (\<lambda>j. p_prev (set_p_prev i v P ! j)) = (\<lambda>j. p_prev (P ! j))(i := v)"
    by (auto simp: set_p_prev_def fun_eq_iff)
  have "p_prev (upd_at i (p_next_update (\<lambda>_. v)) P ! j) = p_prev (P ! j)" for j
    by (cases "i < length P"; cases "j = i") (simp_all add: upd_at_def list_update_beyond)
  then show "(\<lambda>j. p_prev (set_p_next i v P ! j)) = (\<lambda>j. p_prev (P ! j))"
    by (simp add: set_p_next_def)
  have "p_next (upd_at i (p_prev_update (\<lambda>_. v)) P ! j) = p_next (P ! j)" for j
    by (cases "i < length P"; cases "j = i") (simp_all add: upd_at_def list_update_beyond)
  then show "(\<lambda>j. p_next (set_p_prev i v P ! j)) = (\<lambda>j. p_next (P ! j))"
    by (simp add: set_p_prev_def)
qed

text \<open>\<open>l\<close> is the run list: the circle that starts at \<open>init\<close>.\<close>

definition run_list :: "pcb list \<Rightarrow> nat list \<Rightarrow> bool" where
  "run_list P l \<longleftrightarrow> l \<noteq> [] \<and> hd l = init_pcb \<and>
     ring_on (\<lambda>i. p_next (P ! i)) (\<lambda>i. p_prev (P ! i)) l \<and> (\<forall>i \<in> set l. i < length P)"

lemma run_list_distinct: "run_list P l \<Longrightarrow> distinct l"
  by (auto simp: run_list_def dest: ring_on_distinct)

lemma run_list_init: "run_list P l \<Longrightarrow> init_pcb \<in> set l"
  by (metis list.set_sel(1) run_list_def)

text \<open>Two process tables that differ in their links only.\<close>

definition same_but_links :: "pcb list \<Rightarrow> pcb list \<Rightarrow> bool" where
  "same_but_links P P' \<longleftrightarrow> length P' = length P \<and>
     (\<forall>i < length P. P' ! i = (P ! i)\<lparr>p_next := p_next (P' ! i), p_prev := p_prev (P' ! i)\<rparr>)"

lemma same_but_links_refl: "same_but_links P P"
  by (simp add: same_but_links_def)

lemma same_but_links_trans:
  assumes "same_but_links P Q" "same_but_links Q R"
  shows "same_but_links P R"
  unfolding same_but_links_def
proof (intro conjI allI impI)
  show "length R = length P" using assms by (simp add: same_but_links_def)
  fix i assume "i < length P"
  with assms have "Q ! i = (P ! i)\<lparr>p_next := p_next (Q ! i), p_prev := p_prev (Q ! i)\<rparr>"
      "R ! i = (Q ! i)\<lparr>p_next := p_next (R ! i), p_prev := p_prev (R ! i)\<rparr>"
    by (auto simp: same_but_links_def)
  then show "R ! i = (P ! i)\<lparr>p_next := p_next (R ! i), p_prev := p_prev (R ! i)\<rparr>"
    by (cases "P ! i"; cases "Q ! i"; cases "R ! i") simp
qed

lemma same_but_links_set: "same_but_links P (set_p_next i v P)" "same_but_links P (set_p_prev i v P)"
  by (auto simp: same_but_links_def set_p_next_def set_p_prev_def nth_upd_at)

lemmas same_but_links_steps =
  same_but_links_set [THEN same_but_links_trans [rotated]] same_but_links_refl

lemma same_but_links_nth:
  assumes "same_but_links P P'" "i < length P"
  shows "p_status (P' ! i) = p_status (P ! i)" "p_flag (P' ! i) = p_flag (P ! i)"
    "p_pid (P' ! i) = p_pid (P ! i)" "p_cr3 (P' ! i) = p_cr3 (P ! i)" "p_esp (P' ! i) = p_esp (P ! i)"
proof -
  have "P' ! i = (P ! i)\<lparr>p_next := p_next (P' ! i), p_prev := p_prev (P' ! i)\<rparr>"
    using assms by (simp add: same_but_links_def)
  then show "p_status (P' ! i) = p_status (P ! i)" "p_flag (P' ! i) = p_flag (P ! i)"
    "p_pid (P' ! i) = p_pid (P ! i)" "p_cr3 (P' ! i) = p_cr3 (P ! i)" "p_esp (P' ! i) = p_esp (P ! i)"
    by (metis pcb.select_convs pcb.surjective pcb.update_convs(3,4))+
qed

lemma run_list_prev_init: "run_list P l \<Longrightarrow> p_prev (P ! init_pcb) = Some (last l)"
  by (metis ring_on_head_prev run_list_def)

text \<open>Linking a process in appends it to the run list.\<close>

lemma link_before_init_run_list:
  assumes r: "run_list P l" and n: "n < length P" "n \<notin> set l"
  obtains P' where "link_before_init n P = Inr P'" "run_list P' (l @ [n])" "same_but_links P P'"
proof -
  let ?t = "last l"
  let ?P1 = "set_p_next n (Some init_pcb) P"
  define P' where
    "P' = set_p_prev init_pcb (Some n) (set_p_next ?t (Some n) (set_p_prev n (Some ?t) ?P1))"
  have l: "l \<noteq> []" "hd l = init_pcb" "ring_on (\<lambda>i. p_next (P ! i)) (\<lambda>i. p_prev (P ! i)) l"
      "\<forall>i \<in> set l. i < length P"
    using r by (simp_all add: run_list_def)
  have t: "p_prev (P ! init_pcb) = Some ?t" using r by (rule run_list_prev_init)
  have "p_prev (?P1 ! init_pcb) = p_prev (P ! init_pcb)"
    using fun_cong [OF pcb_links.prv_set_nxt] by blast
  then have eq: "link_before_init n P = Inr P'"
    using t by (simp add: link_before_init_def P'_def)
  have "ring_on (\<lambda>i. p_next (P' ! i)) (\<lambda>i. p_prev (P' ! i)) (l @ [n])"
    unfolding P'_def
  proof (rule pcb_links.insert_before_head [OF l(3,1) n(2,1), unfolded l(2)])
    show "i < length P" if "i \<in> set l" for i using l(4) that by blast
    show "p_prev (P ! init_pcb) = Some ?t" by (rule t)
  qed
  moreover have "length P' = length P" by (simp add: set_p_next_def set_p_prev_def P'_def)
  ultimately have "run_list P' (l @ [n])" using l n by (simp add: run_list_def)
  moreover have "same_but_links P P'"
    unfolding P'_def by (intro same_but_links_steps)
  ultimately show thesis using that eq by blast
qed

text \<open>Unlinking any process but \<open>init\<close> removes it from the run list.\<close>

lemma unlink_proc_run_list:
  assumes r: "run_list P (xs @ p # ys)" and p: "p \<noteq> init_pcb"
  obtains P' where "unlink_proc p P = Inr P'" "run_list P' (xs @ ys)" "same_but_links P P'"
proof -
  have l: "ring_on (\<lambda>i. p_next (P ! i)) (\<lambda>i. p_prev (P ! i)) (xs @ p # ys)"
      "hd (xs @ p # ys) = init_pcb" "\<forall>i \<in> set (xs @ p # ys). i < length P"
    using r by (simp_all add: run_list_def)
  have xs: "xs \<noteq> []" using l(2) p by (cases xs) auto
  define b where "b = (if ys = [] then hd xs else hd ys)"
  have lk: "linked (\<lambda>i. p_next (P ! i)) (\<lambda>i. p_prev (P ! i)) (xs @ p # ys)"
    and w: "p_next (P ! last (xs @ p # ys)) = Some (hd (xs @ p # ys))"
    using l(1) by (simp_all add: ring_on_linked)
  have a: "p_prev (P ! p) = Some (last xs)"
    using lk xs by (simp add: linked_append)
  have b: "p_next (P ! p) = Some b"
    using lk w xs by (cases ys) (simp_all add: linked_append b_def)
  define P' where "P' = set_p_prev b (Some (last xs)) (set_p_next (last xs) (Some b) P)"
  have ap: "last xs \<noteq> p" using ring_on_distinct [OF l(1)] xs by auto
  then have eq: "unlink_proc p P = Inr P'"
    using a b by (simp add: unlink_proc_def set_p_next_def P'_def)
  have "ring_on (\<lambda>i. p_next (P' ! i)) (\<lambda>i. p_prev (P' ! i)) (xs @ ys)"
    unfolding P'_def
  proof (rule pcb_links.unlink_node [OF l(1) _ _ b a])
    show "xs @ ys \<noteq> []" using xs by simp
    show "i < length P" if "i \<in> set (xs @ p # ys)" for i using l(3) that by blast
    show "last xs \<in> set (xs @ p # ys)" using xs by simp
    show "b \<in> set (xs @ p # ys)" using xs by (simp add: b_def)
  qed
  moreover have "length P' = length P" by (simp add: set_p_next_def set_p_prev_def P'_def)
  ultimately have "run_list P' (xs @ ys)" using l xs by (simp add: run_list_def)
  moreover have "same_but_links P P'"
    unfolding P'_def by (intro same_but_links_steps)
  ultimately show thesis using that eq by blast
qed

lemma same_but_links_length: "same_but_links P P' \<Longrightarrow> length P' = length P"
  by (simp add: same_but_links_def)

text \<open>Changes of other fields do not touch the run list.\<close>

lemma run_list_cong:
  assumes "run_list P l" "length P' = length P"
    and "\<And>i. i \<in> set l \<Longrightarrow> p_next (P' ! i) = p_next (P ! i) \<and> p_prev (P' ! i) = p_prev (P ! i)"
  shows "run_list P' l"
  using assms ring_on_cong [of "\<lambda>i. p_next (P ! i)" "\<lambda>i. p_prev (P ! i)" l
      "\<lambda>i. p_next (P' ! i)" "\<lambda>i. p_prev (P' ! i)"]
  by (auto simp: run_list_def)

lemma run_list_upd_at:
  assumes "run_list P l"
    and "\<And>p. p_next (f p) = p_next p" "\<And>p. p_prev (f p) = p_prev p"
  shows "run_list (upd_at i f P) l"
proof (rule run_list_cong [OF assms(1)])
  fix j assume "j \<in> set l"
  then have "j < length P" using assms(1) by (simp add: run_list_def)
  then show "p_next (upd_at i f P ! j) = p_next (P ! j) \<and> p_prev (upd_at i f P ! j) = p_prev (P ! j)"
    using assms(2,3) by (simp add: nth_upd_at)
qed simp

section \<open>Stack frames\<close>

text \<open>Words pushed one after the other end up below the start, each at its own address.\<close>

lemma unat_4_of_nat: "k < 2 ^ 30 \<Longrightarrow> unat (4 * of_nat k :: u32) = 4 * k"
  by (simp add: unat_word_ariths unat_of_nat)

lemma offset4_inj:
  assumes "i < 2 ^ 29" "j < 2 ^ 29" "i \<noteq> j"
  shows "(b::u32) - 4 - 4 * of_nat i \<noteq> b - 4 - 4 * of_nat j"
proof
  assume "b - 4 - 4 * of_nat i = b - 4 - 4 * of_nat j"
  then have "(4 * of_nat i :: u32) = 4 * of_nat j" by simp
  then have "unat (4 * of_nat i :: u32) = unat (4 * of_nat j :: u32)" by (rule arg_cong)
  with assms show False by (simp add: unat_4_of_nat)
qed

lemma push_words:
  assumes "aligned4 (kphys a)" "length ws \<le> 2 ^ 29"
    and "\<And>k. k \<le> length ws \<Longrightarrow> kphys (a - 4 * of_nat k) = kphys a - 4 * of_nat k"
  shows "fst (foldl Push_Stack_4Byte (a, m) ws) = a - 4 * of_nat (length ws)
    \<and> (\<forall>i < length ws. load32 (snd (foldl Push_Stack_4Byte (a, m) ws)) (kphys a - 4 - 4 * of_nat i) = ws ! i)"
  using assms(2,3)
proof (induction ws rule: rev_induct)
  case Nil
  then show ?case by simp
next
  case (snoc w ws)
  let ?n = "length ws" and ?b = "kphys a" and ?st = "foldl Push_Stack_4Byte (a, m) ws"
  have IH: "fst ?st = a - 4 * of_nat ?n" "\<forall>i < ?n. load32 (snd ?st) (?b - 4 - 4 * of_nat i) = ws ! i"
    using snoc by simp_all
  have top: "a - 4 * of_nat ?n - 4 = a - 4 * of_nat (Suc ?n)" by (simp add: algebra_simps)
  have ph: "kphys (a - 4 * of_nat ?n - 4) = ?b - 4 - 4 * of_nat ?n"
    unfolding top using snoc.prems(2) [of "Suc ?n"] by (simp add: algebra_simps)
  have st: "Push_Stack_4Byte ?st w
      = (a - 4 * of_nat (Suc ?n), store32 (?b - 4 - 4 * of_nat ?n) w (snd ?st))"
    by (simp add: Push_Stack_4Byte_def IH(1) Let_def ph)
  have al: "aligned4 (?b - 4 - 4 * of_nat i)" for i :: nat
    using assms(1) aligned4_offset(2) [of ?b 1] aligned4_offset(2) by simp
  have "load32 (store32 (?b - 4 - 4 * of_nat ?n) w (snd ?st)) (?b - 4 - 4 * of_nat i) = (ws @ [w]) ! i"
    if i: "i < Suc ?n" for i
  proof (cases "i = ?n")
    case True
    then show ?thesis by simp
  next
    case False
    with i have "i < ?n" by simp
    moreover have "?b - 4 - 4 * of_nat i \<noteq> ?b - 4 - 4 * of_nat ?n"
      using False i snoc.prems(1) by (intro offset4_inj) simp_all
    ultimately show ?thesis using IH(2) by (simp add: load32_store32_other [OF al al] nth_append)
  qed
  then show ?case by (simp add: st)
qed

lemma push_words_other:
  assumes "aligned4 (kphys a)" "aligned4 b" "\<And>k. k \<le> length ws \<Longrightarrow> kphys (a - 4 * of_nat k) = kphys a - 4 * of_nat k"
    and "\<And>k. 1 \<le> k \<Longrightarrow> k \<le> length ws \<Longrightarrow> b \<noteq> kphys a - 4 * of_nat k"
  shows "fst (foldl Push_Stack_4Byte (a, m) ws) = a - 4 * of_nat (length ws) \<and>
    load32 (snd (foldl Push_Stack_4Byte (a, m) ws)) b = load32 m b"
  using assms(3,4)
proof (induction ws rule: rev_induct)
  case Nil
  then show ?case by simp
next
  case (snoc w ws)
  let ?st = "foldl Push_Stack_4Byte (a, m) ws"
  have IH: "fst ?st = a - 4 * of_nat (length ws)" "load32 (snd ?st) b = load32 m b"
    using snoc.IH snoc.prems by simp_all
  have top: "a - 4 * of_nat (length ws) - 4 = a - 4 * of_nat (Suc (length ws))" by (simp add: algebra_simps)
  have ph: "kphys (a - 4 * of_nat (length ws) - 4) = kphys a - 4 * of_nat (Suc (length ws))"
    unfolding top by (rule snoc.prems(1)) simp
  have "load32 (store32 (kphys a - 4 * of_nat (Suc (length ws))) w (snd ?st)) b = load32 (snd ?st) b"
  proof (rule load32_store32_other)
    show "aligned4 (kphys a - 4 * of_nat (Suc (length ws)))" using aligned4_offset(2) [OF assms(1)] .
    show "aligned4 b" by (rule assms(2))
    show "b \<noteq> kphys a - 4 * of_nat (Suc (length ws))" by (rule snoc.prems(2)) simp_all
  qed
  moreover have "Push_Stack_4Byte ?st w
      = (a - 4 * of_nat (Suc (length ws)), store32 (kphys a - 4 * of_nat (Suc (length ws))) w (snd ?st))"
    by (simp add: Push_Stack_4Byte_def [of ?st w] IH(1) Let_def ph del: of_nat_Suc) (simp add: algebra_simps)
  ultimately show ?case using IH(2) by simp
qed

text \<open>Where the kernel image puts \<open>Proc\<close>: page-aligned, in the first 16 megabytes above
  \<open>KOFFSET\<close> (the part that every address space maps).\<close>

definition layout_ok :: "sys \<Rightarrow> bool" where
  "layout_ok s \<longleftrightarrow> 4096 dvd unat (Proc_addr s) \<and> unat KOFFSET \<le> unat (Proc_addr s) \<and>
     unat (Proc_addr s) + 32 * 20480 \<le> unat KOFFSET + 16 * 1024 * 1024"

lemma kstack_top_addr:
  assumes "layout_ok s" "i < MAX_PROC" "k \<le> 2048"
  shows "kphys (kstack_addr s i + STACK_SIZE - 4 * of_nat k) = kphys (kstack_addr s i + STACK_SIZE) - 4 * of_nat k"
    and "aligned4 (kphys (kstack_addr s i + STACK_SIZE))"
proof -
  let ?T = "kstack_addr s i + STACK_SIZE" and ?p = "unat (Proc_addr s)"
  have lim: "3221225472 \<le> ?p" "?p + 655360 \<le> 3238002688" "4096 dvd ?p"
    using assms(1) by (simp_all add: layout_ok_def KOFFSET_def)
  have i: "i < 32" using assms(2) by (simp add: MAX_PROC_def)
  have "unat (Proc_addr s + of_nat (i * 20480 + 8200)) = ?p + (i * 20480 + 8200)"
    using lim i by (simp add: unat_word_ariths unat_of_nat)
  moreover have "?T = Proc_addr s + of_nat (i * 20480 + 8200)"
    by (simp add: kstack_addr_def pcb_addr_def sizeof_PCB_def STACK_SIZE_def)
  ultimately have T: "unat ?T = ?p + (i * 20480 + 8200)" by metis
  have le: "4 * k \<le> unat ?T" using T assms(3) lim by simp
  have k4: "unat (4 * of_nat k :: u32) = 4 * k" using assms(3) by (simp add: unat_4_of_nat)
  have Tk: "unat (?T - 4 * of_nat k) = unat ?T - 4 * k"
    using le k4 by (simp add: unat_sub word_le_nat_alt)
  have "3221225472 \<le> unat (?T - 4 * of_nat k)" using T Tk lim assms(3) by simp
  then have "in_kernel (?T - 4 * of_nat k)"
    by (simp add: in_kernel_def KOFFSET_def word_le_nat_alt)
  moreover have ik: "in_kernel ?T" using T lim by (simp add: in_kernel_def KOFFSET_def word_le_nat_alt)
  ultimately show "kphys (?T - 4 * of_nat k) = kphys ?T - 4 * of_nat k"
    by (simp add: kphys_def va_to_pa_def)
  have "aligned4 ?T" using T lim(3) by (auto simp: aligned4_def elim!: dvdE)
  then have "aligned4 (?T - 4 * 0x30000000)" by (rule aligned4_offset)
  moreover have "4 * 0x30000000 = KOFFSET" by (simp add: KOFFSET_def)
  ultimately show "aligned4 (kphys ?T)" using ik by (simp add: kphys_def va_to_pa_def)
qed

lemma kthread_frame_words:
  "kthread_frame thread (a, m) =
     foldl Push_Stack_4Byte (a, m) ([push_bit 9 1, 8, thread] @ replicate 9 0 @ [a - 48])"
  by (simp add: kthread_frame_def Push_Stack_4Byte_def Let_def numeral_eq_Suc)

section \<open>The process table invariant\<close>

definition proc_table_ok :: "sys \<Rightarrow> nat list \<Rightarrow> bool" where
  "proc_table_ok s l \<longleftrightarrow> length (Proc s) = MAX_PROC \<and> run_list (Proc s) l \<and>
     list_all (\<lambda>i. \<not> p_flag (proc s i) \<and> p_pid (proc s i) = int i) l"

lemma proc_table_ok_in:
  "proc_table_ok s l \<Longrightarrow> i \<in> set l \<Longrightarrow> i < MAX_PROC \<and> \<not> p_flag (proc s i) \<and> p_pid (proc s i) = int i"
  by (auto simp: proc_table_ok_def run_list_def list_all_iff)

lemma Find_Empty_PCB_Some:
  assumes "Find_Empty_PCB s = Some i"
  shows "1 \<le> i" "i < MAX_PROC" "p_flag (proc s i)" "\<And>j. 1 \<le> j \<Longrightarrow> j < i \<Longrightarrow> \<not> p_flag (proc s j)"
  using first_index_Some [of _ "[1..<MAX_PROC]" i] first_index_upt_least [of _ 1 MAX_PROC i] assms
  by (auto simp: Find_Empty_PCB_def)

lemma Find_Empty_PCB_None:
  "Find_Empty_PCB s = None \<longleftrightarrow> (\<forall>i. 1 \<le> i \<and> i < MAX_PROC \<longrightarrow> \<not> p_flag (proc s i))"
  by (auto simp: Find_Empty_PCB_def first_index_None)

lemma init_message_pool_simps [simp]:
  "p_next (init_message_pool p) = p_next p" "p_prev (init_message_pool p) = p_prev p"
  "p_flag (init_message_pool p) = p_flag p" "p_pid (init_message_pool p) = p_pid p"
  "p_status (init_message_pool p) = p_status p" "p_cr3 (init_message_pool p) = p_cr3 p"
  "p_esp (init_message_pool p) = p_esp p" "time_elapsed (init_message_pool p) = time_elapsed p"
  by (simp_all add: init_message_pool_def)

definition kthread_context :: "u32 \<Rightarrow> u32 \<Rightarrow> machine_context" where
  "kthread_context thread sp = \<lparr>ctx_regs = replicate 7 0, ctx_eip = thread, ctx_cs = 8,
     ctx_eflags = 0x200, ctx_esp = sp\<rparr>"

text \<open>The words below \<open>T\<close> are those of a new frame.\<close>

definition frame_words :: "u32 \<Rightarrow> u32 \<Rightarrow> memory \<Rightarrow> bool" where
  "frame_words thread T m \<longleftrightarrow>
     (\<forall>i < 13. load32 m (kphys (T - 4 * of_nat (Suc i))) = ([push_bit 9 1, 8, thread] @ replicate 9 0 @ [T - 48]) ! i)"

lemma kthread_frame_built:
  fixes thread :: u32 and m :: memory
  assumes "aligned4 (kphys T)"
    and "\<And>k. k \<le> 13 \<Longrightarrow> kphys (T - 4 * of_nat k) = kphys T - 4 * of_nat k"
  defines "st \<equiv> kthread_frame thread (T, m)"
  shows "fst st = T - 52" "frame_words thread T (snd st)"
proof -
  let ?ws = "[push_bit 9 1, 8, thread] @ replicate 9 0 @ [T - 48]"
  have st: "st = foldl Push_Stack_4Byte (T, m) ?ws"
    unfolding st_def by (rule kthread_frame_words)
  have len: "length ?ws = 13" by simp
  have fst: "fst st = T - 52" and rd: "\<And>i. i < 13 \<Longrightarrow> load32 (snd st) (kphys T - 4 - 4 * of_nat i) = ?ws ! i"
    using push_words [OF assms(1), of ?ws m] assms(2) unfolding st by (simp_all only: len) simp_all
  show "fst st = T - 52" by (rule fst)
  have "load32 (snd st) (kphys (T - 4 * of_nat (Suc i))) = ?ws ! i" if "i < 13" for i
  proof -
    have "kphys (T - 4 * of_nat (Suc i)) = kphys T - 4 * of_nat (Suc i)"
      using that by (intro assms(2)) simp
    also have "\<dots> = kphys T - 4 - 4 * of_nat i" by (simp add: algebra_simps)
    finally show ?thesis using rd [OF that] by simp
  qed
  then show "frame_words thread T (snd st)" unfolding frame_words_def by blast
qed

text \<open>Popping the frame that was pushed: the context the first switch restores.\<close>

lemma frame_words_restore:
  assumes "frame_words thread T m"
  shows "restore_context (\<lambda>a. load32 m (kphys a)) (T - 52) = kthread_context thread T"
proof -
  let ?ws = "[push_bit 9 1, 8, thread] @ replicate 9 0 @ [T - 48]"
  let ?rd = "\<lambda>a. load32 m (kphys a)"
  have at: "?rd (T - 4 * of_nat (Suc i)) = ?ws ! i" if "i < 13" for i
    using assms that by (simp add: frame_words_def)
  have r: "?rd (T - 4) = 0x200" "?rd (T - 8) = 8" "?rd (T - 12) = thread" "?rd (T - 16) = 0"
      "?rd (T - 20) = 0" "?rd (T - 24) = 0" "?rd (T - 28) = 0" "?rd (T - 32) = 0" "?rd (T - 40) = 0"
      "?rd (T - 44) = 0" "?rd (T - 48) = 0" "?rd (T - 52) = T - 48"
    using at [of 0] at [of 1] at [of 2] at [of 3] at [of 4] at [of 5] at [of 6] at [of 7] at [of 9]
      at [of 10] at [of 11] at [of 12]
    by (simp_all add: numeral_eq_Suc)
  show ?thesis using r
    by (simp add: restore_context_def kthread_context_def Let_def numeral_eq_Suc)
qed

text \<open>The zero-initialised state in which the kernel image starts, with a screen, and with
  \<open>Proc\<close> at one possible address.\<close>

definition zero_message :: message where
  "zero_message = \<lparr>m_src = 0, m_dest = 0, m_type = 0, m_w0 = 0, m_w1 = 0, m_w2 = 0, m_w3 = 0\<rparr>"

definition zero_slot :: slot where
  "zero_slot = \<lparr>sl_msg = zero_message, sl_prev = None, sl_next = None, sl_flag = False\<rparr>"

definition zero_pcb :: pcb where
  "zero_pcb = \<lparr>p_esp = 0, p_kstack_top = 0, p_next = None, p_prev = None, p_flag = False,
     p_status = STATUS_WAITING, p_cr3 = 0, p_pid = 0,
     Msg_lock = \<lparr>token = 0, queue_tail = 0, queue = replicate Max_Sem_Queue 0\<rparr>,
     Msg_rec_Pool = replicate Max_Message_Pool zero_slot, Msg_rec = None, Msg_ign = None,
     time_elapsed = 0\<rparr>"

definition boot_sys :: sys where
  "boot_sys = \<lparr>cpu = \<lparr>intr_flag = False, cr3_reg = 0, global_lock_counter = 0, enter_interrupt = 0\<rparr>,
     Proc = replicate MAX_PROC zero_pcb, current_pcb = 0, need_sched = True, mem = (\<lambda>_. 0),
     con = init_screen \<lparr>vmem = [], con_x = 0, con_y = 0, con_ports = []\<rparr>,
     Proc_addr = 0xC0120000, kpagedir_addr = 0xC0200000\<rparr>"

lemma boot_sys_layout: "layout_ok boot_sys"
  by (simp add: layout_ok_def boot_sys_def KOFFSET_def)

section \<open>Properties of process creation\<close>

lemma fold_set_flags:
  "length (Proc (fold (\<lambda>i. upd_proc i (p_flag_update (\<lambda>_. True))) is s)) = length (Proc s)"
  "i < length (Proc s) \<Longrightarrow> proc (fold (\<lambda>i. upd_proc i (p_flag_update (\<lambda>_. True))) is s) i
     = (if i \<in> set is then (proc s i)\<lparr>p_flag := True\<rparr> else proc s i)"
  by (induction "is" arbitrary: s) (auto simp: nth_upd_at)

lemma fold_set_flags_frame:
  "current_pcb (fold (\<lambda>i. upd_proc i (p_flag_update (\<lambda>_. True))) is s) = current_pcb s"
  "mem (fold (\<lambda>i. upd_proc i (p_flag_update (\<lambda>_. True))) is s) = mem s"
  "Proc_addr (fold (\<lambda>i. upd_proc i (p_flag_update (\<lambda>_. True))) is s) = Proc_addr s"
  "need_sched (fold (\<lambda>i. upd_proc i (p_flag_update (\<lambda>_. True))) is s) = need_sched s"
  by (induction "is" arbitrary: s) auto

lemma init_proc_ok:
  assumes "length (Proc s) = MAX_PROC"
  shows "proc_table_ok (init_proc s) [init_pcb]" "p_status (proc (init_proc s) init_pcb) = STATUS_WAITING"
    "current_pcb (init_proc s) = init_pcb" "Proc_addr (init_proc s) = Proc_addr s"
    "need_sched (init_proc s) = need_sched s"
    "\<And>i. 1 \<le> i \<Longrightarrow> i < MAX_PROC \<Longrightarrow> p_flag (proc (init_proc s) i)"
  using assms
  by (auto simp: init_proc_def Let_def proc_table_ok_def run_list_def fold_set_flags
      fold_set_flags_frame init_pcb_def MAX_PROC_def nth_upd_at)


lemma set_append_list_all: "list_all P (l @ [x]) \<longleftrightarrow> list_all P l \<and> P x"
  by auto

lemma Create_kthread_spec:
  assumes ok: "proc_table_ok s l" and lay: "layout_ok s" and Some: "Find_Empty_PCB s = Some new"
  defines "T \<equiv> kstack_addr s new + STACK_SIZE"
  shows "\<exists>s'. Create_kthread thread s = Inr s' \<and> new \<notin> set l \<and> proc_table_ok s' (l @ [new]) \<and>
    p_status (proc s' new) = STATUS_WAITING \<and> p_esp (proc s' new) = T - 52 \<and>
    frame_words thread T (mem s') \<and> mem s' = snd (kthread_frame thread (T, mem s)) \<and>
    (\<forall>i < MAX_PROC. i = new \<or> p_status (proc s' i) = p_status (proc s i) \<and> p_esp (proc s' i) = p_esp (proc s i) \<and>
       p_flag (proc s' i) = p_flag (proc s i)) \<and>
    con s' = con s \<and> cpu s' = cpu s \<and> current_pcb s' = current_pcb s \<and> Proc_addr s' = Proc_addr s"
proof -
  note new = Find_Empty_PCB_Some [OF Some]
  have len: "length (Proc s) = MAX_PROC" and rl: "run_list (Proc s) l"
    using ok by (simp_all add: proc_table_ok_def)
  have notin: "new \<notin> set l" using proc_table_ok_in [OF ok, of new] new(3) by blast
  obtain P where P: "link_before_init new (Proc s) = Inr P" "run_list P (l @ [new])"
      "same_but_links (Proc s) P"
    using link_before_init_run_list [OF rl _ notin] new(2) len by metis
  define f where "f = (\<lambda>p. init_message_pool (p\<lparr>p_status := STATUS_WAITING, p_pid := int new,
      p_flag := False, time_elapsed := 0, p_cr3 := make_cr3 (va_to_pa (kpagedir_addr s))\<rparr>))"
  define st where "st = kthread_frame thread (kstack_addr s new + STACK_SIZE, mem s)"
  define s' where "s' = upd_proc new (p_esp_update (\<lambda>_. fst st)) (upd_proc new f (s\<lparr>Proc := P\<rparr>)\<lparr>mem := snd st\<rparr>)"
  have eq: "Create_kthread thread s = Inr s'"
    using Some P(1) by (simp add: Create_kthread_def Let_def s'_def st_def f_def upd_proc_def
        kstack_addr_def pcb_addr_def)
  have lenP: "length P = MAX_PROC" using same_but_links_length [OF P(3)] len by simp
  have Ps: "Proc s' = upd_at new (p_esp_update (\<lambda>_. fst st) \<circ> f) P" by (simp add: s'_def)
  have f: "p_next (f p) = p_next p" "p_prev (f p) = p_prev p" "p_flag (f p) = False"
      "p_pid (f p) = int new" "p_status (f p) = STATUS_WAITING" for p
    by (simp_all add: f_def)
  have at_new: "proc s' new = (f (P ! new))\<lparr>p_esp := fst st\<rparr>" using new(2) lenP by (simp add: Ps)
  have at_other: "proc s' i = P ! i" if "i \<noteq> new" for i using that by (simp add: Ps)
  have rl': "run_list (Proc s') (l @ [new])"
    unfolding Ps by (rule run_list_upd_at [OF P(2)]) (simp_all add: f)
  have "\<not> p_flag (proc s' i) \<and> p_pid (proc s' i) = int i" if "i \<in> set l" for i
  proof -
    have "i \<noteq> new" using notin that by blast
    then show ?thesis
      using proc_table_ok_in [OF ok that] same_but_links_nth [OF P(3), of i] at_other len by simp
  qed
  then have ok': "proc_table_ok s' (l @ [new])"
    using rl' lenP at_new f by (simp add: proc_table_ok_def Ps list_all_iff)
  have status: "p_status (proc s' i) = p_status (proc s i)" if "i < MAX_PROC" "i \<noteq> new" for i
    using same_but_links_nth [OF P(3), of i] at_other [OF that(2)] that(1) len by simp
  have st': "fst st = T - 52" "frame_words thread T (snd st)"
    using kthread_frame_built [of T thread "mem s"] kstack_top_addr(1) [OF lay new(2)] kstack_top_addr(2) [OF lay new(2), of 0]
    unfolding st_def T_def by simp_all
  have esp: "p_esp (proc s' i) = p_esp (proc s i)" "p_flag (proc s' i) = p_flag (proc s i)" if "i < MAX_PROC" "i \<noteq> new" for i
    using same_but_links_nth [OF P(3), of i] at_other [OF that(2)] that(1) len by simp_all
  have rest: "mem s' = snd st" "con s' = con s" "cpu s' = cpu s" "current_pcb s' = current_pcb s" "Proc_addr s' = Proc_addr s"
    by (simp_all add: s'_def)
  show ?thesis
    using eq notin ok' status esp at_new f st' rest by (intro exI [of _ s']) (auto simp: st_def T_def)
qed

text \<open>C8: Creating a kernel thread takes the least free entry of the process table, or panics
  exactly when no entry from 1 to 31 is free. The new thread is ready to run at the end of the
  run list, every other process keeps its status, and the frame built on its stack is the one
  the context switch pops: execution starts at the thread's function in the kernel's code
  segment, with interrupts enabled, cleared registers and an empty stack.\<close>

theorem Create_kthread_correct:
  assumes ok: "proc_table_ok s l" and lay: "layout_ok s"
  shows "case Find_Empty_PCB s of
      None \<Rightarrow> Create_kthread thread s = Inl (Panic ''Process Table is Full!\<newline>'')
    | Some new \<Rightarrow> \<exists>s'. Create_kthread thread s = Inr s' \<and> new \<notin> set l
        \<and> proc_table_ok s' (l @ [new]) \<and> p_status (proc s' new) = STATUS_WAITING
        \<and> (\<forall>i < MAX_PROC. i = new \<or> p_status (proc s' i) = p_status (proc s i))
        \<and> restore_context (\<lambda>a. load32 (mem s') (kphys a)) (p_esp (proc s' new))
          = kthread_context thread (kstack_addr s new + STACK_SIZE)"
proof (cases "Find_Empty_PCB s")
  case None
  then show ?thesis by (simp add: Create_kthread_def panic_def)
next
  case (Some new)
  from Create_kthread_spec [OF ok lay Some, of thread] obtain s' where
    "Create_kthread thread s = Inr s'" "new \<notin> set l" "proc_table_ok s' (l @ [new])"
    "p_status (proc s' new) = STATUS_WAITING" "p_esp (proc s' new) = kstack_addr s new + STACK_SIZE - 52"
    "frame_words thread (kstack_addr s new + STACK_SIZE) (mem s')"
    "\<forall>i < MAX_PROC. i = new \<or> p_status (proc s' i) = p_status (proc s i)" by blast
  with Some frame_words_restore [OF this(6)] show ?thesis by auto
qed

theorem Create_kthread_correct_witness:
  "\<exists>s'. Create_kthread 0xC0100000 (init_proc boot_sys) = Inr s' \<and> proc_table_ok s' [0, 1]
    \<and> ctx_eip (restore_context (\<lambda>a. load32 (mem s') (kphys a)) (p_esp (proc s' 1))) = 0xC0100000"
proof -
  have len: "length (Proc boot_sys) = MAX_PROC" by (simp add: boot_sys_def)
  have lay: "layout_ok (init_proc boot_sys)"
    using boot_sys_layout init_proc_ok(4) [OF len] by (simp add: layout_ok_def)
  have "p_flag (proc (init_proc boot_sys) 1)"
    using init_proc_ok(6) [OF len, where i = 1] by (simp add: MAX_PROC_def)
  then have "Find_Empty_PCB (init_proc boot_sys) = Some 1"
    by (simp add: Find_Empty_PCB_def MAX_PROC_def upt_rec)
  then show ?thesis
    using Create_kthread_correct [OF init_proc_ok(1) [OF len] lay, where thread = "0xC0100000"]
    by (auto simp: kthread_context_def init_pcb_def)
qed

section \<open>The search for the next process\<close>

lemma next_live_simps:
  "next_live P None = Some None"
  "next_live P (Some i) =
     (if p_status (P ! i) = STATUS_WAITING then Some (Some i) else next_live P (p_next (P ! i)))"
  by (subst next_live.simps, simp)+

text \<open>Along a linked path the search returns the first waiting process, or goes on behind it.\<close>

lemma next_live_path:
  assumes "\<And>k. Suc k < length xs \<Longrightarrow> p_next (P ! (xs ! k)) = Some (xs ! Suc k)" "xs \<noteq> []"
  shows "next_live P (Some (hd xs)) =
    (case find (\<lambda>i. p_status (P ! i) = STATUS_WAITING) xs of
       Some i \<Rightarrow> Some (Some i) | None \<Rightarrow> next_live P (p_next (P ! last xs)))"
  using assms
proof (induction xs)
  case Nil
  then show ?case by simp
next
  case (Cons x xs)
  show ?case
  proof (cases "xs = []")
    case True
    then show ?thesis by (simp add: next_live_simps)
  next
    case False
    have "p_next (P ! x) = Some (hd xs)"
      using Cons.prems(1) [of 0] False by (simp add: hd_conv_nth)
    moreover have "next_live P (Some (hd xs)) =
      (case find (\<lambda>i. p_status (P ! i) = STATUS_WAITING) xs of
         Some i \<Rightarrow> Some (Some i) | None \<Rightarrow> next_live P (p_next (P ! last xs)))"
    proof (rule Cons.IH [OF _ False])
      show "p_next (P ! (xs ! k)) = Some (xs ! Suc k)" if "Suc k < length xs" for k
        using Cons.prems(1) [of "Suc k"] that by simp
    qed
    moreover have "last (x # xs) = last xs" using False by simp
    ultimately show ?thesis
      unfolding list.sel next_live_simps(2) [of P x] by (simp only: find.simps if_True if_False split: if_split) simp
  qed
qed

text \<open>On a closed set of processes none of which waits the search does not return.\<close>

definition closed_unready :: "pcb list \<Rightarrow> nat set \<Rightarrow> bool" where
  "closed_unready P S \<longleftrightarrow>
     (\<forall>i \<in> S. p_status (P ! i) \<noteq> STATUS_WAITING \<and> (\<exists>j \<in> S. p_next (P ! i) = Some j))"

lemma next_live_Some_leaves:
  assumes "next_live P p = Some r" "closed_unready P S"
  shows "p \<notin> Some ` S"
proof -
  have "case (P, p) of (P, p) \<Rightarrow> \<forall>S. closed_unready P S \<longrightarrow> p \<notin> Some ` S"
    using assms(1)
  proof (rule next_live.raw_induct [rotated])
    fix nl :: "pcb list \<Rightarrow> nat option \<Rightarrow> nat option option" and P p r
    assume IH: "\<And>P p r. nl P p = Some r \<Longrightarrow> case (P, p) of (P, p) \<Rightarrow> \<forall>S. closed_unready P S \<longrightarrow> p \<notin> Some ` S"
      and eq: "(case p of None \<Rightarrow> Some None
        | Some i \<Rightarrow> if p_status (P ! i) = STATUS_WAITING then Some (Some i) else nl P (p_next (P ! i))) = Some r"
    have "p \<notin> Some ` S" if cl: "closed_unready P S" for S
    proof
      assume "p \<in> Some ` S"
      then obtain i j where ij: "p = Some i" "i \<in> S" "p_status (P ! i) \<noteq> STATUS_WAITING"
          "j \<in> S" "p_next (P ! i) = Some j"
        using cl by (fastforce simp: closed_unready_def)
      then have "nl P (Some j) = Some r" using eq by simp
      with IH cl ij(4) show False by blast
    qed
    then show "case (P, p) of (P, p) \<Rightarrow> \<forall>S. closed_unready P S \<longrightarrow> p \<notin> Some ` S" by simp
  qed
  with assms(2) show ?thesis by simp
qed

lemma next_live_diverges: "closed_unready P S \<Longrightarrow> i \<in> S \<Longrightarrow> next_live P (Some i) = None"
  using next_live_Some_leaves [of P "Some i"] by (cases "next_live P (Some i)") auto

text \<open>The order in which the search visits the run list: after the current process, round the
  circle, the current process last.\<close>

definition ready_order :: "nat list \<Rightarrow> nat \<Rightarrow> nat list" where
  "ready_order l c = tl (dropWhile (\<lambda>x. x \<noteq> c) l) @ takeWhile (\<lambda>x. x \<noteq> c) l @ [c]"

lemma ready_order_split:
  assumes "distinct l" "l = xs @ c # ys"
  shows "ready_order l c = ys @ xs @ [c]"
proof -
  have "\<forall>x \<in> set xs. x \<noteq> c" using assms by auto
  then have "takeWhile (\<lambda>x. x \<noteq> c) l = xs" "dropWhile (\<lambda>x. x \<noteq> c) l = c # ys"
    using assms(2) by simp_all
  then show ?thesis by (simp add: ready_order_def)
qed

lemma ready_order_set:
  assumes "distinct l" "c \<in> set l"
  shows "set (ready_order l c) = set l" "distinct (ready_order l c)" "last (ready_order l c) = c"
proof -
  obtain xs ys where "l = xs @ c # ys" using assms(2) by (meson split_list)
  with ready_order_split [OF assms(1) this] assms(1)
  show "set (ready_order l c) = set l" "distinct (ready_order l c)" "last (ready_order l c) = c"
    by auto
qed

lemma ready_order_rotate:
  assumes d: "distinct l" and c: "c \<in> set l" and r: "ready_order l c = A @ i # B"
  shows "ready_order l i = B @ A @ [i]"
proof -
  obtain xs ys where l: "l = xs @ c # ys" using c by (meson split_list)
  have rc: "ys @ xs @ [c] = A @ i # B" using ready_order_split [OF d l] r by simp
  have "distinct (ys @ xs @ [c])" using d l by auto
  then have unique: "A = A' \<and> B = B'" if "ys @ xs @ [c] = A' @ i # B'" for A' B'
    using that rc by (metis append_Cons_eq_iff distinct_append distinct.simps(2) not_distinct_conv_prefix)
  have "i \<in> set (ys @ xs @ [c])" unfolding rc by simp
  then consider "i = c" | "i \<in> set ys" | "i \<in> set xs" by auto
  then show ?thesis
  proof cases
    case 1
    then have "A = ys @ xs" "B = []" using unique [of "ys @ xs" "[]"] by simp_all
    with 1 ready_order_split [OF d l] show ?thesis by simp
  next
    case 2
    then obtain y1 y2 where y: "ys = y1 @ i # y2" by (meson split_list)
    then have "A = y1" "B = y2 @ xs @ [c]" using unique [of y1 "y2 @ xs @ [c]"] by simp_all
    with ready_order_split [OF d, of "xs @ c # y1" i y2] l y show ?thesis by simp
  next
    case 3
    then obtain x1 x2 where x: "xs = x1 @ i # x2" by (meson split_list)
    then have "A = ys @ x1" "B = x2 @ [c]" using unique [of "ys @ x1" "x2 @ [c]"] by simp_all
    with ready_order_split [OF d, of x1 i "x2 @ c # ys"] l x show ?thesis by simp
  qed
qed

text \<open>On the run list the search finds the first waiting process in that order.\<close>

lemma next_live_run_list:
  assumes rl: "run_list P l" and c: "c \<in> set l"
  shows "next_live P (p_next (P ! c)) =
    map_option Some (find (\<lambda>i. p_status (P ! i) = STATUS_WAITING) (ready_order l c))"
proof -
  let ?W = "\<lambda>i. p_status (P ! i) = STATUS_WAITING"
  let ?nx = "\<lambda>i. p_next (P ! i)" and ?pv = "\<lambda>i. p_prev (P ! i)"
  obtain xs ys where l: "l = xs @ c # ys" using c by (meson split_list)
  have r: "ready_order l c = ys @ xs @ [c]" by (rule ready_order_split [OF run_list_distinct [OF rl] l])
  let ?r = "ys @ xs @ [c]"
  have "ring_on ?nx ?pv ((xs @ [c]) @ ys)" using rl l by (simp add: run_list_def)
  then have "ring_on ?nx ?pv ?r" by (drule_tac ring_on_rotate) simp
  then have lk: "linked ?nx ?pv ?r" and w: "?nx c = Some (hd ?r)"
    by (simp_all add: ring_on_linked)
  have path: "next_live P (Some (hd ?r)) =
    (case find ?W ?r of Some i \<Rightarrow> Some (Some i) | None \<Rightarrow> next_live P (?nx (last ?r)))"
    using lk by (intro next_live_path) (simp_all add: linked_iff)
  show ?thesis
  proof (cases "find ?W ?r")
    case None
    have "\<exists>j \<in> set ?r. ?nx i = Some j" if i: "i \<in> set ?r" for i
    proof -
      obtain k where k: "k < length ?r" "i = ?r ! k" using i by (metis in_set_conv_nth)
      then have "?nx i = Some (?r ! (Suc k mod length ?r))"
        using ring_on_next [OF \<open>ring_on ?nx ?pv ?r\<close> k(1)] by simp
      moreover have "?r ! (Suc k mod length ?r) \<in> set ?r" by (intro nth_mem) simp
      ultimately show ?thesis by blast
    qed
    then have "closed_unready P (set ?r)"
      using None unfolding closed_unready_def find_None_iff by blast
    moreover have "hd ?r \<in> set ?r" by (intro list.set_sel) simp
    ultimately have "next_live P (Some (hd ?r)) = None" by (rule next_live_diverges)
    then show ?thesis unfolding r w using None by simp
  next
    case (Some i)
    then show ?thesis unfolding r w using path by simp
  qed
qed

section \<open>Properties of the scheduler\<close>

text \<open>The process that a scheduling decision hands the processor to: the first in that order that
  is ready, where the interrupted process counts as ready.\<close>

definition ready :: "sys \<Rightarrow> nat \<Rightarrow> bool" where
  "ready s i \<longleftrightarrow> p_status (proc s i) = STATUS_WAITING
     \<or> (i = current_pcb s \<and> p_status (proc s i) = STATUS_RUNNING)"

definition sched_ok :: "sys \<Rightarrow> nat list \<Rightarrow> bool" where
  "sched_ok s l \<longleftrightarrow> proc_table_ok s l \<and> current_pcb s \<in> set l \<and>
     list_all (\<lambda>i. p_status (proc s i) = STATUS_RUNNING \<longrightarrow> i = current_pcb s) l"

lemma sched_okD:
  assumes "sched_ok s l"
  shows "run_list (Proc s) l" "distinct l" "current_pcb s \<in> set l" "length (Proc s) = MAX_PROC"
    "\<And>i. i \<in> set l \<Longrightarrow> i < MAX_PROC"
proof -
  show rl: "run_list (Proc s) l" and "current_pcb s \<in> set l" and len: "length (Proc s) = MAX_PROC"
    using assms by (simp_all add: sched_ok_def proc_table_ok_def)
  show "distinct l" using rl by (rule run_list_distinct)
  show "i < MAX_PROC" if "i \<in> set l" for i using rl len that by (simp add: run_list_def)
qed

text \<open>The process that runs next is dispatched; the others keep their entries.\<close>

definition dispatched :: "sys \<Rightarrow> nat \<Rightarrow> sys \<Rightarrow> bool" where
  "dispatched s i s' \<longleftrightarrow> current_pcb s' = i \<and> p_status (proc s' i) = STATUS_RUNNING \<and>
     cr3_reg (cpu s') = p_cr3 (proc s i) \<and> \<not> need_sched s' \<and>
     mem s' = mem s \<and> con s' = con s \<and>
     (\<forall>j. j \<noteq> i \<and> j \<noteq> current_pcb s \<longrightarrow> proc s' j = proc s j) \<and>
     (current_pcb s \<noteq> i \<longrightarrow> p_status (proc s' (current_pcb s)) =
        (if ready s (current_pcb s) then STATUS_WAITING else p_status (proc s (current_pcb s))))"

lemma schedule_step:
  assumes ok: "sched_ok s l" and need: "need_sched s"
  shows "case find (ready s) (ready_order l (current_pcb s)) of
      None \<Rightarrow> schedule s = None
    | Some i \<Rightarrow> \<exists>s'. schedule s = Some (Inr s') \<and> sched_ok s' l \<and> dispatched s i s'"
proof -
  let ?c = "current_pcb s"
  note k = sched_okD [OF ok]
  define s1 where "s1 = (if p_status (proc s ?c) = STATUS_RUNNING
      then upd_proc ?c (p_status_update (\<lambda>_. STATUS_WAITING)) s else s)"
  have cM: "?c < MAX_PROC" using k by blast
  have fr: "current_pcb s1 = ?c" "length (Proc s1) = MAX_PROC" "mem s1 = mem s" "con s1 = con s"
    "cpu s1 = cpu s"
    using k(4) by (simp_all add: s1_def)
  have other: "proc s1 j = proc s j" if "j \<noteq> ?c" for j using that by (simp add: s1_def)
  have st_c: "p_status (proc s1 ?c) = (if ready s ?c then STATUS_WAITING else p_status (proc s ?c))"
    "p_flag (proc s1 j) = p_flag (proc s j)" "p_pid (proc s1 j) = p_pid (proc s j)"
    "p_cr3 (proc s1 j) = p_cr3 (proc s j)" for j
    using k(4) cM by (cases "j = ?c"; auto simp: s1_def ready_def)+
  have rl1: "run_list (Proc s1) l"
    using k(1) by (auto simp: s1_def intro: run_list_upd_at)
  have W: "p_status (proc s1 i) = STATUS_WAITING \<longleftrightarrow> ready s i" for i
    using other [of i] st_c(1) by (cases "i = ?c") (auto simp: ready_def)
  have search: "find_next_live_process s1 = map_option Some (find (ready s) (ready_order l ?c))"
    using next_live_run_list [OF rl1 k(3)] by (simp add: find_next_live_process_def fr W)
  have eq: "schedule s = (case find_next_live_process s1 of
              None \<Rightarrow> None
            | Some None \<Rightarrow> Some (Inl (Fault ''current_pcb is NULL''))
            | Some (Some i) \<Rightarrow>
                let s = upd_proc i (p_status_update (\<lambda>_. STATUS_RUNNING)) (s1\<lparr>current_pcb := i\<rparr>)
                in Some (Inr (s\<lparr>cpu := (cpu s)\<lparr>cr3_reg := p_cr3 (proc s i)\<rparr>, need_sched := False\<rparr>)))"
    using need by (simp only: schedule_def if_True Let_def s1_def)
  show ?thesis
  proof (cases "find (ready s) (ready_order l ?c)")
    case None
    then show ?thesis by (simp add: eq search)
  next
    case (Some i)
    have i: "i \<in> set l" using Some ready_order_set(1) [OF k(2,3)] by (metis find_Some_iff nth_mem)
    then have iM: "i < MAX_PROC" by (rule k(5))
    define s' where "s' = (let s = upd_proc i (p_status_update (\<lambda>_. STATUS_RUNNING)) (s1\<lparr>current_pcb := i\<rparr>)
                in s\<lparr>cpu := (cpu s)\<lparr>cr3_reg := p_cr3 (proc s i)\<rparr>, need_sched := False\<rparr>)"
    have "schedule s = Some (Inr s')" unfolding eq search Some s'_def by (simp add: Let_def)
    moreover have P': "Proc s' = upd_at i (p_status_update (\<lambda>_. STATUS_RUNNING)) (Proc s1)"
      by (simp add: s'_def Let_def)
    have s': "current_pcb s' = i" "cr3_reg (cpu s') = p_cr3 (proc s i)" "\<not> need_sched s'"
        "mem s' = mem s" "con s' = con s"
      using iM fr st_c(4) by (simp_all add: s'_def Let_def)
    have at_i: "p_status (proc s' i) = STATUS_RUNNING" using iM fr by (simp add: P')
    have at: "proc s' j = proc s1 j" if "j \<noteq> i" for j using that by (simp add: P')
    have "dispatched s i s'"
      unfolding dispatched_def using s' at_i at other st_c(1) by simp
    moreover have "sched_ok s' l"
      unfolding sched_ok_def proc_table_ok_def list_all_iff
    proof (intro conjI ballI)
      show "run_list (Proc s') l" unfolding P' by (rule run_list_upd_at [OF rl1]) simp_all
      show "length (Proc s') = MAX_PROC" "current_pcb s' \<in> set l" using i fr s'(1) by (simp_all add: P')
      have all: "\<not> p_flag (proc s' j) \<and> p_pid (proc s' j) = int j
        \<and> (p_status (proc s' j) = STATUS_RUNNING \<longrightarrow> j = i)" if j: "j \<in> set l" for j
    proof -
      have "\<not> p_flag (proc s j)" "p_pid (proc s j) = int j"
        "p_status (proc s j) = STATUS_RUNNING \<Longrightarrow> j = ?c"
        using ok j by (auto simp: sched_ok_def proc_table_ok_def list_all_iff)
      moreover have "p_flag (proc s' j) = p_flag (proc s1 j)" "p_pid (proc s' j) = p_pid (proc s1 j)"
        using iM fr by (cases "j = i"; simp add: P')+
      moreover have "p_status (proc s' j) = STATUS_RUNNING \<Longrightarrow> j \<noteq> i \<Longrightarrow> p_status (proc s1 j) = STATUS_RUNNING"
        by (simp add: at)
      moreover have "p_status (proc s1 ?c) \<noteq> STATUS_RUNNING"
        unfolding st_c(1) by (simp add: ready_def)
      ultimately show ?thesis using st_c(2,3) other [of j] by metis
    qed
      fix j assume "j \<in> set l"
      then show "\<not> p_flag (proc s' j)" "p_pid (proc s' j) = int j"
        "p_status (proc s' j) = STATUS_RUNNING \<longrightarrow> j = current_pcb s'"
        using all [of j] s'(1) by simp_all
    qed
    ultimately show ?thesis using Some by simp
  qed
qed

text \<open>C6: A scheduling decision is round robin: when one was asked for, the processor goes to the
  first ready process after the current one on the run list, the current one last (it counts as
  ready unless it went to sleep); that process is then the only one running, its page directory
  is loaded, the preempted process becomes ready and every other entry, the run list and the
  memory are untouched. If no process of the run list is ready, the search never returns.
  Without a request nothing changes.\<close>

theorem schedule_round_robin:
  assumes "sched_ok s l"
  shows "if need_sched s then
      case find (ready s) (ready_order l (current_pcb s)) of
        None \<Rightarrow> schedule s = None
      | Some i \<Rightarrow> \<exists>s'. schedule s = Some (Inr s') \<and> sched_ok s' l \<and> dispatched s i s'
    else schedule s = Some (Inr s)"
  using schedule_step [OF assms] by (simp add: schedule_def)

lemma boot_sched_ok: "sched_ok (init_proc boot_sys) [0]"
  using init_proc_ok [of boot_sys]
  by (simp add: sched_ok_def boot_sys_def init_pcb_def)

lemma boot_schedule:
  assumes "sched_ok s [0]" "need_sched s" "p_status (proc s 0) = STATUS_WAITING"
  shows "find (ready s) (ready_order [0] (current_pcb s)) = Some 0" "current_pcb s = 0"
  using assms by (auto simp: sched_ok_def ready_order_def ready_def)

theorem schedule_round_robin_witness:
  "\<exists>s'. schedule (init_proc boot_sys) = Some (Inr s') \<and> current_pcb s' = 0
     \<and> p_status (proc s' 0) = STATUS_RUNNING"
proof -
  have "need_sched (init_proc boot_sys)" "p_status (proc (init_proc boot_sys) 0) = STATUS_WAITING"
    using init_proc_ok(2,5) [of boot_sys] by (simp_all add: boot_sys_def init_pcb_def)
  then show ?thesis
    using schedule_round_robin [OF boot_sched_ok] boot_schedule [OF boot_sched_ok]
    by (auto simp: dispatched_def)
qed

text \<open>How many processes the search may still prefer to \<open>j\<close>.\<close>

definition rank :: "nat list \<Rightarrow> nat \<Rightarrow> nat \<Rightarrow> nat" where
  "rank l c j = length (takeWhile (\<lambda>x. x \<noteq> j) (ready_order l c))"

lemma rank_bound:
  assumes "distinct l" "c \<in> set l" "j \<in> set l"
  shows "rank l c j < length l"
proof -
  have "j \<in> set (ready_order l c)" using ready_order_set(1) [OF assms(1,2)] assms(3) by simp
  then have "takeWhile (\<lambda>x. x \<noteq> j) (ready_order l c) \<noteq> ready_order l c"
    by (auto simp: takeWhile_eq_all_conv)
  then have "rank l c j < length (ready_order l c)"
    unfolding rank_def by (metis append_Nil2 length_takeWhile_le nat_less_le takeWhile_dropWhile_id append_eq_append_conv)
  moreover have "length (ready_order l c) = length l"
    using ready_order_set(1,2) [OF assms(1,2)] assms(1) by (metis distinct_card)
  ultimately show ?thesis by simp
qed

lemma rank_decreases:
  assumes d: "distinct l" and c: "c \<in> set l" and j: "j \<in> set l"
    and f: "find W (ready_order l c) = Some i" and W: "W j" and ne: "j \<noteq> i"
  shows "rank l i j < rank l c j"
proof -
  obtain n where n: "n < length (ready_order l c)" "i = ready_order l c ! n"
      "\<forall>k < n. \<not> W (ready_order l c ! k)"
    using f by (auto simp: find_Some_iff)
  define A where "A = take n (ready_order l c)"
  define B where "B = drop (Suc n) (ready_order l c)"
  have r: "ready_order l c = A @ i # B" using id_take_nth_drop [OF n(1)] n(2) by (simp add: A_def B_def)
  have A: "\<forall>x \<in> set A. \<not> W x" using n(1,3) by (auto simp: A_def in_set_conv_nth)
  have "j \<in> set (ready_order l c)" using ready_order_set(1) [OF d c] j by simp
  then have jB: "j \<in> set B" using r A W ne by auto
  then have "j \<notin> set A" using W A by blast
  then have "rank l c j = length A + 1 + length (takeWhile (\<lambda>x. x \<noteq> j) B)"
    using ne r by (simp add: rank_def takeWhile_append)
  moreover have "rank l i j = length (takeWhile (\<lambda>x. x \<noteq> j) B)"
    using jB by (simp add: rank_def ready_order_rotate [OF d c r])
  ultimately show ?thesis by simp
qed

text \<open>A process waits for the processor when a decision is due and it is ready but not current.\<close>

definition waits_for :: "sys \<Rightarrow> nat list \<Rightarrow> nat \<Rightarrow> bool" where
  "waits_for s l j \<longleftrightarrow> sched_ok s l \<and> need_sched s \<and> j \<in> set l \<and> p_status (proc s j) = STATUS_WAITING"

lemma waits_for_rank:
  assumes w: "waits_for s l j" and st: "schedule s = Some (Inr s')" and ne: "current_pcb s' \<noteq> j"
  shows "rank l (current_pcb s') j < rank l (current_pcb s) j"
proof -
  have ok: "sched_ok s l" and need: "need_sched s" and j: "j \<in> set l" and r: "ready s j"
    using w by (simp_all add: waits_for_def ready_def)
  note k = sched_okD [OF ok]
  obtain i where i: "find (ready s) (ready_order l (current_pcb s)) = Some i"
    using schedule_step [OF ok need] st by (cases "find (ready s) (ready_order l (current_pcb s))") auto
  then have "current_pcb s' = i"
    using schedule_step [OF ok need] st by (auto simp: dispatched_def)
  then show ?thesis using rank_decreases [OF k(2,3) j i r] ne by auto
qed

text \<open>C7: Bounded waiting. Whatever the kernel and the interrupt handlers do between scheduling
  decisions, as long as the run list stays \<open>l\<close> and a process of it stays ready, it is
  given the processor within as many decisions as the run list has processes.\<close>

theorem schedule_bounded_waiting:
  assumes "j \<in> set l" "distinct l"
    and "\<And>n. \<forall>m < n. current_pcb (after m) \<noteq> j \<Longrightarrow>
        waits_for (before n) l j \<and> schedule (before n) = Some (Inr (after n))
        \<and> current_pcb (before (Suc n)) = current_pcb (after n)"
  shows "\<exists>n < length l. current_pcb (after n) = j"
proof (rule ccontr)
  assume "\<not> (\<exists>n < length l. current_pcb (after n) = j)"
  then have no: "\<And>m. m < length l \<Longrightarrow> current_pcb (after m) \<noteq> j" by blast
  have step: "waits_for (before n) l j \<and> schedule (before n) = Some (Inr (after n))
      \<and> current_pcb (before (Suc n)) = current_pcb (after n)" if "n \<le> length l" for n
    using assms(3) [of n] no that by simp
  have "rank l (current_pcb (before n)) j + n \<le> rank l (current_pcb (before 0)) j" if "n \<le> length l" for n
    using that
  proof (induction n)
    case (Suc n)
    then have "rank l (current_pcb (after n)) j < rank l (current_pcb (before n)) j"
      using waits_for_rank [of "before n" l j "after n"] step [of n] no [of n] by simp
    with Suc step [of n] show ?case by simp
  qed simp
  moreover have "current_pcb (before 0) \<in> set l"
    using step [of 0] sched_okD(3) by (auto simp: waits_for_def)
  then have "rank l (current_pcb (before 0)) j < length l"
    using rank_bound assms(1,2) by blast
  ultimately show False by fastforce
qed

theorem schedule_bounded_waiting_witness:
  "\<exists>s'. schedule (init_proc boot_sys) = Some (Inr s') \<and> current_pcb s' = 0"
proof -
  have w: "waits_for (init_proc boot_sys) [0] 0"
    using boot_sched_ok init_proc_ok(2,5) [of boot_sys]
    by (simp add: waits_for_def boot_sys_def init_pcb_def)
  then obtain s' where s': "schedule (init_proc boot_sys) = Some (Inr s')" "current_pcb s' = 0"
    using schedule_step [OF boot_sched_ok] boot_schedule [OF boot_sched_ok]
    by (auto simp: dispatched_def waits_for_def)
  have z: "current_pcb (init_proc boot_sys) = 0"
    using boot_sched_ok by (simp add: sched_ok_def)
  have "\<exists>n < length [0]. current_pcb ((\<lambda>_. s') n) = 0"
    using schedule_bounded_waiting [of 0 "[0]" "\<lambda>_. s'" "\<lambda>_. init_proc boot_sys"] w s' z by simp
  with s' show ?thesis by blast
qed

section \<open>A new process\<close>

lemma proc_table_ok_cong:
  assumes "proc_table_ok s l" "length (Proc s') = length (Proc s)"
    and "\<And>i. i \<in> set l \<Longrightarrow> p_next (proc s' i) = p_next (proc s i) \<and> p_prev (proc s' i) = p_prev (proc s i) \<and>
      p_flag (proc s' i) = p_flag (proc s i) \<and> p_pid (proc s' i) = p_pid (proc s i)"
  shows "proc_table_ok s' l"
proof -
  have "run_list (Proc s') l"
    by (rule run_list_cong [of "Proc s"]) (use assms in \<open>auto simp: proc_table_ok_def\<close>)
  then show ?thesis using assms by (auto simp: proc_table_ok_def list_all_iff)
qed

text \<open>A process that is set up and not in the run list becomes its last.\<close>

lemma link_new_process:
  assumes tab: "proc_table_ok s l" and new: "new < MAX_PROC" "new \<notin> set l" "\<not> p_flag (proc s new)" "p_pid (proc s new) = int new"
  shows "\<exists>P. link_before_init new (Proc s) = Inr P \<and>
    (let P' = upd_at new (p_status_update (\<lambda>_. STATUS_WAITING)) P in
     (\<forall>s'. Proc s' = P' \<longrightarrow> proc_table_ok s' (l @ [new])) \<and> p_status (P' ! new) = STATUS_WAITING \<and>
     p_cr3 (P' ! new) = p_cr3 (proc s new) \<and> p_esp (P' ! new) = p_esp (proc s new) \<and>
     (\<forall>i < MAX_PROC. i \<noteq> new \<longrightarrow> p_status (P' ! i) = p_status (proc s i)))"
proof -
  have len: "length (Proc s) = MAX_PROC" and rl: "run_list (Proc s) l" using tab by (simp_all add: proc_table_ok_def)
  have n: "new < length (Proc s)" using new(1) len by simp
  obtain P where P: "link_before_init new (Proc s) = Inr P" "run_list P (l @ [new])" "same_but_links (Proc s) P"
    by (rule link_before_init_run_list [OF rl n new(2)])
  note nth = same_but_links_nth [OF P(3)]
  define P' where "P' = upd_at new (p_status_update (\<lambda>_. STATUS_WAITING)) P"
  have lP: "length P = MAX_PROC" using same_but_links_length [OF P(3)] len by simp
  have at: "P' ! i = (if i = new then (P ! new)\<lparr>p_status := STATUS_WAITING\<rparr> else P ! i)" for i
    using lP new(1) by (simp add: P'_def nth_upd_at)
  have "run_list P' (l @ [new])" unfolding P'_def by (rule run_list_upd_at [OF P(2)]) simp_all
  moreover have "length P' = MAX_PROC" using lP by (simp add: P'_def)
  moreover have "\<not> p_flag (P' ! i) \<and> p_pid (P' ! i) = int i" if "i \<in> set (l @ [new])" for i
    using that nth len new proc_table_ok_in [OF tab] by (auto simp: at)
  ultimately have "proc_table_ok s' (l @ [new])" if "Proc s' = P'" for s'
    using that by (simp add: proc_table_ok_def list_all_iff)
  then show ?thesis
    using P(1) nth len new(1) by (intro exI [of _ P]) (simp add: Let_def P'_def [symmetric] at)
qed

end
