(* ===== verification/Message.thy ===== *)
theory Message
  imports Process
begin

text \<open>
  kernel/message.c: message passing between processes. Every process has a pool of 128 slots;
  a used slot hangs in one of two circular lists, \<open>Msg_rec\<close> (sent, not yet looked at) and
  \<open>Msg_ign\<close> (looked at and put aside by a \<open>receive\<close> that wanted another sender). The
  semaphore \<open>Msg_lock\<close> counts the messages in \<open>Msg_rec\<close>.
\<close>

section \<open>Slots and their links\<close>

definition set_sl_next :: "nat \<Rightarrow> nat option \<Rightarrow> slot list \<Rightarrow> slot list" where
  "set_sl_next i v pool = upd_at i (sl_next_update (\<lambda>_. v)) pool"

definition set_sl_prev :: "nat \<Rightarrow> nat option \<Rightarrow> slot list \<Rightarrow> slot list" where
  "set_sl_prev i v pool = upd_at i (sl_prev_update (\<lambda>_. v)) pool"

definition Find_Empty_Message :: "slot list \<Rightarrow> nat option" where
  "Find_Empty_Message pool = first_index (\<lambda>i. sl_flag (pool ! i)) [0..<Max_Message_Pool]"

text \<open>The end of the critical section of \<open>send\<close>: the new slot goes to the tail of \<open>Msg_rec\<close>.\<close>

definition link_received :: "nat \<Rightarrow> pcb \<Rightarrow> error + pcb" where
  "link_received new p =
     (case Msg_rec p of
        None \<Rightarrow>
          Inr (p\<lparr>Msg_rec := Some new,
                 Msg_rec_Pool := set_sl_next new (Some new) (set_sl_prev new (Some new) (Msg_rec_Pool p))\<rparr>)
      | Some h \<Rightarrow>
          (let pool = set_sl_prev new (sl_prev (Msg_rec_Pool p ! h)) (Msg_rec_Pool p);
               pool = set_sl_next new (Some h) pool
           in bindE (deref ''Msg_rec -> prev'' (sl_prev (pool ! h))) (\<lambda>t.
             let pool = set_sl_next t (Some new) pool;
                 pool = set_sl_prev h (Some new) pool
             in Inr (p\<lparr>Msg_rec_Pool := pool\<rparr>))))"

section \<open>send\<close>

definition send_section :: "int \<Rightarrow> message \<Rightarrow> sys \<Rightarrow> error + sys" where
  "send_section pid m s =
     (let s = lock s in
      bindE (proc_index s pid) (\<lambda>t.
        case Find_Empty_Message (Msg_rec_Pool (proc s t)) of
          None \<Rightarrow> panic ''\<newline>No enough space for message passing!\<newline>''
        | Some new \<Rightarrow>
            let src = (if enter_interrupt (cpu s) = 1 then MSG_HARD_INTR
                       else p_pid (proc s (current_pcb s)));
                pool = upd_at new (\<lambda>sl. sl\<lparr>sl_flag := False, sl_msg := m\<lparr>m_src := src, m_dest := pid\<rparr>\<rparr>)
                         (Msg_rec_Pool (proc s t))
            in bindE (link_received new ((proc s t)\<lparr>Msg_rec_Pool := pool\<rparr>)) (\<lambda>p.
                 Inr (unlock (upd_proc t (\<lambda>_. p) s)))))"

definition Sem_V_message :: "nat \<Rightarrow> sys \<Rightarrow> error + sys" where
  \<comment> \<open>\<open>Sem_V(&(target_pcb -> Msg_lock))\<close>\<close>
  "Sem_V_message t s =
     bindE (Sem_V (Msg_lock (proc s t)) s) (\<lambda>(sem, s).
       Inr (upd_proc t (Msg_lock_update (\<lambda>_. sem)) s))"

definition send :: "int \<Rightarrow> message \<Rightarrow> sys \<Rightarrow> error + sys" where
  "send pid m s =
     bindE (send_section pid m s) (\<lambda>s. bindE (proc_index s pid) (\<lambda>t. Sem_V_message t s))"

section \<open>receive\<close>

definition wanted :: "int \<Rightarrow> slot \<Rightarrow> bool" where
  "wanted pid sl \<longleftrightarrow> pid = ANY \<or> pid = m_src (sl_msg sl)"

text \<open>\<open>for (ptr = Msg_ign -> next; ptr != Msg_ign && !(...); ptr = ptr -> next);\<close>\<close>

partial_function (option) scan_ignored :: "nat option \<Rightarrow> slot list \<Rightarrow> int \<Rightarrow> nat \<Rightarrow> (error + nat) option" where
  "scan_ignored ptr pool pid g =
     (case ptr of
        None \<Rightarrow> Some (Inl (Fault ''ptr -> msg''))
      | Some i \<Rightarrow> (if i = g \<or> wanted pid (pool ! i) then Some (Inr i)
                   else scan_ignored (sl_next (pool ! i)) pool pid g))"

definition take_ignored :: "nat \<Rightarrow> pcb \<Rightarrow> error + pcb" where
  "take_ignored ptr p =
     (let pool = Msg_rec_Pool p in
      if Msg_ign p = Some ptr then
        if sl_next (pool ! ptr) = Msg_ign p then Inr (p\<lparr>Msg_ign := None\<rparr>)
        else
          bindE (deref ''ptr -> next'' (sl_next (pool ! ptr))) (\<lambda>b.
          let pool = set_sl_prev b (sl_prev (pool ! ptr)) pool in
          bindE (deref ''ptr -> prev'' (sl_prev (pool ! ptr))) (\<lambda>a.
          let pool = set_sl_next a (sl_next (pool ! ptr)) pool
          in Inr (p\<lparr>Msg_rec_Pool := pool, Msg_ign := sl_next (pool ! ptr)\<rparr>)))
      else
        bindE (deref ''ptr -> prev'' (sl_prev (pool ! ptr))) (\<lambda>a.
        let pool = set_sl_next a (sl_next (pool ! ptr)) pool in
        bindE (deref ''ptr -> next'' (sl_next (pool ! ptr))) (\<lambda>b.
        let pool = set_sl_prev b (sl_prev (pool ! ptr)) pool
        in Inr (p\<lparr>Msg_rec_Pool := pool\<rparr>))))"

text \<open>The first part of \<open>receive\<close>: look for a wanted message among those put aside and take it
  out of \<open>Msg_ign\<close>. \<open>None\<close> if the scan does not end.\<close>

definition find_ignored :: "int \<Rightarrow> pcb \<Rightarrow> (error + nat option) option" where
  "find_ignored pid p =
     (case Msg_ign p of
        None \<Rightarrow> Some (Inr None)
      | Some g \<Rightarrow>
          if wanted pid (Msg_rec_Pool p ! g) then Some (Inr (Some g))
          else (case scan_ignored (sl_next (Msg_rec_Pool p ! g)) (Msg_rec_Pool p) pid g of
                  None \<Rightarrow> None
                | Some (Inl e) \<Rightarrow> Some (Inl e)
                | Some (Inr i) \<Rightarrow> Some (Inr (if i = g then None else Some i))))"

text \<open>Taking the head of \<open>Msg_rec\<close>, and putting a slot at the tail of \<open>Msg_ign\<close>.\<close>

definition take_received :: "pcb \<Rightarrow> error + nat \<times> pcb" where
  "take_received p =
     (case Msg_rec p of
        None \<Rightarrow> panic ''Message receive is empty, semephore is wrong!\<newline>''
      | Some ptr \<Rightarrow>
          (let pool = Msg_rec_Pool p in
           if sl_next (pool ! ptr) = Some ptr then Inr (ptr, p\<lparr>Msg_rec := None\<rparr>)
           else
             bindE (deref ''Msg_rec -> next'' (sl_next (pool ! ptr))) (\<lambda>b.
             let pool = set_sl_prev b (sl_prev (pool ! ptr)) pool in
             bindE (deref ''Msg_rec -> prev'' (sl_prev (pool ! ptr))) (\<lambda>a.
             let pool = set_sl_next a (sl_next (pool ! ptr)) pool
             in Inr (ptr, p\<lparr>Msg_rec_Pool := pool, Msg_rec := sl_next (pool ! ptr)\<rparr>)))))"

definition link_ignored :: "nat \<Rightarrow> pcb \<Rightarrow> error + pcb" where
  "link_ignored ptr p =
     (case Msg_ign p of
        None \<Rightarrow>
          Inr (p\<lparr>Msg_ign := Some ptr,
                 Msg_rec_Pool := set_sl_prev ptr (Some ptr) (set_sl_next ptr (Some ptr) (Msg_rec_Pool p))\<rparr>)
      | Some g \<Rightarrow>
          (let pool = set_sl_next ptr (Some g) (Msg_rec_Pool p);
               pool = set_sl_prev ptr (sl_prev (pool ! g)) pool
           in bindE (deref ''Msg_ign -> prev'' (sl_prev (pool ! g))) (\<lambda>t.
             let pool = set_sl_next t (Some ptr) pool;
                 pool = set_sl_prev g (Some ptr) pool
             in Inr (p\<lparr>Msg_rec_Pool := pool\<rparr>))))"

text \<open>
  The body of the loop after \<open>Sem_P\<close>, between \<open>lock\<close> and \<open>unlock\<close>: \<open>Some ptr\<close> when the
  message is wanted and the loop ends, \<open>None\<close> when it was put aside.
\<close>

definition receive_take :: "int \<Rightarrow> sys \<Rightarrow> error + nat option \<times> sys" where
  "receive_take pid s =
     (let s = lock s; c = current_pcb s in
      bindE (take_received (proc s c)) (\<lambda>(ptr, p).
        if wanted pid (Msg_rec_Pool p ! ptr)
        then Inr (Some ptr, unlock (upd_proc c (\<lambda>_. p) s))
        else bindE (link_ignored ptr p) (\<lambda>p. Inr (None, unlock (upd_proc c (\<lambda>_. p) s)))))"

definition Sem_P_message :: "sys \<Rightarrow> error + bool \<times> sys" where
  \<comment> \<open>\<open>Sem_P(&(current_pcb -> Msg_lock))\<close>\<close>
  "Sem_P_message s =
     (let c = current_pcb s in
      bindE (Sem_P (Msg_lock (proc s c)) s) (\<lambda>(blocked, sem, s).
        Inr (blocked, upd_proc c (Msg_lock_update (\<lambda>_. sem)) s)))"

text \<open>The end: copy the message out and free the slot.\<close>

definition receive_end :: "nat \<Rightarrow> sys \<Rightarrow> message \<times> sys" where
  "receive_end ptr s =
     (let c = current_pcb s; m = sl_msg (Msg_rec_Pool (proc s c) ! ptr)
      in (m, unlock (upd_proc c (Msg_rec_Pool_update (upd_at ptr (sl_flag_update (\<lambda>_. True)))) (lock s))))"

text \<open>
  \<open>receive\<close> either returns a message, or the process falls asleep in \<open>Sem_P\<close>; then it goes on
  with \<open>receive_resume\<close> when it runs again.
\<close>

datatype outcome = Received message sys | Asleep sys

definition finish :: "nat \<Rightarrow> sys \<Rightarrow> outcome" where
  "finish ptr s = (case receive_end ptr s of (m, s) \<Rightarrow> Received m s)"

partial_function (option) receive_loop :: "int \<Rightarrow> sys \<Rightarrow> (error + outcome) option" where
  "receive_loop pid s =
     (case Sem_P_message s of
        Inl e \<Rightarrow> Some (Inl e)
      | Inr (blocked, s) \<Rightarrow>
          (if blocked then Some (Inr (Asleep s))
           else (case receive_take pid s of
                   Inl e \<Rightarrow> Some (Inl e)
                 | Inr (got, s) \<Rightarrow>
                     (case got of
                        Some ptr \<Rightarrow> Some (Inr (finish ptr s))
                      | None \<Rightarrow> receive_loop pid s))))"

definition receive_resume :: "int \<Rightarrow> sys \<Rightarrow> (error + outcome) option" where
  "receive_resume pid s =
     (case receive_take pid s of
        Inl e \<Rightarrow> Some (Inl e)
      | Inr (Some ptr, s) \<Rightarrow> Some (Inr (finish ptr s))
      | Inr (None, s) \<Rightarrow> receive_loop pid s)"

definition receive :: "int \<Rightarrow> sys \<Rightarrow> (error + outcome) option" where
  "receive pid s =
     (let c = current_pcb s in
      case find_ignored pid (proc s c) of
        None \<Rightarrow> None
      | Some (Inl e) \<Rightarrow> Some (Inl e)
      | Some (Inr None) \<Rightarrow> receive_loop pid s
      | Some (Inr (Some ptr)) \<Rightarrow>
          Some (bindE (take_ignored ptr (proc s c)) (\<lambda>p. Inr (finish ptr (upd_proc c (\<lambda>_. p) s)))))"

section \<open>The two lists of a mailbox\<close>

lemma set_sl_simps [simp]:
  "length (set_sl_next i v pool) = length pool" "length (set_sl_prev i v pool) = length pool"
  "sl_msg (set_sl_next i v pool ! j) = sl_msg (pool ! j)"
  "sl_msg (set_sl_prev i v pool ! j) = sl_msg (pool ! j)"
  "sl_flag (set_sl_next i v pool ! j) = sl_flag (pool ! j)"
  "sl_flag (set_sl_prev i v pool ! j) = sl_flag (pool ! j)"
  "sl_prev (set_sl_next i v pool ! j) = sl_prev (pool ! j)"
  "sl_next (set_sl_prev i v pool ! j) = sl_next (pool ! j)"
  by (cases "i < length pool"; cases "j = i";
      simp add: set_sl_next_def set_sl_prev_def upd_at_def list_update_beyond)+

lemma set_sl_at:
  "i < length pool \<Longrightarrow> sl_next (set_sl_next i v pool ! j) = (if j = i then v else sl_next (pool ! j))"
  "i < length pool \<Longrightarrow> sl_prev (set_sl_prev i v pool ! j) = (if j = i then v else sl_prev (pool ! j))"
  by (cases "j = i"; simp add: set_sl_next_def set_sl_prev_def)+

interpretation slot_links: link_store length "\<lambda>pool i. sl_next (pool ! i)" "\<lambda>pool i. sl_prev (pool ! i)"
  set_sl_next set_sl_prev
  by unfold_locales (auto simp: fun_eq_iff set_sl_at)

text \<open>\<open>head\<close> points to the circle of the slots \<open>l\<close>.\<close>

definition pool_ring :: "nat option \<Rightarrow> slot list \<Rightarrow> nat list \<Rightarrow> bool" where
  "pool_ring head pool l \<longleftrightarrow>
     (case head of
        None \<Rightarrow> l = []
      | Some h \<Rightarrow> l \<noteq> [] \<and> hd l = h \<and>
          ring_on (\<lambda>i. sl_next (pool ! i)) (\<lambda>i. sl_prev (pool ! i)) l)"

text \<open>Two pools with the same messages and flags, and the same links outside \<open>X\<close>.\<close>

definition relinked :: "nat set \<Rightarrow> slot list \<Rightarrow> slot list \<Rightarrow> bool" where
  "relinked X pool pool' \<longleftrightarrow> length pool' = length pool \<and>
     (\<forall>j. sl_msg (pool' ! j) = sl_msg (pool ! j) \<and> sl_flag (pool' ! j) = sl_flag (pool ! j)) \<and>
     (\<forall>j. j \<notin> X \<longrightarrow> sl_next (pool' ! j) = sl_next (pool ! j) \<and> sl_prev (pool' ! j) = sl_prev (pool ! j))"

lemma relinkedD:
  assumes "relinked X pool pool'"
  shows "length pool' = length pool" "sl_msg (pool' ! j) = sl_msg (pool ! j)"
    "sl_flag (pool' ! j) = sl_flag (pool ! j)"
  using assms by (simp_all add: relinked_def)

lemma pool_ring_relinked:
  assumes "pool_ring head pool l" "relinked X pool pool'" "set l \<inter> X = {}"
  shows "pool_ring head pool' l"
proof (cases head)
  case None
  with assms(1) show ?thesis by (simp add: pool_ring_def)
next
  case (Some h)
  moreover have "ring_on (\<lambda>i. sl_next (pool' ! i)) (\<lambda>i. sl_prev (pool' ! i)) l"
    if "ring_on (\<lambda>i. sl_next (pool ! i)) (\<lambda>i. sl_prev (pool ! i)) l"
    using that assms(2,3) by (intro ring_on_cong [OF that]) (auto simp: relinked_def disjoint_iff)
  ultimately show ?thesis using assms(1) by (simp add: pool_ring_def)
qed

lemma pool_ring_Nil: "pool_ring head pool [] \<longleftrightarrow> head = None"
  by (cases head) (simp_all add: pool_ring_def)

lemma pool_ring_ne:
  assumes "pool_ring head pool l" "l \<noteq> []"
  shows "head = Some (hd l)" "ring_on (\<lambda>i. sl_next (pool ! i)) (\<lambda>i. sl_prev (pool ! i)) l"
  using assms by (cases head; simp add: pool_ring_def)+

text \<open>Appending to \<open>Msg_rec\<close>.\<close>

lemma link_received_ring:
  assumes r: "pool_ring (Msg_rec p) (Msg_rec_Pool p) l" and n: "n \<notin> set l" "n < length (Msg_rec_Pool p)"
    and size: "\<And>i. i \<in> set l \<Longrightarrow> i < length (Msg_rec_Pool p)"
  obtains pool where "link_received n p = Inr (p\<lparr>Msg_rec_Pool := pool, Msg_rec := Some (hd (l @ [n]))\<rparr>)"
    "pool_ring (Some (hd (l @ [n]))) pool (l @ [n])" "relinked (set (l @ [n])) (Msg_rec_Pool p) pool"
proof (cases "l = []")
  case True
  let ?pool = "set_sl_next n (Some n) (set_sl_prev n (Some n) (Msg_rec_Pool p))"
  have "Msg_rec p = None" using r True by (simp add: pool_ring_Nil)
  then have "link_received n p = Inr (p\<lparr>Msg_rec_Pool := ?pool, Msg_rec := Some n\<rparr>)"
    by (simp add: link_received_def)
  moreover have "pool_ring (Some n) ?pool [n]"
    using slot_links.self_ring [OF n(2)] by (simp add: pool_ring_def)
  moreover have "relinked {n} (Msg_rec_Pool p) ?pool"
    using n(2) by (simp add: relinked_def set_sl_at)
  ultimately show thesis using that True by simp
next
  case False
  note h = pool_ring_ne [OF r False]
  let ?P = "Msg_rec_Pool p"
  have t: "sl_prev (?P ! hd l) = Some (last l)" using ring_on_head_prev [OF h(2) False] .
  have hn: "hd l \<noteq> n" using n False by auto
  let ?pool = "set_sl_prev (hd l) (Some n) (set_sl_next (last l) (Some n)
      (set_sl_next n (Some (hd l)) (set_sl_prev n (Some (last l)) ?P)))"
  have "p\<lparr>Msg_rec_Pool := ?pool, Msg_rec := Some (hd l)\<rparr> = p\<lparr>Msg_rec_Pool := ?pool\<rparr>"
    using h(1) by (cases p) simp
  then have "link_received n p = Inr (p\<lparr>Msg_rec_Pool := ?pool, Msg_rec := Some (hd (l @ [n]))\<rparr>)"
    using h(1) t hn n(2) False by (simp add: link_received_def Let_def set_sl_at)
  moreover have "pool_ring (Some (hd (l @ [n]))) ?pool (l @ [n])"
    using slot_links.insert_before_head_swapped [OF h(2) False n size t] False
    by (simp add: pool_ring_def)
  moreover have "hd l < length ?P" "last l < length ?P" using size False by simp_all
  then have "relinked (set (l @ [n])) ?P ?pool"
    using n(2) False by (auto simp: relinked_def set_sl_at)
  ultimately show thesis by (rule that)
qed

text \<open>Putting aside: appending to \<open>Msg_ign\<close>.\<close>

lemma link_ignored_ring:
  assumes r: "pool_ring (Msg_ign p) (Msg_rec_Pool p) l" and n: "n \<notin> set l" "n < length (Msg_rec_Pool p)"
    and size: "\<And>i. i \<in> set l \<Longrightarrow> i < length (Msg_rec_Pool p)"
  obtains pool where "link_ignored n p = Inr (p\<lparr>Msg_rec_Pool := pool, Msg_ign := Some (hd (l @ [n]))\<rparr>)"
    "pool_ring (Some (hd (l @ [n]))) pool (l @ [n])" "relinked (set (l @ [n])) (Msg_rec_Pool p) pool"
proof (cases "l = []")
  case True
  let ?pool = "set_sl_prev n (Some n) (set_sl_next n (Some n) (Msg_rec_Pool p))"
  have "Msg_ign p = None" using r True by (simp add: pool_ring_Nil)
  then have "link_ignored n p = Inr (p\<lparr>Msg_rec_Pool := ?pool, Msg_ign := Some n\<rparr>)"
    by (simp add: link_ignored_def)
  moreover have "pool_ring (Some n) ?pool [n]"
    using n(2) by (simp add: pool_ring_def set_sl_at)
  moreover have "relinked {n} (Msg_rec_Pool p) ?pool"
    using n(2) by (simp add: relinked_def set_sl_at)
  ultimately show thesis using that True by simp
next
  case False
  note h = pool_ring_ne [OF r False]
  let ?P = "Msg_rec_Pool p"
  have t: "sl_prev (?P ! hd l) = Some (last l)" using ring_on_head_prev [OF h(2) False] .
  have hn: "hd l \<noteq> n" using n False by auto
  let ?pool = "set_sl_prev (hd l) (Some n) (set_sl_next (last l) (Some n)
      (set_sl_prev n (Some (last l)) (set_sl_next n (Some (hd l)) ?P)))"
  have "p\<lparr>Msg_rec_Pool := ?pool, Msg_ign := Some (hd l)\<rparr> = p\<lparr>Msg_rec_Pool := ?pool\<rparr>"
    using h(1) by (cases p) simp
  then have "link_ignored n p = Inr (p\<lparr>Msg_rec_Pool := ?pool, Msg_ign := Some (hd (l @ [n]))\<rparr>)"
    using h(1) t hn n(2) False by (simp add: link_ignored_def Let_def set_sl_at)
  moreover have "pool_ring (Some (hd (l @ [n]))) ?pool (l @ [n])"
    using slot_links.insert_before_head [OF h(2) False n(1) n(2) size t] False
    by (simp add: pool_ring_def)
  moreover have "hd l < length ?P" "last l < length ?P" using size False by simp_all
  then have "relinked (set (l @ [n])) ?P ?pool"
    using n(2) False by (auto simp: relinked_def set_sl_at)
  ultimately show thesis by (rule that)
qed

text \<open>Taking the head of \<open>Msg_rec\<close>.\<close>

definition head_of :: "nat list \<Rightarrow> nat option" where
  "head_of l = (if l = [] then None else Some (hd l))"

lemma head_of_simps [simp]: "head_of [] = None" "head_of (x # l) = Some x"
  by (simp_all add: head_of_def)

lemma pool_ring_head_of: "pool_ring head pool l \<Longrightarrow> head = head_of l"
  by (cases head) (auto simp: pool_ring_def head_of_def)

lemma take_received_ring:
  assumes r: "pool_ring (Msg_rec p) (Msg_rec_Pool p) (h # ys)"
    and size: "\<And>i. i \<in> set (h # ys) \<Longrightarrow> i < length (Msg_rec_Pool p)"
  obtains pool where "take_received p = Inr (h, p\<lparr>Msg_rec_Pool := pool, Msg_rec := head_of ys\<rparr>)"
    "pool_ring (head_of ys) pool ys" "relinked (set ys) (Msg_rec_Pool p) pool"
proof (cases "ys = []")
  case True
  note h = pool_ring_ne [OF r, simplified]
  have "take_received p = Inr (h, p\<lparr>Msg_rec := None\<rparr>)"
    using h True by (simp add: take_received_def)
  moreover have "p\<lparr>Msg_rec_Pool := Msg_rec_Pool p, Msg_rec := None\<rparr> = p\<lparr>Msg_rec := None\<rparr>" by simp
  ultimately show thesis using that [of "Msg_rec_Pool p"] True
    by (simp add: pool_ring_Nil relinked_def)
next
  case False
  let ?P = "Msg_rec_Pool p" and ?b = "hd ys" and ?a = "last ys"
  note h = pool_ring_ne [OF r, simplified]
  have nb: "sl_next (?P ! h) = Some ?b" "sl_prev (?P ! h) = Some ?a" "?b \<noteq> h" "?a \<noteq> h"
    using ring_on_neighbours [of _ _ "[]" h ys] h(2) False by simp_all
  have lt: "?a < length ?P" "?b < length ?P" using size False by simp_all
  let ?pool = "set_sl_next ?a (Some ?b) (set_sl_prev ?b (Some ?a) ?P)"
  have "take_received p = Inr (h, p\<lparr>Msg_rec_Pool := ?pool, Msg_rec := head_of ys\<rparr>)"
    using h(1) nb lt False by (simp add: take_received_def Let_def set_sl_at head_of_def)
  moreover have "pool_ring (head_of ys) ?pool ys"
    using slot_links.unlink_node_swapped [of ?P "[]" h ys ?b ?a] h(2) size False nb(1,2)
    by (simp only: pool_ring_def head_of_def append_Nil if_False option.case) simp
  moreover have "relinked (set ys) ?P ?pool"
    using lt False by (auto simp: relinked_def set_sl_at)
  ultimately show thesis by (rule that)
qed

text \<open>Taking any slot out of \<open>Msg_ign\<close>.\<close>

lemma take_ignored_ring:
  assumes r: "pool_ring (Msg_ign p) (Msg_rec_Pool p) (xs @ n # ys)"
    and size: "\<And>i. i \<in> set (xs @ n # ys) \<Longrightarrow> i < length (Msg_rec_Pool p)"
  obtains pool where "take_ignored n p = Inr (p\<lparr>Msg_rec_Pool := pool, Msg_ign := head_of (xs @ ys)\<rparr>)"
    "pool_ring (head_of (xs @ ys)) pool (xs @ ys)" "relinked (set (xs @ ys)) (Msg_rec_Pool p) pool"
proof (cases "ys @ xs = []")
  case True
  note h = pool_ring_ne [OF r, simplified]
  have e: "xs = []" "ys = []" using True by simp_all
  have "take_ignored n p = Inr (p\<lparr>Msg_ign := None\<rparr>)"
    using h e by (simp add: take_ignored_def)
  then show thesis
    by (intro that [of "Msg_rec_Pool p"]) (simp_all add: e pool_ring_Nil relinked_def)
next
  case False
  let ?P = "Msg_rec_Pool p" and ?b = "hd (ys @ xs)" and ?a = "last (ys @ xs)"
  note h = pool_ring_ne [OF r, simplified]
  note nb = ring_on_neighbours [OF h(2) False]
  have ab: "?a \<in> set (xs @ ys)" "?b \<in> set (xs @ ys)"
    using last_in_set [OF False] hd_in_set [OF False] by auto
  then have lt: "?a < length ?P" "?b < length ?P" using size by auto
  have dist: "n \<notin> set xs" using ring_on_distinct [OF h(2)] by simp
  have rel: "relinked X ?P (set_sl_next a v (set_sl_prev b w ?P))"
      "relinked X ?P (set_sl_prev b w (set_sl_next a v ?P))"
    if "a \<in> X" "b \<in> X" "a < length ?P" "b < length ?P" for a b v w X
    using that by (auto simp: relinked_def set_sl_at)
  have ne: "xs @ ys \<noteq> []" using False by auto
  show thesis
  proof (cases "xs = []")
    case True
    have "take_ignored n p = Inr (p\<lparr>Msg_rec_Pool := set_sl_next ?a (Some ?b) (set_sl_prev ?b (Some ?a) ?P),
        Msg_ign := head_of (xs @ ys)\<rparr>)"
      using h(1) nb lt False True by (simp add: take_ignored_def Let_def set_sl_at head_of_def)
    moreover have "pool_ring (head_of (xs @ ys)) (set_sl_next ?a (Some ?b) (set_sl_prev ?b (Some ?a) ?P)) (xs @ ys)"
      using slot_links.unlink_node_swapped [OF h(2) ne size nb(1,2)] ab ne
      by (auto simp: pool_ring_def head_of_def)
    ultimately show thesis using rel(1) [OF ab lt] that by blast
  next
    case xs: False
    have idp: "p\<lparr>Msg_rec_Pool := X, Msg_ign := head_of (xs @ ys)\<rparr> = p\<lparr>Msg_rec_Pool := X\<rparr>" for X
      using h(1) xs by (cases p) (simp add: head_of_def)
    have "Msg_ign p \<noteq> Some n" using h(1) xs dist by (cases xs) auto
    then have "take_ignored n p = Inr (p\<lparr>Msg_rec_Pool := set_sl_prev ?b (Some ?a) (set_sl_next ?a (Some ?b) ?P)\<rparr>)"
      using nb lt by (simp add: take_ignored_def Let_def set_sl_at)
    then have "take_ignored n p = Inr (p\<lparr>Msg_rec_Pool := set_sl_prev ?b (Some ?a) (set_sl_next ?a (Some ?b) ?P),
        Msg_ign := head_of (xs @ ys)\<rparr>)"
      unfolding idp .
    moreover have "pool_ring (head_of (xs @ ys)) (set_sl_prev ?b (Some ?a) (set_sl_next ?a (Some ?b) ?P)) (xs @ ys)"
      using slot_links.unlink_node [OF h(2) ne size nb(1,2)] ab ne
      by (auto simp: pool_ring_def head_of_def)
    ultimately show thesis using rel(2) [OF ab lt] that by blast
  qed
qed

section \<open>The mailbox invariant\<close>

text \<open>\<open>R\<close> are the slots in \<open>Msg_rec\<close>, \<open>I\<close> those in \<open>Msg_ign\<close>, \<open>T\<close> those taken out of both and not
  yet freed; the flag marks exactly the others as free.\<close>

definition mbox :: "pcb \<Rightarrow> nat list \<Rightarrow> nat list \<Rightarrow> nat list \<Rightarrow> bool" where
  "mbox p R I T \<longleftrightarrow> length (Msg_rec_Pool p) = Max_Message_Pool
     \<and> pool_ring (Msg_rec p) (Msg_rec_Pool p) R \<and> pool_ring (Msg_ign p) (Msg_rec_Pool p) I
     \<and> distinct (R @ I @ T) \<and> set (R @ I @ T) \<subseteq> {..<Max_Message_Pool}
     \<and> (\<forall>i < Max_Message_Pool. sl_flag (Msg_rec_Pool p ! i) \<longleftrightarrow> i \<notin> set (R @ I @ T))"

definition slot_msgs :: "pcb \<Rightarrow> nat list \<Rightarrow> message list" where
  "slot_msgs p l = map (\<lambda>i. sl_msg (Msg_rec_Pool p ! i)) l"

lemma mboxD:
  assumes "mbox p R I T"
  shows "length (Msg_rec_Pool p) = Max_Message_Pool"
    "pool_ring (Msg_rec p) (Msg_rec_Pool p) R" "pool_ring (Msg_ign p) (Msg_rec_Pool p) I"
    "distinct (R @ I @ T)" "\<And>i. i \<in> set (R @ I @ T) \<Longrightarrow> i < Max_Message_Pool"
    "\<And>i. i < Max_Message_Pool \<Longrightarrow> sl_flag (Msg_rec_Pool p ! i) \<longleftrightarrow> i \<notin> set (R @ I @ T)"
  using assms unfolding mbox_def by blast+

lemma mboxI:
  assumes "length (Msg_rec_Pool p) = Max_Message_Pool"
    "pool_ring (Msg_rec p) (Msg_rec_Pool p) R" "pool_ring (Msg_ign p) (Msg_rec_Pool p) I"
    "distinct (R @ I @ T)" "\<And>i. i \<in> set (R @ I @ T) \<Longrightarrow> i < Max_Message_Pool"
    "\<And>i. i < Max_Message_Pool \<Longrightarrow> sl_flag (Msg_rec_Pool p ! i) \<longleftrightarrow> i \<notin> set (R @ I @ T)"
  shows "mbox p R I T"
  using assms unfolding mbox_def by auto

text \<open>A free slot exists unless all 128 are in use.\<close>

lemma Find_Empty_Message_mbox:
  assumes "mbox p R I T"
  shows "Find_Empty_Message (Msg_rec_Pool p) = None \<longleftrightarrow> length (R @ I @ T) = Max_Message_Pool"
    and "Find_Empty_Message (Msg_rec_Pool p) = Some n \<Longrightarrow> n < Max_Message_Pool \<and> n \<notin> set (R @ I @ T)"
proof -
  note m = mboxD [OF assms]
  have "Find_Empty_Message (Msg_rec_Pool p) = None \<longleftrightarrow> (\<forall>i < Max_Message_Pool. i \<in> set (R @ I @ T))"
    using m(6) by (auto simp: Find_Empty_Message_def first_index_None)
  also have "\<dots> \<longleftrightarrow> set (R @ I @ T) = {..<Max_Message_Pool}" using m(5) by blast
  also have "\<dots> \<longleftrightarrow> card (set (R @ I @ T)) = Max_Message_Pool"
  proof
    assume "card (set (R @ I @ T)) = Max_Message_Pool"
    moreover have "set (R @ I @ T) \<subseteq> {..<Max_Message_Pool}" using m(5) by blast
    ultimately show "set (R @ I @ T) = {..<Max_Message_Pool}" by (intro card_subset_eq) simp_all
  qed simp
  also have "card (set (R @ I @ T)) = length (R @ I @ T)" using m(4) by (rule distinct_card)
  finally show "Find_Empty_Message (Msg_rec_Pool p) = None \<longleftrightarrow> length (R @ I @ T) = Max_Message_Pool" .
  show "Find_Empty_Message (Msg_rec_Pool p) = Some n \<Longrightarrow> n < Max_Message_Pool \<and> n \<notin> set (R @ I @ T)"
    using m(6) by (auto simp: Find_Empty_Message_def dest: first_index_Some)
qed

lemma pool_ring_upd_at:
  assumes "pool_ring head pool l" "\<And>sl. sl_next (f sl) = sl_next sl" "\<And>sl. sl_prev (f sl) = sl_prev sl"
  shows "pool_ring head (upd_at n f pool) l"
proof -
  have "sl_next (upd_at n f pool ! j) = sl_next (pool ! j)" "sl_prev (upd_at n f pool ! j) = sl_prev (pool ! j)" for j
    using assms(2,3) by (cases "n < length pool"; cases "j = n"; simp add: upd_at_def list_update_beyond)+
  then show ?thesis using assms(1) by (cases head) (simp_all add: pool_ring_def)
qed

lemma mbox_send:
  fixes msg :: message
  assumes m: "mbox p R I T" and n: "n < Max_Message_Pool" "n \<notin> set (R @ I @ T)"
  defines "pool1 \<equiv> upd_at n (\<lambda>sl. sl\<lparr>sl_flag := False, sl_msg := msg\<rparr>) (Msg_rec_Pool p)"
  obtains pool where
    "link_received n (p\<lparr>Msg_rec_Pool := pool1\<rparr>) = Inr (p\<lparr>Msg_rec_Pool := pool, Msg_rec := head_of (R @ [n])\<rparr>)"
    "mbox (p\<lparr>Msg_rec_Pool := pool, Msg_rec := head_of (R @ [n])\<rparr>) (R @ [n]) I T"
    "sl_msg (pool ! n) = msg" "\<And>j. j \<noteq> n \<Longrightarrow> sl_msg (pool ! j) = sl_msg (Msg_rec_Pool p ! j)"
proof -
  note d = mboxD [OF m]
  let ?p = "p\<lparr>Msg_rec_Pool := pool1\<rparr>"
  have rings: "pool_ring (Msg_rec p) pool1 R" "pool_ring (Msg_ign p) pool1 I"
    using d(2,3) by (simp_all add: pool1_def pool_ring_upd_at)
  have len: "length pool1 = Max_Message_Pool" using d(1) by (simp add: pool1_def)
  obtain pool where pool: "link_received n ?p = Inr (?p\<lparr>Msg_rec_Pool := pool, Msg_rec := Some (hd (R @ [n]))\<rparr>)"
      "pool_ring (Some (hd (R @ [n]))) pool (R @ [n])" "relinked (set (R @ [n])) (Msg_rec_Pool ?p) pool"
    using link_received_ring [of ?p R n] rings(1) n len d(5) by auto
  note rel = relinkedD [OF pool(3)]
  have h: "Some (hd (R @ [n])) = head_of (R @ [n])" by (simp add: head_of_def)
  show thesis
  proof (rule that)
    show "link_received n ?p = Inr (p\<lparr>Msg_rec_Pool := pool, Msg_rec := head_of (R @ [n])\<rparr>)"
      using pool(1) by (simp add: h)
    show "sl_msg (pool ! n) = msg" using rel(2) n(1) d(1) by (simp add: pool1_def)
    show "sl_msg (pool ! j) = sl_msg (Msg_rec_Pool p ! j)" if "j \<noteq> n" for j
      using rel(2) that by (simp add: pool1_def)
    show "mbox (p\<lparr>Msg_rec_Pool := pool, Msg_rec := head_of (R @ [n])\<rparr>) (R @ [n]) I T"
    proof (rule mboxI)
      fix i assume i: "i < Max_Message_Pool"
      show "sl_flag (Msg_rec_Pool (p\<lparr>Msg_rec_Pool := pool, Msg_rec := head_of (R @ [n])\<rparr>) ! i)
          \<longleftrightarrow> i \<notin> set ((R @ [n]) @ I @ T)"
        using rel(3) d(6) [OF i] i d(1) by (simp add: pool1_def nth_upd_at)
    next
      have "pool_ring (Msg_ign p) pool I"
        by (rule pool_ring_relinked [OF _ pool(3)]) (use rings(2) n(2) d(4) in auto)
      then show "pool_ring (Msg_ign (p\<lparr>Msg_rec_Pool := pool, Msg_rec := head_of (R @ [n])\<rparr>))
          (Msg_rec_Pool (p\<lparr>Msg_rec_Pool := pool, Msg_rec := head_of (R @ [n])\<rparr>)) I" by simp
    qed (use pool(2) rel(1) len d(4,5) n in \<open>auto simp: h\<close>)
  qed
qed

lemma mbox_take_received:
  assumes m: "mbox p (h # R) I []"
  obtains pool where "take_received p = Inr (h, p\<lparr>Msg_rec_Pool := pool, Msg_rec := head_of R\<rparr>)"
    "mbox (p\<lparr>Msg_rec_Pool := pool, Msg_rec := head_of R\<rparr>) R I [h]"
    "\<And>j. sl_msg (pool ! j) = sl_msg (Msg_rec_Pool p ! j)"
proof -
  note d = mboxD [OF m]
  obtain pool where pool: "take_received p = Inr (h, p\<lparr>Msg_rec_Pool := pool, Msg_rec := head_of R\<rparr>)"
    "pool_ring (head_of R) pool R" "relinked (set R) (Msg_rec_Pool p) pool"
    using take_received_ring [OF d(2)] d(1,5) by auto
  note rel = relinkedD [OF pool(3)]
  have "pool_ring (Msg_ign p) pool I" by (rule pool_ring_relinked [OF d(3) pool(3)]) (use d(4) in auto)
  then have "mbox (p\<lparr>Msg_rec_Pool := pool, Msg_rec := head_of R\<rparr>) R I [h]"
    using pool(2) rel d by (intro mboxI) auto
  then show thesis using that pool(1) rel(2) by blast
qed

lemma mbox_link_ignored:
  assumes m: "mbox p R I [h]"
  obtains pool where "link_ignored h p = Inr (p\<lparr>Msg_rec_Pool := pool, Msg_ign := head_of (I @ [h])\<rparr>)"
    "mbox (p\<lparr>Msg_rec_Pool := pool, Msg_ign := head_of (I @ [h])\<rparr>) R (I @ [h]) []"
    "\<And>j. sl_msg (pool ! j) = sl_msg (Msg_rec_Pool p ! j)"
proof -
  note d = mboxD [OF m]
  have h: "Some (hd (I @ [h])) = head_of (I @ [h])" by (simp add: head_of_def)
  obtain pool where pool: "link_ignored h p = Inr (p\<lparr>Msg_rec_Pool := pool, Msg_ign := head_of (I @ [h])\<rparr>)"
    "pool_ring (head_of (I @ [h])) pool (I @ [h])" "relinked (set (I @ [h])) (Msg_rec_Pool p) pool"
    using link_ignored_ring [OF d(3), of h] d(1,4,5) unfolding h by auto
  note rel = relinkedD [OF pool(3)]
  have "pool_ring (Msg_rec p) pool R" by (rule pool_ring_relinked [OF d(2) pool(3)]) (use d(4) in auto)
  then have "mbox (p\<lparr>Msg_rec_Pool := pool, Msg_ign := head_of (I @ [h])\<rparr>) R (I @ [h]) []"
    using pool(2) rel d by (intro mboxI) auto
  then show thesis using that pool(1) rel(2) by blast
qed

lemma mbox_take_ignored:
  assumes m: "mbox p R (xs @ n # ys) []"
  obtains pool where "take_ignored n p = Inr (p\<lparr>Msg_rec_Pool := pool, Msg_ign := head_of (xs @ ys)\<rparr>)"
    "mbox (p\<lparr>Msg_rec_Pool := pool, Msg_ign := head_of (xs @ ys)\<rparr>) R (xs @ ys) [n]"
    "\<And>j. sl_msg (pool ! j) = sl_msg (Msg_rec_Pool p ! j)"
proof -
  note d = mboxD [OF m]
  obtain pool where pool: "take_ignored n p = Inr (p\<lparr>Msg_rec_Pool := pool, Msg_ign := head_of (xs @ ys)\<rparr>)"
    "pool_ring (head_of (xs @ ys)) pool (xs @ ys)" "relinked (set (xs @ ys)) (Msg_rec_Pool p) pool"
    using take_ignored_ring [OF d(3)] d(1,5) by auto
  note rel = relinkedD [OF pool(3)]
  have "pool_ring (Msg_rec p) pool R" by (rule pool_ring_relinked [OF d(2) pool(3)]) (use d(4) in auto)
  then have "mbox (p\<lparr>Msg_rec_Pool := pool, Msg_ign := head_of (xs @ ys)\<rparr>) R (xs @ ys) [n]"
    using pool(2) rel d by (intro mboxI) auto
  then show thesis using that pool(1) rel(2) by blast
qed

lemma mbox_free:
  assumes "mbox p R I [n]"
  shows "mbox (Msg_rec_Pool_update (upd_at n (sl_flag_update (\<lambda>_. True))) p) R I []"
  using mboxD [OF assms] by (intro mboxI) (auto simp: pool_ring_upd_at nth_upd_at)

section \<open>The steps on the system state\<close>

text \<open>What a mailbox operation of process \<open>c\<close> leaves alone.\<close>

definition mail_eq :: "pcb \<Rightarrow> pcb \<Rightarrow> bool" where
  "mail_eq p p' \<longleftrightarrow> p' = p\<lparr>Msg_lock := Msg_lock p', Msg_rec_Pool := Msg_rec_Pool p',
     Msg_rec := Msg_rec p', Msg_ign := Msg_ign p'\<rparr>"

lemma mail_eq_simps [simp]:
  "mail_eq p p"
  "mail_eq p (p\<lparr>Msg_rec_Pool := a, Msg_rec := b\<rparr>)"
  "mail_eq p (p\<lparr>Msg_rec_Pool := a, Msg_ign := b\<rparr>)"
  "mail_eq p (Msg_rec_Pool_update f p)"
  "mail_eq p (Msg_lock_update g p)"
  by (cases p, simp add: mail_eq_def)+

lemma mail_eq_trans: "mail_eq p q \<Longrightarrow> mail_eq q r \<Longrightarrow> mail_eq p r"
  unfolding mail_eq_def by (cases p; cases q; cases r) simp

lemma mail_eqD:
  assumes "mail_eq p p'"
  shows "p_status p' = p_status p" "p_pid p' = p_pid p" "p_next p' = p_next p" "p_prev p' = p_prev p"
    "p_flag p' = p_flag p" "p_esp p' = p_esp p" "p_cr3 p' = p_cr3 p"
  using assms unfolding mail_eq_def by (cases p; cases p'; simp)+

definition mail_frame :: "nat \<Rightarrow> sys \<Rightarrow> sys \<Rightarrow> bool" where
  "mail_frame c s s' \<longleftrightarrow> length (Proc s') = length (Proc s) \<and> current_pcb s' = current_pcb s
     \<and> need_sched s' = need_sched s \<and> mem s' = mem s \<and> con s' = con s
     \<and> global_lock_counter (cpu s') = global_lock_counter (cpu s)
     \<and> enter_interrupt (cpu s') = enter_interrupt (cpu s) \<and> cr3_reg (cpu s') = cr3_reg (cpu s)
     \<and> Proc_addr s' = Proc_addr s \<and> kpagedir_addr s' = kpagedir_addr s
     \<and> (\<forall>j. j \<noteq> c \<longrightarrow> proc s' j = proc s j) \<and> mail_eq (proc s c) (proc s' c)"

lemma mail_frame_trans: "mail_frame c s t \<Longrightarrow> mail_frame c t u \<Longrightarrow> mail_frame c s u"
  unfolding mail_frame_def by (metis mail_eq_trans)

lemma mail_frame_pid: "mail_frame c s s' \<Longrightarrow> p_pid (proc s' c) = p_pid (proc s c)"
  by (simp add: mail_frame_def mail_eqD(2))

lemma mail_frame_locked:
  assumes "c < length (Proc s)" "mail_eq (proc s c) p"
  shows "mail_frame c s (unlock (upd_proc c (\<lambda>_. p) (lock s)))"
  using assms by (simp add: mail_frame_def)

text \<open>A mailbox with its semaphore: \<open>k\<close> tokens, nobody queued.\<close>

definition box :: "sys \<Rightarrow> nat \<Rightarrow> nat list \<Rightarrow> nat list \<Rightarrow> nat list \<Rightarrow> nat \<Rightarrow> bool" where
  "box s c R I T k \<longleftrightarrow> c < length (Proc s) \<and> p_pid (proc s c) = int c \<and> mbox (proc s c) R I T
     \<and> token (Msg_lock (proc s c)) = int k \<and> queue_tail (Msg_lock (proc s c)) = 0
     \<and> length (queue (Msg_lock (proc s c))) = Max_Sem_Queue"

text \<open>Mailbox steps keep the contents of all slots.\<close>

definition same_msgs :: "pcb \<Rightarrow> pcb \<Rightarrow> bool" where
  "same_msgs p p' \<longleftrightarrow> (\<forall>j. sl_msg (Msg_rec_Pool p' ! j) = sl_msg (Msg_rec_Pool p ! j))"

lemma same_msgs_trans: "same_msgs p q \<Longrightarrow> same_msgs q r \<Longrightarrow> same_msgs p r"
  by (simp add: same_msgs_def)

lemma same_msgs_slot_msgs: "same_msgs p p' \<Longrightarrow> slot_msgs p' l = slot_msgs p l"
  by (simp add: same_msgs_def slot_msgs_def)

lemma receive_take_step:
  assumes b: "box s c (h # R) I [] k" and c: "c = current_pcb s"
  obtains s' where
    "receive_take pid s = Inr (if wanted pid (Msg_rec_Pool (proc s c) ! h) then Some h else None, s')"
    "box s' c R (if wanted pid (Msg_rec_Pool (proc s c) ! h) then I else I @ [h])
       (if wanted pid (Msg_rec_Pool (proc s c) ! h) then [h] else []) k"
    "mail_frame c s s'" "same_msgs (proc s c) (proc s' c)"
proof -
  have lt: "c < length (Proc s)" and m: "mbox (proc s c) (h # R) I []"
    using b by (simp_all add: box_def)
  obtain P1 where P1: "take_received (proc s c) = Inr (h, (proc s c)\<lparr>Msg_rec_Pool := P1, Msg_rec := head_of R\<rparr>)"
      "mbox ((proc s c)\<lparr>Msg_rec_Pool := P1, Msg_rec := head_of R\<rparr>) R I [h]"
      "\<And>j. sl_msg (P1 ! j) = sl_msg (Msg_rec_Pool (proc s c) ! j)"
    using mbox_take_received [OF m] by blast
  have w: "wanted pid (P1 ! h) = wanted pid (Msg_rec_Pool (proc s c) ! h)"
    using P1(3) by (simp add: wanted_def)
  let ?p1 = "(proc s c)\<lparr>Msg_rec_Pool := P1, Msg_rec := head_of R\<rparr>"
  obtain P2 where P2: "link_ignored h ?p1 = Inr (?p1\<lparr>Msg_rec_Pool := P2, Msg_ign := head_of (I @ [h])\<rparr>)"
      "mbox (?p1\<lparr>Msg_rec_Pool := P2, Msg_ign := head_of (I @ [h])\<rparr>) R (I @ [h]) []"
      "\<And>j. sl_msg (P2 ! j) = sl_msg (Msg_rec_Pool ?p1 ! j)"
    using mbox_link_ignored [OF P1(2)] by blast
  let ?p2 = "?p1\<lparr>Msg_rec_Pool := P2, Msg_ign := head_of (I @ [h])\<rparr>"
  have eq2: "mail_eq (proc s c) ?p2" by (rule mail_eq_trans [OF mail_eq_simps(2) mail_eq_simps(3)])
  show thesis
  proof (cases "wanted pid (Msg_rec_Pool (proc s c) ! h)")
    case True
    then have "receive_take pid s = Inr (Some h, unlock (upd_proc c (\<lambda>_. ?p1) (lock s)))"
      using P1(1) w c by (simp add: receive_take_def Let_def)
    then show thesis
      by (rule that [simplified True if_True]) (use lt b P1(2,3) in \<open>simp_all add: box_def mail_frame_locked same_msgs_def\<close>)
  next
    case False
    then have "receive_take pid s = Inr (None, unlock (upd_proc c (\<lambda>_. ?p2) (lock s)))"
      using P1(1) P2(1) w c by (simp add: receive_take_def Let_def)
    then show thesis
      by (rule that [simplified False if_False])
        (use lt b P2(2,3) P1(3) eq2 in \<open>simp_all add: box_def mail_frame_locked same_msgs_def\<close>)
  qed
qed

lemma Sem_P_message_step:
  assumes b: "box s c R I [] (Suc k)" and c: "c = current_pcb s"
  obtains s' where "Sem_P_message s = Inr (False, s')" "box s' c R I [] k" "mail_frame c s s'"
    "same_msgs (proc s c) (proc s' c)"
proof -
  let ?sem = "(Msg_lock (proc s c))\<lparr>token := int k\<rparr>"
  let ?s' = "upd_proc c (Msg_lock_update (\<lambda>_. ?sem)) (unlock (lock s))"
  have lt: "c < length (Proc s)" using b by (simp add: box_def)
  have "Sem_P_message s = Inr (False, ?s')"
    using b c by (simp add: Sem_P_message_def Sem_P_def Let_def box_def)
  moreover have "mbox (p\<lparr>Msg_lock := x\<rparr>) R I []" if "mbox p R I []" for p x
    using that by (simp add: mbox_def)
  then have "box ?s' c R I [] k" using b lt by (simp add: box_def)
  ultimately show thesis
    by (rule that) (use lt in \<open>simp_all add: mail_frame_def same_msgs_def\<close>)
qed

text \<open>With no token the receiver queues itself and sleeps.\<close>

definition asleep_box :: "sys \<Rightarrow> nat \<Rightarrow> nat list \<Rightarrow> bool" where
  "asleep_box s c I \<longleftrightarrow> c < length (Proc s) \<and> p_pid (proc s c) = int c \<and> mbox (proc s c) [] I []
     \<and> token (Msg_lock (proc s c)) = 0 \<and> queue_tail (Msg_lock (proc s c)) = 1
     \<and> length (queue (Msg_lock (proc s c))) = Max_Sem_Queue
     \<and> queue (Msg_lock (proc s c)) ! 0 = int c
     \<and> p_status (proc s c) = STATUS_SLEEPING"

lemma mbox_other_fields [simp]:
  "mbox (Msg_lock_update f p) R I T = mbox p R I T"
  "mbox (p_status_update g p) R I T = mbox p R I T"
  by (simp_all add: mbox_def)

lemma Sem_P_message_sleep:
  assumes b: "box s c [] I [] 0" and c: "c = current_pcb s"
  obtains s' where "Sem_P_message s = Inr (True, s')" "asleep_box s' c I"
    "same_msgs (proc s c) (proc s' c)" "current_pcb s' = c" "length (Proc s') = length (Proc s)"
    "\<And>j. j \<noteq> c \<Longrightarrow> proc s' j = proc s j"
proof -
  let ?q = "(queue (Msg_lock (proc s c)))[0 := p_pid (proc s c)]"
  let ?sem = "(Msg_lock (proc s c))\<lparr>queue := ?q, queue_tail := 1\<rparr>"
  let ?s' = "upd_proc c (Msg_lock_update (\<lambda>_. ?sem))
      (unlock (upd_proc c (p_status_update (\<lambda>_. STATUS_SLEEPING)) (lock s)))"
  have lt: "c < length (Proc s)" and q: "0 < length (queue (Msg_lock (proc s c)))"
    using b by (simp_all add: box_def Max_Sem_Queue_def)
  have "Sem_P_message s = Inr (True, ?s')"
    using b c q by (simp add: Sem_P_message_def Sem_P_def Let_def box_def)
  moreover have "asleep_box ?s' c I"
    using b lt q by (simp add: box_def asleep_box_def Max_Sem_Queue_def)
  ultimately show thesis
    by (rule that) (use lt c in \<open>simp_all add: same_msgs_def\<close>)
qed

lemma receive_end_step:
  assumes b: "box s c R I [n] k" and c: "c = current_pcb s"
  obtains s' where "finish n s = Received (sl_msg (Msg_rec_Pool (proc s c) ! n)) s'"
    "box s' c R I [] k" "mail_frame c s s'" "same_msgs (proc s c) (proc s' c)"
proof -
  let ?f = "Msg_rec_Pool_update (upd_at n (sl_flag_update (\<lambda>_. True)))"
  have lt: "c < length (Proc s)" and m: "mbox (proc s c) R I [n]" using b by (simp_all add: box_def)
  have "finish n s = Received (sl_msg (Msg_rec_Pool (proc s c) ! n)) (unlock (upd_proc c ?f (lock s)))"
    using c by (simp add: finish_def receive_end_def Let_def)
  moreover have "box (unlock (upd_proc c ?f (lock s))) c R I [] k"
    using b lt mbox_free [OF m] by (simp add: box_def)
  moreover have fl: "sl_msg (upd_at n (sl_flag_update (\<lambda>_. True)) pool ! j) = sl_msg (pool ! j)" for pool :: "slot list" and j
    by (cases "n < length pool"; cases "j = n") (simp_all add: upd_at_def list_update_beyond)
  ultimately show thesis
    using that [of "unlock (upd_proc c ?f (lock s))"] lt fl by (simp add: mail_frame_def same_msgs_def)
qed

section \<open>The loop of receive\<close>

text \<open>What the loop leaves when \<open>R\<close> is in \<open>Msg_rec\<close>: the first wanted message is delivered and the
  ones before it are put aside; without one everything is put aside and the process sleeps.\<close>

definition delivered :: "sys \<Rightarrow> nat \<Rightarrow> nat list \<Rightarrow> nat list \<Rightarrow> (error + outcome) option \<Rightarrow> bool" where
  "delivered s n R I r \<longleftrightarrow>
     (let c = current_pcb s in
      \<exists>s'. r = Some (Inr (Received (sl_msg (Msg_rec_Pool (proc s c) ! n)) s'))
        \<and> box s' c R I [] (length R) \<and> same_msgs (proc s c) (proc s' c) \<and> mail_frame c s s')"

definition slept :: "sys \<Rightarrow> nat list \<Rightarrow> (error + outcome) option \<Rightarrow> bool" where
  "slept s I r \<longleftrightarrow>
     (let c = current_pcb s in
      \<exists>s'. r = Some (Inr (Asleep s')) \<and> asleep_box s' c I \<and> same_msgs (proc s c) (proc s' c)
        \<and> current_pcb s' = c \<and> length (Proc s') = length (Proc s) \<and> (\<forall>j. j \<noteq> c \<longrightarrow> proc s' j = proc s j))"

definition loop_result :: "int \<Rightarrow> sys \<Rightarrow> nat list \<Rightarrow> nat list \<Rightarrow> (error + outcome) option \<Rightarrow> bool" where
  "loop_result pid s R I r \<longleftrightarrow>
     (let W = (\<lambda>i. wanted pid (Msg_rec_Pool (proc s (current_pcb s)) ! i)) in
      case dropWhile (\<lambda>i. \<not> W i) R of
        n # R' \<Rightarrow> delivered s n R' (I @ takeWhile (\<lambda>i. \<not> W i) R) r
      | [] \<Rightarrow> slept s (I @ R) r)"

lemma wanted_same_msgs:
  "same_msgs p p' \<Longrightarrow> wanted pid (Msg_rec_Pool p' ! i) = wanted pid (Msg_rec_Pool p ! i)"
  by (simp add: wanted_def same_msgs_def)

lemma delivered_frame:
  assumes "delivered s1 n R I r" "mail_frame (current_pcb s) s s1"
    "same_msgs (proc s (current_pcb s)) (proc s1 (current_pcb s))"
  shows "delivered s n R I r"
proof -
  let ?c = "current_pcb s"
  have c: "current_pcb s1 = ?c" using assms(2) by (simp add: mail_frame_def)
  have m: "sl_msg (Msg_rec_Pool (proc s1 ?c) ! n) = sl_msg (Msg_rec_Pool (proc s ?c) ! n)"
    using assms(3) by (simp add: same_msgs_def)
  obtain s' where s': "r = Some (Inr (Received (sl_msg (Msg_rec_Pool (proc s ?c) ! n)) s'))"
      "box s' ?c R I [] (length R)" "same_msgs (proc s1 ?c) (proc s' ?c)" "mail_frame ?c s1 s'"
    using assms(1) unfolding delivered_def Let_def c m by blast
  then show ?thesis
    unfolding delivered_def Let_def
    using same_msgs_trans [OF assms(3)] mail_frame_trans [OF assms(2)] by blast
qed

lemma slept_frame:
  assumes "slept s1 I r" "mail_frame (current_pcb s) s s1"
    "same_msgs (proc s (current_pcb s)) (proc s1 (current_pcb s))"
  shows "slept s I r"
proof -
  let ?c = "current_pcb s"
  have c: "current_pcb s1 = ?c" "length (Proc s1) = length (Proc s)" "\<And>j. j \<noteq> ?c \<Longrightarrow> proc s1 j = proc s j"
    using assms(2) by (simp_all add: mail_frame_def)
  obtain s' where s': "r = Some (Inr (Asleep s'))" "asleep_box s' ?c I" "same_msgs (proc s1 ?c) (proc s' ?c)"
      "current_pcb s' = ?c" "length (Proc s') = length (Proc s)" "\<forall>j. j \<noteq> ?c \<longrightarrow> proc s' j = proc s1 j"
    using assms(1) unfolding slept_def Let_def c(1,2) by blast
  then show ?thesis
    unfolding slept_def Let_def
    using same_msgs_trans [OF assms(3)] c(3) by (intro exI [of _ s']) simp
qed

lemma loop_result_step:
  assumes r: "loop_result pid s1 R (I @ [h]) r" and nw: "\<not> wanted pid (Msg_rec_Pool (proc s (current_pcb s)) ! h)"
    and f: "mail_frame (current_pcb s) s s1" "same_msgs (proc s (current_pcb s)) (proc s1 (current_pcb s))"
  shows "loop_result pid s (h # R) I r"
proof -
  have c: "current_pcb s1 = current_pcb s" using f(1) by (simp add: mail_frame_def)
  note W = wanted_same_msgs [OF f(2), of pid]
  show ?thesis
  proof (cases "dropWhile (\<lambda>i. \<not> wanted pid (Msg_rec_Pool (proc s (current_pcb s)) ! i)) R")
    case Nil
    then have "slept s1 ((I @ [h]) @ R) r" using r by (simp only: loop_result_def c W Let_def list.case)
    then have "slept s ((I @ [h]) @ R) r" by (rule slept_frame [OF _ f])
    moreover have "loop_result pid s (h # R) I r = slept s (I @ h # R) r"
      using nw by (simp only: loop_result_def Let_def dropWhile.simps if_True not_False_eq_True Nil list.case)
    ultimately show ?thesis by simp
  next
    case (Cons n R')
    then have "delivered s1 n R' ((I @ [h]) @ takeWhile (\<lambda>i. \<not> wanted pid (Msg_rec_Pool (proc s (current_pcb s)) ! i)) R) r"
      using r by (simp only: loop_result_def c W Let_def list.case)
    then have "delivered s n R' ((I @ [h]) @ takeWhile (\<lambda>i. \<not> wanted pid (Msg_rec_Pool (proc s (current_pcb s)) ! i)) R) r"
      by (rule delivered_frame [OF _ f])
    then show ?thesis using Cons nw by (simp add: loop_result_def Let_def)
  qed
qed

text \<open>After \<open>Sem_P\<close>, with \<open>h\<close> the oldest message.\<close>

lemma receive_resume_step:
  assumes b: "box s (current_pcb s) (h # R) I [] (length R)"
    and loop: "\<And>s I. box s (current_pcb s) R I [] (length R) \<Longrightarrow> loop_result pid s R I (receive_loop pid s)"
  shows "loop_result pid s (h # R) I (receive_resume pid s)"
proof -
  let ?c = "current_pcb s"
  let ?w = "wanted pid (Msg_rec_Pool (proc s ?c) ! h)"
  obtain s2 where T: "receive_take pid s = Inr (if ?w then Some h else None, s2)"
      "box s2 ?c R (if ?w then I else I @ [h]) (if ?w then [h] else []) (length R)"
      "mail_frame ?c s s2" "same_msgs (proc s ?c) (proc s2 ?c)"
    using receive_take_step [OF b refl] by blast
  have c2: "current_pcb s2 = ?c" using T(3) by (simp add: mail_frame_def)
  show ?thesis
  proof (cases ?w)
    case True
    then have "box s2 ?c R I [h] (length R)" using T(2) by simp
    then obtain s3 where E: "finish h s2 = Received (sl_msg (Msg_rec_Pool (proc s2 ?c) ! h)) s3"
        "box s3 ?c R I [] (length R)" "mail_frame ?c s2 s3" "same_msgs (proc s2 ?c) (proc s3 ?c)"
      using receive_end_step c2 by metis
    have "sl_msg (Msg_rec_Pool (proc s2 ?c) ! h) = sl_msg (Msg_rec_Pool (proc s ?c) ! h)"
      using T(4) by (simp add: same_msgs_def)
    then have "receive_resume pid s = Some (Inr (Received (sl_msg (Msg_rec_Pool (proc s ?c) ! h)) s3))"
      using T(1) E(1) True by (simp add: receive_resume_def)
    then show ?thesis
      using True E(2) mail_frame_trans [OF T(3) E(3)] same_msgs_trans [OF T(4) E(4)]
      by (simp add: loop_result_def delivered_def Let_def)
  next
    case False
    then have "receive_resume pid s = receive_loop pid s2"
      using T(1) by (simp add: receive_resume_def)
    moreover have "loop_result pid s2 R (I @ [h]) (receive_loop pid s2)"
      using loop [of s2 "I @ [h]"] T(2) False c2 by simp
    ultimately show ?thesis using loop_result_step [OF _ False T(3,4)] by simp
  qed
qed

lemma loop_result_frame:
  assumes r: "loop_result pid s1 R I r"
    and f: "mail_frame (current_pcb s) s s1" "same_msgs (proc s (current_pcb s)) (proc s1 (current_pcb s))"
  shows "loop_result pid s R I r"
proof -
  have c: "current_pcb s1 = current_pcb s" using f(1) by (simp add: mail_frame_def)
  note W = wanted_same_msgs [OF f(2), of pid]
  show ?thesis
    using r unfolding loop_result_def Let_def c W
    by (cases "dropWhile (\<lambda>i. \<not> wanted pid (Msg_rec_Pool (proc s (current_pcb s)) ! i)) R")
      (simp_all only: list.case delivered_frame [OF _ f] slept_frame [OF _ f])
qed

lemma receive_loop_unfold:
  "Sem_P_message s = Inr (True, s') \<Longrightarrow> receive_loop pid s = Some (Inr (Asleep s'))"
  "Sem_P_message s = Inr (False, s') \<Longrightarrow> receive_loop pid s = receive_resume pid s'"
  by (subst receive_loop.simps, simp add: receive_resume_def split: sum.splits option.splits)+

lemma receive_loop_spec:
  assumes "box s (current_pcb s) R I [] (length R)"
  shows "loop_result pid s R I (receive_loop pid s)"
  using assms
proof (induction R arbitrary: s I)
  case Nil
  let ?c = "current_pcb s"
  obtain s' where "Sem_P_message s = Inr (True, s')" "asleep_box s' ?c I" "same_msgs (proc s ?c) (proc s' ?c)"
      "current_pcb s' = ?c" "length (Proc s') = length (Proc s)" "\<And>j. j \<noteq> ?c \<Longrightarrow> proc s' j = proc s j"
    using Sem_P_message_sleep [of s ?c I] Nil by auto
  then show ?case by (simp add: receive_loop_unfold loop_result_def slept_def Let_def)
next
  case (Cons h R)
  let ?c = "current_pcb s"
  have "box s ?c (h # R) I [] (Suc (length R))" using Cons.prems by simp
  then obtain s1 where P: "Sem_P_message s = Inr (False, s1)" "box s1 ?c (h # R) I [] (length R)"
      "mail_frame ?c s s1" "same_msgs (proc s ?c) (proc s1 ?c)"
    using Sem_P_message_step by blast
  have c1: "current_pcb s1 = ?c" using P(3) by (simp add: mail_frame_def)
  have "loop_result pid s1 (h # R) I (receive_resume pid s1)"
    using receive_resume_step [OF _ Cons.IH] P(2) c1 by simp
  then show ?case using loop_result_frame P by (simp add: receive_loop_unfold)
qed

lemma receive_resume_spec:
  "box s (current_pcb s) (h # R) I [] (length R) \<Longrightarrow> loop_result pid s (h # R) I (receive_resume pid s)"
  by (rule receive_resume_step [OF _ receive_loop_spec])

section \<open>The search among the messages put aside\<close>

lemma scan_ignored_path:
  assumes "linked (\<lambda>i. sl_next (pool ! i)) pv (ys @ [g])"
  shows "scan_ignored (Some (hd (ys @ [g]))) pool pid g =
    Some (Inr (case find (\<lambda>i. i = g \<or> wanted pid (pool ! i)) ys of None \<Rightarrow> g | Some i \<Rightarrow> i))"
  using assms
proof (induction ys)
  case Nil
  then show ?case by (subst scan_ignored.simps) simp
next
  case (Cons y ys)
  have lk: "linked (\<lambda>i. sl_next (pool ! i)) pv (ys @ [g])" "sl_next (pool ! y) = Some (hd (ys @ [g]))"
    using Cons.prems by (cases ys; simp)+
  show ?case
    using Cons.IH [OF lk(1)] lk(2) by (subst scan_ignored.simps) simp
qed

lemma find_ignored_ring:
  assumes "pool_ring (Msg_ign p) (Msg_rec_Pool p) I"
  shows "find_ignored pid p = Some (Inr (find (\<lambda>i. wanted pid (Msg_rec_Pool p ! i)) I))"
proof (cases I)
  case Nil
  then show ?thesis using assms by (simp add: find_ignored_def pool_ring_Nil)
next
  case (Cons g ys)
  let ?P = "Msg_rec_Pool p"
  have h: "Msg_ign p = Some g" and r: "ring_on (\<lambda>i. sl_next (?P ! i)) (\<lambda>i. sl_prev (?P ! i)) ([g] @ ys)"
    using pool_ring_ne [OF assms] Cons by simp_all
  have g: "g \<notin> set ys" using ring_on_distinct [OF r] by simp
  have r2: "ring_on (\<lambda>i. sl_next (?P ! i)) (\<lambda>i. sl_prev (?P ! i)) (ys @ [g])"
    by (rule ring_on_rotate [OF r])
  have "sl_next (?P ! g) = Some (hd (ys @ [g]))" "linked (\<lambda>i. sl_next (?P ! i)) (\<lambda>i. sl_prev (?P ! i)) (ys @ [g])"
    using r2 by (simp_all add: ring_on_linked)
  then have scan: "scan_ignored (sl_next (?P ! g)) ?P pid g =
      Some (Inr (case find (\<lambda>i. i = g \<or> wanted pid (?P ! i)) ys of None \<Rightarrow> g | Some i \<Rightarrow> i))"
    by (simp only: scan_ignored_path)
  have f: "find (\<lambda>i. i = g \<or> W i) ys = find W ys" for W using g by (induction ys) auto
  have ng: "find W ys \<noteq> Some g" for W using g by (auto simp: find_Some_iff)
  show ?thesis
    using scan f ng h Cons by (cases "find (\<lambda>i. wanted pid (?P ! i)) ys") (auto simp: find_ignored_def)
qed

section \<open>Sending\<close>

text \<open>The message as it arrives: stamped with its sender and receiver.\<close>

definition stamped :: "sys \<Rightarrow> int \<Rightarrow> message \<Rightarrow> message" where
  "stamped s pid m = m\<lparr>m_src := (if enter_interrupt (cpu s) = 1 then MSG_HARD_INTR
     else p_pid (proc s (current_pcb s))), m_dest := pid\<rparr>"

lemma send_section_full:
  assumes "t < length (Proc s)" "mbox (proc s t) R I T" "length (R @ I @ T) = Max_Message_Pool"
  shows "send_section (int t) m s = Inl (Panic ''\<newline>No enough space for message passing!\<newline>'')"
  using Find_Empty_Message_mbox(1) [OF assms(2)] assms(1,3)
  by (simp add: send_section_def Let_def panic_def)

lemma send_section_step:
  assumes t: "t < length (Proc s)" and mb: "mbox (proc s t) R I T"
    and room: "length (R @ I @ T) \<noteq> Max_Message_Pool"
  obtains n s' where "send_section (int t) m s = Inr s'" "mbox (proc s' t) (R @ [n]) I T"
    "n \<notin> set (R @ I @ T)" "mail_frame t s s'" "Msg_lock (proc s' t) = Msg_lock (proc s t)"
    "sl_msg (Msg_rec_Pool (proc s' t) ! n) = stamped s (int t) m"
    "\<And>j. j \<noteq> n \<Longrightarrow> sl_msg (Msg_rec_Pool (proc s' t) ! j) = sl_msg (Msg_rec_Pool (proc s t) ! j)"
proof -
  obtain n where n: "Find_Empty_Message (Msg_rec_Pool (proc s t)) = Some n"
    using Find_Empty_Message_mbox(1) [OF mb] room by auto
  note n2 = Find_Empty_Message_mbox(2) [OF mb n]
  let ?f = "\<lambda>sl. sl\<lparr>sl_flag := False, sl_msg := stamped s (int t) m\<rparr>"
  obtain pool where P:
    "link_received n ((proc s t)\<lparr>Msg_rec_Pool := upd_at n ?f (Msg_rec_Pool (proc s t))\<rparr>)
      = Inr ((proc s t)\<lparr>Msg_rec_Pool := pool, Msg_rec := head_of (R @ [n])\<rparr>)"
    "mbox ((proc s t)\<lparr>Msg_rec_Pool := pool, Msg_rec := head_of (R @ [n])\<rparr>) (R @ [n]) I T"
    "sl_msg (pool ! n) = stamped s (int t) m"
    "\<And>j. j \<noteq> n \<Longrightarrow> sl_msg (pool ! j) = sl_msg (Msg_rec_Pool (proc s t) ! j)"
    using mbox_send [OF mb, of n "stamped s (int t) m"] n2 by blast
  let ?p = "(proc s t)\<lparr>Msg_rec_Pool := pool, Msg_rec := head_of (R @ [n])\<rparr>"
  have "send_section (int t) m s = Inr (unlock (upd_proc t (\<lambda>_. ?p) (lock s)))"
    using n t P(1) by (cases "enter_interrupt (cpu s) = 1") (simp_all add: send_section_def Let_def stamped_def)
  then show thesis
    by (rule that) (use n2 t P(2,3,4) in \<open>auto simp: mail_frame_locked\<close>)
qed

text \<open>\<open>Sem_V\<close> on the mailbox semaphore: a token, or the owner becomes ready.\<close>

lemma Sem_V_message_token:
  assumes "t < length (Proc s)" "queue_tail (Msg_lock (proc s t)) = 0"
  obtains s' where "Sem_V_message t s = Inr s'" "mail_frame t s s'"
    "proc s' t = Msg_lock_update (token_update (\<lambda>k. k + 1)) (proc s t)"
proof (rule that)
  let ?s' = "upd_proc t (Msg_lock_update (\<lambda>_. (Msg_lock (proc s t))\<lparr>token := token (Msg_lock (proc s t)) + 1\<rparr>))
      (unlock (lock s))"
  show "Sem_V_message t s = Inr ?s'"
    using assms(2) by (simp add: Sem_V_message_def Sem_V_def Let_def)
  show "mail_frame t s ?s'" using assms(1) by (simp add: mail_frame_def)
  show "proc ?s' t = Msg_lock_update (token_update (\<lambda>k. k + 1)) (proc s t)"
    using assms(1) by simp
qed

lemma Sem_V_message_wake:
  assumes "t < length (Proc s)" "queue_tail (Msg_lock (proc s t)) = 1"
    "queue (Msg_lock (proc s t)) ! 0 = int t" "queue (Msg_lock (proc s t)) \<noteq> []"
  obtains s' where "Sem_V_message t s = Inr s'"
    "proc s' t = (proc s t)\<lparr>p_status := STATUS_WAITING, Msg_lock := (Msg_lock (proc s t))\<lparr>queue_tail := 0\<rparr>\<rparr>"
    "\<And>j. j \<noteq> t \<Longrightarrow> proc s' j = proc s j" "length (Proc s') = length (Proc s)"
    "current_pcb s' = current_pcb s" "mem s' = mem s"
proof (rule that)
  let ?s' = "upd_proc t (Msg_lock_update (\<lambda>_. (Msg_lock (proc s t))\<lparr>queue_tail := 0\<rparr>))
      (unlock (upd_proc t (p_status_update (\<lambda>_. STATUS_WAITING)) (lock s)))"
  show "Sem_V_message t s = Inr ?s'"
    using assms by (simp add: Sem_V_message_def Sem_V_def Let_def)
  show "proc ?s' t = (proc s t)\<lparr>p_status := STATUS_WAITING, Msg_lock := (Msg_lock (proc s t))\<lparr>queue_tail := 0\<rparr>\<rparr>"
    using assms(1) by simp
qed (use assms(1) in simp_all)

text \<open>C3: \<open>send\<close> appends the message, stamped with its sender (or as a hardware interrupt), to the
  end of what the receiver has not looked at yet, keeps every other message of the mailbox and
  every other process as they are, and adds a token to the mailbox semaphore, or readies the
  receiver when it sleeps on it. It panics exactly when all 128 slots of the pool are used.\<close>

theorem send_appends:
  assumes t: "t < length (Proc s)" and mb: "mbox (proc s t) R I T"
    and q: "queue_tail (Msg_lock (proc s t)) = 0 \<or> asleep_box s t I"
  shows "if length (R @ I @ T) = Max_Message_Pool
    then send (int t) m s = Inl (Panic ''\<newline>No enough space for message passing!\<newline>'')
    else \<exists>s' n. send (int t) m s = Inr s' \<and> mbox (proc s' t) (R @ [n]) I T
      \<and> slot_msgs (proc s' t) (R @ [n]) = slot_msgs (proc s t) R @ [stamped s (int t) m]
      \<and> slot_msgs (proc s' t) (I @ T) = slot_msgs (proc s t) (I @ T)
      \<and> (\<forall>j. j \<noteq> t \<longrightarrow> proc s' j = proc s j)
      \<and> (if queue_tail (Msg_lock (proc s t)) = 0
         then Msg_lock (proc s' t) = token_update (\<lambda>k. k + 1) (Msg_lock (proc s t))
         else Msg_lock (proc s' t) = queue_tail_update (\<lambda>_. 0) (Msg_lock (proc s t))
           \<and> p_status (proc s' t) = STATUS_WAITING)"
proof (cases "length (R @ I @ T) = Max_Message_Pool")
  case True
  then show ?thesis using send_section_full [OF t mb True] by (simp add: send_def)
next
  case False
  obtain n s1 where S: "send_section (int t) m s = Inr s1" "mbox (proc s1 t) (R @ [n]) I T"
    "n \<notin> set (R @ I @ T)" "mail_frame t s s1" "Msg_lock (proc s1 t) = Msg_lock (proc s t)"
    "sl_msg (Msg_rec_Pool (proc s1 t) ! n) = stamped s (int t) m"
    "\<And>j. j \<noteq> n \<Longrightarrow> sl_msg (Msg_rec_Pool (proc s1 t) ! j) = sl_msg (Msg_rec_Pool (proc s t) ! j)"
    using send_section_step [OF t mb False] by metis
  have t1: "t < length (Proc s1)" and oth: "\<And>j. j \<noteq> t \<Longrightarrow> proc s1 j = proc s j"
    using S(4) t by (simp_all add: mail_frame_def)
  have eq: "send (int t) m s = Sem_V_message t s1" using S(1) t1 by (simp add: send_def)
  have ms: "slot_msgs (proc s1 t) (R @ [n]) = slot_msgs (proc s t) R @ [stamped s (int t) m]"
    "slot_msgs (proc s1 t) (I @ T) = slot_msgs (proc s t) (I @ T)"
    using S(3,6) by (auto simp: slot_msgs_def intro!: S(7))
  show ?thesis
  proof (cases "queue_tail (Msg_lock (proc s t)) = 0")
    case True
    then obtain s' where V: "Sem_V_message t s1 = Inr s'" "mail_frame t s1 s'"
        "proc s' t = Msg_lock_update (token_update (\<lambda>k. k + 1)) (proc s1 t)"
      using Sem_V_message_token [OF t1] S(5) by metis
    then have "\<forall>j. j \<noteq> t \<longrightarrow> proc s' j = proc s j" using oth by (simp add: mail_frame_def)
    then show ?thesis using False True V(1,3) S(2,5) ms eq by (auto simp: slot_msgs_def)
  next
    case w: False
    then have "queue_tail (Msg_lock (proc s1 t)) = 1" "queue (Msg_lock (proc s1 t)) ! 0 = int t"
        "queue (Msg_lock (proc s1 t)) \<noteq> []"
      using q S(5) by (auto simp: asleep_box_def Max_Sem_Queue_def)
    then obtain s' where V: "Sem_V_message t s1 = Inr s'"
        "proc s' t = (proc s1 t)\<lparr>p_status := STATUS_WAITING, Msg_lock := (Msg_lock (proc s1 t))\<lparr>queue_tail := 0\<rparr>\<rparr>"
        "\<And>j. j \<noteq> t \<Longrightarrow> proc s' j = proc s1 j"
      using Sem_V_message_wake [OF t1] by metis
    have "mbox (proc s' t) (R @ [n]) I T" using S(2) V(2) by (simp add: mbox_def)
    then show ?thesis using False w V oth S(5) ms eq by (auto simp: slot_msgs_def)
  qed
qed

section \<open>Receiving\<close>

text \<open>Selective receive on lists: \<open>rs\<close> was not looked at yet, \<open>is\<close> was put aside. The oldest
  wanted message of \<open>is\<close> goes first; otherwise the first wanted one of \<open>rs\<close>, and what was
  in front of it is put aside.\<close>

definition accepts :: "int \<Rightarrow> message \<Rightarrow> bool" where
  "accepts pid m \<longleftrightarrow> pid = ANY \<or> pid = m_src m"

definition deliver :: "int \<Rightarrow> message list \<Rightarrow> message list \<Rightarrow> message option \<times> message list \<times> message list" where
  "deliver pid rs is =
     (case dropWhile (\<lambda>m. \<not> accepts pid m) is of
        m # is' \<Rightarrow> (Some m, rs, takeWhile (\<lambda>m. \<not> accepts pid m) is @ is')
      | [] \<Rightarrow> (case dropWhile (\<lambda>m. \<not> accepts pid m) rs of
                 m # rs' \<Rightarrow> (Some m, rs', is @ takeWhile (\<lambda>m. \<not> accepts pid m) rs)
               | [] \<Rightarrow> (None, [], is @ rs)))"

text \<open>\<open>r\<close> does on the mailbox of the current process what \<open>deliver\<close> does on its two lists.\<close>

definition delivers :: "sys \<Rightarrow> (error + outcome) option \<Rightarrow> message option \<times> message list \<times> message list \<Rightarrow> bool" where
  "delivers s r d \<longleftrightarrow>
     (let c = current_pcb s in
      case d of
        (Some m, rs, is) \<Rightarrow> \<exists>s' R I. r = Some (Inr (Received m s')) \<and> box s' c R I [] (length R)
          \<and> slot_msgs (proc s' c) R = rs \<and> slot_msgs (proc s' c) I = is \<and> mail_frame c s s'
      | (None, rs, is) \<Rightarrow> \<exists>s' I. r = Some (Inr (Asleep s')) \<and> asleep_box s' c I
          \<and> rs = [] \<and> slot_msgs (proc s' c) I = is \<and> current_pcb s' = c
          \<and> length (Proc s') = length (Proc s) \<and> (\<forall>j. j \<noteq> c \<longrightarrow> proc s' j = proc s j))"

lemma delivers_Received:
  assumes "r = Some (Inr (Received m s'))" "box s' (current_pcb s) R I [] (length R)"
    "slot_msgs (proc s' (current_pcb s)) R = rs" "slot_msgs (proc s' (current_pcb s)) I = is"
    "mail_frame (current_pcb s) s s'"
  shows "delivers s r (Some m, rs, is)"
  using assms unfolding delivers_def Let_def by auto

lemma wanted_accepts: "wanted pid sl = accepts pid (sl_msg sl)"
  by (simp add: wanted_def accepts_def)

lemma slot_msgs_dropWhile:
  "dropWhile (\<lambda>m. \<not> accepts pid m) (slot_msgs p l)
     = slot_msgs p (dropWhile (\<lambda>i. \<not> wanted pid (Msg_rec_Pool p ! i)) l)"
  "takeWhile (\<lambda>m. \<not> accepts pid m) (slot_msgs p l)
     = slot_msgs p (takeWhile (\<lambda>i. \<not> wanted pid (Msg_rec_Pool p ! i)) l)"
  by (simp_all add: slot_msgs_def dropWhile_map takeWhile_map comp_def wanted_accepts)

lemma slot_msgs_simps [simp]:
  "slot_msgs p [] = []" "slot_msgs p (i # l) = sl_msg (Msg_rec_Pool p ! i) # slot_msgs p l"
  "slot_msgs p (l @ l') = slot_msgs p l @ slot_msgs p l'"
  by (simp_all add: slot_msgs_def)

text \<open>The loop does what \<open>deliver\<close> does when nothing put aside is wanted.\<close>

lemma loop_result_delivers:
  assumes r: "loop_result pid s R I r"
    and none: "dropWhile (\<lambda>i. \<not> wanted pid (Msg_rec_Pool (proc s (current_pcb s)) ! i)) I = []"
  shows "delivers s r (deliver pid (slot_msgs (proc s (current_pcb s)) R) (slot_msgs (proc s (current_pcb s)) I))"
proof -
  let ?c = "current_pcb s"
  let ?W = "\<lambda>i. \<not> wanted pid (Msg_rec_Pool (proc s ?c) ! i)"
  show ?thesis
  proof (cases "dropWhile ?W R")
    case Nil
    then have "slept s (I @ R) r" using r by (simp only: loop_result_def Let_def list.case)
    then obtain s' where s': "r = Some (Inr (Asleep s'))" "asleep_box s' ?c (I @ R)"
        "same_msgs (proc s ?c) (proc s' ?c)" "current_pcb s' = ?c" "\<forall>j. j \<noteq> ?c \<longrightarrow> proc s' j = proc s j"
        "length (Proc s') = length (Proc s)"
      unfolding slept_def Let_def by blast
    have "slot_msgs (proc s' ?c) (I @ R) = slot_msgs (proc s ?c) I @ slot_msgs (proc s ?c) R"
      by (simp only: same_msgs_slot_msgs [OF s'(3)] slot_msgs_simps)
    moreover have "deliver pid (slot_msgs (proc s ?c) R) (slot_msgs (proc s ?c) I)
        = (None, [], slot_msgs (proc s ?c) I @ slot_msgs (proc s ?c) R)"
      unfolding deliver_def slot_msgs_dropWhile none Nil by simp
    ultimately show ?thesis using s' unfolding delivers_def Let_def by auto
  next
    case (Cons n R')
    then have "delivered s n R' (I @ takeWhile ?W R) r" using r by (simp only: loop_result_def Let_def list.case)
    then obtain s' where s': "r = Some (Inr (Received (sl_msg (Msg_rec_Pool (proc s ?c) ! n)) s'))"
        "box s' ?c R' (I @ takeWhile ?W R) [] (length R')"
        "same_msgs (proc s ?c) (proc s' ?c)" "mail_frame ?c s s'"
      unfolding delivered_def Let_def by blast
    have "slot_msgs (proc s' ?c) (I @ takeWhile ?W R) = slot_msgs (proc s ?c) I @ slot_msgs (proc s ?c) (takeWhile ?W R)"
      "slot_msgs (proc s' ?c) R' = slot_msgs (proc s ?c) R'"
      by (simp_all only: same_msgs_slot_msgs [OF s'(3)] slot_msgs_simps)
    moreover have "deliver pid (slot_msgs (proc s ?c) R) (slot_msgs (proc s ?c) I)
        = (Some (sl_msg (Msg_rec_Pool (proc s ?c) ! n)), slot_msgs (proc s ?c) R',
           slot_msgs (proc s ?c) I @ slot_msgs (proc s ?c) (takeWhile ?W R))"
      unfolding deliver_def slot_msgs_dropWhile none Cons by simp
    ultimately show ?thesis using delivers_Received [OF s'(1,2) _ _ s'(4)] by simp
  qed
qed

lemma find_dropWhile:
  "find W l = (case dropWhile (\<lambda>x. \<not> W x) l of [] \<Rightarrow> None | x # _ \<Rightarrow> Some x)"
  by (induction l) auto

lemma receive_spec:
  assumes b: "box s (current_pcb s) R I [] (length R)"
  shows "delivers s (receive pid s)
    (deliver pid (slot_msgs (proc s (current_pcb s)) R) (slot_msgs (proc s (current_pcb s)) I))"
proof -
  let ?c = "current_pcb s"
  let ?W = "\<lambda>i. \<not> wanted pid (Msg_rec_Pool (proc s ?c) ! i)"
  have mb: "mbox (proc s ?c) R I []" and lt: "?c < length (Proc s)" using b by (simp_all add: box_def)
  note f = find_ignored_ring [OF mboxD(3) [OF mb], of pid]
  show ?thesis
  proof (cases "dropWhile ?W I")
    case Nil
    then have "find_ignored pid (proc s ?c) = Some (Inr None)"
      using f by (simp only: find_dropWhile list.case)
    then have "receive pid s = receive_loop pid s" by (simp add: receive_def)
    then show ?thesis using loop_result_delivers [OF receive_loop_spec [OF b] Nil] by simp
  next
    case (Cons n ys)
    let ?xs = "takeWhile ?W I"
    have I: "I = ?xs @ n # ys" using Cons takeWhile_dropWhile_id [of ?W I] by simp
    have "mbox (proc s ?c) R (?xs @ n # ys) []" using mb I by simp
    then obtain pool where P: "take_ignored n (proc s ?c) = Inr ((proc s ?c)\<lparr>Msg_rec_Pool := pool, Msg_ign := head_of (?xs @ ys)\<rparr>)"
        "mbox ((proc s ?c)\<lparr>Msg_rec_Pool := pool, Msg_ign := head_of (?xs @ ys)\<rparr>) R (?xs @ ys) [n]"
        "\<And>j. sl_msg (pool ! j) = sl_msg (Msg_rec_Pool (proc s ?c) ! j)"
      using mbox_take_ignored by blast
    let ?p = "(proc s ?c)\<lparr>Msg_rec_Pool := pool, Msg_ign := head_of (?xs @ ys)\<rparr>"
    let ?s1 = "upd_proc ?c (\<lambda>_. ?p) s"
    have "box ?s1 ?c R (?xs @ ys) [n] (length R)" using b lt P(2) by (simp add: box_def)
    then obtain s' where E: "finish n ?s1 = Received (sl_msg (Msg_rec_Pool (proc ?s1 ?c) ! n)) s'"
        "box s' ?c R (?xs @ ys) [] (length R)" "mail_frame ?c ?s1 s'" "same_msgs (proc ?s1 ?c) (proc s' ?c)"
      using receive_end_step [of ?s1 ?c R "?xs @ ys" n "length R"] by auto
    have sm: "same_msgs (proc s ?c) (proc s' ?c)"
      using E(4) lt P(3) by (simp add: same_msgs_def)
    have "mail_frame ?c s ?s1" using lt by (simp add: mail_frame_def)
    then have mf: "mail_frame ?c s s'" by (rule mail_frame_trans) (rule E(3))
    have "receive pid s = Some (Inr (Received (sl_msg (Msg_rec_Pool (proc s ?c) ! n)) s'))"
      using f P(1,3) E(1) lt Cons by (simp add: receive_def Let_def find_dropWhile)
    moreover have "slot_msgs (proc s' ?c) (?xs @ ys) = slot_msgs (proc s ?c) ?xs @ slot_msgs (proc s ?c) ys"
      "slot_msgs (proc s' ?c) R = slot_msgs (proc s ?c) R"
      by (simp_all only: same_msgs_slot_msgs [OF sm] slot_msgs_simps)
    moreover have "deliver pid (slot_msgs (proc s ?c) R) (slot_msgs (proc s ?c) I)
        = (Some (sl_msg (Msg_rec_Pool (proc s ?c) ! n)), slot_msgs (proc s ?c) R,
           slot_msgs (proc s ?c) ?xs @ slot_msgs (proc s ?c) ys)"
      unfolding deliver_def slot_msgs_dropWhile Cons by simp
    ultimately show ?thesis using delivers_Received [OF _ E(2) _ _ mf] by simp
  qed
qed

text \<open>C2: When the semaphore counts the messages not yet looked at, \<open>receive\<close> is a selective
  receive: it returns the oldest message put aside earlier that comes from the wanted sender,
  otherwise the first such message in the queue, putting the ones before it aside in order,
  with the slot of the message free again and the count still exact. Exactly when no message is
  wanted the process falls asleep, with everything put aside. It always ends in one of the two.\<close>

theorem receive_selective:
  assumes b: "box s (current_pcb s) R I [] (length R)"
  shows "delivers s (receive pid s)
    (deliver pid (slot_msgs (proc s (current_pcb s)) R) (slot_msgs (proc s (current_pcb s)) I))"
  by (rule receive_spec [OF assms])

section \<open>Concrete mailboxes\<close>

lemma init_message_pool_mbox:
  assumes "length (Msg_rec_Pool p) = Max_Message_Pool"
  shows "mbox (init_message_pool p) [] [] []"
  using assms by (intro mboxI) (simp_all add: init_message_pool_def pool_ring_Nil)

lemma mbox_p_cr3 [simp]: "mbox (p_cr3_update f p) R I T = mbox p R I T"
  by (simp add: mbox_def)

lemma boot_box: "box (init_proc boot_sys) 0 [] [] [] 0"
proof -
  define p where "p = zero_pcb\<lparr>p_prev := Some 0, p_next := Some 0\<rparr>"
  have len: "length (Msg_rec_Pool p) = Max_Message_Pool" "length (queue (Msg_lock p)) = Max_Sem_Queue"
      "p_flag p = False" "p_pid p = 0" "p_status p = STATUS_WAITING" "time_elapsed p = 0"
    by (simp_all add: p_def zero_pcb_def)
  have "proc (init_proc boot_sys) 0 = (init_message_pool p)\<lparr>p_cr3 := make_cr3 (va_to_pa 0xC0200000)\<rparr>"
    by (simp add: init_proc_def Let_def fold_set_flags init_pcb_def boot_sys_def MAX_PROC_def zero_pcb_def p_def)
  moreover have "0 < length (Proc (init_proc boot_sys))"
    using init_proc_ok(1) [of boot_sys] by (simp add: boot_sys_def proc_table_ok_def MAX_PROC_def)
  moreover have "Msg_lock (init_message_pool p) = (Msg_lock p)\<lparr>token := 0, queue_tail := 0\<rparr>"
    by (simp add: init_message_pool_def Sem_init_def)
  ultimately show ?thesis
    using init_message_pool_mbox [OF len(1)] len by (simp add: box_def)
qed

lemma send_box:
  assumes b: "box s t R I T k" and room: "length (R @ I @ T) \<noteq> Max_Message_Pool"
  obtains n s' where "send (int t) m s = Inr s'" "box s' t (R @ [n]) I T (Suc k)" "mail_frame t s s'"
    "slot_msgs (proc s' t) (R @ [n]) = slot_msgs (proc s t) R @ [stamped s (int t) m]"
proof -
  have t: "t < length (Proc s)" and mb: "mbox (proc s t) R I T" and q: "queue_tail (Msg_lock (proc s t)) = 0"
    using b by (simp_all add: box_def)
  obtain n s1 where S: "send_section (int t) m s = Inr s1" "mbox (proc s1 t) (R @ [n]) I T"
    "n \<notin> set (R @ I @ T)" "mail_frame t s s1" "Msg_lock (proc s1 t) = Msg_lock (proc s t)"
    "sl_msg (Msg_rec_Pool (proc s1 t) ! n) = stamped s (int t) m"
    "\<And>j. j \<noteq> n \<Longrightarrow> sl_msg (Msg_rec_Pool (proc s1 t) ! j) = sl_msg (Msg_rec_Pool (proc s t) ! j)"
    using send_section_step [OF t mb room] by metis
  have t1: "t < length (Proc s1)" using S(4) t by (simp add: mail_frame_def)
  then obtain s' where V: "Sem_V_message t s1 = Inr s'" "mail_frame t s1 s'"
      "proc s' t = Msg_lock_update (token_update (\<lambda>k. k + 1)) (proc s1 t)"
    using Sem_V_message_token S(5) q by metis
  have "send (int t) m s = Inr s'" using S(1) V(1) t1 by (simp add: send_def)
  moreover have "t < length (Proc s')" using V(2) t1 by (simp add: mail_frame_def)
  then have "box s' t (R @ [n]) I T (Suc k)" using V(3) S(2,5) b mail_frame_pid [OF S(4)] by (simp add: box_def)
  moreover have "slot_msgs (proc s' t) (R @ [n]) = slot_msgs (proc s1 t) (R @ [n])"
    using V(3) by (simp add: slot_msgs_def)
  then have "slot_msgs (proc s' t) (R @ [n]) = slot_msgs (proc s t) R @ [stamped s (int t) m]"
    using S(3,6) by (auto simp: slot_msgs_def intro!: S(7))
  ultimately show thesis using that mail_frame_trans [OF S(4) V(2)] by blast
qed

text \<open>A message that \<open>init\<close> sends itself, and its state with that message.\<close>

lemma boot_current: "current_pcb (init_proc boot_sys) = 0" "p_pid (proc (init_proc boot_sys) 0) = 0"
  using init_proc_ok(1,3) [of boot_sys] by (simp_all add: boot_sys_def proc_table_ok_def init_pcb_def)

lemma boot_one_message:
  obtains s n where "send 0 zero_message (init_proc boot_sys) = Inr s" "current_pcb s = 0"
    "box s 0 [n] [] [] (Suc 0)" "slot_msgs (proc s 0) [n] = [zero_message]"
proof -
  have "enter_interrupt (cpu (fold (\<lambda>i. upd_proc i (p_flag_update (\<lambda>_. True))) is s)) = enter_interrupt (cpu s)" for "is" s
    by (induction "is" arbitrary: s) auto
  then have "enter_interrupt (cpu (init_proc boot_sys)) = 0"
    by (simp add: init_proc_def Let_def boot_sys_def)
  then have st: "stamped (init_proc boot_sys) (int 0) zero_message = zero_message"
    by (simp add: stamped_def boot_current zero_message_def)
  obtain n s where "send (int 0) zero_message (init_proc boot_sys) = Inr s" "box s 0 ([] @ [n]) [] [] (Suc 0)"
      "mail_frame 0 (init_proc boot_sys) s"
      "slot_msgs (proc s 0) ([] @ [n]) = slot_msgs (proc (init_proc boot_sys) 0) [] @ [stamped (init_proc boot_sys) (int 0) zero_message]"
    by (rule send_box [OF boot_box, of zero_message]) (simp add: Max_Message_Pool_def)
  then show thesis using that boot_current(1) st by (simp add: mail_frame_def)
qed

theorem send_appends_witness:
  "\<exists>s' n. send 0 zero_message (init_proc boot_sys) = Inr s' \<and> mbox (proc s' 0) [n] [] []
     \<and> token (Msg_lock (proc s' 0)) = 1"
proof -
  have b: "0 < length (Proc (init_proc boot_sys))" "mbox (proc (init_proc boot_sys) 0) [] [] []"
      "queue_tail (Msg_lock (proc (init_proc boot_sys) 0)) = 0" "token (Msg_lock (proc (init_proc boot_sys) 0)) = 0"
    using boot_box by (simp_all add: box_def)
  show ?thesis using send_appends [OF b(1,2), of zero_message] b(3,4) by (auto simp: Max_Message_Pool_def)
qed

theorem receive_selective_witness:
  "\<exists>s s'. send 0 zero_message (init_proc boot_sys) = Inr s \<and>
     receive ANY s = Some (Inr (Received zero_message s')) \<and> mbox (proc s' 0) [] [] []"
proof -
  obtain s n where s: "send 0 zero_message (init_proc boot_sys) = Inr s" "current_pcb s = 0"
    "box s 0 [n] [] [] (Suc 0)" "slot_msgs (proc s 0) [n] = [zero_message]"
    by (rule boot_one_message)
  have "delivers s (receive ANY s) (deliver ANY [zero_message] [])"
    using receive_selective [of s "[n]" "[]" ANY] s(2,3,4) by simp
  then show ?thesis
    using s(1,2) by (auto simp: delivers_def deliver_def accepts_def box_def slot_msgs_def)
qed

lemma send_wakes_spec:
  assumes a: "asleep_box s c I"
    and room: "length I < Max_Message_Pool"
    and unwanted: "list_all (\<lambda>m. \<not> accepts pid m) (slot_msgs (proc s c) I)"
  shows "\<exists>s1. send (int c) m s = Inr s1 \<and> p_status (proc s1 c) = STATUS_WAITING \<and>
    (\<forall>s2. current_pcb s2 = c \<and> length (Proc s2) = length (Proc s1)
        \<and> proc s2 c = (proc s1 c)\<lparr>p_status := STATUS_RUNNING\<rparr>
      \<longrightarrow> delivers s2 (receive_resume pid s2)
            (deliver pid [stamped s (int c) m] (slot_msgs (proc s c) I)))"
proof -
  have c: "c < length (Proc s)" and mb: "mbox (proc s c) [] I []" and tok: "token (Msg_lock (proc s c)) = 0"
    and q: "queue_tail (Msg_lock (proc s c)) = 1" "length (queue (Msg_lock (proc s c))) = Max_Sem_Queue"
      "queue (Msg_lock (proc s c)) ! 0 = int c"
    using a by (simp_all add: asleep_box_def)
  obtain n s1 where S: "send_section (int c) m s = Inr s1" "mbox (proc s1 c) [n] I []"
    "n \<notin> set I" "mail_frame c s s1" "Msg_lock (proc s1 c) = Msg_lock (proc s c)"
    "sl_msg (Msg_rec_Pool (proc s1 c) ! n) = stamped s (int c) m"
    "\<And>j. j \<noteq> n \<Longrightarrow> sl_msg (Msg_rec_Pool (proc s1 c) ! j) = sl_msg (Msg_rec_Pool (proc s c) ! j)"
    using send_section_step [OF c mb, of m] room by (auto; metis)
  have c1: "c < length (Proc s1)" using S(4) c by (simp add: mail_frame_def)
  have q1: "queue_tail (Msg_lock (proc s1 c)) = 1" "queue (Msg_lock (proc s1 c)) ! 0 = int c"
      "queue (Msg_lock (proc s1 c)) \<noteq> []"
    using q S(5) by (auto simp: Max_Sem_Queue_def)
  obtain s' where V: "Sem_V_message c s1 = Inr s'"
      "proc s' c = (proc s1 c)\<lparr>p_status := STATUS_WAITING, Msg_lock := (Msg_lock (proc s1 c))\<lparr>queue_tail := 0\<rparr>\<rparr>"
      "length (Proc s') = length (Proc s1)"
    using Sem_V_message_wake [OF c1 q1] by metis
  have "send (int c) m s = Inr s'" using S(1) V(1) c1 by (simp add: send_def)
  moreover have "delivers s2 (receive_resume pid s2) (deliver pid [stamped s (int c) m] (slot_msgs (proc s c) I))"
    if s2: "current_pcb s2 = c" "length (Proc s2) = length (Proc s')" "proc s2 c = (proc s' c)\<lparr>p_status := STATUS_RUNNING\<rparr>" for s2
  proof -
    have p2: "proc s2 c = (proc s1 c)\<lparr>p_status := STATUS_RUNNING, Msg_lock := (Msg_lock (proc s1 c))\<lparr>queue_tail := 0\<rparr>\<rparr>"
      using s2(3) V(2) by simp
    have "box s2 (current_pcb s2) [n] I [] (length ([] :: nat list))"
      using s2(1,2) V(3) c1 S(2,5) tok q(2) mail_frame_pid [OF S(4)] a unfolding asleep_box_def p2 box_def s2(1) by (simp add: mbox_def)
    then have "loop_result pid s2 [n] I (receive_resume pid s2)" by (rule receive_resume_spec)
    moreover have eq: "slot_msgs (proc s2 c) [n] = [stamped s (int c) m]" "slot_msgs (proc s2 c) I = slot_msgs (proc s c) I"
      using S(3,6) by (auto simp: slot_msgs_def p2 intro!: S(7))
    have "dropWhile (\<lambda>i. \<not> wanted pid (Msg_rec_Pool (proc s2 (current_pcb s2)) ! i)) I = []"
      using unwanted unfolding eq(2) [symmetric] s2(1)
      by (auto simp: slot_msgs_def list_all_iff wanted_accepts)
    ultimately show ?thesis using loop_result_delivers [of pid s2 "[n]" I] eq s2(1) by metis
  qed
  ultimately show ?thesis using V(2) by auto
qed

text \<open>C4: A sleeping receiver gets the message it sleeps for. When a process sleeps in \<open>receive\<close>,
  a \<open>send\<close> to it makes it ready; once the scheduler runs it again it returns that message if
  it is from the wanted sender, and otherwise puts it aside and sleeps again, as the
  selective receive says.\<close>

theorem send_wakes_receiver:
  assumes a: "asleep_box s c I"
    and room: "length I < Max_Message_Pool"
    and unwanted: "list_all (\<lambda>m. \<not> accepts pid m) (slot_msgs (proc s c) I)"
  shows "\<exists>s1. send (int c) m s = Inr s1 \<and> p_status (proc s1 c) = STATUS_WAITING \<and>
    (\<forall>s2. current_pcb s2 = c \<and> length (Proc s2) = length (Proc s1)
        \<and> proc s2 c = (proc s1 c)\<lparr>p_status := STATUS_RUNNING\<rparr>
      \<longrightarrow> delivers s2 (receive_resume pid s2)
            (deliver pid [stamped s (int c) m] (slot_msgs (proc s c) I)))"
  by (rule send_wakes_spec [OF assms])

theorem send_wakes_receiver_witness:
  "\<exists>s s1. receive 5 (init_proc boot_sys) = Some (Inr (Asleep s)) \<and> send 0 zero_message s = Inr s1
     \<and> p_status (proc s1 0) = STATUS_WAITING"
proof -
  have "delivers (init_proc boot_sys) (receive 5 (init_proc boot_sys)) (deliver 5 [] [])"
    using receive_loop_spec [of "init_proc boot_sys" "[]" "[]" 5] boot_box boot_current
      find_ignored_ring [of "proc (init_proc boot_sys) 0" "[]" 5]
      loop_result_delivers [of 5 "init_proc boot_sys" "[]" "[]"]
    by (simp add: box_def mbox_def receive_def)
  then obtain s I where s: "receive 5 (init_proc boot_sys) = Some (Inr (Asleep s))" "asleep_box s 0 I"
      "slot_msgs (proc s 0) I = []"
    by (auto simp: delivers_def deliver_def boot_current)
  then have I: "I = []" by (simp add: slot_msgs_def)
  then show ?thesis
    using send_wakes_receiver [OF s(2), of 5 zero_message] s I by (auto simp: Max_Message_Pool_def)
qed

section \<open>Senders and a receiver interleaved\<close>

text \<open>
  Interrupts arrive between the locked sections, so the calls of \<open>send\<close> and \<open>receive\<close> on one
  mailbox interleave at the granularity of these sections. The control state of the receiver
  says where in \<open>receive\<close> it is; the number counts the senders that have linked their message
  but have not called \<open>Sem_V\<close> yet. (The search in \<open>Msg_ign\<close> is one step: only the owner
  touches that list.)
\<close>

datatype control =
    Outside
  | Before_P int
  | In_P int
  | Taking int
  | Freeing nat

inductive mstep :: "nat \<Rightarrow> sys \<times> control \<times> nat \<Rightarrow> sys \<times> control \<times> nat \<Rightarrow> bool" for c where
  Send_link: "send_section (int c) m s = Inr s' \<Longrightarrow> mstep c (s, k, v) (s', k, Suc v)"
| Send_V: "Sem_V_message c s = Inr s' \<Longrightarrow> mstep c (s, k, Suc v) (s', k, v)"
| Others: "length (Proc s') = length (Proc s) \<Longrightarrow>
    proc s' c = (proc s c)\<lparr>p_status := st, p_next := nx, p_prev := pv, p_esp := sp\<rparr> \<Longrightarrow>
    (st = STATUS_SLEEPING \<longleftrightarrow> p_status (proc s c) = STATUS_SLEEPING) \<Longrightarrow>
    mstep c (s, k, v) (s', k, v)"
| From_ignored: "current_pcb s = c \<Longrightarrow> find_ignored pid (proc s c) = Some (Inr (Some n)) \<Longrightarrow>
    take_ignored n (proc s c) = Inr p \<Longrightarrow>
    mstep c (s, Outside, v) (upd_proc c (\<lambda>_. p) s, Freeing n, v)"
| To_loop: "current_pcb s = c \<Longrightarrow> find_ignored pid (proc s c) = Some (Inr None) \<Longrightarrow>
    mstep c (s, Outside, v) (s, Before_P pid, v)"
| P: "current_pcb s = c \<Longrightarrow> Sem_P_message s = Inr (blocked, s') \<Longrightarrow>
    mstep c (s, Before_P pid, v) (s', if blocked then In_P pid else Taking pid, v)"
| Wake: "current_pcb s = c \<Longrightarrow> p_status (proc s c) \<noteq> STATUS_SLEEPING \<Longrightarrow>
    mstep c (s, In_P pid, v) (s, Taking pid, v)"
| Take: "current_pcb s = c \<Longrightarrow> receive_take pid s = Inr (got, s') \<Longrightarrow>
    mstep c (s, Taking pid, v) (s', case got of Some n \<Rightarrow> Freeing n | None \<Rightarrow> Before_P pid, v)"
| Finish: "current_pcb s = c \<Longrightarrow> receive_end n s = (m, s') \<Longrightarrow>
    mstep c (s, Freeing n, v) (s', Outside, v)"

inductive_cases mstepE: "mstep c (s, k, v) (s', k', v')"

text \<open>The invariant: the messages in \<open>Msg_rec\<close> are covered by the tokens, by the senders that
  still have to signal, and by the receiver that already took its token. The receiver is queued
  on the semaphore only while it sleeps and there is no token.\<close>

definition taken :: "control \<Rightarrow> nat list" where
  "taken k = (case k of Freeing n \<Rightarrow> [n] | _ \<Rightarrow> [])"

definition credit :: "control \<Rightarrow> sys \<Rightarrow> nat \<Rightarrow> int" where
  "credit k s c = (case k of Taking _ \<Rightarrow> 1
     | In_P _ \<Rightarrow> (if queue_tail (Msg_lock (proc s c)) = 0 then 1 else 0) | _ \<Rightarrow> 0)"

definition queued :: "control \<Rightarrow> sys \<Rightarrow> nat \<Rightarrow> bool" where
  "queued k s c \<longleftrightarrow> (\<exists>pid. k = In_P pid) \<and> queue_tail (Msg_lock (proc s c)) = 1
     \<and> queue (Msg_lock (proc s c)) ! 0 = int c \<and> token (Msg_lock (proc s c)) = 0
     \<and> p_status (proc s c) = STATUS_SLEEPING"

definition rx_inv :: "nat \<Rightarrow> sys \<times> control \<times> nat \<Rightarrow> nat list \<Rightarrow> nat list \<Rightarrow> bool" where
  "rx_inv c x R I \<longleftrightarrow>
     (case x of (s, k, v) \<Rightarrow> c < length (Proc s) \<and> p_pid (proc s c) = int c
        \<and> mbox (proc s c) R I (taken k)
        \<and> length (queue (Msg_lock (proc s c))) = Max_Sem_Queue
        \<and> 0 \<le> token (Msg_lock (proc s c))
        \<and> int (length R) = token (Msg_lock (proc s c)) + int v + credit k s c
        \<and> (queue_tail (Msg_lock (proc s c)) = 0 \<or> queued k s c)
        \<and> ((\<exists>pid. k = In_P pid) \<and> p_status (proc s c) = STATUS_SLEEPING \<longrightarrow> queued k s c))"

lemma rx_invD:
  assumes "rx_inv c (s, k, v) R I"
  shows "c < length (Proc s)" "p_pid (proc s c) = int c" "mbox (proc s c) R I (taken k)"
    "length (queue (Msg_lock (proc s c))) = Max_Sem_Queue" "0 \<le> token (Msg_lock (proc s c))"
    "int (length R) = token (Msg_lock (proc s c)) + int v + credit k s c"
    "queue_tail (Msg_lock (proc s c)) = 0 \<or> queued k s c"
    "(\<exists>pid. k = In_P pid) \<Longrightarrow> p_status (proc s c) = STATUS_SLEEPING \<Longrightarrow> queued k s c"
  using assms by (simp_all add: rx_inv_def)

lemma rx_inv_send:
  assumes i: "rx_inv c (s, k, v) R I" and st: "send_section (int c) m s = Inr s'"
  shows "\<exists>R I. rx_inv c (s', k, Suc v) R I"
proof -
  note d = rx_invD [OF i]
  have "length (R @ I @ taken k) \<noteq> Max_Message_Pool"
    using send_section_full [OF d(1,3)] st by auto
  then obtain n where n: "mbox (proc s' c) (R @ [n]) I (taken k)" "mail_frame c s s'"
      "Msg_lock (proc s' c) = Msg_lock (proc s c)"
    using send_section_step [OF d(1,3), of m] st by (metis sum.inject(2))
  have "p_status (proc s' c) = p_status (proc s c)" "length (Proc s') = length (Proc s)"
    using n(2) by (simp_all add: mail_frame_def mail_eqD(1))
  then have "rx_inv c (s', k, Suc v) (R @ [n]) I"
    using d n(1,3) mail_frame_pid [OF n(2)] by (simp add: rx_inv_def credit_def queued_def)
  then show ?thesis by blast
qed

lemma rx_inv_V:
  assumes i: "rx_inv c (s, k, Suc v) R I" and st: "Sem_V_message c s = Inr s'"
  shows "\<exists>R I. rx_inv c (s', k, v) R I"
proof (cases "queue_tail (Msg_lock (proc s c)) = 0")
  case True
  note d = rx_invD [OF i]
  obtain "mail_frame c s s'" "proc s' c = Msg_lock_update (token_update (\<lambda>k. k + 1)) (proc s c)"
    using Sem_V_message_token [OF d(1) True] st by auto
  moreover from this(1) have "length (Proc s') = length (Proc s)" by (simp add: mail_frame_def)
  ultimately have "rx_inv c (s', k, v) R I"
    using d True by (auto simp: rx_inv_def credit_def queued_def split: control.splits)
  then show ?thesis by blast
next
  case False
  note d = rx_invD [OF i]
  have q: "queued k s c" using d(7) False by simp
  have ne: "queue (Msg_lock (proc s c)) \<noteq> []" using d(4) by (auto simp: Max_Sem_Queue_def)
  obtain "proc s' c = (proc s c)\<lparr>p_status := STATUS_WAITING, Msg_lock := (Msg_lock (proc s c))\<lparr>queue_tail := 0\<rparr>\<rparr>"
      "length (Proc s') = length (Proc s)"
    using Sem_V_message_wake [OF d(1) _ _ ne] q st by (auto simp: queued_def)
  then have "rx_inv c (s', k, v) R I"
    using d q by (auto simp: rx_inv_def credit_def queued_def mbox_def)
  then show ?thesis by blast
qed

lemma rx_inv_box:
  assumes "rx_inv c (s, k, v) R I" "queue_tail (Msg_lock (proc s c)) = 0"
  shows "box s c R I (taken k) (nat (token (Msg_lock (proc s c))))"
  using rx_invD [OF assms(1)] assms(2) by (simp add: box_def)

lemma box_rx_inv:
  assumes "box s c R I (taken k) t" "int (length R) = int t + int v + credit k s c"
    "\<And>pid. k \<noteq> In_P pid"
  shows "rx_inv c (s, k, v) R I"
  using assms by (simp add: rx_inv_def box_def)

lemma rx_inv_others:
  assumes i: "rx_inv c (s, k, v) R I" and len: "length (Proc s') = length (Proc s)"
    and p: "proc s' c = (proc s c)\<lparr>p_status := st, p_next := nx, p_prev := pv, p_esp := sp\<rparr>"
    and st: "st = STATUS_SLEEPING \<longleftrightarrow> p_status (proc s c) = STATUS_SLEEPING"
  shows "rx_inv c (s', k, v) R I"
  using rx_invD [OF i] len st
  by (simp add: rx_inv_def p mbox_def credit_def queued_def split: control.splits)

lemma rx_inv_ignored:
  assumes i: "rx_inv c (s, Outside, v) R I" and f: "find_ignored pid (proc s c) = Some (Inr (Some n))"
    and t: "take_ignored n (proc s c) = Inr p"
  shows "\<exists>R I. rx_inv c (upd_proc c (\<lambda>_. p) s, Freeing n, v) R I"
proof -
  note d = rx_invD [OF i]
  have mb: "mbox (proc s c) R I []" using d(3) by (simp add: taken_def)
  have "find (\<lambda>i. wanted pid (Msg_rec_Pool (proc s c) ! i)) I = Some n"
    using find_ignored_ring [OF mboxD(3) [OF mb], of pid] f by simp
  then have "n \<in> set I" by (auto simp: find_Some_iff)
  then obtain xs ys where I: "I = xs @ n # ys" by (meson split_list)
  obtain pool where "take_ignored n (proc s c) = Inr ((proc s c)\<lparr>Msg_rec_Pool := pool, Msg_ign := head_of (xs @ ys)\<rparr>)"
      "mbox ((proc s c)\<lparr>Msg_rec_Pool := pool, Msg_ign := head_of (xs @ ys)\<rparr>) R (xs @ ys) [n]"
    using mbox_take_ignored mb unfolding I by blast
  then have "rx_inv c (upd_proc c (\<lambda>_. p) s, Freeing n, v) R (xs @ ys)"
    using d t by (auto simp: rx_inv_def taken_def credit_def queued_def)
  then show ?thesis by blast
qed

lemma rx_inv_P:
  assumes i: "rx_inv c (s, Before_P pid, v) R I" and c: "current_pcb s = c"
    and st: "Sem_P_message s = Inr (blocked, s')"
  shows "rx_inv c (s', if blocked then In_P pid else Taking pid, v) R I"
proof -
  note d = rx_invD [OF i]
  have qt: "queue_tail (Msg_lock (proc s c)) = 0" using d(7) by (simp add: queued_def)
  have b: "box s c R I [] (nat (token (Msg_lock (proc s c))))"
    using rx_inv_box [OF i qt] by (simp add: taken_def)
  show ?thesis
  proof (cases "token (Msg_lock (proc s c)) = 0")
    case True
    let ?q = "(queue (Msg_lock (proc s c)))[0 := int c]"
    have "0 < length (queue (Msg_lock (proc s c)))" using d(4) by (simp add: Max_Sem_Queue_def)
    then have "blocked" "proc s' c = (proc s c)\<lparr>p_status := STATUS_SLEEPING,
        Msg_lock := (Msg_lock (proc s c))\<lparr>queue := ?q, queue_tail := 1\<rparr>\<rparr>" "length (Proc s') = length (Proc s)"
      using st c d(1,2) True qt by (auto simp: Sem_P_message_def Sem_P_def Let_def)
    then show ?thesis
      using d True qt \<open>0 < length (queue (Msg_lock (proc s c)))\<close>
      by (simp add: rx_inv_def taken_def credit_def queued_def mbox_def)
  next
    case False
    then obtain t where t: "nat (token (Msg_lock (proc s c))) = Suc t" "token (Msg_lock (proc s c)) = int t + 1"
      using d(5) by (metis Suc_as_int nat_0_iff nat_eq_iff not0_implies_Suc of_nat_Suc add.commute order_antisym)
    have "box s c R I [] (Suc t)" using b unfolding t(1) .
    then obtain s1 where "Sem_P_message s = Inr (False, s1)" "box s1 c R I [] t"
      using Sem_P_message_step c by metis
    then have "\<not> blocked" "box s' c R I [] t" using st by simp_all
    then show ?thesis using d(6) t(2) box_rx_inv [of s' c R I "Taking pid" t v]
      by (simp add: taken_def credit_def)
  qed
qed

lemma rx_inv_wake:
  assumes i: "rx_inv c (s, In_P pid, v) R I" and st: "p_status (proc s c) \<noteq> STATUS_SLEEPING"
  shows "rx_inv c (s, Taking pid, v) R I"
  using rx_invD [OF i] st by (auto simp: rx_inv_def taken_def credit_def queued_def)

text \<open>At \<open>Taking\<close> the queue of messages is not empty.\<close>

lemma rx_inv_take:
  assumes i: "rx_inv c (s, Taking pid, v) R I" and c: "current_pcb s = c"
  obtains got s' R' I' where "receive_take pid s = Inr (got, s')"
    "rx_inv c (s', case got of Some n \<Rightarrow> Freeing n | None \<Rightarrow> Before_P pid, v) R' I'"
proof -
  note d = rx_invD [OF i]
  have qt: "queue_tail (Msg_lock (proc s c)) = 0" using d(7) by (simp add: queued_def)
  let ?t = "nat (token (Msg_lock (proc s c)))"
  have b: "box s c R I [] ?t" using rx_inv_box [OF i qt] by (simp add: taken_def)
  obtain h R' where R: "R = h # R'" using d(5,6) by (cases R) (auto simp: credit_def)
  let ?w = "wanted pid (Msg_rec_Pool (proc s c) ! h)"
  obtain s' where s': "receive_take pid s = Inr (if ?w then Some h else None, s')"
    "box s' c R' (if ?w then I else I @ [h]) (if ?w then [h] else []) ?t"
    using receive_take_step [of s c h R' I ?t pid] b c unfolding R by metis
  show thesis
  proof (rule that [OF s'(1)])
    show "rx_inv c (s', case if ?w then Some h else None of Some n \<Rightarrow> Freeing n | None \<Rightarrow> Before_P pid, v)
        R' (if ?w then I else I @ [h])"
      using s'(2) d(5,6) R
      by (cases ?w; intro box_rx_inv [where t = ?t]) (simp_all add: taken_def credit_def)
  qed
qed

lemma rx_inv_finish:
  assumes i: "rx_inv c (s, Freeing n, v) R I" and c: "current_pcb s = c"
    and st: "receive_end n s = (m, s')"
  shows "rx_inv c (s', Outside, v) R I"
proof -
  note d = rx_invD [OF i]
  have qt: "queue_tail (Msg_lock (proc s c)) = 0" using d(7) by (simp add: queued_def)
  let ?t = "nat (token (Msg_lock (proc s c)))"
  have b: "box s c R I [n] ?t" using rx_inv_box [OF i qt] by (simp add: taken_def)
  obtain s1 where "finish n s = Received (sl_msg (Msg_rec_Pool (proc s c) ! n)) s1" "box s1 c R I [] ?t"
    using receive_end_step [OF b c [symmetric]] by metis
  then have "box s' c R I [] ?t" using st by (simp add: finish_def)
  then show ?thesis using d(5,6) by (intro box_rx_inv [where t = ?t]) (simp_all add: taken_def credit_def)
qed

lemma rx_inv_step:
  assumes "mstep c x y" "\<exists>R I. rx_inv c x R I"
  shows "\<exists>R I. rx_inv c y R I"
  using assms
proof (induction rule: mstep.induct)
  case (Send_link m s s' k v)
  then show ?case using rx_inv_send by blast
next
  case (Send_V s s' k v)
  then show ?case using rx_inv_V by blast
next
  case (Others s' s st nx pv sp k v)
  then show ?case using rx_inv_others by blast
next
  case (From_ignored s pid n p v)
  then show ?case using rx_inv_ignored by blast
next
  case (To_loop s pid v)
  then show ?case by (auto simp: rx_inv_def taken_def credit_def queued_def)
next
  case (P s blocked s' v pid)
  then show ?case using rx_inv_P by blast
next
  case (Wake s pid v)
  then show ?case using rx_inv_wake by blast
next
  case (Take s pid got s' v)
  then obtain R I where i: "rx_inv c (s, Taking pid, v) R I" by blast
  obtain got' s1 R' I' where "receive_take pid s = Inr (got', s1)"
      "rx_inv c (s1, case got' of Some n \<Rightarrow> Freeing n | None \<Rightarrow> Before_P pid, v) R' I'"
    by (rule rx_inv_take [OF i Take.hyps(1)])
  with Take.hyps(2) show ?case by auto
next
  case (Finish s n m s' v)
  then show ?case using rx_inv_finish by blast
qed

interpretation mailbox: transition_invariant "mstep c" "\<lambda>x. \<exists>R I. rx_inv c x R I" for c
  by unfold_locales (rule rx_inv_step)



end
