(* ===== verification/Timer.thy ===== *)
theory Timer
  imports Message Chain
begin

text \<open>
  kernel/drivers/timer.c: the 100 Hz timer. Alarms wait in a queue ordered by deadline, in
  which an entry only holds the ticks that remain after its predecessor fires; a free list
  links the unused entries of the pool.
\<close>

section \<open>State and operations\<close>

definition NR_PROC_TIME :: u32 where "NR_PROC_TIME = 5"
definition NR_PROCESS :: nat where "NR_PROCESS = 32"
definition TIMER_SET_ALRM :: u32 where "TIMER_SET_ALRM = 0x20"
definition TIMER_ALRM_FIRE :: u32 where "TIMER_ALRM_FIRE = 0x21"

record alarm =
  a_pid :: int
  remain_time :: int
  a_next :: "nat option"

text \<open>\<open>intr_m\<close> and \<open>TIMER\<close> are the static message of the handler and the driver's pid.\<close>

record timer =
  alarm_pool :: "alarm list"
  alarm_free :: "nat option"
  alarm_queue :: "nat option"
  intr_m :: message
  TIMER :: int

text \<open>A value stored in an \<open>int_32\<close>.\<close>

definition i32 :: "int \<Rightarrow> int" where "i32 x = sint (word_of_int x :: u32)"

lemma i32_id: "- (2 ^ 31) \<le> x \<Longrightarrow> x < 2 ^ 31 \<Longrightarrow> i32 x = x"
  by (simp add: i32_def int_word_sint)

text \<open>The bytes written to the timer chip: mode 2 on channel 0 with divisor 11932.\<close>

definition init_100hz_timer :: "(u16 \<times> u8) list" where
  "init_100hz_timer = [(0x43, 0x34), (0x40, word_of_int (11932 mod 256)), (0x40, word_of_int (11932 div 256))]"

definition init_alarm :: "timer \<Rightarrow> timer" where
  "init_alarm tm = tm\<lparr>alarm_free := Some 0, alarm_queue := None,
     alarm_pool := fold (\<lambda>i. upd_at i (a_next_update (\<lambda>_. Some (i + 1)))) [0..<NR_PROCESS - 1] (alarm_pool tm)\<rparr>"

text \<open>The loop of \<open>new_alarm\<close>: from \<open>cnt\<close>, with \<open>rem\<close> the ticks left of the new alarm; it
  returns the entry to insert after and what is left there.\<close>

partial_function (option) alarm_place :: "nat \<Rightarrow> int \<Rightarrow> alarm list \<Rightarrow> (nat \<times> int) option" where
  "alarm_place cnt rem pool =
     (let rem = i32 (rem - remain_time (pool ! cnt)) in
      case a_next (pool ! cnt) of
        None \<Rightarrow> Some (cnt, rem)
      | Some n \<Rightarrow> (if remain_time (pool ! n) > rem then Some (cnt, rem) else alarm_place n rem pool))"

text \<open>The end of \<open>new_alarm\<close>: \<open>if (ptr -> next != NULL) ptr -> next -> remain_time -= ...\<close>\<close>

definition shorten_next :: "nat \<Rightarrow> alarm list \<Rightarrow> alarm list" where
  "shorten_next ptr pool =
     (case a_next (pool ! ptr) of
        None \<Rightarrow> pool
      | Some n \<Rightarrow> upd_at n (\<lambda>a. a\<lparr>remain_time := i32 (remain_time a - remain_time (pool ! ptr))\<rparr>) pool)"

definition new_alarm :: "int \<Rightarrow> int \<Rightarrow> timer \<Rightarrow> (error + timer) option" where
  "new_alarm pid second tm =
     (case alarm_free tm of
        None \<Rightarrow> Some (Inl (Fault ''alarm_free -> next''))
      | Some ptr \<Rightarrow>
          (let time = i32 (second * 100);
               tm = tm\<lparr>alarm_free := a_next (alarm_pool tm ! ptr)\<rparr>;
               pool = upd_at ptr (\<lambda>a. a\<lparr>remain_time := time, a_pid := pid\<rparr>) (alarm_pool tm)
           in if alarm_queue tm = None
                 \<or> remain_time (pool ! ptr) < remain_time (pool ! the (alarm_queue tm))
              then
                let pool = upd_at ptr (a_next_update (\<lambda>_. alarm_queue tm)) pool
                in Some (Inr (tm\<lparr>alarm_queue := Some ptr, alarm_pool := shorten_next ptr pool\<rparr>))
              else
                (case alarm_place (the (alarm_queue tm)) time pool of
                   None \<Rightarrow> None
                 | Some (cnt, rem) \<Rightarrow>
                     let pool = upd_at ptr (\<lambda>a. a\<lparr>remain_time := rem, a_next := a_next (pool ! cnt)\<rparr>) pool;
                         pool = upd_at cnt (a_next_update (\<lambda>_. Some ptr)) pool
                     in Some (Inr (tm\<lparr>alarm_pool := shorten_next ptr pool\<rparr>)))))"

definition pop_alarm :: "timer \<Rightarrow> error + timer" where
  "pop_alarm tm =
     bindE (deref ''alarm_queue -> next'' (alarm_queue tm)) (\<lambda>ptr.
       let tm = tm\<lparr>alarm_queue := a_next (alarm_pool tm ! ptr)\<rparr>;
           tm = tm\<lparr>alarm_pool := upd_at ptr (a_next_update (\<lambda>_. alarm_free tm)) (alarm_pool tm)\<rparr>
       in Inr (tm\<lparr>alarm_free := Some ptr\<rparr>))"

text \<open>\<open>while (alarm_queue != NULL && alarm_queue -> remain_time <= 0)\<close> of \<open>timer_intr\<close>.\<close>

partial_function (option) fire_alarms :: "sys \<times> timer \<Rightarrow> (error + sys \<times> timer) option" where
  "fire_alarms x =
     (case alarm_queue (snd x) of
        None \<Rightarrow> Some (Inr x)
      | Some h \<Rightarrow>
          (if remain_time (alarm_pool (snd x) ! h) \<le> 0 then
             (let m = (intr_m (snd x))\<lparr>m_type := TIMER_ALRM_FIRE,
                        m_w0 := word_of_int (a_pid (alarm_pool (snd x) ! h))\<rparr>;
                  tm = (snd x)\<lparr>intr_m := m\<rparr>
              in case bindE (send (TIMER tm) m (fst x)) (\<lambda>s. bindE (pop_alarm tm) (\<lambda>tm. Inr (s, tm))) of
                   Inl e \<Rightarrow> Some (Inl e)
                 | Inr y \<Rightarrow> fire_alarms y)
           else Some (Inr x)))"

text \<open>The accounting of time slices at the start of \<open>timer_intr\<close>.\<close>

definition time_slice :: "sys \<Rightarrow> sys" where
  "time_slice s =
     (let s = upd_proc (current_pcb s) (time_elapsed_update (\<lambda>n. n + 1)) s
      in if time_elapsed (proc s (current_pcb s)) mod NR_PROC_TIME = 0 then s\<lparr>need_sched := True\<rparr> else s)"

definition timer_intr :: "sys \<times> timer \<Rightarrow> (error + sys \<times> timer) option" where
  "timer_intr x =
     (let (s, tm) = x; s = time_slice s
      in case alarm_queue tm of
           None \<Rightarrow> Some (Inr (s, tm))
         | Some h \<Rightarrow>
             fire_alarms (s, tm\<lparr>alarm_pool := upd_at h (\<lambda>a. a\<lparr>remain_time := i32 (remain_time a - 1)\<rparr>) (alarm_pool tm)\<rparr>))"

text \<open>One round of \<open>timer_driver_thread\<close>: what it does with the message it received.\<close>

definition timer_driver_message :: "message \<Rightarrow> sys \<times> timer \<Rightarrow> (error + sys \<times> timer) option" where
  "timer_driver_message m x =
     (if m_type m = TIMER_SET_ALRM then
        (let s = lock (fst x) in
         case new_alarm (sint (int_p1 m)) (sint (int_p2 m)) (snd x) of
           None \<Rightarrow> None
         | Some r \<Rightarrow> Some (bindE r (\<lambda>tm. Inr (unlock s, tm))))
      else if m_type m = TIMER_ALRM_FIRE then
        Some (bindE (send (sint (int_p1 m)) (m\<lparr>m_type := -1\<rparr>) (fst x)) (\<lambda>s. Inr (s, snd x)))
      else Some (Inr x))"

section \<open>Alarms with their deadlines\<close>

text \<open>What the queue means at time \<open>now\<close>, and inserting by deadline, after equal ones.\<close>

fun deadlines :: "int \<Rightarrow> (int \<times> int) list \<Rightarrow> (int \<times> int) list" where
  "deadlines now [] = []"
| "deadlines now ((p, r) # q) = (p, now + r) # deadlines (now + r) q"

definition set_alarm :: "int \<Rightarrow> int \<Rightarrow> (int \<times> int) list \<Rightarrow> (int \<times> int) list" where
  "set_alarm pid t q = takeWhile (\<lambda>a. snd a \<le> t) q @ (pid, t) # dropWhile (\<lambda>a. snd a \<le> t) q"

fun less_ticks :: "int \<Rightarrow> (int \<times> int) list \<Rightarrow> (int \<times> int) list" where
  "less_ticks d [] = []"
| "less_ticks d ((p, r) # q) = (p, r - d) # q"

lemma deadlines_append:
  "deadlines now (A @ B) = deadlines now A @ deadlines (now + sum_list (map snd A)) B"
  by (induction now A rule: deadlines.induct) (auto simp: add.assoc)

lemma deadlines_le:
  "list_all (\<lambda>a. 0 \<le> snd a) A \<Longrightarrow> a \<in> set (deadlines now A) \<Longrightarrow> snd a \<le> now + sum_list (map snd A)"
proof (induction now A rule: deadlines.induct)
  case (2 now p r q)
  have "0 \<le> sum_list (map snd q)" using 2(2) by (induction q) auto
  with 2 show ?case by auto
qed simp

lemma deadlines_less_ticks: "deadlines (now + d) (less_ticks d B) = deadlines now B"
  by (cases B) (auto simp: algebra_simps)

lemma deadlines_insert:
  assumes "list_all (\<lambda>a. 0 \<le> snd a) A" "0 \<le> rem" "B = [] \<or> rem < snd (hd B)"
  shows "deadlines now (A @ (pid, rem) # less_ticks rem B)
    = set_alarm pid (now + (sum_list (map snd A) + rem)) (deadlines now (A @ B))"
proof -
  let ?S = "now + sum_list (map snd A)" and ?t = "now + (sum_list (map snd A) + rem)"
  have "\<forall>a \<in> set (deadlines now A). snd a \<le> ?t"
    using deadlines_le [OF assms(1)] assms(2) by fastforce
  moreover have "deadlines ?S B = [] \<or> \<not> snd (hd (deadlines ?S B)) \<le> ?t"
    using assms(3) by (cases B) auto
  then have "takeWhile (\<lambda>a. snd a \<le> ?t) (deadlines ?S B) = []"
      "dropWhile (\<lambda>a. snd a \<le> ?t) (deadlines ?S B) = deadlines ?S B"
    by (cases "deadlines ?S B"; auto)+
  ultimately have "set_alarm pid ?t (deadlines now (A @ B)) = deadlines now A @ (pid, ?t) # deadlines ?S B"
    by (simp add: set_alarm_def deadlines_append)
  moreover have "deadlines ?t (less_ticks rem B) = deadlines ?S B"
    using deadlines_less_ticks [of ?S rem B] by (simp add: add.assoc)
  ultimately show ?thesis
    by (simp add: deadlines_append add.assoc)
qed

section \<open>The queue in the pool\<close>

definition alarms :: "alarm list \<Rightarrow> nat list \<Rightarrow> (int \<times> int) list" where
  "alarms pool Q = map (\<lambda>i. (a_pid (pool ! i), remain_time (pool ! i))) Q"

lemma alarms_simps [simp]:
  "alarms pool [] = []"
  "alarms pool (i # Q) = (a_pid (pool ! i), remain_time (pool ! i)) # alarms pool Q"
  "alarms pool (Q @ Q') = alarms pool Q @ alarms pool Q'"
  by (simp_all add: alarms_def)

lemma alarms_cong:
  "(\<And>i. i \<in> set Q \<Longrightarrow> a_pid (pool' ! i) = a_pid (pool ! i) \<and> remain_time (pool' ! i) = remain_time (pool ! i))
   \<Longrightarrow> alarms pool' Q = alarms pool Q"
  by (simp add: alarms_def)

definition delay_ok :: "int \<Rightarrow> bool" where "delay_ok r \<longleftrightarrow> 0 \<le> r \<and> r < 2 ^ 31"

text \<open>\<open>Q\<close> is the queue, \<open>F\<close> the free list; in a good state no delay is negative.\<close>

definition timer_shape :: "timer \<Rightarrow> nat list \<Rightarrow> nat list \<Rightarrow> bool" where
  "timer_shape tm Q F \<longleftrightarrow> length (alarm_pool tm) = NR_PROCESS
     \<and> chain (\<lambda>i. a_next (alarm_pool tm ! i)) (alarm_queue tm) Q
     \<and> chain (\<lambda>i. a_next (alarm_pool tm ! i)) (alarm_free tm) F
     \<and> set (Q @ F) \<subseteq> {..<NR_PROCESS} \<and> set Q \<inter> set F = {}"

definition timer_ok :: "timer \<Rightarrow> nat list \<Rightarrow> nat list \<Rightarrow> bool" where
  "timer_ok tm Q F \<longleftrightarrow> timer_shape tm Q F \<and> list_all (\<lambda>a. delay_ok (snd a)) (alarms (alarm_pool tm) Q)"

lemma timer_shapeD:
  assumes "timer_shape tm Q F"
  shows "length (alarm_pool tm) = NR_PROCESS"
    "chain (\<lambda>i. a_next (alarm_pool tm ! i)) (alarm_queue tm) Q"
    "chain (\<lambda>i. a_next (alarm_pool tm ! i)) (alarm_free tm) F"
    "\<And>i. i \<in> set Q \<Longrightarrow> i < NR_PROCESS" "\<And>i. i \<in> set F \<Longrightarrow> i < NR_PROCESS"
    "\<And>i. i \<in> set Q \<Longrightarrow> i \<notin> set F" "distinct Q" "distinct F"
  using assms chain_distinct unfolding timer_shape_def by (blast | force)+

lemma timer_okD:
  assumes "timer_ok tm Q F"
  shows "length (alarm_pool tm) = NR_PROCESS"
    "chain (\<lambda>i. a_next (alarm_pool tm ! i)) (alarm_queue tm) Q"
    "chain (\<lambda>i. a_next (alarm_pool tm ! i)) (alarm_free tm) F"
    "\<And>i. i \<in> set Q \<Longrightarrow> i < NR_PROCESS" "\<And>i. i \<in> set F \<Longrightarrow> i < NR_PROCESS"
    "\<And>i. i \<in> set Q \<Longrightarrow> i \<notin> set F" "\<And>i. i \<in> set Q \<Longrightarrow> delay_ok (remain_time (alarm_pool tm ! i))"
    "distinct Q" "distinct F"
proof -
  have sh: "timer_shape tm Q F" using assms by (simp add: timer_ok_def)
  note k = timer_shapeD [OF sh]
  show "length (alarm_pool tm) = NR_PROCESS"
    "chain (\<lambda>i. a_next (alarm_pool tm ! i)) (alarm_queue tm) Q"
    "chain (\<lambda>i. a_next (alarm_pool tm ! i)) (alarm_free tm) F"
    "\<And>i. i \<in> set Q \<Longrightarrow> i < NR_PROCESS" "\<And>i. i \<in> set F \<Longrightarrow> i < NR_PROCESS"
    "\<And>i. i \<in> set Q \<Longrightarrow> i \<notin> set F" "distinct Q" "distinct F" by (fact k)+
  show "delay_ok (remain_time (alarm_pool tm ! i))" if "i \<in> set Q" for i
    using assms that by (auto simp: timer_ok_def alarms_def list_all_iff)
qed

lemma i32_delay: "delay_ok r \<Longrightarrow> delay_ok d \<Longrightarrow> i32 (r - d) = r - d"
  by (rule i32_id) (auto simp: delay_ok_def)

text \<open>The place the loop of \<open>new_alarm\<close> finds.\<close>

lemma alarm_place_spec:
  assumes "chain (\<lambda>i. a_next (pool ! i)) (Some c) (c # ys)"
    and "\<And>i. i \<in> set (c # ys) \<Longrightarrow> delay_ok (remain_time (pool ! i))"
    and "delay_ok rem" "remain_time (pool ! c) \<le> rem"
  shows "\<exists>xs c' zs rem'. alarm_place c rem pool = Some (c', rem') \<and> c # ys = xs @ c' # zs
    \<and> rem = sum_list (map snd (alarms pool (xs @ [c']))) + rem' \<and> delay_ok rem'
    \<and> (zs = [] \<or> rem' < remain_time (pool ! hd zs))"
  using assms
proof (induction ys arbitrary: c rem)
  case Nil
  let ?r = "rem - remain_time (pool ! c)"
  have r: "i32 ?r = ?r" "delay_ok ?r" using Nil(2) [of c] Nil(3,4) i32_delay by (auto simp: delay_ok_def)
  have "alarm_place c rem pool = Some (c, ?r)"
    using Nil(1) r by (subst alarm_place.simps) simp
  then show ?case using r(2) by (intro exI [of _ "[]"] exI [of _ c] exI [of _ ?r]) simp
next
  case (Cons y ys)
  let ?r = "rem - remain_time (pool ! c)"
  have r: "i32 ?r = ?r" "delay_ok ?r"
    using Cons.prems(2) [of c] Cons.prems(3,4) i32_delay by (auto simp: delay_ok_def)
  have nx: "a_next (pool ! c) = Some y" using Cons.prems(1) by simp
  show ?case
  proof (cases "remain_time (pool ! y) > ?r")
    case True
    then have "alarm_place c rem pool = Some (c, ?r)"
      using nx r by (subst alarm_place.simps) simp
    then show ?thesis using r(2) True
      by (intro exI [of _ "[]"] exI [of _ c] exI [of _ "y # ys"] exI [of _ ?r]) simp
  next
    case False
    then have eq: "alarm_place c rem pool = alarm_place y ?r pool"
      using nx r by (subst alarm_place.simps) simp
    have "chain (\<lambda>i. a_next (pool ! i)) (Some y) (y # ys)" using Cons.prems(1) by simp
    then obtain xs c' zs rem' where "alarm_place y ?r pool = Some (c', rem')" "y # ys = xs @ c' # zs"
      "?r = sum_list (map snd (alarms pool (xs @ [c']))) + rem'" "delay_ok rem'"
      "zs = [] \<or> rem' < remain_time (pool ! hd zs)"
      using Cons.IH [of y ?r] Cons.prems(2) r(2) False by auto
    then show ?thesis unfolding eq
      by (intro exI [of _ "c # xs"] exI [of _ c'] exI [of _ zs] exI [of _ rem']) auto
  qed
qed

lemma shorten_next_spec:
  assumes "distinct (ptr # zs)" "\<forall>i \<in> set (ptr # zs). i < length pool"
    and "a_next (pool ! ptr) = (case zs of [] \<Rightarrow> None | z # _ \<Rightarrow> Some z)"
    and "\<forall>i \<in> set (ptr # zs). delay_ok (remain_time (pool ! i))"
    and "zs = [] \<or> remain_time (pool ! ptr) \<le> remain_time (pool ! hd zs)"
  shows "length (shorten_next ptr pool) = length pool"
    "a_next (shorten_next ptr pool ! i) = a_next (pool ! i)"
    "i \<notin> set zs \<Longrightarrow> shorten_next ptr pool ! i = pool ! i"
    "alarms (shorten_next ptr pool) zs = less_ticks (remain_time (pool ! ptr)) (alarms pool zs)"
    "i \<in> set zs \<Longrightarrow> delay_ok (remain_time (shorten_next ptr pool ! i))"
proof -
  have i32: "i32 (remain_time (pool ! hd zs) - remain_time (pool ! ptr)) = remain_time (pool ! hd zs) - remain_time (pool ! ptr)"
    if "zs \<noteq> []" using that assms(4) by (intro i32_delay) auto
  show "length (shorten_next ptr pool) = length pool"
    by (simp add: shorten_next_def split: option.splits)
  have "a_next (upd_at j (\<lambda>a. a\<lparr>remain_time := f a\<rparr>) pool ! i) = a_next (pool ! i)" for j f
    by (cases "j < length pool"; cases "i = j") (simp_all add: upd_at_def list_update_beyond)
  then show "a_next (shorten_next ptr pool ! i) = a_next (pool ! i)"
    by (simp add: shorten_next_def split: option.splits)
  show "i \<notin> set zs \<Longrightarrow> shorten_next ptr pool ! i = pool ! i"
    using assms(3) by (cases zs) (auto simp: shorten_next_def)
  show "alarms (shorten_next ptr pool) zs = less_ticks (remain_time (pool ! ptr)) (alarms pool zs)"
    using assms(1,2,3) i32 by (cases zs) (auto simp: shorten_next_def alarms_def nth_upd_at)
  have "delay_ok (remain_time (pool ! hd zs) - remain_time (pool ! ptr))" if "zs \<noteq> []"
    using that assms(4,5) by (cases zs) (auto simp: delay_ok_def)
  then show "i \<in> set zs \<Longrightarrow> delay_ok (remain_time (shorten_next ptr pool ! i))"
    using assms(1-4) i32 by (cases zs) (auto simp: shorten_next_def nth_upd_at)
qed

text \<open>Linking the new alarm \<open>n\<close> with delay \<open>rem\<close> between \<open>xs\<close> and \<open>zs\<close>.\<close>

lemma link_alarm:
  assumes Q: "chain (\<lambda>i. a_next (pool ! i)) hq (xs @ zs)" "\<And>i. i \<in> set (xs @ zs) \<Longrightarrow> delay_ok (remain_time (pool ! i))"
    and n: "n \<notin> set (xs @ zs)" "n < length pool" and lt: "\<And>i. i \<in> set (xs @ zs) \<Longrightarrow> i < length pool"
    and rem: "delay_ok rem" "zs = [] \<or> rem \<le> remain_time (pool ! hd zs)"
    and pool1: "length pool1 = length pool"
      "pool1 ! n = \<lparr>a_pid = pid, remain_time = rem, a_next = (case zs of [] \<Rightarrow> None | z # _ \<Rightarrow> Some z)\<rparr>"
      "\<And>i. i \<noteq> n \<Longrightarrow> a_pid (pool1 ! i) = a_pid (pool ! i) \<and> remain_time (pool1 ! i) = remain_time (pool ! i)"
    and nx: "\<And>i. i \<noteq> n \<Longrightarrow> a_next (pool1 ! i) = (if xs \<noteq> [] \<and> i = last xs then Some n else a_next (pool ! i))"
  shows "chain (\<lambda>i. a_next (shorten_next n pool1 ! i)) (if xs = [] then Some n else hq) (xs @ n # zs)"
    "alarms (shorten_next n pool1) (xs @ n # zs) = alarms pool xs @ (pid, rem) # less_ticks rem (alarms pool zs)"
    "\<And>i. i \<in> set (xs @ n # zs) \<Longrightarrow> delay_ok (remain_time (shorten_next n pool1 ! i))"
proof -
  have d: "distinct (xs @ zs)" using chain_distinct [OF Q(1)] .
  have sh: "distinct (n # zs)" "\<forall>i \<in> set (n # zs). i < length pool1"
    "a_next (pool1 ! n) = (case zs of [] \<Rightarrow> None | z # _ \<Rightarrow> Some z)"
    using d n lt pool1(1,2) by auto
  have dl: "\<forall>i \<in> set (n # zs). delay_ok (remain_time (pool1 ! i))"
  proof
    fix i assume "i \<in> set (n # zs)"
    then show "delay_ok (remain_time (pool1 ! i))"
      using pool1(2) pool1(3) [of i] Q(2) [of i] rem(1) by (cases "i = n") auto
  qed
  have "zs = [] \<or> remain_time (pool1 ! n) \<le> remain_time (pool1 ! hd zs)"
    using rem(2) pool1(2,3) n(1) by (cases zs) auto
  note sp = shorten_next_spec [OF sh dl this]
  have nx': "a_next (shorten_next n pool1 ! i) = a_next (pool1 ! i)" for i by (rule sp(2))
  have zs: "a_next (pool1 ! n) = (if xs = [] then hq else a_next (pool ! last xs))"
  proof (cases "xs = []")
    case True
    then show ?thesis using Q(1) pool1(2) by (cases zs) auto
  next
    case False
    then have "xs @ zs = butlast xs @ last xs # zs" by simp
    then have "chain (\<lambda>i. a_next (pool ! i)) (a_next (pool ! last xs)) zs" using Q(1) chain_drop by metis
    then show ?thesis using False pool1(2) chain_head by fastforce
  qed
  show "chain (\<lambda>i. a_next (shorten_next n pool1 ! i)) (if xs = [] then Some n else hq) (xs @ n # zs)"
  proof (cases "xs = []")
    case True
    have "chain (\<lambda>i. a_next (pool1 ! i)) hq zs"
    proof (rule chain_cong)
      show "chain (\<lambda>i. a_next (pool ! i)) hq zs" using Q(1) True by simp
      show "a_next (pool1 ! x) = a_next (pool ! x)" if "x \<in> set zs" for x
        using nx [of x] n(1) True that by auto
    qed
    then show ?thesis unfolding nx' using True zs by simp
  next
    case False
    then have xs: "butlast xs @ last xs # l = xs @ l" for l by simp
    have "chain (\<lambda>i. a_next (pool1 ! i)) hq (butlast xs @ last xs # n # zs)"
    proof (rule chain_insert_after)
      show "chain (\<lambda>i. a_next (pool ! i)) hq (butlast xs @ last xs # zs)" unfolding xs by (rule Q(1))
      show "n \<notin> set (butlast xs @ last xs # zs)" unfolding xs by (rule n(1))
      show "a_next (pool1 ! n) = a_next (pool ! last xs)" using zs False by simp
      show "a_next (pool1 ! last xs) = Some n" using nx [of "last xs"] n(1) False by fastforce
      show "a_next (pool1 ! x) = a_next (pool ! x)" if "x \<noteq> n" "x \<noteq> last xs" for x
        using nx that by simp
    qed
    then show ?thesis unfolding nx' xs using False by simp
  qed
  have "alarms (shorten_next n pool1) xs = alarms pool xs"
  proof (rule alarms_cong)
    fix i assume "i \<in> set xs"
    then have "i \<noteq> n" "i \<notin> set zs" using d n(1) by auto
    then show "a_pid (shorten_next n pool1 ! i) = a_pid (pool ! i)
        \<and> remain_time (shorten_next n pool1 ! i) = remain_time (pool ! i)"
      using pool1(3) sp(3) by simp
  qed
  moreover have "alarms (shorten_next n pool1) zs = less_ticks rem (alarms pool zs)"
  proof -
    have "alarms pool1 zs = alarms pool zs" using n(1) by (intro alarms_cong pool1(3)) auto
    then show ?thesis using sp(4) pool1(2) by simp
  qed
  ultimately show "alarms (shorten_next n pool1) (xs @ n # zs) = alarms pool xs @ (pid, rem) # less_ticks rem (alarms pool zs)"
    using sp(3) [of n] sh(1) pool1(2) by simp
  show "delay_ok (remain_time (shorten_next n pool1 ! i))" if "i \<in> set (xs @ n # zs)" for i
  proof (cases "i \<in> set zs")
    case True
    then show ?thesis using sp(5) by simp
  next
    case False
    then show ?thesis
      using sp(3) [OF False] that pool1(2) pool1(3) [of i] rem(1) Q(2) [of i] by (cases "i = n") auto
  qed
qed

section \<open>Setting an alarm\<close>

lemma timer_okI:
  assumes "length (alarm_pool tm) = NR_PROCESS"
    "chain (\<lambda>i. a_next (alarm_pool tm ! i)) (alarm_queue tm) Q"
    "chain (\<lambda>i. a_next (alarm_pool tm ! i)) (alarm_free tm) F"
    "set (Q @ F) \<subseteq> {..<NR_PROCESS}" "set Q \<inter> set F = {}"
    "\<And>i. i \<in> set Q \<Longrightarrow> delay_ok (remain_time (alarm_pool tm ! i))"
  shows "timer_ok tm Q F"
  using assms by (simp add: timer_ok_def timer_shape_def alarms_def list_all_iff)

text \<open>The links of the pool survive \<open>shorten_next\<close>.\<close>

lemma shorten_next_links:
  "length (shorten_next n pool) = length pool" "a_next (shorten_next n pool ! i) = a_next (pool ! i)"
proof -
  show "length (shorten_next n pool) = length pool" by (simp add: shorten_next_def split: option.splits)
  have "a_next (upd_at j (\<lambda>a. a\<lparr>remain_time := f a\<rparr>) pool ! i) = a_next (pool ! i)" for j f
    by (cases "j < length pool"; cases "i = j") (simp_all add: upd_at_def list_update_beyond)
  then show "a_next (shorten_next n pool ! i) = a_next (pool ! i)"
    by (simp add: shorten_next_def split: option.splits)
qed

text \<open>A timer in which the entry \<open>n\<close> moved from the free list into the queue.\<close>

definition linked_in :: "timer \<Rightarrow> nat \<Rightarrow> int \<Rightarrow> int \<Rightarrow> nat list \<Rightarrow> nat list \<Rightarrow> alarm list \<Rightarrow> bool" where
  "linked_in tm n pid rem xs zs pool1 \<longleftrightarrow> length pool1 = length (alarm_pool tm)
     \<and> pool1 ! n = \<lparr>a_pid = pid, remain_time = rem, a_next = (case zs of [] \<Rightarrow> None | z # _ \<Rightarrow> Some z)\<rparr>
     \<and> (\<forall>i. i \<noteq> n \<longrightarrow> a_pid (pool1 ! i) = a_pid (alarm_pool tm ! i)
          \<and> remain_time (pool1 ! i) = remain_time (alarm_pool tm ! i)
          \<and> a_next (pool1 ! i) = (if xs \<noteq> [] \<and> i = last xs then Some n else a_next (alarm_pool tm ! i)))"

definition with_alarm :: "timer \<Rightarrow> nat \<Rightarrow> nat list \<Rightarrow> alarm list \<Rightarrow> timer" where
  "with_alarm tm n xs pool1 = tm\<lparr>alarm_free := a_next (alarm_pool tm ! n),
     alarm_queue := (if xs = [] then Some n else alarm_queue tm), alarm_pool := shorten_next n pool1\<rparr>"

lemma with_alarm_ok:
  assumes ok: "timer_ok tm (xs @ zs) (n # F)" and rem: "delay_ok rem" "zs = [] \<or> rem < remain_time (alarm_pool tm ! hd zs)"
    and p: "linked_in tm n pid rem xs zs pool1"
  shows "timer_ok (with_alarm tm n xs pool1) (xs @ n # zs) F"
    "deadlines now (alarms (alarm_pool (with_alarm tm n xs pool1)) (xs @ n # zs))
      = set_alarm pid (now + (sum_list (map snd (alarms (alarm_pool tm) xs)) + rem))
          (deadlines now (alarms (alarm_pool tm) (xs @ zs)))"
proof -
  note k = timer_okD [OF ok]
  have n: "n \<notin> set (xs @ zs)" "n < length (alarm_pool tm)" "n \<notin> set F" using k(1,5,6,9) by auto
  have lt: "\<And>i. i \<in> set (xs @ zs) \<Longrightarrow> i < length (alarm_pool tm)" using k(1,4) by simp
  have rem': "zs = [] \<or> rem \<le> remain_time (alarm_pool tm ! hd zs)" using rem(2) by auto
  have p1: "length pool1 = length (alarm_pool tm)"
      "pool1 ! n = \<lparr>a_pid = pid, remain_time = rem, a_next = (case zs of [] \<Rightarrow> None | z # _ \<Rightarrow> Some z)\<rparr>"
      "\<And>i. i \<noteq> n \<Longrightarrow> a_pid (pool1 ! i) = a_pid (alarm_pool tm ! i) \<and> remain_time (pool1 ! i) = remain_time (alarm_pool tm ! i)"
      "\<And>i. i \<noteq> n \<Longrightarrow> a_next (pool1 ! i) = (if xs \<noteq> [] \<and> i = last xs then Some n else a_next (alarm_pool tm ! i))"
    using p unfolding linked_in_def by blast+
  note L = link_alarm [OF k(2,7) n(1,2) lt rem(1) rem' p1]
  have "chain (\<lambda>i. a_next (alarm_pool tm ! i)) (a_next (alarm_pool tm ! n)) F" using k(3) by simp
  then have "chain (\<lambda>i. a_next (shorten_next n pool1 ! i)) (a_next (alarm_pool tm ! n)) F"
  proof (rule chain_cong)
    fix x assume x: "x \<in> set F"
    then have "x \<noteq> n" "xs = [] \<or> x \<noteq> last xs" using n(3) k(6) last_in_set [of xs] by auto
    then show "a_next (shorten_next n pool1 ! x) = a_next (alarm_pool tm ! x)"
      unfolding shorten_next_links using p1(4) [of x] by auto
  qed
  then show "timer_ok (with_alarm tm n xs pool1) (xs @ n # zs) F"
    using L(1,3) k(1,4,5,6) n(3) p1(1)
    by (intro timer_okI) (auto simp: with_alarm_def shorten_next_links)
  show "deadlines now (alarms (alarm_pool (with_alarm tm n xs pool1)) (xs @ n # zs))
      = set_alarm pid (now + (sum_list (map snd (alarms (alarm_pool tm) xs)) + rem))
          (deadlines now (alarms (alarm_pool tm) (xs @ zs)))"
  proof -
    have "list_all (\<lambda>a. 0 \<le> snd a) (alarms (alarm_pool tm) xs)"
      using k(7) by (auto simp: alarms_def list_all_iff delay_ok_def)
    moreover have "alarms (alarm_pool tm) zs = [] \<or> rem < snd (hd (alarms (alarm_pool tm) zs))"
      using rem(2) by (cases zs) auto
    ultimately show ?thesis
      using deadlines_insert [of "alarms (alarm_pool tm) xs" rem] rem(1) L(2)
      by (simp add: with_alarm_def delay_ok_def del: alarms_simps(2))
  qed
qed

text \<open>Where \<open>new_alarm\<close> links it in.\<close>

lemma new_alarm_links:
  assumes ok: "timer_ok tm Q (n # F)" and sec: "delay_ok (second * 100)"
  obtains xs zs rem pool1 where "new_alarm pid second tm = Some (Inr (with_alarm tm n xs pool1))"
    "Q = xs @ zs" "linked_in tm n pid rem xs zs pool1" "delay_ok rem"
    "zs = [] \<or> rem < remain_time (alarm_pool tm ! hd zs)"
    "second * 100 = sum_list (map snd (alarms (alarm_pool tm) xs)) + rem"
proof -
  note k = timer_okD [OF ok]
  let ?pool = "alarm_pool tm" and ?time = "second * 100"
  have nQ: "n \<notin> set Q" "n < length ?pool" using k(1,5,6) by auto
  have time: "i32 ?time = ?time" using sec by (intro i32_id) (auto simp: delay_ok_def)
  have free: "alarm_free tm = Some n" using k(3) by auto
  define pool0 where "pool0 = upd_at n (\<lambda>a. a\<lparr>remain_time := ?time, a_pid := pid\<rparr>) ?pool"
  have p0: "length pool0 = length ?pool" "\<And>i. i \<noteq> n \<Longrightarrow> pool0 ! i = ?pool ! i"
      "remain_time (pool0 ! n) = ?time" "a_pid (pool0 ! n) = pid"
    using nQ by (simp_all add: pool0_def)
  show thesis
  proof (cases "Q = [] \<or> ?time < remain_time (?pool ! hd Q)")
    case True
    have hq: "alarm_queue tm = (case Q of [] \<Rightarrow> None | z # _ \<Rightarrow> Some z)" using k(2) chain_head by fast
    let ?pool1 = "upd_at n (a_next_update (\<lambda>_. alarm_queue tm)) pool0"
    have "alarm_queue tm = None \<or> remain_time (pool0 ! n) < remain_time (pool0 ! the (alarm_queue tm))"
      using True hq p0(2,3) nQ(1) by (cases Q) auto
    then have "new_alarm pid second tm = Some (Inr (with_alarm tm n [] ?pool1))"
      using free time by (simp add: new_alarm_def with_alarm_def Let_def pool0_def)
    moreover have "linked_in tm n pid ?time [] Q ?pool1"
      using p0 nQ(2) hq by (simp add: linked_in_def)
    ultimately show thesis using True sec by (intro that [of "[]" ?pool1 Q ?time]) simp_all
  next
    case False
    then obtain c ys where Q: "Q = c # ys" by (cases Q) auto
    have hq: "alarm_queue tm = Some c" using k(2) Q by simp
    have nq: "\<And>i. i \<in> set (c # ys) \<Longrightarrow> i \<noteq> n" using nQ(1) Q by auto
    have pe: "pool0 ! i = ?pool ! i" if "i \<in> set (c # ys)" for i
      by (rule p0(2)) (rule nq [OF that])
    have ch: "chain (\<lambda>i. a_next (?pool ! i)) (Some c) (c # ys)" using k(2) Q hq by simp
    have "chain (\<lambda>i. a_next (pool0 ! i)) (Some c) (c # ys)"
      by (rule chain_cong [OF ch]) (simp only: pe)
    moreover have "\<And>i. i \<in> set (c # ys) \<Longrightarrow> delay_ok (remain_time (pool0 ! i))" using k(7) Q by (simp only: pe)
    moreover have "remain_time (pool0 ! c) \<le> ?time" using False Q pe [of c] by simp
    ultimately obtain xs c' zs rem where pl: "alarm_place c ?time pool0 = Some (c', rem)" "c # ys = xs @ c' # zs"
      "?time = sum_list (map snd (alarms pool0 (xs @ [c']))) + rem" "delay_ok rem"
      "zs = [] \<or> rem < remain_time (pool0 ! hd zs)"
      using alarm_place_spec sec by metis
    have al: "alarms pool0 (xs @ [c']) = alarms ?pool (xs @ [c'])"
    proof (rule alarms_cong)
      fix i assume "i \<in> set (xs @ [c'])"
      then have "i \<in> set (c # ys)" unfolding pl(2) by auto
      then show "a_pid (pool0 ! i) = a_pid (?pool ! i) \<and> remain_time (pool0 ! i) = remain_time (?pool ! i)"
        by (simp only: pe)
    qed
    have c': "c' \<noteq> n" "c' < length ?pool" using nq pl(2) k(1,4) Q by auto
    have "chain (\<lambda>i. a_next (?pool ! i)) (a_next (?pool ! c')) zs"
      using k(2) Q pl(2) chain_drop by metis
    then have nxc: "a_next (?pool ! c') = (case zs of [] \<Rightarrow> None | z # _ \<Rightarrow> Some z)"
      by (rule chain_head)
    let ?pool1 = "upd_at c' (a_next_update (\<lambda>_. Some n))
      (upd_at n (\<lambda>a. a\<lparr>remain_time := rem, a_next := a_next (pool0 ! c')\<rparr>) pool0)"
    have "\<not> (alarm_queue tm = None \<or> remain_time (pool0 ! n) < remain_time (pool0 ! the (alarm_queue tm)))"
      using False Q hq p0(3) pe [of c] by simp
    then have "new_alarm pid second tm = Some (Inr (with_alarm tm n (xs @ [c']) ?pool1))"
      using free time hq pl(1) by (simp add: new_alarm_def with_alarm_def Let_def pool0_def)
    moreover have "linked_in tm n pid rem (xs @ [c']) zs ?pool1"
    proof -
      have n: "?pool1 ! n = \<lparr>a_pid = pid, remain_time = rem, a_next = a_next (?pool ! c')\<rparr>"
        using c' nQ(2) p0 by simp
      have c: "?pool1 ! c' = (?pool ! c')\<lparr>a_next := Some n\<rparr>" using c' p0 by simp
      have o: "?pool1 ! i = ?pool ! i" if "i \<noteq> n" "i \<noteq> c'" for i using that p0(2) by simp
      have "a_pid (?pool1 ! i) = a_pid (?pool ! i) \<and> remain_time (?pool1 ! i) = remain_time (?pool ! i)
          \<and> a_next (?pool1 ! i) = (if i = c' then Some n else a_next (?pool ! i))" if "i \<noteq> n" for i
        using c o [OF that] by (cases "i = c'") simp_all
      then show ?thesis unfolding linked_in_def n nxc using p0(1) by simp
    qed
    moreover have "zs = [] \<or> rem < remain_time (?pool ! hd zs)"
    proof (cases zs)
      case (Cons z zs')
      then have "z \<in> set (c # ys)" unfolding pl(2) by simp
      then show ?thesis using pl(5) pe [of z] Cons by simp
    qed simp
    moreover have "Q = (xs @ [c']) @ zs" using Q pl(2) by simp
    ultimately show thesis using that pl(3,4) unfolding al by blast
  qed
qed

lemma new_alarm_step:
  assumes "timer_ok tm Q (n # F)" "delay_ok (second * 100)"
  obtains tm' Q' where "new_alarm pid second tm = Some (Inr tm')" "timer_ok tm' Q' F" "TIMER tm' = TIMER tm"
    "\<And>now. deadlines now (alarms (alarm_pool tm') Q')
      = set_alarm pid (now + second * 100) (deadlines now (alarms (alarm_pool tm) Q))"
proof -
  obtain xs zs rem pool1 where L: "new_alarm pid second tm = Some (Inr (with_alarm tm n xs pool1))"
    "Q = xs @ zs" "linked_in tm n pid rem xs zs pool1" "delay_ok rem"
    "zs = [] \<or> rem < remain_time (alarm_pool tm ! hd zs)"
    "second * 100 = sum_list (map snd (alarms (alarm_pool tm) xs)) + rem"
    using new_alarm_links [OF assms] by metis
  note W = with_alarm_ok [OF assms(1) [unfolded L(2)] L(4,5,3)]
  show thesis
    by (rule that [OF L(1) W(1)]) (simp_all only: W(2) L(2,6), simp add: with_alarm_def)
qed

section \<open>Firing\<close>

fun send_fires :: "int \<Rightarrow> message \<Rightarrow> int list \<Rightarrow> sys \<Rightarrow> error + sys" where
  "send_fires t m [] s = Inr s"
| "send_fires t m (p # ps) s =
     bindE (send t (m\<lparr>m_type := TIMER_ALRM_FIRE, m_w0 := word_of_int p\<rparr>) s) (send_fires t m ps)"

lemma send_fires_msg:
  "send_fires t (m\<lparr>m_type := a, m_w0 := b\<rparr>) ps s = send_fires t m ps s"
  by (induction ps arbitrary: s) (simp_all add: bindE_def split: sum.splits)

lemma pop_alarm_shape:
  assumes ok: "timer_shape tm (h # Q) F"
  obtains tm' where "pop_alarm tm = Inr tm'" "timer_shape tm' Q (h # F)"
    "alarms (alarm_pool tm') Q = alarms (alarm_pool tm) Q" "TIMER tm' = TIMER tm" "intr_m tm' = intr_m tm"
proof -
  note k = timer_shapeD [OF ok]
  let ?pool = "alarm_pool tm"
  let ?pool' = "upd_at h (a_next_update (\<lambda>_. alarm_free tm)) ?pool"
  let ?tm' = "tm\<lparr>alarm_queue := a_next (?pool ! h), alarm_pool := ?pool', alarm_free := Some h\<rparr>"
  have h: "h \<notin> set Q" "h \<notin> set F" "h < length ?pool" using k(1,4,6,7) by auto
  have eq: "pop_alarm tm = Inr ?tm'" using k(2) by (simp add: pop_alarm_def Let_def)
  have at: "?pool' ! i = ?pool ! i" if "i \<noteq> h" for i using that by simp
  have cQ: "chain (\<lambda>i. a_next (?pool ! i)) (a_next (?pool ! h)) Q" using k(2) by simp
  have "chain (\<lambda>i. a_next (?pool' ! i)) (a_next (?pool ! h)) Q"
  proof (rule chain_cong [OF cQ])
    show "a_next (?pool' ! i) = a_next (?pool ! i)" if "i \<in> set Q" for i
      using at [of i] h(1) that by fastforce
  qed
  moreover have "chain (\<lambda>i. a_next (?pool' ! i)) (alarm_free tm) F"
  proof (rule chain_cong [OF k(3)])
    show "a_next (?pool' ! i) = a_next (?pool ! i)" if "i \<in> set F" for i
      using at [of i] h(2) that by fastforce
  qed
  moreover
  have same: "a_pid (?pool' ! i) = a_pid (?pool ! i) \<and> remain_time (?pool' ! i) = remain_time (?pool ! i)" for i
    using at [of i] h(3) by (cases "i = h") simp_all
  ultimately have "timer_shape ?tm' Q (h # F)"
    using h k(1,4,5,6) by (auto simp: timer_shape_def)
  moreover have "alarms ?pool' Q = alarms ?pool Q" using same by (rule alarms_cong)
  ultimately show thesis using that [OF eq] by simp
qed

lemma fire_alarms_spec:
  assumes "timer_shape tm Q F"
  shows "\<exists>tm' Q' F'. fire_alarms (s, tm) = Some (bindE
        (send_fires (TIMER tm) (intr_m tm) (map fst (takeWhile (\<lambda>a. snd a \<le> 0) (alarms (alarm_pool tm) Q))) s)
        (\<lambda>s. Inr (s, tm')))
    \<and> timer_shape tm' Q' F' \<and> TIMER tm' = TIMER tm
    \<and> alarms (alarm_pool tm') Q' = dropWhile (\<lambda>a. snd a \<le> 0) (alarms (alarm_pool tm) Q)"
  using assms
proof (induction Q arbitrary: s tm F)
  case Nil
  have "alarm_queue tm = None" using timer_shapeD(2) [OF Nil] by simp
  then have "fire_alarms (s, tm) = Some (Inr (s, tm))" by (subst fire_alarms.simps) simp
  then show ?case using Nil by (intro exI [of _ tm] exI [of _ "[]"] exI [of _ F]) simp
next
  case (Cons h Q)
  have hq: "alarm_queue tm = Some h" using timer_shapeD(2) [OF Cons.prems] by simp
  show ?case
  proof (cases "remain_time (alarm_pool tm ! h) \<le> 0")
    case False
    then have "fire_alarms (s, tm) = Some (Inr (s, tm))" using hq by (subst fire_alarms.simps) simp
    then show ?thesis using Cons.prems False
      by (intro exI [of _ tm] exI [of _ "h # Q"] exI [of _ F]) simp
  next
    case True
    let ?p = "a_pid (alarm_pool tm ! h)"
    let ?m = "(intr_m tm)\<lparr>m_type := TIMER_ALRM_FIRE, m_w0 := word_of_int ?p\<rparr>"
    let ?tm = "tm\<lparr>intr_m := ?m\<rparr>"
    have "timer_shape ?tm (h # Q) F" using Cons.prems by (simp add: timer_shape_def)
    then obtain tm1 where P: "pop_alarm ?tm = Inr tm1" "timer_shape tm1 Q (h # F)"
        "alarms (alarm_pool tm1) Q = alarms (alarm_pool tm) Q" "TIMER tm1 = TIMER tm" "intr_m tm1 = ?m"
      by (rule pop_alarm_shape) simp
    show ?thesis
    proof (cases "send (TIMER tm) ?m s")
      case (Inl e)
      then have "fire_alarms (s, tm) = Some (Inl e)" using hq True by (subst fire_alarms.simps) simp
      moreover obtain tm' Q' F' where "timer_shape tm' Q' F'" "TIMER tm' = TIMER tm"
          "alarms (alarm_pool tm') Q' = dropWhile (\<lambda>a. snd a \<le> 0) (alarms (alarm_pool tm) Q)"
        using Cons.IH [OF P(2), of s] unfolding P(3,4) by blast
      ultimately show ?thesis using Inl True by auto
    next
      case (Inr s1)
      then have "fire_alarms (s, tm) = fire_alarms (s1, tm1)"
        using hq True P(1) by (subst fire_alarms.simps) simp
      then show ?thesis using Cons.IH [OF P(2), of s1] P(3,4,5) Inr True by (simp add: send_fires_msg)
    qed
  qed
qed

section \<open>Properties of the timer\<close>

text \<open>Every alarm of the queue is still to come.\<close>

definition all_later :: "int \<Rightarrow> (int \<times> int) list \<Rightarrow> bool" where
  "all_later now q = list_all (\<lambda>a. now < snd a) (deadlines now q)"

lemma deadlines_sorted: "list_all (\<lambda>a. 0 \<le> snd a) q \<Longrightarrow> now < t \<Longrightarrow> list_all (\<lambda>a. now < snd a) (deadlines t q)"
  by (induction t q rule: deadlines.induct) auto

lemma deadlines_due:
  assumes "list_all (\<lambda>a. 0 \<le> snd a) q"
  shows "map fst (takeWhile (\<lambda>a. snd a \<le> 0) q) = map fst (takeWhile (\<lambda>a. snd a \<le> t) (deadlines t q))"
    "deadlines t (dropWhile (\<lambda>a. snd a \<le> 0) q) = dropWhile (\<lambda>a. snd a \<le> t) (deadlines t q)"
    "all_later t (dropWhile (\<lambda>a. snd a \<le> 0) q)"
  using assms
proof (induction q)
  case (Cons a q)
  obtain p r where a: "a = (p, r)" by fastforce
  {
    case 1
    then show ?case using Cons a by (cases "r = 0") auto
  next
    case 2
    then show ?case using Cons a by (cases "r = 0") auto
  next
    case 3
    then show ?case using Cons a deadlines_sorted [of q t "t + r"] by (cases "r = 0") (auto simp: all_later_def)
  }
qed (simp_all add: all_later_def)

text \<open>C13: Setting an alarm inserts it by its deadline, after the alarms with the same deadline,
  and leaves every other deadline as it is, although the queue only stores differences; it takes
  one entry of the free list. It holds for every delay whose hundredths fit an \<open>int_32\<close>.\<close>

theorem new_alarm_by_deadline:
  assumes "timer_ok tm Q (n # F)" "0 \<le> second" "second * 100 < 2 ^ 31"
  shows "\<exists>tm' Q'. new_alarm pid second tm = Some (Inr tm') \<and> timer_ok tm' Q' F
    \<and> (\<forall>now. deadlines now (alarms (alarm_pool tm') Q')
        = set_alarm pid (now + second * 100) (deadlines now (alarms (alarm_pool tm) Q)))"
  by (rule new_alarm_step [OF assms(1), of second pid]) (use assms(2,3) in \<open>auto simp: delay_ok_def\<close>)

lemma alarms_tick:
  assumes "distinct (h # Q)" "h < length pool"
    "i32 (remain_time (pool ! h) - 1) = remain_time (pool ! h) - 1"
  shows "alarms (upd_at h (\<lambda>a. a\<lparr>remain_time := i32 (remain_time a - 1)\<rparr>) pool) (h # Q)
    = less_ticks 1 (alarms pool (h # Q))"
proof -
  have "alarms (upd_at h f pool) Q = alarms pool Q" for f
  proof (rule alarms_cong)
    fix i assume "i \<in> set Q"
    then have "h \<noteq> i" using assms(1) by auto
    then show "a_pid (upd_at h f pool ! i) = a_pid (pool ! i) \<and> remain_time (upd_at h f pool ! i) = remain_time (pool ! i)"
      by simp
  qed
  then show ?thesis using assms by simp
qed

lemma timer_shape_tick:
  assumes "timer_shape tm Q F"
  shows "timer_shape (tm\<lparr>alarm_pool := upd_at h (\<lambda>a. a\<lparr>remain_time := f a\<rparr>) (alarm_pool tm)\<rparr>) Q F"
proof -
  have "a_next (upd_at h (\<lambda>a. a\<lparr>remain_time := f a\<rparr>) pool ! i) = a_next (pool ! i)" for i and pool :: "alarm list"
    by (cases "h < length pool"; cases "i = h") (simp_all add: upd_at_def list_update_beyond)
  then show ?thesis using assms by (simp add: timer_shape_def)
qed

lemma timer_intr_shape:
  assumes sh: "timer_shape tm (h # Q) F"
    and i: "i32 (remain_time (alarm_pool tm ! h) - 1) = remain_time (alarm_pool tm ! h) - 1"
  defines "B \<equiv> less_ticks 1 (alarms (alarm_pool tm) (h # Q))"
  shows "\<exists>tm' Q' F'. timer_intr (s, tm) = Some (bindE
        (send_fires (TIMER tm) (intr_m tm) (map fst (takeWhile (\<lambda>a. snd a \<le> 0) B)) (time_slice s))
        (\<lambda>s. Inr (s, tm')))
    \<and> timer_shape tm' Q' F' \<and> TIMER tm' = TIMER tm
    \<and> alarms (alarm_pool tm') Q' = dropWhile (\<lambda>a. snd a \<le> 0) B"
proof -
  note k = timer_shapeD [OF sh]
  have hq: "alarm_queue tm = Some h" using k(2) by simp
  let ?pool' = "upd_at h (\<lambda>a. a\<lparr>remain_time := i32 (remain_time a - 1)\<rparr>) (alarm_pool tm)"
  let ?tm = "tm\<lparr>alarm_pool := ?pool'\<rparr>"
  have al: "alarms (alarm_pool ?tm) (h # Q) = B"
    using alarms_tick [of h Q "alarm_pool tm"] k(1,4,7) i by (simp add: B_def)
  have "timer_intr (s, tm) = fire_alarms (time_slice s, ?tm)" using hq by (simp add: timer_intr_def)
  moreover have "timer_shape ?tm (h # Q) F" by (rule timer_shape_tick [OF sh])
  ultimately show ?thesis using fire_alarms_spec [of ?tm "h # Q" F "time_slice s"] unfolding al by simp
qed


section \<open>The initial timer and short sleeps\<close>

definition boot_timer :: timer where
  "boot_timer = init_alarm \<lparr>alarm_pool = replicate NR_PROCESS \<lparr>a_pid = 0, remain_time = 0, a_next = None\<rparr>,
     alarm_free = None, alarm_queue = None, intr_m = zero_message, TIMER = 0\<rparr>"

lemma init_alarm_next:
  assumes "length pool = NR_PROCESS" "m < NR_PROCESS"
  shows "length (fold (\<lambda>i. upd_at i (a_next_update (\<lambda>_. Some (i + 1)))) [0..<m] pool) = NR_PROCESS
    \<and> (\<forall>i < NR_PROCESS. a_next (fold (\<lambda>i. upd_at i (a_next_update (\<lambda>_. Some (i + 1)))) [0..<m] pool ! i)
        = (if i < m then Some (i + 1) else a_next (pool ! i)))"
  using assms(2)
proof (induction m)
  case (Suc m)
  then show ?case by (auto simp: nth_upd_at less_Suc_eq)
qed (use assms(1) in simp)

lemma chain_upt:
  assumes "\<And>i. Suc i < n \<Longrightarrow> nx i = Some (Suc i)" "nx (n - 1) = None" "k \<le> n" "0 < n"
  shows "chain nx (if k < n then Some k else None) [k..<n]"
  using assms(3)
proof (induction "n - k" arbitrary: k)
  case 0
  then show ?case by simp
next
  case (Suc d)
  then have "chain nx (if Suc k < n then Some (Suc k) else None) [Suc k..<n]" by simp
  moreover have "nx k = (if Suc k < n then Some (Suc k) else None)"
  proof (cases "Suc k < n")
    case False
    then have "k = n - 1" using Suc.hyps(2) by simp
    then show ?thesis using assms(2) False by simp
  qed (simp add: assms(1))
  ultimately show ?case using Suc.hyps(2) by (simp add: upt_conv_Cons)
qed

lemma boot_timer_ok: "timer_ok boot_timer [] [0..<NR_PROCESS]"
proof -
  let ?z = "\<lparr>a_pid = 0, remain_time = 0, a_next = None\<rparr> :: alarm"
  let ?pool = "fold (\<lambda>i. upd_at i (a_next_update (\<lambda>_. Some (i + 1)))) [0..<NR_PROCESS - 1] (replicate NR_PROCESS ?z)"
  have p: "length ?pool = NR_PROCESS"
    "\<And>i. i < NR_PROCESS \<Longrightarrow> a_next (?pool ! i) = (if i < NR_PROCESS - 1 then Some (i + 1) else a_next (replicate NR_PROCESS ?z ! i))"
    using init_alarm_next [of "replicate NR_PROCESS ?z" "NR_PROCESS - 1"] by (simp_all add: NR_PROCESS_def)
  have "chain (\<lambda>i. a_next (?pool ! i)) (if 0 < NR_PROCESS then Some 0 else None) [0..<NR_PROCESS]"
    by (rule chain_upt) (use p(2) in \<open>simp_all add: NR_PROCESS_def\<close>)
  then show ?thesis
    using p(1) by (intro timer_okI) (auto simp add: boot_timer_def init_alarm_def NR_PROCESS_def)
qed

lemma boot_free: "[0..<NR_PROCESS] = 0 # [1..<NR_PROCESS]" "[1..<NR_PROCESS] = 1 # [2..<NR_PROCESS]"
  using upt_conv_Cons [of 0 NR_PROCESS] upt_conv_Cons [of 1 NR_PROCESS]
  by (simp_all add: NR_PROCESS_def numeral_2_eq_2 del: upt_rec_numeral)

theorem new_alarm_by_deadline_witness:
  "\<exists>tm Q. new_alarm 7 2 boot_timer = Some (Inr tm) \<and> deadlines 5 (alarms (alarm_pool tm) Q) = [(7, 205)]"
proof -
  have "timer_ok boot_timer [] (0 # [1..<NR_PROCESS])"
    using boot_timer_ok unfolding boot_free(1) .
  from new_alarm_by_deadline [OF this, of 2 7]
  obtain tm Q where "new_alarm 7 2 boot_timer = Some (Inr tm)"
      "\<forall>now. deadlines now (alarms (alarm_pool tm) Q) = set_alarm 7 (now + 200) []"
    by auto
  then show ?thesis by (intro exI [of _ tm] exI [of _ Q]) (simp add: set_alarm_def)
qed


lemma new_alarm_head:
  assumes ok: "timer_ok tm Q (n # F)" and q: "Q = q # Q0"
    and i: "i32 (second * 100) = second * 100"
      "i32 (remain_time (alarm_pool tm ! q) - second * 100) = remain_time (alarm_pool tm ! q) - second * 100"
    and less: "second * 100 < remain_time (alarm_pool tm ! q)"
  obtains tm1 where "new_alarm pid second tm = Some (Inr tm1)" "timer_shape tm1 (n # Q) F"
    "alarms (alarm_pool tm1) (n # Q) = (pid, second * 100) # less_ticks (second * 100) (alarms (alarm_pool tm) Q)"
    "alarm_queue tm1 = Some n" "TIMER tm1 = TIMER tm"
proof -
  note k = timer_okD [OF ok]
  let ?pool = "alarm_pool tm" and ?t = "second * 100"
  have n: "n \<notin> set Q" "n < length ?pool" "n \<notin> set F" "n \<noteq> q" "q < length ?pool" "q \<notin> set F"
    using k(1,4,5,6,9) q by auto
  have hq: "alarm_queue tm = Some q" "alarm_free tm = Some n" using k(2,3) q by simp_all
  define pool1 where "pool1 = upd_at n (\<lambda>a. a\<lparr>remain_time := ?t, a_pid := pid, a_next := Some q\<rparr>) ?pool"
  have p1: "pool1 ! n = \<lparr>a_pid = pid, remain_time = ?t, a_next = Some q\<rparr>" "\<And>i. i \<noteq> n \<Longrightarrow> pool1 ! i = ?pool ! i"
      "length pool1 = length ?pool"
    using n by (simp_all add: pool1_def)
  let ?pool2 = "upd_at q (\<lambda>a. a\<lparr>remain_time := remain_time a - ?t\<rparr>) pool1"
  have sn: "shorten_next n pool1 = ?pool2"
    using p1 n i(2) by (simp add: shorten_next_def upd_at_def)
  have eq: "new_alarm pid second tm = Some (Inr (with_alarm tm n [] pool1))"
    using hq i(1) less n by (simp add: new_alarm_def with_alarm_def Let_def pool1_def comp_def)
  have p2: "?pool2 ! n = pool1 ! n" "?pool2 ! q = (?pool ! q)\<lparr>remain_time := remain_time (?pool ! q) - ?t\<rparr>"
    "\<And>i. i \<noteq> n \<Longrightarrow> i \<noteq> q \<Longrightarrow> ?pool2 ! i = ?pool ! i"
    using n p1 by simp_all
  have nx: "a_next (?pool2 ! i) = a_next (?pool ! i)" if "i \<noteq> n" for i
    using p2(2) p2(3) [OF that] by (cases "i = q") simp_all
  have "chain (\<lambda>i. a_next (?pool2 ! i)) (Some q) Q"
    by (rule chain_cong [of "\<lambda>i. a_next (?pool ! i)"]) (use k(2) hq n(1) nx in \<open>auto intro!: nx\<close>)
  moreover have "chain (\<lambda>i. a_next (?pool2 ! i)) (a_next (?pool ! n)) F"
    by (rule chain_cong [of "\<lambda>i. a_next (?pool ! i)"]) (use k(3) n(3) in \<open>auto intro!: nx\<close>)
  ultimately have "timer_shape (with_alarm tm n [] pool1) (n # Q) F"
    using k(1,4,5,6) n p1 p2(1) by (auto simp: timer_shape_def with_alarm_def sn)
  moreover have "alarms ?pool2 Q0 = alarms ?pool Q0"
  proof (rule alarms_cong)
    fix i assume "i \<in> set Q0"
    then have iq: "i \<noteq> n" "i \<noteq> q" using k(8) q n(1) by auto
    show "a_pid (?pool2 ! i) = a_pid (?pool ! i) \<and> remain_time (?pool2 ! i) = remain_time (?pool ! i)"
      unfolding p2(3) [OF iq] by simp
  qed
  then have "alarms ?pool2 (n # Q) = (pid, ?t) # less_ticks ?t (alarms ?pool Q)"
    using p1(1) p2(1,2) q by simp
  ultimately show thesis using that [OF eq] by (simp add: with_alarm_def sn)
qed

text \<open>C16: The interrupt handler does not carry the overshoot of an alarm over to its successor. A
  sleep of zero or fewer seconds goes to the head of the queue, and the tick at which it fires
  brings no other alarm closer: their remaining times grow by the negative delay instead of
  shrinking by one. One such sleep makes every sleeping process late.\<close>

theorem nonpositive_sleep_delays_others:
  assumes ok: "timer_ok tm Q (n # F)" and Q: "Q \<noteq> []" and hd: "0 < remain_time (alarm_pool tm ! hd Q)"
    and sec: "second \<le> 0" "- (2 ^ 31) < second * 100" "remain_time (alarm_pool tm ! hd Q) - second * 100 < 2 ^ 31"
    and set: "new_alarm pid second tm = Some (Inr tm1)"
    and tick: "timer_intr (s, tm1) = Some (Inr (s', tm2))"
  shows "\<exists>Q' F'. timer_shape tm2 Q' F'
    \<and> alarms (alarm_pool tm2) Q' = less_ticks (second * 100) (alarms (alarm_pool tm) Q)"
proof -
  let ?t = "second * 100"
  obtain q Q0 where q: "Q = q # Q0" using Q by (cases Q) auto
  have r: "remain_time (alarm_pool tm ! q) - ?t < 2 ^ 31" "0 < remain_time (alarm_pool tm ! q)"
    using sec(3) hd q by simp_all
  have i: "i32 ?t = ?t" "i32 (?t - 1) = ?t - 1" "i32 (remain_time (alarm_pool tm ! q) - ?t) = remain_time (alarm_pool tm ! q) - ?t"
    using sec(1,2) r by (auto intro!: i32_id)
  have less: "?t < remain_time (alarm_pool tm ! q)" using sec(1) r(2) by simp
  have sh1: "timer_shape tm1 (n # Q) F"
    and al1: "alarms (alarm_pool tm1) (n # Q) = (pid, ?t) # less_ticks ?t (alarms (alarm_pool tm) Q)"
    and TQ: "alarm_queue tm1 = Some n"
    by (rule new_alarm_head [OF ok q i(1,3) less, of pid]; use set in simp)+
  have al2: "less_ticks 1 (alarms (alarm_pool tm1) (n # Q)) = (pid, ?t - 1) # less_ticks ?t (alarms (alarm_pool tm) Q)"
    unfolding al1 by simp
  have n1: "remain_time (alarm_pool tm1 ! n) = ?t" using al1 by simp
  obtain tm' Q' F' where f: "timer_intr (s, tm1) = Some (bindE
        (send_fires (TIMER tm1) (intr_m tm1) (map fst (takeWhile (\<lambda>a. snd a \<le> 0) (less_ticks 1 (alarms (alarm_pool tm1) (n # Q))))) (time_slice s))
        (\<lambda>s. Inr (s, tm')))" "timer_shape tm' Q' F'"
    "alarms (alarm_pool tm') Q' = dropWhile (\<lambda>a. snd a \<le> 0) (less_ticks 1 (alarms (alarm_pool tm1) (n # Q)))"
    using timer_intr_shape [OF sh1, of s] i(2) unfolding n1 by blast
  have "tm2 = tm'" using tick unfolding f(1) by (auto simp: bindE_eq_Inr)
  moreover have "dropWhile (\<lambda>a. snd a \<le> 0) (less_ticks 1 (alarms (alarm_pool tm1) (n # Q)))
      = less_ticks ?t (alarms (alarm_pool tm) Q)"
    unfolding al2 using sec(1) r q by simp
  ultimately show ?thesis using f(2,3) by auto
qed

theorem nonpositive_sleep_delays_others_witness:
  "\<exists>tm tm1 s tm2 Q. new_alarm 7 1 boot_timer = Some (Inr tm) \<and> new_alarm 8 (-1) tm = Some (Inr tm1)
     \<and> timer_intr (init_proc boot_sys, tm1) = Some (Inr (s, tm2)) \<and> alarms (alarm_pool tm2) Q = [(7, 200)]"
proof -
  have "timer_ok boot_timer [] (0 # 1 # [2..<NR_PROCESS])"
    using boot_timer_ok unfolding boot_free .
  then obtain tm Q where A: "new_alarm 7 1 boot_timer = Some (Inr tm)" "timer_ok tm Q (1 # [2..<NR_PROCESS])"
      "TIMER tm = TIMER boot_timer"
      "\<And>now. deadlines now (alarms (alarm_pool tm) Q) = set_alarm 7 (now + 1 * 100) (deadlines now (alarms (alarm_pool boot_timer) []))"
    by (rule new_alarm_step [of _ _ _ _ 1 7]) (simp_all add: delay_ok_def)
  have al: "alarms (alarm_pool tm) Q = [(7, 100)]"
    using A(4) [of 0] by (cases "alarms (alarm_pool tm) Q") (auto simp: set_alarm_def elim: deadlines.elims)
  then obtain q where q: "Q = [q]" "remain_time (alarm_pool tm ! q) = 100" by (cases Q) (auto simp: alarms_def)
  obtain tm1 where B: "new_alarm 8 (-1) tm = Some (Inr tm1)" "timer_shape tm1 (1 # Q) [2..<NR_PROCESS]"
      "alarms (alarm_pool tm1) (1 # Q) = (8, -1 * 100) # less_ticks (-1 * 100) (alarms (alarm_pool tm) Q)"
      "TIMER tm1 = TIMER tm"
    by (rule new_alarm_head [OF A(2) q(1), of "-1" 8]) (use q(2) in \<open>simp_all add: i32_id\<close>)
  have "remain_time (alarm_pool tm1 ! 1) = -100" using B(3) by simp
  then obtain tm2 where t2: "timer_intr (init_proc boot_sys, tm1) = Some (bindE
      (send_fires (TIMER tm1) (intr_m tm1) [8] (time_slice (init_proc boot_sys))) (\<lambda>s. Inr (s, tm2)))"
    using timer_intr_shape [OF B(2), of "init_proc boot_sys"] B(3) al by (auto simp: i32_id)
  have "box (time_slice (init_proc boot_sys)) 0 [] [] [] 0"
    using boot_box by (auto simp: box_def time_slice_def Let_def nth_upd_at mbox_def)
  then obtain s where "send 0 ((intr_m tm1)\<lparr>m_type := TIMER_ALRM_FIRE, m_w0 := word_of_int 8\<rparr>)
      (time_slice (init_proc boot_sys)) = Inr s"
    by (rule send_box) (auto simp: Max_Message_Pool_def)
  moreover have "TIMER tm1 = 0" using B(4) A(3) by (simp add: boot_timer_def init_alarm_def)
  ultimately have tick: "timer_intr (init_proc boot_sys, tm1) = Some (Inr (s, tm2))" using t2 by simp
  have "\<exists>Q' F'. timer_shape tm2 Q' F' \<and> alarms (alarm_pool tm2) Q' = less_ticks (-1 * 100) (alarms (alarm_pool tm) Q)"
    by (rule nonpositive_sleep_delays_others [OF A(2) _ _ _ _ _ B(1) tick]) (use q in simp_all)
  then show ?thesis using A(1) B(1) tick al by auto
qed

end
