(* ===== verification/Paging.thy ===== *)
theory Paging
  imports Process
begin

text \<open>
  Page tables: the entry formats and kernel/memory/util.c, the kernel's own tables built by
  \<open>init_page\<close> (kernel/memory/kvm.c), and \<open>copy_from_kernel\<close> and \<open>copy_to_kernel\<close>
  (kernel/process/util.c), through which drivers and servers reach the memory of a process.
  Tables are words of the physical memory; pointers to them are kernel pointers.
\<close>

section \<open>Entries\<close>

definition PAGE_SIZE :: u32 where "PAGE_SIZE = 4096"
definition NR_PDE_ENTRY :: nat where "NR_PDE_ENTRY = 1024"
definition NR_PTE_ENTRY :: nat where "NR_PTE_ENTRY = 1024"
definition PD_SIZE :: u32 where "PD_SIZE = 1024 * 4096"
definition USER_MEM_LOW :: u32 where "USER_MEM_LOW = 16 * 1024 * 1024"
definition USER_MEM_HIGH :: u32 where "USER_MEM_HIGH = 128 * 1024 * 1024"

text \<open>\<open>page_frame << 12\<close> and \<open>present\<close> of an entry.\<close>

definition frame_addr :: "u32 \<Rightarrow> u32" where
  "frame_addr e = push_bit 12 (drop_bit 12 e)"

definition present :: "u32 \<Rightarrow> bool" where
  "present e \<longleftrightarrow> e AND 1 \<noteq> 0"

definition entry_for :: "u32 \<Rightarrow> u32" where
  "entry_for addr = push_bit 12 (drop_bit 12 addr) OR 7"

definition make_invalid_pde :: "u32 \<Rightarrow> memory \<Rightarrow> memory" where
  "make_invalid_pde p m = store32 (kphys p) 0 m"

definition make_invalid_pte :: "u32 \<Rightarrow> memory \<Rightarrow> memory" where
  "make_invalid_pte p m = store32 (kphys p) 0 m"

definition make_pde :: "u32 \<Rightarrow> u32 \<Rightarrow> memory \<Rightarrow> memory" where
  "make_pde p addr m = store32 (kphys p) (entry_for addr) m"

definition make_pte :: "u32 \<Rightarrow> u32 \<Rightarrow> memory \<Rightarrow> memory" where
  "make_pte p addr m = store32 (kphys p) (entry_for addr) m"

section \<open>The kernel's page tables\<close>

text \<open>\<open>init_page\<close> runs before paging is on, so its pointers are physical addresses. It returns
  the value for \<open>%cr3\<close> next to the memory.\<close>

definition init_page :: "u32 \<Rightarrow> u32 \<Rightarrow> memory \<Rightarrow> u32 \<times> memory" where
  "init_page kpagedir kpagetable m =
     (let pdir = va_to_pa kpagedir; pent = va_to_pa kpagetable;
          m = fold (\<lambda>i. store32 (word_at pdir i) 0) [0..<NR_PDE_ENTRY] m;
          (pent, m) = fold (\<lambda>i (pent, m).
            let m = store32 (word_at pdir i) (entry_for pent) m;
                m = store32 (word_at pdir (i + unat (KOFFSET div PD_SIZE))) (entry_for pent) m
            in fold (\<lambda>j (pent, m).
                 (pent + 4, store32 pent (entry_for (push_bit 12 (of_nat (i * NR_PTE_ENTRY + j)))) m))
                 [0..<NR_PTE_ENTRY] (pent, m))
            [0..<unat (USER_MEM_HIGH div PD_SIZE)] (pent, m)
      in (make_cr3 pdir, m))"

section \<open>Address translation\<close>

text \<open>What the processor does with an address: \<open>None\<close> is a page fault.\<close>

definition pde_ptr :: "u32 \<Rightarrow> u32 \<Rightarrow> u32" where
  "pde_ptr cr3 va = frame_addr cr3 + 4 * drop_bit 22 va"

definition pte_ptr :: "memory \<Rightarrow> u32 \<Rightarrow> u32 \<Rightarrow> u32" where
  "pte_ptr m cr3 va = frame_addr (load32 m (pde_ptr cr3 va)) + 4 * (drop_bit 12 va AND 0x3FF)"

definition translate :: "memory \<Rightarrow> u32 \<Rightarrow> u32 \<Rightarrow> u32 option" where
  "translate m cr3 va =
     (if \<not> present (load32 m (pde_ptr cr3 va)) then None
      else if \<not> present (load32 m (pte_ptr m cr3 va)) then None
      else Some (frame_addr (load32 m (pte_ptr m cr3 va)) OR (va AND 0xFFF)))"

section \<open>Copying to and from a process\<close>

text \<open>The inner loop of \<open>copy_from_kernel\<close>: within one page.\<close>

function copy_from_chunk :: "u32 \<Rightarrow> u32 \<Rightarrow> u32 \<Rightarrow> u32 \<Rightarrow> memory \<Rightarrow> u32 \<times> u32 \<times> memory" where
  "copy_from_chunk ptr pa src len m =
     (if pa < PAGE_SIZE then
        (let m = m(kphys (ptr + pa) := m (kphys src)); len = len - 1
         in if len = 0 then (src + 1, len, m)
            else copy_from_chunk ptr (pa + 1) (src + 1) len m)
      else (src, len, m))"
  by pat_completeness auto
termination
proof (relation "measure (\<lambda>(ptr, pa, src, len, m). 4096 - unat pa)", goal_cases)
  case (2 ptr pa src len m m' l')
  then have "unat pa < 4096" by (simp add: PAGE_SIZE_def word_less_nat_alt)
  moreover from this have "unat (pa + 1) = unat pa + 1" by (simp add: unat_word_ariths)
  ultimately show ?case by simp
qed simp

declare copy_from_chunk.simps [simp del]

text \<open>The outer loop: \<open>pent\<close> is the page table in use, \<open>pdir\<close> the page directory.\<close>

partial_function (option) copy_from_pages ::
  "u32 \<Rightarrow> u32 \<Rightarrow> u32 \<Rightarrow> u32 \<Rightarrow> u32 \<Rightarrow> u32 \<Rightarrow> u32 \<Rightarrow> memory \<Rightarrow> memory option" where
  "copy_from_pages len pdir pde pte pa pent src m =
     (if len = 0 then Some m
      else
        (let ptr = frame_addr (load32 m (kphys (pent + 4 * pte)));
             r = copy_from_chunk ptr pa src len m;
             src = fst r; len = fst (snd r); m = snd (snd r);
             pte = pte + 1
         in if pte = of_nat NR_PTE_ENTRY then
              copy_from_pages len pdir (pde + 1) 0 0 (frame_addr (load32 m (kphys (pdir + 4 * (pde + 1))))) src m
            else copy_from_pages len pdir pde pte 0 pent src m))"

definition copy_from_kernel :: "u32 \<Rightarrow> u32 \<Rightarrow> u32 \<Rightarrow> u32 \<Rightarrow> memory \<Rightarrow> memory option" where
  "copy_from_kernel cr3 dest src len m =
     (let pde = drop_bit 22 dest; pte = drop_bit 12 dest AND 0x3FF; pa = dest AND 0xFFF;
          pdir = frame_addr cr3;
          pent = frame_addr (load32 m (kphys (pdir + 4 * pde)))
      in copy_from_pages len pdir pde pte pa pent src m)"

function copy_to_chunk :: "u32 \<Rightarrow> u32 \<Rightarrow> u32 \<Rightarrow> u32 \<Rightarrow> memory \<Rightarrow> u32 \<times> u32 \<times> memory" where
  "copy_to_chunk ptr pa dest len m =
     (if pa < PAGE_SIZE then
        (let m = m(kphys dest := m (kphys (ptr + pa))); len = len - 1
         in if len = 0 then (dest + 1, len, m)
            else copy_to_chunk ptr (pa + 1) (dest + 1) len m)
      else (dest, len, m))"
  by pat_completeness auto
termination
proof (relation "measure (\<lambda>(ptr, pa, dest, len, m). 4096 - unat pa)", goal_cases)
  case (2 ptr pa dest len m m' l')
  then have "unat pa < 4096" by (simp add: PAGE_SIZE_def word_less_nat_alt)
  moreover from this have "unat (pa + 1) = unat pa + 1" by (simp add: unat_word_ariths)
  ultimately show ?case by simp
qed simp

declare copy_to_chunk.simps [simp del]

partial_function (option) copy_to_pages ::
  "u32 \<Rightarrow> u32 \<Rightarrow> u32 \<Rightarrow> u32 \<Rightarrow> u32 \<Rightarrow> u32 \<Rightarrow> u32 \<Rightarrow> memory \<Rightarrow> memory option" where
  "copy_to_pages len pdir pde pte pa pent dest m =
     (if len = 0 then Some m
      else
        (let ptr = frame_addr (load32 m (kphys (pent + 4 * pte)));
             r = copy_to_chunk ptr pa dest len m;
             dest = fst r; len = fst (snd r); m = snd (snd r);
             pte = pte + 1
         in if pte = of_nat NR_PTE_ENTRY then
              copy_to_pages len pdir (pde + 1) 0 0 (frame_addr (load32 m (kphys (pdir + 4 * (pde + 1))))) dest m
            else copy_to_pages len pdir pde pte 0 pent dest m))"

definition copy_to_kernel :: "u32 \<Rightarrow> u32 \<Rightarrow> u32 \<Rightarrow> u32 \<Rightarrow> memory \<Rightarrow> memory option" where
  "copy_to_kernel cr3 dest src len m =
     (let pde = drop_bit 22 src; pte = drop_bit 12 src AND 0x3FF; pa = src AND 0xFFF;
          pdir = frame_addr cr3;
          pent = frame_addr (load32 m (kphys (pdir + 4 * pde)))
      in copy_to_pages len pdir pde pte pa pent dest m)"

section \<open>The fields of an address\<close>

lemma field_pde: "unat (drop_bit 22 (va::u32)) = unat va div 4194304"
  by (simp add: drop_bit_eq_div unat_div_distrib)

lemma field_pte: "unat (drop_bit 12 (va::u32) AND 0x3FF) = unat va div 4096 mod 1024"
proof -
  have "drop_bit 12 va AND 0x3FF = take_bit 10 (drop_bit 12 va)"
    by (simp add: take_bit_eq_mask mask_eq_exp_minus_1)
  then show ?thesis by (simp add: take_bit_eq_mod drop_bit_eq_div unat_div_distrib unat_mod_distrib)
qed

lemma field_offset: "unat ((va::u32) AND 0xFFF) = unat va mod 4096"
proof -
  have "va AND 0xFFF = take_bit 12 va" by (simp add: take_bit_eq_mask mask_eq_exp_minus_1)
  then show ?thesis by (simp add: take_bit_eq_mod unat_mod_distrib)
qed

lemmas va_fields = field_pde field_pte field_offset

lemma unat_frame_addr: "unat (frame_addr e) = unat e div 4096 * 4096"
proof -
  have "unat e < 2 ^ 32" using unsigned_less [of e] by simp
  then have *: "unat e div 4096 * 4096 < 2 ^ 32"
    using div_times_less_eq_dividend [of "unat e" 4096] by linarith
  have "unat (frame_addr e) = push_bit 12 (drop_bit 12 (unat e)) mod 2 ^ 32"
    by (simp add: frame_addr_def unsigned_push_bit_eq unat_drop_bit_eq take_bit_eq_mod)
  also have "\<dots> = unat e div 4096 * 4096"
    using * by (simp add: push_bit_eq_mult drop_bit_eq_div)
  finally show ?thesis .
qed

lemma frame_or_offset:
  "frame_addr e OR (va AND 0xFFF) = frame_addr e + (va AND 0xFFF)"
proof -
  have "frame_addr e AND (va AND 0xFFF) = 0"
  proof (rule bit_word_eqI)
    fix n assume "n < LENGTH(32)"
    have "va AND 0xFFF = take_bit 12 va" by (simp add: take_bit_eq_mask mask_eq_exp_minus_1)
    then show "bit (frame_addr e AND (va AND 0xFFF)) n = bit (0::u32) n"
      by (auto simp: frame_addr_def bit_simps)
  qed
  then show ?thesis by (simp add: disjunctive_add_eq_or)
qed

lemma frame_addr_aligned [simp]: "aligned4 (frame_addr e)"
  by (simp add: aligned4_def unat_frame_addr)

lemma pde_ptr_aligned [simp]: "aligned4 (pde_ptr cr3 va)"
  by (simp add: pde_ptr_def)

lemma pte_ptr_aligned [simp]: "aligned4 (pte_ptr m cr3 va)"
  by (simp add: pte_ptr_def)

lemma frame_entry_for:
  assumes "4096 dvd unat a"
  shows "frame_addr (entry_for a) = a" "present (entry_for a)"
proof -
  have 1: "frame_addr a = a" using assms by (simp add: word_unat_eq_iff unat_frame_addr)
  have "drop_bit 12 (entry_for a) = drop_bit 12 a"
  proof (rule bit_word_eqI)
    fix n assume n: "n < LENGTH(32)"
    have "(7::u32) = mask 3" by (simp add: mask_eq_exp_minus_1)
    then have 7: "\<not> bit (7::u32) (12 + n)" by (simp only: bit_mask_iff) simp
    show "bit (drop_bit 12 (entry_for a)) n = bit (drop_bit 12 a) n"
      using n 7 bit_imp_le_length [of a "12 + n"] by (auto simp: entry_for_def bit_simps)
  qed
  then show "frame_addr (entry_for a) = a" using 1 by (simp add: frame_addr_def)
  have "bit (entry_for a) 0" by (simp add: entry_for_def bit_simps)
  then show "present (entry_for a)" by (simp add: present_def and_one_eq even_iff_mod_2_eq_zero bit_0)
qed

lemma not_present_0 [simp]: "\<not> present 0"
  by (simp add: present_def)


section \<open>\<open>init_page\<close>\<close>

definition kernel_page :: "nat \<Rightarrow> u32" where
  "kernel_page k = entry_for (push_bit 12 (of_nat k))"

lemma fill_page_table:
  assumes t: "warray t N" and d: "warray d n'" and a: "apart d n' t N"
    and k: "base + n \<le> N"
  shows "case fold (\<lambda>j (pent, m). (pent + 4, store32 pent (kernel_page (base + j)) m)) [0..<n]
            (word_at t base, m)
         of (pent, m') \<Rightarrow> pent = word_at t (base + n) \<and>
           (\<forall>k < N. load32 m' (word_at t k) =
              (if base \<le> k \<and> k < base + n then kernel_page k else load32 m (word_at t k))) \<and>
           (\<forall>k < n'. load32 m' (word_at d k) = load32 m (word_at d k))"
  using k
proof (induction n)
  case 0
  then show ?case by auto
next
  case (Suc n)
  have next_word: "word_at t (base + n) + 4 = word_at t (base + Suc n)"
    by (simp add: word_at_def algebra_simps)
  have lt: "base + n < N" using Suc.prems by simp
  obtain pent m1 where *: "fold (\<lambda>j (pent, m). (pent + 4, store32 pent (kernel_page (base + j)) m)) [0..<n]
      (word_at t base, m) = (pent, m1)" by (cases "fold (\<lambda>j (pent, m). (pent + 4, store32 pent (kernel_page (base + j)) m)) [0..<n]
      (word_at t base, m)")
  show ?case
    using Suc lt load_store_word_at [OF t _ lt] load_store_apart [OF d t a _ lt]
    by (auto simp: * next_word)
qed

text \<open>The tables once the first \<open>n\<close> page tables are filled.\<close>

definition tables_upto :: "u32 \<Rightarrow> u32 \<Rightarrow> nat \<Rightarrow> memory \<Rightarrow> bool" where
  "tables_upto d t n m \<longleftrightarrow>
     (\<forall>k < 1024. load32 m (word_at d k) =
        (if k < n \<or> 768 \<le> k \<and> k < 768 + n then entry_for (word_at t (1024 * (k mod 768))) else 0)) \<and>
     (\<forall>k < 1024 * n. load32 m (word_at t k) = kernel_page k)"

definition init_page_table :: "u32 \<Rightarrow> nat \<Rightarrow> u32 \<times> memory \<Rightarrow> u32 \<times> memory" where
  "init_page_table d i = (\<lambda>(pent, m).
            let m = store32 (word_at d i) (entry_for pent) m;
                m = store32 (word_at d (i + 768)) (entry_for pent) m
            in fold (\<lambda>j (pent, m). (pent + 4, store32 pent (kernel_page (i * 1024 + j)) m))
                 [0..<1024] (pent, m))"

lemma init_page_table_upto:
  assumes t: "warray t 32768" and d: "warray d 1024" and a: "apart d 1024 t 32768"
    and i: "i < 32" and m: "tables_upto d t i m"
  shows "fst (init_page_table d i (word_at t (1024 * i), m)) = word_at t (1024 * Suc i) \<and>
         tables_upto d t (Suc i) (snd (init_page_table d i (word_at t (1024 * i), m)))"
proof -
  let ?e = "entry_for (word_at t (1024 * i))"
  define m1 where "m1 = store32 (word_at d (i + 768)) ?e (store32 (word_at d i) ?e m)"
  have t': "apart t 32768 d 1024" using a by (simp add: apart_sym)
  have d1: "load32 m1 (word_at d k) = (if k = i \<or> k = i + 768 then ?e else load32 m (word_at d k))"
    if "k < 1024" for k
    using that i load_store_word_at [OF d that] by (auto simp: m1_def)
  have t1: "load32 m1 (word_at t k) = load32 m (word_at t k)" if "k < 32768" for k
    using that i load_store_apart [OF t d t' that] by (auto simp: m1_def)
  obtain pent m2 where f: "fold (\<lambda>j (pent, m). (pent + 4, store32 pent (kernel_page (1024 * i + j)) m)) [0..<1024]
            (word_at t (1024 * i), m1) = (pent, m2)" by fastforce
  have le: "1024 * i + 1024 \<le> 32768" using i by simp
  have r: "pent = word_at t (1024 * i + 1024)"
    "\<And>k. k < 32768 \<Longrightarrow> load32 m2 (word_at t k) =
        (if 1024 * i \<le> k \<and> k < 1024 * i + 1024 then kernel_page k else load32 m1 (word_at t k))"
    "\<And>k. k < 1024 \<Longrightarrow> load32 m2 (word_at d k) = load32 m1 (word_at d k)"
    using fill_page_table [OF t d a le, of m1] unfolding f by auto
  have "init_page_table d i (word_at t (1024 * i), m) = (pent, m2)"
    using f by (simp add: init_page_table_def m1_def Let_def mult.commute)
  moreover have "tables_upto d t (Suc i) m2"
    unfolding tables_upto_def
  proof (intro conjI allI impI)
    fix k :: nat assume k: "k < 1024"
    have "load32 m (word_at d k) = (if k < i \<or> 768 \<le> k \<and> k < 768 + i then entry_for (word_at t (1024 * (k mod 768))) else 0)"
      using m k by (auto simp: tables_upto_def)
    then show "load32 m2 (word_at d k) = (if k < Suc i \<or> 768 \<le> k \<and> k < 768 + Suc i
        then entry_for (word_at t (1024 * (k mod 768))) else 0)"
      using k i r(3) d1 by auto
  next
    fix k assume k: "k < 1024 * Suc i"
    then have "k < 32768" using i by simp
    then show "load32 m2 (word_at t k) = kernel_page k"
      using r(2) t1 m k by (auto simp: tables_upto_def)
  qed
  ultimately show ?thesis using r(1) by (simp add: add.commute)
qed


lemma init_page_tables:
  assumes t: "warray (va_to_pa kpagetable) 32768" and d: "warray (va_to_pa kpagedir) 1024"
    and a: "apart (va_to_pa kpagedir) 1024 (va_to_pa kpagetable) 32768"
  shows "fst (init_page kpagedir kpagetable m) = make_cr3 (va_to_pa kpagedir)"
    "tables_upto (va_to_pa kpagedir) (va_to_pa kpagetable) 32 (snd (init_page kpagedir kpagetable m))"
proof -
  let ?d = "va_to_pa kpagedir" and ?t = "va_to_pa kpagetable"
  define m0 where "m0 = fill32 ?d (\<lambda>i. 0) 1024 m"
  have 0: "tables_upto ?d ?t 0 m0"
    by (auto simp: tables_upto_def m0_def load_fill32 [OF d])
  have "fst (fold (init_page_table ?d) [0..<n] (?t, m0)) = word_at ?t (1024 * n) \<and>
      tables_upto ?d ?t n (snd (fold (init_page_table ?d) [0..<n] (?t, m0)))" if "n \<le> 32" for n
    using that
  proof (induction n)
    case 0
    show ?case using \<open>tables_upto ?d ?t 0 m0\<close> by (simp add: word_at_def)
  next
    case (Suc n)
    then obtain m' where m': "fold (init_page_table ?d) [0..<n] (?t, m0) = (word_at ?t (1024 * n), m')"
      "tables_upto ?d ?t n m'"
      by (cases "fold (init_page_table ?d) [0..<n] (?t, m0)") auto
    have "n < 32" using Suc.prems by simp
    then show ?case using init_page_table_upto [OF t d a _ m'(2)] m'(1) by simp
  qed
  from this [of 32]
  have r: "tables_upto ?d ?t 32 (snd (fold (init_page_table ?d) [0..<32] (?t, m0)))" by blast
  have sizes: "NR_PDE_ENTRY = 1024" "unat (KOFFSET div PD_SIZE) = 768" "unat (USER_MEM_HIGH div PD_SIZE) = 32"
    "NR_PTE_ENTRY = 1024"
    by (simp_all add: NR_PDE_ENTRY_def KOFFSET_def PD_SIZE_def USER_MEM_HIGH_def NR_PTE_ENTRY_def)
  have eq: "init_page kpagedir kpagetable m =
      (make_cr3 ?d, snd (fold (init_page_table ?d) [0..<32] (?t, m0)))"
    unfolding init_page_def Let_def sizes m0_def fill32_def init_page_table_def kernel_page_def
    by (simp add: case_prod_unfold del: upt_rec_numeral)
  show "fst (init_page kpagedir kpagetable m) = make_cr3 ?d" by (simp add: eq)
  show "tables_upto ?d ?t 32 (snd (init_page kpagedir kpagetable m))" using r by (simp add: eq)
qed

lemma page_address [simp]:
  assumes "k < 1048576"
  shows "unat (push_bit 12 (of_nat k :: u32)) = k * 4096"
  using assms by (simp add: push_bit_eq_mult unat_word_ariths unat_of_nat)

text \<open>The walk through such tables.\<close>

lemma tables_upto_walk:
  fixes va :: u32
  assumes t: "warray t 32768" "4096 dvd unat t" and m: "tables_upto d t 32 m" and cr3: "frame_addr cr3 = d"
  defines "q \<equiv> unat va div 4194304" and "k \<equiv> 1024 * (unat va div 4194304 mod 768) + unat va div 4096 mod 1024"
  assumes low: "q < 32 \<or> 768 \<le> q \<and> q < 800"
  shows "pde_ptr cr3 va = word_at d q" "pte_ptr m cr3 va = word_at t k" "k < 32768"
    "translate m cr3 va = Some (push_bit 12 (of_nat k) + (va AND 0xFFF))"
proof -
  have q: "q < 1024" using low by auto
  show pde_ptr: "pde_ptr cr3 va = word_at d q"
    by (simp add: pde_ptr_def word_at_def cr3 q_def field_pde [symmetric])
  define r where "r = q mod 768"
  have kr: "k = 1024 * r + unat va div 4096 mod 1024" by (simp add: k_def r_def q_def)
  have r: "r < 32" using low by (auto simp: r_def le_mod_geq)
  have "unat va div 4096 mod 1024 < 1024" by simp
  then show k: "k < 32768" using r unfolding kr by linarith
  have "load32 m (pde_ptr cr3 va) = entry_for (word_at t (1024 * r))"
    using m low q by (auto simp: tables_upto_def pde_ptr r_def)
  moreover have "4096 dvd unat (word_at t (1024 * r))"
    using unat_word_at [OF t(1), of "1024 * r"] r t(2) by simp
  ultimately have pde: "frame_addr (load32 m (pde_ptr cr3 va)) = word_at t (1024 * r)"
    "present (load32 m (pde_ptr cr3 va))"
    by (simp_all add: frame_entry_for)
  have "drop_bit 12 va AND 0x3FF = of_nat (unat va div 4096 mod 1024)"
    by (simp add: field_pte [symmetric])
  then show pte_ptr: "pte_ptr m cr3 va = word_at t k"
    by (simp add: pte_ptr_def pde word_at_def kr algebra_simps)
  then have pte: "load32 m (pte_ptr m cr3 va) = kernel_page k"
    using m k by (simp add: tables_upto_def)
  have "4096 dvd unat (push_bit 12 (of_nat k :: u32))" using k by simp
  from frame_entry_for [OF this]
  show "translate m cr3 va = Some (push_bit 12 (of_nat k) + (va AND 0xFFF))"
    using pde frame_or_offset [of "kernel_page k" va] by (simp add: translate_def pte kernel_page_def)
qed

lemma tables_upto_translate:
  assumes t: "warray t 32768" "4096 dvd unat t" and m': "tables_upto d t 32 m" and cr3: "frame_addr cr3 = d"
  shows "translate m cr3 va =
     (if va < USER_MEM_HIGH then Some va
      else if KOFFSET \<le> va \<and> va < KOFFSET + USER_MEM_HIGH then Some (va_to_pa va)
      else None)"
proof -
  define q where "q = unat va div 4194304"
  have "unat va < 2 ^ 32" using unsigned_less [of va] by simp
  then have q: "q < 1024" by (simp add: q_def)
  show ?thesis
  proof (cases "q < 32 \<or> 768 \<le> q \<and> q < 800")
    case False
    have "pde_ptr cr3 va = word_at d q" by (simp add: pde_ptr_def word_at_def cr3 q_def field_pde [symmetric])
    then have "load32 m (pde_ptr cr3 va) = 0" using m' q False by (auto simp: tables_upto_def)
    moreover have "\<not> va < USER_MEM_HIGH" "\<not> (KOFFSET \<le> va \<and> va < KOFFSET + USER_MEM_HIGH)"
      using False by (auto simp: q_def USER_MEM_HIGH_def KOFFSET_def word_less_nat_alt word_le_nat_alt)
    ultimately show ?thesis by (simp add: translate_def)
  next
    case True
    define r where "r = q mod 768"
    define k where "k = 1024 * r + unat va div 4096 mod 1024"
    have q_r: "q = r \<or> q = 768 + r" and r: "r < 32" using True by (auto simp: r_def le_mod_geq)
    note walk = tables_upto_walk [OF assms True [unfolded q_def], folded q_def, folded r_def, folded k_def]
    note tr = walk(4) and k = walk(3)
    have "unat (push_bit 12 (of_nat k) + (va AND 0xFFF)) = k * 4096 + unat va mod 4096"
      using k by (simp add: unat_word_ariths field_offset)
    also have "\<dots> = unat va - (q - r) * 4194304"
    proof -
      have "unat va = q * 4194304 + (unat va div 4096 mod 1024) * 4096 + unat va mod 4096"
        using div_mult_mod_eq [of "unat va" 4096] div_mult_mod_eq [of "unat va div 4096" 1024]
          div_mult2_eq [of "unat va" 4096 1024, simplified] unfolding q_def by linarith
      moreover have "r \<le> q" by (simp add: r_def)
      ultimately show ?thesis by (simp add: k_def algebra_simps diff_mult_distrib)
    qed
    finally have u: "unat (push_bit 12 (of_nat k) + (va AND 0xFFF)) = unat va - (q - r) * 4194304" .
    show ?thesis
    proof (cases "q < 32")
      case True
      then have "r = q" "va < USER_MEM_HIGH"
        by (auto simp: r_def q_def USER_MEM_HIGH_def word_less_nat_alt)
      with u have "push_bit 12 (of_nat k) + (va AND 0xFFF) = va" by (simp add: word_unat_eq_iff)
      then show ?thesis using \<open>va < USER_MEM_HIGH\<close> by (simp add: tr)
    next
      case False
      with True have q: "768 \<le> q" "q < 800" by auto
      then have "q - r = 768" "768 * 4194304 \<le> unat va" "unat va < 800 * 4194304"
        by (simp_all add: r_def le_mod_geq) (simp_all add: q_def)
      then have rng: "KOFFSET \<le> va" "va < KOFFSET + USER_MEM_HIGH" "\<not> va < USER_MEM_HIGH"
        by (auto simp: KOFFSET_def USER_MEM_HIGH_def word_le_nat_alt word_less_nat_alt)
      have "push_bit 12 (of_nat k) + (va AND 0xFFF) = va_to_pa va"
        unfolding word_unat_eq_iff [of _ "va_to_pa va"] u \<open>q - r = 768\<close>
        using unat_sub [OF rng(1)] by (simp add: va_to_pa_def KOFFSET_def)
      then show ?thesis using rng by (simp add: tr)
    qed
  qed
qed

lemma make_cr3_frame: "4096 dvd unat d \<Longrightarrow> frame_addr (make_cr3 d) = d"
  by (simp add: make_cr3_def frame_addr_def word_unat_eq_iff unat_frame_addr [unfolded frame_addr_def])

text \<open>C21: the tables built by \<open>init_page\<close> map the first 128 MB of addresses to themselves, the
  128 MB from \<open>KOFFSET\<close> to the same memory, and nothing else.\<close>

theorem init_page_maps:
  assumes "warray (va_to_pa kpagetable) 32768" "4096 dvd unat (va_to_pa kpagetable)"
    "warray (va_to_pa kpagedir) 1024" "4096 dvd unat (va_to_pa kpagedir)"
    "apart (va_to_pa kpagedir) 1024 (va_to_pa kpagetable) 32768"
  shows "translate (snd (init_page kpagedir kpagetable m)) (fst (init_page kpagedir kpagetable m)) va =
     (if va < USER_MEM_HIGH then Some va
      else if KOFFSET \<le> va \<and> va < KOFFSET + USER_MEM_HIGH then Some (va_to_pa va)
      else None)"
  using tables_upto_translate [OF assms(1,2) init_page_tables(2) [OF assms(1,3,5)]] init_page_tables(1) [OF assms(1,3,5)]
    make_cr3_frame [OF assms(4)] by simp

theorem init_page_maps_witness:
  "translate (snd (init_page 0xC0100000 0xC0200000 (\<lambda>_. 0xFF)))
     (fst (init_page 0xC0100000 0xC0200000 (\<lambda>_. 0xFF))) 0xC0123456 = Some 0x123456"
  using init_page_maps [where kpagetable = "0xC0200000" and kpagedir = "0xC0100000" and m = "\<lambda>_. 0xFF" and va = "0xC0123456"]
  by (simp add: va_to_pa_def KOFFSET_def USER_MEM_HIGH_def warray_def apart_def aligned4_def)

section \<open>What the copies do\<close>

text \<open>The bytes at \<open>s 0, s 1, \<dots>\<close> are copied one after the other to \<open>d 0, d 1, \<dots>\<close>.\<close>

definition copy_bytes :: "(nat \<Rightarrow> u32) \<Rightarrow> (nat \<Rightarrow> u32) \<Rightarrow> nat \<Rightarrow> memory \<Rightarrow> memory" where
  "copy_bytes d s n m = fold (\<lambda>i m. m(d i := m (s i))) [0..<n] m"

lemma copy_bytes_0 [simp]: "copy_bytes d s 0 m = m"
  by (simp add: copy_bytes_def)

lemma copy_bytes_Suc: "copy_bytes d s (Suc n) m = (copy_bytes d s n m)(d n := copy_bytes d s n m (s n))"
  by (simp add: copy_bytes_def)

lemma copy_bytes_add:
  "copy_bytes d s (k + n) m = copy_bytes (\<lambda>i. d (k + i)) (\<lambda>i. s (k + i)) n (copy_bytes d s k m)"
  by (induction n) (simp_all add: copy_bytes_Suc)

lemma copy_bytes_first:
  "copy_bytes d s (Suc n) m = copy_bytes (\<lambda>i. d (Suc i)) (\<lambda>i. s (Suc i)) n (m(d 0 := m (s 0)))"
  using copy_bytes_add [of d s 1 n m] by (simp add: copy_bytes_Suc)

lemma copy_bytes_cong:
  "\<forall>i < n. d i = d' i \<and> s i = s' i \<Longrightarrow> copy_bytes d s n m = copy_bytes d' s' n m"
  by (induction n) (simp_all add: copy_bytes_Suc)

lemma copy_bytes_other: "\<forall>i < n. x \<noteq> d i \<Longrightarrow> copy_bytes d s n m x = m x"
  by (induction n) (simp_all add: copy_bytes_Suc)

text \<open>When the bytes read are not among those written, it is an assignment of all of them.\<close>

lemma copy_bytes_at:
  "inj_on d {..<n} \<Longrightarrow> \<forall>i < n. \<forall>j < n. d i \<noteq> s j \<Longrightarrow> i < n \<Longrightarrow> copy_bytes d s n m (d i) = m (s i)"
proof (induction n)
  case 0
  then show ?case by simp
next
  case (Suc n)
  have "copy_bytes d s n m (s n) = m (s n)"
    using Suc.prems(2) by (intro copy_bytes_other) (auto simp: not_sym)
  moreover have "i \<noteq> n \<Longrightarrow> d i \<noteq> d n" using Suc.prems(1,3) by (auto simp: inj_on_def)
  moreover have "inj_on d {..<n}" using Suc.prems(1) by (auto simp: inj_on_def)
  ultimately show ?case using Suc by (cases "i = n") (auto simp: copy_bytes_Suc)
qed

text \<open>One chunk: \<open>k\<close> bytes, up to the end of the page or of the request.\<close>

lemma copy_from_chunk_spec:
  assumes "len \<noteq> 0" "pa \<le> 4095" "k = min (4096 - unat pa) (unat len)"
  shows "copy_from_chunk ptr pa src len m =
     (src + of_nat k, len - of_nat k,
      copy_bytes (\<lambda>i. kphys (ptr + (pa + of_nat i))) (\<lambda>i. kphys (src + of_nat i)) k m)"
  using assms
proof (induction ptr pa src len m arbitrary: k rule: copy_from_chunk.induct)
  case (1 ptr pa src len m)
  have pa: "unat pa < 4096" using "1.prems"(2) by (simp add: word_le_nat_alt)
  have len: "unat (len - 1) = unat len - 1" "0 < unat len"
    using "1.prems"(1) by (simp_all add: unat_minus_one unat_gt_0)
  have pa1: "unat (pa + 1) = unat pa + 1" using pa by (simp add: unat_word_ariths)
  show ?case
  proof (cases "len - 1 = 0 \<or> unat pa = 4095")
    case True
    then have k: "k = 1" using "1.prems"(3) len pa by auto
    show ?thesis
    proof (cases "len - 1 = 0")
      case True
      then show ?thesis using k pa
        by (simp add: copy_from_chunk.simps [of ptr pa] PAGE_SIZE_def word_less_nat_alt copy_bytes_Suc fun_upd_def)
    next
      case False
      then have "\<not> pa + 1 < PAGE_SIZE" using True pa1 by (simp add: PAGE_SIZE_def word_less_nat_alt)
      then show ?thesis using k pa False
        by (simp add: copy_from_chunk.simps [of ptr pa] copy_from_chunk.simps [of ptr "pa + 1"]
            PAGE_SIZE_def word_less_nat_alt copy_bytes_Suc fun_upd_def)
    qed
  next
    case False
    define k' where "k' = min (4096 - unat (pa + 1)) (unat (len - 1))"
    have k: "k = Suc k'" using "1.prems"(3) False pa pa1 len
      by (simp add: k'_def)
    have pa': "pa < PAGE_SIZE" using pa by (simp add: PAGE_SIZE_def word_less_nat_alt)
    have "pa + 1 \<le> 4095" using False pa pa1 by (simp add: word_le_nat_alt)
    note IH = "1.IH" [OF pa' refl refl _ _ this k'_def]
    show ?thesis using False pa' IH
      by (simp add: copy_from_chunk.simps [of ptr pa] k copy_bytes_first Let_def algebra_simps fun_upd_def)
  qed
qed

lemma copy_to_chunk_spec:
  assumes "len \<noteq> 0" "pa \<le> 4095" "k = min (4096 - unat pa) (unat len)"
  shows "copy_to_chunk ptr pa dest len m =
     (dest + of_nat k, len - of_nat k,
      copy_bytes (\<lambda>i. kphys (dest + of_nat i)) (\<lambda>i. kphys (ptr + (pa + of_nat i))) k m)"
  using assms
proof (induction ptr pa dest len m arbitrary: k rule: copy_to_chunk.induct)
  case (1 ptr pa dest len m)
  have pa: "unat pa < 4096" using "1.prems"(2) by (simp add: word_le_nat_alt)
  have len: "unat (len - 1) = unat len - 1" "0 < unat len"
    using "1.prems"(1) by (simp_all add: unat_minus_one unat_gt_0)
  have pa1: "unat (pa + 1) = unat pa + 1" using pa by (simp add: unat_word_ariths)
  show ?case
  proof (cases "len - 1 = 0 \<or> unat pa = 4095")
    case True
    then have k: "k = 1" using "1.prems"(3) len pa by auto
    show ?thesis
    proof (cases "len - 1 = 0")
      case True
      then show ?thesis using k pa
        by (simp add: copy_to_chunk.simps [of ptr pa] PAGE_SIZE_def word_less_nat_alt copy_bytes_Suc fun_upd_def)
    next
      case False
      then have "\<not> pa + 1 < PAGE_SIZE" using True pa1 by (simp add: PAGE_SIZE_def word_less_nat_alt)
      then show ?thesis using k pa False
        by (simp add: copy_to_chunk.simps [of ptr pa] copy_to_chunk.simps [of ptr "pa + 1"]
            PAGE_SIZE_def word_less_nat_alt copy_bytes_Suc fun_upd_def)
    qed
  next
    case False
    define k' where "k' = min (4096 - unat (pa + 1)) (unat (len - 1))"
    have k: "k = Suc k'" using "1.prems"(3) False pa pa1 len
      by (simp add: k'_def)
    have pa': "pa < PAGE_SIZE" using pa by (simp add: PAGE_SIZE_def word_less_nat_alt)
    have "pa + 1 \<le> 4095" using False pa pa1 by (simp add: word_le_nat_alt)
    note IH = "1.IH" [OF pa' refl refl _ _ this k'_def]
    show ?thesis using False pa' IH
      by (simp add: copy_to_chunk.simps [of ptr pa] k copy_bytes_first Let_def algebra_simps fun_upd_def)
  qed
qed


text \<open>Stepping to the next page.\<close>

lemma same_page:
  fixes va :: u32
  assumes "unat va mod 4096 + i < 4096"
  shows "drop_bit 22 (va + of_nat i) = drop_bit 22 va"
    "drop_bit 12 (va + of_nat i) AND 0x3FF = drop_bit 12 va AND 0x3FF"
    "(va + of_nat i) AND 0xFFF = (va AND 0xFFF) + of_nat i"
proof -
  have v: "unat va < 4294967296" using unsigned_less [of va] by simp
  have d: "unat va = 4096 * (unat va div 4096) + unat va mod 4096" by simp
  have "unat va div 4096 < 1048576" using v by (simp add: div_less_iff_less_mult)
  then have "unat va + i < 4294967296" using d assms by linarith
  then have u: "unat (va + of_nat i) = unat va + i" by (simp add: unat_word_ariths unat_of_nat)
  have v1: "(unat va + i) div 4096 = unat va div 4096"
  proof -
    have "(4096 * q + r + i) div 4096 = q" if "r + i < 4096" for q r :: nat
      using that by simp
    from this [OF assms, of "unat va div 4096"] show ?thesis by simp
  qed
  have v2: "(unat va + i) mod 4096 = unat va mod 4096 + i"
    using assms by (metis mod_add_left_eq mod_less)
  have v3: "(unat va + i) div 4194304 = unat va div 4194304"
    using v1 div_mult2_eq [of "unat va + i" 4096 1024] div_mult2_eq [of "unat va" 4096 1024] by simp
  show "drop_bit 22 (va + of_nat i) = drop_bit 22 va"
    using v3 by (simp only: word_unat_eq_iff field_pde u)
  show "drop_bit 12 (va + of_nat i) AND 0x3FF = drop_bit 12 va AND 0x3FF"
    using v1 by (simp only: word_unat_eq_iff field_pte u)
  show "(va + of_nat i) AND 0xFFF = (va AND 0xFFF) + of_nat i"
  proof -
    have "unat ((va AND 0xFFF) + of_nat i) = unat va mod 4096 + i"
      using assms by (simp add: unat_word_ariths unat_of_nat field_offset)
    then show ?thesis by (simp only: word_unat_eq_iff field_offset u v2)
  qed
qed

lemma next_page:
  fixes va :: u32
  assumes k: "k = 4096 - unat va mod 4096" and lt: "unat va + k < 2 ^ 32"
  shows "(va + of_nat k) AND 0xFFF = 0"
    "(drop_bit 12 va AND 0x3FF) + 1 = 1024 \<Longrightarrow>
       drop_bit 22 (va + of_nat k) = drop_bit 22 va + 1 \<and> drop_bit 12 (va + of_nat k) AND 0x3FF = 0"
    "(drop_bit 12 va AND 0x3FF) + 1 \<noteq> 1024 \<Longrightarrow>
       drop_bit 22 (va + of_nat k) = drop_bit 22 va \<and>
       drop_bit 12 (va + of_nat k) AND 0x3FF = (drop_bit 12 va AND 0x3FF) + 1"
proof -
  define p where "p = unat va div 4096"
  have "unat va = 4096 * p + unat va mod 4096" by (simp add: p_def)
  moreover have "unat va mod 4096 < 4096" by simp
  ultimately have e: "unat va + k = 4096 * Suc p" using k by simp
  have u: "unat (va + of_nat k) = 4096 * Suc p"
    using lt e by (simp add: unat_word_ariths unat_of_nat)
  have f: "unat (drop_bit 22 va) = p div 1024" "unat (drop_bit 12 va AND 0x3FF) = p mod 1024"
    "unat (drop_bit 22 (va + of_nat k)) = Suc p div 1024"
    "unat (drop_bit 12 (va + of_nat k) AND 0x3FF) = Suc p mod 1024"
    using div_mult2_eq [of "unat va" 4096 1024] div_mult2_eq [of "4096 * Suc p" 4096 1024]
    by (simp_all only: field_pde field_pte u p_def) simp_all
  have p: "p < 1048575" using lt e by simp
  show "(va + of_nat k) AND 0xFFF = 0"
    by (simp add: word_unat_eq_iff field_offset u del: mult_Suc_right)
  have pte: "unat ((drop_bit 12 va AND 0x3FF) + 1) = Suc (p mod 1024)"
    using f(2) by (simp add: unat_word_ariths)
  {
    assume "(drop_bit 12 va AND 0x3FF) + 1 = 1024"
    then have "Suc (p mod 1024) = 1024" using pte by simp
    then show "drop_bit 22 (va + of_nat k) = drop_bit 22 va + 1 \<and> drop_bit 12 (va + of_nat k) AND 0x3FF = 0"
      using f p by (simp add: word_unat_eq_iff mod_Suc div_Suc unat_word_ariths)
  next
    assume "(drop_bit 12 va AND 0x3FF) + 1 \<noteq> 1024"
    then have "Suc (p mod 1024) \<noteq> 1024" using pte by (simp add: word_unat_eq_iff)
    then show "drop_bit 22 (va + of_nat k) = drop_bit 22 va \<and>
       drop_bit 12 (va + of_nat k) AND 0x3FF = (drop_bit 12 va AND 0x3FF) + 1"
      using f pte by (simp add: word_unat_eq_iff mod_Suc div_Suc)
  }
qed


text \<open>The addresses \<open>va, \<dots>, va + n - 1\<close> of a process are at \<open>a 0, \<dots>, a (n - 1)\<close>, in memory that
  the kernel addresses directly.\<close>

definition user_mapped :: "memory \<Rightarrow> u32 \<Rightarrow> u32 \<Rightarrow> nat \<Rightarrow> (nat \<Rightarrow> u32) \<Rightarrow> bool" where
  "user_mapped m cr3 va n a \<longleftrightarrow> unat va + n \<le> 2 ^ 32 \<and>
     (\<forall>i < n. translate m cr3 (va + of_nat i) = Some (a i) \<and> a i < KOFFSET \<and>
        pde_ptr cr3 (va + of_nat i) < KOFFSET \<and> pte_ptr m cr3 (va + of_nat i) < KOFFSET)"

text \<open>Writing to \<open>W\<close> does not touch the entries used on the way.\<close>

definition word_bytes :: "u32 \<Rightarrow> u32 set" where
  "word_bytes p = {p, p + 1, p + 2, p + 3}"

definition tables_apart :: "memory \<Rightarrow> u32 \<Rightarrow> u32 \<Rightarrow> nat \<Rightarrow> u32 set \<Rightarrow> bool" where
  "tables_apart m cr3 va n W \<longleftrightarrow>
     (\<forall>i < n. W \<inter> word_bytes (pde_ptr cr3 (va + of_nat i)) = {} \<and>
              W \<inter> word_bytes (pte_ptr m cr3 (va + of_nat i)) = {})"

lemma load32_outside:
  "(\<forall>x. x \<notin> W \<longrightarrow> m' x = m x) \<Longrightarrow> W \<inter> word_bytes p = {} \<Longrightarrow> load32 m' p = load32 m p"
  by (intro load32_cong) (auto simp: word_bytes_def)

lemma tables_apart_walk:
  assumes "tables_apart m cr3 va n W" "\<forall>x. x \<notin> W \<longrightarrow> m' x = m x" "i < n"
  shows "load32 m' (pde_ptr cr3 (va + of_nat i)) = load32 m (pde_ptr cr3 (va + of_nat i))"
    "pte_ptr m' cr3 (va + of_nat i) = pte_ptr m cr3 (va + of_nat i)"
    "translate m' cr3 (va + of_nat i) = translate m cr3 (va + of_nat i)"
proof -
  show 1: "load32 m' (pde_ptr cr3 (va + of_nat i)) = load32 m (pde_ptr cr3 (va + of_nat i))"
    using assms by (auto simp: tables_apart_def load32_outside)
  then show 2: "pte_ptr m' cr3 (va + of_nat i) = pte_ptr m cr3 (va + of_nat i)"
    by (simp add: pte_ptr_def)
  have "load32 m' (pte_ptr m cr3 (va + of_nat i)) = load32 m (pte_ptr m cr3 (va + of_nat i))"
    using assms by (auto simp: tables_apart_def load32_outside)
  then show "translate m' cr3 (va + of_nat i) = translate m cr3 (va + of_nat i)"
    by (simp add: translate_def 1 2)
qed

lemma user_mapped_step:
  assumes "user_mapped m cr3 va n a" "tables_apart m cr3 va n W" "\<forall>x. x \<notin> W \<longrightarrow> m' x = m x" "k < n"
  shows "user_mapped m' cr3 (va + of_nat k) (n - k) (\<lambda>i. a (k + i))"
    "tables_apart m' cr3 (va + of_nat k) (n - k) W"
proof -
  have "unat va + k < 2 ^ 32" using assms(1,4) by (simp add: user_mapped_def)
  then have u: "unat (va + of_nat k) = unat va + k" by (simp add: unat_word_ariths unat_of_nat)
  have e: "va + of_nat k + of_nat i = va + of_nat (k + i)" for i by simp
  show "user_mapped m' cr3 (va + of_nat k) (n - k) (\<lambda>i. a (k + i))"
    unfolding user_mapped_def u e
    using assms(1,4) tables_apart_walk [OF assms(2,3)] by (auto simp: user_mapped_def simp del: of_nat_add)
  show "tables_apart m' cr3 (va + of_nat k) (n - k) W"
    unfolding tables_apart_def e
    using assms(2) tables_apart_walk [OF assms(2,3)] by (auto simp: tables_apart_def simp del: of_nat_add)
qed

lemma kphys_low [simp]: "a < KOFFSET \<Longrightarrow> kphys a = a"
  by (auto simp: kphys_def in_kernel_def)

text \<open>The bytes of one page.\<close>

lemma user_mapped_page:
  assumes "user_mapped m cr3 va n a" "i < n" "unat va mod 4096 + i < 4096"
  shows "kphys (frame_addr (load32 m (pte_ptr m cr3 va)) + ((va AND 0xFFF) + of_nat i)) = a i"
proof -
  note sp = same_page [OF assms(3)]
  have "pde_ptr cr3 (va + of_nat i) = pde_ptr cr3 va" by (simp add: pde_ptr_def sp)
  moreover from this have "pte_ptr m cr3 (va + of_nat i) = pte_ptr m cr3 va" by (simp add: pte_ptr_def sp)
  ultimately have "translate m cr3 (va + of_nat i) =
      (if \<not> present (load32 m (pde_ptr cr3 va)) then None
       else if \<not> present (load32 m (pte_ptr m cr3 va)) then None
       else Some (frame_addr (load32 m (pte_ptr m cr3 va)) + ((va AND 0xFFF) + of_nat i)))"
    using sp(3) frame_or_offset [of _ "va + of_nat i"] by (simp add: translate_def)
  moreover have "translate m cr3 (va + of_nat i) = Some (a i)" "a i < KOFFSET"
    using assms(1,2) by (auto simp: user_mapped_def)
  ultimately show ?thesis by (simp split: if_splits)
qed


lemma copy_from_pages_0 [simp]: "copy_from_pages 0 pdir pde pte pa pent src m = Some m"
  by (subst copy_from_pages.simps) simp

lemma copy_to_pages_0 [simp]: "copy_to_pages 0 pdir pde pte pa pent dest m = Some m"
  by (subst copy_to_pages.simps) simp

lemma pent_walk:
  "pde_ptr cr3 va < KOFFSET \<Longrightarrow>
     frame_addr (load32 m (kphys (frame_addr cr3 + 4 * drop_bit 22 va))) + 4 * (drop_bit 12 va AND 0x3FF)
     = pte_ptr m cr3 va"
  by (simp add: pde_ptr_def pte_ptr_def)

lemma copy_from_pages_spec:
  assumes "user_mapped m cr3 dest (unat len) a" "tables_apart m cr3 dest (unat len) W"
    "\<forall>i < unat len. a i \<in> W"
  shows "copy_from_pages len (frame_addr cr3) (drop_bit 22 dest) (drop_bit 12 dest AND 0x3FF) (dest AND 0xFFF)
      (frame_addr (load32 m (kphys (frame_addr cr3 + 4 * drop_bit 22 dest)))) src m =
    Some (copy_bytes a (\<lambda>i. kphys (src + of_nat i)) (unat len) m)"
  using assms
proof (induction "unat len" arbitrary: dest len a src m rule: less_induct)
  case less
  show ?case
  proof (cases "len = 0")
    case True
    then show ?thesis by simp
  next
    case False
    then have n: "0 < unat len" by (simp add: unat_gt_0)
    define k where "k = min (4096 - unat dest mod 4096) (unat len)"
    have pa: "unat (dest AND 0xFFF) = unat dest mod 4096" by (rule field_offset)
    have pa_le: "(dest AND 0xFFF) \<le> 4095" by (simp add: word_le_nat_alt pa)
    have k: "0 < k" "k \<le> unat len" "k \<le> 4096 - unat dest mod 4096" using n by (simp_all add: k_def)
    have ptrs: "pde_ptr cr3 dest < KOFFSET" "pte_ptr m cr3 dest < KOFFSET"
      using less.prems(1) n unfolding user_mapped_def by (metis add_0_right semiring_1_class.of_nat_0)+
    let ?ptr = "frame_addr (load32 m (pte_ptr m cr3 dest))"
    define m1 where "m1 = copy_bytes a (\<lambda>i. kphys (src + of_nat i)) k m"
    have "copy_bytes (\<lambda>i. kphys (?ptr + ((dest AND 0xFFF) + of_nat i))) (\<lambda>i. kphys (src + of_nat i)) k m = m1"
      unfolding m1_def using k user_mapped_page [OF less.prems(1)] by (intro copy_bytes_cong) simp
    then have chunk: "copy_from_chunk ?ptr (dest AND 0xFFF) src len m = (src + of_nat k, len - of_nat k, m1)"
      using copy_from_chunk_spec [OF False pa_le, of k ?ptr src m] by (simp add: k_def pa)
    have m1: "\<forall>x. x \<notin> W \<longrightarrow> m1 x = m x"
      unfolding m1_def using k less.prems(3) by (auto intro!: copy_bytes_other)
    have len': "unat (len - of_nat k) = unat len - k"
      using k(2,3) by (subst unat_sub) (auto simp: word_le_nat_alt unat_of_nat)
    let ?pde = "drop_bit 22 dest" and ?pte = "drop_bit 12 dest AND (0x3FF :: u32)"
    let ?next = "if ?pte + 1 = 1024 then
        copy_from_pages (len - of_nat k) (frame_addr cr3) (?pde + 1) 0 0
          (frame_addr (load32 m1 (kphys (frame_addr cr3 + 4 * (?pde + 1))))) (src + of_nat k) m1
      else copy_from_pages (len - of_nat k) (frame_addr cr3) ?pde (?pte + 1) 0
          (frame_addr (load32 m (kphys (frame_addr cr3 + 4 * ?pde)))) (src + of_nat k) m1"
    have step: "copy_from_pages len (frame_addr cr3) ?pde ?pte (dest AND 0xFFF)
      (frame_addr (load32 m (kphys (frame_addr cr3 + 4 * ?pde)))) src m = ?next"
      using False pent_walk [OF ptrs(1), of m] ptrs(2)
      by (subst copy_from_pages.simps) (simp add: chunk NR_PTE_ENTRY_def)
    have "?next = Some (copy_bytes a (\<lambda>i. kphys (src + of_nat i)) (unat len) m)"
    proof (cases "k = unat len")
      case True
      then have "len - of_nat k = 0" using len' by (simp add: word_unat_eq_iff)
      then show ?thesis using True by (simp add: m1_def)
    next
      case False
      then have kk: "k = 4096 - unat dest mod 4096" "k < unat len" using k by (auto simp: k_def)
      have "unat dest + k < 2 ^ 32" using less.prems(1) kk(2) by (simp add: user_mapped_def)
      note np = next_page [OF kk(1) this]
      have eq: "load32 m1 (pde_ptr cr3 dest) = load32 m (pde_ptr cr3 dest)"
        using tables_apart_walk(1) [OF less.prems(2) m1, of 0] n by simp
      have pent: "frame_addr (load32 m (kphys (frame_addr cr3 + 4 * ?pde))) =
          frame_addr (load32 m1 (kphys (frame_addr cr3 + 4 * ?pde)))"
        using eq ptrs(1) by (simp add: pde_ptr_def)
      have "?next = copy_from_pages (len - of_nat k) (frame_addr cr3) (drop_bit 22 (dest + of_nat k))
          (drop_bit 12 (dest + of_nat k) AND 0x3FF) ((dest + of_nat k) AND 0xFFF)
          (frame_addr (load32 m1 (kphys (frame_addr cr3 + 4 * drop_bit 22 (dest + of_nat k))))) (src + of_nat k) m1"
        using np pent by (cases "?pte + 1 = 1024") simp_all
      also have "\<dots> = Some (copy_bytes (\<lambda>i. a (k + i)) (\<lambda>i. kphys (src + of_nat k + of_nat i)) (unat (len - of_nat k)) m1)"
        unfolding len'
        using user_mapped_step [OF less.prems(1,2) m1 kk(2)] less.prems(3) k n
        by (intro less.hyps [of "len - of_nat k", unfolded len']) auto
      also have "\<dots> = Some (copy_bytes a (\<lambda>i. kphys (src + of_nat i)) (unat len) m)"
        using copy_bytes_add [of a "\<lambda>i. kphys (src + of_nat i)" k "unat len - k" m] k(2)
        by (simp add: len' m1_def add.assoc)
      finally show ?thesis .
    qed
    with step show ?thesis by simp
  qed
qed

lemma copy_to_pages_spec:
  assumes "user_mapped m cr3 src (unat len) a" "tables_apart m cr3 src (unat len) W"
    "\<forall>i < unat len. kphys (dest + of_nat i) \<in> W"
  shows "copy_to_pages len (frame_addr cr3) (drop_bit 22 src) (drop_bit 12 src AND 0x3FF) (src AND 0xFFF)
      (frame_addr (load32 m (kphys (frame_addr cr3 + 4 * drop_bit 22 src)))) dest m =
    Some (copy_bytes (\<lambda>i. kphys (dest + of_nat i)) a (unat len) m)"
  using assms
proof (induction "unat len" arbitrary: src len a dest m rule: less_induct)
  case less
  show ?case
  proof (cases "len = 0")
    case True
    then show ?thesis by simp
  next
    case False
    then have n: "0 < unat len" by (simp add: unat_gt_0)
    define k where "k = min (4096 - unat src mod 4096) (unat len)"
    have pa: "unat (src AND 0xFFF) = unat src mod 4096" by (rule field_offset)
    have pa_le: "(src AND 0xFFF) \<le> 4095" by (simp add: word_le_nat_alt pa)
    have k: "0 < k" "k \<le> unat len" "k \<le> 4096 - unat src mod 4096" using n by (simp_all add: k_def)
    have ptrs: "pde_ptr cr3 src < KOFFSET" "pte_ptr m cr3 src < KOFFSET"
      using less.prems(1) n unfolding user_mapped_def by (metis add_0_right semiring_1_class.of_nat_0)+
    let ?ptr = "frame_addr (load32 m (pte_ptr m cr3 src))"
    define m1 where "m1 = copy_bytes (\<lambda>i. kphys (dest + of_nat i)) a k m"
    have "copy_bytes (\<lambda>i. kphys (dest + of_nat i)) (\<lambda>i. kphys (?ptr + ((src AND 0xFFF) + of_nat i))) k m = m1"
      unfolding m1_def using k user_mapped_page [OF less.prems(1)] by (intro copy_bytes_cong) simp
    then have chunk: "copy_to_chunk ?ptr (src AND 0xFFF) dest len m = (dest + of_nat k, len - of_nat k, m1)"
      using copy_to_chunk_spec [OF False pa_le, of k ?ptr dest m] by (simp add: k_def pa)
    have m1: "\<forall>x. x \<notin> W \<longrightarrow> m1 x = m x"
      unfolding m1_def using k less.prems(3) by (auto intro!: copy_bytes_other)
    have len': "unat (len - of_nat k) = unat len - k"
      using k(2,3) by (subst unat_sub) (auto simp: word_le_nat_alt unat_of_nat)
    let ?pde = "drop_bit 22 src" and ?pte = "drop_bit 12 src AND (0x3FF :: u32)"
    let ?next = "if ?pte + 1 = 1024 then
        copy_to_pages (len - of_nat k) (frame_addr cr3) (?pde + 1) 0 0
          (frame_addr (load32 m1 (kphys (frame_addr cr3 + 4 * (?pde + 1))))) (dest + of_nat k) m1
      else copy_to_pages (len - of_nat k) (frame_addr cr3) ?pde (?pte + 1) 0
          (frame_addr (load32 m (kphys (frame_addr cr3 + 4 * ?pde)))) (dest + of_nat k) m1"
    have step: "copy_to_pages len (frame_addr cr3) ?pde ?pte (src AND 0xFFF)
      (frame_addr (load32 m (kphys (frame_addr cr3 + 4 * ?pde)))) dest m = ?next"
      using False pent_walk [OF ptrs(1), of m] ptrs(2)
      by (subst copy_to_pages.simps) (simp add: chunk NR_PTE_ENTRY_def)
    have "?next = Some (copy_bytes (\<lambda>i. kphys (dest + of_nat i)) a (unat len) m)"
    proof (cases "k = unat len")
      case True
      then have "len - of_nat k = 0" using len' by (simp add: word_unat_eq_iff)
      then show ?thesis using True by (simp add: m1_def)
    next
      case False
      then have kk: "k = 4096 - unat src mod 4096" "k < unat len" using k by (auto simp: k_def)
      have "unat src + k < 2 ^ 32" using less.prems(1) kk(2) by (simp add: user_mapped_def)
      note np = next_page [OF kk(1) this]
      have eq: "load32 m1 (pde_ptr cr3 src) = load32 m (pde_ptr cr3 src)"
        using tables_apart_walk(1) [OF less.prems(2) m1, of 0] n by simp
      have pent: "frame_addr (load32 m (kphys (frame_addr cr3 + 4 * ?pde))) =
          frame_addr (load32 m1 (kphys (frame_addr cr3 + 4 * ?pde)))"
        using eq ptrs(1) by (simp add: pde_ptr_def)
      have "?next = copy_to_pages (len - of_nat k) (frame_addr cr3) (drop_bit 22 (src + of_nat k))
          (drop_bit 12 (src + of_nat k) AND 0x3FF) ((src + of_nat k) AND 0xFFF)
          (frame_addr (load32 m1 (kphys (frame_addr cr3 + 4 * drop_bit 22 (src + of_nat k))))) (dest + of_nat k) m1"
        using np pent by (cases "?pte + 1 = 1024") simp_all
      also have "\<dots> = Some (copy_bytes (\<lambda>i. kphys (dest + of_nat k + of_nat i)) (\<lambda>i. a (k + i)) (unat (len - of_nat k)) m1)"
        unfolding len'
        using user_mapped_step [OF less.prems(1,2) m1 kk(2)] less.prems(3) k n
        by (intro less.hyps [of "len - of_nat k", unfolded len'])
           (auto simp: add.assoc simp flip: of_nat_add)
      also have "\<dots> = Some (copy_bytes (\<lambda>i. kphys (dest + of_nat i)) a (unat len) m)"
        using copy_bytes_add [of "\<lambda>i. kphys (dest + of_nat i)" a k "unat len - k" m] k(2)
        by (simp add: len' m1_def add.assoc)
      finally show ?thesis .
    qed
    with step show ?thesis by simp
  qed
qed


text \<open>C22: \<open>copy_from_kernel\<close> returns, and then the \<open>length\<close> bytes of the kernel's buffer are, in
  order, at the physical addresses the process's tables map \<open>dest, dest + 1, \<dots>\<close> to, across pages
  and page tables; no other byte changes.\<close>

theorem copy_from_kernel_correct:
  assumes "user_mapped m cr3 dest (unat len) a"
    and "tables_apart m cr3 dest (unat len) (a ` {..<unat len})"
  shows "copy_from_kernel cr3 dest src len m =
    Some (copy_bytes a (\<lambda>i. kphys (src + of_nat i)) (unat len) m)"
  using copy_from_pages_spec [OF assms, of src] by (simp add: copy_from_kernel_def Let_def)

text \<open>\<open>copy_to_kernel\<close> returns, and the buffer at \<open>dest\<close> then holds the bytes the process sees
  at \<open>src, src + 1, \<dots>\<close>.\<close>

theorem copy_to_kernel_correct:
  assumes "user_mapped m cr3 src (unat len) a"
    and "tables_apart m cr3 src (unat len) ((\<lambda>i. kphys (dest + of_nat i)) ` {..<unat len})"
  shows "copy_to_kernel cr3 dest src len m =
    Some (copy_bytes (\<lambda>i. kphys (dest + of_nat i)) a (unat len) m)"
  using copy_to_pages_spec [OF assms, of dest] by (simp add: copy_to_kernel_def Let_def)


text \<open>A page directory at \<open>0x1000\<close>, one page table at \<open>0x2000\<close> with two pages at \<open>0x5000\<close> and
  \<open>0x9000\<close>, and a buffer at \<open>0x300\<close>.\<close>

definition two_pages :: memory where
  "two_pages = (store32 0x2004 0x9007 (store32 0x2000 0x5007 (store32 0x1000 0x2007 (\<lambda>_. 0))))
     (0x300 := 11, 0x301 := 22, 0x302 := 33)"

definition two_pages_at :: "nat \<Rightarrow> u32" where
  "two_pages_at i = (if i < 2 then 0x5FFE + of_nat i else 0x9000 + of_nat (i - 2))"

lemma less_3: "(i < (3::nat)) \<longleftrightarrow> i = 0 \<or> i = 1 \<or> i = 2"
  by auto

lemma two_pages_mapped: "user_mapped two_pages 0x1000 0xFFE 3 two_pages_at"
  unfolding user_mapped_def less_3
  by (auto simp: two_pages_def two_pages_at_def translate_def pde_ptr_def pte_ptr_def present_def
      frame_addr_def load32_def store32_def KOFFSET_def)


lemma copy_bytes_3:
  "copy_bytes d s 3 m = (let m = m(d 0 := m (s 0)); m = m(d 1 := m (s 1)) in m(d 2 := m (s 2)))"
  by (simp add: numeral_3_eq_3 numeral_2_eq_2 copy_bytes_Suc)

lemma two_pages_bytes: "two_pages 0x300 = 11" "two_pages 0x301 = 22" "two_pages 0x302 = 33"
  "two_pages 0x5FFE = 0" "two_pages 0x5FFF = 0"
  by (simp_all add: two_pages_def store32_def)

lemma two_pages_walk:
  assumes "i < 3"
  shows "pde_ptr 0x1000 (0xFFE + of_nat i) = 0x1000"
    "pte_ptr two_pages 0x1000 (0xFFE + of_nat i) = (if i < 2 then 0x2000 else 0x2004)"
proof -
  consider "i = 0" | "i = 1" | "i = 2" using assms unfolding less_3 by blast
  then show 1: "pde_ptr 0x1000 (0xFFE + of_nat i) = 0x1000"
    by cases (simp_all add: pde_ptr_def frame_addr_def)
  have pde: "load32 two_pages 0x1000 = 0x2007"
    by (simp add: two_pages_def load32_def store32_def)
  consider "i = 0" | "i = 1" | "i = 2" using assms unfolding less_3 by blast
  then show "pte_ptr two_pages 0x1000 (0xFFE + of_nat i) = (if i < 2 then 0x2000 else 0x2004)"
    unfolding pte_ptr_def 1 pde by cases (simp_all add: frame_addr_def)
qed

lemma two_pages_apart:
  assumes "\<forall>x \<in> W. x < 0x1000 \<or> 0x3000 \<le> x"
  shows "tables_apart two_pages 0x1000 0xFFE 3 W"
proof -
  have *: "x \<notin> W" if "0x1000 \<le> x" "x < 0x3000" for x
  proof
    assume "x \<in> W"
    then have "x < 0x1000 \<or> 0x3000 \<le> x" using assms by blast
    with that show False using leD by blast
  qed
  have "0x1000 \<notin> W" "0x1001 \<notin> W" "0x1002 \<notin> W" "0x1003 \<notin> W" "0x2000 \<notin> W" "0x2001 \<notin> W"
    "0x2002 \<notin> W" "0x2003 \<notin> W" "0x2004 \<notin> W" "0x2005 \<notin> W" "0x2006 \<notin> W" "0x2007 \<notin> W"
    by (rule *; simp)+
  then show ?thesis
    by (simp add: tables_apart_def two_pages_walk word_bytes_def)
qed

theorem copy_from_kernel_correct_witness:
  "copy_from_kernel 0x1000 0xFFE 0x300 3 two_pages =
     Some (two_pages(0x5FFE := 11, 0x5FFF := 22, 0x9000 := 33))"
proof -
  have "\<forall>x \<in> two_pages_at ` {..<3}. x < 0x1000 \<or> 0x3000 \<le> x"
    by (auto simp: two_pages_at_def less_3)
  from copy_from_kernel_correct [where m = two_pages and dest = "0xFFE" and len = 3 and ?cr3.0 = "0x1000"
      and a = two_pages_at and src = "0x300"]
    two_pages_mapped two_pages_apart [OF this]
  have "copy_from_kernel 0x1000 0xFFE 0x300 3 two_pages =
    Some (copy_bytes two_pages_at (\<lambda>i. kphys (0x300 + of_nat i)) 3 two_pages)" by simp
  also have "copy_bytes two_pages_at (\<lambda>i. kphys (0x300 + of_nat i)) 3 two_pages =
      two_pages(0x5FFE := 11, 0x5FFF := 22, 0x9000 := 33)"
    by (simp add: copy_bytes_3 Let_def two_pages_at_def kphys_def in_kernel_def KOFFSET_def
        two_pages_bytes)
  finally show ?thesis .
qed

theorem copy_to_kernel_correct_witness:
  "copy_to_kernel 0x1000 0x400 0xFFE 3 (two_pages(0x9000 := 7)) =
     Some (two_pages(0x9000 := 7, 0x400 := 0, 0x401 := 0, 0x402 := 7))"
proof -
  let ?m = "two_pages(0x9000 := 7)"
  have d: "(\<lambda>i. kphys (0x400 + of_nat i)) ` {..<3} = {0x400, 0x401, 0x402}"
  proof -
    have "{..<3} = {0, 1, 2 :: nat}" by auto
    then show ?thesis by (simp add: kphys_def in_kernel_def KOFFSET_def)
  qed
  have eq: "\<forall>x. x \<notin> {0x9000} \<longrightarrow> ?m x = two_pages x" by simp
  have tw: "tables_apart two_pages 0x1000 0xFFE 3 {0x9000}" by (rule two_pages_apart) simp
  have td: "tables_apart two_pages 0x1000 0xFFE 3 {0x400, 0x401, 0x402}" by (rule two_pages_apart) simp
  have um: "user_mapped ?m 0x1000 0xFFE 3 two_pages_at"
    using user_mapped_step(1) [OF two_pages_mapped tw eq, of 0] by (simp add: fun_upd_def)
  have "tables_apart ?m 0x1000 0xFFE 3 {0x400, 0x401, 0x402}"
    using td tables_apart_walk(2) [OF tw eq] by (simp add: tables_apart_def fun_upd_def)
  from copy_to_kernel_correct [where m = ?m and src = "0xFFE" and len = 3 and ?cr3.0 = "0x1000"
      and a = two_pages_at and dest = "0x400"] um this
  have "copy_to_kernel 0x1000 0x400 0xFFE 3 ?m =
    Some (copy_bytes (\<lambda>i. kphys (0x400 + of_nat i)) two_pages_at 3 ?m)" by (simp add: d)
  also have "copy_bytes (\<lambda>i. kphys (0x400 + of_nat i)) two_pages_at 3 ?m =
      ?m(0x400 := 0, 0x401 := 0, 0x402 := 7)"
    by (simp add: copy_bytes_3 Let_def two_pages_at_def kphys_def in_kernel_def KOFFSET_def
        two_pages_bytes)
  finally show ?thesis .
qed

end
