(* ===== verification/Mm.thy ===== *)
theory Mm
  imports Paging Message
begin

text \<open>
  The memory server (kernel/mm.c): the table of page frames in use, building, copying and
  releasing the address space of a process, and one round of the server.

  \<open>MM\<close> runs with the kernel's page directory, so every pointer it follows is a physical
  address or a kernel address. \<open>Ppage_flag id\<close> is the byte at \<open>Ppage_flag + id\<close>: the array has
  \<open>NR_PPAGE_ENTRY\<close> of them, and the code also reaches bytes after them. They are kept beside the
  memory that page tables and pages live in.
\<close>

section \<open>Page frames\<close>

record mm =
  mm_mem :: memory
  Ppage_flag :: "u32 \<Rightarrow> u8"

definition NR_PPAGE_ENTRY :: nat where
  "NR_PPAGE_ENTRY = unat ((USER_MEM_HIGH - USER_MEM_LOW) div PAGE_SIZE)"

definition init_MM :: "mm \<Rightarrow> mm" where
  "init_MM s = s\<lparr>Ppage_flag := fold (\<lambda>i f. f(of_nat i := 0)) [0..<NR_PPAGE_ENTRY] (Ppage_flag s)\<rparr>"

definition count_empty_page :: "mm \<Rightarrow> nat" where
  "count_empty_page s =
     fold (\<lambda>i total. if Ppage_flag s (of_nat i) = 0 then Suc total else total) [0..<NR_PPAGE_ENTRY] 0"

definition id_to_pa :: "u32 \<Rightarrow> u32" where
  "id_to_pa i = USER_MEM_LOW + i * PAGE_SIZE"

definition pa_to_id :: "u32 \<Rightarrow> u32" where
  "pa_to_id pa = (pa - USER_MEM_LOW) div PAGE_SIZE"

definition allocate_memory :: "mm \<Rightarrow> error + u32 \<times> mm" where
  "allocate_memory s =
     (case first_index (\<lambda>i. Ppage_flag s (of_nat i) = 0) [0..<NR_PPAGE_ENTRY] of
        Some i \<Rightarrow> Inr (id_to_pa (of_nat i), s\<lparr>Ppage_flag := (Ppage_flag s)(of_nat i := 1)\<rparr>)
      | None \<Rightarrow> panic ''Physical Page is full!\<newline>'')"

definition free_memory :: "u32 \<Rightarrow> mm \<Rightarrow> mm" where
  "free_memory addr s =
     s\<lparr>Ppage_flag := (Ppage_flag s)(pa_to_id addr := Ppage_flag s (pa_to_id addr) - 1)\<rparr>"

definition share_memory :: "u32 \<Rightarrow> mm \<Rightarrow> mm" where
  "share_memory addr s =
     s\<lparr>Ppage_flag := (Ppage_flag s)(pa_to_id addr := Ppage_flag s (pa_to_id addr) + 1)\<rparr>"

definition copy_memory :: "u32 \<Rightarrow> u32 \<Rightarrow> memory \<Rightarrow> memory" where
  "copy_memory src dest m =
     fold (\<lambda>i m. m(kphys (dest + of_nat i) := m (kphys (src + of_nat i)))) [0..<unat PAGE_SIZE] m"

section \<open>Entries of the tables\<close>

definition entry :: "mm \<Rightarrow> u32 \<Rightarrow> u32" where
  "entry s p = load32 (mm_mem s) (kphys p)"

definition Page_Directory_Fault :: "mm \<Rightarrow> u32 \<Rightarrow> bool" where
  "Page_Directory_Fault s p \<longleftrightarrow> \<not> present (entry s p)"

definition Page_Table_Fault :: "mm \<Rightarrow> u32 \<Rightarrow> bool" where
  "Page_Table_Fault s p \<longleftrightarrow> \<not> present (entry s p)"

section \<open>Allocating\<close>

text \<open>The page table of a directory entry, made and cleared when there is none.\<close>

definition allocate_table :: "u32 \<Rightarrow> mm \<Rightarrow> error + u32 \<times> mm" where
  "allocate_table pde_p s =
     (if Page_Directory_Fault s pde_p then
        bindE (allocate_memory s) (\<lambda>(addr, s).
          Inr (addr, mm_mem_update (fold (\<lambda>i. make_invalid_pte (word_at addr i)) [0..<NR_PTE_ENTRY]
                       \<circ> make_pde pde_p addr) s))
      else Inr (frame_addr (entry s pde_p), s))"

text \<open>The inner loop, with \<open>n\<close> entries left in the table.\<close>

fun allocate_ptes :: "nat \<Rightarrow> u32 \<Rightarrow> u32 \<Rightarrow> mm \<Rightarrow> error + u32 \<times> mm" where
  "allocate_ptes 0 pent len s = Inr (len, s)"
| "allocate_ptes (Suc n) pent len s =
     (if \<not> Page_Table_Fault s pent then panic ''Virtual Page Overlap!\<newline>''
      else bindE (allocate_memory s) (\<lambda>(addr, s).
        let s = mm_mem_update (make_pte pent addr) s; len = len - 1
        in if len = 0 then Inr (len, s) else allocate_ptes n (pent + 4) len s))"

lemma allocate_ptes_less:
  "allocate_ptes n pent len s = Inr (len', s') \<Longrightarrow> len \<noteq> 0 \<Longrightarrow> 0 < n \<Longrightarrow> unat len' < unat len"
proof (induction n pent len s rule: allocate_ptes.induct)
  case (2 n pent len s)
  have "unat (len - 1) < unat len" using \<open>len \<noteq> 0\<close> by (simp add: unat_minus_one unat_gt_0)
  show ?case
  proof (cases "len - 1 = 0 \<or> n = 0")
    case True
    then show ?thesis using "2.prems" \<open>unat (len - 1) < unat len\<close>
      by (auto simp: bindE_eq_Inr Let_def split: if_splits)
  next
    case False
    with "2.prems" obtain addr s1 where r: "\<not> (\<not> Page_Table_Fault s pent)" "allocate_memory s = Inr (addr, s1)"
      "allocate_ptes n (pent + 4) (len - 1) (mm_mem_update (make_pte pent addr) s1) = Inr (len', s')"
      by (auto simp: bindE_eq_Inr Let_def panic_def split: if_splits)
    have "unat len' < unat (len - 1)"
      using "2.IH" [OF r(1,2) refl refl refl _ r(3)] False by blast
    with \<open>unat (len - 1) < unat len\<close> show ?thesis by simp
  qed
qed simp

function allocate_pages :: "u32 \<Rightarrow> u32 \<Rightarrow> u32 \<Rightarrow> u32 \<Rightarrow> mm \<Rightarrow> error + mm" where
  "allocate_pages pdir pde pte len s =
     (if len = 0 then Inr s
      else bindE (allocate_table (pdir + 4 * pde) s) (\<lambda>(pent, s).
             bindE (allocate_ptes (NR_PTE_ENTRY - unat pte) (pent + 4 * pte) len s) (\<lambda>(len, s).
               allocate_pages pdir (pde + 1) 0 len s)))"
  by pat_completeness auto
termination
proof (relation "measures [\<lambda>(pdir, pde, pte, len, s). unat len, \<lambda>(pdir, pde, pte, len, s). unat pte]", goal_cases)
  case (2 pdir pde pte len s r pent s1 r' len' s2)
  then have a: "allocate_ptes (NR_PTE_ENTRY - unat pte) (pent + 4 * pte) len s1 = Inr (len', s2)"
    by simp
  show ?case
  proof (cases "unat pte < NR_PTE_ENTRY")
    case True
    then show ?thesis using allocate_ptes_less [OF a] 2 by auto
  next
    case False
    then have "len' = len" using a by simp
    then show ?thesis using False 2 by (auto simp: NR_PTE_ENTRY_def)
  qed
qed simp

declare allocate_pages.simps [simp del]

text \<open>\<open>pagedir\<close> is the address of \<open>pcb -> pagedir\<close>.\<close>

definition allocate_page :: "u32 \<Rightarrow> u32 \<Rightarrow> u32 \<Rightarrow> mm \<Rightarrow> error + mm" where
  "allocate_page pagedir start len s =
     allocate_pages pagedir (drop_bit 22 start) (drop_bit 12 start AND 0x3FF) len s"


section \<open>Releasing\<close>

text \<open>One directory entry of \<open>exec_page\<close> and \<open>exit_page\<close>.\<close>

definition release_table :: "u32 \<Rightarrow> nat \<Rightarrow> mm \<Rightarrow> mm" where
  "release_table pdir i s =
     (if Page_Directory_Fault s (word_at pdir i) then s
      else
        let pent = frame_addr (entry s (word_at pdir i));
            s = fold (\<lambda>j s. if Page_Table_Fault s (word_at pent j) then s
                            else free_memory (frame_addr (entry s (word_at pent j))) s)
                  [0..<NR_PTE_ENTRY] s;
            s = free_memory (frame_addr (entry s (word_at pdir i))) s
        in mm_mem_update (make_invalid_pde (word_at pdir i)) s)"

definition exec_page :: "u32 \<Rightarrow> mm \<Rightarrow> error + mm" where
  "exec_page pagedir s =
     allocate_page pagedir (0xC0000000 - 1) 1
       (fold (release_table pagedir) [0..<(NR_PDE_ENTRY div 4) * 3] s)"

definition exit_page :: "u32 \<Rightarrow> mm \<Rightarrow> mm" where
  "exit_page pagedir s = fold (release_table pagedir) [0..<NR_PDE_ENTRY] s"

section \<open>Copying an address space\<close>

text \<open>One entry of a page table, one directory entry below \<open>KOFFSET\<close>, one above it.\<close>

definition copy_pte :: "u32 \<Rightarrow> u32 \<Rightarrow> nat \<Rightarrow> mm \<Rightarrow> error + mm" where
  "copy_pte pent_source pent_target j s =
     (if \<not> Page_Table_Fault s (word_at pent_source j) then
        bindE (allocate_memory s) (\<lambda>(addr, s).
          let s = mm_mem_update (make_pte (word_at pent_target j) addr) s
          in Inr (mm_mem_update (copy_memory (frame_addr (entry s (word_at pent_source j))) addr) s))
      else Inr (mm_mem_update (make_invalid_pte (word_at pent_target j)) s))"

definition copy_user_pde :: "u32 \<Rightarrow> u32 \<Rightarrow> nat \<Rightarrow> mm \<Rightarrow> error + mm" where
  "copy_user_pde pdir_source pdir_target i s =
     (if \<not> Page_Directory_Fault s (word_at pdir_source i) then
        let pent_source = frame_addr (entry s (word_at pdir_source i))
        in bindE (allocate_memory s) (\<lambda>(addr, s).
             forE (copy_pte pent_source addr) [0..<NR_PTE_ENTRY]
               (mm_mem_update (make_pde (word_at pdir_target i) addr) s))
      else Inr (mm_mem_update (make_invalid_pde (word_at pdir_target i)) s))"

definition share_kernel_pde :: "u32 \<Rightarrow> u32 \<Rightarrow> nat \<Rightarrow> mm \<Rightarrow> mm" where
  "share_kernel_pde pdir_source pdir_target i s =
     (if \<not> Page_Directory_Fault s (word_at pdir_source i) then
        let table = frame_addr (entry s (word_at pdir_source i));
            s = mm_mem_update (make_pde (word_at pdir_target i) table) s
        in share_memory (frame_addr (entry s (word_at pdir_source i))) s
      else mm_mem_update (make_invalid_pde (word_at pdir_target i)) s)"

text \<open>The result is paired with the new \<open>cr3\<close> of the target.\<close>

definition copy_page :: "u32 \<Rightarrow> u32 \<Rightarrow> mm \<Rightarrow> error + u32 \<times> mm" where
  "copy_page pdir_source pdir_target s =
     bindE (forE (copy_user_pde pdir_source pdir_target) [0..<(NR_PDE_ENTRY div 4) * 3] s) (\<lambda>s.
       Inr (make_cr3 (va_to_pa pdir_target),
            fold (share_kernel_pde pdir_source pdir_target)
              [(NR_PDE_ENTRY div 4) * 3..<NR_PDE_ENTRY] s))"

section \<open>Freeing a range\<close>

text \<open>The middle loop of \<open>free_page\<close> from entry \<open>i\<close> on, with \<open>n\<close> entries left: it also returns the
  entry it stopped at.\<close>

fun free_ptes :: "nat \<Rightarrow> nat \<Rightarrow> u32 \<Rightarrow> u32 \<Rightarrow> mm \<Rightarrow> error + nat \<times> u32 \<times> mm" where
  "free_ptes 0 i pent len s = Inr (i, len, s)"
| "free_ptes (Suc n) i pent len s =
     (if Page_Table_Fault s (word_at pent i) then panic ''Free Unused Page!\<newline>''
      else
        let s = free_memory (frame_addr (entry s (word_at pent i))) s;
            s = mm_mem_update (make_invalid_pte (word_at pent i)) s;
            len = len - 1
        in if len = 0 then Inr (i, len, s) else free_ptes n (Suc i) pent len s)"

lemma free_ptes_less:
  "free_ptes n i pent len s = Inr (i', len', s') \<Longrightarrow> len \<noteq> 0 \<Longrightarrow> 0 < n \<Longrightarrow> unat len' < unat len"
proof (induction n i pent len s rule: free_ptes.induct)
  case (2 n i pent len s)
  have less: "unat (len - 1) < unat len" using \<open>len \<noteq> 0\<close> by (simp add: unat_minus_one unat_gt_0)
  show ?case
  proof (cases "len - 1 = 0 \<or> n = 0")
    case True
    then show ?thesis using "2.prems" less by (auto simp: Let_def panic_def split: if_splits)
  next
    case False
    with "2.prems" have ok: "\<not> Page_Table_Fault s (word_at pent i)" by (auto simp: panic_def split: if_splits)
    have "unat len' < unat (len - 1)"
      using "2.prems" False ok by (intro "2.IH" [OF ok refl refl refl]) (auto simp: Let_def split: if_splits)
    with less show ?thesis by simp
  qed
qed simp

function free_pages :: "u32 \<Rightarrow> u32 \<Rightarrow> u32 \<Rightarrow> u32 \<Rightarrow> mm \<Rightarrow> error + mm" where
  "free_pages pdir pde pte len s =
     (if len = 0 then Inr s
      else if Page_Directory_Fault s (pdir + 4 * pde) then panic ''Free Unused Page!\<newline>''
      else
        let pent = frame_addr (entry s (pdir + 4 * pde));
            clean_pd = (\<forall>i \<in> set [0..<unat pte]. Page_Table_Fault s (word_at pent i))
        in bindE (free_ptes (NR_PTE_ENTRY - unat pte) (unat pte) pent len s) (\<lambda>(i, len, s).
             let clean_pd = (clean_pd \<and> (\<forall>j \<in> set [i..<NR_PTE_ENTRY]. Page_Table_Fault s (word_at pent j)));
                 s = (if clean_pd then
                        let s = free_memory (frame_addr (entry s (pdir + 4 * pde))) s
                        in mm_mem_update (make_invalid_pde (pdir + 4 * pde)) s
                      else s)
             in free_pages pdir (pde + 1) 0 len s))"
  by pat_completeness auto
termination
proof (relation "measures [\<lambda>(pdir, pde, pte, len, s). unat len, \<lambda>(pdir, pde, pte, len, s). unat pte]", goal_cases)
  case (2 pdir pde pte len s pent clean r i y len' s2 clean' s3)
  then have a: "free_ptes (NR_PTE_ENTRY - unat pte) (unat pte) pent len s = Inr (i, len', s2)"
    by simp
  show ?case
  proof (cases "unat pte < NR_PTE_ENTRY")
    case True
    then show ?thesis using free_ptes_less [OF a] 2 by auto
  next
    case False
    then have "len' = len" using a by simp
    then show ?thesis using False 2 by (auto simp: NR_PTE_ENTRY_def)
  qed
qed simp

declare free_pages.simps [simp del]

definition free_page :: "u32 \<Rightarrow> u32 \<Rightarrow> u32 \<Rightarrow> mm \<Rightarrow> error + mm" where
  "free_page pagedir start len s =
     free_pages pagedir (drop_bit 22 start) (drop_bit 12 start AND 0x3FF) len s"

section \<open>A new address space\<close>

definition init_kernel_table :: "u32 \<Rightarrow> nat \<Rightarrow> mm \<Rightarrow> error + mm" where
  "init_kernel_table pdir i s =
     bindE (allocate_memory s) (\<lambda>(addr, s).
       Inr (mm_mem_update
         (fold (\<lambda>j. make_pte (word_at addr j) (push_bit 12 (of_nat (i * NR_PTE_ENTRY + j)))) [0..<NR_PTE_ENTRY]
          \<circ> make_pde (word_at pdir (i + unat (KOFFSET div PD_SIZE))) addr) s))"

definition init_user_page :: "u32 \<Rightarrow> mm \<Rightarrow> error + u32 \<times> mm" where
  "init_user_page pagedir s =
     (let s = mm_mem_update (fold (\<lambda>i. make_invalid_pde (word_at pagedir i)) [0..<NR_PDE_ENTRY]) s
      in bindE (forE (init_kernel_table pagedir) [0..<unat (USER_MEM_LOW div PD_SIZE)] s) (\<lambda>s.
         bindE (allocate_page pagedir (0xC0000000 - 1) 1 s) (\<lambda>s.
           Inr (make_cr3 (va_to_pa pagedir), s))))"

end
