(* ===== verification/AddressSpace.thy ===== *)
theory AddressSpace
  imports Mm
begin

text \<open>
  Address spaces: what the page tables that kernel/mm.c builds mean, as a map from page numbers
  to page frames, and what each operation of the memory server does to it.
\<close>

section \<open>Frames\<close>

definition user_frame :: "u32 \<Rightarrow> bool" where
  "user_frame f \<longleftrightarrow> 4096 dvd unat f \<and> 0x1000000 \<le> unat f \<and> unat f < 0x8000000"

definition in_use :: "mm \<Rightarrow> u32 \<Rightarrow> bool" where
  "in_use s f \<longleftrightarrow> Ppage_flag s (pa_to_id f) \<noteq> 0"

lemma NR_PPAGE_ENTRY_val [simp]: "NR_PPAGE_ENTRY = 28672"
  by (simp add: NR_PPAGE_ENTRY_def USER_MEM_HIGH_def USER_MEM_LOW_def PAGE_SIZE_def)

lemma unat_id_to_pa: "i < 28672 \<Longrightarrow> unat (id_to_pa (of_nat i)) = 0x1000000 + i * 4096"
  by (simp add: id_to_pa_def USER_MEM_LOW_def PAGE_SIZE_def unat_word_ariths unat_of_nat)

lemma unat_pa_to_id: "user_frame f \<Longrightarrow> unat (pa_to_id f) = (unat f - 0x1000000) div 4096"
  unfolding pa_to_id_def user_frame_def
  by (simp add: unat_div_distrib USER_MEM_LOW_def PAGE_SIZE_def unat_sub word_le_nat_alt)

lemma pa_to_id_to_pa [simp]: "i < 28672 \<Longrightarrow> pa_to_id (id_to_pa (of_nat i)) = of_nat i"
proof -
  assume i: "i < 28672"
  then have "user_frame (id_to_pa (of_nat i))" by (simp add: user_frame_def unat_id_to_pa)
  then have "unat (pa_to_id (id_to_pa (of_nat i))) = i" using i by (simp add: unat_pa_to_id unat_id_to_pa)
  then show ?thesis using i by (simp add: word_unat_eq_iff unat_of_nat)
qed

lemma user_frame_id:
  assumes "user_frame f"
  obtains i where "i < 28672" "f = id_to_pa (of_nat i)" "pa_to_id f = of_nat i"
proof -
  obtain k where k: "unat f = 4096 * k" using assms by (auto simp: user_frame_def)
  define i where "i = k - 4096"
  have i: "i < 28672" "4096 \<le> k" using assms k by (auto simp: user_frame_def i_def)
  have "f = id_to_pa (of_nat i)"
    using i(2) k by (simp add: word_unat_eq_iff unat_id_to_pa [OF i(1)]) (simp add: i_def)
  with i show thesis by (intro that) auto
qed

lemma pa_to_id_inj: "user_frame f \<Longrightarrow> user_frame g \<Longrightarrow> pa_to_id f = pa_to_id g \<longleftrightarrow> f = g"
  by (metis user_frame_id pa_to_id_to_pa)

lemma user_frame_arrays:
  assumes "user_frame f"
  shows "warray f 1024" "aligned4 f"
  using assms by (auto simp: user_frame_def warray_def aligned4_def)

lemma user_frames_apart:
  assumes "user_frame f" "user_frame g" "f \<noteq> g"
  shows "apart f 1024 g 1024"
proof -
  obtain a b where ab: "unat f = 4096 * a" "unat g = 4096 * b"
    using assms by (auto simp: user_frame_def dvd_def)
  then have "a \<noteq> b" using assms(3) by (auto simp: word_unat_eq_iff)
  then have "a < b \<or> b < a" by auto
  then show ?thesis by (auto simp: apart_def ab)
qed

lemma user_frame_low: "user_frame f \<Longrightarrow> k < 1024 \<Longrightarrow> word_at f k < KOFFSET"
  using unat_word_at [OF user_frame_arrays(1)] 
  by (simp add: user_frame_def KOFFSET_def word_less_nat_alt)

lemma frame_of_user_frame [simp]: "user_frame f \<Longrightarrow> frame_addr (entry_for f) = f"
  "user_frame f \<Longrightarrow> present (entry_for f)"
  by (simp_all add: frame_entry_for user_frame_def)

text \<open>What \<open>allocate_memory\<close> returns.\<close>

lemma allocate_memory_Inr:
  assumes "allocate_memory s = Inr (addr, s')"
  shows "user_frame addr" "\<not> in_use s addr" "mm_mem s' = mm_mem s"
    "Ppage_flag s' = (Ppage_flag s)(pa_to_id addr := 1)"
    "\<And>f. user_frame f \<Longrightarrow> unat f < unat addr \<Longrightarrow> in_use s f"
proof -
  from assms obtain i where i: "first_index (\<lambda>i. Ppage_flag s (of_nat i) = 0) [0..<28672] = Some i"
    and a: "addr = id_to_pa (of_nat i)" "s' = s\<lparr>Ppage_flag := (Ppage_flag s)(of_nat i := 1)\<rparr>"
    by (auto simp: allocate_memory_def simp del: upt_rec_numeral split: option.splits)
  have lt: "i < 28672" "Ppage_flag s (of_nat i) = 0"
    using first_index_Some [OF i] by (simp_all del: upt_rec_numeral)
  then show "user_frame addr" "\<not> in_use s addr" "mm_mem s' = mm_mem s"
    "Ppage_flag s' = (Ppage_flag s)(pa_to_id addr := 1)"
    by (simp_all add: a user_frame_def unat_id_to_pa in_use_def)
  fix f assume f: "user_frame f" "unat f < unat addr"
  obtain j where j: "j < 28672" "f = id_to_pa (of_nat j)" "pa_to_id f = of_nat j"
    using user_frame_id [OF f(1)] .
  then have "j < i" using f(2) lt by (simp add: a unat_id_to_pa)
  then show "in_use s f"
    using first_index_upt_least [OF i, of j] j by (simp add: in_use_def)
qed

lemma allocate_memory_Inl:
  assumes "allocate_memory s = Inl e"
  shows "e = Panic ''Physical Page is full!\<newline>''" "\<And>f. user_frame f \<Longrightarrow> in_use s f"
proof -
  from assms show "e = Panic ''Physical Page is full!\<newline>''"
    by (auto simp: allocate_memory_def panic_def split: option.splits)
  from assms have "first_index (\<lambda>i. Ppage_flag s (of_nat i) = 0) [0..<28672] = None"
    by (auto simp: allocate_memory_def simp del: upt_rec_numeral split: option.splits)
  then have *: "Ppage_flag s (of_nat i) \<noteq> 0" if "i < 28672" for i
    using that unfolding first_index_None by (simp del: upt_rec_numeral)
  show "in_use s f" if "user_frame f" for f
  proof -
    obtain i where "i < 28672" "pa_to_id f = of_nat i" using user_frame_id [OF \<open>user_frame f\<close>] .
    then show ?thesis using * by (simp add: in_use_def)
  qed
qed

section \<open>Page tables as a map\<close>

text \<open>A page directory at kernel address \<open>pd\<close>, within the kernel's memory.\<close>

definition good_dir :: "u32 \<Rightarrow> bool" where
  "good_dir pd \<longleftrightarrow> KOFFSET \<le> pd \<and> 4096 dvd unat (va_to_pa pd) \<and> unat (va_to_pa pd) + 4096 \<le> 0x1000000"

definition dir :: "memory \<Rightarrow> u32 \<Rightarrow> nat \<Rightarrow> u32" where
  "dir m pd i = load32 m (word_at (va_to_pa pd) i)"

definition tab :: "memory \<Rightarrow> u32 \<Rightarrow> nat \<Rightarrow> u32" where
  "tab m pd i = frame_addr (dir m pd i)"

definition pte :: "memory \<Rightarrow> u32 \<Rightarrow> nat \<Rightarrow> nat \<Rightarrow> u32" where
  "pte m pd i j = load32 m (word_at (tab m pd i) j)"

definition vmap :: "memory \<Rightarrow> u32 \<Rightarrow> nat \<Rightarrow> u32 option" where
  "vmap m pd v =
     (if present (dir m pd (v div 1024)) \<and> present (pte m pd (v div 1024) (v mod 1024))
      then Some (frame_addr (pte m pd (v div 1024) (v mod 1024))) else None)"

definition tables :: "memory \<Rightarrow> u32 \<Rightarrow> u32 set" where
  "tables m pd = {tab m pd i | i. i < 1024 \<and> present (dir m pd i)}"

definition wf_space :: "mm \<Rightarrow> u32 \<Rightarrow> bool" where
  "wf_space s pd \<longleftrightarrow> good_dir pd \<and>
     (\<forall>f \<in> tables (mm_mem s) pd. user_frame f \<and> in_use s f) \<and>
     inj_on (tab (mm_mem s) pd) {i. i < 1024 \<and> present (dir (mm_mem s) pd i)}"

lemma good_dir_arrays:
  assumes "good_dir pd"
  shows "warray (va_to_pa pd) 1024"
    "\<And>f. user_frame f \<Longrightarrow> apart (va_to_pa pd) 1024 f 1024"
    "\<And>f. user_frame f \<Longrightarrow> apart f 1024 (va_to_pa pd) 1024"
  using assms by (auto simp: good_dir_def warray_def aligned4_def apart_def user_frame_def)

lemma kphys_dir:
  assumes "good_dir pd" "i < 1024"
  shows "kphys (word_at pd i) = word_at (va_to_pa pd) i"
proof -
  have *: "unat (va_to_pa pd) = unat pd - unat KOFFSET" "KOFFSET \<le> pd"
    using assms(1) by (auto simp: good_dir_def va_to_pa_def unat_sub)
  then have "unat pd + 4096 \<le> 2 ^ 32"
    using assms(1) unfolding good_dir_def KOFFSET_def word_le_nat_alt by auto
  then have "unat (word_at pd i) = unat pd + 4 * i"
    using assms(2) by (simp add: word_at_def unat_word_ariths unat_of_nat)
  then have "KOFFSET \<le> word_at pd i" using * by (simp add: word_le_nat_alt)
  then show ?thesis by (simp add: kphys_def in_kernel_def word_at_def va_to_pa_def algebra_simps)
qed

lemma word_at_of_nat: "p + 4 * of_nat i = word_at p i"
  by (simp add: word_at_def)

lemma entry_dir: "good_dir pd \<Longrightarrow> i < 1024 \<Longrightarrow> entry s (word_at pd i) = dir (mm_mem s) pd i"
  by (simp add: entry_def dir_def kphys_dir)

lemma entry_tab: "user_frame f \<Longrightarrow> j < 1024 \<Longrightarrow> entry s (word_at f j) = load32 (mm_mem s) (word_at f j)"
  by (simp add: entry_def user_frame_low)

lemma wf_space_tab:
  assumes "wf_space s pd" "i < 1024" "present (dir (mm_mem s) pd i)"
  shows "user_frame (tab (mm_mem s) pd i)" "in_use s (tab (mm_mem s) pd i)"
  using assms by (auto simp: wf_space_def tables_def)

lemma wf_space_dir: "wf_space s pd \<Longrightarrow> good_dir pd"
  by (simp add: wf_space_def)

text \<open>The connection with what the processor does.\<close>

lemma translate_vmap:
  assumes "good_dir pd"
  shows "translate m (make_cr3 (va_to_pa pd)) va =
    map_option (\<lambda>f. f OR (va AND 0xFFF)) (vmap m pd (unat va div 4096))"
proof -
  have "frame_addr (make_cr3 (va_to_pa pd)) = va_to_pa pd"
    using assms by (auto simp: good_dir_def make_cr3_def frame_addr_def word_unat_eq_iff
        unat_frame_addr [unfolded frame_addr_def])
  then have pde: "pde_ptr (make_cr3 (va_to_pa pd)) va = word_at (va_to_pa pd) (unat va div 4096 div 1024)"
    by (simp add: pde_ptr_def word_at_def field_pde [symmetric] flip: div_mult2_eq)
  then have d: "load32 m (pde_ptr (make_cr3 (va_to_pa pd)) va) = dir m pd (unat va div 4096 div 1024)"
    by (simp add: dir_def)
  have "pte_ptr m (make_cr3 (va_to_pa pd)) va =
      word_at (tab m pd (unat va div 4096 div 1024)) (unat va div 4096 mod 1024)"
    by (simp add: pte_ptr_def d tab_def word_at_def field_pte [symmetric])
  then have "load32 m (pte_ptr m (make_cr3 (va_to_pa pd)) va) =
      pte m pd (unat va div 4096 div 1024) (unat va div 4096 mod 1024)"
    by (simp add: pte_def)
  with d show ?thesis by (simp add: translate_def vmap_def)
qed

section \<open>Stores into the tables\<close>

text \<open>Storing an entry into a page table of the space changes one entry of the map.\<close>

lemma store_pte:
  assumes wf: "wf_space s pd" and i: "i < 1024" "present (dir (mm_mem s) pd i)" and j: "j < 1024"
    and m': "m' = store32 (word_at (tab (mm_mem s) pd i) j) e (mm_mem s)"
  shows "\<And>k. k < 1024 \<Longrightarrow> dir m' pd k = dir (mm_mem s) pd k"
    "\<And>k l. k < 1024 \<Longrightarrow> l < 1024 \<Longrightarrow> present (dir (mm_mem s) pd k) \<Longrightarrow>
       pte m' pd k l = (if k = i \<and> l = j then e else pte (mm_mem s) pd k l)"
proof -
  let ?m = "mm_mem s"
  note uf = wf_space_tab(1) [OF wf]
  have gd: "good_dir pd" by (rule wf_space_dir [OF wf])
  show 1: "dir m' pd k = dir ?m pd k" if "k < 1024" for k
    unfolding dir_def m'
    by (rule load_store_apart [OF good_dir_arrays(1) [OF gd] user_frame_arrays(1) [OF uf [OF i]]
          good_dir_arrays(2) [OF gd uf [OF i]] that j])
  show "pte m' pd k l = (if k = i \<and> l = j then e else pte ?m pd k l)"
    if k: "k < 1024" "present (dir ?m pd k)" and l: "l < 1024" for k l
  proof (cases "k = i")
    case True
    then show ?thesis
      using load_store_word_at [OF user_frame_arrays(1) [OF uf [OF i]] l j]
      by (simp add: pte_def tab_def 1 i) (simp add: m' tab_def)
  next
    case False
    then have "tab ?m pd k \<noteq> tab ?m pd i"
      using wf i k unfolding wf_space_def inj_on_def by blast
    from load_store_apart [OF user_frame_arrays(1) [OF uf [OF k]] user_frame_arrays(1) [OF uf [OF i]]
        user_frames_apart [OF uf [OF k] uf [OF i] this] l j]
    show ?thesis using False by (simp add: pte_def tab_def 1 k) (simp add: m' tab_def)
  qed
qed

lemma vmap_store_pte:
  assumes wf: "wf_space s pd" and i: "i < 1024" "present (dir (mm_mem s) pd i)" and j: "j < 1024"
    and v: "v < 1048576"
  shows "vmap (store32 (word_at (tab (mm_mem s) pd i) j) e (mm_mem s)) pd v =
    (if v = 1024 * i + j then (if present e then Some (frame_addr e) else None) else vmap (mm_mem s) pd v)"
proof -
  have v': "v div 1024 < 1024" using v by (simp add: div_less_iff_less_mult)
  have "v = 1024 * i + j \<longleftrightarrow> v div 1024 = i \<and> v mod 1024 = j" using j by auto
  then show ?thesis
    using store_pte [OF wf i j refl] v' i by (auto simp: vmap_def)
qed

lemma wf_space_cong:
  assumes "wf_space s pd" "\<forall>k < 1024. dir (mm_mem s') pd k = dir (mm_mem s) pd k"
    "\<forall>f. user_frame f \<longrightarrow> in_use s f \<longrightarrow> in_use s' f"
  shows "wf_space s' pd" "tables (mm_mem s') pd = tables (mm_mem s) pd"
proof -
  have t: "tab (mm_mem s') pd k = tab (mm_mem s) pd k" if "k < 1024" for k
    using assms(2) that by (simp add: tab_def)
  show *: "tables (mm_mem s') pd = tables (mm_mem s) pd"
    using assms(2) t by (auto simp: tables_def) metis+
  have "{i. i < 1024 \<and> present (dir (mm_mem s') pd i)} = {i. i < 1024 \<and> present (dir (mm_mem s) pd i)}"
    using assms(2) by auto
  then show "wf_space s' pd" using assms(1,3) t * unfolding wf_space_def
    by (auto simp: inj_on_def)
qed

section \<open>Growing an address space\<close>

text \<open>The bytes of the page at \<open>f\<close>, and the frames nobody uses.\<close>

definition page :: "u32 \<Rightarrow> u32 set" where
  "page f = {x. unat f \<le> unat x \<and> unat x < unat f + 4096}"

definition free_frames :: "mm \<Rightarrow> u32 set" where
  "free_frames s = {f. user_frame f \<and> \<not> in_use s f}"

lemma finite_free_frames [simp]: "finite (free_frames s)"
  by (rule finite_subset [OF subset_UNIV]) simp

lemma store_outside_page:
  assumes "warray f 1024" "k < 1024" "x \<notin> page f"
  shows "store32 (word_at f k) v m x = m x"
proof -
  have u: "unat (word_at f k) = unat f + 4 * k" and b: "unat f + 4096 \<le> 2 ^ 32" 
    using unat_word_at [OF assms(1,2)] assms(1) by (simp_all add: warray_def)
  have "unat (word_at f k + of_nat i) = unat f + 4 * k + i" if "i < 4" for i
    using u b assms(2) that by (simp add: unat_word_ariths unat_of_nat)
  then have "word_at f k + of_nat i \<in> page f" if "i < 4" for i
    using assms(2) that by (simp add: page_def)
  from this [of 0] this [of 1] this [of 2] this [of 3]
  show ?thesis using assms(3) by (intro store32_other) auto
qed

lemma fill_outside_page:
  assumes "warray f 1024" "n \<le> 1024" "x \<notin> page f"
  shows "fill32 f e n m x = m x"
  using assms(2) by (induction n) (simp_all add: fill32_def store_outside_page [OF assms(1) _ assms(3)])

text \<open>What an operation on the space at \<open>pd\<close> that only adds to it may do.\<close>

definition grows :: "u32 \<Rightarrow> mm \<Rightarrow> mm \<Rightarrow> bool" where
  "grows pd s s' \<longleftrightarrow> wf_space s' pd \<and>
     (\<forall>f. user_frame f \<longrightarrow> in_use s f \<longrightarrow> Ppage_flag s' (pa_to_id f) = Ppage_flag s (pa_to_id f)) \<and>
     (\<forall>f \<in> tables (mm_mem s') pd. f \<in> tables (mm_mem s) pd \<or> \<not> in_use s f) \<and>
     (\<forall>x. mm_mem s' x = mm_mem s x \<or> x \<in> page (va_to_pa pd) \<or>
        (\<exists>f. user_frame f \<and> x \<in> page f \<and> (f \<in> tables (mm_mem s) pd \<or> \<not> in_use s f)))"

lemma grows_in_use: "grows pd s s' \<Longrightarrow> user_frame f \<Longrightarrow> in_use s f \<Longrightarrow> in_use s' f"
  by (simp add: grows_def in_use_def)

lemma grows_wf: "grows pd s s' \<Longrightarrow> wf_space s' pd"
  by (simp add: grows_def)

lemma grows_refl: "wf_space s pd \<Longrightarrow> grows pd s s"
  by (simp add: grows_def)

lemma grows_trans [trans]:
  assumes "grows pd s s1" "grows pd s1 s2"
  shows "grows pd s s2"
proof -
  note iu = grows_in_use [OF assms(1)]
  have tf: "user_frame f" if "f \<in> tables (mm_mem s2) pd" for f
    using grows_wf [OF assms(2)] that by (auto simp: wf_space_def)
  show ?thesis
    unfolding grows_def
  proof (intro conjI allI impI ballI)
    show "wf_space s2 pd" by (rule grows_wf [OF assms(2)])
    show "Ppage_flag s2 (pa_to_id f) = Ppage_flag s (pa_to_id f)" if "user_frame f" "in_use s f" for f
      using assms iu that by (simp add: grows_def)
    show "f \<in> tables (mm_mem s) pd \<or> \<not> in_use s f" if "f \<in> tables (mm_mem s2) pd" for f
      using assms iu tf [OF that] that unfolding grows_def by blast
    show "mm_mem s2 x = mm_mem s x \<or> x \<in> page (va_to_pa pd) \<or>
        (\<exists>f. user_frame f \<and> x \<in> page f \<and> (f \<in> tables (mm_mem s) pd \<or> \<not> in_use s f))" for x
      using assms iu unfolding grows_def by (metis (no_types, lifting))
  qed
qed

lemma allocate_memory_grows:
  assumes a: "allocate_memory s = Inr (addr, s1)" and wf: "wf_space s pd"
  shows "grows pd s s1" "free_frames s1 = free_frames s - {addr}" "addr \<in> free_frames s"
    "addr \<notin> tables (mm_mem s) pd" "in_use s1 addr" "mm_mem s1 = mm_mem s"
proof -
  note am = allocate_memory_Inr [OF a]
  have other: "Ppage_flag s1 (pa_to_id f) = Ppage_flag s (pa_to_id f)" if "user_frame f" "f \<noteq> addr" for f
    using that am(1,4) pa_to_id_inj by simp
  have keep: "\<forall>f. user_frame f \<longrightarrow> in_use s f \<longrightarrow> Ppage_flag s1 (pa_to_id f) = Ppage_flag s (pa_to_id f)"
    using other am(2) by metis
  then have "\<forall>f. user_frame f \<longrightarrow> in_use s f \<longrightarrow> in_use s1 f" by (simp add: in_use_def)
  from wf_space_cong [OF wf _ this] have "wf_space s1 pd" "tables (mm_mem s1) pd = tables (mm_mem s) pd"
    using am(3) by simp_all
  then show "grows pd s s1" using keep am(3) by (simp add: grows_def)
  show "in_use s1 addr" using am(4) by (simp add: in_use_def)
  then have "x \<in> free_frames s1 \<longleftrightarrow> x \<in> free_frames s - {addr}" for x
    using other [of x] by (cases "x = addr") (auto simp: free_frames_def in_use_def)
  then show "free_frames s1 = free_frames s - {addr}" by blast
  show "addr \<in> free_frames s" using am by (simp add: free_frames_def)
  show "addr \<notin> tables (mm_mem s) pd" using am(2) wf by (auto simp: wf_space_def)
  show "mm_mem s1 = mm_mem s" by (rule am(3))
qed

lemma grows_I:
  assumes "grows pd s s1" "Ppage_flag s' = Ppage_flag s1" "wf_space s' pd"
    "\<forall>f \<in> tables (mm_mem s') pd. f \<in> tables (mm_mem s) pd \<or> \<not> in_use s f"
    "\<forall>x. mm_mem s' x = mm_mem s x \<or> x \<in> page (va_to_pa pd) \<or>
        (\<exists>f. user_frame f \<and> x \<in> page f \<and> (f \<in> tables (mm_mem s) pd \<or> \<not> in_use s f))"
  shows "grows pd s s'"
  using assms by (simp add: grows_def)

text \<open>Mapping the pages from \<open>v\<close> on to the frames \<open>fs\<close>.\<close>

definition mapped_from :: "(nat \<Rightarrow> u32 option) \<Rightarrow> nat \<Rightarrow> u32 list \<Rightarrow> (nat \<Rightarrow> u32 option) \<Rightarrow> bool" where
  "mapped_from M v fs M' \<longleftrightarrow>
     (\<forall>k < length fs. M (v + k) = None \<and> M' (v + k) = Some (fs ! k)) \<and>
     (\<forall>w < 1048576. w < v \<or> v + length fs \<le> w \<longrightarrow> M' w = M w)"

lemma mapped_from_append:
  assumes "mapped_from M v fs M1" "mapped_from M1 (v + length fs) gs M2"
    "v + length fs + length gs \<le> 1048576"
  shows "mapped_from M v (fs @ gs) M2"
  unfolding mapped_from_def
proof (intro conjI allI impI)
  fix k assume k: "k < length (fs @ gs)"
  have *: "k < length fs \<or> (\<exists>l. k = length fs + l \<and> l < length gs)"
    using k by (cases "k < length fs") (auto intro: exI [of _ "k - length fs"])
  then show "M (v + k) = None"
  proof
    assume "\<exists>l. k = length fs + l \<and> l < length gs"
    then obtain l where l: "k = length fs + l" "l < length gs" by blast
    then have "M1 (v + k) = M (v + k)" using assms(1,3) by (simp add: mapped_from_def)
    then show ?thesis using assms(2) l by (simp add: mapped_from_def add.assoc)
  qed (use assms(1) in \<open>simp add: mapped_from_def\<close>)
  from * show "M2 (v + k) = Some ((fs @ gs) ! k)"
  proof
    assume "k < length fs"
    moreover from this have "M2 (v + k) = M1 (v + k)" using assms(2,3) by (simp add: mapped_from_def)
    ultimately show ?thesis using assms(1) by (simp add: mapped_from_def nth_append)
  next
    assume "\<exists>l. k = length fs + l \<and> l < length gs"
    then obtain l where l: "k = length fs + l" "l < length gs" by blast
    then show ?thesis using assms(2) by (simp add: mapped_from_def add.assoc [symmetric])
  qed
next
  fix w :: nat assume "w < 1048576" "w < v \<or> v + length (fs @ gs) \<le> w"
  then show "M2 w = M w" using assms(1,2) by (auto simp: mapped_from_def)
qed

lemma mapped_from_cong:
  assumes "mapped_from M v fs M'" "\<forall>w < 1048576. M0 w = M w" "v + length fs \<le> 1048576"
  shows "mapped_from M0 v fs M'"
  using assms by (auto simp: mapped_from_def)


section \<open>\<open>allocate_page\<close>\<close>

lemma clear_table:
  assumes "user_frame f"
  shows "fold (\<lambda>i. make_invalid_pte (word_at f i)) [0..<NR_PTE_ENTRY] m = fill32 f (\<lambda>_. 0) 1024 m"
proof -
  have "fold (\<lambda>i. make_invalid_pte (word_at f i)) [0..<n] m = fill32 f (\<lambda>_. 0) n m" if "n \<le> 1024" for n
    using that by (induction n) (simp_all add: fill32_def make_invalid_pte_def user_frame_low [OF assms])
  from this [of 1024] show ?thesis unfolding NR_PTE_ENTRY_def by blast
qed

text \<open>A fresh frame becomes the page table of an absent directory entry, with the entries \<open>e\<close>.\<close>

lemma install_table:
  assumes wf: "wf_space s pd" and i: "i < 1024" and absent: "\<not> present (dir (mm_mem s) pd i)"
    and am: "allocate_memory s = Inr (t, s1)" and fl: "Ppage_flag s' = Ppage_flag s1"
    and m': "mm_mem s' = fill32 t e 1024 (store32 (word_at (va_to_pa pd) i) (entry_for t) (mm_mem s))"
  shows "grows pd s s'" "tab (mm_mem s') pd i = t" "present (dir (mm_mem s') pd i)"
    "\<forall>v < 1048576. vmap (mm_mem s') pd v =
       (if v div 1024 = i then (if present (e (v mod 1024)) then Some (frame_addr (e (v mod 1024))) else None)
        else vmap (mm_mem s) pd v)"
    "\<forall>k < 1024. k \<noteq> i \<longrightarrow> dir (mm_mem s') pd k = dir (mm_mem s) pd k"
    "card (free_frames s) \<le> Suc (card (free_frames s'))"
proof -
  have gd: "good_dir pd" by (rule wf_space_dir [OF wf])
  note g = allocate_memory_grows [OF am wf]
  have uf: "user_frame t" using g(3) by (simp add: free_frames_def)
  let ?m = "mm_mem s" and ?m' = "mm_mem s'"
  define m1 where "m1 = store32 (word_at (va_to_pa pd) i) (entry_for t) ?m"
  have m': "?m' = fill32 t e 1024 m1" using m' by (simp add: m1_def)
  note gda = good_dir_arrays [OF gd]
  have dir': "dir ?m' pd k = (if k = i then entry_for t else dir ?m pd k)" if "k < 1024" for k
    unfolding m' dir_def m1_def
    using load_fill32_apart [OF gda(1) user_frame_arrays(1) [OF uf] gda(2) [OF uf] that, of 1024]
      load_store_word_at [OF gda(1) that i] by simp
  have tab': "tab ?m' pd k = (if k = i then t else tab ?m pd k)" if "k < 1024" for k
    using dir' [OF that] uf by (simp add: tab_def)
  have new: "load32 ?m' (word_at t l) = e l" if "l < 1024" for l
    unfolding m' using load_fill32 [OF user_frame_arrays(1) [OF uf], of 1024 l] that by simp
  have old: "load32 ?m' (word_at f l) = load32 ?m (word_at f l)"
    if "user_frame f" "f \<noteq> t" "l < 1024" for f l
    unfolding m' m1_def
    using load_fill32_apart [OF user_frame_arrays(1) [OF that(1)] user_frame_arrays(1) [OF uf]
            user_frames_apart [OF that(1) uf that(2)] that(3), of 1024]
      load_store_apart [OF user_frame_arrays(1) [OF that(1)] gda(1) gda(3) [OF that(1)] that(3) i]
    by simp
  have ne: "tab ?m pd k \<noteq> t" if "k < 1024" "present (dir ?m pd k)" for k
    using g(4) that by (auto simp: tables_def)
  show "\<forall>v < 1048576. vmap ?m' pd v =
       (if v div 1024 = i then (if present (e (v mod 1024)) then Some (frame_addr (e (v mod 1024))) else None)
        else vmap ?m pd v)"
  proof (intro allI impI)
    fix v :: nat assume "v < 1048576"
    then have "v div 1024 < 1024" by (simp add: div_less_iff_less_mult)
    then show "vmap ?m' pd v =
       (if v div 1024 = i then (if present (e (v mod 1024)) then Some (frame_addr (e (v mod 1024))) else None)
        else vmap ?m pd v)"
      using dir' tab' new old ne wf_space_tab(1) [OF wf] uf
      by (cases "v div 1024 = i") (auto simp: vmap_def pte_def)
  qed
  have tb: "tables ?m' pd = insert t (tables ?m pd)"
  proof (intro subset_antisym subsetI)
    fix f assume "f \<in> tables ?m' pd"
    then show "f \<in> insert t (tables ?m pd)" using dir' tab' by (auto simp: tables_def split: if_splits)
  next
    fix f assume "f \<in> insert t (tables ?m pd)"
    then consider "f = t" | k where "k < 1024" "present (dir ?m pd k)" "f = tab ?m pd k"
      by (auto simp: tables_def)
    then show "f \<in> tables ?m' pd"
    proof cases
      case 1
      then show ?thesis using dir' [OF i] tab' [OF i] uf i by (auto simp: tables_def)
    next
      case (2 k)
      then have "k \<noteq> i" using absent by auto
      then show ?thesis using dir' [OF 2(1)] tab' [OF 2(1)] 2
        by (auto simp: tables_def intro!: exI [of _ k])
    qed
  qed
  have iu: "in_use s' f" if "in_use s f" "user_frame f" for f
    using grows_in_use [OF g(1) that(2,1)] by (simp add: fl in_use_def)
  have "inj_on (tab ?m' pd) {k. k < 1024 \<and> present (dir ?m' pd k)}"
  proof (rule inj_onI)
    fix a b assume ab: "a \<in> {k. k < 1024 \<and> present (dir ?m' pd k)}" "b \<in> {k. k < 1024 \<and> present (dir ?m' pd k)}"
      and eq: "tab ?m' pd a = tab ?m' pd b"
    then have "a < 1024" "a = i \<or> present (dir ?m pd a)" "b < 1024" "b = i \<or> present (dir ?m pd b)"
      using dir' by (auto split: if_splits)
    moreover from this have "(if a = i then t else tab ?m pd a) = (if b = i then t else tab ?m pd b)"
      using eq tab' by simp
    moreover have "inj_on (tab ?m pd) {k. k < 1024 \<and> present (dir ?m pd k)}"
      using wf by (simp add: wf_space_def)
    ultimately show "a = b" using ne [of a] ne [of b] by (auto simp: inj_on_def split: if_splits)
  qed
  then have wf': "wf_space s' pd"
    using wf iu uf g(5) unfolding wf_space_def tb by (auto simp: fl in_use_def)
  show "grows pd s s'"
  proof (rule grows_I [OF g(1) fl wf'])
    show "\<forall>f \<in> tables ?m' pd. f \<in> tables ?m pd \<or> \<not> in_use s f"
      using g(3) by (auto simp: tb free_frames_def)
    show "\<forall>x. ?m' x = ?m x \<or> x \<in> page (va_to_pa pd) \<or>
       (\<exists>f. user_frame f \<and> x \<in> page f \<and> (f \<in> tables ?m pd \<or> \<not> in_use s f))"
      using fill_outside_page [OF user_frame_arrays(1) [OF uf], of 1024]
        store_outside_page [OF gda(1) i] uf g(3)
      unfolding m' m1_def free_frames_def by (metis (no_types, lifting) mem_Collect_eq order_refl)
  qed
  have "free_frames s' = free_frames s - {t}"
    using g(2) by (simp add: free_frames_def in_use_def fl)
  then show "card (free_frames s) \<le> Suc (card (free_frames s'))"
    using g(3) by (simp add: card_Diff_singleton)
  show "tab ?m' pd i = t" "present (dir ?m' pd i)" using tab' [OF i] dir' [OF i] uf by simp_all
  show "\<forall>k < 1024. k \<noteq> i \<longrightarrow> dir ?m' pd k = dir ?m pd k" using dir' by simp
qed

lemma allocate_table_Inr:
  assumes wf: "wf_space s pd" and i: "i < 1024" and a: "allocate_table (word_at pd i) s = Inr (pent, s')"
  shows "grows pd s s'" "pent = tab (mm_mem s') pd i" "present (dir (mm_mem s') pd i)"
    "\<forall>v < 1048576. vmap (mm_mem s') pd v = vmap (mm_mem s) pd v"
    "card (free_frames s) \<le> Suc (card (free_frames s'))"
proof -
  have gd: "good_dir pd" by (rule wf_space_dir [OF wf])
  have "grows pd s s' \<and> pent = tab (mm_mem s') pd i \<and> present (dir (mm_mem s') pd i) \<and>
    (\<forall>v < 1048576. vmap (mm_mem s') pd v = vmap (mm_mem s) pd v) \<and>
    card (free_frames s) \<le> Suc (card (free_frames s'))"
  proof (cases "present (dir (mm_mem s) pd i)")
    case True
    then have "s' = s" "pent = tab (mm_mem s) pd i"
      using a by (auto simp: allocate_table_def Page_Directory_Fault_def entry_dir [OF gd i] tab_def)
    then show ?thesis using True grows_refl [OF wf] by simp
  next
    case False
    then obtain s1 where am: "allocate_memory s = Inr (pent, s1)"
      and s': "s' = mm_mem_update (fold (\<lambda>i. make_invalid_pte (word_at pent i)) [0..<NR_PTE_ENTRY] \<circ>
                 make_pde (word_at pd i) pent) s1"
      using a by (auto simp: allocate_table_def Page_Directory_Fault_def entry_dir [OF gd i] bindE_eq_Inr)
    note g = allocate_memory_grows [OF am wf]
    have uf: "user_frame pent" using g(3) by (simp add: free_frames_def)
    have m': "mm_mem s' = fill32 pent (\<lambda>_. 0) 1024 (store32 (word_at (va_to_pa pd) i) (entry_for pent) (mm_mem s))"
      unfolding s' using g(6) by (simp add: clear_table [OF uf] make_pde_def kphys_dir [OF gd i])
    have "Ppage_flag s' = Ppage_flag s1" by (simp add: s')
    note it = install_table [OF wf i False am this m']
    have "vmap (mm_mem s) pd v = None" if "v div 1024 = i" for v using that False by (simp add: vmap_def)
    then show ?thesis using it by auto
  qed
  then show "grows pd s s'" "pent = tab (mm_mem s') pd i" "present (dir (mm_mem s') pd i)"
    "\<forall>v < 1048576. vmap (mm_mem s') pd v = vmap (mm_mem s) pd v"
    "card (free_frames s) \<le> Suc (card (free_frames s'))" by blast+
qed

lemma allocate_pte_grows:
  assumes wf: "wf_space s pd" and i: "i < 1024" "present (dir (mm_mem s) pd i)" and j: "j < 1024"
    and am: "allocate_memory s = Inr (addr, s1)"
    and s': "s' = mm_mem_update (make_pte (word_at (tab (mm_mem s) pd i) j) addr) s1"
  shows "grows pd s s'" "user_frame addr" "\<not> in_use s addr" "in_use s' addr"
    "addr \<notin> tables (mm_mem s') pd"
    "\<forall>v < 1048576. vmap (mm_mem s') pd v = (if v = 1024 * i + j then Some addr else vmap (mm_mem s) pd v)"
    "present (dir (mm_mem s') pd i)" "tab (mm_mem s') pd i = tab (mm_mem s) pd i"
    "card (free_frames s) \<le> Suc (card (free_frames s'))"
proof -
  note g = allocate_memory_grows [OF am wf]
  let ?m = "mm_mem s"
  have gd: "good_dir pd" by (rule wf_space_dir [OF wf])
  note uf = wf_space_tab(1) [OF wf i]
  have m': "mm_mem s' = store32 (word_at (tab ?m pd i) j) (entry_for addr) ?m"
    using user_frame_low [OF uf j] by (simp add: s' g(6) make_pte_def)
  note dir' = store_pte(1) [OF wf i j m']
  have fl: "Ppage_flag s' = Ppage_flag s1" by (simp add: s')
  have "\<forall>f. user_frame f \<longrightarrow> in_use s f \<longrightarrow> in_use s' f"
    using grows_in_use [OF g(1)] fl by (simp add: in_use_def)
  from wf_space_cong [OF wf _ this] dir'
  have wf': "wf_space s' pd" and tb: "tables (mm_mem s') pd = tables ?m pd" by auto
  show "user_frame addr" "\<not> in_use s addr" using g(3) by (simp_all add: free_frames_def)
  then show "\<forall>v < 1048576. vmap (mm_mem s') pd v = (if v = 1024 * i + j then Some addr else vmap ?m pd v)"
    unfolding m' by (simp add: vmap_store_pte [OF wf i j])
  show "in_use s' addr" using g(5) by (simp add: in_use_def fl)
  show "addr \<notin> tables (mm_mem s') pd" using g(4) by (simp add: tb)
  show "present (dir (mm_mem s') pd i)" "tab (mm_mem s') pd i = tab ?m pd i"
    using dir' [OF i(1)] i by (simp_all add: tab_def)
  have ch: "mm_mem s' x = ?m x \<or> (user_frame (tab ?m pd i) \<and> x \<in> page (tab ?m pd i) \<and> tab ?m pd i \<in> tables ?m pd)" for x
    using store_outside_page [OF user_frame_arrays(1) [OF uf] j] uf i unfolding m' tables_def by blast
  show "grows pd s s'"
    by (rule grows_I [OF g(1) fl wf']) (use ch in \<open>auto simp: tb\<close>)
  have "free_frames s' = free_frames s - {addr}"
    using g(2) by (simp add: free_frames_def in_use_def fl)
  then show "card (free_frames s) \<le> Suc (card (free_frames s'))"
    using g(3) by (simp add: card_Diff_singleton)
qed

text \<open>New frames for pages: distinct, free before, in use after, none of them a page table.\<close>

definition new_frames :: "u32 \<Rightarrow> mm \<Rightarrow> mm \<Rightarrow> u32 list \<Rightarrow> bool" where
  "new_frames pd s s' fs \<longleftrightarrow> distinct fs \<and>
     (\<forall>f \<in> set fs. user_frame f \<and> \<not> in_use s f \<and> in_use s' f \<and> f \<notin> tables (mm_mem s') pd)"

lemma new_frames_append:
  assumes "new_frames pd s s1 fs" "grows pd s s1" "new_frames pd s1 s2 gs" "grows pd s1 s2"
  shows "new_frames pd s s2 (fs @ gs)"
proof -
  have "f \<notin> set gs" if "f \<in> set fs" for f using assms(1,3) that by (auto simp: new_frames_def)
  moreover have "in_use s2 f \<and> f \<notin> tables (mm_mem s2) pd" if "f \<in> set fs" for f
    using assms(1,4) that grows_in_use [OF assms(4)] by (auto simp: new_frames_def grows_def)
  moreover have "\<not> in_use s f" if "f \<in> set gs" for f
    using assms(3) that grows_in_use [OF assms(2)] by (auto simp: new_frames_def)
  ultimately show ?thesis using assms(1,3) by (auto simp: new_frames_def)
qed

lemma new_frames_before:
  assumes "grows pd s s1" "new_frames pd s1 s2 gs"
  shows "new_frames pd s s2 gs"
  using assms grows_in_use [OF assms(1)] by (auto simp: new_frames_def)

definition overlap_msg :: string where "overlap_msg = ''Virtual Page Overlap!\<newline>''"
definition full_msg :: string where "full_msg = ''Physical Page is full!\<newline>''"

text \<open>The two outcomes of adding \<open>n\<close> pages from \<open>v\<close> on, with at most \<open>c\<close> frames for each.\<close>

definition adds :: "u32 \<Rightarrow> nat \<Rightarrow> mm \<Rightarrow> mm \<Rightarrow> u32 list \<Rightarrow> nat \<Rightarrow> bool" where
  "adds pd v s s' fs c \<longleftrightarrow> grows pd s s' \<and> new_frames pd s s' fs \<and>
     mapped_from (vmap (mm_mem s) pd) v fs (vmap (mm_mem s') pd) \<and>
     card (free_frames s) \<le> c + card (free_frames s')"

definition add_fails :: "u32 \<Rightarrow> nat \<Rightarrow> nat \<Rightarrow> mm \<Rightarrow> error \<Rightarrow> nat \<Rightarrow> bool" where
  "add_fails pd v n s e c \<longleftrightarrow>
     e = Panic overlap_msg \<and> (\<exists>k < n. vmap (mm_mem s) pd (v + k) \<noteq> None) \<or>
     e = Panic full_msg \<and> card (free_frames s) < c"

lemma adds_append:
  assumes "adds pd v s s1 fs c" "adds pd (v + length fs) s1 s2 gs c'" "v + length fs + length gs \<le> 1048576"
  shows "adds pd v s s2 (fs @ gs) (c + c')"
  using assms grows_trans new_frames_append mapped_from_append unfolding adds_def by fastforce

lemma adds_then_fails:
  assumes "adds pd v s s1 fs c" "add_fails pd (v + length fs) n s1 e c'" "v + length fs + n \<le> 1048576"
  shows "add_fails pd v (length fs + n) s e (c + c')"
  using assms(2) unfolding add_fails_def
proof (elim disjE conjE exE)
  fix k assume e: "e = Panic overlap_msg" and k: "k < n" "vmap (mm_mem s1) pd (v + length fs + k) \<noteq> None"
  have "vmap (mm_mem s1) pd (v + length fs + k) = vmap (mm_mem s) pd (v + length fs + k)"
    using assms(1,3) k(1) by (simp add: adds_def mapped_from_def)
  with e k show "e = Panic overlap_msg \<and> (\<exists>k < length fs + n. vmap (mm_mem s) pd (v + k) \<noteq> None) \<or>
     e = Panic full_msg \<and> card (free_frames s) < c + c'"
    by (intro disjI1 conjI exI [of _ "length fs + k"]) (simp_all add: add.assoc)
qed (use assms(1) in \<open>simp add: adds_def\<close>)


lemma word_at_Suc: "word_at p j + 4 = word_at p (Suc j)"
  by (simp add: word_at_def algebra_simps)

lemma allocate_ptes_spec:
  assumes "wf_space s pd" "i < 1024" "present (dir (mm_mem s) pd i)" "j + n \<le> 1024" "len \<noteq> 0"
  shows "case allocate_ptes n (word_at (tab (mm_mem s) pd i) j) len s of
      Inr (len', s') \<Rightarrow> (\<exists>fs. adds pd (1024 * i + j) s s' fs (length fs) \<and>
        length fs = min n (unat len) \<and> unat len = length fs + unat len')
    | Inl e \<Rightarrow> add_fails pd (1024 * i + j) (min n (unat len)) s e (unat len)"
  using assms
proof (induction n arbitrary: j len s)
  case 0
  then show ?case using grows_refl [OF 0(1)]
    by (auto simp: adds_def new_frames_def mapped_from_def intro!: exI [of _ "[]"])
next
  case (Suc n)
  let ?m = "mm_mem s" and ?v = "1024 * i + j"
  let ?p = "word_at (tab ?m pd i) j"
  note uf = wf_space_tab(1) [OF Suc.prems(1-3)]
  have j: "j < 1024" using Suc.prems by simp
  have v: "?v < 1048576" using Suc.prems(2) j by simp
  have len: "0 < unat len" "unat (len - 1) = unat len - 1"
    using Suc.prems(5) by (simp_all add: unat_gt_0 unat_minus_one)
  have absent: "Page_Table_Fault s ?p \<longleftrightarrow> vmap ?m pd ?v = None"
    using Suc.prems(2,3) j by (simp add: Page_Table_Fault_def entry_tab [OF uf j] vmap_def pte_def)
  show ?case
  proof (cases "Page_Table_Fault s ?p")
    case False
    then show ?thesis using absent len
      by (auto simp: panic_def add_fails_def overlap_msg_def intro!: exI [of _ "0::nat"])
  next
    case fault: True
    show ?thesis
    proof (cases "allocate_memory s")
      case (Inl e)
      note full = allocate_memory_Inl [OF this]
      have "free_frames s = {}" using full(2) by (auto simp: free_frames_def)
      then show ?thesis using fault Inl full(1) len by (simp add: add_fails_def full_msg_def)
    next
      case (Inr r)
      then obtain addr s1 where am: "allocate_memory s = Inr (addr, s1)" by (cases r) auto
      define s2 where "s2 = mm_mem_update (make_pte ?p addr) s1"
      note g = allocate_pte_grows [OF Suc.prems(1-3) j am s2_def]
      have one: "adds pd ?v s s2 [addr] 1"
        using g absent fault v by (auto simp: adds_def new_frames_def mapped_from_def less_Suc_eq)
      show ?thesis
      proof (cases "len - 1 = 0")
        case True
        then have "unat len = 1" using len by simp
        then show ?thesis using fault am True one
          by (auto simp: Let_def s2_def [symmetric] intro!: exI [of _ "[addr]"])
      next
        case False
        have eq: "allocate_ptes (Suc n) ?p len s = allocate_ptes n (word_at (tab (mm_mem s2) pd i) (Suc j)) (len - 1) s2"
          using fault am False by (simp add: Let_def s2_def [symmetric] word_at_Suc g(8) del: One_nat_def)
        have IH: "case allocate_ptes n (word_at (tab (mm_mem s2) pd i) (Suc j)) (len - 1) s2 of
            Inr (len', s') \<Rightarrow> (\<exists>fs. adds pd (1024 * i + Suc j) s2 s' fs (length fs) \<and>
              length fs = min n (unat (len - 1)) \<and> unat (len - 1) = length fs + unat len')
          | Inl e \<Rightarrow> add_fails pd (1024 * i + Suc j) (min n (unat (len - 1))) s2 e (unat (len - 1))"
          using Suc.prems False g by (intro Suc.IH) (simp_all add: grows_wf)
        show ?thesis
        proof (cases "allocate_ptes n (word_at (tab (mm_mem s2) pd i) (Suc j)) (len - 1) s2")
          case (Inl e)
          with IH have "add_fails pd (?v + length [addr]) (min n (unat len - 1)) s2 e (unat len - 1)"
            by (simp add: len)
          moreover have "?v + length [addr] + min n (unat len - 1) \<le> 1048576" using Suc.prems(2,4) by simp
          ultimately have "add_fails pd ?v (length [addr] + min n (unat len - 1)) s e (1 + (unat len - 1))"
            by (rule adds_then_fails [OF one])
          moreover have "length [addr] + min n (unat len - 1) = min (Suc n) (unat len)" using len by simp
          ultimately show ?thesis using eq Inl len by simp
        next
          case (Inr r)
          then obtain len' s' where r: "allocate_ptes n (word_at (tab (mm_mem s2) pd i) (Suc j)) (len - 1) s2
              = Inr (len', s')" by (cases r) auto
          have "\<exists>fs. adds pd (1024 * i + Suc j) s2 s' fs (length fs) \<and>
              length fs = min n (unat len - 1) \<and> unat len - 1 = length fs + unat len'"
            using IH by (simp only: r sum.case prod.case len(2))
          then obtain fs where "adds pd (1024 * i + Suc j) s2 s' fs (length fs)"
            and l: "length fs = min n (unat len - 1)" "unat len - 1 = length fs + unat len'" by blast
          then have fs: "adds pd (?v + length [addr]) s2 s' fs (length fs)" by simp
          have "?v + length [addr] + length fs \<le> 1048576" using l(1) Suc.prems(2,4) by simp
          from adds_append [OF one fs this]
          have "adds pd ?v s s' (addr # fs) (length (addr # fs))" by simp
          moreover have "length (addr # fs) = min (Suc n) (unat len)" "unat len = length (addr # fs) + unat len'"
            using l len(1) by (simp_all add: min_def split: if_splits)
          ultimately show ?thesis unfolding eq r sum.case prod.case by blast
        qed
      qed
    qed
  qed
qed

lemma adds_mono: "adds pd v s s' fs c \<Longrightarrow> c \<le> c' \<Longrightarrow> adds pd v s s' fs c'"
  by (simp add: adds_def)

lemma add_fails_mono: "add_fails pd v n s e c \<Longrightarrow> n \<le> n' \<Longrightarrow> c \<le> c' \<Longrightarrow> add_fails pd v n' s e c'"
  unfolding add_fails_def using order_less_le_trans by blast

lemma allocate_table_adds:
  assumes "wf_space s pd" "i < 1024" "allocate_table (word_at pd i) s = Inr (pent, s')"
  shows "adds pd v s s' [] 1"
  using allocate_table_Inr [OF assms] by (auto simp: adds_def new_frames_def mapped_from_def)

lemma allocate_table_Inl:
  assumes "allocate_table p s = Inl e"
  shows "e = Panic full_msg" "free_frames s = {}"
proof -
  from assms have a: "allocate_memory s = Inl e"
    by (auto simp: allocate_table_def bindE_eq_Inl split: if_splits prod.splits)
  show "e = Panic full_msg" using allocate_memory_Inl(1) [OF a] by (simp add: full_msg_def)
  show "free_frames s = {}" using allocate_memory_Inl(2) [OF a] by (auto simp: free_frames_def)
qed

lemma allocate_pages_spec:
  assumes "wf_space s pd" "j < 1024" "1024 * i + j + unat len \<le> 1048576"
  shows "case allocate_pages pd (of_nat i) (of_nat j) len s of
      Inr s' \<Rightarrow> (\<exists>fs. adds pd (1024 * i + j) s s' fs (2 * length fs) \<and> length fs = unat len)
    | Inl e \<Rightarrow> add_fails pd (1024 * i + j) (unat len) s e (2 * unat len)"
  using assms
proof (induction "unat len" arbitrary: i j len s rule: less_induct)
  case less
  let ?v = "1024 * i + j"
  show ?case
  proof (cases "len = 0")
    case True
    then show ?thesis using grows_refl [OF less.prems(1)]
      by (subst allocate_pages.simps) (auto simp: adds_def new_frames_def mapped_from_def)
  next
    case False
    then have len: "0 < unat len" by (simp add: unat_gt_0)
    then have i: "i < 1024" using less.prems(3) by linarith
    have u: "unat (of_nat j :: u32) = j" using less.prems(2) by (simp add: unat_of_nat)
    have eq: "allocate_pages pd (of_nat i) (of_nat j) len s =
        bindE (allocate_table (word_at pd i) s) (\<lambda>(pent, s).
          bindE (allocate_ptes (1024 - j) (word_at pent j) len s) (\<lambda>(len, s).
            allocate_pages pd (of_nat (Suc i)) (of_nat 0) len s))"
      using False by (simp add: allocate_pages.simps [of pd "of_nat i"] word_at_of_nat u NR_PTE_ENTRY_def add.commute)
    show ?thesis
    proof (cases "allocate_table (word_at pd i) s")
      case (Inl e)
      then show ?thesis using allocate_table_Inl [OF Inl] len by (simp add: eq add_fails_def)
    next
      case (Inr r)
      then obtain pent s1 where t: "allocate_table (word_at pd i) s = Inr (pent, s1)" by (cases r) auto
      note t1 = allocate_table_adds [OF less.prems(1) i t, of ?v]
      note tt = allocate_table_Inr [OF less.prems(1) i t]
      note ptes = allocate_ptes_spec [OF grows_wf [OF tt(1)] i tt(3), of j "1024 - j" len, folded tt(2)]
      have l: "unat len \<noteq> 0" "j + (1024 - j) \<le> 1024" using len less.prems(2) by auto
      show ?thesis
      proof (cases "allocate_ptes (1024 - j) (word_at pent j) len s1")
        case (Inl e)
        then have "add_fails pd (?v + length []) (min (1024 - j) (unat len)) s1 e (unat len)"
          using ptes l False by simp
        moreover have "?v + length [] + min (1024 - j) (unat len) \<le> 1048576" using less.prems(3) by simp
        ultimately have "add_fails pd ?v (length [] + min (1024 - j) (unat len)) s e (1 + unat len)"
          using adds_then_fails [OF t1, where n = "min (1024 - j) (unat len)" and e = e and c' = "unat len"] by simp
        then have "add_fails pd ?v (unat len) s e (2 * unat len)"
          by (rule add_fails_mono) (use len in simp_all)
        then show ?thesis by (simp add: eq t Inl)
      next
        case (Inr r)
        then obtain len' s2 where r: "allocate_ptes (1024 - j) (word_at pent j) len s1 = Inr (len', s2)"
          by (cases r) auto
        have "\<exists>fs. adds pd ?v s1 s2 fs (length fs) \<and> length fs = min (1024 - j) (unat len) \<and>
            unat len = length fs + unat len'"
          using ptes [OF l(2) False] unfolding r by (simp only: sum.case prod.case)
        then obtain fs where fs: "adds pd ?v s1 s2 fs (length fs)"
          and lfs: "length fs = min (1024 - j) (unat len)" "unat len = length fs + unat len'" by blast
        have "?v + length [] + length fs \<le> 1048576" using less.prems(2,3) lfs(2) by simp
        then have a: "adds pd ?v s s2 fs (2 * length fs)"
          using adds_append [OF t1, of s2 fs "length fs"] fs lfs(1) less.prems(2) len
          by (auto elim!: adds_mono)
        have wf2: "wf_space s2 pd" using a grows_wf by (auto simp: adds_def)
        have rest: "allocate_pages pd (of_nat i) (of_nat j) len s = allocate_pages pd (of_nat (Suc i)) (of_nat 0) len' s2"
          by (simp only: eq t r bindE_simps prod.case)
        show ?thesis
        proof (cases "len' = 0")
          case True
          then have "allocate_pages pd (of_nat (Suc i)) (of_nat 0) len' s2 = Inr s2"
            by (subst allocate_pages.simps) simp
          then have "allocate_pages pd (of_nat i) (of_nat j) len s = Inr s2" unfolding rest .
          moreover have "length fs = unat len" using lfs(2) True by simp
          ultimately show ?thesis using a by (auto intro!: exI [of _ fs])
        next
          case False
          then have "0 < unat len'" by (simp add: unat_gt_0)
          then have v': "?v + length fs = 1024 * Suc i + 0" "length fs \<noteq> 0" "unat len' < unat len"
            using lfs less.prems(2) by (auto simp: min_def split: if_splits)
          have IH: "case allocate_pages pd (of_nat (Suc i)) (of_nat 0) len' s2 of
              Inr s' \<Rightarrow> (\<exists>fs. adds pd (1024 * Suc i + 0) s2 s' fs (2 * length fs) \<and> length fs = unat len')
            | Inl e \<Rightarrow> add_fails pd (1024 * Suc i + 0) (unat len') s2 e (2 * unat len')"
            using less.prems(3) lfs(2) v' by (intro less.hyps [OF v'(3) wf2]) auto
          show ?thesis
          proof (cases "allocate_pages pd (of_nat (Suc i)) (of_nat 0) len' s2")
            case (Inl e)
            with IH have "add_fails pd (?v + length fs) (unat len') s2 e (2 * unat len')"
              unfolding v' by (simp only: sum.case)
            from adds_then_fails [OF a this]
            have "add_fails pd ?v (unat len) s e (2 * length fs + 2 * unat len')"
              using less.prems(3) lfs(2) by simp
            then show ?thesis using lfs(2) unfolding rest Inl by simp
          next
            case (Inr s')
            with IH obtain gs where "adds pd (?v + length fs) s2 s' gs (2 * length gs)" "length gs = unat len'"
              unfolding v' by (auto simp only: sum.case)
            with adds_append [OF a this(1)] less.prems(3) lfs(2)
            have "adds pd ?v s s' (fs @ gs) (2 * length (fs @ gs))" "length (fs @ gs) = unat len" by auto
            then show ?thesis unfolding rest Inr sum.case by blast
          qed
        qed
      qed
    qed
  qed
qed


lemma allocate_page_spec:
  assumes "wf_space s pagedir" "unat start div 4096 + unat len \<le> 1048576"
  shows "case allocate_page pagedir start len s of
      Inr s' \<Rightarrow> (\<exists>fs. adds pagedir (unat start div 4096) s s' fs (2 * length fs) \<and> length fs = unat len)
    | Inl e \<Rightarrow> add_fails pagedir (unat start div 4096) (unat len) s e (2 * unat len)"
proof -
  define i j where "i = unat start div 4096 div 1024" and "j = unat start div 4096 mod 1024"
  have v: "1024 * i + j = unat start div 4096" by (simp add: i_def j_def)
  have f: "drop_bit 22 start = of_nat i" "drop_bit 12 start AND 0x3FF = of_nat j"
    by (simp_all add: i_def j_def field_pde [symmetric] field_pte [symmetric] flip: div_mult2_eq)
  have "j < 1024" by (simp add: j_def)
  from allocate_pages_spec [OF assms(1) this, of i len] assms(2)
  show ?thesis by (simp only: allocate_page_def f v)
qed

text \<open>C18: \<open>allocate_page\<close> on a well-formed space maps exactly the \<open>length\<close> pages from \<open>start\<close> on, to
  distinct frames that nobody used and that are neither page tables nor shared; every other page
  keeps its frame, the space stays well-formed, no frame in use is released, and no byte changes
  outside the directory, the space's own tables and frames that were free. Otherwise it panics:
  because one of the pages is mapped already, or because fewer than \<open>2 * length\<close> frames were free.\<close>

theorem allocate_page_maps:
  assumes "wf_space s pagedir" "unat start div 4096 + unat len \<le> 1048576"
  shows "case allocate_page pagedir start len s of
      Inr s' \<Rightarrow> (\<exists>fs. length fs = unat len \<and> new_frames pagedir s s' fs \<and>
        mapped_from (vmap (mm_mem s) pagedir) (unat start div 4096) fs (vmap (mm_mem s') pagedir) \<and>
        grows pagedir s s')
    | Inl e \<Rightarrow> e = Panic overlap_msg \<and> (\<exists>k < unat len. vmap (mm_mem s) pagedir (unat start div 4096 + k) \<noteq> None) \<or>
        e = Panic full_msg \<and> card (free_frames s) < 2 * unat len"
  using allocate_page_spec [OF assms] unfolding adds_def add_fails_def by (auto split: sum.splits)

section \<open>Memory that changes on some pages only\<close>

text \<open>\<open>m'\<close> differs from \<open>m\<close> only at addresses in \<open>A\<close>.\<close>

definition only :: "u32 set \<Rightarrow> memory \<Rightarrow> memory \<Rightarrow> bool" where
  "only A m m' \<longleftrightarrow> (\<forall>x. x \<notin> A \<longrightarrow> m' x = m x)"

lemma only_refl [simp]: "only A m m"
  by (simp add: only_def)

lemma only_trans: "only A m m1 \<Longrightarrow> only A m1 m2 \<Longrightarrow> only A m m2"
  by (simp add: only_def)

lemma only_mono: "only A m m' \<Longrightarrow> A \<subseteq> B \<Longrightarrow> only B m m'"
  by (auto simp: only_def)

lemma word_at_in_page:
  assumes "warray f 1024" "k < 1024"
  shows "word_bytes (word_at f k) \<subseteq> page f"
proof -
  have u: "unat (word_at f k) = unat f + 4 * k" and b: "unat f + 4096 \<le> 2 ^ 32" 
    using unat_word_at [OF assms] assms(1) by (simp_all add: warray_def)
  have "unat (word_at f k + of_nat i) = unat f + 4 * k + i" if "i < 4" for i
    using u b assms(2) that by (simp add: unat_word_ariths unat_of_nat)
  then have "word_at f k + of_nat i \<in> page f" if "i < 4" for i
    using assms(2) that by (simp add: page_def)
  from this [of 0] this [of 1] this [of 2] this [of 3]
  show ?thesis by (simp add: word_bytes_def)
qed

lemma load_only:
  assumes "only A m m'" "A \<inter> page f = {}" "warray f 1024" "k < 1024"
  shows "load32 m' (word_at f k) = load32 m (word_at f k)"
proof (rule load32_outside)
  show "\<forall>x. x \<notin> A \<longrightarrow> m' x = m x" using assms(1) by (simp add: only_def)
  show "A \<inter> word_bytes (word_at f k) = {}" using assms(2) word_at_in_page [OF assms(3,4)] by blast
qed

lemma offset_in_page:
  assumes "warray f 1024" "n < 4096"
  shows "f + of_nat n \<in> page f"
  using assms by (simp add: page_def warray_def unat_word_ariths unat_of_nat)

lemma in_page_offset:
  assumes "x \<in> page f"
  obtains n where "n < 4096" "x = f + of_nat n"
proof
  show "unat x - unat f < 4096" using assms by (auto simp: page_def)
  have "of_nat (unat x - unat f) = x - f"
    using assms by (simp add: page_def of_nat_diff)
  then show "x = f + of_nat (unat x - unat f)" by simp
qed

lemma pages_disjoint:
  assumes "user_frame f" "user_frame g" "f \<noteq> g"
  shows "page f \<inter> page g = {}"
  using user_frames_apart [OF assms] by (auto simp: apart_def page_def)

lemma dir_page_disjoint: "good_dir pd \<Longrightarrow> user_frame f \<Longrightarrow> page (va_to_pa pd) \<inter> page f = {}"
  by (auto simp: good_dir_def user_frame_def page_def)

lemma store_only:
  "warray f 1024 \<Longrightarrow> k < 1024 \<Longrightarrow> only (page f) m (store32 (word_at f k) v m)"
  by (simp add: only_def store_outside_page)

text \<open>\<open>copy_memory\<close> makes the page at \<open>g\<close> a copy of the page at \<open>f\<close>.\<close>

definition copied :: "memory \<Rightarrow> u32 \<Rightarrow> memory \<Rightarrow> u32 \<Rightarrow> bool" where
  "copied m f m' g \<longleftrightarrow> (\<forall>n < 4096. m' (g + of_nat n) = m (f + of_nat n))"

lemma copy_memory_spec:
  assumes f: "user_frame f" and g: "user_frame g" and ne: "f \<noteq> g"
  shows "copied m f (copy_memory f g m) g" "only (page g) m (copy_memory f g m)"
proof -
  have low: "kphys (h + of_nat i) = h + of_nat i" if "user_frame h" "i < 4096" for h i
    using that by (intro kphys_low) (simp add: word_less_nat_alt user_frame_def KOFFSET_def unat_word_ariths unat_of_nat)
  have eq: "copy_memory f g m = copy_bytes (\<lambda>i. g + of_nat i) (\<lambda>i. f + of_nat i) 4096 m"
    unfolding copy_memory_def copy_bytes_def PAGE_SIZE_def
    by (intro fold_cong) (simp_all add: low f g del: upt_rec_numeral)
  have inj: "inj_on (\<lambda>i. g + of_nat i) {..<4096}"
  proof (rule inj_onI)
    fix a b :: nat assume ab: "a \<in> {..<4096}" "b \<in> {..<4096}" "g + of_nat a = g + of_nat b"
    then have "unat (of_nat a :: u32) = unat (of_nat b :: u32)" by simp
    then show "a = b" using ab by (simp add: unat_of_nat)
  qed
  have ne: "g + of_nat i \<noteq> f + of_nat j" if "i < 4096" "j < 4096" for i j
    using offset_in_page [OF user_frame_arrays(1) [OF f] that(2)]
      offset_in_page [OF user_frame_arrays(1) [OF g] that(1)] pages_disjoint [OF f g ne] by auto
  have "\<forall>i < 4096. \<forall>j < 4096. g + of_nat i \<noteq> f + of_nat j" using ne by blast
  from copy_bytes_at [OF inj this] show "copied m f (copy_memory f g m) g"
    unfolding copied_def eq by blast
  show "only (page g) m (copy_memory f g m)"
    unfolding only_def eq using offset_in_page [OF user_frame_arrays(1) [OF g]]
    by (auto intro!: copy_bytes_other)
qed

lemma copied_cong:
  assumes "copied m f m1 g" "only A m1 m2" "A \<inter> page g = {}" "warray g 1024"
  shows "copied m f m2 g"
proof -
  have "m2 (g + of_nat n) = m1 (g + of_nat n)" if "n < 4096" for n
    using assms(2,3) offset_in_page [OF assms(4) that] unfolding only_def by blast
  then show ?thesis using assms(1) by (simp add: copied_def)
qed

lemma copied_cong_source:
  assumes "copied m1 f m' g" "only A m m1" "A \<inter> page f = {}" "warray f 1024"
  shows "copied m f m' g"
proof -
  have "m1 (f + of_nat n) = m (f + of_nat n)" if "n < 4096" for n
    using assms(2,3) offset_in_page [OF assms(4) that] unfolding only_def by blast
  then show ?thesis using assms(1) by (simp add: copied_def)
qed


text \<open>A user space: its pages below \<open>KOFFSET\<close> are frames of their own.\<close>

definition wf_user :: "mm \<Rightarrow> u32 \<Rightarrow> bool" where
  "wf_user s pd \<longleftrightarrow> wf_space s pd \<and>
     (\<forall>v < 786432. \<forall>f. vmap (mm_mem s) pd v = Some f \<longrightarrow>
        user_frame f \<and> in_use s f \<and> f \<notin> tables (mm_mem s) pd)"

section \<open>A concrete space\<close>

text \<open>A directory at physical \<open>0x100000\<close> with one page table at \<open>0x1000000\<close>, whose first entry is the
  page at \<open>0x1001000\<close>, which holds a byte.\<close>

definition one_page :: mm where
  "one_page = \<lparr>mm_mem = (store32 (word_at 0x100000 0) (entry_for 0x1000000)
       (store32 (word_at 0x1000000 0) (entry_for 0x1001000) (\<lambda>_. 0)))(0x1001000 := 42),
     Ppage_flag = (\<lambda>_. 0)(0 := 1, 1 := 1)\<rparr>"

lemma one_page_frames:
  "user_frame 0x1000000" "user_frame 0x1001000" "user_frame 0x1002000" "user_frame 0x1003000"
  "in_use one_page 0x1000000" "in_use one_page 0x1001000" "\<not> in_use one_page 0x1002000" "\<not> in_use one_page 0x1003000"
  by (simp_all add: user_frame_def in_use_def one_page_def pa_to_id_def USER_MEM_LOW_def PAGE_SIZE_def)

lemma one_page_dirs:
  "good_dir 0xC0100000" "good_dir 0xC0101000" "va_to_pa 0xC0100000 = 0x100000" "va_to_pa 0xC0101000 = 0x101000"
  by (simp_all add: good_dir_def va_to_pa_def KOFFSET_def)

lemma load32_zero: "load32 (\<lambda>_. 0) a = 0"
  by (simp add: load32_def)

lemma one_page_dir:
  assumes "i < 1024"
  shows "dir (mm_mem one_page) 0xC0100000 i = (if i = 0 then entry_for 0x1000000 else 0)"
    "load32 (mm_mem one_page) (word_at 0x1000000 i) = (if i = 0 then entry_for 0x1001000 else 0)"
proof -
  define m1 where "m1 = store32 (word_at 0x1000000 0) (entry_for 0x1001000) (\<lambda>_. 0 :: u8)"
  define m2 where "m2 = store32 (word_at 0x100000 0) (entry_for 0x1000000) m1"
  have on: "only (page 0x1001000) m2 (mm_mem one_page)"
    by (auto simp: only_def page_def one_page_def m1_def m2_def)
  note wd = good_dir_arrays(1) [OF one_page_dirs(1), unfolded one_page_dirs]
  note wt = user_frame_arrays(1) [OF one_page_frames(1)]
  have d: "page 0x1001000 \<inter> page 0x100000 = {}" "page 0x1001000 \<inter> page 0x1000000 = {}"
    by (auto simp: page_def)
  have a: "apart 0x100000 1024 0x1000000 1024" "apart 0x1000000 1024 0x100000 1024" by (auto simp: apart_def)
  show "dir (mm_mem one_page) 0xC0100000 i = (if i = 0 then entry_for 0x1000000 else 0)"
    using load_only [OF on d(1) wd assms] load_store_word_at [OF wd assms, of 0 "entry_for 0x1000000" m1]
      load_store_apart [OF wd wt a(1) assms, of 0 "entry_for 0x1001000" "\<lambda>_. 0"]
    by (simp add: dir_def one_page_dirs m2_def m1_def load32_zero)
  show "load32 (mm_mem one_page) (word_at 0x1000000 i) = (if i = 0 then entry_for 0x1001000 else 0)"
    using load_only [OF on d(2) wt assms] load_store_apart [OF wt wd a(2) assms, of 0 "entry_for 0x1000000" m1]
      load_store_word_at [OF wt assms, of 0 "entry_for 0x1001000" "\<lambda>_. 0"]
    by (simp add: m2_def m1_def load32_zero)
qed

lemma one_page_tables: "tables (mm_mem one_page) 0xC0100000 = {0x1000000}"
  using one_page_frames(1) by (auto simp: tables_def tab_def one_page_dir intro!: exI [of _ "0::nat"] split: if_splits)

lemma one_page_vmap: "v < 1048576 \<Longrightarrow> vmap (mm_mem one_page) 0xC0100000 v = (if v = 0 then Some 0x1001000 else None)"
proof -
  assume "v < 1048576"
  then have d: "v div 1024 < 1024" "v mod 1024 < 1024" by (simp_all add: div_less_iff_less_mult)
  define i j where "i = v div 1024" and "j = v mod 1024"
  have v: "v = 0 \<longleftrightarrow> i = 0 \<and> j = 0" unfolding i_def j_def by auto
  show ?thesis
    unfolding vmap_def v i_def [symmetric] j_def [symmetric] pte_def tab_def one_page_dir(1) [OF d(1), folded i_def]
    using one_page_frames(1,2) one_page_dir(2) [OF d(2), folded j_def]
    by (cases "i = 0"; cases "j = 0") simp_all
qed

lemma one_page_wf: "wf_user one_page 0xC0100000"
proof -
  have "inj_on (tab (mm_mem one_page) 0xC0100000) {i. i < 1024 \<and> present (dir (mm_mem one_page) 0xC0100000 i)}"
    by (auto simp: inj_on_def one_page_dir split: if_splits)
  then have "wf_space one_page 0xC0100000"
    by (simp add: wf_space_def one_page_dirs one_page_tables one_page_frames)
  then show ?thesis
    by (auto simp: wf_user_def one_page_vmap one_page_tables one_page_frames split: if_splits)
qed

theorem allocate_page_maps_witness:
  "\<exists>s' g. allocate_page 0xC0100000 0x1000 1 one_page = Inr s' \<and> vmap (mm_mem s') 0xC0100000 1 = Some g \<and>
     vmap (mm_mem s') 0xC0100000 0 = Some 0x1001000 \<and> user_frame g \<and> \<not> in_use one_page g \<and> in_use s' g"
proof -
  have "{0x1002000, 0x1003000} \<subseteq> free_frames one_page" by (simp add: free_frames_def one_page_frames)
  from card_mono [OF _ this] have c: "\<not> card (free_frames one_page) < 2" by simp
  have "wf_space one_page 0xC0100000" using one_page_wf by (simp add: wf_user_def)
  note t = allocate_page_maps [OF this, of "0x1000" 1]
  show ?thesis
  proof (cases "allocate_page 0xC0100000 0x1000 1 one_page")
    case (Inl e)
    then show ?thesis using t c by (simp add: one_page_vmap)
  next
    case (Inr s')
    with t obtain fs where fs: "length fs = 1" "new_frames 0xC0100000 one_page s' fs"
      "mapped_from (vmap (mm_mem one_page) 0xC0100000) 1 fs (vmap (mm_mem s') 0xC0100000)" by auto
    then obtain g where "fs = [g]" by (cases fs) auto
    with fs have "vmap (mm_mem s') 0xC0100000 1 = Some g" "vmap (mm_mem s') 0xC0100000 0 = Some 0x1001000"
      "user_frame g" "\<not> in_use one_page g" "in_use s' g"
      by (auto simp: mapped_from_def new_frames_def one_page_vmap dest!: spec [of _ "0::nat"])
    then show ?thesis using Inr by auto
  qed
qed

end
