(* ===== verification/Fork.thy ===== *)
theory Fork
  imports AddressSpace
begin

text \<open>
  \<open>copy_page\<close> of kernel/mm.c, which gives a forked process its address space.
\<close>

section \<open>\<open>copy_page\<close>\<close>

text \<open>The frames that are free in \<open>s\<close>, as bytes.\<close>

definition free_bytes :: "mm \<Rightarrow> u32 set" where
  "free_bytes s = {x. \<exists>f. user_frame f \<and> \<not> in_use s f \<and> x \<in> page f}"

text \<open>Frames in use stay in use, with the count they had.\<close>

definition keeps_flags :: "mm \<Rightarrow> mm \<Rightarrow> bool" where
  "keeps_flags s s' \<longleftrightarrow>
     (\<forall>f. user_frame f \<longrightarrow> in_use s f \<longrightarrow> Ppage_flag s' (pa_to_id f) = Ppage_flag s (pa_to_id f))"

lemma keeps_flags_refl [simp]: "keeps_flags s s"
  by (simp add: keeps_flags_def)

lemma keeps_flags_in_use: "keeps_flags s s' \<Longrightarrow> user_frame f \<Longrightarrow> in_use s f \<Longrightarrow> in_use s' f"
  by (simp add: keeps_flags_def in_use_def)

lemma keeps_flags_trans: "keeps_flags s s1 \<Longrightarrow> keeps_flags s1 s2 \<Longrightarrow> keeps_flags s s2"
  unfolding keeps_flags_def in_use_def by metis

lemma free_bytes_mono: "keeps_flags s s' \<Longrightarrow> free_bytes s' \<subseteq> free_bytes s"
  using keeps_flags_in_use by (fastforce simp: free_bytes_def)

lemma free_bytes_disjoint:
  "user_frame f \<Longrightarrow> in_use s f \<Longrightarrow> free_bytes s \<inter> page f = {}"
  using pages_disjoint by (fastforce simp: free_bytes_def)

lemma page_free_bytes: "user_frame f \<Longrightarrow> \<not> in_use s f \<Longrightarrow> page f \<subseteq> free_bytes s"
  by (auto simp: free_bytes_def)

lemma allocate_memory_keeps:
  assumes "allocate_memory s = Inr (addr, s')"
  shows "keeps_flags s s'" "in_use s' addr"
proof -
  note am = allocate_memory_Inr [OF assms]
  show "keeps_flags s s'" unfolding keeps_flags_def am(4)
    using am(1,2) pa_to_id_inj by (metis fun_upd_other)
  show "in_use s' addr" using am(4) by (simp add: in_use_def)
qed

text \<open>Entry \<open>e'\<close> of the copied table for entry \<open>e\<close> of the source.\<close>

definition copied_entry :: "mm \<Rightarrow> mm \<Rightarrow> u32 \<Rightarrow> u32 \<Rightarrow> bool" where
  "copied_entry s s' e e' \<longleftrightarrow>
     (if present e then \<exists>g. e' = entry_for g \<and> user_frame g \<and> \<not> in_use s g \<and> in_use s' g \<and>
          copied (mm_mem s) (frame_addr e) (mm_mem s') g
      else e' = 0)"

lemma copied_entry_step:
  assumes c: "copied_entry s s1 e e'" and k: "keeps_flags s1 s2" and A: "only A (mm_mem s1) (mm_mem s2)"
    and d: "\<And>g. user_frame g \<Longrightarrow> in_use s1 g \<Longrightarrow> \<not> in_use s g \<Longrightarrow> e' = entry_for g \<Longrightarrow> A \<inter> page g = {}"
  shows "copied_entry s s2 e e'"
proof (cases "present e")
  case True
  with c obtain g where g: "e' = entry_for g" "user_frame g" "\<not> in_use s g" "in_use s1 g"
    "copied (mm_mem s) (frame_addr e) (mm_mem s1) g" by (auto simp: copied_entry_def)
  have "copied (mm_mem s) (frame_addr e) (mm_mem s2) g"
    by (rule copied_cong [OF g(5) A d [OF g(2,4,3,1)] user_frame_arrays(1) [OF g(2)]])
  then show ?thesis using g True keeps_flags_in_use [OF k g(2,4)] by (auto simp: copied_entry_def)
qed (use c in \<open>simp add: copied_entry_def\<close>)

text \<open>The state of the copy of one table after its first \<open>j\<close> entries.\<close>

definition ptes_copied :: "u32 \<Rightarrow> u32 \<Rightarrow> mm \<Rightarrow> nat \<Rightarrow> mm \<Rightarrow> bool" where
  "ptes_copied ps t s j u \<longleftrightarrow> keeps_flags s u \<and>
     only (page t \<union> free_bytes s) (mm_mem s) (mm_mem u) \<and>
     (\<forall>k < j. copied_entry s u (load32 (mm_mem s) (word_at ps k)) (load32 (mm_mem u) (word_at t k))) \<and>
     (\<forall>k < j. \<forall>l < j. load32 (mm_mem u) (word_at t k) = load32 (mm_mem u) (word_at t l) \<longrightarrow>
        present (load32 (mm_mem u) (word_at t k)) \<longrightarrow> k = l)"

lemma copy_pte_step:
  assumes ps: "user_frame ps" "in_use s ps" and t: "user_frame t" "in_use s t" and ne: "ps \<noteq> t"
    and src: "\<And>j. j < 1024 \<Longrightarrow> present (load32 (mm_mem s) (word_at ps j)) \<Longrightarrow>
      user_frame (frame_addr (load32 (mm_mem s) (word_at ps j))) \<and>
      in_use s (frame_addr (load32 (mm_mem s) (word_at ps j))) \<and> frame_addr (load32 (mm_mem s) (word_at ps j)) \<noteq> t"
    and inv: "ptes_copied ps t s j u" and j: "j < 1024" and step: "copy_pte ps t j u = Inr u'"
  shows "ptes_copied ps t s (Suc j) u'"
proof -
  let ?A = "page t \<union> free_bytes s" and ?m = "mm_mem s"
  note inv' = inv [unfolded ptes_copied_def]
  have kf: "keeps_flags s u" and on: "only ?A ?m (mm_mem u)" using inv' by auto
  have pst: "page t \<inter> page ps = {}" using pages_disjoint [OF t(1) ps(1)] ne by blast
  have Aps: "?A \<inter> page ps = {}" using pst free_bytes_disjoint [OF ps] by blast
  note wps = user_frame_arrays(1) [OF ps(1)] and wt = user_frame_arrays(1) [OF t(1)]
  let ?e = "load32 ?m (word_at ps j)"
  have e: "load32 (mm_mem u) (word_at ps j) = ?e" by (rule load_only [OF on Aps wps j])
  have fault: "Page_Table_Fault u (word_at ps j) \<longleftrightarrow> \<not> present ?e"
    by (simp add: Page_Table_Fault_def entry_tab [OF ps(1) j] e)
  have kt: "kphys (word_at t j) = word_at t j" using user_frame_low [OF t(1) j] by simp
  have used: "in_use u t" by (rule keeps_flags_in_use [OF kf t])
  show ?thesis
  proof (cases "present ?e")
    case False
    then have u': "Ppage_flag u' = Ppage_flag u" "mm_mem u' = store32 (word_at t j) 0 (mm_mem u)"
      using step fault by (auto simp: copy_pte_def make_invalid_pte_def kt)
    have ld: "load32 (mm_mem u') (word_at t k) = (if k = j then 0 else load32 (mm_mem u) (word_at t k))" if "k < 1024" for k
      unfolding u' by (rule load_store_word_at [OF wt that j])
    have st: "only (page t) (mm_mem u) (mm_mem u')" unfolding u' by (rule store_only [OF wt j])
    have ku: "keeps_flags u u'" using u' by (simp add: keeps_flags_def)
    have "copied_entry s u' (load32 ?m (word_at ps k)) (load32 (mm_mem u') (word_at t k))" if "k < Suc j" for k
    proof (cases "k = j")
      case True
      then show ?thesis using False ld j by (simp add: copied_entry_def)
    next
      case False
      then have "k < j" using that by simp
      then have "copied_entry s u (load32 ?m (word_at ps k)) (load32 (mm_mem u) (word_at t k))" using inv' by blast
      then have "copied_entry s u' (load32 ?m (word_at ps k)) (load32 (mm_mem u) (word_at t k))"
      proof (rule copied_entry_step [OF _ ku st])
        fix h assume h: "user_frame h" "in_use u h" "\<not> in_use s h"
        then show "page t \<inter> page h = {}" using t by (intro pages_disjoint) auto
      qed
      then show ?thesis using ld \<open>k < j\<close> j by simp
    qed
    moreover have "keeps_flags s u'" "only ?A ?m (mm_mem u')"
      using keeps_flags_trans [OF kf ku] only_trans [OF on only_mono [OF st]] by auto
    ultimately show ?thesis unfolding ptes_copied_def using ld j inv' by (auto simp: less_Suc_eq)
  next
    case True
    define f where "f = frame_addr ?e"
    have f: "user_frame f" "in_use s f" "f \<noteq> t" using src [OF j True] by (auto simp: f_def)
    obtain g u1 where am: "allocate_memory u = Inr (g, u1)"
      and u': "Ppage_flag u' = Ppage_flag u1"
        "mm_mem u' = copy_memory (frame_addr (load32 (store32 (word_at t j) (entry_for g) (mm_mem u1)) (word_at ps j))) g
           (store32 (word_at t j) (entry_for g) (mm_mem u1))"
      using step fault True
      by (auto simp: copy_pte_def make_pte_def kt bindE_eq_Inr entry_tab [OF ps(1) j])
    note g = allocate_memory_Inr [OF am] and gk = allocate_memory_keeps [OF am]
    have gs: "\<not> in_use s g" using keeps_flags_in_use [OF kf g(1)] g(2) by blast
    have gt: "g \<noteq> t" "g \<noteq> f" using gs f t by auto
    define m1 where "m1 = store32 (word_at t j) (entry_for g) (mm_mem u)"
    have st: "only (page t) (mm_mem u) m1" unfolding m1_def by (rule store_only [OF wt j])
    have "load32 m1 (word_at ps j) = ?e"
      using load_only [OF st pst wps j] e by simp
    then have m': "mm_mem u' = copy_memory f g m1" using u' g(3) by (simp add: f_def m1_def)
    note cm = copy_memory_spec [OF f(1) g(1), of m1] 
    have cp: "copied m1 f (mm_mem u') g" and og: "only (page g) m1 (mm_mem u')" using cm gt m' by auto
    have both: "only (page t \<union> page g) (mm_mem u) (mm_mem u')"
      using only_trans [OF only_mono [OF st] only_mono [OF og]] by blast
    have pg: "page g \<subseteq> free_bytes s" by (rule page_free_bytes [OF g(1) gs])
    have onu': "only ?A ?m (mm_mem u')" by (rule only_trans [OF on only_mono [OF both]]) (use pg in auto)
    have ku: "keeps_flags u u'" using gk(1) u'(1) by (simp add: keeps_flags_def)
    have kf': "keeps_flags s u'" by (rule keeps_flags_trans [OF kf ku])
    have gt': "page g \<inter> page t = {}" by (rule pages_disjoint [OF g(1) t(1) gt(1)])
    have ld: "load32 (mm_mem u') (word_at t k) = (if k = j then entry_for g else load32 (mm_mem u) (word_at t k))"
      if "k < 1024" for k
      using load_only [OF og gt' wt that] load_store_word_at [OF wt that j] by (simp add: m1_def)
    have Af: "(page t \<union> free_bytes s) \<inter> page f = {}"
      using free_bytes_disjoint [OF f(1,2)] pages_disjoint [OF t(1) f(1)] f(3) by blast
    have "only ?A ?m m1" by (rule only_trans [OF on only_mono [OF st]]) auto
    then have cf: "copied ?m f (mm_mem u') g"
      by (rule copied_cong_source [OF cp _ Af user_frame_arrays(1) [OF f(1)]])
    have gu': "in_use u' g" using gk(2) u'(1) by (simp add: in_use_def)
    have ce: "copied_entry s u' (load32 ?m (word_at ps k)) (load32 (mm_mem u') (word_at t k))" if "k < Suc j" for k
    proof (cases "k = j")
      case True
      have "load32 (mm_mem u') (word_at t j) = entry_for g" using ld [OF j] by simp
      then show ?thesis using \<open>present ?e\<close> True g(1) gs gu' cf by (auto simp: copied_entry_def f_def)
    next
      case False
      then have "k < j" using that by simp
      then have "copied_entry s u (load32 ?m (word_at ps k)) (load32 (mm_mem u) (word_at t k))" using inv' by blast
      then have "copied_entry s u' (load32 ?m (word_at ps k)) (load32 (mm_mem u) (word_at t k))"
      proof (rule copied_entry_step [OF _ ku both])
        fix h assume h: "user_frame h" "in_use u h" "\<not> in_use s h"
        then have "h \<noteq> t" "h \<noteq> g" using t g(2) by auto
        then show "(page t \<union> page g) \<inter> page h = {}"
          using pages_disjoint [OF t(1) h(1)] pages_disjoint [OF g(1) h(1)] by blast
      qed
      then show ?thesis using ld \<open>k < j\<close> j by simp
    qed
    have fresh: "load32 (mm_mem u) (word_at t k) \<noteq> entry_for g" if "k < j" for k
    proof
      assume a: "load32 (mm_mem u) (word_at t k) = entry_for g"
      have "copied_entry s u (load32 ?m (word_at ps k)) (load32 (mm_mem u) (word_at t k))" using inv' that by blast
      moreover have "entry_for g \<noteq> 0" using frame_of_user_frame(2) [OF g(1)] by auto
      ultimately obtain h where "entry_for g = entry_for h" "user_frame h" "in_use u h"
        using a by (auto simp: copied_entry_def split: if_splits)
      then have "g = h" using frame_of_user_frame(1) [OF g(1)] frame_of_user_frame(1) [of h] by metis
      then show False using \<open>in_use u h\<close> g(2) by simp
    qed
    show ?thesis unfolding ptes_copied_def
    proof (intro conjI allI impI)
      fix k l assume kl: "k < Suc j" "l < Suc j" and "present (load32 (mm_mem u') (word_at t k))"
        and "load32 (mm_mem u') (word_at t k) = load32 (mm_mem u') (word_at t l)"
      then show "k = l" using ld [of k] ld [of l] j fresh [of k] fresh [of l] inv'
        by (cases "k = j"; cases "l = j") (auto simp: less_Suc_eq)
    qed (use kf' onu' ce in auto)
  qed
qed


lemma copy_ptes:
  assumes "user_frame ps" "in_use s ps" "user_frame t" "in_use s t" "ps \<noteq> t"
    and "\<And>j. j < 1024 \<Longrightarrow> present (load32 (mm_mem s) (word_at ps j)) \<Longrightarrow>
      user_frame (frame_addr (load32 (mm_mem s) (word_at ps j))) \<and>
      in_use s (frame_addr (load32 (mm_mem s) (word_at ps j))) \<and> frame_addr (load32 (mm_mem s) (word_at ps j)) \<noteq> t"
    and "forE (copy_pte ps t) [0..<NR_PTE_ENTRY] s = Inr s'"
  shows "ptes_copied ps t s 1024 s'"
proof -
  have "forE (copy_pte ps t) [0..<1024] s = Inr s'" using assms(7) unfolding NR_PTE_ENTRY_def .
  then show ?thesis
  proof (rule forE_upt)
    show "ptes_copied ps t s 0 s" by (simp add: ptes_copied_def)
    show "ptes_copied ps t s (Suc i) u'" if "i < 1024" "ptes_copied ps t s i u" "copy_pte ps t i u = Inr u'" for i u u'
      by (rule copy_pte_step [OF assms(1-6) that(2,1,3)])
  qed simp
qed

text \<open>Directory entry \<open>i\<close> of the copy.\<close>

definition copied_dir :: "mm \<Rightarrow> mm \<Rightarrow> u32 \<Rightarrow> u32 \<Rightarrow> nat \<Rightarrow> bool" where
  "copied_dir s u src tgt i \<longleftrightarrow>
     (if present (dir (mm_mem s) src i) then
        \<exists>t. dir (mm_mem u) tgt i = entry_for t \<and> user_frame t \<and> \<not> in_use s t \<and> in_use u t \<and>
          (\<forall>k < 1024. copied_entry s u (pte (mm_mem s) src i k) (load32 (mm_mem u) (word_at t k)) \<and>
             load32 (mm_mem u) (word_at t k) \<noteq> entry_for t) \<and>
          (\<forall>k < 1024. \<forall>l < 1024. load32 (mm_mem u) (word_at t k) = load32 (mm_mem u) (word_at t l) \<longrightarrow>
             present (load32 (mm_mem u) (word_at t k)) \<longrightarrow> k = l)
      else dir (mm_mem u) tgt i = 0)"

lemma copied_dir_step:
  assumes c: "copied_dir s u src tgt i" and i: "i < 1024" and k: "keeps_flags u u'"
    and A: "only A (mm_mem u) (mm_mem u')" 
    and dir': "dir (mm_mem u') tgt i = dir (mm_mem u) tgt i"
    and d: "\<And>g. user_frame g \<Longrightarrow> in_use u g \<Longrightarrow> \<not> in_use s g \<Longrightarrow> A \<inter> page g = {}"
  shows "copied_dir s u' src tgt i"
proof (cases "present (dir (mm_mem s) src i)")
  case True
  with c obtain t where t: "dir (mm_mem u) tgt i = entry_for t" "user_frame t" "\<not> in_use s t" "in_use u t"
    and e: "\<forall>k < 1024. copied_entry s u (pte (mm_mem s) src i k) (load32 (mm_mem u) (word_at t k))"
      "\<forall>k < 1024. load32 (mm_mem u) (word_at t k) \<noteq> entry_for t"
      "\<forall>k < 1024. \<forall>l < 1024. load32 (mm_mem u) (word_at t k) = load32 (mm_mem u) (word_at t l) \<longrightarrow>
             present (load32 (mm_mem u) (word_at t k)) \<longrightarrow> k = l"
    by (auto simp: copied_dir_def)
  have ld: "load32 (mm_mem u') (word_at t k) = load32 (mm_mem u) (word_at t k)" if "k < 1024" for k
    by (rule load_only [OF A d [OF t(2,4,3)] user_frame_arrays(1) [OF t(2)] that])
  have "copied_entry s u' (pte (mm_mem s) src i k) (load32 (mm_mem u') (word_at t k))" if "k < 1024" for k
    unfolding ld [OF that] using e(1) that d by (auto intro: copied_entry_step [OF _ k A])
  then show ?thesis
    unfolding copied_dir_def using True t e ld dir' keeps_flags_in_use [OF k t(2,4)]
    by (auto intro!: exI [of _ t])
qed (use c dir' in \<open>simp add: copied_dir_def\<close>)

text \<open>The state of the copy after its first \<open>i\<close> directory entries.\<close>

definition frames_of :: "memory \<Rightarrow> u32 \<Rightarrow> nat \<Rightarrow> u32 set" where
  "frames_of m pd i = insert (tab m pd i) {frame_addr (pte m pd i k) | k. k < 1024 \<and> present (pte m pd i k)}"

definition dirs_copied :: "mm \<Rightarrow> u32 \<Rightarrow> u32 \<Rightarrow> nat \<Rightarrow> mm \<Rightarrow> bool" where
  "dirs_copied s src tgt i u \<longleftrightarrow> keeps_flags s u \<and>
     only (page (va_to_pa tgt) \<union> free_bytes s) (mm_mem s) (mm_mem u) \<and>
     (\<forall>k < i. copied_dir s u src tgt k) \<and>
     (\<forall>k < i. \<forall>l < i. present (dir (mm_mem u) tgt k) \<longrightarrow> present (dir (mm_mem u) tgt l) \<longrightarrow> k \<noteq> l \<longrightarrow>
        frames_of (mm_mem u) tgt k \<inter> frames_of (mm_mem u) tgt l = {})"

lemma frames_of_cong:
  assumes "tab m' pd i = tab m pd i" "\<And>k. k < 1024 \<Longrightarrow> pte m' pd i k = pte m pd i k"
  shows "frames_of m' pd i = frames_of m pd i"
proof -
  have "{frame_addr (pte m' pd i k) | k. k < 1024 \<and> present (pte m' pd i k)} =
      {frame_addr (pte m pd i k) | k. k < 1024 \<and> present (pte m pd i k)}"
    using assms(2) by (intro Collect_cong ex_cong) (metis (no_types))
  with assms(1) show ?thesis by (simp add: frames_of_def)
qed

lemma copied_dir_frames:
  assumes "copied_dir s u src tgt i" "present (dir (mm_mem u) tgt i)" "f \<in> frames_of (mm_mem u) tgt i"
  shows "user_frame f" "in_use u f" "\<not> in_use s f"
proof -
  have p: "present (dir (mm_mem s) src i)"
    using assms(1,2) by (auto simp: copied_dir_def split: if_splits)
  with assms(1) obtain t where t: "dir (mm_mem u) tgt i = entry_for t" "user_frame t" "\<not> in_use s t" "in_use u t"
    and e: "\<forall>k < 1024. copied_entry s u (pte (mm_mem s) src i k) (load32 (mm_mem u) (word_at t k))"
    by (auto simp: copied_dir_def)
  have tt: "tab (mm_mem u) tgt i = t" using t by (simp add: tab_def)
  have "f = t \<or> (\<exists>k < 1024. present (load32 (mm_mem u) (word_at t k)) \<and> f = frame_addr (load32 (mm_mem u) (word_at t k)))"
    using assms(3) by (auto simp: frames_of_def pte_def tt)
  then have "user_frame f \<and> in_use u f \<and> \<not> in_use s f"
  proof
    assume "\<exists>k < 1024. present (load32 (mm_mem u) (word_at t k)) \<and> f = frame_addr (load32 (mm_mem u) (word_at t k))"
    then obtain k where k: "k < 1024" "present (load32 (mm_mem u) (word_at t k))" "f = frame_addr (load32 (mm_mem u) (word_at t k))"
      by blast
    with e show ?thesis by (auto simp: copied_entry_def split: if_splits)
  qed (use t in simp)
  then show "user_frame f" "in_use u f" "\<not> in_use s f" by auto
qed

lemma copied_entry_base:
  assumes c: "copied_entry u1 u2 e e'" and k: "keeps_flags s u1" and A: "only A (mm_mem s) (mm_mem u1)"
    and f: "present e \<Longrightarrow> user_frame (frame_addr e) \<and> A \<inter> page (frame_addr e) = {}"
  shows "copied_entry s u2 e e'"
proof (cases "present e")
  case True
  with c obtain g where g: "e' = entry_for g" "user_frame g" "\<not> in_use u1 g" "in_use u2 g"
    "copied (mm_mem u1) (frame_addr e) (mm_mem u2) g" by (auto simp: copied_entry_def)
  have "copied (mm_mem s) (frame_addr e) (mm_mem u2) g"
    using f [OF True] by (intro copied_cong_source [OF g(5) A]) (simp_all add: user_frame_arrays)
  moreover have "\<not> in_use s g" using g(2,3) keeps_flags_in_use [OF k] by blast
  ultimately show ?thesis using g True by (auto simp: copied_entry_def)
qed (use c in \<open>simp add: copied_entry_def\<close>)

lemma copy_user_pde_step:
  assumes src: "wf_user s src" and tgt: "good_dir tgt" and apart: "page (va_to_pa src) \<inter> page (va_to_pa tgt) = {}"
    and inv: "dirs_copied s src tgt i u" and i: "i < 768" and step: "copy_user_pde src tgt i u = Inr u'"
  shows "dirs_copied s src tgt (Suc i) u'"
proof -
  let ?m = "mm_mem s" and ?A = "page (va_to_pa tgt) \<union> free_bytes s" and ?d = "va_to_pa tgt"
  note inv' = inv [unfolded dirs_copied_def]
  have kf: "keeps_flags s u" and on: "only ?A ?m (mm_mem u)" using inv' by auto
  have wf: "wf_space s src" and gs: "good_dir src" using src wf_space_dir by (auto simp: wf_user_def)
  note wd = good_dir_arrays(1) [OF tgt] and ws = good_dir_arrays(1) [OF gs]
  have i': "i < 1024" using i by simp
  have lows: "free_bytes s \<inter> page (va_to_pa pd) = {}" if "good_dir pd" for pd
    using dir_page_disjoint [OF that] by (fastforce simp: free_bytes_def)
  have ds: "dir (mm_mem u) src i = dir ?m src i"
    unfolding dir_def using apart lows [OF gs] by (intro load_only [OF on _ ws i']) auto
  have kt: "kphys (word_at tgt i) = word_at ?d i" by (rule kphys_dir [OF tgt i'])
  have fault: "Page_Directory_Fault u (word_at src i) \<longleftrightarrow> \<not> present (dir ?m src i)"
    by (simp add: Page_Directory_Fault_def entry_dir [OF gs i'] ds)
  show ?thesis
  proof (cases "present (dir ?m src i)")
    case False
    then have u': "Ppage_flag u' = Ppage_flag u" "mm_mem u' = store32 (word_at ?d i) 0 (mm_mem u)"
      using step fault by (auto simp: copy_user_pde_def make_invalid_pde_def kt)
    have st: "only (page ?d) (mm_mem u) (mm_mem u')" unfolding u' by (rule store_only [OF wd i'])
    have ku: "keeps_flags u u'" using u' by (simp add: keeps_flags_def)
    have dir': "dir (mm_mem u') tgt k = (if k = i then 0 else dir (mm_mem u) tgt k)" if "k < 1024" for k
      unfolding dir_def u' by (rule load_store_word_at [OF wd that i'])
    have cd: "copied_dir s u' src tgt k" if "k < Suc i" for k
    proof (cases "k = i")
      case True
      then show ?thesis using False dir' [OF i'] by (simp add: copied_dir_def)
    next
      case False
      then have "k < i" using that by simp
      then show ?thesis using inv' i dir' [of k] dir_page_disjoint [OF tgt]
        by (intro copied_dir_step [OF _ _ ku st]) auto
    qed
    have fr: "frames_of (mm_mem u') tgt k = frames_of (mm_mem u) tgt k" if "k < i" "present (dir (mm_mem u) tgt k)" for k
    proof -
      have t: "user_frame (tab (mm_mem u) tgt k)"
        using copied_dir_frames(1) [of s u src tgt k] inv' that by (auto simp: frames_of_def)
      have "tab (mm_mem u') tgt k = tab (mm_mem u) tgt k" using dir' [of k] that i by (simp add: tab_def)
      moreover from this have "pte (mm_mem u') tgt k l = pte (mm_mem u) tgt k l" if "l < 1024" for l
        unfolding pte_def using load_only [OF st dir_page_disjoint [OF tgt t] user_frame_arrays(1) [OF t] that] by simp
      ultimately show ?thesis by (rule frames_of_cong)
    qed
    have "keeps_flags s u'" "only ?A ?m (mm_mem u')"
      using keeps_flags_trans [OF kf ku] only_trans [OF on only_mono [OF st]] by auto
    then show ?thesis unfolding dirs_copied_def
    proof (intro conjI allI impI)
      fix k l assume kl: "k < Suc i" "l < Suc i" "k \<noteq> l" "present (dir (mm_mem u') tgt k)" "present (dir (mm_mem u') tgt l)"
      then have "k < i" "l < i" "present (dir (mm_mem u) tgt k)" "present (dir (mm_mem u) tgt l)"
        using dir' [of k] dir' [of l] i by (auto simp: less_Suc_eq split: if_splits)
      then show "frames_of (mm_mem u') tgt k \<inter> frames_of (mm_mem u') tgt l = {}"
        using fr inv' kl(3) by simp
    qed (use cd in auto)
  next
    case True
    define ps where "ps = tab ?m src i"
    have ps: "user_frame ps" "in_use s ps" using wf_space_tab [OF wf i' True] by (simp_all add: ps_def)
    obtain t u1 where am: "allocate_memory u = Inr (t, u1)"
      and fe: "forE (copy_pte ps t) [0..<NR_PTE_ENTRY] (mm_mem_update (make_pde (word_at tgt i) t) u1) = Inr u'"
      using step fault True by (auto simp: copy_user_pde_def bindE_eq_Inr Let_def entry_dir [OF gs i'] ds ps_def tab_def)
    define u2 where "u2 = mm_mem_update (make_pde (word_at tgt i) t) u1"
    note g = allocate_memory_Inr [OF am] and gk = allocate_memory_keeps [OF am]
    have ts: "\<not> in_use s t" using keeps_flags_in_use [OF kf g(1)] g(2) by blast
    have m2: "mm_mem u2 = store32 (word_at ?d i) (entry_for t) (mm_mem u)"
      by (simp add: u2_def make_pde_def kt g(3))
    have ku2: "keeps_flags u u2" "in_use u2 t" using gk by (simp_all add: u2_def keeps_flags_def in_use_def)
    have ks2: "keeps_flags s u2" by (rule keeps_flags_trans [OF kf ku2(1)])
    have st: "only (page ?d) (mm_mem u) (mm_mem u2)" unfolding m2 by (rule store_only [OF wd i'])
    have on2: "only ?A ?m (mm_mem u2)" by (rule only_trans [OF on only_mono [OF st]]) auto
    have Aps: "?A \<inter> page ps = {}"
      using dir_page_disjoint [OF tgt ps(1)] free_bytes_disjoint [OF ps] by blast
    have ld: "load32 (mm_mem u2) (word_at ps k) = pte ?m src i k" if "k < 1024" for k
      using load_only [OF on2 Aps user_frame_arrays(1) [OF ps(1)] that] by (simp add: pte_def ps_def)
    have pg: "user_frame (frame_addr (pte ?m src i k)) \<and> in_use s (frame_addr (pte ?m src i k)) \<and>
        frame_addr (pte ?m src i k) \<noteq> t" if "k < 1024" "present (pte ?m src i k)" for k
    proof -
      have "vmap ?m src (1024 * i + k) = Some (frame_addr (pte ?m src i k))"
        using that True by (simp add: vmap_def)
      moreover have "1024 * i + k < 786432" using i that by simp
      ultimately show ?thesis using src ts unfolding wf_user_def by metis
    qed
    have "ps \<noteq> t" using ps ts by auto
    have pc: "ptes_copied ps t u2 1024 u'"
      using keeps_flags_in_use [OF ks2] ps ku2(2) g(1) \<open>ps \<noteq> t\<close> pg ld
      by (intro copy_ptes [OF ps(1) _ g(1) ku2(2) \<open>ps \<noteq> t\<close> _ fe [folded u2_def]]) auto
    note pc' = pc [unfolded ptes_copied_def]
    have ku': "keeps_flags u2 u'" and on': "only (page t \<union> free_bytes u2) (mm_mem u2) (mm_mem u')"
      using pc' by auto
    have kuu: "keeps_flags u u'" by (rule keeps_flags_trans [OF ku2(1) ku'])
    have fb: "page t \<union> free_bytes u2 \<subseteq> free_bytes u" "free_bytes u \<subseteq> free_bytes s"
      using page_free_bytes [OF g(1,2)] free_bytes_mono [OF ku2(1)] free_bytes_mono [OF kf] by auto
    have onn: "only (page ?d \<union> free_bytes u) (mm_mem u) (mm_mem u')"
      by (rule only_trans [OF only_mono [OF st] only_mono [OF on']]) (use fb in auto)
    have onA: "only ?A ?m (mm_mem u')" by (rule only_trans [OF on only_mono [OF onn]]) (use fb in auto)
    have d1: "(page t \<union> free_bytes u2) \<inter> page ?d = {}"
      using lows [OF tgt] fb by blast
    have dir': "dir (mm_mem u') tgt k = (if k = i then entry_for t else dir (mm_mem u) tgt k)" if "k < 1024" for k
      using load_only [OF on' d1 wd that] load_store_word_at [OF wd that i'] by (simp add: dir_def m2)
    have tt: "tab (mm_mem u') tgt i = t" using dir' [OF i'] g(1) by (simp add: tab_def)
    have ent: "copied_entry u2 u' (pte ?m src i k) (load32 (mm_mem u') (word_at t k))" if "k < 1024" for k
      using pc' that ld by metis
    have entf: "present (load32 (mm_mem u') (word_at t k)) \<Longrightarrow> \<not> in_use u2 (frame_addr (load32 (mm_mem u') (word_at t k)))"
      if "k < 1024" for k
      using ent [OF that] by (auto simp: copied_entry_def split: if_splits)
    have cdi: "copied_dir s u' src tgt i"
    proof -
      have "copied_entry s u' (pte ?m src i k) (load32 (mm_mem u') (word_at t k))" if "k < 1024" for k
      proof (rule copied_entry_base [OF ent [OF that] ks2 on2])
        assume "present (pte ?m src i k)"
        note f = pg [OF that this]
        then show "user_frame (frame_addr (pte ?m src i k)) \<and> ?A \<inter> page (frame_addr (pte ?m src i k)) = {}"
          using dir_page_disjoint [OF tgt] free_bytes_disjoint [of _ s] by blast
      qed
      moreover have "load32 (mm_mem u') (word_at t k) \<noteq> entry_for t" if "k < 1024" for k
        using entf [OF that] g(1) ku2(2) by auto
      moreover have "\<forall>k < 1024. \<forall>l < 1024. load32 (mm_mem u') (word_at t k) = load32 (mm_mem u') (word_at t l) \<longrightarrow>
             present (load32 (mm_mem u') (word_at t k)) \<longrightarrow> k = l"
        using pc' by blast
      moreover have "dir (mm_mem u') tgt i = entry_for t" using dir' [OF i'] by simp
      ultimately show ?thesis unfolding copied_dir_def
        using True g(1) ts keeps_flags_in_use [OF ku' g(1) ku2(2)] by (simp only: if_True) blast
    qed
    have du: "(page ?d \<union> free_bytes u) \<inter> page h = {}" if "user_frame h" "in_use u h" for h
      using dir_page_disjoint [OF tgt that(1)] free_bytes_disjoint [OF that] by blast
    have cd: "copied_dir s u' src tgt k" if "k < Suc i" for k
    proof (cases "k = i")
      case False
      then have "k < i" using that by simp
      then show ?thesis using inv' i dir' [of k] du
        by (intro copied_dir_step [OF _ _ kuu onn]) auto
    qed (use cdi in simp)
    have old: "frames_of (mm_mem u') tgt k = frames_of (mm_mem u) tgt k \<and> (\<forall>f \<in> frames_of (mm_mem u) tgt k. in_use u f)"
      if "k < i" "present (dir (mm_mem u) tgt k)" for k
    proof -
      have c: "copied_dir s u src tgt k" using inv' that(1) by blast
      have t: "user_frame (tab (mm_mem u) tgt k)" "in_use u (tab (mm_mem u) tgt k)"
        using copied_dir_frames [OF c that(2)] by (auto simp: frames_of_def)
      have "tab (mm_mem u') tgt k = tab (mm_mem u) tgt k" using dir' [of k] that i by (simp add: tab_def)
      moreover from this have "pte (mm_mem u') tgt k l = pte (mm_mem u) tgt k l" if "l < 1024" for l
        unfolding pte_def using load_only [OF onn du [OF t] user_frame_arrays(1) [OF t(1)] that] by simp
      ultimately have "frames_of (mm_mem u') tgt k = frames_of (mm_mem u) tgt k" by (rule frames_of_cong)
      then show ?thesis using copied_dir_frames(2) [OF c that(2)] by blast
    qed
    have new: "\<not> in_use u f" if "f \<in> frames_of (mm_mem u') tgt i" for f
    proof -
      have "f = t \<or> \<not> in_use u2 f" using that entf by (auto simp: frames_of_def tt pte_def)
      moreover have "user_frame f" by (rule copied_dir_frames(1) [OF cdi _ that]) (simp add: dir' i' g(1))
      ultimately show ?thesis using g(2) keeps_flags_in_use [OF ku2(1)] by auto
    qed
    show ?thesis unfolding dirs_copied_def
    proof (intro conjI allI impI)
      show "keeps_flags s u'" by (rule keeps_flags_trans [OF kf kuu])
      fix k l assume kl: "k < Suc i" "l < Suc i" "k \<noteq> l" "present (dir (mm_mem u') tgt k)" "present (dir (mm_mem u') tgt l)"
      then have p: "k < i \<Longrightarrow> present (dir (mm_mem u) tgt k)" "l < i \<Longrightarrow> present (dir (mm_mem u) tgt l)"
        using dir' [of k] dir' [of l] i by (auto split: if_splits)
      consider "k < i" "l < i" | "k = i" "l < i" | "k < i" "l = i" using kl by linarith
      then show "frames_of (mm_mem u') tgt k \<inter> frames_of (mm_mem u') tgt l = {}"
        by cases (use old p new inv' kl(3) in \<open>blast | simp\<close>)+
    qed (use cd onA in auto)
  qed
qed

text \<open>The kernel half: directory entries are shared.\<close>

lemma share_kernel_pdes:
  assumes wf: "wf_space s src" and tgt: "good_dir tgt" and apart: "page (va_to_pa src) \<inter> page (va_to_pa tgt) = {}"
    and u: "\<forall>k < 1024. dir (mm_mem u) src k = dir (mm_mem s) src k" and n: "768 + n \<le> 1024"
    and u': "u' = fold (share_kernel_pde src tgt) [768..<768 + n] u"
  shows "only (page (va_to_pa tgt)) (mm_mem u) (mm_mem u') \<and>
    (\<forall>k < 1024. dir (mm_mem u') tgt k =
       (if 768 \<le> k \<and> k < 768 + n
        then (if present (dir (mm_mem s) src k) then entry_for (tab (mm_mem s) src k) else 0)
        else dir (mm_mem u) tgt k)) \<and>
    (\<forall>f. user_frame f \<longrightarrow> Ppage_flag u' (pa_to_id f) = Ppage_flag u (pa_to_id f) +
       (if \<exists>k. 768 \<le> k \<and> k < 768 + n \<and> present (dir (mm_mem s) src k) \<and> f = tab (mm_mem s) src k then 1 else 0))"
  using n u'
proof (induction n arbitrary: u')
  case 0
  then show ?case by auto
next
  case (Suc n)
  let ?d = "va_to_pa tgt" and ?m = "mm_mem s"
  define i where "i = 768 + n"
  define w where "w = fold (share_kernel_pde src tgt) [768..<768 + n] u"
  have i: "i < 1024" using Suc.prems(1) by (simp add: i_def)
  have gs: "good_dir src" by (rule wf_space_dir [OF wf])
  note wd = good_dir_arrays(1) [OF tgt] and ws = good_dir_arrays(1) [OF gs]
  have IH: "only (page ?d) (mm_mem u) (mm_mem w)"
    "\<And>k. k < 1024 \<Longrightarrow> dir (mm_mem w) tgt k =
       (if 768 \<le> k \<and> k < 768 + n then (if present (dir ?m src k) then entry_for (tab ?m src k) else 0)
        else dir (mm_mem u) tgt k)"
    "\<And>f. user_frame f \<Longrightarrow> Ppage_flag w (pa_to_id f) = Ppage_flag u (pa_to_id f) +
       (if \<exists>k. 768 \<le> k \<and> k < 768 + n \<and> present (dir ?m src k) \<and> f = tab ?m src k then 1 else 0)"
    using Suc.IH [of w] Suc.prems(1) by (simp_all add: w_def)
  have ap: "page ?d \<inter> page (va_to_pa src) = {}" using apart by blast
  have ds: "dir (mm_mem w) src k = dir ?m src k" if "k < 1024" for k
    using load_only [OF IH(1) ap ws that] u that by (simp add: dir_def)
  have kt: "kphys (word_at tgt i) = word_at ?d i" by (rule kphys_dir [OF tgt i])
  define e where "e = (if present (dir ?m src i) then entry_for (tab ?m src i) else 0)"
  have "[768..<768 + Suc n] = [768..<768 + n] @ [i]"
    unfolding i_def add_Suc_right by (rule upt_Suc_append) simp
  then have u'w: "u' = share_kernel_pde src tgt i w" using Suc.prems(2) by (simp only: w_def fold_append) simp
  have m': "mm_mem u' = store32 (word_at ?d i) e (mm_mem w)"
    unfolding u'w share_kernel_pde_def Page_Directory_Fault_def entry_dir [OF gs i] ds [OF i]
    by (simp add: e_def tab_def make_pde_def make_invalid_pde_def kt share_memory_def Let_def)
  have st: "only (page ?d) (mm_mem w) (mm_mem u')" unfolding m' by (rule store_only [OF wd i])
  have "entry (mm_mem_update (make_pde (word_at tgt i) (tab ?m src i)) w) (word_at src i) = dir ?m src i"
    using load_only [OF st ap ws i] ds [OF i] kphys_dir [OF gs i] m'
    by (cases "present (dir ?m src i)")
      (simp_all add: entry_def dir_def make_pde_def kt e_def store_only [OF wd i] load_only [OF store_only [OF wd i] ap ws i])
  then have fl: "Ppage_flag u' = (if present (dir ?m src i)
      then (Ppage_flag w)(pa_to_id (tab ?m src i) := Ppage_flag w (pa_to_id (tab ?m src i)) + 1) else Ppage_flag w)"
    unfolding u'w share_kernel_pde_def Page_Directory_Fault_def entry_dir [OF gs i] ds [OF i]
    by (simp add: share_memory_def Let_def tab_def)
  show ?case
  proof (intro conjI allI impI)
    show "only (page ?d) (mm_mem u) (mm_mem u')" by (rule only_trans [OF IH(1) st])
    fix k :: nat assume k: "k < 1024"
    have "dir (mm_mem u') tgt k = (if k = i then e else dir (mm_mem w) tgt k)"
      unfolding dir_def m' by (rule load_store_word_at [OF wd k i])
    then show "dir (mm_mem u') tgt k =
       (if 768 \<le> k \<and> k < 768 + Suc n then (if present (dir ?m src k) then entry_for (tab ?m src k) else 0)
        else dir (mm_mem u) tgt k)"
      using IH(2) [OF k] by (auto simp: e_def i_def)
  next
    fix f assume f: "user_frame f"
    let ?P = "\<lambda>n. \<exists>k. 768 \<le> k \<and> k < 768 + n \<and> present (dir ?m src k) \<and> f = tab ?m src k"
    have inj: "tab ?m src k = tab ?m src i \<longleftrightarrow> k = i"
      if "k < 768 + n" "present (dir ?m src k)" "present (dir ?m src i)" for k
      using wf that i Suc.prems(1) unfolding wf_space_def inj_on_def by auto
    have "?P (Suc n) \<longleftrightarrow> ?P n \<or> present (dir ?m src i) \<and> f = tab ?m src i"
    proof -
      have lt: "k < 768 + Suc n \<longleftrightarrow> k < 768 + n \<or> k = i" for k by (auto simp: i_def)
      have "768 \<le> i" by (simp add: i_def)
      then show ?thesis unfolding lt by blast
    qed
    moreover have "\<not> ?P n" if "present (dir ?m src i)" "f = tab ?m src i"
    proof
      assume "?P n"
      then obtain k where k: "k < 768 + n" "present (dir ?m src k)" "f = tab ?m src k" by blast
      have "tab ?m src k = tab ?m src i" by (rule trans [OF k(3) [symmetric] that(2)])
      then have "k = i" using inj [OF k(1,2) that(1)] by (rule_tac iffD1)
      then show False using k(1) by (simp add: i_def)
    qed
    moreover have "Ppage_flag u' (pa_to_id f) = Ppage_flag w (pa_to_id f) +
        (if present (dir ?m src i) \<and> f = tab ?m src i then 1 else 0)"
      using fl pa_to_id_inj [OF f wf_space_tab(1) [OF wf i]] by auto
    ultimately show "Ppage_flag u' (pa_to_id f) = Ppage_flag u (pa_to_id f) + (if ?P (Suc n) then 1 else 0)"
      using IH(3) [OF f] by (cases "present (dir ?m src i) \<and> f = tab ?m src i") simp_all
  qed
qed


lemma forE_Inl:
  assumes "forE f is s = Inl e" and "\<And>i u e. i \<in> set is \<Longrightarrow> f i u = Inl e \<Longrightarrow> e = x"
  shows "e = x"
  using assms by (induction "is" arbitrary: s) (auto simp: bindE_eq_Inl)

lemma copy_page_Inl:
  assumes "copy_page src tgt s = Inl e"
  shows "e = Panic full_msg"
proof -
  have am: "allocate_memory u = Inl e \<Longrightarrow> e = Panic full_msg" for u e
    using allocate_memory_Inl(1) by (simp add: full_msg_def)
  have "e' = Panic full_msg" if "copy_pte ps t j u = Inl e'" for ps t j u e'
    using that am by (auto simp: copy_pte_def bindE_eq_Inl Let_def split: if_splits)
  then have "e' = Panic full_msg" if "copy_user_pde src tgt i u = Inl e'" for i u e'
    using that am by (auto simp: copy_user_pde_def bindE_eq_Inl Let_def split: if_splits dest!: forE_Inl)
  then show ?thesis using assms by (auto simp: copy_page_def bindE_eq_Inl dest!: forE_Inl)
qed

lemma copy_user_half:
  assumes src: "wf_user s src" and tgt: "good_dir tgt" and apart: "page (va_to_pa src) \<inter> page (va_to_pa tgt) = {}"
    and f: "forE (copy_user_pde src tgt) [0..<768] s = Inr u"
  shows "dirs_copied s src tgt 768 u"
  using f
proof (rule forE_upt)
  show "dirs_copied s src tgt 0 s" by (simp add: dirs_copied_def)
  show "dirs_copied s src tgt (Suc i) u'" if "i < 768" "dirs_copied s src tgt i u" "copy_user_pde src tgt i u = Inr u'"
    for i u u'
    by (rule copy_user_pde_step [OF src tgt apart that(2,1,3)])
qed simp

text \<open>Page \<open>v\<close> of the copy: its own new frame with the contents of the page it was copied from.\<close>

definition copied_page :: "mm \<Rightarrow> mm \<Rightarrow> u32 option \<Rightarrow> u32 option \<Rightarrow> bool" where
  "copied_page s s' p q \<longleftrightarrow>
     (case p of None \<Rightarrow> q = None
      | Some f \<Rightarrow> (\<exists>g. q = Some g \<and> user_frame g \<and> \<not> in_use s g \<and> in_use s' g \<and>
          copied (mm_mem s) f (mm_mem s') g))"

lemma copied_dir_page:
  assumes c: "copied_dir s u src tgt (v div 1024)"
    and m': "only (page (va_to_pa tgt)) (mm_mem u) (mm_mem s')" and tgt: "good_dir tgt"
    and dir': "dir (mm_mem s') tgt (v div 1024) = dir (mm_mem u) tgt (v div 1024)"
    and iu: "\<And>g. user_frame g \<Longrightarrow> in_use u g \<Longrightarrow> in_use s' g"
  shows "copied_page s s' (vmap (mm_mem s) src v) (vmap (mm_mem s') tgt v)"
    "\<And>g. vmap (mm_mem s') tgt v = Some g \<Longrightarrow> g \<noteq> tab (mm_mem s') tgt (v div 1024) \<and>
       g \<in> frames_of (mm_mem u) tgt (v div 1024) \<and> present (dir (mm_mem u) tgt (v div 1024))"
proof -
  let ?i = "v div 1024" and ?k = "v mod 1024"
  have k: "?k < 1024" by simp
  have "copied_page s s' (vmap (mm_mem s) src v) (vmap (mm_mem s') tgt v) \<and>
    (\<forall>g. vmap (mm_mem s') tgt v = Some g \<longrightarrow> g \<noteq> tab (mm_mem s') tgt ?i \<and>
       g \<in> frames_of (mm_mem u) tgt ?i \<and> present (dir (mm_mem u) tgt ?i))"
  proof (cases "present (dir (mm_mem s) src ?i)")
    case False
    then have "dir (mm_mem s') tgt ?i = 0" using c dir' by (simp add: copied_dir_def)
    then show ?thesis using False by (simp add: vmap_def copied_page_def)
  next
    case True
    with c obtain t where t: "dir (mm_mem u) tgt ?i = entry_for t" "user_frame t"
      and e: "copied_entry s u (pte (mm_mem s) src ?i ?k) (load32 (mm_mem u) (word_at t ?k))"
        "load32 (mm_mem u) (word_at t ?k) \<noteq> entry_for t"
      using k unfolding copied_dir_def by auto
    have tt: "tab (mm_mem s') tgt ?i = t" "tab (mm_mem u) tgt ?i = t" using t dir' by (simp_all add: tab_def)
    have pt: "pte (mm_mem s') tgt ?i ?k = load32 (mm_mem u) (word_at t ?k)"
      using load_only [OF m' dir_page_disjoint [OF tgt t(2)] user_frame_arrays(1) [OF t(2)] k] by (simp add: pte_def tt)
    show ?thesis
    proof (cases "present (pte (mm_mem s) src ?i ?k)")
      case False
      then show ?thesis using e True by (auto simp: vmap_def copied_page_def copied_entry_def pt)
    next
      case present: True
      with e obtain g where g: "load32 (mm_mem u) (word_at t ?k) = entry_for g" "user_frame g" "\<not> in_use s g"
        "in_use u g" "copied (mm_mem s) (frame_addr (pte (mm_mem s) src ?i ?k)) (mm_mem u) g"
        by (auto simp: copied_entry_def)
      have "copied (mm_mem s) (frame_addr (pte (mm_mem s) src ?i ?k)) (mm_mem s') g"
        by (rule copied_cong [OF g(5) m' dir_page_disjoint [OF tgt g(2)] user_frame_arrays(1) [OF g(2)]])
      moreover have "vmap (mm_mem s') tgt v = Some g" using g t dir' by (simp add: vmap_def pt)
      moreover have "vmap (mm_mem s) src v = Some (frame_addr (pte (mm_mem s) src ?i ?k))"
        using True present by (simp add: vmap_def)
      moreover have "g \<noteq> t" using e(2) g(1) by auto
      moreover have "g \<in> frames_of (mm_mem u) tgt ?i"
        using g(1,2) k by (auto simp: frames_of_def pte_def tt intro!: exI [of _ ?k])
      ultimately show ?thesis using g iu [OF g(2,4)] t by (auto simp: copied_page_def tt)
    qed
  qed
  then show "copied_page s s' (vmap (mm_mem s) src v) (vmap (mm_mem s') tgt v)"
    "\<And>g. vmap (mm_mem s') tgt v = Some g \<Longrightarrow> g \<noteq> tab (mm_mem s') tgt ?i \<and>
       g \<in> frames_of (mm_mem u) tgt ?i \<and> present (dir (mm_mem u) tgt ?i)" by blast+
qed

lemma vmap_only:
  assumes on: "only A (mm_mem s) m'" and wf: "wf_space s pd" 
    and A: "A \<inter> page (va_to_pa pd) = {}" "\<And>f. f \<in> tables (mm_mem s) pd \<Longrightarrow> A \<inter> page f = {}"
  shows "\<And>k. k < 1024 \<Longrightarrow> dir m' pd k = dir (mm_mem s) pd k" "tables m' pd = tables (mm_mem s) pd"
    "\<And>v. v < 1048576 \<Longrightarrow> vmap m' pd v = vmap (mm_mem s) pd v"
proof -
  note gd = wf_space_dir [OF wf]
  show d: "dir m' pd k = dir (mm_mem s) pd k" if "k < 1024" for k
    unfolding dir_def by (rule load_only [OF on A(1) good_dir_arrays(1) [OF gd] that])
  then show "tables m' pd = tables (mm_mem s) pd"
    unfolding tables_def tab_def by (intro Collect_cong ex_cong) (metis (no_types))
  show "vmap m' pd v = vmap (mm_mem s) pd v" if "v < 1048576" for v
  proof -
    have v: "v div 1024 < 1024" using that by (simp add: div_less_iff_less_mult)
    show ?thesis
    proof (cases "present (dir (mm_mem s) pd (v div 1024))")
      case True
      let ?t = "tab (mm_mem s) pd (v div 1024)"
      have "?t \<in> tables (mm_mem s) pd" using True v by (auto simp: tables_def)
      from load_only [OF on A(2) [OF this] user_frame_arrays(1) [OF wf_space_tab(1) [OF wf v True]]]
      show ?thesis using d [OF v] by (simp add: vmap_def pte_def tab_def)
    qed (use d [OF v] in \<open>simp add: vmap_def\<close>)
  qed
qed




end
