(* ===== verification/Lifecycle.thy ===== *)
theory Lifecycle
  imports Fork
begin

text \<open>
  The life of an address space: \<open>init_user_page\<close> builds one, \<open>exit_page\<close> releases one
  (kernel/mm.c), and one round of the memory server \<open>MemoryManagement\<close>.
\<close>

section \<open>\<open>init_user_page\<close>\<close>

lemma clear_dir:
  assumes "good_dir pd" "n \<le> 1024"
  shows "fold (\<lambda>i. make_invalid_pde (word_at pd i)) [0..<n] m = fill32 (va_to_pa pd) (\<lambda>_. 0) n m"
  using assms(2) by (induction n) (simp_all add: fill32_def make_invalid_pde_def kphys_dir [OF assms(1)])

lemma fill_entries:
  assumes "user_frame f" "n \<le> 1024"
  shows "fold (\<lambda>j. make_pte (word_at f j) (a j)) [0..<n] m = fill32 f (\<lambda>j. entry_for (a j)) n m"
  using assms(2) by (induction n) (simp_all add: fill32_def make_pte_def user_frame_low [OF assms(1)])

lemma kernel_page_frame [simp]:
  "k < 1048576 \<Longrightarrow> present (entry_for (push_bit 12 (of_nat k)))"
  "k < 1048576 \<Longrightarrow> frame_addr (entry_for (push_bit 12 (of_nat k))) = push_bit 12 (of_nat k)"
  by (simp_all add: frame_entry_for)

text \<open>After the first \<open>i\<close> kernel page tables.\<close>

definition kernel_mapped :: "u32 \<Rightarrow> mm \<Rightarrow> nat \<Rightarrow> mm \<Rightarrow> bool" where
  "kernel_mapped pd s i u \<longleftrightarrow> grows pd s u \<and>
     (\<forall>v < 1048576. vmap (mm_mem u) pd v =
        (if 786432 \<le> v \<and> v < 786432 + 1024 * i then Some (push_bit 12 (of_nat (v - 786432))) else None)) \<and>
     (\<forall>k < 1024. present (dir (mm_mem u) pd k) \<longrightarrow> 768 \<le> k \<and> k < 768 + i) \<and>
     card (free_frames s) \<le> i + card (free_frames u)"

lemma init_kernel_table_step:
  assumes u: "kernel_mapped pd s i u" and i: "i < 4" and r: "init_kernel_table pd i u = Inr u'"
  shows "kernel_mapped pd s (Suc i) u'"
proof -
  have wf: "wf_space u pd" using u grows_wf by (auto simp: kernel_mapped_def)
  note gd = wf_space_dir [OF wf]
  have val: "unat (KOFFSET div PD_SIZE) = 768" by (simp add: KOFFSET_def PD_SIZE_def)
  obtain t u1 where am: "allocate_memory u = Inr (t, u1)"
    and u': "u' = mm_mem_update
         (fold (\<lambda>j. make_pte (word_at t j) (push_bit 12 (of_nat (i * NR_PTE_ENTRY + j)))) [0..<NR_PTE_ENTRY]
          \<circ> make_pde (word_at pd (i + 768)) t) u1"
    using r by (auto simp: init_kernel_table_def bindE_eq_Inr val)
  note g = allocate_memory_grows [OF am wf]
  have uf: "user_frame t" using g(3) by (simp add: free_frames_def)
  let ?e = "\<lambda>j. entry_for (push_bit 12 (of_nat (i * 1024 + j)))"
  have k: "i + 768 < 1024" using i by simp
  have m': "mm_mem u' = fill32 t ?e 1024 (store32 (word_at (va_to_pa pd) (i + 768)) (entry_for t) (mm_mem u))"
    unfolding u' NR_PTE_ENTRY_def
    using fill_entries [OF uf order_refl] g(6) kphys_dir [OF gd k] by (simp add: make_pde_def)
  have absent: "\<not> present (dir (mm_mem u) pd (i + 768))"
  proof
    assume "present (dir (mm_mem u) pd (i + 768))"
    then have "i + 768 < 768 + i" using u k unfolding kernel_mapped_def by blast
    then show False by simp
  qed
  have fl: "Ppage_flag u' = Ppage_flag u1" by (simp add: u')
  note it = install_table [OF wf k absent am fl m']
  show ?thesis
    unfolding kernel_mapped_def
  proof (intro conjI allI impI)
    show "grows pd s u'" using u it(1) grows_trans by (auto simp: kernel_mapped_def)
    show "card (free_frames s) \<le> Suc i + card (free_frames u')" using u it(6) by (auto simp: kernel_mapped_def)
    show "768 \<le> k'" "k' < 768 + Suc i" if "k' < 1024" "present (dir (mm_mem u') pd k')" for k'
      using that it(5) u by (cases "k' = i + 768"; auto simp: kernel_mapped_def)+
    fix v :: nat assume v: "v < 1048576"
    have vi: "v div 1024 = i + 768 \<longleftrightarrow> 786432 + 1024 * i \<le> v \<and> v < 786432 + 1024 * Suc i" by auto
    show "vmap (mm_mem u') pd v =
        (if 786432 \<le> v \<and> v < 786432 + 1024 * Suc i then Some (push_bit 12 (of_nat (v - 786432))) else None)"
    proof (cases "v div 1024 = i + 768")
      case True
      have "v = 1024 * (v div 1024) + v mod 1024" by simp
      then have *: "i * 1024 + v mod 1024 = v - 786432" using True by simp
      have "v - 786432 < 1048576" using v by simp
      then show ?thesis using it(4) v True vi by (simp only: * kernel_page_frame) auto
    next
      case False
      then show ?thesis using it(4) v vi u by (auto simp: kernel_mapped_def)
    qed
  qed
qed

lemma init_user_page_spec:
  assumes pd: "good_dir pagedir"
  shows "case init_user_page pagedir s of
      Inl e \<Rightarrow> e = Panic full_msg \<and> card (free_frames s) < 6
    | Inr (cr3, s') \<Rightarrow> cr3 = make_cr3 (va_to_pa pagedir) \<and> wf_space s' pagedir \<and>
        only (page (va_to_pa pagedir) \<union> free_bytes s) (mm_mem s) (mm_mem s') \<and>
        card (free_frames s) \<le> 6 + card (free_frames s') \<and>
        (\<forall>f. user_frame f \<longrightarrow> in_use s f \<longrightarrow> in_use s' f) \<and> (\<forall>f \<in> tables (mm_mem s') pagedir. \<not> in_use s f) \<and>
        (\<exists>g. user_frame g \<and> \<not> in_use s g \<and> in_use s' g \<and> g \<notin> tables (mm_mem s') pagedir \<and>
          (\<forall>v < 1048576. vmap (mm_mem s') pagedir v =
             (if v = 786431 then Some g
              else if 786432 \<le> v \<and> v < 790528 then Some (push_bit 12 (of_nat (v - 786432)))
              else None)))"
proof -
  let ?d = "va_to_pa pagedir"
  define s0 where "s0 = mm_mem_update (fold (\<lambda>i. make_invalid_pde (word_at pagedir i)) [0..<NR_PDE_ENTRY]) s"
  have m0: "mm_mem s0 = fill32 ?d (\<lambda>_. 0) 1024 (mm_mem s)"
    unfolding s0_def NR_PDE_ENTRY_def using clear_dir [OF pd order_refl] by simp
  note wd = good_dir_arrays(1) [OF pd]
  have d0: "dir (mm_mem s0) pagedir k = 0" if "k < 1024" for k
    using load_fill32 [OF wd order_refl that] that by (simp add: dir_def m0)
  have fl0: "Ppage_flag s0 = Ppage_flag s" by (simp add: s0_def)
  have wf0: "wf_space s0 pagedir" using pd d0 by (auto simp: wf_space_def tables_def inj_on_def)
  have ff0: "free_frames s0 = free_frames s" "in_use s0 = in_use s" "free_bytes s0 = free_bytes s"
    by (auto simp: free_frames_def in_use_def free_bytes_def fl0 fun_eq_iff)
  have on0: "only (page ?d) (mm_mem s) (mm_mem s0)"
    unfolding m0 only_def using fill_outside_page [OF wd order_refl] by simp
  have k0: "kernel_mapped pagedir s0 0 s0"
    using grows_refl [OF wf0] d0 by (auto simp: kernel_mapped_def vmap_def div_less_iff_less_mult)
  have val: "unat (USER_MEM_LOW div PD_SIZE) = 4" by (simp add: USER_MEM_LOW_def PD_SIZE_def)
  have eq: "init_user_page pagedir s =
      bindE (forE (init_kernel_table pagedir) [0..<4] s0) (\<lambda>s.
         bindE (allocate_page pagedir 0xBFFFFFFF 1 s) (\<lambda>s. Inr (make_cr3 ?d, s)))"
    by (simp add: init_user_page_def s0_def [symmetric] Let_def val del: upt_rec_numeral)
  show ?thesis
  proof (cases "forE (init_kernel_table pagedir) [0..<4] s0")
    case (Inl e)
    then obtain i u where iu: "i < 4" "kernel_mapped pagedir s0 i u" "init_kernel_table pagedir i u = Inl e"
      using forE_upt_Inl [OF Inl, of "kernel_mapped pagedir s0"] k0 init_kernel_table_step by blast
    then have am: "allocate_memory u = Inl e" by (auto simp: init_kernel_table_def bindE_eq_Inl)
    have "free_frames u = {}" using allocate_memory_Inl(2) [OF am] by (auto simp: free_frames_def)
    then have "card (free_frames s) < 6" using iu(1,2) by (simp add: kernel_mapped_def ff0)
    then show ?thesis using allocate_memory_Inl(1) [OF am] by (simp add: eq Inl full_msg_def)
  next
    case (Inr u)
    have km: "kernel_mapped pagedir s0 4 u"
      by (rule forE_upt [OF Inr, of "kernel_mapped pagedir s0"]) (use k0 init_kernel_table_step in auto)
    have wfu: "wf_space u pagedir" and gu: "grows pagedir s0 u" using km grows_wf by (auto simp: kernel_mapped_def)
    have vu: "vmap (mm_mem u) pagedir v =
        (if 786432 \<le> v \<and> v < 790528 then Some (push_bit 12 (of_nat (v - 786432))) else None)" if "v < 1048576" for v
      using km that by (simp add: kernel_mapped_def)
    have cu: "card (free_frames s) \<le> 4 + card (free_frames u)" using km by (simp add: kernel_mapped_def ff0)
    note al = allocate_page_spec [OF wfu, of "0xBFFFFFFF" 1, simplified]
    show ?thesis
    proof (cases "allocate_page pagedir 0xBFFFFFFF 1 u")
      case (Inl e)
      with al have "add_fails pagedir 786431 1 u e 2" by simp
      then have "e = Panic full_msg \<and> card (free_frames u) < 2" using vu [of 786431] by (simp add: add_fails_def)
      then show ?thesis using cu by (simp add: eq \<open>forE _ _ _ = _\<close> Inl)
    next
      case (Inr s')
      with al obtain fs where a: "adds pagedir 786431 u s' fs (2 * length fs)" "length fs = 1" by auto
      then obtain g where fs: "fs = [g]" by (cases fs) auto
      have gs: "grows pagedir s0 s'" using a(1) gu grows_trans by (auto simp: adds_def)
      have nf: "user_frame g" "\<not> in_use u g" "in_use s' g" "g \<notin> tables (mm_mem s') pagedir" using a(1) by (auto simp: adds_def new_frames_def fs)
      have "\<not> in_use s g" using grows_in_use [OF gu nf(1)] nf(2) by (auto simp: ff0)
      moreover have "vmap (mm_mem s') pagedir v =
             (if v = 786431 then Some g
              else if 786432 \<le> v \<and> v < 790528 then Some (push_bit 12 (of_nat (v - 786432)))
              else None)" if "v < 1048576" for v
        using a(1) vu [OF that] that by (auto simp: adds_def mapped_from_def fs)
      moreover have "only (page ?d \<union> free_bytes s) (mm_mem s0) (mm_mem s')"
        using gs d0 by (auto simp: grows_def only_def free_bytes_def ff0 tables_def)
      then have "only (page ?d \<union> free_bytes s) (mm_mem s) (mm_mem s')"
        using only_trans [OF only_mono [OF on0]] by blast
      moreover have "card (free_frames s) \<le> 6 + card (free_frames s')" using a(1) cu by (simp add: adds_def fs)
      moreover have "\<forall>f. user_frame f \<longrightarrow> in_use s f \<longrightarrow> in_use s' f" using grows_in_use [OF gs] by (simp add: ff0)
      moreover have "\<forall>f \<in> tables (mm_mem s') pagedir. \<not> in_use s f"
        using gs d0 by (auto simp: grows_def ff0 tables_def)
      ultimately show ?thesis using nf grows_wf [OF gs]
        by (auto simp: eq \<open>forE _ _ _ = _\<close> Inr)
    qed
  qed
qed

text \<open>C20: when \<open>init_user_page\<close> returns, the new space maps the first 16 MB of memory at \<open>KOFFSET\<close>,
  one new frame as the stack page below \<open>KOFFSET\<close>, and nothing else; it is well-formed and nothing
  outside its directory and frames that were free has changed. It fails only by running out of
  frames, when fewer than six are free.\<close>

theorem init_user_page_maps:
  assumes pd: "good_dir pagedir"
  shows "case init_user_page pagedir s of
      Inl e \<Rightarrow> e = Panic full_msg \<and> card (free_frames s) < 6
    | Inr (cr3, s') \<Rightarrow> cr3 = make_cr3 (va_to_pa pagedir) \<and> wf_space s' pagedir \<and>
        only (page (va_to_pa pagedir) \<union> free_bytes s) (mm_mem s) (mm_mem s') \<and>
        (\<exists>g. user_frame g \<and> \<not> in_use s g \<and> in_use s' g \<and>
          (\<forall>v < 1048576. vmap (mm_mem s') pagedir v =
             (if v = 786431 then Some g
              else if 786432 \<le> v \<and> v < 790528 then Some (push_bit 12 (of_nat (v - 786432)))
              else None)))"
  using init_user_page_spec [OF pd, of s] by (auto split: sum.splits)

definition all_free :: mm where "all_free = \<lparr>mm_mem = \<lambda>_. 0xFF, Ppage_flag = \<lambda>_. 0\<rparr>"

theorem init_user_page_maps_witness:
  "\<exists>cr3 s'. init_user_page 0xC0100000 all_free = Inr (cr3, s') \<and>
     vmap (mm_mem s') 0xC0100000 786437 = Some 0x5000 \<and> vmap (mm_mem s') 0xC0100000 3 = None"
proof -
  let ?F = "{0x1000000, 0x1001000, 0x1002000, 0x1003000, 0x1004000, 0x1005000} :: u32 set"
  have "?F \<subseteq> free_frames all_free" by (simp add: free_frames_def user_frame_def in_use_def all_free_def)
  from card_mono [OF _ this] have c: "\<not> card (free_frames all_free) < 6" by simp
  note t = init_user_page_maps [OF one_page_dirs(1), of all_free]
  show ?thesis
  proof (cases "init_user_page 0xC0100000 all_free")
    case (Inl e)
    then show ?thesis using t c by simp
  next
    case (Inr r)
    obtain cr3 s' where r: "r = (cr3, s')" by (cases r)
    obtain g where "\<forall>v < 1048576. vmap (mm_mem s') 0xC0100000 v =
             (if v = 786431 then Some g
              else if 786432 \<le> v \<and> v < 790528 then Some (push_bit 12 (of_nat (v - 786432)))
              else None)" using t by (auto simp: Inr r)
    from this [rule_format, of 786437] this [rule_format, of 3] show ?thesis by (simp add: Inr r)
  qed
qed

section \<open>\<open>exit_page\<close>\<close>

text \<open>The use counts \<open>exit_page\<close> goes through: the pages of each table, then the table.\<close>

definition references :: "memory \<Rightarrow> u32 \<Rightarrow> nat \<Rightarrow> u32 list" where
  "references m pd i =
     (if present (dir m pd i)
      then map (\<lambda>j. pa_to_id (frame_addr (pte m pd i j))) (filter (\<lambda>j. present (pte m pd i j)) [0..<1024])
        @ [pa_to_id (tab m pd i)]
      else [])"

definition drop_counts :: "u32 list \<Rightarrow> (u32 \<Rightarrow> u8) \<Rightarrow> u32 \<Rightarrow> u8" where
  "drop_counts ids f = (\<lambda>x. f x - of_nat (count_list ids x))"

lemma drop_counts_append: "drop_counts (xs @ ys) f = drop_counts ys (drop_counts xs f)"
  by (simp add: drop_counts_def fun_eq_iff)

lemma drop_counts_Nil [simp]: "drop_counts [] f = f"
  by (simp add: drop_counts_def)

lemma free_memory_drop: "Ppage_flag (free_memory a s) = drop_counts [pa_to_id a] (Ppage_flag s)"
  by (auto simp: free_memory_def drop_counts_def)

lemma mm_mem_free_memory [simp]: "mm_mem (free_memory a s) = mm_mem s"
  by (simp add: free_memory_def)

lemma release_ptes:
  assumes f: "user_frame f" and n: "n \<le> 1024"
  shows "mm_mem (fold (\<lambda>j s. if Page_Table_Fault s (word_at f j) then s
        else free_memory (frame_addr (entry s (word_at f j))) s) [0..<n] s) = mm_mem s \<and>
    Ppage_flag (fold (\<lambda>j s. if Page_Table_Fault s (word_at f j) then s
        else free_memory (frame_addr (entry s (word_at f j))) s) [0..<n] s) =
      drop_counts (map (\<lambda>j. pa_to_id (frame_addr (load32 (mm_mem s) (word_at f j))))
        (filter (\<lambda>j. present (load32 (mm_mem s) (word_at f j))) [0..<n])) (Ppage_flag s)"
  using n
proof (induction n)
  case 0
  then show ?case by (simp add: drop_counts_def)
next
  case (Suc n)
  then have "n < 1024" by simp
  from entry_tab [OF f this] Suc show ?case
    by (simp add: Page_Table_Fault_def free_memory_drop drop_counts_append)
qed

lemma release_table_step:
  assumes pd: "good_dir pd" and i: "i < 1024"
    and t: "present (dir (mm_mem s) pd i) \<Longrightarrow> user_frame (tab (mm_mem s) pd i)"
  shows "mm_mem (release_table pd i s) = (if present (dir (mm_mem s) pd i)
      then store32 (word_at (va_to_pa pd) i) 0 (mm_mem s) else mm_mem s)"
    "Ppage_flag (release_table pd i s) = drop_counts (references (mm_mem s) pd i) (Ppage_flag s)"
proof -
  have "mm_mem (release_table pd i s) = (if present (dir (mm_mem s) pd i)
      then store32 (word_at (va_to_pa pd) i) 0 (mm_mem s) else mm_mem s) \<and>
    Ppage_flag (release_table pd i s) = drop_counts (references (mm_mem s) pd i) (Ppage_flag s)"
  proof (cases "present (dir (mm_mem s) pd i)")
    case False
    then show ?thesis
      by (simp add: release_table_def Page_Directory_Fault_def entry_dir [OF pd i] references_def drop_counts_def)
  next
    case True
    note rp = release_ptes [OF t [OF True], of 1024 s]
    show ?thesis using True rp
      unfolding release_table_def Page_Directory_Fault_def entry_dir [OF pd i] NR_PTE_ENTRY_def
        tab_def [symmetric] Let_def references_def pte_def
      by (simp add: make_invalid_pde_def kphys_dir [OF pd i] free_memory_drop drop_counts_append tab_def
          entry_dir [OF pd i] del: upt_rec_numeral)
  qed
  then show "mm_mem (release_table pd i s) = (if present (dir (mm_mem s) pd i)
      then store32 (word_at (va_to_pa pd) i) 0 (mm_mem s) else mm_mem s)"
    "Ppage_flag (release_table pd i s) = drop_counts (references (mm_mem s) pd i) (Ppage_flag s)" by auto
qed

lemma release_tables:
  assumes wf: "wf_space s pd" and n: "n \<le> 1024"
  shows "only (page (va_to_pa pd)) (mm_mem s) (mm_mem (fold (release_table pd) [0..<n] s)) \<and>
    (\<forall>k < 1024. dir (mm_mem (fold (release_table pd) [0..<n] s)) pd k =
       (if k < n \<and> present (dir (mm_mem s) pd k) then 0 else dir (mm_mem s) pd k)) \<and>
    Ppage_flag (fold (release_table pd) [0..<n] s) =
      drop_counts (concat (map (references (mm_mem s) pd) [0..<n])) (Ppage_flag s)"
  using n
proof (induction n)
  case 0
  then show ?case by (simp add: drop_counts_def)
next
  case (Suc n)
  let ?u = "fold (release_table pd) [0..<n] s" and ?d = "va_to_pa pd"
  note gd = wf_space_dir [OF wf]
  note wd = good_dir_arrays(1) [OF gd]
  have n: "n < 1024" using Suc.prems by simp
  have IH: "only (page ?d) (mm_mem s) (mm_mem ?u)"
    "\<And>k. k < 1024 \<Longrightarrow> dir (mm_mem ?u) pd k = (if k < n \<and> present (dir (mm_mem s) pd k) then 0 else dir (mm_mem s) pd k)"
    "Ppage_flag ?u = drop_counts (concat (map (references (mm_mem s) pd) [0..<n])) (Ppage_flag s)"
    using Suc by auto
  have dn: "dir (mm_mem ?u) pd n = dir (mm_mem s) pd n" using IH(2) [OF n] by simp
  have tn: "tab (mm_mem ?u) pd n = tab (mm_mem s) pd n" by (simp add: tab_def dn)
  have uf: "user_frame (tab (mm_mem ?u) pd n)" if "present (dir (mm_mem ?u) pd n)"
    using wf_space_tab(1) [OF wf n] that by (simp add: dn tn)
  have st: "mm_mem (release_table pd n ?u) = (if present (dir (mm_mem ?u) pd n)
      then store32 (word_at ?d n) 0 (mm_mem ?u) else mm_mem ?u)"
    "Ppage_flag (release_table pd n ?u) = drop_counts (references (mm_mem ?u) pd n) (Ppage_flag ?u)"
    by (rule release_table_step [OF gd n], erule uf)+
  have refs: "references (mm_mem ?u) pd n = references (mm_mem s) pd n"
  proof (cases "present (dir (mm_mem s) pd n)")
    case True
    have t: "user_frame (tab (mm_mem s) pd n)" by (rule wf_space_tab(1) [OF wf n True])
    have "pte (mm_mem ?u) pd n j = pte (mm_mem s) pd n j" if "j < 1024" for j
      unfolding pte_def tn by (rule load_only [OF IH(1) dir_page_disjoint [OF gd t] user_frame_arrays(1) [OF t] that])
    then have "filter (\<lambda>j. present (pte (mm_mem ?u) pd n j)) [0..<1024] = filter (\<lambda>j. present (pte (mm_mem s) pd n j)) [0..<1024]"
      "\<And>j. j \<in> set (filter (\<lambda>j. present (pte (mm_mem s) pd n j)) [0..<1024]) \<Longrightarrow> pte (mm_mem ?u) pd n j = pte (mm_mem s) pd n j"
      by (auto intro!: filter_cong simp del: upt_rec_numeral)
    then show ?thesis unfolding references_def dn tn by (simp del: upt_rec_numeral cong: map_cong)
  qed (simp add: references_def dn)
  have m: "only (page ?d) (mm_mem ?u) (mm_mem (release_table pd n ?u))"
    unfolding st(1) using store_only [OF wd n] by simp
  have "only (page ?d) (mm_mem s) (mm_mem (release_table pd n ?u))" by (rule only_trans [OF IH(1) m])
  moreover have "dir (mm_mem (release_table pd n ?u)) pd k =
       (if k < Suc n \<and> present (dir (mm_mem s) pd k) then 0 else dir (mm_mem s) pd k)" if k: "k < 1024" for k
    using load_store_word_at [OF wd k n, of 0 "mm_mem ?u"] IH(2) [OF k] dn
    unfolding st(1) by (auto simp: dir_def less_Suc_eq)
  moreover have "Ppage_flag (release_table pd n ?u) =
      drop_counts (concat (map (references (mm_mem s) pd) [0..<Suc n])) (Ppage_flag s)"
    by (simp add: st(2) refs IH(3) drop_counts_append)
  ultimately show ?case by simp
qed

definition all_references :: "memory \<Rightarrow> u32 \<Rightarrow> nat \<Rightarrow> u32 list" where
  "all_references m pd n = concat (map (references m pd) [0..<n])"



lemma vmap_referenced:
  assumes "v < 1024 * n" "vmap m pd v = Some f"
  shows "0 < count_list (all_references m pd n) (pa_to_id f)"
proof -
  have n: "v div 1024 < n" using assms(1) by (simp add: div_less_iff_less_mult mult.commute)
  have "pa_to_id f \<in> set (references m pd (v div 1024))"
    using assms(2) by (auto simp: vmap_def references_def split: if_splits)
  then have "pa_to_id f \<in> set (all_references m pd n)" using n by (auto simp: all_references_def)
  then show ?thesis using count_list_0_iff [of "all_references m pd n" "pa_to_id f"] by auto
qed


text \<open>The first part of \<open>exec_page\<close>: the user half is released. When it refers to none of the kernel half's tables, the
  kernel half stays as it is.\<close>

lemma exec_page_release:
  assumes wf: "wf_space s pagedir"
    and sep: "\<forall>k < 1024. 768 \<le> k \<longrightarrow> present (dir (mm_mem s) pagedir k) \<longrightarrow>
      pa_to_id (tab (mm_mem s) pagedir k) \<notin> set (all_references (mm_mem s) pagedir 768)"
  defines "u \<equiv> fold (release_table pagedir) [0..<768] s"
  shows "exec_page pagedir s = allocate_page pagedir 0xBFFFFFFF 1 u" "only (page (va_to_pa pagedir)) (mm_mem s) (mm_mem u)"
    "Ppage_flag u = drop_counts (all_references (mm_mem s) pagedir 768) (Ppage_flag s)" "wf_space u pagedir"
    "tables (mm_mem u) pagedir \<subseteq> tables (mm_mem s) pagedir"
    "\<And>v. v < 1048576 \<Longrightarrow> vmap (mm_mem u) pagedir v = (if v < 786432 then None else vmap (mm_mem s) pagedir v)"
proof -
  let ?m = "mm_mem s" and ?d = "va_to_pa pagedir"
  note gd = wf_space_dir [OF wf]
  have r: "only (page ?d) ?m (mm_mem u)"
    "\<And>k. k < 1024 \<Longrightarrow> dir (mm_mem u) pagedir k = (if k < 768 \<and> present (dir ?m pagedir k) then 0 else dir ?m pagedir k)"
    "Ppage_flag u = drop_counts (all_references ?m pagedir 768) (Ppage_flag s)"
    using release_tables [OF wf, of 768] by (auto simp: u_def all_references_def simp del: upt_rec_numeral)
  show "only (page ?d) ?m (mm_mem u)" "Ppage_flag u = drop_counts (all_references ?m pagedir 768) (Ppage_flag s)" by (rule r)+
  have keep: "768 \<le> k" "present (dir ?m pagedir k)" "tab (mm_mem u) pagedir k = tab ?m pagedir k"
    if "k < 1024" "present (dir (mm_mem u) pagedir k)" for k
    using r(2) [OF that(1)] that by (auto simp: tab_def split: if_splits)
  show "tables (mm_mem u) pagedir \<subseteq> tables ?m pagedir" using keep by (auto simp: tables_def)
  have iu: "in_use u (tab ?m pagedir k)" if "k < 1024" "present (dir (mm_mem u) pagedir k)" for k
  proof -
    have "count_list (all_references ?m pagedir 768) (pa_to_id (tab ?m pagedir k)) = 0"
      using sep keep [OF that] that(1) by (simp add: count_list_0_iff)
    then show ?thesis using wf_space_tab(2) [OF wf that(1) keep(2) [OF that]]
      by (simp add: in_use_def r(3) drop_counts_def)
  qed
  have "inj_on (tab (mm_mem u) pagedir) {i. i < 1024 \<and> present (dir (mm_mem u) pagedir i)}"
    using wf keep by (simp add: wf_space_def inj_on_def)
  then show "wf_space u pagedir"
    using gd iu keep wf_space_tab(1) [OF wf] by (auto simp: wf_space_def tables_def)
  show "vmap (mm_mem u) pagedir v = (if v < 786432 then None else vmap ?m pagedir v)" if "v < 1048576" for v
  proof -
    have k: "v div 1024 < 1024" "v < 786432 \<longleftrightarrow> v div 1024 < 768" using that by (auto simp: div_less_iff_less_mult)
    show ?thesis
    proof (cases "present (dir (mm_mem u) pagedir (v div 1024))")
      case True
      note kp = keep [OF k(1) True]
      note t = wf_space_tab(1) [OF wf k(1) kp(2)]
      have "pte (mm_mem u) pagedir (v div 1024) (v mod 1024) = pte ?m pagedir (v div 1024) (v mod 1024)"
        unfolding pte_def kp(3) by (rule load_only [OF r(1) dir_page_disjoint [OF gd t] user_frame_arrays(1) [OF t]]) simp
      then show ?thesis using True kp k by (simp add: vmap_def)
    next
      case False
      then show ?thesis using r(2) [OF k(1)] k by (auto simp: vmap_def split: if_splits)
    qed
  qed
  show "exec_page pagedir s = allocate_page pagedir 0xBFFFFFFF 1 u"
    by (simp add: exec_page_def NR_PDE_ENTRY_def u_def)
qed

text \<open>\<open>exec_page\<close> leaves a space with its kernel half and one new stack page: when the user half
  refers to none of the kernel half's tables, it can only fail by finding no free frame.\<close>

theorem exec_page_resets:
  assumes wf: "wf_space s pagedir"
    and sep: "\<forall>k < 1024. 768 \<le> k \<longrightarrow> present (dir (mm_mem s) pagedir k) \<longrightarrow>
      pa_to_id (tab (mm_mem s) pagedir k) \<notin> set (all_references (mm_mem s) pagedir 768)"
  shows "case exec_page pagedir s of
      Inl e \<Rightarrow> e = Panic full_msg
    | Inr s' \<Rightarrow> wf_space s' pagedir \<and>
        (\<exists>g. user_frame g \<and> in_use s' g \<and>
          (\<forall>v < 1048576. vmap (mm_mem s') pagedir v =
            (if v = 786431 then Some g else if v < 786432 then None else vmap (mm_mem s) pagedir v)))"
proof -
  let ?m = "mm_mem s"
  define u where "u = fold (release_table pagedir) [0..<768] s"
  note r = exec_page_release [OF wf sep, folded u_def]
  note eq = r(1) and vu = r(6)
  note al = allocate_page_spec [OF r(4), of "0xBFFFFFFF" 1, simplified]
  show ?thesis
  proof (cases "allocate_page pagedir 0xBFFFFFFF 1 u")
    case (Inl e)
    with al have "add_fails pagedir 786431 1 u e 2" by simp
    then show ?thesis using vu [of 786431] unfolding eq Inl by (simp add: add_fails_def)
  next
    case (Inr s')
    with al obtain fs where a: "adds pagedir 786431 u s' fs (2 * length fs)" "length fs = 1" by auto
    then obtain g where fs: "fs = [g]" by (cases fs) auto
    have "vmap (mm_mem s') pagedir v =
       (if v = 786431 then Some g else if v < 786432 then None else vmap ?m pagedir v)" if "v < 1048576" for v
    proof -
      have "v = 786431 \<or> v < 786431 \<or> 786432 \<le> v" by linarith
      then show ?thesis using a(1) vu [OF that] that by (auto simp: adds_def mapped_from_def fs)
    qed
    moreover have "user_frame g" "in_use s' g" "wf_space s' pagedir"
      using a(1) grows_wf by (auto simp: adds_def new_frames_def fs)
    ultimately show ?thesis unfolding eq Inr by auto
  qed
qed


text \<open>\<open>one_page\<close> with page 1 mapped to kernel memory.\<close>

definition low_page :: mm where
  "low_page = mm_mem_update (store32 (word_at 0x1000000 1) (entry_for 0x5000)) one_page"


theorem exec_page_resets_witness:
  "case exec_page 0xC0100000 one_page of
     Inl e \<Rightarrow> e = Panic full_msg
   | Inr s' \<Rightarrow> vmap (mm_mem s') 0xC0100000 0 = None"
proof -
  have wf: "wf_space one_page 0xC0100000" using one_page_wf by (simp add: wf_user_def)
  have "\<forall>k < 1024. 768 \<le> k \<longrightarrow> \<not> present (dir (mm_mem one_page) 0xC0100000 k)" by (simp add: one_page_dir)
  then show ?thesis using exec_page_resets [OF wf]
    by (cases "exec_page 0xC0100000 one_page") (auto dest!: spec [of _ "0::nat"])
qed

end
