(* ===== verification/Server.thy ===== *)
theory Server
  imports Message
begin

text \<open>
  What a server relies on when it answers a request: \<open>send\<close> (kernel/message.c) seen as posting a
  message to a mailbox. The interface is a locale; \<open>send\<close> with the mailboxes of \<open>Message\<close> provides
  it, and the servers and drivers use its facts.
\<close>

text \<open>Requests to a driver (kernel/include/drivers/tty.h).\<close>

definition DEV_READ :: u32 where "DEV_READ = 0x30"
definition DEV_WRITE :: u32 where "DEV_WRITE = 0x31"

section \<open>Posting to a mailbox\<close>

text \<open>\<open>unread s t n ms\<close>: process \<open>t\<close> has not looked at \<open>ms\<close> yet, and \<open>n\<close> slots of its pool are used.\<close>

locale post_office =
  fixes post :: "int \<Rightarrow> message \<Rightarrow> sys \<Rightarrow> error + sys"
    and unread :: "sys \<Rightarrow> nat \<Rightarrow> nat \<Rightarrow> message list \<Rightarrow> bool"
    and capacity :: nat
  assumes post_appends: "unread s t n ms \<Longrightarrow> n < capacity \<Longrightarrow>
      \<exists>s'. post (int t) m s = Inr s' \<and> unread s' t (Suc n) (ms @ [stamped s (int t) m]) \<and>
        mem s' = mem s \<and> current_pcb s' = current_pcb s \<and> length (Proc s') = length (Proc s) \<and>
        (\<forall>j. j \<noteq> t \<longrightarrow> proc s' j = proc s j) \<and> p_cr3 (proc s' t) = p_cr3 (proc s t)"
    and post_full: "unread s t capacity ms \<Longrightarrow> \<exists>w. post (int t) m s = Inl (Panic w)"
    and unread_local: "unread s t n ms \<Longrightarrow> proc s' t = proc s t \<Longrightarrow> length (Proc s') = length (Proc s) \<Longrightarrow>
      unread s' t n ms"
begin

text \<open>A request that is worked on and answered leaves one reply, and the work's result.\<close>

lemma answered:
  assumes w: "w = Inr (x, s1)" and u: "unread s t n ms" and room: "n < capacity"
    and p: "proc s1 t = proc s t" "length (Proc s1) = length (Proc s)"
  shows "\<exists>s'. bindE w (\<lambda>(x, s). bindE (post (int t) m s) (\<lambda>s. Inr (x, s))) = Inr (x, s') \<and>
    unread s' t (Suc n) (ms @ [stamped s1 (int t) m]) \<and> mem s' = mem s1 \<and>
    (\<forall>j. j \<noteq> t \<longrightarrow> proc s' j = proc s1 j)"
  using post_appends [OF unread_local [OF u p] room, of m] w by auto

text \<open>A request that fails is not answered.\<close>

lemma not_answered: "w = Inl e \<Longrightarrow> bindE w f = Inl e"
  by simp

text \<open>A request to a process with a full mailbox stops the kernel, once the work is done.\<close>

lemma answer_panics:
  assumes "w = Inr (x, s1)" "unread s t capacity ms" "proc s1 t = proc s t" "length (Proc s1) = length (Proc s)"
  shows "\<exists>c. bindE w (\<lambda>(x, s). bindE (post (int t) m s) (\<lambda>s. Inr (x, s))) = Inl (Panic c)"
  using post_full [OF unread_local [OF assms(2-4)], of m] assms(1) by auto

end

definition unread :: "sys \<Rightarrow> nat \<Rightarrow> nat \<Rightarrow> message list \<Rightarrow> bool" where
  "unread s t n ms \<longleftrightarrow> t < length (Proc s) \<and>
     (\<exists>R I T. mbox (proc s t) R I T \<and> length (R @ I @ T) = n \<and> slot_msgs (proc s t) R = ms \<and>
       (queue_tail (Msg_lock (proc s t)) = 0 \<or> asleep_box s t I))"

lemma send_unread:
  assumes "unread s t n ms" "n < Max_Message_Pool"
  shows "\<exists>s'. send (int t) m s = Inr s' \<and> unread s' t (Suc n) (ms @ [stamped s (int t) m]) \<and>
        mem s' = mem s \<and> current_pcb s' = current_pcb s \<and> length (Proc s') = length (Proc s) \<and>
        (\<forall>j. j \<noteq> t \<longrightarrow> proc s' j = proc s j) \<and> p_cr3 (proc s' t) = p_cr3 (proc s t)"
proof -
  from assms(1) obtain R I T where t: "t < length (Proc s)" and mb: "mbox (proc s t) R I T"
    and n: "length (R @ I @ T) = n" and ms: "slot_msgs (proc s t) R = ms"
    and q: "queue_tail (Msg_lock (proc s t)) = 0 \<or> asleep_box s t I" by (auto simp: unread_def)
  have room: "length (R @ I @ T) \<noteq> Max_Message_Pool" using assms(2) n by simp
  obtain k s1 where S: "send_section (int t) m s = Inr s1" "mbox (proc s1 t) (R @ [k]) I T"
    "k \<notin> set (R @ I @ T)" "mail_frame t s s1" "Msg_lock (proc s1 t) = Msg_lock (proc s t)"
    "sl_msg (Msg_rec_Pool (proc s1 t) ! k) = stamped s (int t) m"
    "\<And>j. j \<noteq> k \<Longrightarrow> sl_msg (Msg_rec_Pool (proc s1 t) ! j) = sl_msg (Msg_rec_Pool (proc s t) ! j)"
    using send_section_step [OF t mb room] by metis
  have t1: "t < length (Proc s1)" and fr: "mem s1 = mem s" "current_pcb s1 = current_pcb s"
      "length (Proc s1) = length (Proc s)" "\<And>j. j \<noteq> t \<Longrightarrow> proc s1 j = proc s j" "p_cr3 (proc s1 t) = p_cr3 (proc s t)"
    using S(4) t mail_eqD by (simp_all add: mail_frame_def)
  have eq: "send (int t) m s = Sem_V_message t s1" using S(1) t1 by (simp add: send_def)
  have m1: "slot_msgs (proc s1 t) (R @ [k]) = ms @ [stamped s (int t) m]"
    using S(3,6) ms by (auto simp: slot_msgs_def intro!: S(7))
  show ?thesis
  proof (cases "queue_tail (Msg_lock (proc s t)) = 0")
    case True
    then obtain s' where V: "Sem_V_message t s1 = Inr s'" "mail_frame t s1 s'"
        "proc s' t = Msg_lock_update (token_update (\<lambda>k. k + 1)) (proc s1 t)"
      using Sem_V_message_token [OF t1] S(5) by metis
    have "unread s' t (Suc n) (ms @ [stamped s (int t) m])"
      unfolding unread_def using V(2,3) S(2,5) True t1 n m1
      by (intro conjI exI [of _ "R @ [k]"] exI [of _ I] exI [of _ T])
        (auto simp: mail_frame_def slot_msgs_def)
    then show ?thesis using V fr by (auto simp: eq mail_frame_def)
  next
    case False
    then have a: "queue_tail (Msg_lock (proc s1 t)) = 1" "queue (Msg_lock (proc s1 t)) ! 0 = int t"
        "queue (Msg_lock (proc s1 t)) \<noteq> []"
      using q S(5) by (auto simp: asleep_box_def Max_Sem_Queue_def)
    then obtain s' where V: "Sem_V_message t s1 = Inr s'"
        "proc s' t = (proc s1 t)\<lparr>p_status := STATUS_WAITING, Msg_lock := (Msg_lock (proc s1 t))\<lparr>queue_tail := 0\<rparr>\<rparr>"
        "\<And>j. j \<noteq> t \<Longrightarrow> proc s' j = proc s1 j" "length (Proc s') = length (Proc s1)" "current_pcb s' = current_pcb s1"
        "mem s' = mem s1"
      using Sem_V_message_wake [OF t1] by metis
    have "unread s' t (Suc n) (ms @ [stamped s (int t) m])"
      unfolding unread_def using V S(2) t1 n m1
      by (intro conjI exI [of _ "R @ [k]"] exI [of _ I] exI [of _ T])
        (auto simp: mbox_def slot_msgs_def)
    then show ?thesis using V fr by (auto simp: eq)
  qed
qed

lemma unread_proc_cong:
  assumes "unread s t n ms" "proc s' t = proc s t" "length (Proc s') = length (Proc s)"
  shows "unread s' t n ms"
proof -
  have "unread s' t n ms = unread s t n ms"
    by (simp only: unread_def asleep_box_def assms(2,3))
  with assms(1) show ?thesis by simp
qed

interpretation po: post_office send unread Max_Message_Pool
proof
  show "\<exists>w. send (int t) m s = Inl (Panic w)" if "unread s t Max_Message_Pool ms" for s t ms m
    using that send_section_full by (auto simp: unread_def send_def)
qed (use send_unread unread_proc_cong in blast)+

text \<open>The end of a server's round: \<open>send(m.src, &m)\<close>, with what the work computed.\<close>

definition reply :: "int \<Rightarrow> message \<Rightarrow> 'x \<times> sys \<Rightarrow> error + 'x \<times> sys" where
  "reply pid m = (\<lambda>(x, s). bindE (send pid m s) (\<lambda>s. Inr (x, s)))"

lemmas reply_answers = po.answered [folded reply_def]
lemmas reply_panics = po.answer_panics [folded reply_def]

end
