(* ===== verification/MemoryServer.thy ===== *)
theory MemoryServer
  imports Lifecycle Server
begin

text \<open>
  One round of \<open>MemoryManagement\<close> (kernel/mm.c): what it does with a message it has received.
\<close>

definition MM_ALLOCATE :: u32 where "MM_ALLOCATE = 0xB0"
definition MM_FREE :: u32 where "MM_FREE = 0xB1"
definition MM_EXIT_PROC :: u32 where "MM_EXIT_PROC = 0xB2"
definition MM_COPY :: u32 where "MM_COPY = 0xB3"
definition MM_EXEC :: u32 where "MM_EXEC = 0xB4"

lemmas mm_types = MM_ALLOCATE_def MM_FREE_def MM_EXIT_PROC_def MM_COPY_def MM_EXEC_def

text \<open>The process a \<open>struct PCB *\<close> in a message points to.\<close>

definition pcb_of :: "sys \<Rightarrow> u32 \<Rightarrow> error + nat" where
  "pcb_of s p =
     (case first_index (\<lambda>i. pcb_addr s i = p) [0..<length (Proc s)] of
        Some i \<Rightarrow> Inr i | None \<Rightarrow> Inl (Fault ''struct PCB *''))"

text \<open>The memory server's view of the system and back.\<close>

definition mm_of :: "(u32 \<Rightarrow> u8) \<times> sys \<Rightarrow> mm" where
  "mm_of = (\<lambda>(fl, s). \<lparr>mm_mem = mem s, Ppage_flag = fl\<rparr>)"

definition put_mm :: "mm \<Rightarrow> sys \<Rightarrow> (u32 \<Rightarrow> u8) \<times> sys" where
  "put_mm v s = (Ppage_flag v, s\<lparr>mem := mm_mem v\<rparr>)"

definition mm_message :: "message \<Rightarrow> (u32 \<Rightarrow> u8) \<times> sys \<Rightarrow> error + (u32 \<Rightarrow> u8) \<times> sys" where
  "mm_message m st =
     (let s = snd st; v = mm_of st; answer = reply (m_src m) (m\<lparr>m_type := -1\<rparr>) in
      if m_type m = MM_ALLOCATE then
        bindE (bindE (pcb_of s (mm_target m)) (\<lambda>i.
               bindE (allocate_page (pagedir_addr s i) (mm_start m) (mm_length m) v) (\<lambda>v. Inr (put_mm v s)))) answer
      else if m_type m = MM_FREE then
        bindE (bindE (pcb_of s (mm_target m)) (\<lambda>i.
               bindE (free_page (pagedir_addr s i) (mm_start m) (mm_length m) v) (\<lambda>v. Inr (put_mm v s)))) answer
      else if m_type m = MM_EXIT_PROC then
        bindE (bindE (pcb_of s (mm_target m)) (\<lambda>i. Inr (put_mm (exit_page (pagedir_addr s i) v) s))) answer
      else if m_type m = MM_COPY then
        bindE (bindE (pcb_of s (mm_source m)) (\<lambda>i. bindE (pcb_of s (mm_target m)) (\<lambda>j.
               bindE (copy_page (pagedir_addr s i) (pagedir_addr s j) v) (\<lambda>(cr3, v).
                 Inr (put_mm v (upd_proc j (p_cr3_update (\<lambda>_. cr3)) s)))))) answer
      else if m_type m = MM_EXEC then
        bindE (bindE (pcb_of s (mm_target m)) (\<lambda>i.
               bindE (exec_page (pagedir_addr s i) v) (\<lambda>v. Inr (put_mm v s)))) answer
      else Inr st)"

lemma pcb_addr_inj:
  assumes "i < MAX_PROC" "j < MAX_PROC"
  shows "pcb_addr s i = pcb_addr s j \<longleftrightarrow> i = j"
proof
  assume "pcb_addr s i = pcb_addr s j"
  then have "unat (of_nat i * sizeof_PCB) = unat (of_nat j * sizeof_PCB)" by (simp add: pcb_addr_def)
  then show "i = j" using assms
    by (simp add: sizeof_PCB_def MAX_PROC_def unat_word_ariths unat_of_nat)
qed simp

lemma pcb_of_addr:
  assumes "length (Proc s) = MAX_PROC" "i < MAX_PROC"
  shows "pcb_of s (pcb_addr s i) = Inr i"
proof (cases "first_index (\<lambda>k. pcb_addr s k = pcb_addr s i) [0..<length (Proc s)]")
  case None
  then show ?thesis using assms by (auto simp: first_index_None)
next
  case (Some k)
  then have "k < MAX_PROC" "pcb_addr s k = pcb_addr s i" using first_index_Some [OF Some] assms by auto
  then show ?thesis using Some pcb_addr_inj [of k i s] assms by (simp add: pcb_of_def)
qed

text \<open>C19: a fork request to the memory server whose copy succeeds is answered: the requester's
  mailbox gains exactly one message, of type -1, the target's \<open>cr3\<close> is its own page directory, the
  memory is that of \<open>copy_page\<close>, and no other process changes.\<close>

theorem mm_copy_served:
  assumes m: "m_type m = MM_COPY" "m_src m = int t" "mm_source m = pcb_addr s i" "mm_target m = pcb_addr s j"
    and ij: "i < MAX_PROC" "j < MAX_PROC" "length (Proc s) = MAX_PROC" "t \<noteq> j"
    and u: "unread s t n ms" "n < Max_Message_Pool"
    and c: "copy_page (pagedir_addr s i) (pagedir_addr s j) \<lparr>mm_mem = mem s, Ppage_flag = fl\<rparr> = Inr (cr3, v)"
  shows "\<exists>s' r. mm_message m (fl, s) = Inr (Ppage_flag v, s') \<and> m_type r = -1 \<and>
     unread s' t (Suc n) (ms @ [r]) \<and> mem s' = mm_mem v \<and>
     p_cr3 (proc s' j) = make_cr3 (va_to_pa (pagedir_addr s j)) \<and>
     (\<forall>k. k \<noteq> t \<longrightarrow> k \<noteq> j \<longrightarrow> proc s' k = proc s k)"
proof -
  let ?s1 = "(upd_proc j (p_cr3_update (\<lambda>_. cr3)) s)\<lparr>mem := mm_mem v\<rparr>"
  let ?w = "bindE (pcb_of s (mm_source m)) (\<lambda>i. bindE (pcb_of s (mm_target m)) (\<lambda>j.
               bindE (copy_page (pagedir_addr s i) (pagedir_addr s j) (mm_of (fl, s))) (\<lambda>(cr3, v).
                 Inr (put_mm v (upd_proc j (p_cr3_update (\<lambda>_. cr3)) s)))))"
  have cr3: "cr3 = make_cr3 (va_to_pa (pagedir_addr s j))"
    using c by (auto simp: copy_page_def bindE_eq_Inr)
  have w: "?w = Inr (Ppage_flag v, ?s1)"
    using m(3,4) ij(1-3) c by (simp add: pcb_of_addr mm_of_def put_mm_def)
  have p: "proc ?s1 t = proc s t" "length (Proc ?s1) = length (Proc s)" using ij(4) by simp_all
  obtain s' where s': "bindE ?w (reply (int t) (m\<lparr>m_type := -1\<rparr>)) = Inr (Ppage_flag v, s')"
    "unread s' t (Suc n) (ms @ [stamped ?s1 (int t) (m\<lparr>m_type := -1\<rparr>)])" "mem s' = mem ?s1"
    "\<forall>k. k \<noteq> t \<longrightarrow> proc s' k = proc ?s1 k"
    using reply_answers [OF w u p] by blast
  have "mm_message m (fl, s) = bindE ?w (reply (int t) (m\<lparr>m_type := -1\<rparr>))"
    by (simp add: mm_message_def m(1,2) mm_types Let_def del: bindE_simps)
  then show ?thesis using s' ij cr3
    by (intro exI [of _ s'] exI [of _ "stamped ?s1 (int t) (m\<lparr>m_type := -1\<rparr>)"]) (auto simp: stamped_def)
qed

lemma copy_page_empty:
  assumes src: "wf_user s src" and tgt: "good_dir tgt" and apart: "page (va_to_pa src) \<inter> page (va_to_pa tgt) = {}"
    and empty: "\<forall>k < 768. \<not> present (dir (mm_mem s) src k)"
  shows "\<exists>r. copy_page src tgt s = Inr r"
proof (cases "forE (copy_user_pde src tgt) [0..<768] s")
  case (Inl e)
  have "dirs_copied s src tgt 0 s" by (simp add: dirs_copied_def)
  from forE_upt_Inl [OF Inl, of "dirs_copied s src tgt", OF this] copy_user_pde_step [OF src tgt apart]
  obtain i u where i: "i < 768" "dirs_copied s src tgt i u" "copy_user_pde src tgt i u = Inl e" by blast
  have gs: "good_dir src" using src by (simp add: wf_user_def wf_space_def)
  have "(page (va_to_pa tgt) \<union> free_bytes s) \<inter> page (va_to_pa src) = {}"
    using apart dir_page_disjoint [OF gs] by (fastforce simp: free_bytes_def)
  from load_only [OF _ this good_dir_arrays(1) [OF gs]] i
  have "dir (mm_mem u) src i = dir (mm_mem s) src i" by (simp add: dir_def dirs_copied_def)
  then have "\<exists>u'. copy_user_pde src tgt i u = Inr u'"
    using empty i(1) by (simp add: copy_user_pde_def Page_Directory_Fault_def entry_dir [OF gs])
  then show ?thesis using i(3) by simp
next
  case (Inr u)
  then show ?thesis by (simp add: copy_page_def NR_PDE_ENTRY_def del: upt_rec_numeral)
qed


definition fork_request :: message where
  "fork_request = zero_message\<lparr>m_type := MM_COPY, m_w0 := pcb_addr (init_proc boot_sys) 2,
     m_w1 := pcb_addr (init_proc boot_sys) 1\<rparr>"

theorem mm_copy_served_witness:
  "\<exists>fl s' r. mm_message fork_request (\<lambda>_. 0, init_proc boot_sys) = Inr (fl, s') \<and> m_type r = -1 \<and>
     unread s' 0 1 [r] \<and> p_cr3 (proc s' 2) = make_cr3 (va_to_pa (pagedir_addr (init_proc boot_sys) 2))"
proof -
  let ?s = "init_proc boot_sys"
  let ?v = "\<lparr>mm_mem = mem ?s, Ppage_flag = \<lambda>_. 0\<rparr>"
  have len: "length (Proc boot_sys) = MAX_PROC" by (simp add: boot_sys_def)
  have mem: "mem ?s = (\<lambda>_. 0)"
    by (simp add: init_proc_def Let_def fold_set_flags_frame) (simp add: boot_sys_def)
  have lens: "length (Proc ?s) = MAX_PROC" using init_proc_ok(1) [OF len] by (simp add: proc_table_ok_def)
  have pa: "Proc_addr ?s = 0xC0120000" using init_proc_ok(4) [OF len] by (simp add: boot_sys_def)
  have gd: "good_dir (pagedir_addr ?s 1)" "good_dir (pagedir_addr ?s 2)"
    and ap: "page (va_to_pa (pagedir_addr ?s 1)) \<inter> page (va_to_pa (pagedir_addr ?s 2)) = {}"
    by (auto simp: good_dir_def pagedir_addr_def pcb_addr_def pa sizeof_PCB_def va_to_pa_def KOFFSET_def page_def)
  have d: "\<not> present (dir (mm_mem ?v) (pagedir_addr ?s 1) k)" for k by (simp add: mem dir_def load32_zero)
  then have wf: "wf_user ?v (pagedir_addr ?s 1)"
    using gd(1) by (simp add: wf_user_def wf_space_def tables_def vmap_def)
  obtain cr3 v where c: "copy_page (pagedir_addr ?s 1) (pagedir_addr ?s 2) ?v = Inr (cr3, v)"
    using copy_page_empty [OF wf gd(2) ap] d by (metis prod.exhaust)
  have b: "unread ?s 0 0 []"
    unfolding unread_def using boot_box
    by (intro conjI exI [of _ "[]"]) (auto simp: box_def slot_msgs_def)
  have m: "m_type fork_request = MM_COPY" "m_src fork_request = int 0"
    "mm_source fork_request = pcb_addr ?s 1" "mm_target fork_request = pcb_addr ?s 2"
    by (simp_all add: fork_request_def zero_message_def mm_source_def mm_target_def)
  have ij: "1 < MAX_PROC" "2 < MAX_PROC" "(0::nat) \<noteq> 2" "0 < Max_Message_Pool"
    by (simp_all add: MAX_PROC_def Max_Message_Pool_def)
  from mm_copy_served [OF m ij(1,2) lens ij(3) b ij(4) c] show ?thesis by auto
qed

end
