(* ===== verification/Ide.thy ===== *)
theory Ide
  imports Paging Server
begin

text \<open>
  The disk driver (kernel/drivers/ide.c): the commands it gives to the drive, its write-back cache
  of 127 sectors, and one round of the driver thread.

  The drive is not part of the program. It is a record of the functions the driver calls: port
  input and output (kernel/include/x86/io.h) and the type of the next message the driver receives
  from \<open>MSG_HARD_INTR\<close>, each on a state of the drive.
\<close>

section \<open>Driving the drive\<close>

record 'd device =
  d_in_byte :: "u16 \<Rightarrow> 'd \<Rightarrow> u8 \<times> 'd"
  d_out_byte :: "u16 \<Rightarrow> u8 \<Rightarrow> 'd \<Rightarrow> 'd"
  d_in_long :: "u16 \<Rightarrow> 'd \<Rightarrow> u32 \<times> 'd"
  d_out_long :: "u16 \<Rightarrow> u32 \<Rightarrow> 'd \<Rightarrow> 'd"
  d_hard_intr :: "'d \<Rightarrow> u32 \<times> 'd"

definition IDE_PORT_CTRL :: u16 where "IDE_PORT_CTRL = 0x3F6"
definition IDE_PORT_BASE :: u16 where "IDE_PORT_BASE = 0x1F0"
definition IDE_READY :: u32 where "IDE_READY = 0x10"
definition IDE_WRITEBACK :: u32 where "IDE_WRITEBACK = 0x11"
definition WRITEBACK_TIME :: u32 where "WRITEBACK_TIME = 100"
definition NR_SEC_CACHE :: nat where "NR_SEC_CACHE = 127"

text \<open>The six registers that name a sector.\<close>

definition select_sector :: "'d device \<Rightarrow> u32 \<Rightarrow> 'd \<Rightarrow> 'd" where
  "select_sector dev sector d =
     (let d = d_out_byte dev IDE_PORT_CTRL 0 d;
          d = d_out_byte dev (IDE_PORT_BASE + 2) 1 d;
          d = d_out_byte dev (IDE_PORT_BASE + 3) (ucast (sector AND 0xFF)) d;
          d = d_out_byte dev (IDE_PORT_BASE + 4) (ucast (drop_bit 8 sector AND 0xFF)) d;
          d = d_out_byte dev (IDE_PORT_BASE + 5) (ucast (drop_bit 16 sector AND 0xFF)) d
      in d_out_byte dev (IDE_PORT_BASE + 6) (ucast (0xE0 OR (drop_bit 24 sector AND 0xFF))) d)"

definition ide_prepare :: "'d device \<Rightarrow> u32 \<Rightarrow> 'd \<Rightarrow> error + 'd" where
  "ide_prepare dev sector d =
     (case d_in_byte dev (IDE_PORT_BASE + 7) d of (r, d) \<Rightarrow>
        if r AND (0x80 OR 0x40) \<noteq> 0x40 then panic ''IDE NOT READY''
        else Inr (select_sector dev sector d))"

definition issue_read :: "'d device \<Rightarrow> 'd \<Rightarrow> 'd" where
  "issue_read dev d = d_out_byte dev (IDE_PORT_BASE + 7) 0x20 d"

text \<open>\<open>do receive(MSG_HARD_INTR, &m); while (m.type != IDE_READY);\<close>\<close>

partial_function (option) await_ready :: "'d device \<Rightarrow> 'd \<Rightarrow> 'd option" where
  "await_ready dev d =
     (if fst (d_hard_intr dev d) = IDE_READY then Some (snd (d_hard_intr dev d))
      else await_ready dev (snd (d_hard_intr dev d)))"

text \<open>A word in memory order.\<close>

definition bytes_of :: "u32 \<Rightarrow> u8 list" where
  "bytes_of w = [ucast w, ucast (drop_bit 8 w), ucast (drop_bit 16 w), ucast (drop_bit 24 w)]"

definition long_at :: "u8 list \<Rightarrow> nat \<Rightarrow> u32" where
  "long_at bs i = ucast (bs ! (4 * i)) OR push_bit 8 (ucast (bs ! (4 * i + 1)))
     OR push_bit 16 (ucast (bs ! (4 * i + 2))) OR push_bit 24 (ucast (bs ! (4 * i + 3)))"

fun read_longs :: "'d device \<Rightarrow> nat \<Rightarrow> 'd \<Rightarrow> u8 list \<times> 'd" where
  "read_longs dev 0 d = ([], d)"
| "read_longs dev (Suc n) d =
     (case d_in_long dev IDE_PORT_BASE d of (w, d) \<Rightarrow>
        case read_longs dev n d of (bs, d) \<Rightarrow> (bytes_of w @ bs, d))"

definition write_longs :: "'d device \<Rightarrow> u8 list \<Rightarrow> 'd \<Rightarrow> 'd" where
  "write_longs dev buf d = fold (\<lambda>i. d_out_long dev IDE_PORT_BASE (long_at buf i)) [0..<512 div 4] d"

definition do_read :: "'d device \<Rightarrow> 'd \<Rightarrow> (u8 list \<times> 'd) option" where
  "do_read dev d =
     (case await_ready dev d of None \<Rightarrow> None | Some d \<Rightarrow> Some (read_longs dev (512 div 4) d))"

definition do_write :: "'d device \<Rightarrow> u8 list \<Rightarrow> 'd \<Rightarrow> 'd option" where
  "do_write dev buf d =
     await_ready dev (write_longs dev buf (d_out_byte dev (IDE_PORT_BASE + 7) 0x30 d))"

section \<open>The sector cache\<close>

record sector_cache =
  sc_sector :: u32
  sc_used :: bool
  sc_dirty :: bool
  sc_content :: "u8 list"

definition cache_init :: "sector_cache list \<Rightarrow> sector_cache list" where
  "cache_init cache = fold (\<lambda>i. upd_at i (sc_used_update (\<lambda>_. False))) [0..<NR_SEC_CACHE] cache"

text \<open>\<open>ide_prepare(ptr->sector); do_write(&ptr->content);\<close>\<close>

definition write_sector :: "'d device \<Rightarrow> sector_cache \<Rightarrow> 'd \<Rightarrow> (error + 'd) option" where
  "write_sector dev ptr d =
     bindR (Some (ide_prepare dev (sc_sector ptr) d)) (\<lambda>d.
       map_option Inr (do_write dev (sc_content ptr) d))"

definition cache_fetch :: "'d device \<Rightarrow> u32 \<Rightarrow> sector_cache list \<times> 'd \<Rightarrow>
    (error + nat \<times> sector_cache list \<times> 'd) option" where
  "cache_fetch dev sector = (\<lambda>(cache, d).
     let i = unat (sector mod of_nat NR_SEC_CACHE); ptr = cache ! i in
     if sc_used ptr \<and> sc_sector ptr = sector then Some (Inr (i, cache, d))
     else
       bindR (if sc_used ptr \<and> sc_dirty ptr then write_sector dev ptr d else Some (Inr d)) (\<lambda>d.
       bindR (Some (ide_prepare dev sector d)) (\<lambda>d.
       case do_read dev (issue_read dev d) of None \<Rightarrow> None
       | Some (content, d) \<Rightarrow>
           Some (Inr (i, cache[i := \<lparr>sc_sector = sector, sc_used = True, sc_dirty = False,
                                      sc_content = content\<rparr>], d)))))"

definition read_byte :: "'d device \<Rightarrow> u32 \<Rightarrow> sector_cache list \<times> 'd \<Rightarrow>
    (error + u8 \<times> sector_cache list \<times> 'd) option" where
  "read_byte dev offset st =
     bindR (cache_fetch dev (drop_bit 9 offset) st) (\<lambda>(i, cache, d).
       Some (Inr (sc_content (cache ! i) ! unat (offset AND 511), cache, d)))"

definition write_byte :: "'d device \<Rightarrow> u32 \<Rightarrow> u8 \<Rightarrow> sector_cache list \<times> 'd \<Rightarrow>
    (error + sector_cache list \<times> 'd) option" where
  "write_byte dev offset data st =
     bindR (cache_fetch dev (drop_bit 9 offset) st) (\<lambda>(i, cache, d).
       Some (Inr (upd_at i (\<lambda>ptr. ptr\<lparr>sc_content := (sc_content ptr)[unat (offset AND 511) := data],
                                      sc_dirty := True\<rparr>) cache, d)))"

text \<open>The loop of \<open>IDE_WRITEBACK\<close>.\<close>

fun writeback :: "'d device \<Rightarrow> nat list \<Rightarrow> sector_cache list \<times> 'd \<Rightarrow>
    (error + sector_cache list \<times> 'd) option" where
  "writeback dev [] st = Some (Inr st)"
| "writeback dev (i # is) st =
     (case st of (cache, d) \<Rightarrow>
        if sc_dirty (cache ! i) then
          bindR (write_sector dev (cache ! i) d) (\<lambda>d.
            writeback dev is (upd_at i (sc_dirty_update (\<lambda>_. False)) cache, d))
        else writeback dev is st)"

section \<open>Serving a request\<close>

text \<open>The loops of \<open>DEV_READ\<close> and \<open>DEV_WRITE\<close> with \<open>n\<close> bytes to go from \<open>i\<close> on. \<open>data_p\<close> is the
  address of the local variable \<open>data\<close>, \<open>cr3\<close> belongs to the process that asks.\<close>

fun read_loop :: "'d device \<Rightarrow> u32 \<Rightarrow> u32 \<Rightarrow> u32 \<Rightarrow> u32 \<Rightarrow> nat \<Rightarrow> u32 \<Rightarrow>
    memory \<times> sector_cache list \<times> 'd \<Rightarrow> (error + memory \<times> sector_cache list \<times> 'd) option" where
  "read_loop dev cr3 data_p buf offset 0 i st = Some (Inr st)"
| "read_loop dev cr3 data_p buf offset (Suc n) i (m, cd) =
     bindR (read_byte dev (offset + i) cd) (\<lambda>(data, cd).
       case copy_from_kernel cr3 (buf + i) data_p 1 (store32 (kphys data_p) (ucast data) m) of
         None \<Rightarrow> None
       | Some m \<Rightarrow> read_loop dev cr3 data_p buf offset n (i + 1) (m, cd))"

fun write_loop :: "'d device \<Rightarrow> u32 \<Rightarrow> u32 \<Rightarrow> u32 \<Rightarrow> u32 \<Rightarrow> nat \<Rightarrow> u32 \<Rightarrow>
    memory \<times> sector_cache list \<times> 'd \<Rightarrow> (error + memory \<times> sector_cache list \<times> 'd) option" where
  "write_loop dev cr3 data_p buf offset 0 i st = Some (Inr st)"
| "write_loop dev cr3 data_p buf offset (Suc n) i (m, cd) =
     (case copy_to_kernel cr3 data_p (buf + i) 1 m of
        None \<Rightarrow> None
      | Some m \<Rightarrow>
          bindR (write_byte dev (offset + i) (m (kphys data_p)) cd) (\<lambda>cd.
            write_loop dev cr3 data_p buf offset n (i + 1) (m, cd)))"

text \<open>One message of \<open>ide_driver_thread\<close>.\<close>

definition ide_message :: "'d device \<Rightarrow> u32 \<Rightarrow> message \<Rightarrow> (sector_cache list \<times> 'd) \<times> sys \<Rightarrow>
    (error + (sector_cache list \<times> 'd) \<times> sys) option" where
  "ide_message dev data_p m = (\<lambda>(cd, s).
     if m_src m = MSG_HARD_INTR then
       (if m_type m = IDE_WRITEBACK then
          bindR (writeback dev [0..<NR_SEC_CACHE] cd) (\<lambda>cd. Some (Inr (cd, s)))
        else Some (panic ''IDE interrupt is leaking''))
     else if m_type m = DEV_READ then
       bindR (Some (fetch_pcb s (m_src m))) (\<lambda>p.
       bindR (read_loop dev (p_cr3 (proc s p)) data_p (dev_buf m) (dev_offset m) (unat (dev_length m)) 0 (mem s, cd))
         (\<lambda>(mm, cd). Some (reply (m_src m) (m\<lparr>m_type := -1, m_w0 := dev_length m\<rparr>) (cd, s\<lparr>mem := mm\<rparr>))))
     else if m_type m = DEV_WRITE then
       bindR (Some (fetch_pcb s (m_src m))) (\<lambda>p.
       bindR (write_loop dev (p_cr3 (proc s p)) data_p (dev_buf m) (dev_offset m) (unat (dev_length m)) 0 (mem s, cd))
         (\<lambda>(mm, cd). Some (reply (m_src m) (m\<lparr>m_type := -1, m_w0 := dev_length m\<rparr>) (cd, s\<lparr>mem := mm\<rparr>))))
     else Some (Inr (cd, s)))"

text \<open>The interrupt handlers: the drive's, and the clock's with its counter.\<close>

definition ide_intr :: "int \<Rightarrow> message \<Rightarrow> sys \<Rightarrow> error + sys" where
  "ide_intr IDE m s = send IDE (m\<lparr>m_type := IDE_READY\<rparr>) s"

definition time_intr :: "int \<Rightarrow> message \<Rightarrow> u32 \<times> sys \<Rightarrow> error + u32 \<times> sys" where
  "time_intr IDE m = (\<lambda>(counter, s).
     let counter = (counter + 1) mod WRITEBACK_TIME in
     if counter = 0 then bindE (send IDE (m\<lparr>m_type := IDE_WRITEBACK\<rparr>) s) (\<lambda>s. Inr (counter, s))
     else Inr (counter, s))"


section \<open>An ATA drive\<close>

text \<open>What the documentation of ATA drives promises for 28-bit addresses in PIO mode. The address
  is in the four registers from \<open>BASE + 3\<close>; the top four bits of the last select the drive and
  address mode. A message of type \<open>IDE_READY\<close> comes after a number of others.\<close>

definition lba :: "u8 \<Rightarrow> u8 \<Rightarrow> u8 \<Rightarrow> u8 \<Rightarrow> u32" where
  "lba b0 b1 b2 b3 = ucast b0 OR push_bit 8 (ucast b1) OR push_bit 16 (ucast b2)
     OR push_bit 24 (ucast b3 AND 0x0F)"

definition programmed :: "'d device \<Rightarrow> u8 \<Rightarrow> u8 \<Rightarrow> u8 \<Rightarrow> u8 \<Rightarrow> 'd \<Rightarrow> 'd" where
  "programmed dev b0 b1 b2 b3 d =
     d_out_byte dev 0x1F6 b3 (d_out_byte dev 0x1F5 b2 (d_out_byte dev 0x1F4 b1 (d_out_byte dev 0x1F3 b0
       (d_out_byte dev 0x1F2 1 (d_out_byte dev 0x3F6 0 d)))))"

fun ready_after :: "'d device \<Rightarrow> nat \<Rightarrow> 'd \<Rightarrow> 'd option" where
  "ready_after dev 0 d =
     (if fst (d_hard_intr dev d) = IDE_READY then Some (snd (d_hard_intr dev d)) else None)"
| "ready_after dev (Suc k) d =
     (if fst (d_hard_intr dev d) = IDE_READY then None else ready_after dev k (snd (d_hard_intr dev d)))"

fun in_longs :: "'d device \<Rightarrow> nat \<Rightarrow> 'd \<Rightarrow> u32 list \<times> 'd" where
  "in_longs dev 0 d = ([], d)"
| "in_longs dev (Suc n) d =
     (case d_in_long dev 0x1F0 d of (w, d) \<Rightarrow> case in_longs dev n d of (ws, d) \<Rightarrow> (w # ws, d))"

definition ata_drive :: "'d device \<Rightarrow> ('d \<Rightarrow> bool) \<Rightarrow> ('d \<Rightarrow> u32 \<Rightarrow> u8 list) \<Rightarrow> bool" where
  "ata_drive dev idle disk \<longleftrightarrow>
     (\<forall>d. idle d \<longrightarrow> (\<forall>n. length (disk d n) = 512)) \<and>
     (\<forall>d r e. idle d \<longrightarrow> d_in_byte dev 0x1F7 d = (r, e) \<longrightarrow> r AND 0xC0 = 0x40 \<and> idle e \<and> disk e = disk d) \<and>
     (\<forall>d b0 b1 b2 b3. idle d \<longrightarrow> b3 AND 0xF0 = 0xE0 \<longrightarrow>
        (\<exists>k e ws f. ready_after dev k (d_out_byte dev 0x1F7 0x20 (programmed dev b0 b1 b2 b3 d)) = Some e \<and>
           in_longs dev 128 e = (ws, f) \<and> concat (map bytes_of ws) = disk d (lba b0 b1 b2 b3) \<and>
           idle f \<and> disk f = disk d)) \<and>
     (\<forall>d b0 b1 b2 b3 ws. idle d \<longrightarrow> b3 AND 0xF0 = 0xE0 \<longrightarrow> length ws = 128 \<longrightarrow>
        (\<exists>k e. ready_after dev k (fold (d_out_long dev 0x1F0) ws
              (d_out_byte dev 0x1F7 0x30 (programmed dev b0 b1 b2 b3 d))) = Some e \<and>
           idle e \<and> disk e = (disk d)(lba b0 b1 b2 b3 := concat (map bytes_of ws))))"

lemma await_ready_after: "ready_after dev k d = Some e \<Longrightarrow> await_ready dev d = Some e"
proof (induction k arbitrary: d)
  case 0
  then show ?case by (subst await_ready.simps) (simp split: if_splits)
next
  case (Suc k)
  then show ?case by (subst await_ready.simps) (simp split: if_splits)
qed

lemma read_longs_in_longs:
  "read_longs dev n d = (concat (map bytes_of (fst (in_longs dev n d))), snd (in_longs dev n d))"
  by (induction n arbitrary: d) (simp_all add: IDE_PORT_BASE_def split: prod.splits)

lemma bytes_of_long_at:
  "bytes_of (long_at bs i) = [bs ! (4 * i), bs ! (4 * i + 1), bs ! (4 * i + 2), bs ! (4 * i + 3)]"
proof -
  have "ucast ((ucast a :: u32) OR push_bit 8 (ucast b) OR push_bit 16 (ucast c) OR push_bit 24 (ucast d)) = a"
    "ucast (drop_bit 8 ((ucast a :: u32) OR push_bit 8 (ucast b) OR push_bit 16 (ucast c) OR push_bit 24 (ucast d))) = b"
    "ucast (drop_bit 16 ((ucast a :: u32) OR push_bit 8 (ucast b) OR push_bit 16 (ucast c) OR push_bit 24 (ucast d))) = c"
    "ucast (drop_bit 24 ((ucast a :: u32) OR push_bit 8 (ucast b) OR push_bit 16 (ucast c) OR push_bit 24 (ucast d))) = d"
    for a b c d :: u8
    by (rule bit_word_eqI; auto simp: bit_simps dest: bit_imp_le_length)+
  then show ?thesis by (simp add: bytes_of_def long_at_def)
qed

lemma bytes_of_longs:
  "length bs = 4 * n \<Longrightarrow> concat (map bytes_of (map (long_at bs) [0..<n])) = bs"
proof (induction n arbitrary: bs)
  case 0
  then show ?case by simp
next
  case (Suc n)
  let ?t = "take (4 * n) bs"
  have l: "long_at bs i = long_at ?t i" if "i < n" for i using that by (simp add: long_at_def)
  have "concat (map bytes_of (map (long_at ?t) [0..<n])) = ?t" using Suc.prems by (intro Suc.IH) simp
  moreover have "map (long_at bs) [0..<n] = map (long_at ?t) [0..<n]" using l by (intro map_cong) auto
  ultimately have "concat (map bytes_of (map (long_at bs) [0..<n])) = ?t" by (simp only:)
  moreover have "drop (4 * n) bs = bytes_of (long_at bs n)"
    using Suc.prems by (intro nth_equalityI) (auto simp: bytes_of_long_at less_Suc_eq numeral_eq_Suc)
  ultimately have "concat (map bytes_of (map (long_at bs) [0..<Suc n])) = ?t @ drop (4 * n) bs" by simp
  then show ?case by simp
qed

lemma lba_of_sector:
  assumes "n < 2 ^ 28"
  shows "lba (ucast (n AND 0xFF)) (ucast (drop_bit 8 n AND 0xFF)) (ucast (drop_bit 16 n AND 0xFF))
      (ucast (0xE0 OR (drop_bit 24 n AND 0xFF))) = n"
    "ucast (0xE0 OR (drop_bit 24 n AND 0xFF)) AND 0xF0 = (0xE0 :: u8)"
proof -
  have n: "n = take_bit 28 n"
    using assms by (simp add: word_unat_eq_iff unsigned_take_bit_eq take_bit_nat_eq_self word_less_nat_alt)
  have masks: "(0xFF :: u32) = mask 8" "(0x0F :: u32) = mask 4" "(0xE0 :: u32) = push_bit 5 (mask 3)"
    "(0xF0 :: u8) = push_bit 4 (mask 4)" "(0xE0 :: u8) = push_bit 5 (mask 3)"
    by (simp_all add: mask_eq_exp_minus_1)
  have b: "bit n k \<Longrightarrow> k < 28" for k using n by (metis bit_take_bit_iff)
  show "lba (ucast (n AND 0xFF)) (ucast (drop_bit 8 n AND 0xFF)) (ucast (drop_bit 16 n AND 0xFF))
      (ucast (0xE0 OR (drop_bit 24 n AND 0xFF))) = n"
  proof (rule bit_word_eqI)
    fix k assume k: "k < LENGTH(32)"
    consider "k < 8" | "8 \<le> k" "k < 16" | "16 \<le> k" "k < 24" | "24 \<le> k" "k < 28" | "28 \<le> k" by linarith
    then show "bit (lba (ucast (n AND 0xFF)) (ucast (drop_bit 8 n AND 0xFF)) (ucast (drop_bit 16 n AND 0xFF))
      (ucast (0xE0 OR (drop_bit 24 n AND 0xFF)))) k = bit n k"
      unfolding lba_def masks using k b [of k]
      by cases (auto simp: bit_simps simp del: push_bit_mask_eq)
  qed
  show "ucast (0xE0 OR (drop_bit 24 n AND 0xFF)) AND 0xF0 = (0xE0 :: u8)"
  proof (rule bit_word_eqI)
    fix k assume k: "k < LENGTH(8)"
    have "\<not> bit n (24 + k)" if "4 \<le> k" using b [of "24 + k"] that by auto
    then show "bit (ucast (0xE0 OR (drop_bit 24 n AND 0xFF)) AND 0xF0 :: u8) k = bit (0xE0 :: u8) k"
      unfolding masks using k by (auto simp: bit_simps simp del: push_bit_mask_eq)
  qed
qed

lemma ata_read:
  assumes a: "ata_drive dev idle disk" and d: "idle d" and n: "n < 2 ^ 28"
  shows "\<exists>e f. ide_prepare dev n d = Inr e \<and> do_read dev (issue_read dev e) = Some (disk d n, f) \<and>
    idle f \<and> disk f = disk d"
proof -
  obtain r e where re: "d_in_byte dev 0x1F7 d = (r, e)" by fastforce
  then have st: "r AND 0xC0 = 0x40" "idle e" "disk e = disk d" using a d by (auto simp: ata_drive_def)
  let ?b = "\<lambda>k. ucast (drop_bit k n AND 0xFF) :: u8"
  let ?b3 = "ucast (0xE0 OR (drop_bit 24 n AND 0xFF)) :: u8"
  let ?p = "programmed dev (ucast (n AND 0xFF)) (?b 8) (?b 16) ?b3 e"
  have p: "ide_prepare dev n d = Inr ?p"
    using re st(1) by (simp add: ide_prepare_def IDE_PORT_BASE_def IDE_PORT_CTRL_def select_sector_def
      programmed_def)
  from a st(2) lba_of_sector(2) [OF n] obtain k e' ws f where
    k: "ready_after dev k (d_out_byte dev 0x1F7 0x20 ?p) = Some e'" "in_longs dev 128 e' = (ws, f)"
      "concat (map bytes_of ws) = disk e (lba (ucast (n AND 0xFF)) (?b 8) (?b 16) ?b3)" "idle f" "disk f = disk e"
    unfolding ata_drive_def by blast
  have "do_read dev (issue_read dev ?p) = Some (disk d n, f)"
    using await_ready_after [OF k(1)] k(2,3) st(3)
    by (simp add: do_read_def issue_read_def IDE_PORT_BASE_def read_longs_in_longs lba_of_sector(1) [OF n])
  then show ?thesis using p k st by metis
qed

lemma ata_write:
  assumes a: "ata_drive dev idle disk" and d: "idle d" and n: "sc_sector c < 2 ^ 28"
    and l: "length (sc_content c) = 512"
  shows "\<exists>e. write_sector dev c d = Some (Inr e) \<and> idle e \<and> disk e = (disk d)(sc_sector c := sc_content c)"
proof -
  let ?n = "sc_sector c"
  obtain r e where re: "d_in_byte dev 0x1F7 d = (r, e)" by fastforce
  then have st: "r AND 0xC0 = 0x40" "idle e" "disk e = disk d" using a d by (auto simp: ata_drive_def)
  let ?b = "\<lambda>k. ucast (drop_bit k ?n AND 0xFF) :: u8"
  let ?b3 = "ucast (0xE0 OR (drop_bit 24 ?n AND 0xFF)) :: u8"
  let ?p = "programmed dev (ucast (?n AND 0xFF)) (?b 8) (?b 16) ?b3 e"
  let ?ws = "map (long_at (sc_content c)) [0..<128]"
  have p: "ide_prepare dev ?n d = Inr ?p"
    using re st(1) by (simp add: ide_prepare_def IDE_PORT_BASE_def IDE_PORT_CTRL_def select_sector_def
      programmed_def)
  have ws: "length ?ws = 128" by simp
  from a st(2) lba_of_sector(2) [OF n] ws obtain k e' where
    k: "ready_after dev k (fold (d_out_long dev 0x1F0) ?ws (d_out_byte dev 0x1F7 0x30 ?p)) = Some e'" "idle e'"
      "disk e' = (disk e)(lba (ucast (?n AND 0xFF)) (?b 8) (?b 16) ?b3 := concat (map bytes_of ?ws))"
    unfolding ata_drive_def by blast
  have c: "concat (map bytes_of ?ws) = sc_content c" using bytes_of_longs [of "sc_content c" 128] l by simp
  have f: "fold (\<lambda>i. d_out_long dev 0x1F0 (long_at (sc_content c) i)) [0..<128] x =
      fold (d_out_long dev 0x1F0) ?ws x" for x
    by (simp only: fold_map comp_def)
  have "do_write dev (sc_content c) ?p = Some e'"
    using await_ready_after [OF k(1)]
    by (simp add: do_write_def write_longs_def IDE_PORT_BASE_def f del: upt_rec_numeral)
  then have "write_sector dev c d = Some (Inr e')"
    by (simp add: write_sector_def p del: upt_rec_numeral)
  then show ?thesis using k(2,3) st(3) c lba_of_sector(1) [OF n] by (metis (no_types, lifting))
qed

section \<open>What the cache stands for\<close>

text \<open>Slot \<open>i\<close> of the cache over the disk \<open>D\<close>, and the whole cache.\<close>

definition slot_ok :: "nat \<Rightarrow> (u32 \<Rightarrow> u8 list) \<Rightarrow> sector_cache \<Rightarrow> bool" where
  "slot_ok i D c \<longleftrightarrow> (sc_dirty c \<longrightarrow> sc_used c) \<and>
     (sc_used c \<longrightarrow> unat (sc_sector c) mod 127 = i \<and> sc_sector c < 2 ^ 28 \<and> length (sc_content c) = 512 \<and>
        (\<not> sc_dirty c \<longrightarrow> sc_content c = D (sc_sector c)))"

definition cache_ok :: "sector_cache list \<Rightarrow> (u32 \<Rightarrow> u8 list) \<Rightarrow> bool" where
  "cache_ok cache D \<longleftrightarrow> length cache = 127 \<and> (\<forall>i < 127. slot_ok i D (cache ! i))"

definition view :: "sector_cache list \<Rightarrow> (u32 \<Rightarrow> u8 list) \<Rightarrow> u32 \<Rightarrow> u8 list" where
  "view cache D n =
     (let c = cache ! (unat n mod 127) in if sc_used c \<and> sc_sector c = n then sc_content c else D n)"

text \<open>The byte at an offset of the device, as a reader sees it.\<close>

definition device_byte :: "sector_cache list \<Rightarrow> (u32 \<Rightarrow> u8 list) \<Rightarrow> u32 \<Rightarrow> u8" where
  "device_byte cache D offset = view cache D (drop_bit 9 offset) ! unat (offset AND 511)"

lemma cache_okD:
  assumes "cache_ok cache D"
  shows "length cache = 127" "i < 127 \<Longrightarrow> slot_ok i D (cache ! i)"
  using assms by (simp_all add: cache_ok_def)

lemma view_at:
  "unat n mod 127 = i \<Longrightarrow>
     view cache D n = (if sc_used (cache ! i) \<and> sc_sector (cache ! i) = n then sc_content (cache ! i) else D n)"
  by (auto simp: view_def)

lemma slot_of: "unat (n mod (of_nat NR_SEC_CACHE :: u32)) = unat n mod 127"
  by (simp add: NR_SEC_CACHE_def unat_mod)

lemma slot_stored:
  "slot_ok i D c \<Longrightarrow> \<not> (sc_used c \<and> sc_sector c = m) \<or> w = sc_content c \<Longrightarrow> sc_used c \<longrightarrow> sc_dirty c \<longrightarrow> sc_sector c \<noteq> m \<Longrightarrow>
     slot_ok i (D(m := w)) c"
  by (auto simp: slot_ok_def)

lemma cache_fetch_spec:
  assumes a: "ata_drive dev idle disk" and d: "idle d" and ok: "cache_ok cache (disk d)" and n: "n < 2 ^ 28"
  shows "\<exists>cache' e. cache_fetch dev n (cache, d) = Some (Inr (unat n mod 127, cache', e)) \<and> idle e \<and>
    cache_ok cache' (disk e) \<and> view cache' (disk e) = view cache (disk d) \<and>
    sc_used (cache' ! (unat n mod 127)) \<and> sc_sector (cache' ! (unat n mod 127)) = n"
proof -
  let ?i = "unat n mod 127"
  let ?c = "cache ! ?i"
  note len = cache_okD(1) [OF ok]
  have i: "?i < 127" by simp
  note sl = cache_okD(2) [OF ok i]
  show ?thesis
  proof (cases "sc_used ?c \<and> sc_sector ?c = n")
    case True
    then show ?thesis using ok d by (auto simp: cache_fetch_def slot_of)
  next
    case False
    obtain e where e: "(if sc_used ?c \<and> sc_dirty ?c then write_sector dev ?c d else Some (Inr d)) = Some (Inr e)" "idle e"
      "disk e = (if sc_used ?c \<and> sc_dirty ?c then (disk d)(sc_sector ?c := sc_content ?c) else disk d)"
      using ata_write [OF a d, of ?c] sl d by (cases "sc_used ?c \<and> sc_dirty ?c") (auto simp: slot_ok_def)
    obtain p f where f: "ide_prepare dev n e = Inr p" "do_read dev (issue_read dev p) = Some (disk e n, f)"
      "idle f" "disk f = disk e"
      using ata_read [OF a e(2) n] by blast
    let ?new = "\<lparr>sc_sector = n, sc_used = True, sc_dirty = False, sc_content = disk e n\<rparr>"
    let ?cache = "cache[?i := ?new]"
    have F: "cache_fetch dev n (cache, d) = Some (Inr (?i, ?cache, f))"
      using False e(1) f(1,2) by (auto simp: cache_fetch_def slot_of Let_def)
    have l512: "length (disk e n) = 512" using a e(2) by (simp add: ata_drive_def)
    have ok': "cache_ok ?cache (disk f)"
      unfolding cache_ok_def
    proof (intro conjI allI impI)
      fix j :: nat assume j: "j < 127"
      show "slot_ok j (disk f) (?cache ! j)"
      proof (cases "j = ?i")
        case True
        then show ?thesis using l512 f(4) len n by (simp add: slot_ok_def)
      next
        case False
        then have "slot_ok j (disk d) (cache ! j)" "?cache ! j = cache ! j" using cache_okD(2) [OF ok j] by auto
        then show ?thesis using sl False f(4) e(3) by (auto simp: slot_ok_def)
      qed
    qed (simp add: len)
    have v: "view ?cache (disk f) m = view cache (disk d) m" for m
    proof (cases "unat m mod 127 = ?i")
      case True
      have at: "?cache ! ?i = ?new" using len by simp
      have "view ?cache (disk f) m = disk e m" unfolding view_at [OF True] f(4) at by simp
      also have "\<dots> = view cache (disk d) m"
        unfolding view_at [OF True] e(3) using False sl by (auto simp: slot_ok_def)
      finally show ?thesis .
    next
      case neq: False
      then have "?cache ! (unat m mod 127) = cache ! (unat m mod 127)" by simp
      moreover have "disk f m = disk d m" using sl neq f(4) e(3) by (auto simp: slot_ok_def)
      ultimately show ?thesis by (simp only: view_def Let_def)
    qed
    have u: "sc_used (?cache ! ?i)" "sc_sector (?cache ! ?i) = n" using len by simp_all
    show ?thesis using F f(3) ok' v u by blast
  qed
qed

lemma sector_small: "drop_bit 9 (off :: u32) < 2 ^ 28"
proof -
  have "unat off < 2 ^ 32" using unsigned_less [of off] by simp
  then have "unat off div 512 < 2 ^ 28" by simp
  moreover have "unat (drop_bit 9 off) = unat off div 512" by (simp only: unat_drop_bit_eq) (simp add: drop_bit_eq_div)
  ultimately show ?thesis by (simp only: word_less_nat_alt) simp
qed

lemma in_sector: "unat ((off :: u32) AND 511) < 512"
proof -
  have "off AND 511 = take_bit 9 off" by (simp add: take_bit_eq_mask mask_eq_exp_minus_1)
  then show ?thesis by (simp add: unsigned_take_bit_eq take_bit_nat_less_exp [of 9, simplified])
qed

lemma offset_split: "drop_bit 9 (a :: u32) = drop_bit 9 b \<Longrightarrow> a AND 511 = b AND 511 \<Longrightarrow> a = b"
proof -
  assume h: "drop_bit 9 a = drop_bit 9 b" "a AND 511 = b AND 511"
  have m: "(511 :: u32) = mask 9" by (simp add: mask_eq_exp_minus_1)
  then show ?thesis using h by (metis bits_ident take_bit_eq_mask)
qed

lemma read_byte_spec:
  assumes a: "ata_drive dev idle disk" and d: "idle d" and ok: "cache_ok cache (disk d)"
  shows "\<exists>cache' e. read_byte dev off (cache, d) = Some (Inr (device_byte cache (disk d) off, cache', e)) \<and>
    idle e \<and> cache_ok cache' (disk e) \<and> view cache' (disk e) = view cache (disk d)"
proof -
  obtain cache' e where f: "cache_fetch dev (drop_bit 9 off) (cache, d) =
      Some (Inr (unat (drop_bit 9 off) mod 127, cache', e))" "idle e"
    "cache_ok cache' (disk e)" "view cache' (disk e) = view cache (disk d)"
    "sc_used (cache' ! (unat (drop_bit 9 off) mod 127))"
    "sc_sector (cache' ! (unat (drop_bit 9 off) mod 127)) = drop_bit 9 off"
    using cache_fetch_spec [OF a d ok sector_small, of off] by blast
  have "view cache' (disk e) (drop_bit 9 off) = sc_content (cache' ! (unat (drop_bit 9 off) mod 127))"
    using f(5,6) by (simp add: view_def Let_def)
  then show ?thesis using f(1-4) by (simp add: read_byte_def device_byte_def)
qed

lemma write_byte_spec:
  assumes a: "ata_drive dev idle disk" and d: "idle d" and ok: "cache_ok cache (disk d)"
  shows "\<exists>cache' e. write_byte dev off data (cache, d) = Some (Inr (cache', e)) \<and> idle e \<and>
    cache_ok cache' (disk e) \<and> device_byte cache' (disk e) = (device_byte cache (disk d))(off := data)"
proof -
  let ?n = "drop_bit 9 off" and ?i = "unat (drop_bit 9 off) mod 127" and ?k = "unat (off AND 511)"
  obtain cache' e where f: "cache_fetch dev ?n (cache, d) = Some (Inr (?i, cache', e))" "idle e"
    "cache_ok cache' (disk e)" "view cache' (disk e) = view cache (disk d)"
    "sc_used (cache' ! ?i)" "sc_sector (cache' ! ?i) = ?n"
    using cache_fetch_spec [OF a d ok sector_small, of off] by blast
  have i: "?i < 127" by simp
  note len = cache_okD(1) [OF f(3)] and sl = cache_okD(2) [OF f(3) i]
  let ?g = "\<lambda>ptr. ptr\<lparr>sc_content := (sc_content ptr)[?k := data], sc_dirty := True\<rparr>"
  let ?c2 = "upd_at ?i ?g cache'"
  have W: "write_byte dev off data (cache, d) = Some (Inr (?c2, e))"
    by (simp add: write_byte_def f(1))
  have ok2: "cache_ok ?c2 (disk e)"
    using f(3,5) sl i len by (auto simp: cache_ok_def nth_upd_at slot_ok_def)
  have k: "?k < length (sc_content (cache' ! ?i))" using sl f(5) in_sector by (simp add: slot_ok_def)
  have v: "view ?c2 (disk e) m = (if m = ?n then (view cache' (disk e) ?n)[?k := data] else view cache' (disk e) m)" for m
  proof (cases "unat m mod 127 = ?i")
    case True
    have "?c2 ! ?i = ?g (cache' ! ?i)" using len i by simp
    then show ?thesis using f(5,6) by (simp add: view_at [OF True] view_at [OF refl, of _ _ ?n])
  next
    case False
    then have "?c2 ! (unat m mod 127) = cache' ! (unat m mod 127)" by simp
    then show ?thesis using False by (auto simp: view_def)
  qed
  have vl: "?k < length (view cache' (disk e) ?n)" using k f(5,6) by (simp add: view_def)
  have "device_byte ?c2 (disk e) b = (if b = off then data else device_byte cache' (disk e) b)" for b
  proof (cases "drop_bit 9 b = ?n")
    case True
    then have "unat (b AND 511) = ?k \<longleftrightarrow> b = off" using offset_split [of b off] by (auto dest: unsigned_word_eqI)
    then show ?thesis using True vl by (auto simp: device_byte_def v nth_list_update)
  next
    case False
    then show ?thesis by (auto simp: device_byte_def v)
  qed
  moreover have "device_byte cache' (disk e) b = device_byte cache (disk d) b" for b
    using f(4) by (simp add: device_byte_def)
  ultimately have "device_byte ?c2 (disk e) = (device_byte cache (disk d))(off := data)" by auto
  then show ?thesis using W f(2) ok2 by blast
qed

lemma writeback_spec:
  assumes a: "ata_drive dev idle disk"
  shows "idle d \<Longrightarrow> cache_ok cache (disk d) \<Longrightarrow> set is \<subseteq> {..<127} \<Longrightarrow>
    \<exists>cache' e. writeback dev is (cache, d) = Some (Inr (cache', e)) \<and> idle e \<and> cache_ok cache' (disk e) \<and>
      view cache' (disk e) = view cache (disk d) \<and>
      (\<forall>j < 127. sc_dirty (cache' ! j) \<longleftrightarrow> sc_dirty (cache ! j) \<and> j \<notin> set is)"
proof (induction "is" arbitrary: cache d)
  case Nil
  then show ?case by auto
next
  case (Cons i "is")
  have i: "i < 127" using Cons.prems by simp
  note len = cache_okD(1) [OF Cons.prems(2)] and sl = cache_okD(2) [OF Cons.prems(2) i]
  show ?case
  proof (cases "sc_dirty (cache ! i)")
    case False
    then have s: "writeback dev (i # is) (cache, d) = writeback dev is (cache, d)" by simp
    from Cons.prems have "set is \<subseteq> {..<127}" by simp
    from Cons.IH [OF Cons.prems(1,2) this] show ?thesis unfolding s using False by fastforce
  next
    case True
    let ?c = "cache ! i"
    obtain e where e: "write_sector dev ?c d = Some (Inr e)" "idle e"
      "disk e = (disk d)(sc_sector ?c := sc_content ?c)"
      using ata_write [OF a Cons.prems(1), of ?c] sl True by (auto simp: slot_ok_def)
    let ?c2 = "upd_at i (sc_dirty_update (\<lambda>_. False)) cache"
    have s: "writeback dev (i # is) (cache, d) = writeback dev is (?c2, e)" using True e(1) by simp
    have ok2: "cache_ok ?c2 (disk e)"
      unfolding cache_ok_def
    proof (intro conjI allI impI)
      fix j :: nat assume j: "j < 127"
      show "slot_ok j (disk e) (?c2 ! j)"
        using cache_okD(2) [OF Cons.prems(2) j] sl True e(3) j len
        by (auto simp: nth_upd_at slot_ok_def)
    qed (simp add: len)
    have v: "view ?c2 (disk e) = view cache (disk d)"
      using sl True e(3) len by (intro ext) (auto simp: view_def slot_ok_def Let_def nth_upd_at)
    have dirty: "\<forall>j < 127. sc_dirty (?c2 ! j) \<longleftrightarrow> sc_dirty (cache ! j) \<and> j \<noteq> i"
      using len by (simp add: nth_upd_at)
    from Cons.prems have "set is \<subseteq> {..<127}" by simp
    from Cons.IH [OF e(2) ok2 this] show ?thesis unfolding s using v dirty by auto
  qed
qed

end
