(* ===== verification/UserBuffer.thy ===== *)
theory UserBuffer
  imports Paging
begin

text \<open>
  A buffer of a process, as the drivers and servers use it: they copy single bytes to and from it while they change their own
  state. The interface is a locale; \<open>copy_from_kernel\<close> and \<open>copy_to_kernel\<close> over page tables that the copied bytes do not
  touch provide it.
\<close>

section \<open>The interface\<close>

text \<open>\<open>usable m cr3 va n a W\<close>: the \<open>n\<close> bytes from \<open>va\<close> of the process with directory \<open>cr3\<close> lie at \<open>a 0, a 1, \<dots>\<close>, and stay
  there while only bytes of \<open>W\<close> change.\<close>

locale user_buffer =
  fixes usable :: "memory \<Rightarrow> u32 \<Rightarrow> u32 \<Rightarrow> nat \<Rightarrow> (nat \<Rightarrow> u32) \<Rightarrow> u32 set \<Rightarrow> bool"
    and put_to :: "u32 \<Rightarrow> u32 \<Rightarrow> u32 \<Rightarrow> u32 \<Rightarrow> memory \<Rightarrow> memory option"
    and get_from :: "u32 \<Rightarrow> u32 \<Rightarrow> u32 \<Rightarrow> u32 \<Rightarrow> memory \<Rightarrow> memory option"
  assumes keep: "usable m cr3 va n a W \<Longrightarrow> \<forall>x. x \<notin> W \<longrightarrow> m' x = m x \<Longrightarrow> usable m' cr3 va n a W"
    and put_byte: "usable m cr3 va n a W \<Longrightarrow> a k \<in> W \<Longrightarrow> k < n \<Longrightarrow>
      put_to cr3 (va + of_nat k) p 1 m = Some (m(a k := m (kphys p)))"
    and get_byte: "usable m cr3 va n a W \<Longrightarrow> kphys p \<in> W \<Longrightarrow> k < n \<Longrightarrow>
      get_from cr3 p (va + of_nat k) 1 m = Some (m(kphys p := m (a k)))"
begin

lemma put_keeps: "usable m cr3 va n a W \<Longrightarrow> a k \<in> W \<Longrightarrow> usable (m(a k := b)) cr3 va n a W"
  by (rule keep) auto

lemma get_keeps: "usable m cr3 va n a W \<Longrightarrow> kphys p \<in> W \<Longrightarrow> usable (m(kphys p := b)) cr3 va n a W"
  by (rule keep) auto

text \<open>What was put is got back.\<close>

lemma put_get:
  assumes "usable m cr3 va n a W" "a k \<in> W" "kphys q \<in> W" "k < n" "put_to cr3 (va + of_nat k) p 1 m = Some m'"
  shows "\<exists>m''. get_from cr3 q (va + of_nat k) 1 m' = Some m'' \<and> m'' (kphys q) = m (kphys p) \<and> usable m'' cr3 va n a W"
proof -
  have m': "m' = m(a k := m (kphys p))" using put_byte [OF assms(1,2,4), of p] assms(5) by simp
  have u: "usable m' cr3 va n a W" unfolding m' using assms(1,2) by (rule put_keeps)
  show ?thesis using get_byte [OF u assms(3,4)] get_keeps [OF u assms(3)] by (simp add: m')
qed

end

section \<open>Buffers behind page tables\<close>

lemma user_mapped_mono: "user_mapped m cr3 va n a \<Longrightarrow> k \<le> n \<Longrightarrow> user_mapped m cr3 va k a"
  by (auto simp: user_mapped_def)

lemma tables_apart_mono: "tables_apart m cr3 va n W \<Longrightarrow> k \<le> n \<Longrightarrow> V \<subseteq> W \<Longrightarrow> tables_apart m cr3 va k V"
  unfolding tables_apart_def by (meson Int_mono inf_commute order_refl less_le_trans subset_empty disjoint_iff subsetD)

lemma user_mapped_keep:
  assumes "user_mapped m cr3 va n a" "tables_apart m cr3 va n W" "\<forall>x. x \<notin> W \<longrightarrow> m' x = m x"
  shows "user_mapped m' cr3 va n a" "tables_apart m' cr3 va n W"
proof -
  have "user_mapped m' cr3 va n a \<and> tables_apart m' cr3 va n W"
  proof (cases "n = 0")
    case True
    then show ?thesis using assms(1) by (simp add: user_mapped_def tables_apart_def)
  next
    case False
    then show ?thesis using user_mapped_step [OF assms, of 0] by simp
  qed
  then show "user_mapped m' cr3 va n a" "tables_apart m' cr3 va n W" by simp_all
qed

text \<open>One byte to and from a process.\<close>

lemma copy_from_kernel_byte:
  assumes "user_mapped m cr3 va n a" "tables_apart m cr3 va n W" "a k \<in> W" "k < n"
  shows "copy_from_kernel cr3 (va + of_nat k) p 1 m = Some (m(a k := m (kphys p)))"
proof -
  have keep: "\<forall>x. x \<notin> W \<longrightarrow> m x = m x" by simp
  note s = user_mapped_step [OF assms(1,2) keep assms(4)]
  have "user_mapped m cr3 (va + of_nat k) (unat (1 :: u32)) (\<lambda>i. a (k + i))"
    "tables_apart m cr3 (va + of_nat k) (unat (1 :: u32)) W"
    using user_mapped_mono [OF s(1), of 1] tables_apart_mono [OF s(2), of 1 W] assms(4) by simp_all
  from copy_from_pages_spec [OF this] assms(3) show ?thesis
    by (simp add: copy_from_kernel_def Let_def copy_bytes_def)
qed

lemma copy_to_kernel_byte:
  assumes "user_mapped m cr3 va n a" "tables_apart m cr3 va n W" "kphys p \<in> W" "k < n"
  shows "copy_to_kernel cr3 p (va + of_nat k) 1 m = Some (m(kphys p := m (a k)))"
proof -
  have keep: "\<forall>x. x \<notin> W \<longrightarrow> m x = m x" by simp
  note s = user_mapped_step [OF assms(1,2) keep assms(4)]
  have "user_mapped m cr3 (va + of_nat k) (unat (1 :: u32)) (\<lambda>i. a (k + i))"
    "tables_apart m cr3 (va + of_nat k) (unat (1 :: u32)) W"
    using user_mapped_mono [OF s(1), of 1] tables_apart_mono [OF s(2), of 1 W] assms(4) by simp_all
  from copy_to_pages_spec [OF this] assms(3) show ?thesis
    by (simp add: copy_to_kernel_def Let_def copy_bytes_def)
qed

lemma ucast_up_down [simp]: "(ucast (ucast (x :: u8) :: u32) :: u8) = x"
  by (rule bit_word_eqI) (simp add: bit_simps)

interpretation ub: user_buffer "\<lambda>m cr3 va n a W. user_mapped m cr3 va n a \<and> tables_apart m cr3 va n W"
  copy_from_kernel copy_to_kernel
  by unfold_locales (auto intro: user_mapped_keep copy_from_kernel_byte copy_to_kernel_byte)

text \<open>The facts of the interface with its two conditions apart.\<close>

lemmas copy_from_byte = ub.put_byte [OF conjI]
lemmas copy_to_byte = ub.get_byte [OF conjI]

section \<open>Buffers of the kernel\<close>

text \<open>\<open>n\<close> bytes of the kernel at \<open>p\<close>, in the 16 MB below the page frames, and where they lie.\<close>

definition kdata :: "u32 \<Rightarrow> nat \<Rightarrow> bool" where
  "kdata p n \<longleftrightarrow> 0xC0000000 \<le> unat p \<and> unat p + n \<le> 0xC1000000"

definition kbytes :: "u32 \<Rightarrow> nat \<Rightarrow> u32 set" where
  "kbytes p n = {x. unat p \<le> unat x + 0xC0000000 \<and> unat x + 0xC0000000 < unat p + n}"

lemma kdata_at:
  assumes "kdata p n" "i < n"
  shows "unat (kphys (p + of_nat i)) = unat p - 0xC0000000 + i" "kphys (p + of_nat i) \<in> kbytes p n"
    "kphys (p + of_nat i) = kphys p + of_nat i" "unat (p + of_nat i) = unat p + i"
proof -
  have p: "0xC0000000 \<le> unat p" "unat p + i < 0xC1000000" using assms by (simp_all add: kdata_def)
  show u: "unat (p + of_nat i) = unat p + i" using p by (simp add: unat_word_ariths unat_of_nat)
  have k: "in_kernel q" "unat (va_to_pa q) = unat q - 0xC0000000" if "0xC0000000 \<le> unat q" for q
    using that by (simp_all add: in_kernel_def va_to_pa_def KOFFSET_def word_le_nat_alt unat_sub)
  show v: "unat (kphys (p + of_nat i)) = unat p - 0xC0000000 + i" using p u k [of "p + of_nat i"] by (simp add: kphys_def)
  then show "kphys (p + of_nat i) \<in> kbytes p n" using assms p by (simp add: kbytes_def)
  show "kphys (p + of_nat i) = kphys p + of_nat i"
    using p u k(1) [of p] k(1) [of "p + of_nat i"] by (simp add: kphys_def va_to_pa_def)
qed

lemma kbytes_at:
  assumes "kdata p n" "x \<in> kbytes p n"
  obtains i where "i < n" "x = kphys (p + of_nat i)"
proof
  let ?i = "unat x + 0xC0000000 - unat p"
  show i: "?i < n" using assms by (auto simp: kbytes_def kdata_def)
  then show "x = kphys (p + of_nat ?i)"
    using assms kdata_at(1) [OF assms(1) i] by (intro word_unat_eq_iff [THEN iffD2]) (auto simp: kbytes_def kdata_def)
qed

lemma kdata_mono: "kdata p n \<Longrightarrow> k \<le> n \<Longrightarrow> kdata p k" "k \<le> n \<Longrightarrow> kbytes p k \<subseteq> kbytes p n"
  by (auto simp: kdata_def kbytes_def)

lemma kdata_inj: "kdata p n \<Longrightarrow> inj_on (\<lambda>i. kphys (p + of_nat i)) {..<n}"
  by (rule inj_onI) (metis kdata_at(1) lessThan_iff add_left_cancel)

lemma kbytes_low: "kdata p n \<Longrightarrow> x \<in> kbytes p n \<Longrightarrow> unat x < 0x1000000"
  by (auto simp: kdata_def kbytes_def)

lemma less_4: "(i < (4::nat)) \<longleftrightarrow> i = 0 \<or> i = 1 \<or> i = 2 \<or> i = 3"
  by auto

lemma ex_less_4: "(\<exists>i < (4 :: nat). P i) \<longleftrightarrow> P 0 \<or> P 1 \<or> P 2 \<or> P 3"
  by (auto simp: less_4)

lemma word_bytes_nth: "x \<in> word_bytes p \<longleftrightarrow> (\<exists>i < 4. x = p + of_nat i)"
  unfolding ex_less_4 word_bytes_def by simp

lemma kdata_word:
  assumes "kdata p 4"
  shows "word_bytes (kphys p) = kbytes p 4"
proof -
  have "x \<in> word_bytes (kphys p) \<longleftrightarrow> (\<exists>i < 4. x = kphys (p + of_nat i))" for x
    using kdata_at(3) [OF assms] by (auto simp: word_bytes_nth)
  moreover have "x \<in> kbytes p 4 \<longleftrightarrow> (\<exists>i < 4. x = kphys (p + of_nat i))" for x
    using kdata_at(2) [OF assms] kbytes_at [OF assms, of x] by metis
  ultimately show ?thesis by blast
qed

text \<open>The kernel's own address space: it maps this part of memory through tables in \<open>K\<close>.\<close>

definition kernel_space :: "memory \<Rightarrow> u32 \<Rightarrow> u32 set \<Rightarrow> bool" where
  "kernel_space m cr3 K \<longleftrightarrow> (\<forall>x \<in> K. unat x < 0x1000000) \<and>
     (\<forall>va. 0xC0000000 \<le> unat va \<longrightarrow> unat va < 0xC1000000 \<longrightarrow> translate m cr3 va = Some (kphys va) \<and>
        word_bytes (pde_ptr cr3 va) \<subseteq> K \<and> word_bytes (pte_ptr m cr3 va) \<subseteq> K)"

lemma kernel_buffer:
  assumes "kernel_space m cr3 K" "kdata p n"
  shows "user_mapped m cr3 p n (\<lambda>i. kphys (p + of_nat i))" "W \<inter> K = {} \<Longrightarrow> tables_apart m cr3 p n W"
proof -
  have at: "translate m cr3 (p + of_nat i) = Some (kphys (p + of_nat i))" "word_bytes (pde_ptr cr3 (p + of_nat i)) \<subseteq> K"
    "word_bytes (pte_ptr m cr3 (p + of_nat i)) \<subseteq> K" if "i < n" for i
    using assms kdata_at(4) [OF assms(2) that] that by (auto simp: kernel_space_def kdata_def)
  have low: "q < KOFFSET" if "word_bytes q \<subseteq> K" for q
    using assms(1) that by (auto simp: kernel_space_def word_bytes_def KOFFSET_def word_less_nat_alt)
  have "kphys (p + of_nat i) < KOFFSET" if "i < n" for i
  proof -
    have "unat (kphys (p + of_nat i)) < 0x1000000" by (rule kbytes_low [OF assms(2) kdata_at(2) [OF assms(2) that]])
    then show ?thesis by (simp add: KOFFSET_def word_less_nat_alt)
  qed
  then show "user_mapped m cr3 p n (\<lambda>i. kphys (p + of_nat i))"
    using at low assms(2) unfolding user_mapped_def kdata_def by simp
  show "tables_apart m cr3 p n W" if "W \<inter> K = {}" using at that unfolding tables_apart_def by blast
qed

lemma kernel_space_keep:
  assumes "kernel_space m cr3 K" "\<forall>x \<in> K. m' x = m x"
  shows "kernel_space m' cr3 K"
proof -
  have l: "load32 m' q = load32 m q" if "word_bytes q \<subseteq> K" for q
    using assms(2) that by (intro load32_cong) (auto simp: word_bytes_def)
  have "translate m' cr3 va = translate m cr3 va \<and> pte_ptr m' cr3 va = pte_ptr m cr3 va"
    if "word_bytes (pde_ptr cr3 va) \<subseteq> K" "word_bytes (pte_ptr m cr3 va) \<subseteq> K" for va
    using l [OF that(1)] l [OF that(2)] by (simp add: translate_def pte_ptr_def)
  then show ?thesis using assms(1) unfolding kernel_space_def by metis
qed

end
