(* ===== verification/IdeServer.thy ===== *)
theory IdeServer
  imports Ide UserBuffer
begin

text \<open>
  Requests to the disk driver end to end: through its cache, the page tables of the process that
  asks and the answer it gets; and the write-back that the clock asks for. The last section has a
  drive that satisfies the contract of \<open>Ide\<close>, and examples on it.
\<close>

section \<open>Requests\<close>

lemma device_byte_cong: "view cache D = view cache' D' \<Longrightarrow> device_byte cache D = device_byte cache' D'"
  by (simp add: device_byte_def fun_eq_iff)

lemma read_loop_spec:
  assumes a: "ata_drive dev idle disk"
    and inj: "inj_on a {..<n}" "\<forall>i < n. a i \<notin> word_bytes (kphys p)"
    and W: "W = a ` {..<n} \<union> word_bytes (kphys p)"
  shows "k + r = n \<Longrightarrow> user_mapped m cr3 buf n a \<Longrightarrow> tables_apart m cr3 buf n W \<Longrightarrow> idle d \<Longrightarrow>
    cache_ok cache (disk d) \<Longrightarrow>
    \<exists>m' cache' e. read_loop dev cr3 p buf off r (of_nat k) (m, cache, d) = Some (Inr (m', cache', e)) \<and>
      idle e \<and> cache_ok cache' (disk e) \<and> device_byte cache' (disk e) = device_byte cache (disk d) \<and>
      (\<forall>i < n. m' (a i) = (if i < k then m (a i) else device_byte cache (disk d) (off + of_nat i))) \<and>
      (\<forall>x. x \<notin> W \<longrightarrow> m' x = m x)"
proof (induction r arbitrary: k m cache d)
  case 0
  then show ?case by auto
next
  case (Suc r)
  let ?b = "device_byte cache (disk d)"
  have k: "k < n" using Suc.prems(1) by simp
  obtain c1 d1 where rb: "read_byte dev (off + of_nat k) (cache, d) = Some (Inr (?b (off + of_nat k), c1, d1))"
    "idle d1" "cache_ok c1 (disk d1)" "view c1 (disk d1) = view cache (disk d)"
    using read_byte_spec [OF a Suc.prems(4,5)] by blast
  let ?m1 = "store32 (kphys p) (ucast (?b (off + of_nat k))) m"
  have keep: "\<forall>x. x \<notin> W \<longrightarrow> ?m1 x = m x" using W by (auto simp: word_bytes_def store32_other)
  note m1 = user_mapped_keep [OF Suc.prems(2,3) keep]
  have "?m1 (kphys p) = ?b (off + of_nat k)" by (simp add: store32_def)
  then have cf: "copy_from_kernel cr3 (buf + of_nat k) p 1 ?m1 = Some (?m1(a k := ?b (off + of_nat k)))"
    using copy_from_byte [OF m1, of k p] k W by simp
  let ?m2 = "?m1(a k := ?b (off + of_nat k))"
  have keep2: "\<forall>x. x \<notin> W \<longrightarrow> ?m2 x = m x" using keep W k by auto
  note m2 = user_mapped_keep [OF Suc.prems(2,3) keep2]
  have "Suc k + r = n" using Suc.prems(1) by simp
  from Suc.IH [OF this m2 rb(2,3)] obtain m' c' e where
    ih: "read_loop dev cr3 p buf off r (of_nat (Suc k)) (?m2, c1, d1) = Some (Inr (m', c', e))"
      "idle e" "cache_ok c' (disk e)" "device_byte c' (disk e) = device_byte c1 (disk d1)"
      "\<forall>i < n. m' (a i) = (if i < Suc k then ?m2 (a i) else device_byte c1 (disk d1) (off + of_nat i))"
      "\<forall>x. x \<notin> W \<longrightarrow> m' x = ?m2 x"
    by blast
  have bv: "device_byte c1 (disk d1) = ?b" using rb(4) by (rule device_byte_cong)
  have run: "read_loop dev cr3 p buf off (Suc r) (of_nat k) (m, cache, d) = Some (Inr (m', c', e))"
    using ih(1) rb(1) cf by (simp add: add.commute)
  have val: "m' (a i) = (if i < k then m (a i) else ?b (off + of_nat i))" if i: "i < n" for i
  proof -
    have ne: "i \<noteq> k \<Longrightarrow> a i \<noteq> a k" using inj(1) i k by (auto dest: inj_onD)
    have "a i \<notin> word_bytes (kphys p)" using inj(2) i by blast
    then have "?m1 (a i) = m (a i)" by (intro store32_other) (auto simp: word_bytes_def)
    then show ?thesis using ih(5) [rule_format, OF i] ne bv by (cases "i = k") (simp_all add: less_Suc_eq)
  qed
  have "\<forall>x. x \<notin> W \<longrightarrow> m' x = m x" using ih(6) keep2 by simp
  then show ?case using run ih(2-4) val bv by (intro exI conjI) (assumption | simp)+
qed

lemma write_loop_spec:
  assumes a: "ata_drive dev idle disk" and n: "n \<le> 2 ^ 32"
    and ap: "\<forall>i < n. a i \<noteq> kphys p"
  shows "k + r = n \<Longrightarrow> user_mapped m cr3 buf n a \<Longrightarrow> tables_apart m cr3 buf n {kphys p} \<Longrightarrow> idle d \<Longrightarrow>
    cache_ok cache (disk d) \<Longrightarrow>
    \<exists>m' cache' e. write_loop dev cr3 p buf off r (of_nat k) (m, cache, d) = Some (Inr (m', cache', e)) \<and>
      idle e \<and> cache_ok cache' (disk e) \<and>
      (\<forall>i < n. device_byte cache' (disk e) (off + of_nat i) =
          (if i < k then device_byte cache (disk d) (off + of_nat i) else m (a i))) \<and>
      (\<forall>b. (\<forall>i < n. b \<noteq> off + of_nat i) \<longrightarrow> device_byte cache' (disk e) b = device_byte cache (disk d) b) \<and>
      (\<forall>x. x \<noteq> kphys p \<longrightarrow> m' x = m x)"
proof (induction r arbitrary: k m cache d)
  case 0
  then show ?case by auto
next
  case (Suc r)
  have k: "k < n" using Suc.prems(1) by simp
  let ?m1 = "m(kphys p := m (a k))"
  have ct: "copy_to_kernel cr3 p (buf + of_nat k) 1 m = Some ?m1"
    using copy_to_byte [OF Suc.prems(2,3) _ k, of p] by simp
  have keep: "\<forall>x. x \<notin> {kphys p} \<longrightarrow> ?m1 x = m x" by simp
  note m1 = user_mapped_keep [OF Suc.prems(2,3) keep]
  obtain c1 d1 where wb: "write_byte dev (off + of_nat k) (m (a k)) (cache, d) = Some (Inr (c1, d1))"
    "idle d1" "cache_ok c1 (disk d1)"
    "device_byte c1 (disk d1) = (device_byte cache (disk d))(off + of_nat k := m (a k))"
    using write_byte_spec [OF a Suc.prems(4,5)] by blast
  have "Suc k + r = n" using Suc.prems(1) by simp
  from Suc.IH [OF this m1 wb(2,3)] obtain m' c' e where
    ih: "write_loop dev cr3 p buf off r (of_nat (Suc k)) (?m1, c1, d1) = Some (Inr (m', c', e))"
      "idle e" "cache_ok c' (disk e)"
      "\<forall>i < n. device_byte c' (disk e) (off + of_nat i) =
          (if i < Suc k then device_byte c1 (disk d1) (off + of_nat i) else ?m1 (a i))"
      "\<forall>b. (\<forall>i < n. b \<noteq> off + of_nat i) \<longrightarrow> device_byte c' (disk e) b = device_byte c1 (disk d1) b"
      "\<forall>x. x \<noteq> kphys p \<longrightarrow> m' x = ?m1 x"
    by blast
  have run: "write_loop dev cr3 p buf off (Suc r) (of_nat k) (m, cache, d) = Some (Inr (m', c', e))"
    using ih(1) wb(1) ct by (simp add: add.commute)
  have val: "device_byte c' (disk e) (off + of_nat i) =
      (if i < k then device_byte cache (disk d) (off + of_nat i) else m (a i))" if i: "i < n" for i
  proof -
    have inj: "i \<noteq> k \<Longrightarrow> off + of_nat i \<noteq> off + (of_nat k :: u32)"
      using i k n by (auto simp: word_of_nat_eq_iff take_bit_nat_eq_self)
    show ?thesis using ih(4) [rule_format, OF i] inj ap i wb(4) by (cases "i = k") (auto simp: less_Suc_eq)
  qed
  have oth: "device_byte c' (disk e) b = device_byte cache (disk d) b" if "\<forall>i < n. b \<noteq> off + of_nat i" for b
    using ih(5) that wb(4) k by auto
  have "\<forall>x. x \<noteq> kphys p \<longrightarrow> m' x = m x" using ih(6) by simp
  then show ?case using run ih(2,3) val oth by (intro exI conjI) (assumption | blast)+
qed

lemma fetch_pcb_ok: "t < length (Proc s) \<Longrightarrow> fetch_pcb s (int t) = Inr t"
  by (simp add: fetch_pcb_def proc_index_def)

lemma unread_in_table: "unread s t n ms \<Longrightarrow> t < length (Proc s)"
  by (simp add: unread_def)

lemma not_hard_intr: "int t \<noteq> MSG_HARD_INTR"
  by (simp add: MSG_HARD_INTR_def)



text \<open>C27: the write-back that the clock asks for: the driver returns, the disk then holds in every
  sector what the cache showed before, and no slot is dirty.\<close>

theorem writeback_flushes:
  assumes a: "ata_drive dev idle disk" "idle d" "cache_ok cache (disk d)"
    and m: "m_src m = MSG_HARD_INTR" "m_type m = IDE_WRITEBACK"
  shows "\<exists>cache' e. ide_message dev data_p m ((cache, d), s) = Some (Inr ((cache', e), s)) \<and>
     idle e \<and> cache_ok cache' (disk e) \<and> disk e = view cache (disk d) \<and>
     (\<forall>c \<in> set cache'. \<not> sc_dirty c)"
proof -
  obtain cache' e where w: "writeback dev [0..<127] (cache, d) = Some (Inr (cache', e))" "idle e"
      "cache_ok cache' (disk e)" "view cache' (disk e) = view cache (disk d)"
      "\<forall>j < 127. \<not> sc_dirty (cache' ! j)"
    using writeback_spec [OF a, of "[0..<127]"] atLeast0LessThan by (auto simp del: upt_rec_numeral)
  note c = cache_okD [OF w(3)]
  have "disk e n = view cache' (disk e) n" for n
    using c(2) [of "unat n mod 127"] w(5) by (auto simp: view_def slot_ok_def Let_def)
  then have "disk e = view cache (disk d)" using w(4) by auto
  moreover have "\<forall>c \<in> set cache'. \<not> sc_dirty c" using w(5) c(1) by (auto simp: in_set_conv_nth)
  ultimately show ?thesis using w(1-3) m
    by (auto simp: ide_message_def NR_SEC_CACHE_def simp del: upt_rec_numeral)
qed

section \<open>A drive\<close>

text \<open>A drive that is always ready, for the examples: the four address registers, the words still
  to transfer, and the sectors.\<close>

record sample =
  sd_regs :: "u16 \<Rightarrow> u8"
  sd_words :: "u32 list"
  sd_disk :: "u32 \<Rightarrow> u8 list"

definition sd_lba :: "sample \<Rightarrow> u32" where
  "sd_lba d = lba (sd_regs d 0x1F3) (sd_regs d 0x1F4) (sd_regs d 0x1F5) (sd_regs d 0x1F6)"

definition sample_drive :: "sample device" where
  "sample_drive = \<lparr>
     d_in_byte = (\<lambda>p d. (0x40, d)),
     d_out_byte = (\<lambda>p v d.
       if p = 0x1F7 then d\<lparr>sd_words := if v = 0x20 then map (long_at (sd_disk d (sd_lba d))) [0..<128] else []\<rparr>
       else d\<lparr>sd_regs := (sd_regs d)(p := v)\<rparr>),
     d_in_long = (\<lambda>p d. (hd (sd_words d), d\<lparr>sd_words := tl (sd_words d)\<rparr>)),
     d_out_long = (\<lambda>p w d. let ws = sd_words d @ [w] in
       if length ws = 128 then d\<lparr>sd_words := [], sd_disk := (sd_disk d)(sd_lba d := concat (map bytes_of ws))\<rparr>
       else d\<lparr>sd_words := ws\<rparr>),
     d_hard_intr = (\<lambda>d. (IDE_READY, d))\<rparr>"

definition sample_idle :: "sample \<Rightarrow> bool" where
  "sample_idle d \<longleftrightarrow> (\<forall>n. length (sd_disk d n) = 512)"

lemma sample_in_longs:
  "in_longs sample_drive (length ws) (d\<lparr>sd_words := ws\<rparr>) = (ws, d\<lparr>sd_words := []\<rparr>)"
  by (induction ws arbitrary: d) (simp_all add: sample_drive_def)

lemma sample_out_longs:
  "length (sd_words d) + length ws = 128 \<Longrightarrow> ws \<noteq> [] \<Longrightarrow>
   fold (d_out_long sample_drive p) ws d =
     d\<lparr>sd_words := [], sd_disk := (sd_disk d)(sd_lba d := concat (map bytes_of (sd_words d @ ws)))\<rparr>"
proof (induction ws arbitrary: d)
  case Nil
  then show ?case by simp
next
  case (Cons w ws)
  show ?case
  proof (cases "ws = []")
    case True
    then show ?thesis using Cons.prems by (simp add: sample_drive_def fun_upd_def cong: if_cong)
  next
    case False
    then have "d_out_long sample_drive p w d = d\<lparr>sd_words := sd_words d @ [w]\<rparr>"
      using Cons.prems by (cases ws) (auto simp: sample_drive_def)
    then show ?thesis using Cons.IH [of "d\<lparr>sd_words := sd_words d @ [w]\<rparr>"] Cons.prems False
      by (simp add: sd_lba_def fun_upd_def)
  qed
qed

lemma length_bytes_of_concat: "length (concat (map bytes_of ws)) = 4 * length ws"
  by (induction ws) (simp_all add: bytes_of_def)

lemma sample_ata: "ata_drive sample_drive sample_idle sd_disk"
  unfolding ata_drive_def
proof (intro conjI allI impI)
  fix d n assume "sample_idle d"
  then show "length (sd_disk d n) = 512" by (simp add: sample_idle_def)
next
  fix d r e assume "sample_idle d" "d_in_byte sample_drive 0x1F7 d = (r, e)"
  then show "r AND 0xC0 = 0x40" "sample_idle e" "sd_disk e = sd_disk d" by (simp_all add: sample_drive_def)
next
  fix d b0 b1 b2 b3 assume d: "sample_idle d"
  let ?p = "programmed sample_drive b0 b1 b2 b3 d"
  let ?ws = "map (long_at (sd_disk d (lba b0 b1 b2 b3))) [0..<128]"
  have p: "sd_lba ?p = lba b0 b1 b2 b3" "sd_disk ?p = sd_disk d"
    by (simp_all add: programmed_def sd_lba_def sample_drive_def)
  have o: "d_out_byte sample_drive 0x1F7 0x20 ?p = ?p\<lparr>sd_words := ?ws\<rparr>"
    using p by (simp add: sample_drive_def del: upt_rec_numeral)
  have "ready_after sample_drive 0 (?p\<lparr>sd_words := ?ws\<rparr>) = Some (?p\<lparr>sd_words := ?ws\<rparr>)"
    by (simp add: sample_drive_def del: upt_rec_numeral)
  moreover have "in_longs sample_drive 128 (?p\<lparr>sd_words := ?ws\<rparr>) = (?ws, ?p\<lparr>sd_words := []\<rparr>)"
    using sample_in_longs [of ?ws ?p] by (simp del: upt_rec_numeral)
  moreover have "concat (map bytes_of ?ws) = sd_disk d (lba b0 b1 b2 b3)"
    using d by (intro bytes_of_longs) (simp add: sample_idle_def)
  moreover have "sample_idle (?p\<lparr>sd_words := []\<rparr>)" "sd_disk (?p\<lparr>sd_words := []\<rparr>) = sd_disk d"
    using d p by (simp_all add: sample_idle_def)
  ultimately show "\<exists>k e ws f. ready_after sample_drive k (d_out_byte sample_drive 0x1F7 0x20 ?p) = Some e \<and>
      in_longs sample_drive 128 e = (ws, f) \<and> concat (map bytes_of ws) = sd_disk d (lba b0 b1 b2 b3) \<and>
      sample_idle f \<and> sd_disk f = sd_disk d"
    unfolding o by blast
next
  fix d b0 b1 b2 b3 and ws :: "u32 list" assume d: "sample_idle d" and ws: "length ws = 128"
  let ?p = "programmed sample_drive b0 b1 b2 b3 d"
  have p: "sd_lba ?p = lba b0 b1 b2 b3" "sd_disk ?p = sd_disk d"
    by (simp_all add: programmed_def sd_lba_def sample_drive_def)
  let ?q = "?p\<lparr>sd_words := []\<rparr>"
  have o: "d_out_byte sample_drive 0x1F7 0x30 ?p = ?q"
    by (simp add: sample_drive_def del: upt_rec_numeral)
  have q: "sd_words ?q = []" "sd_lba ?q = lba b0 b1 b2 b3" "sd_disk ?q = sd_disk d"
    using p by (simp_all add: sd_lba_def)
  let ?f = "?q\<lparr>sd_words := [], sd_disk := (sd_disk d)(lba b0 b1 b2 b3 := concat (map bytes_of ws))\<rparr>"
  have f: "fold (d_out_long sample_drive 0x1F0) ws ?q = ?f"
    using sample_out_longs [of ?q ws "0x1F0"] ws unfolding q by fastforce
  have "ready_after sample_drive 0 ?f = Some ?f" by (simp add: sample_drive_def)
  moreover have "sample_idle ?f"
    using d ws by (simp add: sample_idle_def length_bytes_of_concat)
  moreover have "sd_disk ?f = (sd_disk d)(lba b0 b1 b2 b3 := concat (map bytes_of ws))" by simp
  ultimately show "\<exists>k e. ready_after sample_drive k (fold (d_out_long sample_drive 0x1F0) ws
        (d_out_byte sample_drive 0x1F7 0x30 ?p)) = Some e \<and>
      sample_idle e \<and> sd_disk e = (sd_disk d)(lba b0 b1 b2 b3 := concat (map bytes_of ws))"
    unfolding o f by blast
qed

section \<open>Examples\<close>

definition blank_slot :: sector_cache where
  "blank_slot = \<lparr>sc_sector = 0, sc_used = False, sc_dirty = False, sc_content = replicate 512 0\<rparr>"

definition sevens :: sample where
  "sevens = \<lparr>sd_regs = (\<lambda>_. 0), sd_words = [], sd_disk = (\<lambda>_. replicate 512 7)\<rparr>"

definition written_slot :: sector_cache where
  "written_slot = \<lparr>sc_sector = 3, sc_used = True, sc_dirty = True, sc_content = replicate 512 9\<rparr>"

definition one_written :: "sector_cache list" where
  "one_written = (replicate 127 blank_slot)[3 := written_slot]"

lemma sample_state: "sample_idle sevens" "cache_ok one_written (sd_disk sevens)"
  by (simp_all add: sample_idle_def sevens_def cache_ok_def one_written_def nth_list_update slot_ok_def
      blank_slot_def written_slot_def)

lemma one_written_view: "view one_written (sd_disk sevens) n = (if n = 3 then replicate 512 9 else replicate 512 7)"
  by (auto simp: view_def Let_def one_written_def nth_list_update sevens_def blank_slot_def written_slot_def)

text \<open>A process whose buffer of three bytes crosses a page.\<close>

definition io_sys :: sys where
  "io_sys = (upd_proc 0 (p_cr3_update (\<lambda>_. 0x1000)) (init_proc boot_sys))\<lparr>mem := two_pages\<rparr>"

definition io_request :: "u32 \<Rightarrow> message" where
  "io_request ty = zero_message\<lparr>m_type := ty, m_w1 := 0xFFE, m_w2 := 0x600, m_w3 := 3\<rparr>"

lemma io_request [simp]: "m_type (io_request ty) = ty" "m_src (io_request ty) = int 0"
  "dev_buf (io_request ty) = 0xFFE" "dev_offset (io_request ty) = 0x600" "dev_length (io_request ty) = 3"
  by (simp_all add: io_request_def zero_message_def dev_buf_def dev_offset_def dev_length_def)

lemma io_sys: "unread io_sys 0 0 []" "p_cr3 (proc io_sys 0) = 0x1000" "mem io_sys = two_pages"
proof -
  have b: "box (init_proc boot_sys) 0 [] [] [] 0" by (rule boot_box)
  then have l: "0 < length (Proc (init_proc boot_sys))" by (simp add: box_def)
  then show "unread io_sys 0 0 []"
    unfolding unread_def io_sys_def using b
    by (intro conjI exI [of _ "[]"]) (auto simp: box_def slot_msgs_def mbox_def)
  show "p_cr3 (proc io_sys 0) = 0x1000" "mem io_sys = two_pages" using l by (simp_all add: io_sys_def)
qed

lemma io_apart: "\<forall>x \<in> two_pages_at ` {..<3} \<union> word_bytes (kphys 0x300). x < 0x1000 \<or> 0x3000 \<le> x"
  by (auto simp: two_pages_at_def less_3 word_bytes_def kphys_def in_kernel_def KOFFSET_def)

lemma io_buffer: "inj_on two_pages_at {..<3}" "\<forall>i < 3. two_pages_at i \<notin> word_bytes (kphys 0x300)"
  by (auto simp: two_pages_at_def less_3 word_bytes_def kphys_def in_kernel_def KOFFSET_def inj_on_def)



theorem writeback_flushes_witness:
  "\<exists>cache e. ide_message sample_drive 0x300 (zero_message\<lparr>m_src := MSG_HARD_INTR, m_type := IDE_WRITEBACK\<rparr>)
       ((one_written, sevens), io_sys) = Some (Inr ((cache, e), io_sys)) \<and>
     sd_disk e = (\<lambda>n. if n = 3 then replicate 512 9 else replicate 512 7) \<and> \<not> sc_dirty (cache ! 3)"
proof -
  let ?m = "zero_message\<lparr>m_src := MSG_HARD_INTR, m_type := IDE_WRITEBACK\<rparr>"
  have m: "m_src ?m = MSG_HARD_INTR" "m_type ?m = IDE_WRITEBACK" by simp_all
  from writeback_flushes [OF sample_ata sample_state m, of "0x300" io_sys]
  obtain cache e where w: "ide_message sample_drive 0x300 ?m ((one_written, sevens), io_sys) =
      Some (Inr ((cache, e), io_sys))" "cache_ok cache (sd_disk e)" "sd_disk e = view one_written (sd_disk sevens)"
      "\<forall>c \<in> set cache. \<not> sc_dirty c"
    by blast
  have "\<not> sc_dirty (cache ! 3)" using w(2,4) by (simp add: cache_ok_def)
  then show ?thesis using w(1,3) one_written_view by (intro exI [of _ cache] exI [of _ e]) auto
qed

end
