(* ===== verification/Interrupts.thy ===== *)
theory Interrupts
  imports Timer Server
begin

text \<open>
  Interrupts (kernel/irq/irq_handle.c): the lists of routines per interrupt request, the dispatch
  of a hardware interrupt to them, and the system call handler behind vector 0x80.

  A system call is a message to a server and the wait for its answer. The handler stops in the
  middle of \<open>receive\<close> when the process falls asleep, and goes on with \<open>int_resume\<close>.
\<close>

section \<open>Routines of an interrupt request\<close>

definition NR_IRQ :: nat where "NR_IRQ = 256"
definition NR_IRQ_HANDLE :: nat where "NR_IRQ_HANDLE = 32"

record 'r IRQ_t =
  routine :: 'r
  iq_next :: "nat option"

record 'r irq_table =
  handle_pool :: "'r IRQ_t list"
  handles :: "nat option list"
  handle_count :: nat

definition init_handle :: "'r irq_table \<Rightarrow> 'r irq_table" where
  "init_handle t = t\<lparr>handles := fold (\<lambda>i. upd_at i (\<lambda>_. None)) [0..<NR_IRQ] (handles t)\<rparr>"

definition add_irq_handle :: "nat \<Rightarrow> 'r \<Rightarrow> 'r irq_table \<Rightarrow> error + 'r irq_table" where
  "add_irq_handle irq func t =
     (if handle_count t > NR_IRQ_HANDLE then panic ''Too many irq registrations!''
      else
        let ptr = handle_count t; t = t\<lparr>handle_count := handle_count t + 1\<rparr> in
        bindE (load_at ''handles[irq]'' (handles t) irq) (\<lambda>first.
        bindE (store_at ''handle_pool[]'' (handle_pool t) ptr \<lparr>routine = func, iq_next = first\<rparr>) (\<lambda>pool.
        Inr (t\<lparr>handle_pool := pool, handles := (handles t)[irq := Some ptr]\<rparr>))))"

text \<open>The loop over the list; \<open>run\<close> is what a routine does to the state.\<close>

partial_function (option) call_handlers ::
    "nat option \<Rightarrow> 'r IRQ_t list \<Rightarrow> ('r \<Rightarrow> 's \<Rightarrow> error + 's) \<Rightarrow> 's \<Rightarrow> (error + 's) option" where
  "call_handlers f pool run s =
     (case f of
        None \<Rightarrow> Some (Inr s)
      | Some p \<Rightarrow>
          (case run (routine (pool ! p)) s of
             Inl e \<Rightarrow> Some (Inl e)
           | Inr s \<Rightarrow> call_handlers (iq_next (pool ! p)) pool run s))"

definition irq_handle :: "'r irq_table \<Rightarrow> ('r \<Rightarrow> 's \<Rightarrow> error + 's) \<Rightarrow> int \<Rightarrow> 's \<Rightarrow> (error + 's) option" where
  "irq_handle t run irq s =
     (if irq < 0 then Some (panic ''Unhandled exception!'')
      else if irq < 1000 then Some (panic ''Unexpected exception #%d'')
      else bindR (Some (load_at ''handles[irq_id]'' (handles t) (nat (irq - 1000)))) (\<lambda>f.
             call_handlers f (handle_pool t) run s))"

section \<open>The routines run, last registered first\<close>

text \<open>A list in the pool that starts at \<open>f\<close>, with its routines.\<close>

inductive routines :: "'r IRQ_t list \<Rightarrow> nat option \<Rightarrow> 'r list \<Rightarrow> bool" for pool where
  routines_Nil: "routines pool None []"
| routines_Cons: "p < length pool \<Longrightarrow> routines pool (iq_next (pool ! p)) rs \<Longrightarrow>
    routines pool (Some p) (routine (pool ! p) # rs)"

inductive_simps routines_None [simp]: "routines pool None rs"
inductive_simps routines_Some: "routines pool (Some p) rs"

lemma call_handlers_routines:
  "routines pool f rs \<Longrightarrow> call_handlers f pool run s = Some (forE run rs s)"
proof (induction arbitrary: s rule: routines.induct)
  case routines_Nil
  then show ?case by (subst call_handlers.simps) simp
next
  case (routines_Cons p rs)
  then show ?case by (subst call_handlers.simps) (simp split: sum.split)
qed

text \<open>Every entry of the pool that is in use leads to smaller entries only.\<close>

definition irq_ok :: "'r irq_table \<Rightarrow> bool" where
  "irq_ok t \<longleftrightarrow> length (handle_pool t) = NR_IRQ_HANDLE \<and> length (handles t) = NR_IRQ \<and>
     handle_count t \<le> NR_IRQ_HANDLE \<and>
     (\<forall>f \<in> set (handles t). \<forall>p. f = Some p \<longrightarrow> p < handle_count t) \<and>
     (\<forall>i < handle_count t. \<forall>p. iq_next (handle_pool t ! i) = Some p \<longrightarrow> p < i)"

lemma routines_extend:
  assumes "routines pool f rs" "\<forall>p. f = Some p \<longrightarrow> p < n" "\<forall>i < n. \<forall>p. iq_next (pool ! i) = Some p \<longrightarrow> p < i"
  shows "routines (pool[n := x]) f rs"
  using assms(1,2)
proof (induction rule: routines.induct)
  case routines_Nil
  then show ?case by simp
next
  case (routines_Cons p rs)
  have p: "p < n" using routines_Cons.prems by simp
  then have at: "pool[n := x] ! p = pool ! p" by simp
  have "\<forall>q. iq_next (pool ! p) = Some q \<longrightarrow> q < n" using assms(3) p by fastforce
  then have "routines (pool[n := x]) (iq_next (pool[n := x] ! p)) rs" using routines_Cons.IH at by simp
  from routines.routines_Cons [OF _ this] routines_Cons.hyps(1) at show ?case by simp
qed

fun register :: "(nat \<times> 'r) list \<Rightarrow> 'r irq_table \<Rightarrow> error + 'r irq_table" where
  "register [] t = Inr t"
| "register ((irq, func) # regs) t = bindE (add_irq_handle irq func t) (register regs)"

definition registered :: "(nat \<times> 'r) list \<Rightarrow> nat \<Rightarrow> 'r list" where
  "registered regs irq = rev (map snd (filter (\<lambda>r. fst r = irq) regs))"

lemma add_irq_handle_step:
  assumes ok: "irq_ok t" and room: "handle_count t < NR_IRQ_HANDLE" and irq: "irq < NR_IRQ"
    and r: "\<forall>j < NR_IRQ. routines (handle_pool t) (handles t ! j) (rs j)"
  shows "\<exists>t'. add_irq_handle irq func t = Inr t' \<and> irq_ok t' \<and> handle_count t' = Suc (handle_count t) \<and>
    (\<forall>j < NR_IRQ. routines (handle_pool t') (handles t' ! j) (if j = irq then func # rs j else rs j))"
proof -
  let ?n = "handle_count t" and ?new = "\<lparr>routine = func, iq_next = handles t ! irq\<rparr>"
  let ?t = "t\<lparr>handle_count := Suc ?n, handle_pool := (handle_pool t)[?n := ?new], handles := (handles t)[irq := Some ?n]\<rparr>"
  have len: "length (handle_pool t) = NR_IRQ_HANDLE" "length (handles t) = NR_IRQ" using ok by (simp_all add: irq_ok_def)
  have lt: "\<forall>p. handles t ! j = Some p \<longrightarrow> p < ?n" if "j < NR_IRQ" for j
    using ok that len by (metis irq_ok_def nth_mem)
  have down: "\<forall>i < ?n. \<forall>p. iq_next (handle_pool t ! i) = Some p \<longrightarrow> p < i" using ok by (simp add: irq_ok_def)
  have run: "add_irq_handle irq func t = Inr ?t"
    using room irq len by (simp add: add_irq_handle_def Let_def)
  have down': "\<forall>i < Suc ?n. \<forall>p. iq_next ((handle_pool t)[?n := ?new] ! i) = Some p \<longrightarrow> p < i"
    using down lt [OF irq] len room by (auto simp: less_Suc_eq nth_list_update)
  have hs: "\<forall>f \<in> set ((handles t)[irq := Some ?n]). \<forall>p. f = Some p \<longrightarrow> p < Suc ?n"
    using lt irq len by (auto simp: in_set_conv_nth nth_list_update less_Suc_eq split: if_splits)
  have ok': "irq_ok ?t" using down' hs len room by (simp add: irq_ok_def)
  have "routines ((handle_pool t)[?n := ?new]) ((handles t)[irq := Some ?n] ! j) (if j = irq then func # rs j else rs j)"
    if j: "j < NR_IRQ" for j
  proof -
    note ext = routines_extend [OF r [rule_format, OF j] lt [OF j] down, of ?new]
    show ?thesis
    proof (cases "j = irq")
      case True
      then show ?thesis using ext len room irq by (simp add: routines_Some)
    next
      case False
      then show ?thesis using ext by simp
    qed
  qed
  then show ?thesis using run ok' by (intro exI [of _ ?t]) simp
qed

lemma register_routines:
  assumes "irq_ok t" "handle_count t + length regs \<le> NR_IRQ_HANDLE" "\<forall>r \<in> set regs. fst r < NR_IRQ"
    "\<forall>j < NR_IRQ. routines (handle_pool t) (handles t ! j) (rs j)"
  shows "\<exists>t'. register regs t = Inr t' \<and> irq_ok t' \<and> handle_count t' = handle_count t + length regs \<and>
    (\<forall>j < NR_IRQ. routines (handle_pool t') (handles t' ! j) (registered regs j @ rs j))"
  using assms
proof (induction regs arbitrary: t rs)
  case Nil
  then show ?case by (simp add: registered_def)
next
  case (Cons r regs)
  obtain irq func where r: "r = (irq, func)" by fastforce
  have "handle_count t < NR_IRQ_HANDLE" "irq < NR_IRQ" using Cons.prems(2,3) r by auto
  from add_irq_handle_step [OF Cons.prems(1) this Cons.prems(4), of func] obtain t1 where
    t1: "add_irq_handle irq func t = Inr t1" "irq_ok t1" "handle_count t1 = Suc (handle_count t)"
      "\<forall>j < NR_IRQ. routines (handle_pool t1) (handles t1 ! j) (if j = irq then func # rs j else rs j)"
    by blast
  have "handle_count t1 + length regs \<le> NR_IRQ_HANDLE" "\<forall>r \<in> set regs. fst r < NR_IRQ"
    using Cons.prems(2,3) t1(3) by simp_all
  from Cons.IH [OF t1(2) this t1(4)] obtain t' where
    t': "register regs t1 = Inr t'" "irq_ok t'" "handle_count t' = handle_count t1 + length regs"
      "\<forall>j < NR_IRQ. routines (handle_pool t') (handles t' ! j) (registered regs j @ (if j = irq then func # rs j else rs j))"
    by blast
  have "registered (r # regs) j @ rs j = registered regs j @ (if j = irq then func # rs j else rs j)" for j
    by (simp add: registered_def r)
  then show ?case using t' t1 r by (intro exI [of _ t']) simp
qed

lemma fold_none: "n \<le> length xs \<Longrightarrow> fold (\<lambda>i. upd_at i (\<lambda>_. None)) [0..<n] xs = replicate n None @ drop n xs"
proof (induction n)
  case 0
  then show ?case by simp
next
  case (Suc n)
  then have d: "drop n xs = xs ! n # drop (Suc n) xs" by (simp add: Cons_nth_drop_Suc)
  have "(replicate n None @ xs ! n # drop (Suc n) xs)[n := None] = replicate n None @ None # drop (Suc n) xs"
    using list_update_length [of "replicate n None"] by simp
  then show ?case using Suc d by (simp add: upd_at_def replicate_append_same flip: append_assoc)
qed

lemma init_handle_empty:
  assumes "length (handle_pool t) = NR_IRQ_HANDLE" "length (handles t) = NR_IRQ" "handle_count t = 0"
  shows "irq_ok (init_handle t)" "\<forall>j < NR_IRQ. routines (handle_pool (init_handle t)) (handles (init_handle t) ! j) []"
    "handle_count (init_handle t) = 0"
proof -
  have "handles (init_handle t) = replicate NR_IRQ None"
    using fold_none [of NR_IRQ "handles t"] assms by (simp add: init_handle_def)
  then show "irq_ok (init_handle t)" "\<forall>j < NR_IRQ. routines (handle_pool (init_handle t)) (handles (init_handle t) ! j) []"
    "handle_count (init_handle t) = 0"
    using assms by (simp_all add: irq_ok_def init_handle_def)
qed

text \<open>C28: after any registrations that fit the pool, an interrupt runs exactly the routines
  registered for its request, the last registered first, each on the state the previous one left,
  and returns (or stops at the first routine that stops the kernel); the walk through the list ends
  because every entry leads to an older one.\<close>

theorem irq_handle_runs_registered:
  assumes "length (handle_pool t) = NR_IRQ_HANDLE" "length (handles t) = NR_IRQ" "handle_count t = 0"
    and "length regs \<le> NR_IRQ_HANDLE" "\<forall>r \<in> set regs. fst r < NR_IRQ" "irq < NR_IRQ"
  shows "\<exists>t'. register regs (init_handle t) = Inr t' \<and>
    irq_handle t' run (1000 + int irq) s = Some (forE run (registered regs irq) s)"
proof -
  note i = init_handle_empty [OF assms(1-3)]
  have "handle_count (init_handle t) + length regs \<le> NR_IRQ_HANDLE" using i(3) assms(4) by simp
  from register_routines [OF i(1) this assms(5) i(2)] obtain t' where
    t': "register regs (init_handle t) = Inr t'" "irq_ok t'"
      "routines (handle_pool t') (handles t' ! irq) (registered regs irq)"
    using assms(6) by auto
  have "irq < length (handles t')" using t'(2) assms(6) by (simp add: irq_ok_def)
  then show ?thesis using t' call_handlers_routines [OF t'(3), of run s] by (simp add: irq_handle_def)
qed

text \<open>One registration too many is not refused but stored past the end of the pool: the guard
  of \<open>add_irq_handle\<close> lets 33 entries through.\<close>

theorem add_irq_handle_overflows:
  assumes "irq_ok t" "handle_count t = NR_IRQ_HANDLE" "irq < NR_IRQ"
  shows "add_irq_handle irq func t = Inl (Fault ''handle_pool[]'')"
  using assms by (simp add: add_irq_handle_def irq_ok_def)

text \<open>The routines of the kernel in the order of \<open>init_drivers\<close>.\<close>

datatype routine_name = Timer_intr | Keyboard_intr | Ide_intr | Time_intr

definition driver_routines :: "(nat \<times> routine_name) list" where
  "driver_routines = [(0, Timer_intr), (1, Keyboard_intr), (14, Ide_intr), (0, Time_intr)]"

definition boot_irq_table :: "routine_name irq_table" where
  "boot_irq_table = \<lparr>handle_pool = replicate NR_IRQ_HANDLE \<lparr>routine = Timer_intr, iq_next = None\<rparr>,
     handles = replicate NR_IRQ None, handle_count = 0\<rparr>"

theorem irq_handle_runs_registered_witness:
  "\<exists>t. register driver_routines (init_handle boot_irq_table) = Inr t \<and>
     irq_handle t (\<lambda>r log. Inr (log @ [r])) 1000 [] = Some (Inr [Time_intr, Timer_intr])"
proof -
  have "length (handle_pool boot_irq_table) = NR_IRQ_HANDLE" "length (handles boot_irq_table) = NR_IRQ"
    "handle_count boot_irq_table = 0" "length driver_routines \<le> NR_IRQ_HANDLE"
    "\<forall>r \<in> set driver_routines. fst r < NR_IRQ" "0 < NR_IRQ"
    by (simp_all add: boot_irq_table_def driver_routines_def NR_IRQ_HANDLE_def NR_IRQ_def)
  from irq_handle_runs_registered [OF this, of "\<lambda>r log. Inr (log @ [r])" "[]"]
  show ?thesis by (simp add: driver_routines_def registered_def)
qed

theorem add_irq_handle_overflows_witness:
  "\<exists>t. register (replicate 32 (0, Timer_intr)) (init_handle boot_irq_table) = Inr t \<and>
     add_irq_handle 0 Ide_intr t = Inl (Fault ''handle_pool[]'')"
proof -
  have b: "length (handle_pool boot_irq_table) = NR_IRQ_HANDLE" "length (handles boot_irq_table) = NR_IRQ"
    "handle_count boot_irq_table = 0" by (simp_all add: boot_irq_table_def)
  note i = init_handle_empty [OF b]
  have "handle_count (init_handle boot_irq_table) + length (replicate 32 (0 :: nat, Timer_intr)) \<le> NR_IRQ_HANDLE"
    "\<forall>r \<in> set (replicate 32 (0 :: nat, Timer_intr)). fst r < NR_IRQ"
    using i(3) by (simp_all add: NR_IRQ_HANDLE_def NR_IRQ_def)
  from register_routines [OF i(1) this i(2)] obtain t where
    "register (replicate 32 (0, Timer_intr)) (init_handle boot_irq_table) = Inr t" "irq_ok t" "handle_count t = 32"
    using i(3) by auto
  moreover from this have "add_irq_handle 0 Ide_intr t = Inl (Fault ''handle_pool[]'')"
    by (intro add_irq_handle_overflows) (simp_all add: NR_IRQ_HANDLE_def NR_IRQ_def)
  ultimately show ?thesis by blast
qed

section \<open>System calls\<close>

text \<open>The processes of the servers (kernel/main.c) and the numbers of the calls.\<close>

definition TIMER :: int where "TIMER = 1"
definition TTY :: int where "TTY = 2"
definition IDE :: int where "IDE = 3"
definition FM :: int where "FM = 4"
definition MM :: int where "MM = 5"
definition PM :: int where "PM = 6"

definition INT80_SCHEDULE :: u32 where "INT80_SCHEDULE = 0"
definition INT80_READ :: u32 where "INT80_READ = 1"
definition INT80_WRITE :: u32 where "INT80_WRITE = 2"
definition INT80_SLEEP :: u32 where "INT80_SLEEP = 3"
definition INT80_EXIT :: u32 where "INT80_EXIT = 4"
definition INT80_GETPID :: u32 where "INT80_GETPID = 5"
definition INT80_WAITPID :: u32 where "INT80_WAITPID = 6"
definition INT80_FORK :: u32 where "INT80_FORK = 7"
definition INT80_EXEC :: u32 where "INT80_EXEC = 8"

definition PM_LOAD_PROC :: u32 where "PM_LOAD_PROC = 0xC0"
definition PM_EXIT_PROC :: u32 where "PM_EXIT_PROC = 0xC1"
definition PM_WAITPID :: u32 where "PM_WAITPID = 0xC2"
definition PM_FORK :: u32 where "PM_FORK = 0xC3"
definition PM_EXEC :: u32 where "PM_EXEC = 0xC4"

lemmas int80_numbers = INT80_SCHEDULE_def INT80_READ_def INT80_WRITE_def INT80_SLEEP_def
  INT80_EXIT_def INT80_GETPID_def INT80_WAITPID_def INT80_FORK_def INT80_EXEC_def

record TrapFrame =
  tf_edi :: u32
  tf_esi :: u32
  tf_ebp :: u32
  tf_xxx :: u32
  tf_ebx :: u32
  tf_edx :: u32
  tf_ecx :: u32
  tf_eax :: u32
  tf_irq :: int

text \<open>The request a call puts into the shared message \<open>m\<close>, and its receiver.\<close>

definition int80_request :: "int \<Rightarrow> TrapFrame \<Rightarrow> message \<Rightarrow> (int \<times> message) option" where
  "int80_request pid tf m =
     (if tf_eax tf = INT80_READ then
        Some (TTY, m\<lparr>m_type := DEV_READ, m_w0 := of_int pid, m_w1 := tf_ebx tf, m_w3 := tf_ecx tf\<rparr>)
      else if tf_eax tf = INT80_WRITE then
        Some (TTY, m\<lparr>m_type := DEV_WRITE, m_w0 := of_int pid, m_w1 := tf_ebx tf, m_w3 := tf_ecx tf\<rparr>)
      else if tf_eax tf = INT80_SLEEP then
        Some (TIMER, m\<lparr>m_type := TIMER_SET_ALRM, m_w0 := of_int pid, m_w1 := tf_ebx tf\<rparr>)
      else if tf_eax tf = INT80_EXIT then
        Some (PM, m\<lparr>m_type := PM_EXIT_PROC, m_w1 := of_int pid, m_w2 := tf_ebx tf\<rparr>)
      else if tf_eax tf = INT80_WAITPID then
        Some (PM, m\<lparr>m_type := PM_WAITPID, m_w1 := of_int pid, m_w2 := tf_ebx tf\<rparr>)
      else if tf_eax tf = INT80_FORK then
        Some (PM, m\<lparr>m_type := PM_FORK, m_w1 := of_int pid\<rparr>)
      else if tf_eax tf = INT80_EXEC then
        Some (PM, m\<lparr>m_type := PM_EXEC, m_w0 := tf_ebx tf, m_w1 := of_int pid, m_w2 := tf_ecx tf\<rparr>)
      else None)"

text \<open>What the handler does with the answer in \<open>m\<close>.\<close>

definition int80_return :: "TrapFrame \<Rightarrow> message \<Rightarrow> error + TrapFrame" where
  "int80_return tf m =
     (if tf_eax tf = INT80_READ \<or> tf_eax tf = INT80_WRITE then Inr (tf\<lparr>tf_eax := int_p1 m\<rparr>)
      else if tf_eax tf = INT80_SLEEP then Inr (tf\<lparr>tf_eax := 0\<rparr>)
      else if tf_eax tf = INT80_EXIT then panic ''Impossible return to INT80_EXIT!!!''
      else if tf_eax tf = INT80_EXEC then panic ''Impossible return to INT80_EXEC!!!''
      else Inr (tf\<lparr>tf_eax := pm_p1 m\<rparr>))"

text \<open>The handler is back with its frame, or the process sleeps in \<open>receive\<close>. The message is the
  static variable \<open>m\<close> of \<open>int_handle\<close>.\<close>

datatype int80 = Back TrapFrame message sys | Waiting message sys

fun int80_received :: "TrapFrame \<Rightarrow> message \<Rightarrow> outcome \<Rightarrow> error + int80" where
  "int80_received tf m (Received r s) = bindE (int80_return tf r) (\<lambda>tf. Inr (Back tf r s))"
| "int80_received tf m (Asleep s) = Inr (Waiting m s)"

definition int80_announce :: "TrapFrame \<Rightarrow> sys \<Rightarrow> error + sys" where
  "int80_announce tf s =
     (if tf_eax tf = INT80_EXIT then
        bindE (green_printk ''[OK!] '' [] (con s)) (\<lambda>c.
        bindE (red_printk ''Enter Int $0x80 Exiting System Call\<newline>'' [] c) (\<lambda>c. Inr (s\<lparr>con := c\<rparr>)))
      else Inr s)"

definition int_handle :: "TrapFrame \<Rightarrow> message \<Rightarrow> sys \<Rightarrow> (error + int80) option" where
  "int_handle tf m s =
     (if tf_eax tf = INT80_SCHEDULE then Some (Inr (Back tf m (s\<lparr>need_sched := True\<rparr>)))
      else if tf_eax tf = INT80_GETPID then
        Some (Inr (Back (tf\<lparr>tf_eax := of_int (p_pid (proc s (current_pcb s)))\<rparr>) m s))
      else
        (case int80_request (p_pid (proc s (current_pcb s))) tf m of
           None \<Rightarrow> Some (panic ''Unknown int $0x80!'')
         | Some (server, m) \<Rightarrow>
             bindR (Some (bindE (int80_announce tf s) (send server m))) (\<lambda>s.
             bindR (receive server s) (\<lambda>out. Some (int80_received tf m out)))))"

definition int_resume :: "TrapFrame \<Rightarrow> message \<Rightarrow> sys \<Rightarrow> (error + int80) option" where
  "int_resume tf m s =
     (case int80_request (p_pid (proc s (current_pcb s))) tf m of
        None \<Rightarrow> Some (panic ''Unknown int $0x80!'')
      | Some (server, _) \<Rightarrow> bindR (receive_resume server s) (\<lambda>out. Some (int80_received tf m out)))"

lemma deliver_none:
  assumes "\<forall>m \<in> set (is @ rs). m_src m \<noteq> pid" "pid \<noteq> ANY"
  shows "deliver pid rs is = (None, [], is @ rs)"
proof -
  have "dropWhile (\<lambda>m. \<not> accepts pid m) is = []" "dropWhile (\<lambda>m. \<not> accepts pid m) rs = []"
    using assms by (auto simp: accepts_def dropWhile_eq_Nil_conv)
  then show ?thesis by (simp only: deliver_def list.case)
qed

text \<open>C29: a system call of a server posts exactly one request to that server, with the caller's
  number and arguments, and then the caller sleeps until the answer comes, with its own messages
  kept in order; nothing else changes for the other processes.\<close>

theorem int_handle_posts_request:
  assumes b: "box s c R I [] (length R)" "c = current_pcb s"
    and foreign: "\<forall>r \<in> set (slot_msgs (proc s c) (I @ R)). m_src r \<noteq> int t"
    and req: "int80_request (int c) tf m = Some (int t, req)" "tf_eax tf \<noteq> INT80_EXIT"
    and u: "unread s t n ms" "n < Max_Message_Pool" "t \<noteq> c"
  shows "\<exists>s' I'. int_handle tf m s = Some (Inr (Waiting req s')) \<and> asleep_box s' c I' \<and>
    slot_msgs (proc s' c) I' = slot_msgs (proc s c) (I @ R) \<and>
    unread s' t (Suc n) (ms @ [stamped s (int t) req]) \<and>
    (\<forall>j. j \<noteq> c \<longrightarrow> j \<noteq> t \<longrightarrow> proc s' j = proc s j)"
proof -
  obtain s1 where s1: "send (int t) req s = Inr s1" "unread s1 t (Suc n) (ms @ [stamped s (int t) req])"
    "current_pcb s1 = current_pcb s" "length (Proc s1) = length (Proc s)" "\<forall>j. j \<noteq> t \<longrightarrow> proc s1 j = proc s j"
    using send_unread [OF u(1,2), of req] by blast
  have c1: "proc s1 c = proc s c" using s1(5) u(3) by simp
  have "box s1 (current_pcb s1) R I [] (length R)" using b c1 s1(3,4) by (simp add: box_def)
  note rs = receive_spec [OF this, of "int t"]
  have d: "deliver (int t) (slot_msgs (proc s c) R) (slot_msgs (proc s c) I) =
      (None, [], slot_msgs (proc s c) I @ slot_msgs (proc s c) R)"
    using foreign by (intro deliver_none) (auto simp: slot_msgs_def ANY_def)
  from rs have "delivers s1 (receive (int t) s1) (None, [], slot_msgs (proc s c) I @ slot_msgs (proc s c) R)"
    using d b(2) s1(3) c1 by simp
  then obtain s' I' where s': "receive (int t) s1 = Some (Inr (Asleep s'))" "asleep_box s' c I'"
    "slot_msgs (proc s' c) I' = slot_msgs (proc s c) I @ slot_msgs (proc s c) R"
    "\<forall>j. j \<noteq> c \<longrightarrow> proc s' j = proc s1 j" "current_pcb s' = c" "length (Proc s') = length (Proc s1)"
    using b(2) s1(3) unfolding delivers_def Let_def by auto
  have eax: "tf_eax tf \<noteq> INT80_SCHEDULE" "tf_eax tf \<noteq> INT80_GETPID"
    using req(1) by (auto simp: int80_request_def int80_numbers split: if_splits)
  have "p_pid (proc s (current_pcb s)) = int c" using b by (simp add: box_def)
  then have "int_handle tf m s = Some (Inr (Waiting req s'))"
    using eax req s1(1) s'(1) by (simp add: int_handle_def int80_announce_def)
  moreover have "unread s' t (Suc n) (ms @ [stamped s (int t) req])"
    using unread_proc_cong [OF s1(2)] s'(4,6) u(3) by simp
  ultimately show ?thesis using s' s1(5) by (intro exI [of _ s'] exI [of _ I']) (auto simp: slot_msgs_def)
qed

lemma int80_request_server:
  "int80_request pid tf m = Some (t, req) \<Longrightarrow> \<exists>req'. int80_request pid tf m' = Some (t, req')"
  by (auto simp: int80_request_def split: if_splits)

definition int80_result :: "TrapFrame \<Rightarrow> message \<Rightarrow> u32" where
  "int80_result tf r =
     (if tf_eax tf \<in> {INT80_READ, INT80_WRITE} then int_p1 r else if tf_eax tf = INT80_SLEEP then 0 else pm_p1 r)"

text \<open>C30: the answer of the server wakes the caller, and when the caller runs again the handler
  returns to it with the result of the answer in \<open>eax\<close> and every other register as it was, whatever
  other messages wait and whatever other processes did to the shared message in between.\<close>

theorem int_handle_returns_answer:
  assumes a: "asleep_box s c I" "length I < Max_Message_Pool"
    and foreign: "\<forall>m \<in> set (slot_msgs (proc s c) I). m_src m \<noteq> int t"
    and req: "int80_request (int c) tf m = Some (int t, req)" "tf_eax tf \<notin> {INT80_EXIT, INT80_EXEC}"
    and server: "p_pid (proc s (current_pcb s)) = int t" "enter_interrupt (cpu s) \<noteq> 1"
  shows "\<exists>s1. send (int c) r s = Inr s1 \<and> p_status (proc s1 c) = STATUS_WAITING \<and>
    (\<forall>s2 m2. current_pcb s2 = c \<and> length (Proc s2) = length (Proc s1) \<and>
        proc s2 c = (proc s1 c)\<lparr>p_status := STATUS_RUNNING\<rparr> \<longrightarrow>
      (\<exists>s3. int_resume tf m2 s2 = Some (Inr (Back (tf\<lparr>tf_eax := int80_result tf r\<rparr>) (stamped s (int c) r) s3))))"
proof -
  have unw: "list_all (\<lambda>m. \<not> accepts (int t) m) (slot_msgs (proc s c) I)"
    using foreign by (auto simp: list_all_iff accepts_def ANY_def)
  from send_wakes_spec [OF a unw, of r] obtain s1 where s1:
    "send (int c) r s = Inr s1" "p_status (proc s1 c) = STATUS_WAITING"
    "\<And>s2. current_pcb s2 = c \<Longrightarrow> length (Proc s2) = length (Proc s1) \<Longrightarrow>
        proc s2 c = (proc s1 c)\<lparr>p_status := STATUS_RUNNING\<rparr> \<Longrightarrow>
        delivers s2 (receive_resume (int t) s2) (deliver (int t) [stamped s (int c) r] (slot_msgs (proc s c) I))"
    by blast
  have src: "m_src (stamped s (int c) r) = int t" using server by (simp add: stamped_def)
  have dw: "dropWhile (\<lambda>m. \<not> accepts (int t) m) (slot_msgs (proc s c) I) = []"
    using unw by (simp add: dropWhile_eq_Nil_conv list_all_iff)
  have d: "deliver (int t) [stamped s (int c) r] (slot_msgs (proc s c) I) = (Some (stamped s (int c) r), [], slot_msgs (proc s c) I)"
    using src by (simp add: deliver_def dw) (simp add: accepts_def)
  have "\<exists>s3. int_resume tf m2 s2 = Some (Inr (Back (tf\<lparr>tf_eax := int80_result tf r\<rparr>) (stamped s (int c) r) s3))"
    if s2: "current_pcb s2 = c" "length (Proc s2) = length (Proc s1)" "proc s2 c = (proc s1 c)\<lparr>p_status := STATUS_RUNNING\<rparr>"
    for s2 m2
  proof -
    from s1(3) [OF s2] d obtain s3 R I' where s3: "receive_resume (int t) s2 = Some (Inr (Received (stamped s (int c) r) s3))"
      "box s3 c R I' [] (length R)" "mail_frame c s2 s3"
      unfolding delivers_def Let_def s2(1) by auto
    have pid: "p_pid (proc s2 c) = int c"
      using mail_frame_pid [OF s3(3)] s3(2) by (simp add: box_def)
    obtain req' where "int80_request (int c) tf m2 = Some (int t, req')"
      using int80_request_server [OF req(1)] by blast
    then have "int_resume tf m2 s2 = Some (int80_received tf m2 (Received (stamped s (int c) r) s3))"
      using s3(1) pid s2(1) by (simp add: int_resume_def)
    moreover have "int80_return tf (stamped s (int c) r) = Inr (tf\<lparr>tf_eax := int80_result tf r\<rparr>)"
      using req by (auto simp: int80_return_def int80_result_def stamped_def int_p1_def pm_p1_def)
    ultimately show ?thesis by simp
  qed
  then show ?thesis using s1(1,2) by blast
qed

section \<open>The shared message\<close>

text \<open>The message of \<open>int_handle\<close> is one static variable for all processes, and system calls are
  not run with interrupts off (\<open>vecsys\<close> is a trap gate). The steps of concurrent calls on it: a
  call fills in its request, its answer is copied in, and the result is read.\<close>

datatype call = Calling TrapFrame | Asking TrapFrame message | Answered TrapFrame | Returned "error + TrapFrame"

inductive call_step :: "(nat \<Rightarrow> int) \<Rightarrow> message \<times> (nat \<Rightarrow> call) \<Rightarrow> message \<times> (nat \<Rightarrow> call) \<Rightarrow> bool" for pid where
  request: "ps i = Calling tf \<Longrightarrow> int80_request (pid i) tf m = Some (server, m') \<Longrightarrow>
    call_step pid (m, ps) (m', ps(i := Asking tf m'))"
| answer: "ps i = Asking tf q \<Longrightarrow> call_step pid (m, ps) (r, ps(i := Answered tf))"
| return: "ps i = Answered tf \<Longrightarrow> call_step pid (m, ps) (m, ps(i := Returned (int80_return tf m)))"

inductive_cases call_stepE: "call_step pid (m, ps) (m', ps')"

text \<open>Two processes that read from the terminal at the same time: there is an order of the steps
  in which the first returns, whatever the answer it was given, with the process number of the
  second as the count of bytes read.\<close>

theorem shared_message_mixes_results:
  assumes "ps i = Calling tf" "ps j = Calling tf'" "i \<noteq> j"
    and "tf_eax tf = INT80_READ" "tf_eax tf' = INT80_READ"
  shows "\<exists>ps' m1 m2. call_step pid (m, ps) (m1, ps(i := Asking tf m1)) \<and>
    call_step pid (m1, ps(i := Asking tf m1)) (r, ps(i := Answered tf)) \<and>
    (call_step pid)\<^sup>*\<^sup>* (r, ps(i := Answered tf)) (m2, ps') \<and>
    ps' i = Returned (Inr (tf\<lparr>tf_eax := of_int (pid j)\<rparr>))"
proof -
  let ?q = "\<lambda>k tf m. m\<lparr>m_type := DEV_READ, m_w0 := of_int (pid k), m_w1 := tf_ebx tf, m_w3 := tf_ecx tf\<rparr>"
  have q: "int80_request (pid k) u m = Some (TTY, ?q k u m)" if "tf_eax u = INT80_READ" for k u m
    using that by (simp add: int80_request_def)
  let ?m1 = "?q i tf m" and ?m2 = "?q j tf' r"
  let ?ps1 = "ps(i := Asking tf ?m1)" and ?ps2 = "ps(i := Answered tf)"
  let ?ps3 = "?ps2(j := Asking tf' ?m2)"
  have 1: "call_step pid (m, ps) (?m1, ?ps1)" using call_step.request [of ps i tf pid m] assms q by simp
  have 2: "call_step pid (?m1, ?ps1) (r, ?ps2)" using call_step.answer [of ?ps1 i tf ?m1 pid ?m1 r] by simp
  have 3: "call_step pid (r, ?ps2) (?m2, ?ps3)" using call_step.request [of ?ps2 j tf' pid r] assms q by simp
  have 4: "call_step pid (?m2, ?ps3) (?m2, ?ps3(i := Returned (int80_return tf ?m2)))"
    using assms(3) by (intro call_step.return) simp
  have "int80_return tf ?m2 = Inr (tf\<lparr>tf_eax := of_int (pid j)\<rparr>)"
    using assms(4) by (simp add: int80_return_def int_p1_def)
  moreover have "(call_step pid)\<^sup>*\<^sup>* (r, ?ps2) (?m2, ?ps3(i := Returned (int80_return tf ?m2)))"
    using 3 4 by (meson converse_rtranclp_into_rtranclp rtranclp.rtrancl_refl)
  ultimately show ?thesis using 1 2 by (metis fun_upd_same)
qed

section \<open>Examples\<close>

definition read_frame :: TrapFrame where
  "read_frame = \<lparr>tf_edi = 0, tf_esi = 0, tf_ebp = 0, tf_xxx = 0, tf_ebx = 0x1000, tf_edx = 0, tf_ecx = 10,
     tf_eax = INT80_READ, tf_irq = 128\<rparr>"

theorem shared_message_mixes_results_witness:
  "\<exists>ps' m2. (call_step (\<lambda>k. int k + 7))\<^sup>*\<^sup>* (zero_message, \<lambda>_. Calling read_frame) (m2, ps') \<and>
     ps' 0 = Returned (Inr (read_frame\<lparr>tf_eax := 8\<rparr>))"
proof -
  have r: "tf_eax read_frame = INT80_READ" by (simp add: read_frame_def)
  from shared_message_mixes_results [of "\<lambda>_. Calling read_frame" 0 read_frame 1 read_frame "\<lambda>k. int k + 7"
      zero_message "zero_message\<lparr>m_w0 := 3\<rparr>"] r
  show ?thesis by simp (meson converse_rtranclp_into_rtranclp)
qed

text \<open>All processes with empty mailboxes, number \<open>c\<close> running.\<close>

definition talkers :: "nat \<Rightarrow> sys" where
  "talkers c = boot_sys\<lparr>Proc := map (\<lambda>i. init_message_pool (zero_pcb\<lparr>p_pid := int i\<rparr>)) [0..<MAX_PROC], current_pcb := c\<rparr>"

lemma talkers_box:
  assumes "i < MAX_PROC"
  shows "box (talkers c) i [] [] [] 0" "unread (talkers c) i 0 []"
proof -
  let ?p = "zero_pcb\<lparr>p_pid := int i\<rparr>"
  have p: "proc (talkers c) i = init_message_pool ?p" "i < length (Proc (talkers c))"
    using assms by (simp_all add: talkers_def del: upt_rec_numeral)
  have l: "length (Msg_rec_Pool ?p) = Max_Message_Pool" by (simp add: zero_pcb_def)
  have q: "Msg_lock (init_message_pool ?p) = (Msg_lock ?p)\<lparr>token := 0, queue_tail := 0\<rparr>" "p_pid (init_message_pool ?p) = int i"
    by (simp_all add: init_message_pool_def Sem_init_def Let_def)
  show b: "box (talkers c) i [] [] [] 0"
    using init_message_pool_mbox [OF l] p q by (simp add: box_def zero_pcb_def)
  show "unread (talkers c) i 0 []"
    unfolding unread_def using b
    by (intro conjI exI [of _ "[]"]) (auto simp: box_def slot_msgs_def)
qed

theorem int_handle_posts_request_witness:
  "\<exists>req s'. int_handle read_frame zero_message (talkers 7) = Some (Inr (Waiting req s')) \<and>
     asleep_box s' 7 [] \<and> unread s' 2 1 [stamped (talkers 7) 2 req] \<and> dev_buf req = 0x1000"
proof -
  have b: "box (talkers 7) 7 [] [] [] (length ([] :: nat list))" "(7 :: nat) = current_pcb (talkers 7)"
    and u: "unread (talkers 7) 2 0 []" "0 < Max_Message_Pool" "(2 :: nat) \<noteq> 7"
    using talkers_box by (simp_all add: MAX_PROC_def Max_Message_Pool_def talkers_def)
  let ?req = "zero_message\<lparr>m_type := DEV_READ, m_w0 := 7, m_w1 := 0x1000, m_w3 := 10\<rparr>"
  have r: "int80_request (int 7) read_frame zero_message = Some (int 2, ?req)" "tf_eax read_frame \<noteq> INT80_EXIT"
    by (simp_all add: int80_request_def read_frame_def TTY_def int80_numbers)
  from int_handle_posts_request [OF b _ r u] obtain s' I' where
    "int_handle read_frame zero_message (talkers 7) = Some (Inr (Waiting ?req s'))" "asleep_box s' 7 I'"
    "slot_msgs (proc s' 7) I' = []" "unread s' 2 1 [stamped (talkers 7) 2 ?req]"
    by (auto simp: slot_msgs_def)
  moreover from this have "I' = []" by (simp add: slot_msgs_def)
  ultimately show ?thesis by (auto simp: dev_buf_def)
qed

text \<open>Process 7 asleep, the terminal driver running.\<close>

definition waiting_sys :: sys where
  "waiting_sys = upd_proc 7 (\<lambda>p. p\<lparr>p_status := STATUS_SLEEPING,
     Msg_lock := \<lparr>token = 0, queue_tail = 1, queue = 7 # replicate (Max_Sem_Queue - 1) 0\<rparr>\<rparr>) (talkers 2)"

lemma waiting_sys: "asleep_box waiting_sys 7 []" "current_pcb waiting_sys = 2" "p_pid (proc waiting_sys 2) = 2"
  "enter_interrupt (cpu waiting_sys) \<noteq> 1"
proof -
  have "box (talkers 2) 7 [] [] [] 0" "box (talkers 2) 2 [] [] [] 0" by (simp_all add: talkers_box MAX_PROC_def)
  then show "asleep_box waiting_sys 7 []" "p_pid (proc waiting_sys 2) = 2"
    by (simp_all add: waiting_sys_def asleep_box_def box_def mbox_def Max_Sem_Queue_def)
  show "current_pcb waiting_sys = 2" "enter_interrupt (cpu waiting_sys) \<noteq> 1"
    by (simp_all add: waiting_sys_def talkers_def boot_sys_def)
qed

theorem int_handle_returns_answer_witness:
  "\<exists>s2 m s3. int_resume read_frame zero_message s2 = Some (Inr (Back (read_frame\<lparr>tf_eax := 3\<rparr>) m s3))"
proof -
  let ?r = "zero_message\<lparr>m_w0 := 3\<rparr>"
  have r: "int80_request (int 7) read_frame zero_message =
      Some (int 2, zero_message\<lparr>m_type := DEV_READ, m_w0 := 7, m_w1 := 0x1000, m_w3 := 10\<rparr>)"
    "tf_eax read_frame \<notin> {INT80_EXIT, INT80_EXEC}"
    by (simp_all add: int80_request_def read_frame_def TTY_def int80_numbers)
  have n: "length ([] :: nat list) < Max_Message_Pool" "\<forall>m \<in> set (slot_msgs (proc waiting_sys 7) []). m_src m \<noteq> int 2"
    "p_pid (proc waiting_sys (current_pcb waiting_sys)) = int 2"
    using waiting_sys by (simp_all add: Max_Message_Pool_def slot_msgs_def)
  from int_handle_returns_answer [OF waiting_sys(1) n(1,2) r n(3) waiting_sys(4), of ?r] obtain s1 where
    s1: "\<And>s2 m2. current_pcb s2 = 7 \<and> length (Proc s2) = length (Proc s1) \<and>
        proc s2 7 = (proc s1 7)\<lparr>p_status := STATUS_RUNNING\<rparr> \<Longrightarrow>
      \<exists>s3. int_resume read_frame m2 s2 = Some (Inr (Back (read_frame\<lparr>tf_eax := int80_result read_frame ?r\<rparr>)
        (stamped waiting_sys (int 7) ?r) s3))" and st: "send (int 7) ?r waiting_sys = Inr s1" by blast
  have "unread waiting_sys 7 0 []"
    unfolding unread_def using waiting_sys(1)
    by (intro conjI exI [of _ "[]"]) (auto simp: asleep_box_def slot_msgs_def)
  from send_unread [OF this, of ?r] st have "length (Proc s1) = length (Proc waiting_sys)"
    by (auto simp: Max_Message_Pool_def)
  then have "7 < length (Proc s1)" using waiting_sys(1) by (simp add: asleep_box_def)
  then have "current_pcb (upd_proc 7 (p_status_update (\<lambda>_. STATUS_RUNNING)) (s1\<lparr>current_pcb := 7\<rparr>)) = 7"
    "proc (upd_proc 7 (p_status_update (\<lambda>_. STATUS_RUNNING)) (s1\<lparr>current_pcb := 7\<rparr>)) 7 = (proc s1 7)\<lparr>p_status := STATUS_RUNNING\<rparr>"
    by simp_all
  moreover have "int80_result read_frame ?r = 3" by (simp add: int80_result_def read_frame_def int_p1_def)
  ultimately show ?thesis using s1 [of "upd_proc 7 (p_status_update (\<lambda>_. STATUS_RUNNING)) (s1\<lparr>current_pcb := 7\<rparr>)" zero_message]
    by auto
qed

end
