(* ===== verification/Tty.thy ===== *)
theory Tty
  imports Ide Console
begin

text \<open>
  The terminal driver (kernel/drivers/tty.c): the keyboard map, the line editor with its echo on
  the screen, the pool of finished lines, the stack of waiting readers, and one round of the driver
  thread. The two arrays that the driver gives to the copies between address spaces,
  \<open>input_pool\<close> and \<open>output_buffer\<close>, lie in memory at the addresses the record has for them.
\<close>

section \<open>State\<close>

definition BACK :: nat where "BACK = 14"
definition ENTER :: nat where "ENTER = 28"
definition LSHIFT_DOWN :: nat where "LSHIFT_DOWN = 42"
definition LSHIFT_UP :: nat where "LSHIFT_UP = 170"
definition RSHIFT_DOWN :: nat where "RSHIFT_DOWN = 54"
definition RSHIFT_UP :: nat where "RSHIFT_UP = 182"
definition CAPS_ON :: nat where "CAPS_ON = 58"
definition CAPS_OFF :: nat where "CAPS_OFF = 186"
definition KEY_LEFT :: nat where "KEY_LEFT = 75"
definition KEY_RIGHT :: nat where "KEY_RIGHT = 77"

lemmas key_codes = BACK_def ENTER_def LSHIFT_DOWN_def LSHIFT_UP_def RSHIFT_DOWN_def RSHIFT_UP_def
  CAPS_ON_def CAPS_OFF_def KEY_LEFT_def KEY_RIGHT_def

definition NR_INPUT_BUF :: nat where "NR_INPUT_BUF = 256"
definition NR_OUTPUT_BUF :: u32 where "NR_OUTPUT_BUF = 256"
definition NR_INPUT_POOL :: nat where "NR_INPUT_POOL = 1024"
definition NR_READERS :: nat where "NR_READERS = 32"
definition MODE_CANONIC :: nat where "MODE_CANONIC = 1"

record ReadStack =
  rs_pid :: int
  rs_buf :: u32
  rs_length :: u32
  rs_next :: "nat option"

record tty =
  shift_level :: int
  caps_on :: bool
  tty_mode :: nat
  dirty :: bool
  input_buffer :: "u8 list"
  input_length :: nat
  cursor_pos :: nat
  pool_f :: nat
  pool_r :: nat
  read_pool :: "ReadStack list"
  free_readers :: "nat option"
  top_reader :: "nat option"
  input_pool :: u32
  output_buffer :: u32
  wakeup_m :: message
  write_m :: message

section \<open>The keyboard\<close>

definition key_rows :: "u8 list list" where
  "key_rows = [
     [0, 0] @ map of_char ''1234567890-='' @ [0, 9] @ map of_char ''qwertyuiop[]'' @ [0, 0]
       @ map of_char ''asdfghjkl;'' @ [39] @ map of_char ''`'' @ [0, 92] @ map of_char ''zxcvbnm,./'' @ [0, 0, 0, 32],
     [0, 0] @ map of_char ''!@#$%^&*()_+'' @ [0, 9] @ map of_char ''QWERTYUIOP{}'' @ [0, 0]
       @ map of_char ''ASDFGHJKL:'' @ [34] @ map of_char ''~'' @ [0, 124] @ map of_char ''ZXCVBNM<>?'' @ [0, 0, 0, 32]]"

definition key_maps :: "u8 list list" where
  "key_maps = map (\<lambda>row. row @ replicate (256 - length row) 0) key_rows"

definition get_ascii :: "nat \<Rightarrow> tty \<Rightarrow> error + u8 \<times> tty" where
  "get_ascii code t =
     (if code = LSHIFT_DOWN \<or> code = RSHIFT_DOWN then Inr (0, t\<lparr>shift_level := shift_level t + 1\<rparr>)
      else if code = LSHIFT_UP \<or> code = RSHIFT_UP then Inr (0, t\<lparr>shift_level := shift_level t - 1\<rparr>)
      else if code = CAPS_ON then Inr (0, t\<lparr>caps_on := True\<rparr>)
      else if code = CAPS_OFF then Inr (0, t\<lparr>caps_on := False\<rparr>)
      else
        bindE (load_at ''key_maps[0]'' (key_maps ! 0) code) (\<lambda>lower.
        let index = shift_level t > 0;
            index = (if lower \<ge> 97 \<and> lower \<le> 122 then index \<noteq> caps_on t else index) in
        bindE (load_at ''key_maps[index]'' (key_maps ! (if index then 1 else 0)) code) (\<lambda>ch. Inr (ch, t))))"

section \<open>The line editor\<close>

text \<open>\<open>for (i = a; i < b; i ++) console_printc(input_buffer[i]);\<close>\<close>

definition print_input :: "u8 list \<Rightarrow> nat \<Rightarrow> nat \<Rightarrow> console \<Rightarrow> error + console" where
  "print_input buf a b c =
     forE (\<lambda>i c. bindE (load_at ''input_buffer'' buf i) (\<lambda>ch. console_printc ch c)) [a..<b] c"

definition update_input :: "tty \<times> console \<Rightarrow> error + tty \<times> console" where
  "update_input = (\<lambda>(t, c).
     if dirty t then
       let t = t\<lparr>dirty := False\<rparr> in
       bindE (console_printc 10 c) (\<lambda>c.
       bindE (print_input (input_buffer t) 0 (cursor_pos t) c) (\<lambda>c.
       bindE (print_input (input_buffer t) (cursor_pos t) (input_length t) c) (\<lambda>c.
       bindE (cursor_left (int (input_length t) - int (cursor_pos t)) c) (\<lambda>c. Inr (t, c)))))
     else Inr (t, c))"

definition insert_char :: "u8 \<Rightarrow> tty \<times> console \<Rightarrow> error + tty \<times> console" where
  "insert_char ch = (\<lambda>(t, c).
     bindE (console_printc ch c) (\<lambda>c.
     bindE (forE (\<lambda>i buf. bindE (load_at ''input_buffer'' buf (i - 1)) (store_at ''input_buffer'' buf i))
              (rev [Suc (cursor_pos t)..<Suc (input_length t)]) (input_buffer t)) (\<lambda>buf.
     bindE (store_at ''input_buffer'' buf (input_length t + 1) 0) (\<lambda>buf.
     bindE (store_at ''input_buffer'' buf (cursor_pos t) ch) (\<lambda>buf.
     let t = t\<lparr>input_buffer := buf, input_length := input_length t + 1, cursor_pos := cursor_pos t + 1\<rparr> in
     bindE (print_input buf (cursor_pos t) (input_length t) c) (\<lambda>c.
     bindE (cursor_left (int (input_length t) - int (cursor_pos t)) c) (\<lambda>c. Inr (t, c))))))))"

definition delete_char :: "tty \<times> console \<Rightarrow> error + tty \<times> console" where
  "delete_char = (\<lambda>(t, c).
     if cursor_pos t > 0 then
       bindE (forE (\<lambda>i buf. bindE (load_at ''input_buffer'' buf (i + 1)) (store_at ''input_buffer'' buf i))
                [cursor_pos t - 1..<input_length t] (input_buffer t)) (\<lambda>buf.
       let t = t\<lparr>input_buffer := buf, input_length := input_length t - 1, cursor_pos := cursor_pos t - 1\<rparr> in
       bindE (cursor_left 1 c) (\<lambda>c.
       bindE (print_input buf (cursor_pos t) (input_length t) c) (\<lambda>c.
       bindE (console_printc 32 c) (\<lambda>c.
       bindE (cursor_left (int (input_length t) - int (cursor_pos t) + 1) c) (\<lambda>c. Inr (t, c))))))
     else Inr (t, c))"

definition move_left :: "tty \<times> console \<Rightarrow> error + tty \<times> console" where
  "move_left = (\<lambda>(t, c).
     if cursor_pos t > 0 then
       bindE (cursor_left 1 c) (\<lambda>c. Inr (t\<lparr>cursor_pos := cursor_pos t - 1\<rparr>, c))
     else Inr (t, c))"

definition move_right :: "tty \<times> console \<Rightarrow> error + tty \<times> console" where
  "move_right = (\<lambda>(t, c).
     if cursor_pos t < input_length t then
       bindE (cursor_right 1 c) (\<lambda>c. Inr (t\<lparr>cursor_pos := cursor_pos t + 1\<rparr>, c))
     else Inr (t, c))"

section \<open>Readers\<close>

definition init_read_stack :: "tty \<Rightarrow> tty" where
  "init_read_stack t =
     t\<lparr>read_pool := upd_at (NR_READERS - 1) (rs_next_update (\<lambda>_. None))
         (fold (\<lambda>i. upd_at i (rs_next_update (\<lambda>_. Some (i + 1)))) [0..<NR_READERS - 1] (read_pool t)),
       free_readers := Some 0, top_reader := None\<rparr>"

definition read_stack_push :: "int \<Rightarrow> u32 \<Rightarrow> u32 \<Rightarrow> tty \<Rightarrow> error + tty" where
  "read_stack_push pid buf len t =
     bindE (deref ''free'' (free_readers t)) (\<lambda>ptr.
     Inr (t\<lparr>free_readers := rs_next (read_pool t ! ptr), top_reader := Some ptr,
            read_pool := upd_at ptr (\<lambda>_. \<lparr>rs_pid = pid, rs_buf = buf, rs_length = len,
                                           rs_next = top_reader t\<rparr>) (read_pool t)\<rparr>))"

definition read_stack_pop :: "nat \<Rightarrow> tty \<Rightarrow> error + tty" where
  "read_stack_pop ptr t =
     bindE (deref ''top'' (top_reader t)) (\<lambda>tp.
     Inr (t\<lparr>top_reader := rs_next (read_pool t ! tp), free_readers := Some ptr,
            read_pool := upd_at ptr (rs_next_update (\<lambda>_. free_readers t)) (read_pool t)\<rparr>))"

definition pool_byte :: "tty \<Rightarrow> sys \<Rightarrow> u8" where
  "pool_byte t s = mem s (kphys (input_pool t + of_nat (pool_f t)))"

text \<open>The copying loop, with \<open>n\<close> bytes of room left and \<open>i\<close> bytes done.\<close>

fun copy_line :: "u32 \<Rightarrow> u32 \<Rightarrow> nat \<Rightarrow> nat \<Rightarrow> tty \<times> sys \<Rightarrow> (nat \<times> tty \<times> sys) option" where
  "copy_line cr3 buf 0 i (t, s) = Some (i, t, s)"
| "copy_line cr3 buf (Suc n) i (t, s) =
     (if pool_byte t s \<noteq> 0 then
        case copy_from_kernel cr3 (buf + of_nat i) (input_pool t + of_nat (pool_f t)) 1 (mem s) of
          None \<Rightarrow> None
        | Some m \<Rightarrow> copy_line cr3 buf n (i + 1)
                      (t\<lparr>pool_f := (pool_f t + 1) mod NR_INPUT_POOL\<rparr>, s\<lparr>mem := m\<rparr>)
      else Some (i, t, s))"

definition canonic_wakeup_read :: "tty \<times> sys \<Rightarrow> (error + tty \<times> sys) option" where
  "canonic_wakeup_read = (\<lambda>(t, s).
     case top_reader t of
       None \<Rightarrow> Some (Inr (t, s))
     | Some tp \<Rightarrow>
         if pool_f t = pool_r t then Some (Inr (t, s))
         else
           let rs = read_pool t ! tp in
           bindR (Some (fetch_pcb s (rs_pid rs))) (\<lambda>p.
           case copy_line (p_cr3 (proc s p)) (rs_buf rs) (unat (rs_length rs)) 0 (t, s) of
             None \<Rightarrow> None
           | Some (nread, t, s) \<Rightarrow>
               let t = (if pool_byte t s = 0 then t\<lparr>pool_f := (pool_f t + 1) mod NR_INPUT_POOL\<rparr> else t);
                   t = t\<lparr>wakeup_m := (wakeup_m t)\<lparr>m_w0 := of_nat nread\<rparr>\<rparr> in
               Some (bindE (send (rs_pid rs) (wakeup_m t) s) (\<lambda>s.
                     bindE (read_stack_pop tp t) (\<lambda>t. Inr (t, s))))))"

section \<open>Keys and requests\<close>

definition pool_put :: "u8 \<Rightarrow> tty \<times> sys \<Rightarrow> tty \<times> sys" where
  "pool_put ch = (\<lambda>(t, s).
     (t\<lparr>pool_r := (pool_r t + 1) mod NR_INPUT_POOL\<rparr>,
      s\<lparr>mem := (mem s)(kphys (input_pool t + of_nat (pool_r t)) := ch)\<rparr>))"

definition enter_line :: "tty \<times> sys \<Rightarrow> (error + tty \<times> sys) option" where
  "enter_line = (\<lambda>(t, s).
     bindR (Some (bindE (store_at ''input_buffer'' (input_buffer t) (input_length t) 10) (\<lambda>buf.
                  store_at ''input_buffer'' buf (input_length t + 1) 0))) (\<lambda>buf.
     let t = t\<lparr>input_buffer := buf, input_length := input_length t + 1\<rparr> in
     bindR (canonic_wakeup_read (fold (\<lambda>i. pool_put (buf ! i)) [0..<Suc (input_length t)] (t, s))) (\<lambda>(t, s).
     Some (bindE (console_printc 10 (con s)) (\<lambda>c.
           bindE (store_at ''input_buffer'' (input_buffer t) 0 0) (\<lambda>buf.
           Inr (t\<lparr>input_buffer := buf, cursor_pos := 0, input_length := 0\<rparr>, s\<lparr>con := c\<rparr>)))))))"

text \<open>An editing step on the state of the driver and the system.\<close>

definition on_screen :: "(tty \<times> console \<Rightarrow> error + tty \<times> console) \<Rightarrow> tty \<times> sys \<Rightarrow> error + tty \<times> sys" where
  "on_screen f = (\<lambda>(t, s). bindE (f (t, con s)) (\<lambda>(t, c). Inr (t, s\<lparr>con := c\<rparr>)))"

definition canonic_mode_getch :: "nat \<Rightarrow> tty \<times> sys \<Rightarrow> (error + tty \<times> sys) option" where
  "canonic_mode_getch code = (\<lambda>(t, s).
     bindR (Some (bindE (get_ascii code t) (\<lambda>(ch, t).
                  bindE (on_screen update_input (t, s)) (\<lambda>st. Inr (ch, st))))) (\<lambda>(ch, st).
     if ch \<noteq> 0 then Some (on_screen (insert_char ch) st)
     else if code = BACK then Some (on_screen delete_char st)
     else if code = KEY_LEFT then Some (on_screen move_left st)
     else if code = KEY_RIGHT then Some (on_screen move_right st)
     else if code = ENTER then enter_line st
     else Some (Inr st)))"

text \<open>The loop over the pieces of an output request; \<open>i\<close> counts in 32 bits.\<close>

partial_function (option) write_pieces ::
    "u32 \<Rightarrow> u32 \<Rightarrow> u32 \<Rightarrow> u32 \<Rightarrow> u32 \<Rightarrow> sys \<Rightarrow> (error + sys) option" where
  "write_pieces cr3 out buf len i s =
     (if i < len then
        case copy_to_kernel cr3 out (buf + i) (if len - i \<ge> NR_OUTPUT_BUF then NR_OUTPUT_BUF else len - i) (mem s) of
          None \<Rightarrow> None
        | Some m \<Rightarrow>
            (case forE (\<lambda>j. console_printc (m (kphys (out + of_nat j))))
                    [0..<unat (if len - i \<ge> NR_OUTPUT_BUF then NR_OUTPUT_BUF else len - i)] (con s) of
               Inl e \<Rightarrow> Some (Inl e)
             | Inr c \<Rightarrow> write_pieces cr3 out buf len (i + NR_OUTPUT_BUF) (s\<lparr>mem := m, con := c\<rparr>))
      else Some (Inr s))"

definition canonic_mode_write :: "nat \<Rightarrow> u32 \<Rightarrow> u32 \<Rightarrow> tty \<times> sys \<Rightarrow> (error + tty \<times> sys) option" where
  "canonic_mode_write p buf len = (\<lambda>(t, s).
     bindR (write_pieces (p_cr3 (proc s p)) (output_buffer t) buf len 0 s) (\<lambda>s.
     let t = (if input_length t \<noteq> 0 then t\<lparr>dirty := True\<rparr> else t);
         t = t\<lparr>write_m := (write_m t)\<lparr>m_w0 := len\<rparr>\<rparr> in
     Some (bindE (send (p_pid (proc s p)) (write_m t) s) (\<lambda>s. Inr (t, s)))))"

text \<open>The scan code, and the acknowledgement to the keyboard controller.\<close>

definition read_scancode :: "'d device \<Rightarrow> 'd \<Rightarrow> u8 \<times> 'd" where
  "read_scancode dev d =
     (case d_in_byte dev 0x60 d of (code, d) \<Rightarrow>
      case d_in_byte dev 0x61 d of (val, d) \<Rightarrow>
        (code, d_out_byte dev 0x61 val (d_out_byte dev 0x61 (val OR 0x80) d)))"

definition tty_message :: "'d device \<Rightarrow> message \<Rightarrow> 'd \<times> tty \<times> sys \<Rightarrow> (error + 'd \<times> tty \<times> sys) option" where
  "tty_message dev m = (\<lambda>(d, t, s).
     if m_src m = MSG_HARD_INTR then
       (case read_scancode dev d of (code, d) \<Rightarrow>
          if tty_mode t = MODE_CANONIC then
            bindR (canonic_mode_getch (unat code) (t, s)) (\<lambda>st. Some (Inr (d, st)))
          else Some (Inr (d, t, s)))
     else if m_type m = DEV_READ then
       bindR (Some (read_stack_push (sint (dev_pid m)) (dev_buf m) (dev_length m) t)) (\<lambda>t.
       bindR (canonic_wakeup_read (t, s)) (\<lambda>st. Some (Inr (d, st))))
     else if m_type m = DEV_WRITE \<and> tty_mode t = MODE_CANONIC then
       bindR (Some (fetch_pcb s (sint (dev_pid m)))) (\<lambda>p.
       bindR (canonic_mode_write p (dev_buf m) (dev_length m) (t, s)) (\<lambda>st. Some (Inr (d, st))))
     else Some (Inr (d, t, s)))"

definition keyboard_intr :: "int \<Rightarrow> message \<Rightarrow> sys \<Rightarrow> error + sys" where
  "keyboard_intr tty m s = send tty m s"

section \<open>Characters on the screen\<close>

definition npos :: "console \<Rightarrow> nat" where
  "npos c = nat (cursor_pos_of c)"

definition ink :: "u8 \<Rightarrow> u16" where
  "ink ch = cell WHITE BLACK ch"

lemma npos_less: "console_ok c \<Longrightarrow> npos c < 2000" "console_ok c \<Longrightarrow> cursor_pos_of c = int (npos c)"
  using console_ok_pos [of c] by (auto simp: npos_def)

text \<open>One character, with the scroll it may cause.\<close>

lemma printc_cells:
  assumes ok: "console_ok c" and ch: "ch \<noteq> 10"
  shows "\<exists>c' k. console_printc ch c = Inr c' \<and> console_ok c' \<and> npos c' + 80 * k = Suc (npos c) \<and>
    (0 < k \<or> 1920 \<le> npos c \<longrightarrow> 1920 \<le> npos c') \<and>
    (\<forall>j. 80 * k \<le> j \<and> j \<le> npos c \<longrightarrow> vmem c' ! (j - 80 * k) = (if j = npos c then ink ch else vmem c ! j))"
proof -
  obtain x y where x: "con_x c = int x" "x < 25" and y: "con_y c = int y" "y < 80"
    using ok by (metis console_ok_def int_ops(3) nonneg_int_cases of_nat_less_numeral_iff)
  have len: "length (vmem c) = 2000" using ok by (simp add: console_ok_def)
  have p: "npos c = 80 * x + y" using x y by (simp add: npos_def cursor_pos_of_def nat_plus_as_int)
  let ?v = "(vmem c)[80 * x + y := ink ch]"
  let ?c0 = "c\<lparr>vmem := ?v, con_y := int y + 1\<rparr>"
  have i: "nat (int x * 80 + int y) = 80 * x + y" by (simp add: nat_plus_as_int)
  have lt: "80 * x + y < 2000" using x y by simp
  consider (same) "y < 79" | (wrap) "y = 79" "x < 24" | (scroll) "y = 79" "x = 24" using x y by linarith
  then show ?thesis
  proof cases
    case same
    let ?c' = "move_cursor (int x) (int y + 1) ?c0"
    have "console_printc ch c = Inr ?c'"
      using same x y ch len lt i
      by (simp add: console_printc_def color_console_printc_def crt_defs Let_def ink_def)
    moreover have "console_ok ?c'" "npos ?c' = Suc (npos c)" using same x y ok
      by (simp_all add: console_ok_def npos_def cursor_pos_of_def)
    ultimately show ?thesis using len lt p by (intro exI [of _ ?c'] exI [of _ 0]) (simp add: nth_list_update)
  next
    case wrap
    let ?c' = "move_cursor (int x + 1) 0 (c\<lparr>vmem := ?v, con_y := 0, con_x := int x + 1\<rparr>)"
    have "console_printc ch c = Inr ?c'"
      using wrap x y ch len lt i
      by (simp add: console_printc_def color_console_printc_def crt_defs Let_def ink_def)
    moreover have "console_ok ?c'" "npos ?c' = Suc (npos c)" using wrap x y ok p
      by (simp_all add: console_ok_def npos_def cursor_pos_of_def)
    ultimately show ?thesis using len lt p by (intro exI [of _ ?c'] exI [of _ 0]) (simp add: nth_list_update)
  next
    case scroll
    let ?c' = "move_cursor 24 0 (c\<lparr>vmem := wrap_screen ?v, con_y := 0, con_x := 24\<rparr>)"
    have "console_printc ch c = Inr ?c'"
      using scroll x y ch len lt i
      by (simp add: console_printc_def color_console_printc_def crt_defs Let_def ink_def)
    moreover have "console_ok ?c'" "npos ?c' = 1920" "npos c = 1999" using scroll ok p len
      by (simp_all add: console_ok_def npos_def cursor_pos_of_def length_wrap_screen)
    moreover have "wrap_screen ?v ! (j - 80) = (if j = 1999 then ink ch else vmem c ! j)" if j: "80 \<le> j" "j \<le> 1999" for j
    proof -
      have "j - 80 < 1920" using j by simp
      then have "wrap_screen ?v ! (j - 80) = ?v ! j" using j len by (simp add: wrap_screen_eq nth_append)
      then show ?thesis using j len scroll by (simp add: nth_list_update)
    qed
    ultimately show ?thesis by (intro exI [of _ ?c'] exI [of _ 1]) simp
  qed
qed

lemma print_cells:
  assumes "console_ok c" "10 \<notin> set s"
  shows "\<exists>c' k. print_all console_printc s c = Inr c' \<and> console_ok c' \<and> npos c' + 80 * k = npos c + length s \<and>
    (0 < k \<or> 1920 \<le> npos c \<longrightarrow> 1920 \<le> npos c') \<and>
    (\<forall>j. 80 * k \<le> j \<and> j < npos c + length s \<longrightarrow>
       vmem c' ! (j - 80 * k) = (if j < npos c then vmem c ! j else ink (s ! (j - npos c))))"
  using assms
proof (induction s arbitrary: c)
  case Nil
  then show ?case by (intro exI [of _ c] exI [of _ 0]) simp
next
  case (Cons ch s)
  obtain c1 k1 where c1: "console_printc ch c = Inr c1" "console_ok c1" "npos c1 + 80 * k1 = Suc (npos c)"
    "0 < k1 \<or> 1920 \<le> npos c \<longrightarrow> 1920 \<le> npos c1"
    "\<And>j. 80 * k1 \<le> j \<Longrightarrow> j \<le> npos c \<Longrightarrow> vmem c1 ! (j - 80 * k1) = (if j = npos c then ink ch else vmem c ! j)"
    using printc_cells [of c ch] Cons.prems by auto
  obtain c' k2 where c': "print_all console_printc s c1 = Inr c'" "console_ok c'" "npos c' + 80 * k2 = npos c1 + length s"
    "0 < k2 \<or> 1920 \<le> npos c1 \<longrightarrow> 1920 \<le> npos c'"
    "\<And>j. 80 * k2 \<le> j \<Longrightarrow> j < npos c1 + length s \<Longrightarrow>
       vmem c' ! (j - 80 * k2) = (if j < npos c1 then vmem c1 ! j else ink (s ! (j - npos c1)))"
    using Cons.IH [OF c1(2)] Cons.prems(2) by auto
  have cells: "vmem c' ! (j - 80 * (k1 + k2)) = (if j < npos c then vmem c ! j else ink ((ch # s) ! (j - npos c)))"
    if j: "80 * (k1 + k2) \<le> j" "j < npos c + length (ch # s)" for j
  proof -
    have e: "j - 80 * (k1 + k2) = j - 80 * k1 - 80 * k2" by simp
    have r: "80 * k2 \<le> j - 80 * k1" "j - 80 * k1 < npos c1 + length s" "80 * k1 \<le> j" using j c1(3) by auto
    show ?thesis
    proof (cases "j \<le> npos c")
      case True
      then have "j - 80 * k1 < npos c1" using c1(3) r(3) by linarith
      then show ?thesis using c'(5) [OF r(1,2)] c1(5) [OF r(3) True] True unfolding e by auto
    next
      case False
      then have "\<not> j - 80 * k1 < npos c1" "j - 80 * k1 - npos c1 = j - npos c - 1" using c1(3) r(3) by linarith+
      then show ?thesis using c'(5) [OF r(1,2)] False unfolding e by (simp add: nth_Cons')
    qed
  qed
  have "npos c' + 80 * (k1 + k2) = npos c + length (ch # s)" "0 < k1 + k2 \<or> 1920 \<le> npos c \<longrightarrow> 1920 \<le> npos c'"
    using c1(3,4) c'(3,4) by auto
  moreover have "print_all console_printc (ch # s) c = Inr c'" using c1(1) c'(1) by simp
  ultimately show ?case using cells c'(2) by blast
qed

text \<open>The screen shows a line with the cursor between \<open>l\<close> and \<open>r\<close>.\<close>

definition shows_line :: "u8 list \<Rightarrow> u8 list \<Rightarrow> console \<Rightarrow> bool" where
  "shows_line l r c \<longleftrightarrow> console_ok c \<and> length l \<le> npos c \<and> npos c + length r < 2000 \<and>
     (\<forall>k < length (l @ r). vmem c ! (npos c - length l + k) = ink ((l @ r) ! k))"

lemma shows_line_prefix: "shows_line l (r @ r') c \<Longrightarrow> shows_line l r c"
  by (auto simp: shows_line_def nth_append)

lemma shows_line_print:
  assumes s: "shows_line l r c" "10 \<notin> set s" "length l + length s \<le> 1900"
  shows "\<exists>c'. print_all console_printc s c = Inr c' \<and> shows_line (l @ s) [] c'"
proof -
  have l: "length l \<le> npos c" "\<And>k. k < length l \<Longrightarrow> vmem c ! (npos c - length l + k) = ink (l ! k)" "console_ok c"
    using s(1) by (auto simp: shows_line_def nth_append)
  obtain c' k where c': "print_all console_printc s c = Inr c'" "console_ok c'" "npos c' + 80 * k = npos c + length s"
    "0 < k \<longrightarrow> 1920 \<le> npos c'"
    "\<And>j. 80 * k \<le> j \<Longrightarrow> j < npos c + length s \<Longrightarrow>
       vmem c' ! (j - 80 * k) = (if j < npos c then vmem c ! j else ink (s ! (j - npos c)))"
    using print_cells [OF l(3) s(2)] by blast
  have room: "80 * k \<le> npos c - length l" using c'(3,4) l(1) s(3) by (cases "k = 0") linarith+
  have "vmem c' ! (npos c' - length (l @ s) + i) = ink ((l @ s) ! i)" if i: "i < length (l @ s)" for i
  proof -
    have e: "npos c' - length (l @ s) + i = (npos c - length l + i) - 80 * k" using c'(3) room l(1) by simp
    have "vmem c' ! ((npos c - length l + i) - 80 * k) =
        (if npos c - length l + i < npos c then vmem c ! (npos c - length l + i)
         else ink (s ! (npos c - length l + i - npos c)))"
      using i room l(1) by (intro c'(5)) auto
    then show ?thesis unfolding e using l i by (auto simp: nth_append)
  qed
  moreover have "length (l @ s) \<le> npos c'" using c'(3) room l(1) by simp
  ultimately show ?thesis using c'(1,2) npos_less(1) [OF c'(2)] by (auto simp: shows_line_def)
qed

lemma shows_line_left:
  assumes "shows_line (l @ m) r c"
  shows "\<exists>c'. cursor_left (int (length m)) c = Inr c' \<and> shows_line l (m @ r) c'"
proof -
  note a = assms [unfolded shows_line_def]
  have ok: "console_ok c" and n: "length (l @ m) \<le> npos c" "npos c + length r < 2000" using a by blast+
  have le: "int (length m) \<le> cursor_pos_of c" "0 \<le> int (length m)" using n npos_less(2) [OF ok] by simp_all
  from cursor_left_spec [OF ok le(2,1)] obtain c' where
    c': "cursor_left (int (length m)) c = Inr c'" "console_ok c'" "cursor_pos_of c' = cursor_pos_of c - int (length m)"
      "vmem c' = vmem c" by blast
  have p: "npos c' = npos c - length m" using c'(3) npos_less(2) [OF ok] npos_less(2) [OF c'(2)] by linarith
  have e: "npos c' - length l = npos c - length (l @ m)" "(l @ m) @ r = l @ m @ r" using p by simp_all
  have len: "length l \<le> npos c'" "npos c' + length (m @ r) < 2000" using n p by auto
  have cells: "\<forall>k < length ((l @ m) @ r). vmem c ! (npos c - length (l @ m) + k) = ink (((l @ m) @ r) ! k)"
    using a by blast
  have "shows_line l (m @ r) c'"
    unfolding shows_line_def e(1) c'(4) by (intro conjI c'(2) len cells [unfolded e(2)])
  then show ?thesis using c'(1) by blast
qed

lemma shows_line_right:
  assumes "shows_line l (x # r) c"
  shows "\<exists>c'. cursor_right 1 c = Inr c' \<and> shows_line (l @ [x]) r c'"
proof -
  note a = assms [unfolded shows_line_def]
  have ok: "console_ok c" and n: "length l \<le> npos c" "npos c + length (x # r) < 2000" using a by blast+
  have le: "cursor_pos_of c + 1 < 2000" "0 \<le> (1 :: int)" using n npos_less(2) [OF ok] by simp_all
  from cursor_right_spec [OF ok le(2,1)] obtain c' where
    c': "cursor_right 1 c = Inr c'" "console_ok c'" "cursor_pos_of c' = cursor_pos_of c + 1"
      "vmem c' = vmem c" by blast
  have p: "npos c' = Suc (npos c)" using c'(3) npos_less(2) [OF ok] npos_less(2) [OF c'(2)] by linarith
  have e: "npos c' - length (l @ [x]) = npos c - length l" "(l @ [x]) @ r = l @ x # r" using p by simp_all
  have len: "length (l @ [x]) \<le> npos c'" "npos c' + length r < 2000" using n p by auto
  have cells: "\<forall>k < length (l @ x # r). vmem c ! (npos c - length l + k) = ink ((l @ x # r) ! k)"
    using a by blast
  have "shows_line (l @ [x]) r c'"
    unfolding shows_line_def e c'(4) by (intro conjI c'(2) len cells)
  then show ?thesis using c'(1) by blast
qed

section \<open>The editor refines a line with a cursor\<close>

text \<open>The two halves of the line, and what a key does to them.\<close>

definition before_cursor :: "tty \<Rightarrow> u8 list" where
  "before_cursor t = take (cursor_pos t) (input_buffer t)"

definition after_cursor :: "tty \<Rightarrow> u8 list" where
  "after_cursor t = take (input_length t - cursor_pos t) (drop (cursor_pos t) (input_buffer t))"

definition edit_line :: "u8 \<Rightarrow> nat \<Rightarrow> u8 list \<times> u8 list \<Rightarrow> u8 list \<times> u8 list" where
  "edit_line ch code = (\<lambda>(l, r).
     if ch \<noteq> 0 then (l @ [ch], r)
     else if code = BACK then (butlast l, r)
     else if code = KEY_LEFT \<and> l \<noteq> [] then (butlast l, last l # r)
     else if code = KEY_RIGHT \<and> r \<noteq> [] then (l @ [hd r], tl r)
     else (l, r))"

text \<open>Well-formed editor states: the line fits the buffer, it has no newline, and, unless output has
  come in between, the screen shows it.\<close>

definition editor_ok :: "tty \<times> console \<Rightarrow> bool" where
  "editor_ok = (\<lambda>(t, c). length (input_buffer t) = 256 \<and> cursor_pos t \<le> input_length t \<and> input_length t \<le> 255 \<and>
     10 \<notin> set (take (input_length t) (input_buffer t)) \<and> console_ok c \<and>
     (dirty t \<or> shows_line (before_cursor t) (after_cursor t) c))"

lemma forE_map: "forE (\<lambda>i c. bindE (load_at w buf i) (\<lambda>ch. console_printc ch c)) is c =
    (if \<forall>i \<in> set is. i < length buf then print_all console_printc (map ((!) buf) is) c
     else forE (\<lambda>i c. bindE (load_at w buf i) (\<lambda>ch. console_printc ch c)) is c)"
proof -
  have "\<forall>i \<in> set is. i < length buf \<Longrightarrow>
      forE (\<lambda>i c. bindE (load_at w buf i) (\<lambda>ch. console_printc ch c)) is c = print_all console_printc (map ((!) buf) is) c"
  proof (induction "is" arbitrary: c)
    case (Cons i "is")
    then show ?case by (cases "console_printc (buf ! i) c") simp_all
  qed simp
  then show ?thesis by simp
qed

lemma print_input_eq:
  "b \<le> length buf \<Longrightarrow> print_input buf a b c = print_all console_printc (take (b - a) (drop a buf)) c"
proof -
  assume b: "b \<le> length buf"
  have "map ((!) buf) [a..<b] = take (b - a) (drop a buf)"
    using b by (intro nth_equalityI) (auto simp: nth_append)
  moreover have "\<forall>i \<in> set [a..<b]. i < length buf" using b by auto
  ultimately show ?thesis using forE_map [of "''input_buffer''" buf "[a..<b]" c] by (simp add: print_input_def)
qed

lemma halves:
  assumes "editor_ok (t, c)"
  shows "length (before_cursor t) = cursor_pos t" "length (after_cursor t) = input_length t - cursor_pos t"
    "before_cursor t @ after_cursor t = take (input_length t) (input_buffer t)"
    "10 \<notin> set (before_cursor t)" "10 \<notin> set (after_cursor t)"
proof -
  have a: "length (input_buffer t) = 256" "cursor_pos t \<le> input_length t" "input_length t \<le> 255"
    "10 \<notin> set (take (input_length t) (input_buffer t))" using assms by (simp_all add: editor_ok_def)
  show "length (before_cursor t) = cursor_pos t" "length (after_cursor t) = input_length t - cursor_pos t"
    using a by (simp_all add: before_cursor_def after_cursor_def)
  show e: "before_cursor t @ after_cursor t = take (input_length t) (input_buffer t)"
    using a take_add [of "cursor_pos t" "input_length t - cursor_pos t" "input_buffer t"]
    by (simp add: before_cursor_def after_cursor_def)
  show "10 \<notin> set (before_cursor t)" "10 \<notin> set (after_cursor t)"
    using a(4) unfolding e [symmetric] by simp_all
qed

lemma editor_okI:
  assumes "length buf = 256" "take n buf = l @ r" "length l = k" "n = length l + length r" "n \<le> 255"
    "10 \<notin> set (l @ r)" "shows_line l r c"
  shows "editor_ok (t\<lparr>input_buffer := buf, input_length := n, cursor_pos := k\<rparr>, c)"
    "before_cursor (t\<lparr>input_buffer := buf, input_length := n, cursor_pos := k\<rparr>) = l"
    "after_cursor (t\<lparr>input_buffer := buf, input_length := n, cursor_pos := k\<rparr>) = r"
proof -
  have l: "take k buf = l"
    using assms(2-4) by (metis append_eq_conv_conj le_add1 min.absorb1 take_take)
  have r: "take (n - k) (drop k buf) = r"
    using assms(2-4) by (metis append_eq_conv_conj drop_take)
  show b: "before_cursor (t\<lparr>input_buffer := buf, input_length := n, cursor_pos := k\<rparr>) = l"
    and a: "after_cursor (t\<lparr>input_buffer := buf, input_length := n, cursor_pos := k\<rparr>) = r"
    using l r by (simp_all add: before_cursor_def after_cursor_def)
  have "console_ok c" using assms(7) by (simp add: shows_line_def)
  then show "editor_ok (t\<lparr>input_buffer := buf, input_length := n, cursor_pos := k\<rparr>, c)"
    using assms a b by (simp add: editor_ok_def)
qed

text \<open>Moving the rest of the line by one.\<close>

lemma shift_up:
  assumes "b < length buf"
  shows "\<exists>buf'. forE (\<lambda>i buf. bindE (load_at w buf (i - 1)) (store_at w buf i)) (rev [Suc a..<Suc b]) buf = Inr buf' \<and>
    length buf' = length buf \<and> (\<forall>j < length buf. buf' ! j = (if a < j \<and> j \<le> b then buf ! (j - 1) else buf ! j))"
  using assms
proof (induction b arbitrary: buf)
  case 0
  then show ?case by simp
next
  case (Suc b)
  show ?case
  proof (cases "a \<le> b")
    case False
    then show ?thesis by (intro exI [of _ buf]) auto
  next
    case True
    let ?b = "buf[Suc b := buf ! b]"
    obtain buf' where buf': "forE (\<lambda>i buf. bindE (load_at w buf (i - 1)) (store_at w buf i)) (rev [Suc a..<Suc b]) ?b = Inr buf'"
      "length buf' = length buf" "\<forall>j < length buf. buf' ! j = (if a < j \<and> j \<le> b then ?b ! (j - 1) else ?b ! j)"
      using Suc.IH [of ?b] Suc.prems by auto
    have "rev [Suc a..<Suc (Suc b)] = Suc b # rev [Suc a..<Suc b]" using True by simp
    then have "forE (\<lambda>i buf. bindE (load_at w buf (i - 1)) (store_at w buf i)) (rev [Suc a..<Suc (Suc b)]) buf = Inr buf'"
      using buf'(1) Suc.prems by (simp del: upt_Suc)
    moreover have "\<forall>j < length buf. buf' ! j = (if a < j \<and> j \<le> Suc b then buf ! (j - 1) else buf ! j)"
      using buf'(3) True by (auto simp: nth_list_update le_Suc_eq)
    ultimately show ?thesis using buf'(2) by blast
  qed
qed

lemma shift_down:
  assumes "b < length buf"
  shows "\<exists>buf'. forE (\<lambda>i buf. bindE (load_at w buf (i + 1)) (store_at w buf i)) [a..<b] buf = Inr buf' \<and>
    length buf' = length buf \<and> (\<forall>j < length buf. buf' ! j = (if a \<le> j \<and> j < b then buf ! (j + 1) else buf ! j))"
  using assms
proof (induction b)
  case 0
  then show ?case by simp
next
  case (Suc b)
  show ?case
  proof (cases "a \<le> b")
    case False
    then show ?thesis by (intro exI [of _ buf]) auto
  next
    case True
    obtain buf' where buf': "forE (\<lambda>i buf. bindE (load_at w buf (i + 1)) (store_at w buf i)) [a..<b] buf = Inr buf'"
      "length buf' = length buf" "\<forall>j < length buf. buf' ! j = (if a \<le> j \<and> j < b then buf ! (j + 1) else buf ! j)"
      using Suc by auto
    have "forE (\<lambda>i buf. bindE (load_at w buf (i + 1)) (store_at w buf i)) [a..<Suc b] buf = Inr (buf'[b := buf' ! (b + 1)])"
      using buf'(1,2) Suc.prems True by (simp add: forE_append)
    moreover have "\<forall>j < length buf. buf'[b := buf' ! (b + 1)] ! j = (if a \<le> j \<and> j < Suc b then buf ! (j + 1) else buf ! j)"
      using buf'(2,3) Suc.prems True by (auto simp: nth_list_update less_Suc_eq)
    ultimately show ?thesis using buf'(2) by fastforce
  qed
qed

definition edited :: "tty \<Rightarrow> (error + tty \<times> console) \<Rightarrow> u8 list \<times> u8 list \<Rightarrow> bool" where
  "edited t res lr \<longleftrightarrow> (\<exists>buf n k c. res = Inr (t\<lparr>input_buffer := buf, input_length := n, cursor_pos := k\<rparr>, c) \<and>
     editor_ok (t\<lparr>input_buffer := buf, input_length := n, cursor_pos := k\<rparr>, c) \<and>
     before_cursor (t\<lparr>input_buffer := buf, input_length := n, cursor_pos := k\<rparr>) = fst lr \<and>
     after_cursor (t\<lparr>input_buffer := buf, input_length := n, cursor_pos := k\<rparr>) = snd lr)"

lemma edited_result:
  "res = Inr (t\<lparr>input_buffer := buf, input_length := n, cursor_pos := k\<rparr>, c) \<Longrightarrow> length buf = 256 \<Longrightarrow> take n buf = l @ r \<Longrightarrow>
   length l = k \<Longrightarrow> n = length l + length r \<Longrightarrow> n \<le> 255 \<Longrightarrow> 10 \<notin> set (l @ r) \<Longrightarrow> shows_line l r c \<Longrightarrow> edited t res (l, r)"
  unfolding edited_def using editor_okI [of buf n l r k c t] by auto

lemma edited_same: "editor_ok (t, c) \<Longrightarrow> edited t (Inr (t, c)) (before_cursor t, after_cursor t)"
  unfolding edited_def
  by (intro exI [of _ "input_buffer t"] exI [of _ "input_length t"] exI [of _ "cursor_pos t"] exI [of _ c]) simp

lemma insert_char_edits:
  assumes ok: "editor_ok (t, c)" "\<not> dirty t" and ch: "ch \<noteq> 10" and room: "input_length t < 255"
  shows "edited t (insert_char ch (t, c)) (before_cursor t @ [ch], after_cursor t)"
proof -
  let ?l = "before_cursor t" and ?r = "after_cursor t" and ?k = "cursor_pos t" and ?n = "input_length t"
  note h = halves [OF ok(1)]
  have a: "length (input_buffer t) = 256" "?k \<le> ?n" "shows_line ?l ?r c" using ok by (simp_all add: editor_ok_def)
  have "10 \<notin> set [ch]" "length ?l + length [ch] \<le> 1900" using ch h(1) a(2) room by simp_all
  from shows_line_print [OF a(3) this] obtain c1 where c1: "console_printc ch c = Inr c1" "shows_line (?l @ [ch]) [] c1" by auto
  have "length (?l @ [ch]) + length ?r \<le> 1900" using h(1,2) a(2) room by simp
  from shows_line_print [OF c1(2) h(5) this] obtain c2 where
    c2: "print_all console_printc ?r c1 = Inr c2" "shows_line ((?l @ [ch]) @ ?r) [] c2" by auto
  from shows_line_left [OF c2(2)] obtain c3 where
    c3: "cursor_left (int (length ?r)) c2 = Inr c3" "shows_line (?l @ [ch]) ?r c3" by auto
  obtain b1 where b1: "forE (\<lambda>i buf. bindE (load_at ''input_buffer'' buf (i - 1)) (store_at ''input_buffer'' buf i))
        (rev [Suc ?k..<Suc ?n]) (input_buffer t) = Inr b1" "length b1 = 256"
      "\<forall>j < 256. b1 ! j = (if ?k < j \<and> j \<le> ?n then input_buffer t ! (j - 1) else input_buffer t ! j)"
    using shift_up [of ?n "input_buffer t" "''input_buffer''" ?k] a(1) room by auto
  let ?b = "b1[?n + 1 := 0, ?k := ch]"
  have tk: "take (?n + 1) ?b = (?l @ [ch]) @ ?r"
  proof (rule nth_equalityI)
    show "length (take (?n + 1) ?b) = length ((?l @ [ch]) @ ?r)" using b1(2) h(1,2) a(2) room by simp
    fix j assume "j < length (take (?n + 1) ?b)"
    then have j: "j < ?n + 1" by simp
    consider "j < ?k" | "j = ?k" | "?k < j" by linarith
    then show "take (?n + 1) ?b ! j = ((?l @ [ch]) @ ?r) ! j"
    proof cases
      case 1
      then show ?thesis using j b1(2,3) a(1,2) room by (simp add: nth_append before_cursor_def)
    next
      case 2
      then show ?thesis using j b1(2) h(1) room by (simp add: nth_append)
    next
      case 3
      then have "((?l @ [ch]) @ ?r) ! j = ?r ! (j - ?k - 1)" using h(1) by (simp add: nth_append)
      also have "\<dots> = input_buffer t ! (j - 1)" using 3 j a(1,2) room by (simp add: after_cursor_def)
      finally show ?thesis using 3 j b1(2,3) room by simp
    qed
  qed
  have p: "print_input ?b (?k + 1) (?n + 1) c1 = Inr c2"
  proof -
    have "take (?n - ?k) (drop (?k + 1) ?b) = drop (?k + 1) (take (?n + 1) ?b)" by (simp add: drop_take)
    also have "\<dots> = ?r" unfolding tk using h(1) by simp
    finally show ?thesis using c2(1) b1(2) room by (simp add: print_input_eq)
  qed
  have "insert_char ch (t, c) = Inr (t\<lparr>input_buffer := ?b, input_length := ?n + 1, cursor_pos := ?k + 1\<rparr>, c3)"
    using c1(1) b1(1,2) p c3(1) h(2) a(2) room by (simp add: insert_char_def Let_def del: upt_Suc)
  then show ?thesis
    by (rule edited_result) (use b1(2) tk h a(2) room ch c3(2) in simp_all)
qed

lemma delete_char_edits:
  assumes ok: "editor_ok (t, c)" "\<not> dirty t" and room: "input_length t < 255"
  shows "edited t (delete_char (t, c)) (butlast (before_cursor t), after_cursor t)"
proof (cases "cursor_pos t = 0")
  case True
  then have "before_cursor t = []" by (simp add: before_cursor_def)
  then show ?thesis using edited_same [OF ok(1)] True by (simp add: delete_char_def)
next
  case False
  let ?l = "before_cursor t" and ?r = "after_cursor t" and ?k = "cursor_pos t" and ?n = "input_length t"
  note h = halves [OF ok(1)]
  have a: "length (input_buffer t) = 256" "?k \<le> ?n" "shows_line ?l ?r c" using ok by (simp_all add: editor_ok_def)
  have ne: "?l \<noteq> []" using False h(1) by auto
  then have sp: "shows_line (butlast ?l @ [last ?l]) ?r c" using a(3) by simp
  from shows_line_left [OF sp] obtain c1 where
    c1: "cursor_left 1 c = Inr c1" "shows_line (butlast ?l) (last ?l # ?r) c1" by auto
  have b10: "10 \<notin> set (butlast ?l)" using h(4) by (meson in_set_butlastD)
  have "length (butlast ?l) + length ?r \<le> 1900" using h(1,2) a(2) room by simp
  from shows_line_print [OF c1(2) h(5) this] obtain c2 where
    c2: "print_all console_printc ?r c1 = Inr c2" "shows_line (butlast ?l @ ?r) [] c2" by auto
  have "10 \<notin> set [32 :: u8]" "length (butlast ?l @ ?r) + length [32 :: u8] \<le> 1900" using h(1,2) a(2) room by simp_all
  from shows_line_print [OF c2(2) this] obtain c3 where
    c3: "console_printc 32 c2 = Inr c3" "shows_line (butlast ?l @ ?r @ [32]) [] c3" by auto
  from shows_line_left [OF c3(2)] obtain c4 where
    c4: "cursor_left (int (length ?r) + 1) c3 = Inr c4" "shows_line (butlast ?l) (?r @ [32]) c4" by (auto simp: add.commute)
  obtain b where b: "forE (\<lambda>i buf. bindE (load_at ''input_buffer'' buf (i + 1)) (store_at ''input_buffer'' buf i))
        [?k - 1..<?n] (input_buffer t) = Inr b" "length b = 256"
      "\<forall>j < 256. b ! j = (if ?k - 1 \<le> j \<and> j < ?n then input_buffer t ! (j + 1) else input_buffer t ! j)"
    using shift_down [of ?n "input_buffer t" "''input_buffer''" "?k - 1"] a(1) room by auto
  have tk: "take (?n - 1) b = butlast ?l @ ?r"
  proof (rule nth_equalityI)
    show len: "length (take (?n - 1) b) = length (butlast ?l @ ?r)" using b(2) h(1,2) a(2) room False by simp
    fix j assume "j < length (take (?n - 1) b)"
    then have j: "j < ?n - 1" by simp
    then have jn: "j < ?n" by linarith
    show "take (?n - 1) b ! j = (butlast ?l @ ?r) ! j"
    proof (cases "j < ?k - 1")
      case True
      then show ?thesis using j b(2,3) a(1,2) h(1) room by (simp add: nth_append nth_butlast before_cursor_def)
    next
      case F: False
      then have "(butlast ?l @ ?r) ! j = input_buffer t ! (j + 1)"
        using j a(1,2) h(1) room False by (simp add: nth_append after_cursor_def)
      moreover have "b ! j = input_buffer t ! (j + 1)" using F jn b(3) [rule_format, of j] room by simp
      ultimately show ?thesis using j by simp
    qed
  qed
  have p: "print_input b (?k - 1) (?n - 1) c1 = Inr c2"
  proof -
    have "take (?n - 1 - (?k - 1)) (drop (?k - 1) b) = drop (?k - 1) (take (?n - 1) b)" by (simp add: drop_take)
    also have "\<dots> = ?r" unfolding tk using h(1) by simp
    finally show ?thesis using c2(1) b(2) room by (simp only: print_input_eq)
  qed
  have n: "int (?n - 1) - int (?k - 1) + 1 = int (length ?r) + 1" using h(2) a(2) False by simp
  have "delete_char (t, c) = Inr (t\<lparr>input_buffer := b, input_length := ?n - 1, cursor_pos := ?k - 1\<rparr>, c4)"
    using False c1(1) b(1) p c3(1) c4(1) [folded n] by (simp add: delete_char_def Let_def)
  then show ?thesis
    by (rule edited_result)
      (use b(2) tk h a(2) room False b10 shows_line_prefix [OF c4(2)] in simp_all)
qed

lemma move_left_edits:
  assumes ok: "editor_ok (t, c)" "\<not> dirty t"
  shows "edited t (move_left (t, c))
    (if before_cursor t = [] then ([], after_cursor t) else (butlast (before_cursor t), last (before_cursor t) # after_cursor t))"
proof (cases "cursor_pos t = 0")
  case True
  then have "before_cursor t = []" by (simp add: before_cursor_def)
  then show ?thesis using edited_same [OF ok(1)] True by (simp add: move_left_def)
next
  case False
  let ?l = "before_cursor t" and ?r = "after_cursor t"
  note h = halves [OF ok(1)]
  have a: "length (input_buffer t) = 256" "cursor_pos t \<le> input_length t" "input_length t \<le> 255" "shows_line ?l ?r c"
    using ok by (simp_all add: editor_ok_def)
  have ne: "?l \<noteq> []" using False h(1) by auto
  then have sp: "shows_line (butlast ?l @ [last ?l]) ?r c" using a(4) by simp
  from shows_line_left [OF sp] obtain c1 where
    c1: "cursor_left 1 c = Inr c1" "shows_line (butlast ?l) (last ?l # ?r) c1" by auto
  have j: "butlast ?l @ last ?l # ?r = ?l @ ?r" using ne append_butlast_last_id by (metis append.assoc append_Cons append_Nil)
  have "edited t (move_left (t, c)) (butlast ?l, last ?l # ?r)"
  proof (rule edited_result)
    show "move_left (t, c) = Inr (t\<lparr>input_buffer := input_buffer t, input_length := input_length t,
        cursor_pos := cursor_pos t - 1\<rparr>, c1)" using False c1(1) by (simp add: move_left_def)
    show "10 \<notin> set (butlast ?l @ last ?l # ?r)" unfolding j using h(4,5) by simp
    show "take (input_length t) (input_buffer t) = butlast ?l @ last ?l # ?r" unfolding j h(3) ..
  qed (use a h False c1(2) in simp_all)
  then show ?thesis using ne by simp
qed

lemma move_right_edits:
  assumes ok: "editor_ok (t, c)" "\<not> dirty t"
  shows "edited t (move_right (t, c))
    (if after_cursor t = [] then (before_cursor t, []) else (before_cursor t @ [hd (after_cursor t)], tl (after_cursor t)))"
proof (cases "cursor_pos t < input_length t")
  case False
  note h = halves [OF ok(1)]
  have e: "after_cursor t = []" using False h(2) by simp
  have "move_right (t, c) = Inr (t, c)" using False by (simp add: move_right_def)
  then show ?thesis using edited_same [OF ok(1)] e by simp
next
  case True
  let ?l = "before_cursor t" and ?r = "after_cursor t"
  note h = halves [OF ok(1)]
  have a: "length (input_buffer t) = 256" "input_length t \<le> 255" "shows_line ?l ?r c"
    using ok by (simp_all add: editor_ok_def)
  have ne: "?r \<noteq> []" using True h(2) by auto
  then have sp: "shows_line ?l (hd ?r # tl ?r) c" using a(3) by simp
  from shows_line_right [OF sp] obtain c1 where
    c1: "cursor_right 1 c = Inr c1" "shows_line (?l @ [hd ?r]) (tl ?r) c1" by auto
  have j: "(?l @ [hd ?r]) @ tl ?r = ?l @ ?r" using ne by simp
  have "edited t (move_right (t, c)) (?l @ [hd ?r], tl ?r)"
  proof (rule edited_result)
    show "move_right (t, c) = Inr (t\<lparr>input_buffer := input_buffer t, input_length := input_length t,
        cursor_pos := cursor_pos t + 1\<rparr>, c1)" using True c1(1) by (simp add: move_right_def)
    show "10 \<notin> set ((?l @ [hd ?r]) @ tl ?r)" unfolding j using h(4,5) by simp
    show "take (input_length t) (input_buffer t) = (?l @ [hd ?r]) @ tl ?r" unfolding j h(3) ..
  qed (use a h True c1(2) in simp_all)
  then show ?thesis using ne by simp
qed

lemma update_input_shows:
  assumes ok: "editor_ok (t, c)"
  shows "\<exists>c'. update_input (t, c) = Inr (t\<lparr>dirty := False\<rparr>, c') \<and> editor_ok (t\<lparr>dirty := False\<rparr>, c')"
proof (cases "dirty t")
  case False
  then have e: "t\<lparr>dirty := False\<rparr> = t" by simp
  show ?thesis unfolding e using ok False by (simp add: update_input_def)
next
  case True
  let ?l = "before_cursor t" and ?r = "after_cursor t"
  note h = halves [OF ok]
  have a: "length (input_buffer t) = 256" "cursor_pos t \<le> input_length t" "input_length t \<le> 255" "console_ok c"
    using ok by (simp_all add: editor_ok_def)
  obtain c1 where c1: "console_printc 10 c = Inr c1" "console_ok c1"
    using printc_ok [OF a(4)] unfolding console_printc_def by blast
  have s: "shows_line [] [] c1" using c1(2) npos_less(1) by (simp add: shows_line_def)
  from shows_line_print [OF s h(4)] obtain c2 where
    c2: "print_all console_printc ?l c1 = Inr c2" "shows_line ?l [] c2" using h(1) a by auto
  from shows_line_print [OF c2(2) h(5)] obtain c3 where
    c3: "print_all console_printc ?r c2 = Inr c3" "shows_line (?l @ ?r) [] c3" using h(1,2) a by auto
  from shows_line_left [OF c3(2)] obtain c4 where
    c4: "cursor_left (int (length ?r)) c3 = Inr c4" "shows_line ?l ?r c4" by auto
  have p: "print_input (input_buffer t) 0 (cursor_pos t) c1 = Inr c2"
    "print_input (input_buffer t) (cursor_pos t) (input_length t) c2 = Inr c3"
    using c2(1) c3(1) a by (simp_all add: print_input_eq before_cursor_def after_cursor_def)
  have "update_input (t, c) = Inr (t\<lparr>dirty := False\<rparr>, c4)"
    using True c1(1) p c4(1) h(2) a(2) by (simp add: update_input_def Let_def)
  moreover have "before_cursor (t\<lparr>dirty := False\<rparr>) = ?l" "after_cursor (t\<lparr>dirty := False\<rparr>) = ?r"
    by (simp_all add: before_cursor_def after_cursor_def)
  moreover have "console_ok c4" using c4(2) by (simp add: shows_line_def)
  ultimately have "editor_ok (t\<lparr>dirty := False\<rparr>, c4)" "update_input (t, c) = Inr (t\<lparr>dirty := False\<rparr>, c4)"
    using ok c4(2) by (simp_all add: editor_ok_def)
  then show ?thesis by blast
qed

text \<open>What the keyboard map can give.\<close>

lemma key_maps_rows: "length key_maps = 2" "\<forall>row \<in> set key_maps. length row = 256 \<and> 10 \<notin> set row"
  by (simp_all add: key_maps_def key_rows_def)

lemma get_ascii_ok:
  assumes "code < 256"
  shows "\<exists>ch sh caps. get_ascii code t = Inr (ch, t\<lparr>shift_level := sh, caps_on := caps\<rparr>) \<and> ch \<noteq> 10"
proof -
  have r: "length (key_maps ! i) = 256" "key_maps ! i ! code \<noteq> 10" if "i < 2" for i
    using key_maps_rows that assms by (metis nth_mem)+
  consider "code = LSHIFT_DOWN \<or> code = RSHIFT_DOWN" | "code = LSHIFT_UP \<or> code = RSHIFT_UP" | "code = CAPS_ON" |
    "code = CAPS_OFF" | "code \<notin> {LSHIFT_DOWN, RSHIFT_DOWN, LSHIFT_UP, RSHIFT_UP, CAPS_ON, CAPS_OFF}" by blast
  then show ?thesis
  proof cases
    case 1
    then show ?thesis
      by (intro exI [of _ 0] exI [of _ "shift_level t + 1"] exI [of _ "caps_on t"]) (simp add: get_ascii_def)
  next
    case 2
    then show ?thesis
      by (intro exI [of _ 0] exI [of _ "shift_level t - 1"] exI [of _ "caps_on t"]) (auto simp: get_ascii_def key_codes)
  next
    case 3
    then show ?thesis
      by (intro exI [of _ 0] exI [of _ "shift_level t"] exI [of _ True]) (simp add: get_ascii_def key_codes)
  next
    case 4
    then show ?thesis
      by (intro exI [of _ 0] exI [of _ "shift_level t"] exI [of _ False]) (simp add: get_ascii_def key_codes)
  next
    case 5
    define index where "index = (if key_maps ! 0 ! code \<ge> 97 \<and> key_maps ! 0 ! code \<le> 122
        then (shift_level t > 0) \<noteq> caps_on t else shift_level t > 0)"
    have l: "code < length (key_maps ! 0)" "code < length (key_maps ! (if index then 1 else 0))"
      using r(1) assms by simp_all
    let ?i = "if index then 1 else 0 :: nat"
    have "get_ascii code t = bindE (load_at ''key_maps[0]'' (key_maps ! 0) code) (\<lambda>_.
        bindE (load_at ''key_maps[index]'' (key_maps ! ?i) code) (\<lambda>ch. Inr (ch, t)))"
      using 5 l(1) by (simp add: get_ascii_def Let_def index_def)
    then have i: "?i < 2" "get_ascii code t = Inr (key_maps ! ?i ! code, t)"
      using l by (simp_all only: load_at_ok bindE_simps) simp
    then show ?thesis using r(2) [OF i(1)]
      by (intro exI [of _ "key_maps ! ?i ! code"] exI [of _ "shift_level t"] exI [of _ "caps_on t"]) simp
  qed
qed

lemma getch_key:
  assumes "get_ascii code t = Inr (ch, t1)" "update_input (t1, con s) = Inr (t2, c2)"
    "ch \<noteq> 0 \<or> code \<noteq> ENTER"
    "f = (if ch \<noteq> 0 then insert_char ch else if code = BACK then delete_char
          else if code = KEY_LEFT then move_left else if code = KEY_RIGHT then move_right else Inr)"
  shows "canonic_mode_getch code (t, s) = Some (on_screen f (t2, s\<lparr>con := c2\<rparr>))"
  using assms by (simp add: canonic_mode_getch_def on_screen_def)


text \<open>An empty line on an empty screen.\<close>

definition boot_tty :: tty where
  "boot_tty = \<lparr>shift_level = 0, caps_on = False, tty_mode = MODE_CANONIC, dirty = False,
     input_buffer = replicate 256 0, input_length = 0, cursor_pos = 0, pool_f = 0, pool_r = 0,
     read_pool = replicate 32 \<lparr>rs_pid = 0, rs_buf = 0, rs_length = 0, rs_next = None\<rparr>,
     free_readers = None, top_reader = None, input_pool = 0xC0300000, output_buffer = 0xC0300400,
     wakeup_m = zero_message, write_m = zero_message\<rparr>"

lemma boot_editor: "editor_ok (boot_tty, init_screen c)"
proof -
  have "shows_line [] [] (init_screen c)"
    using init_screen_ok npos_less(1) by (simp add: shows_line_def)
  then show ?thesis
    using init_screen_ok by (simp add: editor_ok_def boot_tty_def before_cursor_def after_cursor_def)
qed


section \<open>The pool of lines\<close>

definition pool_ok :: "tty \<Rightarrow> bool" where
  "pool_ok t \<longleftrightarrow> in_kernel (input_pool t) \<and> unat (input_pool t) + 1024 \<le> 2 ^ 32 \<and> pool_f t < 1024 \<and> pool_r t < 1024"

definition pool_cell :: "tty \<Rightarrow> nat \<Rightarrow> u32" where
  "pool_cell t k = kphys (input_pool t + of_nat (k mod 1024))"

definition pool_size :: "tty \<Rightarrow> nat" where
  "pool_size t = (pool_r t + 1024 - pool_f t) mod 1024"

text \<open>What has been entered and not been read.\<close>

definition pool_bytes :: "tty \<Rightarrow> memory \<Rightarrow> u8 list" where
  "pool_bytes t m = map (\<lambda>k. m (pool_cell t (pool_f t + k))) [0..<pool_size t]"

lemma pool_address:
  assumes "pool_ok t" "i < 1024"
  shows "unat (kphys (input_pool t + of_nat i)) + unat KOFFSET = unat (input_pool t) + i"
    "KOFFSET \<le> input_pool t + of_nat i"
proof -
  have k: "unat KOFFSET \<le> unat (input_pool t)"
    using assms(1) by (simp add: pool_ok_def in_kernel_def word_le_nat_alt)
  have b: "unat (input_pool t) + i < 2 ^ 32" using assms by (simp add: pool_ok_def)
  then have u: "unat (input_pool t + of_nat i) = unat (input_pool t) + i"
    by (simp add: unat_word_ariths unat_of_nat)
  then show le: "KOFFSET \<le> input_pool t + of_nat i" using k by (simp add: word_le_nat_alt)
  then show "unat (kphys (input_pool t + of_nat i)) + unat KOFFSET = unat (input_pool t) + i"
    using u k by (simp add: kphys_def in_kernel_def va_to_pa_def unat_sub)
qed

lemma pool_cell_inj:
  assumes "pool_ok t" "pool_cell t i = pool_cell t j"
  shows "i mod 1024 = j mod 1024"
proof -
  have "unat (pool_cell t i) + unat KOFFSET = unat (input_pool t) + i mod 1024"
    "unat (pool_cell t j) + unat KOFFSET = unat (input_pool t) + j mod 1024"
    unfolding pool_cell_def by (rule pool_address(1) [OF assms(1)]; simp)+
  then show ?thesis unfolding assms(2) by linarith
qed

lemma mod_1024: "(a :: nat) < 1024 \<Longrightarrow> (a + 1024) mod 1024 = a" "a < 1024 \<Longrightarrow> a mod 1024 = a"
  by simp_all

lemma pool_shift:
  assumes f: "f < 1024" "r < (1024 :: nat)" and n: "n = (r + 1024 - f) mod 1024"
  shows "(f + n) mod 1024 = r" "n < 1023 \<Longrightarrow> ((r + 1) mod 1024 + 1024 - f) mod 1024 = Suc n"
    "0 < n \<Longrightarrow> (r + 1024 - (f + 1) mod 1024) mod 1024 = n - 1"
    "f = r \<longleftrightarrow> n = 0"
proof -
  have "(f \<le> r \<and> n = r - f) \<or> (r < f \<and> n = r + 1024 - f)"
  proof (cases "f \<le> r")
    case True
    then have "r + 1024 - f = (r - f) + 1024" by simp
    then show ?thesis using True f n mod_1024(1) [of "r - f"] by simp
  next
    case False
    then show ?thesis using f n mod_1024(2) [of "r + 1024 - f"] by simp
  qed
  note c = this
  show "(f + n) mod 1024 = r"
    using c f mod_1024 [of r] by (auto simp: add.commute)
  show "f = r \<longleftrightarrow> n = 0" using c f by auto
  show "((r + 1) mod 1024 + 1024 - f) mod 1024 = Suc n" if "n < 1023"
  proof (cases "r = 1023")
    case True
    then have "(r + 1) mod 1024 = 0" "Suc n = 1024 - f" using c f by auto
    then show ?thesis using that mod_1024(2) [of "Suc n"] by simp
  next
    case False
    then have r1: "(r + 1) mod 1024 = r + 1" using f by simp
    from c show ?thesis
    proof
      assume "f \<le> r \<and> n = r - f"
      then have "r + 1 + 1024 - f = Suc n + 1024" using f by auto
      then show ?thesis unfolding r1 using that mod_1024(1) [of "Suc n"] by simp
    next
      assume "r < f \<and> n = r + 1024 - f"
      then have "r + 1 + 1024 - f = Suc n" using f by simp
      then show ?thesis unfolding r1 using that mod_1024(2) [of "Suc n"] by simp
    qed
  qed
  show "(r + 1024 - (f + 1) mod 1024) mod 1024 = n - 1" if "0 < n"
  proof (cases "f = 1023")
    case True
    then have "(f + 1) mod 1024 = 0" "n - 1 = r" "r < 1024" using c f that by auto
    then show ?thesis using mod_1024(1) [of r] by simp
  next
    case False
    then have f1: "(f + 1) mod 1024 = f + 1" using f by simp
    from c show ?thesis
    proof
      assume "f \<le> r \<and> n = r - f"
      then have "r + 1024 - (f + 1) = (n - 1) + 1024" "n - 1 < 1024" using that f by auto
      then show ?thesis unfolding f1 using mod_1024(1) [of "n - 1"] by simp
    next
      assume "r < f \<and> n = r + 1024 - f"
      then have "r + 1024 - (f + 1) = n - 1" "n - 1 < 1024" using f by auto
      then show ?thesis unfolding f1 using mod_1024(2) [of "n - 1"] by simp
    qed
  qed
qed

lemma length_pool_bytes [simp]: "length (pool_bytes t m) = pool_size t"
  by (simp add: pool_bytes_def)

lemma pool_cell_mod: "pool_cell t (k mod 1024) = pool_cell t k" "pool_cell t (k mod 1024 + i) = pool_cell t (k + i)"
  by (simp_all add: pool_cell_def mod_add_left_eq)

lemma pool_cell_fields [simp]:
  "pool_cell (t\<lparr>pool_f := f\<rparr>) = pool_cell t" "pool_cell (t\<lparr>pool_r := f\<rparr>) = pool_cell t"
  by (simp_all add: pool_cell_def fun_eq_iff)

lemma pool_bytes_cong: "(\<And>k. m' (pool_cell t k) = m (pool_cell t k)) \<Longrightarrow> pool_bytes t m' = pool_bytes t m"
  by (simp add: pool_bytes_def)

lemma pool_put_step:
  assumes ok: "pool_ok t" and room: "pool_size t < 1023"
  shows "pool_put ch (t, s) = (t\<lparr>pool_r := (pool_r t + 1) mod 1024\<rparr>, s\<lparr>mem := (mem s)(pool_cell t (pool_r t) := ch)\<rparr>)"
    "pool_ok (t\<lparr>pool_r := (pool_r t + 1) mod 1024\<rparr>)"
    "pool_bytes (t\<lparr>pool_r := (pool_r t + 1) mod 1024\<rparr>) ((mem s)(pool_cell t (pool_r t) := ch)) = pool_bytes t (mem s) @ [ch]"
proof -
  have b: "pool_f t < 1024" "pool_r t < 1024" using ok by (simp_all add: pool_ok_def)
  let ?n = "pool_size t"
  note sh = pool_shift [OF b pool_size_def]
  show "pool_put ch (t, s) = (t\<lparr>pool_r := (pool_r t + 1) mod 1024\<rparr>, s\<lparr>mem := (mem s)(pool_cell t (pool_r t) := ch)\<rparr>)"
    using b by (simp add: pool_put_def pool_cell_def NR_INPUT_POOL_def)
  show "pool_ok (t\<lparr>pool_r := (pool_r t + 1) mod 1024\<rparr>)" using ok by (simp add: pool_ok_def)
  have n: "pool_size (t\<lparr>pool_r := (pool_r t + 1) mod 1024\<rparr>) = Suc ?n"
    using sh(2) [OF room] by (simp add: pool_size_def)
  have last: "pool_cell t (pool_f t + ?n) = pool_cell t (pool_r t)"
    using sh(1) b by (simp add: pool_cell_def)
  have ne: "pool_cell t (pool_f t + k) \<noteq> pool_cell t (pool_r t)" if k: "k < ?n" for k
  proof
    assume "pool_cell t (pool_f t + k) = pool_cell t (pool_r t)"
    then have e: "(pool_f t + k) mod 1024 = (pool_f t + ?n) mod 1024"
      using pool_cell_inj [OF ok, of "pool_f t + k" "pool_r t"] sh(1) b by (metis mod_less)
    have "1024 dvd (pool_f t + ?n) - (pool_f t + k)"
      using mod_eq_dvd_iff_nat [of "pool_f t + k" "pool_f t + ?n" 1024] e k by (metis add_le_mono1 less_imp_le_nat nat_add_left_cancel_le)
    then have "1024 \<le> ?n - k" using k by (intro dvd_imp_le) simp_all
    then show False using room by simp
  qed
  show "pool_bytes (t\<lparr>pool_r := (pool_r t + 1) mod 1024\<rparr>) ((mem s)(pool_cell t (pool_r t) := ch)) = pool_bytes t (mem s) @ [ch]"
    unfolding pool_bytes_def n using ne last by simp
qed

lemma pool_put_list:
  "pool_ok t \<Longrightarrow> pool_size t + length cs < 1024 \<Longrightarrow>
   \<exists>r m. fold pool_put cs (t, s) = (t\<lparr>pool_r := r\<rparr>, s\<lparr>mem := m\<rparr>) \<and> pool_ok (t\<lparr>pool_r := r\<rparr>) \<and>
     pool_bytes (t\<lparr>pool_r := r\<rparr>) m = pool_bytes t (mem s) @ cs \<and>
     (\<forall>x. x \<notin> range (pool_cell t) \<longrightarrow> m x = mem s x)"
proof (induction cs arbitrary: t s)
  case Nil
  then show ?case by (intro exI [of _ "pool_r t"] exI [of _ "mem s"]) simp
next
  case (Cons c cs)
  have room: "pool_size t < 1023" using Cons.prems(2) by simp
  note p = pool_put_step(1) [OF Cons.prems(1) room, of c s] pool_put_step(2) [OF Cons.prems(1) room]
    pool_put_step(3) [OF Cons.prems(1) room, of s c]
  let ?t = "t\<lparr>pool_r := (pool_r t + 1) mod 1024\<rparr>"
  define m1 where "m1 = (mem s)(pool_cell t (pool_r t) := c)"
  note p = p [folded m1_def]
  have "pool_size ?t = Suc (pool_size t)"
    using arg_cong [OF p(3), of length] by simp
  then have "pool_size ?t + length cs < 1024" using Cons.prems(2) by simp
  from Cons.IH [OF p(2) this, of "s\<lparr>mem := m1\<rparr>"] obtain r m where
    r: "fold pool_put cs (?t, s\<lparr>mem := m1\<rparr>) = (t\<lparr>pool_r := r\<rparr>, s\<lparr>mem := m\<rparr>)" "pool_ok (t\<lparr>pool_r := r\<rparr>)"
    "pool_bytes (t\<lparr>pool_r := r\<rparr>) m = pool_bytes ?t m1 @ cs" "\<forall>x. x \<notin> range (pool_cell t) \<longrightarrow> m x = m1 x"
    by auto
  have "\<forall>x. x \<notin> range (pool_cell t) \<longrightarrow> m x = mem s x" using r(4) by (auto simp: m1_def)
  then show ?case using p(1,3) r by (intro exI [of _ r] exI [of _ m]) simp
qed

lemma pool_pop:
  assumes ok: "pool_ok t" and b: "pool_bytes t m = x # xs"
  shows "m (kphys (input_pool t + of_nat (pool_f t))) = x" "pool_f t \<noteq> pool_r t"
    "pool_ok (t\<lparr>pool_f := (pool_f t + 1) mod 1024\<rparr>)"
    "pool_bytes (t\<lparr>pool_f := (pool_f t + 1) mod 1024\<rparr>) m = xs"
proof -
  have f: "pool_f t < 1024" "pool_r t < 1024" using ok by (simp_all add: pool_ok_def)
  note sh = pool_shift [OF f pool_size_def]
  have n: "pool_size t = Suc (length xs)" using arg_cong [OF b, of length] by simp
  then have up: "[0..<pool_size t] = 0 # map Suc [0..<length xs]" by (simp add: map_Suc_upt upt_conv_Cons del: upt_Suc)
  have parts: "m (pool_cell t (pool_f t)) = x" "map (\<lambda>k. m (pool_cell t (pool_f t + Suc k))) [0..<length xs] = xs"
    using b unfolding pool_bytes_def up by (simp_all add: comp_def)
  show "m (kphys (input_pool t + of_nat (pool_f t))) = x" using parts(1) f by (simp add: pool_cell_def)
  show "pool_f t \<noteq> pool_r t" using sh(4) n by simp
  show "pool_ok (t\<lparr>pool_f := (pool_f t + 1) mod 1024\<rparr>)" using ok by (simp add: pool_ok_def)
  have n': "pool_size (t\<lparr>pool_f := (pool_f t + 1) mod 1024\<rparr>) = length xs"
    using sh(3) n by (simp add: pool_size_def)
  show "pool_bytes (t\<lparr>pool_f := (pool_f t + 1) mod 1024\<rparr>) m = xs"
    unfolding pool_bytes_def n' using parts(2) by (simp add: pool_cell_mod)
qed

end
