(* ===== verification/TtyServer.thy ===== *)
theory TtyServer
  imports Tty IdeServer
begin

text \<open>
  Lines between the editor and the readers: Enter puts a line into the pool, a read request takes it
  out through the page tables of the process that asks and answers it.
\<close>

lemma fold_pool_put: "fold (\<lambda>i. pool_put (buf ! i)) is st = fold pool_put (map ((!) buf) is) st"
  by (simp add: fold_map comp_def)

lemma wakeup_no_reader: "top_reader t = None \<Longrightarrow> canonic_wakeup_read (t, s) = Some (Inr (t, s))"
  by (simp add: canonic_wakeup_read_def)

text \<open>C32: Enter moves the line, with a newline and a terminating zero, to the end of what waits in the
  pool, in the wrapped order of its 1024 bytes, leaves an empty line, and changes no memory outside
  the pool (when the pool has room and nobody is waiting to read).\<close>

theorem enter_queues_line:
  assumes ok: "editor_ok (t, con s)" and len: "input_length t \<le> 254" and p: "pool_ok t"
    and room: "pool_size t + input_length t + 2 < 1024" and top: "top_reader t = None"
  shows "\<exists>t' s'. canonic_mode_getch ENTER (t, s) = Some (Inr (t', s')) \<and>
    pool_bytes t' (mem s') = pool_bytes t (mem s) @ before_cursor t @ after_cursor t @ [10, 0] \<and>
    pool_ok t' \<and> before_cursor t' = [] \<and> after_cursor t' = [] \<and> editor_ok (t', con s') \<and>
    (\<forall>x. x \<notin> range (pool_cell t) \<longrightarrow> mem s' x = mem s x)"
proof -
  obtain c2 where u: "update_input (t, con s) = Inr (t\<lparr>dirty := False\<rparr>, c2)" "editor_ok (t\<lparr>dirty := False\<rparr>, c2)"
    using update_input_shows [OF ok] by blast
  have g: "get_ascii ENTER t = Inr (0, t)" by (simp add: get_ascii_def key_codes key_maps_def key_rows_def)
  let ?t = "t\<lparr>dirty := False\<rparr>" and ?n = "input_length t"
  have l: "length (input_buffer t) = 256" "console_ok c2" using u(2) by (simp_all add: editor_ok_def)
  define b where "b = (input_buffer t)[?n := 10, ?n + 1 := 0]"
  define t1 where "t1 = ?t\<lparr>input_buffer := b, input_length := ?n + 1\<rparr>"
  let ?line = "before_cursor t @ after_cursor t @ [10, 0]"
  have lb: "length b = 256" using l(1) by (simp add: b_def)
  have bytes: "map ((!) b) [0..<Suc (?n + 1)] = ?line"
  proof -
    have "map ((!) b) [0..<?n] = take ?n (input_buffer t)"
      using l(1) len by (intro nth_equalityI) (auto simp: b_def)
    then show ?thesis using halves(3) [OF ok] l(1) len by (simp add: b_def)
  qed
  have p1: "pool_ok t1" "pool_size t1 = pool_size t" "pool_cell t1 = pool_cell t"
    "pool_bytes t1 (mem s) = pool_bytes t (mem s)" "top_reader t1 = None"
    "input_buffer t1 = b" "input_length t1 = ?n + 1" "dirty t1 = False"
    using p top by (simp_all add: t1_def pool_ok_def pool_size_def pool_cell_def pool_bytes_def fun_eq_iff)
  have "length ?line = ?n + 2" using halves(1,2) [OF ok] ok by (simp add: editor_ok_def)
  then have "pool_size t1 + length ?line < 1024" using p1(2) room by simp
  from pool_put_list [OF p1(1) this, of "s\<lparr>con := c2\<rparr>"] obtain r m where
    pp: "fold pool_put ?line (t1, s\<lparr>con := c2\<rparr>) = (t1\<lparr>pool_r := r\<rparr>, s\<lparr>con := c2, mem := m\<rparr>)"
      "pool_ok (t1\<lparr>pool_r := r\<rparr>)" "pool_bytes (t1\<lparr>pool_r := r\<rparr>) m = pool_bytes t (mem s) @ ?line"
      "\<forall>x. x \<notin> range (pool_cell t) \<longrightarrow> m x = mem s x"
    unfolding p1(3) by (simp del: fold_append) (metis p1(4))
  obtain c3 where c3: "console_printc 10 c2 = Inr c3" "console_ok c3"
    using printc_ok [OF l(2)] unfolding console_printc_def by blast
  let ?t' = "t1\<lparr>pool_r := r, input_buffer := b[0 := 0], cursor_pos := 0, input_length := 0\<rparr>"
  let ?s' = "s\<lparr>con := c3, mem := m\<rparr>"
  have "canonic_wakeup_read (t1\<lparr>pool_r := r\<rparr>, s\<lparr>con := c2, mem := m\<rparr>) = Some (Inr (t1\<lparr>pool_r := r\<rparr>, s\<lparr>con := c2, mem := m\<rparr>))"
    using p1(5) by (intro wakeup_no_reader) simp
  then have w: "canonic_wakeup_read (fold (\<lambda>i. pool_put (b ! i)) [0..<Suc (?n + 1)] (t1, s\<lparr>con := c2\<rparr>)) =
      Some (Inr (t1\<lparr>pool_r := r\<rparr>, s\<lparr>con := c2, mem := m\<rparr>))"
    by (simp only: fold_pool_put bytes pp(1))
  have "bindE (store_at ''input_buffer'' (input_buffer ?t) (input_length ?t) 10)
      (\<lambda>buf. store_at ''input_buffer'' buf (input_length ?t + 1) 0) = Inr b"
    using l(1) len by (simp add: b_def)
  then have "enter_line (?t, s\<lparr>con := c2\<rparr>) =
      bindR (canonic_wakeup_read (fold (\<lambda>i. pool_put (b ! i)) [0..<Suc (?n + 1)] (t1, s\<lparr>con := c2\<rparr>))) (\<lambda>(t, s).
        Some (bindE (console_printc 10 (con s)) (\<lambda>c.
           bindE (store_at ''input_buffer'' (input_buffer t) 0 0) (\<lambda>buf.
           Inr (t\<lparr>input_buffer := buf, cursor_pos := 0, input_length := 0\<rparr>, s\<lparr>con := c\<rparr>)))))"
    unfolding enter_line_def t1_def by (simp del: upt_Suc bindE_simps)
  also have "\<dots> = Some (Inr (?t', ?s'))" unfolding w using lb p1(6) c3(1) by simp
  finally have "enter_line (?t, s\<lparr>con := c2\<rparr>) = Some (Inr (?t', ?s'))" .
  then have run: "canonic_mode_getch ENTER (t, s) = Some (Inr (?t', ?s'))"
    using g u(1) by (simp add: canonic_mode_getch_def on_screen_def key_codes)
  have e: "before_cursor ?t' = []" "after_cursor ?t' = []"
    by (simp_all add: before_cursor_def after_cursor_def)
  have "shows_line [] [] c3" using c3(2) npos_less(1) by (simp add: shows_line_def)
  then have "editor_ok (?t', c3)" using lb c3(2) e by (simp add: editor_ok_def)
  moreover have "pool_bytes ?t' m = pool_bytes (t1\<lparr>pool_r := r\<rparr>) m" "pool_ok ?t' = pool_ok (t1\<lparr>pool_r := r\<rparr>)"
    by (simp_all add: pool_bytes_def pool_size_def pool_cell_def pool_ok_def)
  ultimately show ?thesis using run e pp(2-4)
    by (intro exI [of _ ?t'] exI [of _ ?s']) simp
qed

theorem enter_queues_line_witness:
  "\<exists>t' s'. canonic_mode_getch ENTER (boot_tty, boot_sys\<lparr>con := init_screen (con boot_sys)\<rparr>) = Some (Inr (t', s')) \<and>
     pool_bytes t' (mem s') = [10, 0]"
proof -
  have b: "editor_ok (boot_tty, con (boot_sys\<lparr>con := init_screen (con boot_sys)\<rparr>))" "input_length boot_tty \<le> 254"
    "pool_ok boot_tty" "pool_size boot_tty + input_length boot_tty + 2 < 1024" "top_reader boot_tty = None"
    "pool_bytes boot_tty m = []" "before_cursor boot_tty = []" "after_cursor boot_tty = []" for m
    using boot_editor by (simp_all add: boot_tty_def pool_ok_def in_kernel_def KOFFSET_def pool_size_def pool_bytes_def
      before_cursor_def after_cursor_def)
  from enter_queues_line [OF b(1-5)] show ?thesis unfolding b(6-8) by auto
qed

section \<open>Reading a line\<close>

lemma copy_line_spec:
  assumes map: "inj_on a {..<n}" "\<forall>i < n. \<forall>k. a i \<noteq> pool_cell t0 k" and W: "W = a ` {..<n}"
  shows "i + r = n \<Longrightarrow> user_mapped (mem s) cr3 buf n a \<Longrightarrow> tables_apart (mem s) cr3 buf n W \<Longrightarrow>
    pool_ok t \<Longrightarrow> pool_cell t = pool_cell t0 \<Longrightarrow> pool_bytes t (mem s) = l @ 0 # rest \<Longrightarrow> 0 \<notin> set l \<Longrightarrow>
    \<exists>f m. copy_line cr3 buf r i (t, s) = Some (i + min r (length l), t\<lparr>pool_f := f\<rparr>, s\<lparr>mem := m\<rparr>) \<and>
      pool_ok (t\<lparr>pool_f := f\<rparr>) \<and> pool_bytes (t\<lparr>pool_f := f\<rparr>) m = drop r l @ 0 # rest \<and>
      (\<forall>j < min r (length l). m (a (i + j)) = l ! j) \<and>
      (\<forall>x. x \<notin> a ` {i..<n} \<longrightarrow> m x = mem s x)"
proof (induction r arbitrary: i t s l)
  case 0
  then show ?case by (intro exI [of _ "pool_f t"] exI [of _ "mem s"]) simp
next
  case (Suc r)
  have ptr: "pool_byte t s = mem s (kphys (input_pool t + of_nat (pool_f t)))" by (simp add: pool_byte_def)
  show ?case
  proof (cases l)
    case Nil
    then have "pool_byte t s = 0" using pool_pop(1) [OF Suc.prems(4)] Suc.prems(6) ptr by simp
    then show ?thesis using Suc.prems Nil by (intro exI [of _ "pool_f t"] exI [of _ "mem s"]) simp
  next
    case (Cons x l')
    have b: "pool_bytes t (mem s) = x # (l' @ 0 # rest)" using Suc.prems(6) Cons by simp
    note pop = pool_pop [OF Suc.prems(4) b]
    have x: "pool_byte t s = x" "x \<noteq> 0" using pop(1) ptr Suc.prems(7) Cons by auto
    have i: "i < n" "a i \<in> W" using Suc.prems(1) W by auto
    let ?t = "t\<lparr>pool_f := (pool_f t + 1) mod 1024\<rparr>"
    define m where "m = (mem s)(a i := x)"
    have cf: "copy_from_kernel cr3 (buf + of_nat i) (input_pool t + of_nat (pool_f t)) 1 (mem s) = Some m"
      using copy_from_byte [OF Suc.prems(2,3) i(2,1)] pop(1) by (simp add: m_def)
    have keep: "\<forall>y. y \<notin> W \<longrightarrow> m y = mem s y" using i(2) by (simp add: m_def)
    note um = user_mapped_keep [OF Suc.prems(2,3) keep]
    have "m (pool_cell ?t k) = mem s (pool_cell ?t k)" for k
    proof -
      have "pool_cell ?t k \<noteq> a i" using map(2) i(1) Suc.prems(5) by (metis pool_cell_fields(1))
      then show ?thesis by (simp add: m_def)
    qed
    then have pb: "pool_bytes ?t m = l' @ 0 # rest" using pop(4) pool_bytes_cong by metis
    from Suc.IH [of "i + 1" "s\<lparr>mem := m\<rparr>" ?t l'] um pop(3) pb Suc.prems(1,5,7) Cons obtain f m' where
      ih: "copy_line cr3 buf r (i + 1) (?t, s\<lparr>mem := m\<rparr>) = Some (i + 1 + min r (length l'), t\<lparr>pool_f := f\<rparr>, s\<lparr>mem := m'\<rparr>)"
        "pool_ok (t\<lparr>pool_f := f\<rparr>)" "pool_bytes (t\<lparr>pool_f := f\<rparr>) m' = drop r l' @ 0 # rest"
        "\<forall>j < min r (length l'). m' (a (i + 1 + j)) = l' ! j" "\<forall>x. x \<notin> a ` {i + 1..<n} \<longrightarrow> m' x = m x"
      by auto
    have run: "copy_line cr3 buf (Suc r) i (t, s) = Some (i + min (Suc r) (length l), t\<lparr>pool_f := f\<rparr>, s\<lparr>mem := m'\<rparr>)"
      using ih(1) cf x Cons by (simp add: NR_INPUT_POOL_def)
    have "a i \<notin> a ` {i + 1..<n}"
    proof
      assume "a i \<in> a ` {i + 1..<n}"
      then obtain j where "i + 1 \<le> j" "j < n" "a i = a j" by auto
      then show False using map(1) i(1) by (auto dest: inj_onD)
    qed
    then have at: "m' (a i) = x" using ih(5) by (simp add: m_def)
    have "m' (a (i + j)) = l ! j" if "j < min (Suc r) (length l)" for j
      using that ih(4) at Cons by (cases j) auto
    moreover have "m' y = mem s y" if y: "y \<notin> a ` {i..<n}" for y
    proof -
      have "y \<notin> a ` {i + 1..<n}" "y \<noteq> a i" using y i(1) by auto
      then show ?thesis using ih(5) by (simp add: m_def)
    qed
    moreover have "drop (Suc r) l = drop r l'" using Cons by simp
    ultimately show ?thesis using run ih(2,3) by (intro exI [of _ f] exI [of _ m']) simp
  qed
qed

text \<open>C33: a read request of a process, when the pool holds a line: the process's buffer gets the first
  bytes of the line, as many as it asked for or the line has, it gets one answer with their number,
  the rest of the line stays for the next reader, a line read to its end is gone with its terminator,
  and the request is off the stack again.\<close>

theorem tty_read_delivers_line:
  assumes m: "m_src m \<noteq> MSG_HARD_INTR" "m_type m = DEV_READ" "sint (dev_pid m) = int c" "n = unat (dev_length m)"
    and p: "pool_ok t" "pool_bytes t (mem s) = l @ 0 # rest" "0 \<notin> set l"
    and free: "free_readers t = Some q" "q < length (read_pool t)"
    and u: "unread s c k ms" "k < Max_Message_Pool"
    and map: "user_mapped (mem s) (p_cr3 (proc s c)) (dev_buf m) n a"
      "tables_apart (mem s) (p_cr3 (proc s c)) (dev_buf m) n (a ` {..<n})" "inj_on a {..<n}"
      "\<forall>i < n. \<forall>k. a i \<noteq> pool_cell t k"
  shows "\<exists>t' s' r. tty_message dev m (d, t, s) = Some (Inr (d, t', s')) \<and>
    (\<forall>i < min n (length l). mem s' (a i) = l ! i) \<and> (\<forall>x. x \<notin> a ` {..<n} \<longrightarrow> mem s' x = mem s x) \<and>
    pool_bytes t' (mem s') = (if length l \<le> n then rest else drop n l @ 0 # rest) \<and> pool_ok t' \<and>
    top_reader t' = top_reader t \<and> free_readers t' = free_readers t \<and>
    unread s' c (Suc k) (ms @ [r]) \<and> int_p1 r = of_nat (min n (length l)) \<and>
    (\<forall>j. j \<noteq> c \<longrightarrow> proc s' j = proc s j)"
proof -
  let ?rs = "\<lparr>rs_pid = int c, rs_buf = dev_buf m, rs_length = dev_length m, rs_next = top_reader t\<rparr>"
  define t1 where "t1 = t\<lparr>free_readers := rs_next (read_pool t ! q), top_reader := Some q,
      read_pool := upd_at q (\<lambda>_. ?rs) (read_pool t)\<rparr>"
  have push: "read_stack_push (int c) (dev_buf m) (dev_length m) t = Inr t1"
    by (simp add: read_stack_push_def free(1) t1_def)
  have t1: "pool_ok t1" "pool_cell t1 = pool_cell t" "pool_bytes t1 (mem s) = l @ 0 # rest" "top_reader t1 = Some q"
    "read_pool t1 ! q = ?rs"
    using p free(2) by (simp_all add: t1_def pool_ok_def pool_bytes_def pool_size_def pool_cell_def fun_eq_iff)
  have ne: "pool_f t1 \<noteq> pool_r t1"
    using pool_pop(2) [OF t1(1)] t1(3) by (cases "l @ 0 # rest") auto
  have z: "0 + n = n" by simp
  from copy_line_spec [OF map(3,4) refl z map(1,2) t1(1,2,3) p(3)] obtain f m' where
    cl: "copy_line (p_cr3 (proc s c)) (dev_buf m) n 0 (t1, s) = Some (min n (length l), t1\<lparr>pool_f := f\<rparr>, s\<lparr>mem := m'\<rparr>)"
      "pool_ok (t1\<lparr>pool_f := f\<rparr>)" "pool_bytes (t1\<lparr>pool_f := f\<rparr>) m' = drop n l @ 0 # rest"
      "\<forall>j < min n (length l). m' (a j) = l ! j" "\<forall>x. x \<notin> a ` {..<n} \<longrightarrow> m' x = mem s x"
    by (auto simp: lessThan_atLeast0)
  let ?t2 = "t1\<lparr>pool_f := f\<rparr>" and ?s2 = "s\<lparr>mem := m'\<rparr>"
  define t3 where "t3 = (if pool_byte ?t2 ?s2 = 0 then ?t2\<lparr>pool_f := (f + 1) mod 1024\<rparr> else ?t2)"
  have t3: "pool_bytes t3 m' = (if length l \<le> n then rest else drop n l @ 0 # rest)" "pool_ok t3"
    "\<exists>f. t3 = t1\<lparr>pool_f := f\<rparr>"
  proof -
    have "pool_bytes t3 m' = (if length l \<le> n then rest else drop n l @ 0 # rest) \<and> pool_ok t3"
    proof (cases "length l \<le> n")
      case True
      then have "pool_bytes ?t2 m' = 0 # rest" using cl(3) by simp
      from pool_pop [OF cl(2) this] show ?thesis using True by (simp add: t3_def pool_byte_def)
    next
      case False
      then obtain y ys where y: "drop n l = y # ys" by (cases "drop n l") auto
      then have "y \<noteq> 0" using p(3) by (metis in_set_dropD list.set_intros(1))
      moreover have "pool_bytes ?t2 m' = y # (ys @ 0 # rest)" using cl(3) y by simp
      from pool_pop(1) [OF cl(2) this] have "pool_byte ?t2 ?s2 = y" by (simp add: pool_byte_def)
      ultimately show ?thesis using False cl(2,3) by (simp add: t3_def)
    qed
    then show "pool_bytes t3 m' = (if length l \<le> n then rest else drop n l @ 0 # rest)" "pool_ok t3" by simp_all
    show "\<exists>f. t3 = t1\<lparr>pool_f := f\<rparr>" by (auto simp: t3_def)
  qed
  let ?r = "(wakeup_m t3)\<lparr>m_w0 := of_nat (min n (length l))\<rparr>"
  define t4 where "t4 = t3\<lparr>wakeup_m := ?r\<rparr>"
  have u2: "unread ?s2 c k ms" using unread_proc_cong [OF u(1)] by simp
  from send_unread [OF u2 u(2), of ?r] obtain s' where s': "send (int c) ?r ?s2 = Inr s'"
    "unread s' c (Suc k) (ms @ [stamped ?s2 (int c) ?r])" "mem s' = m'" "\<forall>j. j \<noteq> c \<longrightarrow> proc s' j = proc ?s2 j"
    by auto
  have t4: "top_reader t4 = Some q" "read_pool t4 ! q = ?rs" "length (read_pool t4) = length (read_pool t)"
    using t3(3) t1(4,5) by (auto simp: t4_def t1_def)
  define t5 where "t5 = t4\<lparr>top_reader := top_reader t, free_readers := Some q,
            read_pool := upd_at q (rs_next_update (\<lambda>_. free_readers t4)) (read_pool t4)\<rparr>"
  have pop: "read_stack_pop q t4 = Inr t5" using t4 by (simp add: read_stack_pop_def t5_def)
  have "canonic_wakeup_read (t1, s) =
      Some (bindE (send (int c) (wakeup_m t4) ?s2) (\<lambda>s. bindE (read_stack_pop q t4) (\<lambda>t. Inr (t, s))))"
    using t1(4,5) ne fetch_pcb_ok [OF unread_in_table [OF u(1)]] cl(1) m(4)
    by (cases "pool_byte ?t2 ?s2 = 0") (simp_all add: canonic_wakeup_read_def Let_def t3_def t4_def NR_INPUT_POOL_def)
  also have "wakeup_m t4 = ?r" by (simp add: t4_def)
  also have "Some (bindE (send (int c) ?r ?s2) (\<lambda>s. bindE (read_stack_pop q t4) (\<lambda>t. Inr (t, s)))) = Some (Inr (t5, s'))"
    using s'(1) pop by simp
  finally have "canonic_wakeup_read (t1, s) = Some (Inr (t5, s'))" .
  then have run: "tty_message dev m (d, t, s) = Some (Inr (d, t5, s'))"
    using m push by (simp add: tty_message_def)
  have same: "pool_bytes t5 m' = pool_bytes t3 m'" "pool_ok t5 = pool_ok t3"
    by (simp_all add: t5_def t4_def pool_bytes_def pool_size_def pool_cell_def pool_ok_def)
  have "int_p1 (stamped ?s2 (int c) ?r) = of_nat (min n (length l))" by (simp add: stamped_def int_p1_def)
  moreover have "top_reader t5 = top_reader t" "free_readers t5 = free_readers t" using free(1) by (simp_all add: t5_def)
  ultimately show ?thesis
    using run s' cl(4,5) t3(1,2) same by (intro exI [of _ t5] exI [of _ s']) auto
qed

text \<open>The letter A waits in the pool; process 0 of \<open>io_sys\<close> reads three bytes.\<close>

definition typed_sys :: sys where
  "typed_sys = io_sys\<lparr>mem := two_pages(0x300000 := 65)\<rparr>"

definition typed_tty :: tty where
  "typed_tty = boot_tty\<lparr>pool_r := 2, free_readers := Some 0\<rparr>"

lemma typed_pool: "pool_ok typed_tty" "pool_bytes typed_tty (mem typed_sys) = [65] @ 0 # []"
proof -
  show "pool_ok typed_tty" by (simp add: typed_tty_def boot_tty_def pool_ok_def in_kernel_def KOFFSET_def)
  have "two_pages 0x300001 = 0" by (simp add: two_pages_def store32_def)
  moreover have "pool_size typed_tty = 2" by (simp add: typed_tty_def boot_tty_def pool_size_def)
  moreover have "pool_cell typed_tty 0 = 0x300000" "pool_cell typed_tty 1 = 0x300001" "pool_f typed_tty = 0"
    by (simp_all add: typed_tty_def boot_tty_def pool_cell_def kphys_def in_kernel_def KOFFSET_def va_to_pa_def)
  ultimately show "pool_bytes typed_tty (mem typed_sys) = [65] @ 0 # []"
    by (simp add: pool_bytes_def typed_sys_def numeral_2_eq_2)
qed

lemma typed_apart: "\<forall>i < 3. \<forall>k. two_pages_at i \<noteq> pool_cell typed_tty k"
proof (intro allI impI)
  fix i k :: nat assume i: "i < 3"
  have "unat (pool_cell typed_tty k) + unat KOFFSET = unat (input_pool typed_tty) + k mod 1024"
    unfolding pool_cell_def by (rule pool_address(1) [OF typed_pool(1)]) simp
  then have "0x300000 \<le> unat (pool_cell typed_tty k)" by (simp add: typed_tty_def boot_tty_def KOFFSET_def)
  moreover have "unat (two_pages_at i) < 0x300000" using i unfolding less_3 by (auto simp: two_pages_at_def)
  ultimately show "two_pages_at i \<noteq> pool_cell typed_tty k" by auto
qed

theorem tty_read_delivers_line_witness:
  "\<exists>t' s' r. tty_message sample_drive (io_request DEV_READ) (sevens, typed_tty, typed_sys) = Some (Inr (sevens, t', s')) \<and>
     mem s' 0x5FFE = 65 \<and> int_p1 r = 1 \<and> unread s' 0 1 [r] \<and> pool_bytes t' (mem s') = []"
proof -
  let ?m = "io_request DEV_READ"
  have m: "m_src ?m \<noteq> MSG_HARD_INTR" "m_type ?m = DEV_READ" "sint (dev_pid ?m) = int 0" "3 = unat (dev_length ?m)"
    by (simp_all add: MSG_HARD_INTR_def) (simp add: io_request_def dev_pid_def zero_message_def)
  have f: "free_readers typed_tty = Some 0" "0 < length (read_pool typed_tty)" by (simp_all add: typed_tty_def boot_tty_def)
  have u: "unread typed_sys 0 0 []" "0 < Max_Message_Pool"
    using unread_proc_cong [OF io_sys(1)] by (simp_all add: typed_sys_def Max_Message_Pool_def)
  have keep: "\<forall>x. x \<notin> {0x300000} \<longrightarrow> (two_pages(0x300000 := 65)) x = two_pages x" by simp
  have t: "tables_apart two_pages 0x1000 0xFFE 3 ({0x300000} \<union> two_pages_at ` {..<3})"
    by (rule two_pages_apart) (auto simp: two_pages_at_def less_3)
  have sub: "{0x300000} \<subseteq> {0x300000} \<union> two_pages_at ` {..<3}" "two_pages_at ` {..<3} \<subseteq> {0x300000} \<union> two_pages_at ` {..<3}"
    by blast+
  have k2: "\<forall>x. x \<notin> {0x300000} \<union> two_pages_at ` {..<3} \<longrightarrow> (two_pages(0x300000 := 65)) x = two_pages x" by simp
  have map: "user_mapped (mem typed_sys) (p_cr3 (proc typed_sys 0)) (dev_buf ?m) 3 two_pages_at"
    "tables_apart (mem typed_sys) (p_cr3 (proc typed_sys 0)) (dev_buf ?m) 3 (two_pages_at ` {..<3})"
    using user_mapped_keep [OF two_pages_mapped t k2] tables_apart_mono [OF _ order_refl sub(2)] io_sys(2)
    by (simp_all add: typed_sys_def fun_upd_def)
  from tty_read_delivers_line [OF m typed_pool(1,2) _ f u map io_buffer(1) typed_apart, of sample_drive sevens]
  obtain t' s' r where r: "tty_message sample_drive ?m (sevens, typed_tty, typed_sys) = Some (Inr (sevens, t', s'))"
    "\<forall>i < min 3 (length [65 :: u8]). mem s' (two_pages_at i) = [65] ! i" "unread s' 0 (Suc 0) ([] @ [r])"
    "int_p1 r = of_nat (min 3 (length [65 :: u8]))" "pool_bytes t' (mem s') = (if length [65 :: u8] \<le> 3 then [] else drop 3 [65] @ 0 # [])"
    by auto
  have "mem s' 0x5FFE = 65" using r(2) [rule_format, of 0] by (simp add: two_pages_at_def)
  then show ?thesis using r by auto
qed

end
