(* ===== verification/Fm.thy ===== *)
theory Fm
  imports Interrupts
begin

text \<open>
  The file server (kernel/fm.c) and the disk image it reads (tools/makefs.c). A file is a number; its
  bytes start at a fixed place behind the kernel. Sending a request to another server and receiving
  its answer is the parameter \<open>call\<close>.
\<close>

section \<open>The file server\<close>

definition FM_READ_FILE :: u32 where "FM_READ_FILE = 0xA0"
definition FM_READ :: u32 where "FM_READ = 0xA1"
definition FM_WRITE :: u32 where "FM_WRITE = 0xA2"

definition Kernel_Size :: u32 where "Kernel_Size = 1024 * 1024"
definition File_Size :: u32 where "File_Size = 64 * 1024"

lemmas fm_numbers = FM_READ_FILE_def FM_READ_def FM_WRITE_def

definition fm_buf :: "message \<Rightarrow> u32" where "fm_buf m = m_w1 m"
definition fm_offset :: "message \<Rightarrow> u32" where "fm_offset m = m_w2 m"
definition fm_length :: "message \<Rightarrow> u32" where "fm_length m = m_w3 m"

type_synonym 's call = "int \<Rightarrow> message \<Rightarrow> 's \<Rightarrow> error + message \<times> 's"

text \<open>The static \<open>m\<close> of each routine is the first argument.\<close>

definition do_read_file :: "message \<Rightarrow> 's call \<Rightarrow> int \<Rightarrow> u32 \<Rightarrow> u32 \<Rightarrow> u32 \<Rightarrow> u32 \<Rightarrow> 's \<Rightarrow> error + u32 \<times> 's" where
  "do_read_file m call pid file_name buffer offset len s =
     bindE (call IDE (m\<lparr>m_type := DEV_READ, m_w0 := of_int pid, m_w1 := buffer,
              m_w2 := offset + Kernel_Size + (file_name - 1) * File_Size, m_w3 := len\<rparr>) s) (\<lambda>(m, s).
     Inr (int_p1 m, s))"

definition fm_do_read :: "message \<Rightarrow> 's call \<Rightarrow> int \<Rightarrow> u32 \<Rightarrow> u32 \<Rightarrow> u32 \<Rightarrow> 's \<Rightarrow> error + u32 \<times> 's" where
  "fm_do_read m call pid buffer offset len s =
     bindE (call IDE (m\<lparr>m_type := DEV_READ, m_w0 := of_int pid, m_w1 := buffer,
              m_w2 := offset + Kernel_Size, m_w3 := len\<rparr>) s) (\<lambda>(m, s).
     Inr (int_p1 m, s))"

definition fm_do_write :: "message \<Rightarrow> 's call \<Rightarrow> int \<Rightarrow> u32 \<Rightarrow> u32 \<Rightarrow> u32 \<Rightarrow> 's \<Rightarrow> error + u32 \<times> 's" where
  "fm_do_write m call pid buffer offset len s =
     bindE (call IDE (m\<lparr>m_type := DEV_WRITE, m_w0 := of_int pid, m_w1 := buffer,
              m_w2 := offset + Kernel_Size, m_w3 := len\<rparr>) s) (\<lambda>(m, s).
     Inr (int_p1 m, s))"

text \<open>One message of \<open>FileManagement\<close>; \<open>pid\<close> is the server's own process.\<close>

definition fm_message :: "message \<Rightarrow> ('w \<times> sys) call \<Rightarrow> int \<Rightarrow> message \<Rightarrow> 'w \<times> sys \<Rightarrow> error + 'w \<times> sys" where
  "fm_message m0 call pid m s =
     (let answer = (\<lambda>(n, s). reply (m_src m) (m\<lparr>m_w0 := n, m_type := -1\<rparr>) s) in
      if m_type m = FM_READ_FILE then
        bindE (do_read_file m0 call pid (fm_file_name m) (fm_buf m) (fm_offset m) (fm_length m) s) answer
      else if m_type m = FM_READ then
        bindE (fm_do_read m0 call pid (fm_buf m) (fm_offset m) (fm_length m) s) answer
      else if m_type m = FM_WRITE then
        bindE (fm_do_write m0 call pid (fm_buf m) (fm_offset m) (fm_length m) s) answer
      else Inr s)"

section \<open>The disk image\<close>

text \<open>\<open>for (; counter != sz; ++ counter) fprintf(stdout, "%c", 0);\<close>\<close>

partial_function (option) pad_image :: "nat \<Rightarrow> nat \<Rightarrow> u8 list \<Rightarrow> u8 list option" where
  "pad_image sz counter out = (if counter = sz then Some out else pad_image sz (Suc counter) (out @ [0]))"

text \<open>The copy of one input and its padding.\<close>

definition add_file :: "nat \<Rightarrow> u8 list \<Rightarrow> u8 list \<Rightarrow> u8 list option" where
  "add_file sz file out = pad_image sz (length file) (out @ file)"

fun add_files :: "u8 list list \<Rightarrow> u8 list \<Rightarrow> u8 list option" where
  "add_files [] out = Some out"
| "add_files (f # fs) out = (case add_file (unat File_Size) f out of None \<Rightarrow> None | Some out \<Rightarrow> add_files fs out)"

text \<open>\<open>main\<close> with the contents of the files of \<open>argv\<close>: \<open>Some None\<close> is the error exit.\<close>

definition makefs :: "u8 list list \<Rightarrow> u8 list option option" where
  "makefs args =
     (case args of
        [] \<Rightarrow> Some None
      | kern # files \<Rightarrow>
          (case add_file (unat Kernel_Size) kern [] of
             None \<Rightarrow> None
           | Some out \<Rightarrow> (case add_files files out of None \<Rightarrow> None | Some out \<Rightarrow> Some (Some out))))"

section \<open>Files in the image\<close>

lemma pad_image_ends: "c \<le> sz \<Longrightarrow> pad_image sz c out = Some (out @ replicate (sz - c) 0)"
proof (induction "sz - c" arbitrary: c out)
  case 0
  then show ?case by (subst pad_image.simps) simp
next
  case (Suc n)
  then have "n = sz - Suc c" "Suc c \<le> sz" "sz - c = Suc n" by auto
  then show ?case using Suc.hyps(1) [of "Suc c" "out @ [0]"]
    by (subst pad_image.simps) auto
qed

lemma pad_image_loops:
  assumes "sz < c"
  shows "pad_image sz c out = None"
proof -
  have "pad_image sz c out = Some y \<Longrightarrow> c \<le> sz" for c out y
    by (rule pad_image.raw_induct [of "\<lambda>sz c out y. c \<le> sz" sz c out y])
      (auto split: if_splits intro: Suc_leD)
  then show ?thesis using assms by (cases "pad_image sz c out") fastforce+
qed

definition padded :: "nat \<Rightarrow> u8 list \<Rightarrow> u8 list" where
  "padded sz file = file @ replicate (sz - length file) 0"

lemma add_file_padded: "length file \<le> sz \<Longrightarrow> add_file sz file out = Some (out @ padded sz file)"
  by (simp add: add_file_def padded_def pad_image_ends)

lemma add_files_padded:
  "\<forall>f \<in> set fs. length f \<le> unat File_Size \<Longrightarrow>
     add_files fs out = Some (out @ concat (map (padded (unat File_Size)) fs))"
  by (induction fs arbitrary: out) (simp_all add: add_file_padded)

lemma length_padded: "length file \<le> sz \<Longrightarrow> length (padded sz file) = sz"
  by (simp add: padded_def)

lemma nth_concat_blocks:
  "\<forall>x \<in> set xs. length x = n \<Longrightarrow> i < length xs \<Longrightarrow> k < n \<Longrightarrow> concat xs ! (i * n + k) = xs ! i ! k"
proof (induction xs arbitrary: i)
  case Nil
  then show ?case by simp
next
  case (Cons x xs)
  then show ?case by (cases i) (simp_all add: nth_append)
qed

lemma sizes: "unat Kernel_Size = 1048576" "unat File_Size = 65536"
  by (simp_all add: Kernel_Size_def File_Size_def)

lemma makefs_image:
  assumes "length kern \<le> unat Kernel_Size" "\<forall>f \<in> set files. length f \<le> unat File_Size"
  shows "makefs (kern # files) =
    Some (Some (padded (unat Kernel_Size) kern @ concat (map (padded (unat File_Size)) files)))"
  using assms by (simp add: makefs_def add_file_padded add_files_padded)

text \<open>Where the image has the bytes of a file, and of the zeros that fill its place.\<close>

lemma image_place_byte:
  assumes "length kern \<le> unat Kernel_Size" "\<forall>f \<in> set files. length f \<le> unat File_Size"
    and "makefs (kern # files) = Some (Some img)" and i: "i < length files" and j: "j < 65536"
  shows "img ! (1048576 + (i * 65536 + j)) = padded (unat File_Size) (files ! i) ! j" "1048576 + (i * 65536 + j) < length img"
proof -
  let ?blocks = "map (padded (unat File_Size)) files"
  have img: "img = padded (unat Kernel_Size) kern @ concat ?blocks" using makefs_image [OF assms(1,2)] assms(3) by simp
  have lp: "length (padded (unat Kernel_Size) kern) = 1048576" using assms(1) length_padded sizes by metis
  have bl: "\<forall>x \<in> set ?blocks. length x = 65536" using assms(2) length_padded sizes by auto
  have "img ! (1048576 + (i * 65536 + j)) = concat ?blocks ! (i * 65536 + j)" using lp unfolding img by (simp only: nth_append) simp
  also have "\<dots> = ?blocks ! i ! j" using nth_concat_blocks [OF bl] i j by simp
  finally show "img ! (1048576 + (i * 65536 + j)) = padded (unat File_Size) (files ! i) ! j" using i by simp
  have "sum_list (map length bs) = length bs * 65536" if "\<forall>x \<in> set bs. length x = 65536" for bs :: "u8 list list"
    using that by (induction bs) simp_all
  from this [OF bl] have "length (concat ?blocks) = length files * 65536" by (simp only: length_concat length_map)
  moreover have "(i + 1) * 65536 \<le> length files * 65536" using i by (intro mult_right_mono) simp_all
  ultimately show "1048576 + (i * 65536 + j) < length img" using lp j unfolding img by simp
qed

lemma image_file_byte:
  assumes "length kern \<le> unat Kernel_Size" "\<forall>f \<in> set files. length f \<le> unat File_Size"
    and "makefs (kern # files) = Some (Some img)" and i: "i < length files" and j: "j < length (files ! i)"
  shows "img ! (1048576 + (i * 65536 + j)) = files ! i ! j" "1048576 + (i * 65536 + j) < length img"
proof -
  have "files ! i \<in> set files" using i by simp
  then have j2: "j < 65536" using assms(2) sizes j by fastforce
  have "padded (unat File_Size) (files ! i) ! j = files ! i ! j" using j by (simp add: padded_def nth_append)
  then show "img ! (1048576 + (i * 65536 + j)) = files ! i ! j" "1048576 + (i * 65536 + j) < length img"
    using image_place_byte [OF assms(1-3) i j2] by simp_all
qed

text \<open>The file server and the program that writes the disk image agree on where files are: for an
  image made of files that fit, the request that the server sends to the disk driver for a place in
  a file is for the device offset at which the image has that byte of that file, and the bytes after
  it in order.\<close>

theorem file_server_finds_files:
  assumes "length kern \<le> unat Kernel_Size" "\<forall>f \<in> set files. length f \<le> unat File_Size"
    and i: "i < length files" "length files \<le> 65000" and k: "k < length (files ! i)"
  shows "\<exists>img req. makefs (kern # files) = Some (Some img) \<and>
    do_read_file m call pid (of_nat (Suc i)) buffer (of_nat k) len s =
      bindE (call IDE req s) (\<lambda>(m, s). Inr (int_p1 m, s)) \<and>
    m_type req = DEV_READ \<and> dev_buf req = buffer \<and> dev_length req = len \<and>
    (\<forall>j. k + j < length (files ! i) \<longrightarrow> img ! (unat (dev_offset req) + j) = files ! i ! (k + j))"
proof -
  let ?req = "m\<lparr>m_type := DEV_READ, m_w0 := of_int pid, m_w1 := buffer,
      m_w2 := of_nat k + Kernel_Size + (of_nat (Suc i) - 1) * File_Size, m_w3 := len\<rparr>"
  have fi: "files ! i \<in> set files" using i by simp
  then have lk: "length (files ! i) \<le> 65536" using assms(2) sizes by simp
  have kl: "k < 65536" using k lk by linarith
  have "unat (of_nat k + Kernel_Size + (of_nat i :: u32) * File_Size) = 1048576 + (i * 65536 + k)"
    using kl i by (simp add: unat_word_ariths unat_of_nat Kernel_Size_def File_Size_def)
  then have off: "unat (dev_offset ?req) = 1048576 + (i * 65536 + k)" by (simp add: dev_offset_def)
  let ?img = "padded (unat Kernel_Size) kern @ concat (map (padded (unat File_Size)) files)"
  have "?img ! (unat (dev_offset ?req) + j) = files ! i ! (k + j)" if "k + j < length (files ! i)" for j
    using image_file_byte(1) [OF assms(1,2) makefs_image [OF assms(1,2)] i(1) that] off by (simp add: add.assoc)
  then show ?thesis
    using makefs_image [OF assms(1,2)]
    by (intro exI [of _ ?img] exI [of _ ?req])
      (simp add: do_read_file_def dev_buf_def dev_length_def)
qed


theorem file_server_finds_files_witness:
  "\<exists>img req. makefs [[7], [1, 2], [3, 4]] = Some (Some img) \<and>
     do_read_file zero_message (\<lambda>_ m s. Inr (m, s)) 4 2 0x5000 1 1 () =
       bindE ((\<lambda>_ m s. Inr (m, s)) IDE req ()) (\<lambda>(m, s). Inr (int_p1 m, s)) \<and> img ! unat (dev_offset req) = 4"
proof -
  let ?files = "[[1, 2], [3, 4]] :: u8 list list"
  have "length [7 :: u8] \<le> unat Kernel_Size" "\<forall>f \<in> set ?files. length f \<le> unat File_Size" "1 < length ?files"
    "length ?files \<le> 65000" "1 < length (?files ! 1)" by (simp_all add: sizes)
  from file_server_finds_files [OF this, of zero_message "\<lambda>_ m s. Inr (m, s)" 4 "0x5000" 1 "()"]
  show ?thesis by fastforce
qed


end
