(* ===== verification/Pm.thy ===== *)
theory Pm
  imports Fm MemoryServer "HOL-Library.Multiset"
begin

text \<open>
  The process server (kernel/pm.c): forking, loading and replacing user processes, their end, and the
  queue of processes that wait for the end of another. Sending a request to another server and
  receiving its answer is the parameter \<open>call\<close>; while the server waits, the rest of the system runs,
  so \<open>call\<close> gives a new state. The buffers whose addresses the server passes on lie in memory, at
  the addresses of the record below.
\<close>

section \<open>State\<close>

definition argv_size :: nat where "argv_size = 150"
definition NR_argv :: nat where "NR_argv = 10"

record WaitQueue_type =
  wq_pid :: u32
  wq_wait_for :: int

record wait_queue =
  WaitQueue :: "WaitQueue_type list"
  WQ_ptr :: nat

text \<open>\<open>buf\<close>, \<open>segment_buf\<close>, \<open>argv\<close>, \<open>argv_ptr\<close>, the local variables \<open>key\<close> and \<open>argc\<close>, and the entry
  \<open>asm_do_int80_exit\<close>.\<close>

record pm_addrs =
  pm_buf :: u32
  pm_segment_buf :: u32
  pm_argv :: u32
  pm_argv_ptr :: u32
  pm_key :: u32
  pm_argc :: u32
  asm_do_int80_exit :: u32

text \<open>The system with the use counts of the frames and whatever else \<open>call\<close> may change.\<close>

type_synonym 'w world = "((u32 \<Rightarrow> u8) \<times> 'w) \<times> sys"

definition on_sys :: "(sys \<Rightarrow> sys) \<Rightarrow> 'w world \<Rightarrow> 'w world" where
  "on_sys f = (\<lambda>(x, s). (x, f s))"

definition print_sys :: "(console \<Rightarrow> error + console) \<Rightarrow> 'w world \<Rightarrow> error + 'w world" where
  "print_sys f = (\<lambda>(x, s). bindE (f (con s)) (\<lambda>c. Inr (x, s\<lparr>con := c\<rparr>)))"

section \<open>Waiting for the end of a process\<close>

definition init_PM :: "wait_queue \<Rightarrow> wait_queue" where
  "init_PM q = q\<lparr>WQ_ptr := 0\<rparr>"

definition Sleep :: "u32 \<Rightarrow> u32 \<Rightarrow> wait_queue \<Rightarrow> error + wait_queue" where
  "Sleep pid wait_for q =
     bindE (store_at ''WaitQueue'' (WaitQueue q) (WQ_ptr q) \<lparr>wq_pid = pid, wq_wait_for = sint wait_for\<rparr>) (\<lambda>wq.
     Inr (q\<lparr>WaitQueue := wq, WQ_ptr := WQ_ptr q + 1\<rparr>))"

function wake_loop :: "int \<Rightarrow> message \<Rightarrow> nat \<Rightarrow> WaitQueue_type list \<Rightarrow> nat \<Rightarrow> sys \<Rightarrow> error + WaitQueue_type list \<times> nat \<times> sys" where
  "wake_loop pid m i wq n s =
     (if i < n then
        bindE (load_at ''WaitQueue'' wq i) (\<lambda>e.
          if wq_wait_for e = pid then
            bindE (send (sint (wq_pid e)) m s) (\<lambda>s.
              wake_loop pid m i (if n > 1 then wq[i := wq ! (n - 1)] else wq) (n - 1) s)
          else wake_loop pid m (i + 1) wq n s)
      else Inr (wq, n, s))"
  by pat_completeness auto
termination by (relation "measure (\<lambda>(pid, m, i, wq, n, s). n - i)") auto

declare wake_loop.simps [simp del]

text \<open>The static \<open>m\<close> is the first argument; the first lines hold the kernel lock.\<close>

definition Wake_Up :: "message \<Rightarrow> int \<Rightarrow> u32 \<Rightarrow> wait_queue \<times> sys \<Rightarrow> error + wait_queue \<times> sys" where
  "Wake_Up m pid exitcode = (\<lambda>(q, s).
     bindE (wake_loop pid (m\<lparr>m_type := -1, m_w2 := exitcode\<rparr>) 0 (WaitQueue q) (WQ_ptr q) (lock s)) (\<lambda>(wq, n, s).
     Inr (q\<lparr>WaitQueue := wq, WQ_ptr := n\<rparr>, unlock s)))"

section \<open>The end of a process\<close>

definition Exit_uthread :: "message \<Rightarrow> 'w world call \<Rightarrow> int \<Rightarrow> 'w world \<Rightarrow> error + 'w world" where
  "Exit_uthread m call pid = (\<lambda>(x, s).
     bindE (proc_index s pid) (\<lambda>i.
     let s = upd_proc i (\<lambda>p. p\<lparr>p_status := STATUS_SLEEPING, p_flag := True\<rparr>) (lock s) in
     bindE (unlink_proc i (Proc s)) (\<lambda>P.
     let s = unlock (s\<lparr>Proc := P\<rparr>) in
     bindE (call MM (m\<lparr>m_type := MM_EXIT_PROC, m_w0 := pcb_addr s i\<rparr>) (x, s)) (\<lambda>(_, st). Inr st))))"

section \<open>Forking\<close>

text \<open>The kernel walks the tables of the process through the physical addresses they hold.\<close>

definition V_to_P :: "u32 \<Rightarrow> u32 \<Rightarrow> memory \<Rightarrow> u32" where
  "V_to_P va cr3 m =
     (let pde = load32 m (kphys ((cr3 AND NOT 0xFFF) + 4 * drop_bit 22 va));
          pte = load32 m (kphys ((pde AND NOT 0xFFF) + 4 * (drop_bit 12 va AND 0x3FF)))
      in (pte AND NOT 0xFFF) OR (va AND 0xFFF))"

definition fork_allocate :: "nat \<Rightarrow> 'w world \<Rightarrow> error + nat \<times> 'w world" where
  "fork_allocate src = (\<lambda>(x, s).
     let s = lock s in
     case Find_Empty_PCB s of
       None \<Rightarrow> panic ''Process Table is Full!\<newline>''
     | Some new \<Rightarrow>
         bindE (print_sys (green_printk ''Forking: New PID = %d\<newline>'' [ArgWord (of_nat new)]) (x, s)) (\<lambda>(x, s).
         let s = upd_proc new (\<lambda>p. init_message_pool (p\<lparr>p_pid := int new, p_flag := False,
                   time_elapsed := time_elapsed (proc s src)\<rparr>)) s
         in Inr (new, x, unlock s)))"

definition fork_start :: "nat \<Rightarrow> nat \<Rightarrow> sys \<Rightarrow> error + sys" where
  "fork_start src new s =
     (let s = lock s; top = kstack_addr s new + STACK_SIZE;
          s = upd_proc new (p_kstack_top_update (\<lambda>_. top)) s;
          s = s\<lparr>mem := store32 (kphys (top - 4)) (load32 (mem s) (kphys (p_kstack_top (proc s src) - 4))) (mem s)\<rparr>;
          s = upd_proc new (p_esp_update (\<lambda>_. top - 4)) s;
          eax_addr = load32 (mem s) (kphys (top - 4)) + 4 * 7;
          s = s\<lparr>mem := store32 (kphys (V_to_P eax_addr (p_cr3 (proc s new)) (mem s))) 0 (mem s)\<rparr>
      in bindE (link_before_init new (Proc s)) (\<lambda>P.
         Inr (unlock (upd_proc new (p_status_update (\<lambda>_. STATUS_WAITING)) (s\<lparr>Proc := P\<rparr>)))))"

definition Fork_uthread :: "message \<Rightarrow> 'w world call \<Rightarrow> int \<Rightarrow> 'w world \<Rightarrow> error + nat \<times> 'w world" where
  "Fork_uthread m call pid = (\<lambda>(x, s).
     bindE (proc_index s pid) (\<lambda>src.
     bindE (fork_allocate src (x, s)) (\<lambda>(new, x, s).
     bindE (call MM (m\<lparr>m_type := MM_COPY, m_w1 := pcb_addr s src, m_w0 := pcb_addr s new\<rparr>) (x, s)) (\<lambda>(_, x, s).
     bindE (fork_start src new s) (\<lambda>s. Inr (new, x, s))))))"

section \<open>Loading a program\<close>

text \<open>The fields of the ELF header and of a program header, at their places in memory.\<close>

definition load16 :: "memory \<Rightarrow> u32 \<Rightarrow> u16" where
  "load16 m a = ucast (m a) OR push_bit 8 (ucast (m (a + 1)))"

definition elf_entry :: "memory \<Rightarrow> u32 \<Rightarrow> u32" where "elf_entry m elf = load32 m (kphys (elf + 24))"
definition elf_phoff :: "memory \<Rightarrow> u32 \<Rightarrow> u32" where "elf_phoff m elf = load32 m (kphys (elf + 28))"
definition elf_phnum :: "memory \<Rightarrow> u32 \<Rightarrow> u16" where "elf_phnum m elf = load16 m (kphys (elf + 44))"

definition ph_off :: "memory \<Rightarrow> u32 \<Rightarrow> u32" where "ph_off m ph = load32 m (kphys (ph + 4))"
definition ph_vaddr :: "memory \<Rightarrow> u32 \<Rightarrow> u32" where "ph_vaddr m ph = load32 m (kphys (ph + 8))"
definition ph_filesz :: "memory \<Rightarrow> u32 \<Rightarrow> u32" where "ph_filesz m ph = load32 m (kphys (ph + 16))"
definition ph_memsz :: "memory \<Rightarrow> u32 \<Rightarrow> u32" where "ph_memsz m ph = load32 m (kphys (ph + 20))"

text \<open>The request for the ELF header, and the two for one segment. \<open>ty\<close> is the type of the request
  to the file server: \<open>load_init_proc\<close> and \<open>Exec_uthread\<close> differ in it.\<close>

definition header_request :: "message \<Rightarrow> pm_addrs \<Rightarrow> u32 \<Rightarrow> message" where
  "header_request m A file_name =
     m\<lparr>m_type := FM_READ_FILE, m_w0 := file_name, m_w1 := pm_buf A, m_w2 := 0, m_w3 := 4096\<rparr>"

definition segment_request :: "message \<Rightarrow> pm_addrs \<Rightarrow> u32 \<Rightarrow> u32 \<Rightarrow> u32 \<Rightarrow> memory \<Rightarrow> message" where
  "segment_request m A ty file_name ph mm =
     m\<lparr>m_type := ty, m_w0 := file_name, m_w1 := pm_segment_buf A, m_w2 := ph_off mm ph, m_w3 := ph_filesz mm ph\<rparr>"

definition space_request :: "message \<Rightarrow> u32 \<Rightarrow> u32 \<Rightarrow> memory \<Rightarrow> u32 \<Rightarrow> message" where
  "space_request m target va mm ph =
     m\<lparr>m_type := MM_ALLOCATE, m_w0 := target, m_w2 := va, m_w3 := drop_bit 12 (ph_memsz mm ph) + 1\<rparr>"

definition load_segment :: "message \<Rightarrow> 'w world call \<Rightarrow> pm_addrs \<Rightarrow> u32 \<Rightarrow> u32 \<Rightarrow> nat \<Rightarrow> u32 \<Rightarrow> 'w world \<Rightarrow> (error + 'w world) option" where
  "load_segment m call A ty file_name i ph = (\<lambda>(x, s).
     let va = ph_vaddr (mem s) ph in
     bindR (Some (call FM (segment_request m A ty file_name ph (mem s)) (x, s))) (\<lambda>(m, x, s).
     bindR (Some (call MM (space_request m (pcb_addr s i) va (mem s) ph) (x, s))) (\<lambda>(m, x, s).
     case copy_from_kernel (p_cr3 (proc s i)) va (pm_segment_buf A) (ph_filesz (mem s) ph) (mem s) of
       None \<Rightarrow> None
     | Some mm \<Rightarrow> Some (Inr (x, s\<lparr>mem := mm\<rparr>)))))"

fun load_segments :: "message \<Rightarrow> 'w world call \<Rightarrow> pm_addrs \<Rightarrow> u32 \<Rightarrow> u32 \<Rightarrow> nat \<Rightarrow> nat \<Rightarrow> u32 \<Rightarrow> 'w world \<Rightarrow> (error + 'w world) option" where
  "load_segments m call A ty file_name i 0 ph st = Some (Inr st)"
| "load_segments m call A ty file_name i (Suc n) ph st =
     bindR (load_segment m call A ty file_name i ph st) (load_segments m call A ty file_name i n (ph + 32))"

definition load_program :: "message \<Rightarrow> 'w world call \<Rightarrow> pm_addrs \<Rightarrow> u32 \<Rightarrow> u32 \<Rightarrow> nat \<Rightarrow> 'w world \<Rightarrow> (error + 'w world) option" where
  "load_program m call A ty file_name i st =
     bindR (Some (call FM (header_request m A file_name) st)) (\<lambda>(m, x, s).
     bindR (load_segments m call A ty file_name i (unat (elf_phnum (mem s) (pm_buf A)))
              (pm_buf A + elf_phoff (mem s) (pm_buf A)) (x, s)) (\<lambda>st.
     Some (print_sys (printk ''Finish analyse ELF header!\<newline>'' []) st)))"

text \<open>\<open>key = v; stack_ptr -= 4; copy_from_kernel(pcb, stack_ptr, &key, 4);\<close>\<close>

definition push_user :: "u32 \<Rightarrow> u32 \<Rightarrow> u32 \<Rightarrow> u32 \<times> memory \<Rightarrow> (u32 \<times> memory) option" where
  "push_user cr3 key_p key = (\<lambda>(sp, m).
     case copy_from_kernel cr3 (sp - 4) key_p 4 (store32 (kphys key_p) key m) of
       None \<Rightarrow> None
     | Some m \<Rightarrow> Some (sp - 4, m))"

fun push_all :: "u32 \<Rightarrow> u32 \<Rightarrow> u32 list \<Rightarrow> u32 \<times> memory \<Rightarrow> (u32 \<times> memory) option" where
  "push_all cr3 key_p [] st = Some st"
| "push_all cr3 key_p (k # ks) st =
     (case push_user cr3 key_p k st of None \<Rightarrow> None | Some st \<Rightarrow> push_all cr3 key_p ks st)"

text \<open>Return address, \<open>eflags\<close>, \<open>%cs\<close>, \<open>%eip\<close>, nine zero words, and the address of the frame.\<close>

definition user_frame :: "pm_addrs \<Rightarrow> u32 \<Rightarrow> u32 \<Rightarrow> u32 \<times> memory \<Rightarrow> (u32 \<times> memory) option" where
  "user_frame A cr3 eip st =
     (case push_all cr3 (pm_key A) ([asm_do_int80_exit A, push_bit 9 1, 8, eip] @ replicate 9 0) st of
        None \<Rightarrow> None
      | Some (sp, m) \<Rightarrow> push_user cr3 (pm_key A) sp (sp, m))"

definition load_init_proc :: "message \<Rightarrow> 'w world call \<Rightarrow> pm_addrs \<Rightarrow> u32 \<Rightarrow> nat \<Rightarrow> 'w world \<Rightarrow> (error + 'w world) option" where
  "load_init_proc m call A file_name i st =
     bindR (load_program m call A FM_READ_FILE file_name i st) (\<lambda>(x, s).
     case user_frame A (p_cr3 (proc s i)) (elf_entry (mem s) (pm_buf A)) (0xC0000000, mem s) of
       None \<Rightarrow> None
     | Some (sp, mm) \<Rightarrow> Some (Inr (x, upd_proc i (p_esp_update (\<lambda>_. sp)) (s\<lparr>mem := mm\<rparr>))))"

definition Create_uthread :: "message \<Rightarrow> 'w world call \<Rightarrow> pm_addrs \<Rightarrow> u32 \<Rightarrow> 'w world \<Rightarrow> (error + 'w world) option" where
  "Create_uthread m call A file_name = (\<lambda>((fl, w), s).
     let s = lock s in
     case Find_Empty_PCB s of
       None \<Rightarrow> Some (panic ''Process Table is Full!\<newline>'')
     | Some new \<Rightarrow>
         let s = upd_proc new (\<lambda>p. init_message_pool (p\<lparr>p_pid := int new, p_flag := False, time_elapsed := 0\<rparr>)) s in
         bindR (Some (init_user_page (pagedir_addr s new) (mm_of (fl, s)))) (\<lambda>(cr3, v).
         let s = unlock (upd_proc new (p_cr3_update (\<lambda>_. cr3)) (s\<lparr>mem := mm_mem v\<rparr>)) in
         bindR (load_init_proc m call A file_name new ((Ppage_flag v, w), s)) (\<lambda>(x, s).
         let s = upd_proc new (p_kstack_top_update (\<lambda>_. kstack_addr s new + STACK_SIZE)) s in
         bindR (Some (print_sys (printk ''ready to schedule................!!!!\<newline>'' []) (x, s))) (\<lambda>(x, s).
         let s = lock s in
         bindR (Some (link_before_init new (Proc s))) (\<lambda>P.
         Some (Inr (x, unlock (upd_proc new (p_status_update (\<lambda>_. STATUS_WAITING)) (s\<lparr>Proc := P\<rparr>)))))))))"

section \<open>Replacing a program\<close>

text \<open>The loop that copies the arguments, one byte a round, with \<open>n\<close> bytes left of \<open>argv\<close>. It ends
  with \<open>right\<close> and \<open>argc\<close>; writing past \<open>argv\<close> or \<open>argv_ptr\<close> is a fault.\<close>

fun parse_args :: "pm_addrs \<Rightarrow> u32 \<Rightarrow> u32 \<Rightarrow> nat \<Rightarrow> nat \<Rightarrow> nat \<Rightarrow> nat \<Rightarrow> memory \<Rightarrow> (error + nat \<times> nat \<times> memory) option" where
  "parse_args A cr3 argv_addr 0 right left argc m = Some (Inl (Fault ''argv[right]''))"
| "parse_args A cr3 argv_addr (Suc n) right left argc m =
     (let right = right + 1 in
      case copy_to_kernel cr3 (pm_argv A + of_nat right) (argv_addr + of_nat right) 1 m of
        None \<Rightarrow> None
      | Some m \<Rightarrow>
          if m (kphys (pm_argv A + of_nat right)) = 0 then
            if m (kphys (pm_argv A + of_nat (right - 1))) = 0 then Some (Inr (right, argc, m))
            else if argc < NR_argv then
              parse_args A cr3 argv_addr n right (right + 1) (argc + 1)
                (store32 (kphys (pm_argv_ptr A + 4 * of_nat argc)) (of_nat left) m)
            else Some (Inl (Fault ''argv_ptr[argc]''))
          else parse_args A cr3 argv_addr n right left argc m)"

text \<open>The loop that pushes the addresses of the arguments, the last first.\<close>

fun push_args :: "pm_addrs \<Rightarrow> u32 \<Rightarrow> u32 \<Rightarrow> nat \<Rightarrow> u32 \<times> 'w world \<Rightarrow> (error + u32 \<times> 'w world) option" where
  "push_args A cr3 base 0 st = Some (Inr st)"
| "push_args A cr3 base (Suc i) (sp, x, s) =
     (let sp = sp - 4; cell = pm_argv_ptr A + 4 * of_nat i;
          v = load32 (mem s) (kphys cell) + base;
          s = s\<lparr>mem := store32 (kphys cell) v (mem s)\<rparr> in
      bindR (Some (print_sys (printk ''%d : %x, stack %x\<newline>'' [ArgWord (of_nat i), ArgWord v, ArgWord sp]) (x, s))) (\<lambda>(x, s).
      case copy_from_kernel cr3 sp cell 4 (mem s) of
        None \<Rightarrow> None
      | Some mm \<Rightarrow> push_args A cr3 base i (sp, x, s\<lparr>mem := mm\<rparr>)))"

text \<open>The user stack of the new program: the arguments, \<open>argv\<close>, \<open>argc\<close>, and the first frame.\<close>

definition exec_stack :: "pm_addrs \<Rightarrow> u32 \<Rightarrow> nat \<Rightarrow> nat \<Rightarrow> 'w world \<Rightarrow> (error + u32 \<times> 'w world) option" where
  "exec_stack A cr3 right argc = (\<lambda>(x, s).
     let right = right + 1; base = 0xC0000000 - of_nat right in
     case copy_from_kernel cr3 base (pm_argv A) (of_nat right) (mem s) of
       None \<Rightarrow> None
     | Some mm \<Rightarrow>
         bindR (Some (bindE (print_sys (printk ''base = %x\<newline>'' [ArgWord base]) (x, s\<lparr>mem := mm\<rparr>)) (\<lambda>st.
                      print_sys (green_printk ''argc = %d\<newline>'' [ArgWord (of_nat argc)]) st))) (\<lambda>(x, s).
         bindR (push_args A cr3 base argc (base, x, s)) (\<lambda>(sp, x, s).
         case push_user cr3 (pm_key A) sp (sp, mem s) of
           None \<Rightarrow> None
         | Some (sp, mm) \<Rightarrow>
             (case push_user cr3 (pm_argc A) (of_nat argc) (sp, mm) of
                None \<Rightarrow> None
              | Some (sp, mm) \<Rightarrow>
                  bindR (Some (print_sys (green_printk ''Finish copy parameters!\<newline>'' []) (x, s\<lparr>mem := mm\<rparr>))) (\<lambda>(x, s).
                  case user_frame A cr3 (elf_entry (mem s) (pm_buf A)) (sp, mem s) of
                    None \<Rightarrow> None
                  | Some (sp, mm) \<Rightarrow> Some (Inr (sp, x, s\<lparr>mem := mm\<rparr>)))))))"

definition Exec_uthread :: "message \<Rightarrow> 'w world call \<Rightarrow> pm_addrs \<Rightarrow> int \<Rightarrow> u32 \<Rightarrow> u32 \<Rightarrow> 'w world \<Rightarrow> (error + 'w world) option" where
  "Exec_uthread m call A pid file_name argv_addr = (\<lambda>(x, s).
     bindR (Some (proc_index s pid)) (\<lambda>i.
     let s = upd_proc i (\<lambda>p. init_message_pool (p\<lparr>time_elapsed := 0\<rparr>)) s in
     case copy_to_kernel (p_cr3 (proc s i)) (pm_argv A) argv_addr 1 (mem s) of
       None \<Rightarrow> None
     | Some mm \<Rightarrow>
         bindR (parse_args A (p_cr3 (proc s i)) argv_addr (argv_size - 1) 0 0 0 mm) (\<lambda>(right, argc, mm).
         bindR (Some (call MM (m\<lparr>m_type := MM_EXEC, m_w0 := pcb_addr s i\<rparr>) (x, s\<lparr>mem := mm\<rparr>))) (\<lambda>(m, st).
         bindR (load_program m call A FM_READ file_name i st) (\<lambda>(x, s).
         bindR (exec_stack A (p_cr3 (proc s i)) right argc (x, s)) (\<lambda>(sp, x, s).
         bindR (Some (print_sys (green_printk ''Ready to execute!\<newline>'' []) (x, upd_proc i (p_esp_update (\<lambda>_. sp)) s))) (\<lambda>(x, s).
         Some (Inr (x, unlock (upd_proc i (p_status_update (\<lambda>_. STATUS_WAITING)) (lock s)))))))))))"

section \<open>One round of the server\<close>

definition pm_message :: "message \<Rightarrow> 'w world call \<Rightarrow> pm_addrs \<Rightarrow> message \<Rightarrow> wait_queue \<times> 'w world \<Rightarrow>
    (error + wait_queue \<times> 'w world) option" where
  "pm_message m0 call A m = (\<lambda>(q, st).
     if m_type m = PM_FORK then
       Some (bindE (Fork_uthread m0 call (sint (pm_pid m)) st) (\<lambda>(new, st).
             bindE (reply (m_src m) (m\<lparr>m_w2 := of_nat new, m_type := -1\<rparr>) st) (\<lambda>st. Inr (q, st))))
     else if m_type m = PM_LOAD_PROC then
       bindR (Create_uthread m0 call A (pm_file_name m) st) (\<lambda>st.
       Some (bindE (reply (m_src m) (m\<lparr>m_type := -1\<rparr>) st) (\<lambda>st. Inr (q, st))))
     else if m_type m = PM_EXIT_PROC then
       Some (bindE (Exit_uthread m0 call (sint (pm_pid m)) st) (\<lambda>(x, s).
             bindE (Wake_Up m0 (sint (pm_pid m)) (pm_p1 m) (q, s)) (\<lambda>(q, s). Inr (q, x, s))))
     else if m_type m = PM_WAITPID then
       Some (bindE (Sleep (pm_pid m) (pm_p1 m) q) (\<lambda>q. Inr (q, st)))
     else if m_type m = PM_EXEC then
       bindR (Exec_uthread m0 call A (sint (pm_pid m)) (pm_file_name m) (pm_p1 m) st) (\<lambda>st. Some (Inr (q, st)))
     else Some (Inr (q, st)))"

section \<open>The processes that are woken\<close>

text \<open>The entries of the queue.\<close>

definition waiting :: "wait_queue \<Rightarrow> WaitQueue_type list" where
  "waiting q = take (WQ_ptr q) (WaitQueue q)"

lemma take_out:
  assumes "i < n" "n \<le> length wq" and wq': "wq' = (if n > 1 then wq[i := wq ! (n - 1)] else wq)"
  shows "take i wq' = take i wq" "mset (drop i (take (n - 1) wq')) = mset (drop (Suc i) (take n wq))"
    "length wq' = length wq"
proof -
  let ?xs = "drop (Suc i) (take n wq)" and ?e = "wq ! i"
  have il: "i < length (take n wq)" using assms by simp
  have tn: "take n wq = take i wq @ ?e # ?xs"
    using id_take_nth_drop [OF il] assms(1) by (simp add: min_def)
  have tn1: "take (n - 1) wq = take i wq @ butlast (?e # ?xs)"
  proof -
    have "take (n - 1) wq = butlast (take n wq)" using assms(2) by (simp add: butlast_take)
    also have "\<dots> = take i wq @ butlast (?e # ?xs)" using tn by (metis butlast_append list.distinct(1))
    finally show ?thesis .
  qed
  show "take i wq' = take i wq" "length wq' = length wq" using wq' by simp_all
  have li: "length (take i wq) = i" using assms by simp
  show "mset (drop i (take (n - 1) wq')) = mset (drop (Suc i) (take n wq))"
  proof (cases "?xs = []")
    case True
    then have "n = Suc i" using assms(1,2) by simp
    then show ?thesis by simp
  next
    case False
    then have n: "n > 1" using assms(1,2) by (cases n) auto
    have "last ?xs = last (take n wq)" using tn False by (metis last_ConsR last_appendR list.distinct(1))
    also have "\<dots> = wq ! (n - 1)" using n assms(2) by (subst last_conv_nth) auto
    finally have l: "last ?xs = wq ! (n - 1)" .
    have "take (n - 1) wq' = (take (n - 1) wq)[i := last ?xs]" using wq' n l by (simp add: take_update_swap)
    also have "\<dots> = take i wq @ last ?xs # butlast ?xs"
      unfolding tn1 using False li list_update_length [of "take i wq" ?e "butlast ?xs" "last ?xs"] by simp
    finally have "drop i (take (n - 1) wq') = last ?xs # butlast ?xs" using li by simp
    then have "mset (drop i (take (n - 1) wq')) = mset (butlast ?xs @ [last ?xs])" by simp
    then show ?thesis by (simp only: append_butlast_last_id [OF False])
  qed
qed

definition woken :: "int \<Rightarrow> message \<Rightarrow> WaitQueue_type multiset \<Rightarrow> (nat \<Rightarrow> nat) \<Rightarrow> (nat \<Rightarrow> message list) \<Rightarrow> sys \<Rightarrow> sys \<Rightarrow> bool" where
  "woken pid m es N M s s' \<longleftrightarrow>
     (\<forall>e \<in># es. wq_wait_for e = pid \<longrightarrow>
        (let t = nat (sint (wq_pid e)) in \<exists>r. unread s' t (Suc (N t)) (M t @ [r]) \<and> m_type r = m_type m \<and> pm_p1 r = pm_p1 m)) \<and>
     (\<forall>j. (\<forall>e \<in># es. wq_wait_for e = pid \<longrightarrow> j \<noteq> nat (sint (wq_pid e))) \<longrightarrow> proc s' j = proc s j) \<and>
     length (Proc s') = length (Proc s) \<and> current_pcb s' = current_pcb s \<and> mem s' = mem s"

definition can_be_woken :: "int \<Rightarrow> WaitQueue_type multiset \<Rightarrow> (nat \<Rightarrow> nat) \<Rightarrow> (nat \<Rightarrow> message list) \<Rightarrow> sys \<Rightarrow> bool" where
  "can_be_woken pid es N M s \<longleftrightarrow> (\<forall>e \<in># es. 0 \<le> sint (wq_pid e)) \<and>
     (\<forall>t. size (filter_mset (\<lambda>e. wq_wait_for e = pid \<and> nat (sint (wq_pid e)) = t) es) \<le> 1) \<and>
     (\<forall>e \<in># es. wq_wait_for e = pid \<longrightarrow>
        (let t = nat (sint (wq_pid e)) in unread s t (N t) (M t) \<and> N t < Max_Message_Pool))"

lemma wake_loop_spec:
  assumes "i \<le> n" "n \<le> length wq" "can_be_woken pid (mset (drop i (take n wq))) N M s"
    "\<forall>e \<in> set (take i wq). wq_wait_for e \<noteq> pid"
  shows "\<exists>wq' n' s'. wake_loop pid m i wq n s = Inr (wq', n', s') \<and> length wq' = length wq \<and> n' \<le> length wq \<and>
    mset (take n' wq') = filter_mset (\<lambda>e. wq_wait_for e \<noteq> pid) (mset (take n wq)) \<and>
    woken pid m (mset (drop i (take n wq))) N M s s'"
  using assms
proof (induction "n - i" arbitrary: n i wq s rule: less_induct)
  case (less n i wq s)
  show ?case
  proof (cases "i < n")
    case False
    then have "i = n" using less.prems(1) by simp
    then have e: "drop i (take n wq) = []" "take i wq = take n wq" by simp_all
    have "filter_mset (\<lambda>e. wq_wait_for e \<noteq> pid) (mset (take n wq)) = mset (take n wq)"
      using less.prems(4) unfolding e(2) by (induction "take n wq") (auto simp: filter_mset_eq_conv)
    then show ?thesis using False e less.prems(2)
      by (subst wake_loop.simps) (simp add: woken_def)
  next
    case True
    let ?e = "wq ! i" and ?xs = "drop (Suc i) (take n wq)"
    have il: "i < length wq" using True less.prems(2) by simp
    have d: "drop i (take n wq) = ?e # ?xs"
      using True il by (simp add: Cons_nth_drop_Suc [symmetric])
    have ti: "take (Suc i) wq = take i wq @ [?e]" using il by (rule take_Suc_conv_app_nth)
    have tn: "mset (take n wq) = mset (take i wq) + mset (?e # ?xs)"
      using d True by (metis append_take_drop_id less_or_eq_imp_le min.absorb1 mset_append take_take)
    note cw = less.prems(3) [unfolded d]
    show ?thesis
    proof (cases "wq_wait_for ?e = pid")
      case False
      have step: "wake_loop pid m i wq n s = wake_loop pid m (Suc i) wq n s"
        using True False il by (subst wake_loop.simps) simp
      have pre: "can_be_woken pid (mset ?xs) N M s" "\<forall>e \<in> set (take (Suc i) wq). wq_wait_for e \<noteq> pid"
        "n - Suc i < n - i" "Suc i \<le> n"
        using cw False less.prems(4) ti True by (simp_all add: can_be_woken_def diff_less_mono2)
      from less.hyps [OF pre(3,4) less.prems(2) pre(1,2)] obtain wq' n' s' where ih: "wake_loop pid m (Suc i) wq n s = Inr (wq', n', s')" "length wq' = length wq"
        "n' \<le> length wq" "mset (take n' wq') = filter_mset (\<lambda>e. wq_wait_for e \<noteq> pid) (mset (take n wq))"
        "woken pid m (mset ?xs) N M s s'"
        by blast
      have "woken pid m (mset (?e # ?xs)) N M s s'" using ih(5) False by (simp add: woken_def)
      then show ?thesis unfolding step d using ih by blast
    next
      case eq: True
      let ?t = "nat (sint (wq_pid ?e))"
      have pos: "0 \<le> sint (wq_pid ?e)" "unread s ?t (N ?t) (M ?t)" "N ?t < Max_Message_Pool"
        using cw eq by (simp_all add: can_be_woken_def Let_def)
      obtain s1 where s1: "send (int ?t) m s = Inr s1" "unread s1 ?t (Suc (N ?t)) (M ?t @ [stamped s (int ?t) m])"
        "mem s1 = mem s" "current_pcb s1 = current_pcb s" "length (Proc s1) = length (Proc s)"
        "\<forall>j. j \<noteq> ?t \<longrightarrow> proc s1 j = proc s j"
        using send_unread [OF pos(2,3)] by blast
      define wq1 where "wq1 = (if n > 1 then wq[i := wq ! (n - 1)] else wq)"
      note tk = take_out [OF True less.prems(2) wq1_def]
      have step: "wake_loop pid m i wq n s = wake_loop pid m i wq1 (n - 1) s1"
        using True eq il s1(1) pos(1) unfolding wq1_def by (subst wake_loop.simps) simp
      have one: "\<forall>e \<in># mset ?xs. wq_wait_for e = pid \<longrightarrow> nat (sint (wq_pid e)) \<noteq> ?t"
      proof (intro ballI impI notI)
        fix e assume e: "e \<in># mset ?xs" "wq_wait_for e = pid" "nat (sint (wq_pid e)) = ?t"
        let ?P = "\<lambda>e. wq_wait_for e = pid \<and> nat (sint (wq_pid e)) = ?t"
        have "e \<in># filter_mset ?P (mset ?xs)" using e by simp
        then have ne: "filter_mset ?P (mset ?xs) \<noteq> {#}" by (metis empty_iff set_mset_empty)
        have "size (filter_mset ?P (mset (?e # ?xs))) \<le> 1" using cw unfolding can_be_woken_def by blast
        then have "size (filter_mset ?P (mset ?xs)) = 0" using eq by simp
        then show False using ne by (simp only: size_eq_0_iff_empty)
      qed
      have cw1: "can_be_woken pid (mset (drop i (take (n - 1) wq1))) N M s1"
        unfolding tk(2) can_be_woken_def
      proof (intro conjI allI ballI impI)
        fix e assume "e \<in># mset ?xs"
        then show "0 \<le> sint (wq_pid e)" using cw by (simp add: can_be_woken_def)
      next
        fix t
        let ?P = "\<lambda>e. wq_wait_for e = pid \<and> nat (sint (wq_pid e)) = t"
        have "size (filter_mset ?P (mset (?e # ?xs))) \<le> 1" using cw unfolding can_be_woken_def by blast
        moreover have "size (filter_mset ?P (mset ?xs)) \<le> size (filter_mset ?P (mset (?e # ?xs)))" by simp
        ultimately show "size (filter_mset ?P (mset ?xs)) \<le> 1" by (rule order_trans [rotated])
      next
        fix e assume e: "e \<in># mset ?xs" "wq_wait_for e = pid"
        let ?u = "nat (sint (wq_pid e))"
        have "unread s ?u (N ?u) (M ?u)" "N ?u < Max_Message_Pool" using cw e by (simp_all add: can_be_woken_def Let_def)
        moreover have "proc s1 ?u = proc s ?u" using one e s1(6) by blast
        ultimately show "let t = ?u in unread s1 t (N t) (M t) \<and> N t < Max_Message_Pool"
          using unread_proc_cong s1(5) by (simp add: Let_def)
      qed
      have pre: "\<forall>e \<in> set (take i wq1). wq_wait_for e \<noteq> pid" "i \<le> n - 1" "n - 1 \<le> length wq1" "n - 1 - i < n - i"
        using less.prems(2,4) tk(1,3) True by auto
      from less.hyps [OF pre(4,2,3) cw1 pre(1)] obtain wq' n' s' where
        ih: "wake_loop pid m i wq1 (n - 1) s1 = Inr (wq', n', s')" "length wq' = length wq1" "n' \<le> length wq1"
        "mset (take n' wq') = filter_mset (\<lambda>e. wq_wait_for e \<noteq> pid) (mset (take (n - 1) wq1))"
        "woken pid m (mset ?xs) N M s1 s'"
        unfolding tk(2) by blast
      have "mset (take (n - 1) wq1) = mset (take i wq) + mset ?xs"
      proof -
        have "mset (take (n - 1) wq1) = mset (take i (take (n - 1) wq1)) + mset (drop i (take (n - 1) wq1))"
          by (simp only: mset_append [symmetric] append_take_drop_id)
        also have "take i (take (n - 1) wq1) = take i wq" using tk(1) pre(2) by (simp add: min_absorb1)
        finally show ?thesis unfolding tk(2) .
      qed
      then have ms: "filter_mset (\<lambda>e. wq_wait_for e \<noteq> pid) (mset (take (n - 1) wq1)) =
          filter_mset (\<lambda>e. wq_wait_for e \<noteq> pid) (mset (take n wq))"
        using tn eq by simp
      have pj: "\<forall>j. (\<forall>e \<in># mset ?xs. wq_wait_for e = pid \<longrightarrow> j \<noteq> nat (sint (wq_pid e))) \<longrightarrow> proc s' j = proc s1 j"
        using ih(5) unfolding woken_def by (elim conjE)
      have "\<forall>e \<in># mset ?xs. wq_wait_for e = pid \<longrightarrow> ?t \<noteq> nat (sint (wq_pid e))" using one by metis
      then have pt: "proc s' ?t = proc s1 ?t" by (rule pj [THEN spec, THEN mp])
      have "unread s' ?t (Suc (N ?t)) (M ?t @ [stamped s (int ?t) m])"
        using unread_proc_cong [OF s1(2) pt] ih(5) by (simp add: woken_def)
      moreover have "m_type (stamped s (int ?t) m) = m_type m" "pm_p1 (stamped s (int ?t) m) = pm_p1 m"
        by (simp_all add: stamped_def pm_p1_def)
      ultimately have "\<exists>r. unread s' ?t (Suc (N ?t)) (M ?t @ [r]) \<and> m_type r = m_type m \<and> pm_p1 r = pm_p1 m"
        by blast
      moreover have "proc s' j = proc s j" if "\<forall>e \<in># mset (?e # ?xs). wq_wait_for e = pid \<longrightarrow> j \<noteq> nat (sint (wq_pid e))" for j
      proof -
        have "\<forall>e \<in># mset ?xs. wq_wait_for e = pid \<longrightarrow> j \<noteq> nat (sint (wq_pid e))" using that by simp
        then have "proc s' j = proc s1 j" by (rule pj [THEN spec, THEN mp])
        also have "\<dots> = proc s j" using s1(6) that eq by simp
        finally show ?thesis .
      qed
      ultimately have "woken pid m (mset (?e # ?xs)) N M s s'"
        using ih(5) s1(3-5) unfolding woken_def by (simp add: Let_def)
      then show ?thesis unfolding step d using ih(1-4) ms tk(3) by metis
    qed
  qed
qed
text \<open>C36: the end of a process wakes exactly the processes that wait for it: each of them gets one answer
  with the exit code, no other process changes, and the queue keeps exactly the other entries
  (their order may change, because the last entry takes the place of one that is removed).\<close>

theorem Wake_Up_answers_waiters:
  assumes "WQ_ptr q \<le> length (WaitQueue q)" "can_be_woken pid (mset (waiting q)) N M s"
  shows "\<exists>q' s'. Wake_Up m pid code (q, s) = Inr (q', s') \<and>
    mset (waiting q') = filter_mset (\<lambda>e. wq_wait_for e \<noteq> pid) (mset (waiting q)) \<and>
    WQ_ptr q' \<le> length (WaitQueue q') \<and>
    (\<forall>e \<in># mset (waiting q). wq_wait_for e = pid \<longrightarrow>
       (let t = nat (sint (wq_pid e)) in
        \<exists>r. unread s' t (Suc (N t)) (M t @ [r]) \<and> m_type r = -1 \<and> pm_p1 r = code)) \<and>
    (\<forall>j. (\<forall>e \<in># mset (waiting q). wq_wait_for e = pid \<longrightarrow> j \<noteq> nat (sint (wq_pid e))) \<longrightarrow> proc s' j = proc s j)"
proof -
  let ?m = "m\<lparr>m_type := -1, m_w2 := code\<rparr>"
  have un: "unread (f u) t k ms = unread u t k ms" if "Proc (f u) = Proc u" for f t k ms and u :: sys
    using that by (simp only: unread_def asleep_box_def)
  have cw: "can_be_woken pid (mset (drop 0 (take (WQ_ptr q) (WaitQueue q)))) N M (lock s)"
    using assms(2) un [of lock] by (simp add: can_be_woken_def waiting_def)
  have e: "\<forall>e \<in> set (take 0 (WaitQueue q)). wq_wait_for e \<noteq> pid" by simp
  from wake_loop_spec [OF le0 assms(1) cw e, of ?m] obtain wq' n' s' where
    w: "wake_loop pid ?m 0 (WaitQueue q) (WQ_ptr q) (lock s) = Inr (wq', n', s')" "length wq' = length (WaitQueue q)"
      "n' \<le> length (WaitQueue q)"
      "mset (take n' wq') = filter_mset (\<lambda>e. wq_wait_for e \<noteq> pid) (mset (take (WQ_ptr q) (WaitQueue q)))"
      "woken pid ?m (mset (take (WQ_ptr q) (WaitQueue q))) N M (lock s) s'"
    by auto
  let ?q' = "q\<lparr>WaitQueue := wq', WQ_ptr := n'\<rparr>"
  have run: "Wake_Up m pid code (q, s) = Inr (?q', unlock s')" using w(1) by (simp add: Wake_Up_def)
  have "m_type ?m = -1" "pm_p1 ?m = code" by (simp_all add: pm_p1_def)
  then show ?thesis
    using run w(2-5) un [of unlock] by (intro exI [of _ ?q'] exI [of _ "unlock s'"])
      (simp add: waiting_def woken_def Let_def)
qed

theorem Wake_Up_answers_waiters_witness:
  "\<exists>q' s'. Wake_Up zero_message 5 42
      (\<lparr>WaitQueue = [\<lparr>wq_pid = 7, wq_wait_for = 5\<rparr>, \<lparr>wq_pid = 8, wq_wait_for = 6\<rparr>], WQ_ptr = 2\<rparr>, talkers 2) = Inr (q', s') \<and>
     mset (waiting q') = {#\<lparr>wq_pid = 8, wq_wait_for = 6\<rparr>#} \<and>
     (\<exists>r. unread s' 7 1 [r] \<and> m_type r = -1 \<and> pm_p1 r = 42)"
proof -
  let ?q = "\<lparr>WaitQueue = [\<lparr>wq_pid = 7, wq_wait_for = 5\<rparr>, \<lparr>wq_pid = 8, wq_wait_for = 6\<rparr>], WQ_ptr = 2\<rparr>"
  have q: "WQ_ptr ?q \<le> length (WaitQueue ?q)" "can_be_woken 5 (mset (waiting ?q)) (\<lambda>_. 0) (\<lambda>_. []) (talkers 2)"
    using talkers_box(2) [of 7 2] by (simp_all add: can_be_woken_def waiting_def Max_Message_Pool_def MAX_PROC_def)
  from Wake_Up_answers_waiters [OF q, of zero_message 42] show ?thesis
    by (fastforce simp: waiting_def)
qed

section \<open>What a forked process resumes with\<close>

lemma frame_mask: "(a AND -4096 :: u32) = frame_addr a"
proof -
  have m: "(-4096 :: u32) = NOT (mask 12)" by (simp add: mask_eq_exp_minus_1)
  show ?thesis unfolding m by (rule bit_word_eqI) (auto simp: frame_addr_def bit_simps)
qed

lemma aligned4_frame_addr: "aligned4 (frame_addr e)"
  unfolding aligned4_def unat_frame_addr by (rule dvd_mult) simp

lemma aligned4_walk: "aligned4 (pde_ptr cr3 va)" "aligned4 (pte_ptr m cr3 va)"
  by (simp_all add: pde_ptr_def pte_ptr_def aligned4_frame_addr)

text \<open>The word a process reads at one of its addresses.\<close>

definition user_word :: "memory \<Rightarrow> u32 \<Rightarrow> u32 \<Rightarrow> u32" where
  "user_word m cr3 va = (case translate m cr3 va of Some p \<Rightarrow> load32 m p | None \<Rightarrow> 0)"

text \<open>The word at \<open>va\<close> is at \<open>p\<close>; the kernel can walk there, and the walk does not read from \<open>W\<close>.\<close>

definition word_mapped :: "memory \<Rightarrow> u32 \<Rightarrow> u32 set \<Rightarrow> u32 \<Rightarrow> u32 \<Rightarrow> bool" where
  "word_mapped m cr3 W va p \<longleftrightarrow> aligned4 p \<and> p < KOFFSET \<and> translate m cr3 va = Some p \<and>
     pde_ptr cr3 va < KOFFSET \<and> pte_ptr m cr3 va < KOFFSET \<and> pde_ptr cr3 va \<notin> W \<and> pte_ptr m cr3 va \<notin> W"

lemma word_mapped_store:
  assumes "word_mapped m cr3 W va p" "w \<in> W" "aligned4 w"
  shows "word_mapped (store32 w v m) cr3 W va p"
    "user_word (store32 w v m) cr3 va = (if p = w then v else user_word m cr3 va)"
proof -
  have d: "load32 (store32 w v m) (pde_ptr cr3 va) = load32 m (pde_ptr cr3 va)"
    using assms by (intro load32_store32_other aligned4_walk) (auto simp: word_mapped_def)
  then have t: "pte_ptr (store32 w v m) cr3 va = pte_ptr m cr3 va" by (simp add: pte_ptr_def)
  have "load32 (store32 w v m) (pte_ptr m cr3 va) = load32 m (pte_ptr m cr3 va)"
    using assms by (intro load32_store32_other aligned4_walk) (auto simp: word_mapped_def)
  then have tr: "translate (store32 w v m) cr3 va = translate m cr3 va" by (simp add: translate_def d t)
  then show "word_mapped (store32 w v m) cr3 W va p" using assms(1) t by (simp add: word_mapped_def)
  show "user_word (store32 w v m) cr3 va = (if p = w then v else user_word m cr3 va)"
    using assms(1,3) tr by (auto simp: user_word_def word_mapped_def load32_store32_other)
qed

lemma V_to_P_translates:
  assumes "word_mapped m cr3 W va p"
  shows "V_to_P va cr3 m = p"
proof -
  have k: "kphys (frame_addr cr3 + 4 * drop_bit 22 va) = pde_ptr cr3 va"
    using assms by (simp add: word_mapped_def pde_ptr_def)
  have "kphys (frame_addr (load32 m (pde_ptr cr3 va)) + 4 * (drop_bit 12 va AND 0x3FF)) = pte_ptr m cr3 va"
    using assms by (simp add: word_mapped_def pte_ptr_def)
  then have "V_to_P va cr3 m = frame_addr (load32 m (pte_ptr m cr3 va)) OR (va AND 0xFFF)"
    by (simp add: V_to_P_def Let_def frame_mask k)
  then show ?thesis using assms by (simp add: word_mapped_def translate_def split: if_splits)
qed

text \<open>The child's kernel stack and the saved registers at \<open>tf\<close> are where its tables map them: the last
  word of the stack is at \<open>c\<close>, the twelve words of the frame at \<open>p 0, \<dots>, p 11\<close>.\<close>

definition child_mapped :: "memory \<Rightarrow> u32 \<Rightarrow> u32 \<Rightarrow> u32 \<Rightarrow> u32 \<Rightarrow> (nat \<Rightarrow> u32) \<Rightarrow> bool" where
  "child_mapped m cr3 sp c tf p \<longleftrightarrow>
     word_mapped m cr3 {c, p 7} sp c \<and>
     (\<forall>k < 12. word_mapped m cr3 {c, p 7} (tf + 4 * of_nat k) (p k) \<and> p k \<noteq> c \<and> (k \<noteq> 7 \<longrightarrow> p k \<noteq> p 7))"

lemma fork_start_memory:
  assumes "child_mapped m cr3 sp c tf p"
  defines "m' \<equiv> store32 (p 7) 0 (store32 c tf m)"
  shows "V_to_P (tf + 28) cr3 (store32 c tf m) = p 7" "kphys (p 7) = p 7" "user_word m' cr3 sp = tf"
    "k < 12 \<Longrightarrow> user_word m' cr3 (tf + 4 * of_nat k) = (if k = 7 then 0 else user_word m cr3 (tf + 4 * of_nat k))"
proof -
  have al: "aligned4 c" "aligned4 (p 7)" and sp: "word_mapped m cr3 {c, p 7} sp c"
    using assms(1) by (auto simp: child_mapped_def word_mapped_def)
  have wk: "word_mapped m cr3 {c, p 7} (tf + 4 * of_nat k) (p k)" "p k \<noteq> c" "k \<noteq> 7 \<longrightarrow> p k \<noteq> p 7" if "k < 12" for k
    using assms(1) that by (auto simp: child_mapped_def word_mapped_def)
  note st1 = word_mapped_store [OF _ insertI1 al(1), of m cr3 "{p 7}", where v = tf]
  have in7: "p 7 \<in> {c, p 7}" by simp
  note st2 = word_mapped_store [OF st1(1) in7 al(2), where v = 0]
  show "V_to_P (tf + 28) cr3 (store32 c tf m) = p 7"
  proof -
    have "word_mapped m cr3 {c, p 7} (tf + 28) (p 7)" using wk(1) [of 7] by simp
    then show ?thesis by (rule V_to_P_translates [OF st1(1)])
  qed
  show "kphys (p 7) = p 7" using wk(1) [of 7] by (simp add: word_mapped_def)
  show "user_word m' cr3 sp = tf"
    using st2(2) [OF sp] st1(2) [OF sp] wk(2) [of 7] by (simp add: m'_def)
  show "user_word m' cr3 (tf + 4 * of_nat k) = (if k = 7 then 0 else user_word m cr3 (tf + 4 * of_nat k))" if "k < 12"
    using st2(2) [OF wk(1) [OF that]] st1(2) [OF wk(1) [OF that]] wk(2,3) [OF that] by (simp add: m'_def)
qed

lemma restore_context_frame:
  assumes "rd' esp' = rd esp" "\<And>k. k < 12 \<Longrightarrow> rd' (rd esp + 4 * of_nat k) = (if k = 7 then 0 else rd (rd esp + 4 * of_nat k))"
  shows "restore_context rd' esp' = (restore_context rd esp)\<lparr>ctx_regs := butlast (ctx_regs (restore_context rd esp)) @ [0]\<rparr>"
proof -
  have "rd' (rd esp) = rd (rd esp)" using assms(2) [of 0] by simp
  moreover have "rd' (rd esp + 4) = rd (rd esp + 4)" using assms(2) [of 1] by simp
  moreover have "rd' (rd esp + 8) = rd (rd esp + 8)" using assms(2) [of 2] by simp
  moreover have "rd' (rd esp + 16) = rd (rd esp + 16)" using assms(2) [of 4] by simp
  moreover have "rd' (rd esp + 20) = rd (rd esp + 20)" using assms(2) [of 5] by simp
  moreover have "rd' (rd esp + 24) = rd (rd esp + 24)" using assms(2) [of 6] by simp
  moreover have "rd' (rd esp + 28) = 0" using assms(2) [of 7] by simp
  moreover have "rd' (rd esp + 36) = rd (rd esp + 36)" using assms(2) [of 9] by simp
  moreover have "rd' (rd esp + 40) = rd (rd esp + 40)" using assms(2) [of 10] by simp
  moreover have "rd' (rd esp + 44) = rd (rd esp + 44)" using assms(2) [of 11] by simp
  ultimately show ?thesis using assms(1) by (simp add: restore_context_def Let_def add.assoc)
qed

lemma same_but_links_esp:
  assumes "same_but_links P P'" "i < length P"
  shows "p_esp (P' ! i) = p_esp (P ! i)"
proof -
  have "P' ! i = (P ! i)\<lparr>p_next := p_next (P' ! i), p_prev := p_prev (P' ! i)\<rparr>"
    using assms by (simp add: same_but_links_def)
  then show ?thesis by (metis pcb.select_convs(1) pcb.surjective pcb.update_convs(3,4))
qed

text \<open>C37: a fork gives a child that is the parent at the same point with another result: once the
  memory server has copied the address space, the child is ready to run at the end of the run list,
  every other process keeps its status, and the context the child resumes with is the one saved on
  the parent's kernel stack, with the same stack, instruction and flags and 0 in \<open>%eax\<close>, where the parent is sent the child's pid.\<close>

theorem fork_child_returns_zero:
  assumes src: "src < length (Proc s)" and al: "fork_allocate src (x, s) = Inr (new, x1, s1)"
    and mm: "call MM (m\<lparr>m_type := MM_COPY, m_w1 := pcb_addr s1 src, m_w0 := pcb_addr s1 new\<rparr>) (x1, s1) = Inr (r, x2, s2)"
    and ok: "proc_table_ok s2 l" "\<not> p_flag (proc s2 new)" "p_pid (proc s2 new) = int new" "new < MAX_PROC" "new \<notin> set l"
    and tf: "load32 (mem s2) (kphys (p_kstack_top (proc s2 src) - 4)) = tf" "src \<noteq> new"
    and cm: "child_mapped (mem s2) (p_cr3 (proc s2 new)) (kstack_addr s2 new + STACK_SIZE - 4)
        (kphys (kstack_addr s2 new + STACK_SIZE - 4)) tf p"
    and copy: "rd esp = tf" "\<forall>k < 12. rd (tf + 4 * of_nat k) = user_word (mem s2) (p_cr3 (proc s2 new)) (tf + 4 * of_nat k)"
  shows "\<exists>s'. Fork_uthread m call (int src) (x, s) = Inr (new, x2, s') \<and>
     proc_table_ok s' (l @ [new]) \<and> p_status (proc s' new) = STATUS_WAITING \<and>
     (\<forall>i < MAX_PROC. i \<noteq> new \<longrightarrow> p_status (proc s' i) = p_status (proc s2 i)) \<and>
     (let parent = restore_context rd esp in
      restore_context (user_word (mem s') (p_cr3 (proc s' new))) (p_esp (proc s' new)) =
        parent\<lparr>ctx_regs := butlast (ctx_regs parent) @ [0]\<rparr>)"
proof -
  let ?top = "kstack_addr s2 new + STACK_SIZE" and ?cr3 = "p_cr3 (proc s2 new)"
  define f where "f = (\<lambda>p :: pcb. p\<lparr>p_kstack_top := ?top, p_esp := ?top - 4\<rparr>)"
  define m' where "m' = store32 (p 7) 0 (store32 (kphys (?top - 4)) tf (mem s2))"
  note fm = fork_start_memory [OF cm]
  have len: "length (Proc s2) = MAX_PROC" and rl: "run_list (Proc s2) l"
    using ok by (simp_all add: proc_table_ok_def)
  have f: "p_next (f p) = p_next p" "p_prev (f p) = p_prev p" "p_flag (f p) = p_flag p"
    "p_pid (f p) = p_pid p" "p_status (f p) = p_status p" "p_cr3 (f p) = p_cr3 p" "p_esp (f p) = ?top - 4" for p
    by (simp_all add: f_def)
  have rf: "run_list (upd_at new f (Proc s2)) l" by (rule run_list_upd_at [OF rl]) (simp_all add: f)
  obtain P where P: "link_before_init new (upd_at new f (Proc s2)) = Inr P" "run_list P (l @ [new])"
      "same_but_links (upd_at new f (Proc s2)) P"
    using link_before_init_run_list [OF rf _ ok(5)] ok(4) len by auto
  define s' where "s' = unlock (upd_proc new (p_status_update (\<lambda>_. STATUS_WAITING)) ((lock s2)\<lparr>Proc := P, mem := m'\<rparr>))"
  have "fork_start src new s2 = Inr s'"
    using P(1) fm(1,2) tf ok(4) len
    by (simp add: fork_start_def Let_def s'_def m'_def f_def upd_proc_def kstack_addr_def pcb_addr_def comp_def)
  then have run: "Fork_uthread m call (int src) (x, s) = Inr (new, x2, s')"
    using src al mm by (simp add: Fork_uthread_def)
  have lP: "length P = MAX_PROC" using same_but_links_length [OF P(3)] len by simp
  define g where "g = (\<lambda>p :: pcb. p\<lparr>p_status := STATUS_WAITING\<rparr>)"
  have Ps: "Proc s' = upd_at new g P" and ms: "mem s' = m'" by (simp_all add: s'_def g_def)
  have at_new: "p_status (proc s' new) = STATUS_WAITING" "p_flag (proc s' new) = p_flag (P ! new)"
    "p_pid (proc s' new) = p_pid (P ! new)" "p_cr3 (proc s' new) = p_cr3 (P ! new)" "p_esp (proc s' new) = p_esp (P ! new)"
    using ok(4) lP by (simp_all add: Ps g_def)
  note sb = same_but_links_nth [OF P(3)]
  have nP: "p_flag (P ! new) = p_flag (proc s2 new)" "p_pid (P ! new) = p_pid (proc s2 new)"
    "p_cr3 (P ! new) = ?cr3" "p_esp (P ! new) = ?top - 4"
    using sb [of new] same_but_links_esp [OF P(3), of new] ok(4) len by (simp_all add: f)
  have other: "p_status (proc s' i) = p_status (proc s2 i)" "p_flag (proc s' i) = p_flag (proc s2 i)"
    "p_pid (proc s' i) = p_pid (proc s2 i)" if "i < MAX_PROC" "i \<noteq> new" for i
    using sb [of i] that len by (simp_all add: Ps)
  have rs: "run_list (Proc s') (l @ [new])"
    unfolding Ps by (rule run_list_upd_at [OF P(2)]) (simp_all add: g_def)
  have "\<not> p_flag (proc s' i) \<and> p_pid (proc s' i) = int i" if "i \<in> set l" for i
  proof -
    have "i \<noteq> new" using ok(5) that by blast
    then show ?thesis using proc_table_ok_in [OF ok(1) that] other by simp
  qed
  then have tab: "proc_table_ok s' (l @ [new])"
    using rs lP at_new(2,3) nP(1,2) ok(2,3) by (simp add: proc_table_ok_def Ps list_all_iff)
  have "restore_context (user_word m' ?cr3) (?top - 4) =
      (restore_context rd esp)\<lparr>ctx_regs := butlast (ctx_regs (restore_context rd esp)) @ [0]\<rparr>"
    using fm(3,4) copy by (intro restore_context_frame) (simp_all add: m'_def)
  then show ?thesis
    using run tab at_new(1,4,5) nP(3,4) other(1) ms by (intro exI [of _ s']) (simp add: Let_def)
qed

text \<open>Process 0 has saved its registers at \<open>0x8000\<close>; process 1 has a copy of its memory.\<close>

definition fork_memory :: memory where
  "fork_memory = store32 0x501C 5 (store32 0x5024 0x8048000 (store32 0x3FC 0x8000 (store32 0x349C 0x127007
     (store32 0x1C00 0x3007 (store32 0x2020 0x5007 (store32 0x1000 0x2007 (\<lambda>_. 0)))))))"

definition fork_copy :: "unit world call" where
  "fork_copy = (\<lambda>_ m (x, s). Inr (m, x, (upd_proc 1 (p_cr3_update (\<lambda>_. 0x1000))
     (upd_proc 0 (p_kstack_top_update (\<lambda>_. 0x400)) s))\<lparr>mem := fork_memory\<rparr>))"

lemma fork_memory_words:
  "load32 fork_memory 0x1000 = 0x2007" "load32 fork_memory 0x2020 = 0x5007" "load32 fork_memory 0x1C00 = 0x3007"
  "load32 fork_memory 0x349C = 0x127007" "load32 fork_memory 0x3FC = 0x8000" "load32 fork_memory 0x5024 = 0x8048000"
  "load32 fork_memory 0x501C = 5"
  by (simp_all add: fork_memory_def load32_def store32_def)

lemma less_12: "(k :: nat) < 12 \<Longrightarrow> k \<in> {0,1,2,3,4,5,6,7,8,9,10,11}"
  unfolding insert_iff empty_iff by arith

lemma fork_walk:
  assumes "k < 12"
  shows "pde_ptr 0x1000 (0x8000 + 4 * of_nat k) = 0x1000"
    "pte_ptr fork_memory 0x1000 (0x8000 + 4 * of_nat k) = 0x2020"
    "translate fork_memory 0x1000 (0x8000 + 4 * of_nat k) = Some (0x5000 + 4 * of_nat k)"
proof -
  have "k \<in> {0,1,2,3,4,5,6,7,8,9,10,11}" using assms by (rule less_12)
  then show 1: "pde_ptr 0x1000 (0x8000 + 4 * of_nat k) = 0x1000"
    by (auto simp: pde_ptr_def frame_addr_def)
  show 2: "pte_ptr fork_memory 0x1000 (0x8000 + 4 * of_nat k) = 0x2020"
    using \<open>k \<in> _\<close> unfolding pte_ptr_def 1 by (auto simp: fork_memory_words frame_addr_def)
  show "translate fork_memory 0x1000 (0x8000 + 4 * of_nat k) = Some (0x5000 + 4 * of_nat k)"
    using \<open>k \<in> _\<close> unfolding translate_def 1 2 by (auto simp: fork_memory_words frame_addr_def present_def)
qed

lemma fork_child_mapped: "child_mapped fork_memory 0x1000 0xC0127004 0x127004 0x8000 (\<lambda>k. 0x5000 + 4 * of_nat k)"
  unfolding child_mapped_def
proof (intro conjI allI impI)
  show "word_mapped fork_memory 0x1000 {0x127004, 0x5000 + 4 * of_nat 7} 0xC0127004 0x127004"
    by (simp add: word_mapped_def translate_def pde_ptr_def pte_ptr_def fork_memory_words frame_addr_def present_def aligned4_def KOFFSET_def)
  fix k :: nat assume k: "k < 12"
  then have d: "k \<in> {0,1,2,3,4,5,6,7,8,9,10,11}" by (rule less_12)
  then have "aligned4 (0x5000 + 4 * of_nat k)" "(0x5000 + 4 * of_nat k :: u32) < KOFFSET"
    by (auto simp: aligned4_def KOFFSET_def)
  then show "word_mapped fork_memory 0x1000 {0x127004, 0x5000 + 4 * of_nat 7} (0x8000 + 4 * of_nat k) (0x5000 + 4 * of_nat k)"
    using fork_walk [OF k] by (simp add: word_mapped_def KOFFSET_def)
  show "(0x5000 + 4 * of_nat k :: u32) \<noteq> 0x127004" using d by auto
  show "(0x5000 + 4 * of_nat k :: u32) \<noteq> 0x5000 + 4 * of_nat 7" if "k \<noteq> 7" using d that by auto
qed

text \<open>A print keeps the console well-formed and does not fail.\<close>

definition prints :: "(console \<Rightarrow> error + console) \<Rightarrow> bool" where
  "prints f \<longleftrightarrow> (\<forall>c. console_ok c \<longrightarrow> (\<exists>c'. f c = Inr c' \<and> console_ok c'))"

lemma print_all_prints:
  assumes "\<And>ch. prints (pr ch)"
  shows "prints (print_all pr s)"
proof (induction s)
  case Nil
  then show ?case by (simp add: prints_def)
next
  case (Cons ch s)
  then show ?case using assms [of ch] by (fastforce simp: prints_def)
qed

lemma prints_printk:
  assumes "vfprintf ctl args = Inr s"
  shows "prints (printk ctl args)" "prints (red_printk ctl args)" "prints (green_printk ctl args)"
proof -
  have p: "prints (console_printc ch)" "prints (red_console_printc ch)" "prints (green_console_printc ch)" for ch
    using printc_ok
    by (simp_all add: prints_def console_printc_def red_console_printc_def green_console_printc_def)
  show "prints (printk ctl args)" "prints (red_printk ctl args)" "prints (green_printk ctl args)"
    using print_all_prints [of console_printc s] print_all_prints [of red_console_printc s]
      print_all_prints [of green_console_printc s] p assms
    by (simp_all add: printk_def red_printk_def green_printk_def prints_def)
qed

lemma print_total:
  assumes "console_ok c" "vfprintf ctl args = Inr out"
  shows "\<exists>c'. printk ctl args c = Inr c' \<and> console_ok c'" "\<exists>c'. green_printk ctl args c = Inr c' \<and> console_ok c'"
  using prints_printk [OF assms(2)] assms(1) by (simp_all add: prints_def)

lemma con_init_proc: "con (init_proc s) = con s"
proof -
  have "con (fold (\<lambda>i. upd_proc i (p_flag_update (\<lambda>_. True))) is s) = con s" for "is" s
    by (induction "is" arbitrary: s) auto
  then show ?thesis by (simp add: init_proc_def Let_def)
qed

theorem fork_child_returns_zero_witness:
  "\<exists>s'. Fork_uthread zero_message fork_copy 0 (((\<lambda>_. 0), ()), init_proc boot_sys) = Inr (1, ((\<lambda>_. 0), ()), s') \<and>
     proc_table_ok s' [0, 1] \<and>
     (let child = restore_context (user_word (mem s') (p_cr3 (proc s' 1))) (p_esp (proc s' 1)) in
      ctx_eip child = 0x8048000 \<and> last (ctx_regs child) = 0)"
proof -
  let ?s = "init_proc boot_sys" and ?x = "((\<lambda>_ :: u32. 0 :: u8), ())"
  have len: "length (Proc boot_sys) = MAX_PROC" by (simp add: boot_sys_def)
  note io = init_proc_ok [OF len]
  have l: "length (Proc ?s) = MAX_PROC" "run_list (Proc ?s) [0]" "\<not> p_flag (proc ?s 0)" "p_pid (proc ?s 0) = 0"
    using io(1) by (simp_all add: proc_table_ok_def init_pcb_def)
  have "p_flag (proc ?s 1)" using io(6) [of 1] by (simp add: MAX_PROC_def)
  then have fe: "Find_Empty_PCB (lock ?s) = Some 1"
    by (simp add: Find_Empty_PCB_def MAX_PROC_def upt_rec)
  have "\<exists>out. vfprintf ''Forking: New PID = %d\<newline>'' [ArgWord (of_nat 1)] = Inr out" by simp
  moreover have "console_ok (con (lock ?s))"
    using init_screen_ok by (simp add: con_init_proc boot_sys_def)
  ultimately obtain c where c: "green_printk ''Forking: New PID = %d\<newline>'' [ArgWord (of_nat 1)] (con (lock ?s)) = Inr c"
    using print_total by blast
  define f where "f = (\<lambda>p. init_message_pool (p\<lparr>p_pid := int 1, p_flag := False, time_elapsed := time_elapsed (proc (lock ?s) 0)\<rparr>))"
  define s1 where "s1 = unlock (upd_proc 1 f ((lock ?s)\<lparr>con := c\<rparr>))"
  have al: "fork_allocate 0 (?x, ?s) = Inr (1, ?x, s1)"
    using fe c by (simp add: fork_allocate_def Let_def print_sys_def s1_def f_def)
  define s2 where "s2 = (upd_proc 1 (p_cr3_update (\<lambda>_. 0x1000)) (upd_proc 0 (p_kstack_top_update (\<lambda>_. 0x400)) s1))\<lparr>mem := fork_memory\<rparr>"
  have Ps: "Proc s2 = upd_at 1 (p_cr3_update (\<lambda>_. 0x1000)) (upd_at 0 (p_kstack_top_update (\<lambda>_. 0x400)) (upd_at 1 f (Proc ?s)))"
    by (simp add: s2_def s1_def)
  have "run_list (Proc s2) [0]" unfolding Ps
    by (intro run_list_upd_at) (use l in \<open>simp_all add: f_def\<close>)
  then have ok: "proc_table_ok s2 [0]" using l
    by (simp add: proc_table_ok_def Ps MAX_PROC_def)
  have new: "\<not> p_flag (proc s2 1)" "p_pid (proc s2 1) = int 1" "p_cr3 (proc s2 1) = 0x1000" "p_kstack_top (proc s2 0) = 0x400"
    using l(1) by (simp_all add: Ps f_def MAX_PROC_def)
  have top: "kstack_addr s2 1 + STACK_SIZE - 4 = 0xC0127004" "kphys 0xC0127004 = 0x127004" "kphys (0x400 - 4) = 0x3FC"
    using io(4) by (simp_all add: kstack_addr_def pcb_addr_def sizeof_PCB_def STACK_SIZE_def boot_sys_def s2_def s1_def
        kphys_def in_kernel_def KOFFSET_def va_to_pa_def)
  define rd where "rd a = (if a = 0x3FC then 0x8000 else user_word fork_memory 0x1000 a)" for a
  have rd: "\<forall>k < 12. rd (0x8000 + 4 * of_nat k) = user_word (mem s2) (p_cr3 (proc s2 1)) (0x8000 + 4 * of_nat k)"
  proof (intro allI impI)
    fix k :: nat assume "k < 12"
    then have "k \<in> {0,1,2,3,4,5,6,7,8,9,10,11}" by (rule less_12)
    then have "0x8000 + 4 * of_nat k \<noteq> (0x3FC :: u32)" by auto
    then show "rd (0x8000 + 4 * of_nat k) = user_word (mem s2) (p_cr3 (proc s2 1)) (0x8000 + 4 * of_nat k)"
      using new by (simp add: rd_def s2_def)
  qed
  have w: "load32 (mem s2) (kphys (p_kstack_top (proc s2 0) - 4)) = 0x8000"
    using new top by (simp add: s2_def fork_memory_words)
  have cm: "child_mapped (mem s2) (p_cr3 (proc s2 1)) (kstack_addr s2 1 + STACK_SIZE - 4)
        (kphys (kstack_addr s2 1 + STACK_SIZE - 4)) 0x8000 (\<lambda>k. 0x5000 + 4 * of_nat k)"
    using fork_child_mapped top new by (simp add: s2_def)
  have mm: "fork_copy MM (zero_message\<lparr>m_type := MM_COPY, m_w1 := pcb_addr s1 0, m_w0 := pcb_addr s1 1\<rparr>) (?x, s1) =
      Inr (zero_message\<lparr>m_type := MM_COPY, m_w1 := pcb_addr s1 0, m_w0 := pcb_addr s1 1\<rparr>, ?x, s2)"
    by (simp add: fork_copy_def s2_def)
  have h: "0 < length (Proc ?s)" "(1 :: nat) < MAX_PROC" "(1 :: nat) \<notin> set [0]" "(0 :: nat) \<noteq> 1" "rd 0x3FC = 0x8000"
    using l(1) by (simp_all add: MAX_PROC_def rd_def)
  note t0 = fork_child_returns_zero [where rd = rd and esp = "0x3FC" and s = ?s and src = 0 and call = fork_copy and m = zero_message and new = 1 and x = ?x and ?x1.0 = ?x and ?x2.0 = ?x and ?s1.0 = s1 and ?s2.0 = s2 and tf = "0x8000" and l = "[0]" and p = "\<lambda>k. 0x5000 + 4 * of_nat k"]
  note t1 = t0 [OF h(1) al mm ok]
  note t2 = t1 [OF new(1,2) h(2,3) w]
  note t3 = t2 [OF h(4) cm]
  note t = t3 [OF h(5) rd]
  have "rd (0x8000 + 36) = 0x8048000"
    using fork_walk(3) [of 9] by (simp add: rd_def user_word_def fork_memory_words)
  then have "ctx_eip (restore_context rd 0x3FC) = 0x8048000"
    by (simp add: restore_context_def Let_def rd_def)
  then show ?thesis using t by (auto simp: Let_def)
qed

section \<open>Which file a program is loaded from\<close>

text \<open>\<open>exec\<close> takes the segments of every program from the place of the first file: the request that
  \<open>Exec_uthread\<close> sends for a segment (\<open>FM_READ\<close>) is served by the file server exactly like the one that
  \<open>load_init_proc\<close> sends for the same segment of file 1 (\<open>FM_READ_FILE\<close>), whatever the file is, whereas for the
  file that was asked for the disk offset would be larger by the file's place in the image.\<close>

theorem exec_loads_first_file:
  "fm_message m0 call pid (segment_request m A FM_READ file_name ph mm) s =
     fm_message m0 call pid (segment_request m A FM_READ_FILE 1 ph mm) s \<and>
   (\<exists>q answer. fm_message m0 call pid (segment_request m A FM_READ file_name ph mm) s = bindE (call IDE q s) answer \<and>
     fm_message m0 call pid (segment_request m A FM_READ_FILE file_name ph mm) s =
       bindE (call IDE (q\<lparr>m_w2 := dev_offset q + (file_name - 1) * File_Size\<rparr>) s) answer \<and>
     dev_offset q = ph_off mm ph + Kernel_Size)"
proof -
  let ?m = "\<lambda>ty f. segment_request m A ty f ph mm"
  let ?q = "m0\<lparr>m_type := DEV_READ, m_w0 := of_int pid, m_w1 := pm_segment_buf A,
      m_w2 := ph_off mm ph + Kernel_Size, m_w3 := ph_filesz mm ph\<rparr>"
  let ?a = "\<lambda>y. reply (m_src m) ((?m FM_READ 1)\<lparr>m_w0 := int_p1 (fst y), m_type := -1\<rparr>) (snd y)"
  note defs = fm_message_def segment_request_def fm_numbers do_read_file_def fm_do_read_def fm_file_name_def
    fm_buf_def fm_offset_def fm_length_def Let_def
  have e: "bindE (bindE x f) g = bindE x (\<lambda>y. bindE (f y) g)" for x :: "error + 'u" and f :: "'u \<Rightarrow> error + 'v" and g :: "'v \<Rightarrow> error + 'z"
    by (cases x) simp_all
  have u: "q\<lparr>m_w3 := a, m_w2 := b\<rparr> = q\<lparr>m_w2 := b, m_w3 := a\<rparr>" for q :: message and a b by (cases q) simp
  have r: "fm_message m0 call pid (?m FM_READ f) s = bindE (call IDE ?q s) ?a" for f
    by (simp add: defs e case_prod_beta)
  have f: "fm_message m0 call pid (?m FM_READ_FILE f) s = bindE (call IDE (?q\<lparr>m_w2 := ph_off mm ph + Kernel_Size + (f - 1) * File_Size\<rparr>) s) ?a" for f
    by (simp add: defs e u case_prod_beta)
  show ?thesis using r f [of 1] f [of file_name]
    by (auto simp: dev_offset_def u intro!: exI [of _ ?q] exI [of _ ?a])
qed

end
