(* ===== verification/Oslib.thy ===== *)
theory Oslib
  imports Pm
begin

text \<open>
  The library of the user programs (lib/oslib.c): the system calls, \<open>strlen\<close>, \<open>scanf\<close>, \<open>printf\<close> and the
  part of \<open>execv\<close> that packs the arguments, together with the way the process server unpacks
  them again.
\<close>

section \<open>System calls\<close>

text \<open>\<open>syscall_0\<close>, \<open>syscall_1\<close>, \<open>syscall_2\<close> of lib/syscall.S: the frame that \<open>int $0x80\<close> saves, from the registers of
  the caller.\<close>

definition syscall_0 :: "TrapFrame \<Rightarrow> u32 \<Rightarrow> TrapFrame" where
  "syscall_0 r num = r\<lparr>tf_eax := num\<rparr>"

definition syscall_1 :: "TrapFrame \<Rightarrow> u32 \<Rightarrow> u32 \<Rightarrow> TrapFrame" where
  "syscall_1 r num a = r\<lparr>tf_eax := num, tf_ebx := a\<rparr>"

definition syscall_2 :: "TrapFrame \<Rightarrow> u32 \<Rightarrow> u32 \<Rightarrow> u32 \<Rightarrow> TrapFrame" where
  "syscall_2 r num a b = r\<lparr>tf_eax := num, tf_ebx := a, tf_ecx := b\<rparr>"

definition lib_read :: "TrapFrame \<Rightarrow> u32 \<Rightarrow> u32 \<Rightarrow> TrapFrame" where
  "lib_read r buf len = syscall_2 r INT80_READ buf len"

definition lib_write :: "TrapFrame \<Rightarrow> u32 \<Rightarrow> u32 \<Rightarrow> TrapFrame" where
  "lib_write r buf len = syscall_2 r INT80_WRITE buf len"

definition lib_fork :: "TrapFrame \<Rightarrow> TrapFrame" where "lib_fork r = syscall_0 r INT80_FORK"
definition lib_waitpid :: "TrapFrame \<Rightarrow> u32 \<Rightarrow> TrapFrame" where "lib_waitpid r pid = syscall_1 r INT80_WAITPID pid"
definition lib_getpid :: "TrapFrame \<Rightarrow> TrapFrame" where "lib_getpid r = syscall_0 r INT80_GETPID"
definition lib_exit :: "TrapFrame \<Rightarrow> u32 \<Rightarrow> TrapFrame" where "lib_exit r exit_code = syscall_1 r INT80_EXIT exit_code"
definition lib_sleep :: "TrapFrame \<Rightarrow> u32 \<Rightarrow> TrapFrame" where "lib_sleep r time = syscall_1 r INT80_SLEEP time"

section \<open>Buffers\<close>

definition Buffer_Size :: nat where "Buffer_Size = 200"

text \<open>\<open>buf[ptr ++] = c\<close> for the characters of a list, in a buffer of static size.\<close>

fun put_bytes :: "string \<Rightarrow> u8 list \<Rightarrow> u8 list \<times> nat \<Rightarrow> error + u8 list \<times> nat" where
  "put_bytes what [] st = Inr st"
| "put_bytes what (c # cs) (buf, p) = bindE (store_at what buf p c) (\<lambda>buf. put_bytes what cs (buf, p + 1))"

lemma put_bytes_spec:
  "p \<le> length buf \<Longrightarrow> put_bytes what cs (buf, p) =
     (if p + length cs \<le> length buf then Inr (take p buf @ cs @ drop (p + length cs) buf, p + length cs)
      else Inl (Fault what))"
proof (induction cs arbitrary: buf p)
  case Nil
  then show ?case by simp
next
  case (Cons c cs)
  show ?case
  proof (cases "p < length buf")
    case True
    have "take (p + 1) (buf[p := c]) = take p buf @ [c]"
      using True by (simp add: take_Suc_conv_app_nth)
    then show ?thesis using True Cons.IH [of "p + 1" "buf[p := c]"] by simp
  next
    case False
    then show ?thesis by simp
  qed
qed

section \<open>execv\<close>

text \<open>A C string is the list of its bytes before the NUL.\<close>

fun put_args :: "u8 list list \<Rightarrow> u8 list \<times> nat \<Rightarrow> error + u8 list \<times> nat" where
  "put_args [] st = Inr st"
| "put_args (str # argv) st =
     bindE (put_bytes ''argv_buf'' str st) (\<lambda>st. bindE (put_bytes ''argv_buf'' [0] st) (put_args argv))"

definition execv :: "TrapFrame \<Rightarrow> u32 \<Rightarrow> u8 list list \<Rightarrow> u32 \<Rightarrow> u8 list \<Rightarrow> error + TrapFrame \<times> u8 list" where
  "execv r file_name argv buf_addr argv_buf =
     bindE (put_args argv (argv_buf, 0)) (\<lambda>(buf, p).
     bindE (store_at ''argv_buf'' buf p 0) (\<lambda>buf.
     Inr (syscall_2 r INT80_EXEC file_name buf_addr, buf)))"

section \<open>strlen, scanf and printf\<close>

partial_function (option) strlen :: "memory \<Rightarrow> u32 \<Rightarrow> u32 \<Rightarrow> u32 option" where
  "strlen m str len = (if m str = 0 then Some len else strlen m (str + 1) (len + 1))"

text \<open>\<open>rd\<close> is the system call \<open>read\<close> on a state of the program, \<open>set_byte\<close> a store; the pointers are
  those of the variable arguments.\<close>

fun scanf :: "(u32 \<Rightarrow> u32 \<Rightarrow> 's \<Rightarrow> error + u32 \<times> 's) \<Rightarrow> (u32 \<Rightarrow> u8 \<Rightarrow> 's \<Rightarrow> 's) \<Rightarrow> string \<Rightarrow> u32 list \<Rightarrow> 's \<Rightarrow> error + 's" where
  "scanf rd set_byte [] args s = Inr s"
| "scanf rd set_byte (c # ctl) args s =
     (if c \<noteq> CHR ''%'' then scanf rd set_byte ctl args s
      else case ctl of
        [] \<Rightarrow> Inl (Fault ''scanf: reads past the end of the format'')
      | k # rest \<Rightarrow>
          if k = CHR ''s'' then
            (case args of
               [] \<Rightarrow> Inl (Fault ''scanf: argument'')
             | ptr # args \<Rightarrow>
                 bindE (rd ptr (of_nat (Buffer_Size - 1)) s) (\<lambda>(len, s).
                 scanf rd set_byte rest args (set_byte (ptr + len) 0 s)))
          else scanf rd set_byte rest args s)"

definition put_hex :: "u32 \<Rightarrow> u8" where
  "put_hex t = (if t < 10 then ucast (t + 48) else ucast (t + 55))"

definition print_d :: "u32 \<Rightarrow> u8 list" where
  "print_d dec =
     (if dec = 0 then [of_char (CHR ''0'')]
      else if sint dec < 0 then of_char (CHR ''-'') # map put_digit (rev (dec_digits (sint (- dec))))
      else map put_digit (rev (dec_digits (sint dec))))"

definition print_x :: "u32 \<Rightarrow> u8 list" where
  "print_x hex = (if hex = 0 then [of_char (CHR ''0'')] else map put_hex (rev (hex_digits hex)))"

text \<open>The loop of \<open>printf\<close>, with the buffer and \<open>buf_ptr\<close>.\<close>

fun print_buf :: "string \<Rightarrow> arg list \<Rightarrow> u8 list \<times> nat \<Rightarrow> error + u8 list \<times> nat" where
  "print_buf [] args st = Inr st"
| "print_buf (c # ctl) args st =
     (if c \<noteq> CHR ''%'' then bindE (put_bytes ''buf'' [of_char c] st) (print_buf ctl args)
      else case ctl of
        [] \<Rightarrow> Inl (Fault ''printf: reads past the end of the format'')
      | k # rest \<Rightarrow>
          if k = CHR ''d'' \<or> k = CHR ''x'' \<or> k = CHR ''c'' then
            (case args of
               ArgWord w # args \<Rightarrow>
                 bindE (put_bytes ''buf''
                   (if k = CHR ''d'' then print_d w else if k = CHR ''x'' then print_x w else [ucast w]) st)
                   (print_buf rest args)
             | _ \<Rightarrow> Inl (Fault ''printf: argument''))
          else if k = CHR ''%'' then bindE (put_bytes ''buf'' [of_char (CHR ''%'')] st) (print_buf rest args)
          else if k = CHR ''s'' then
            (case args of
               ArgStr str # args \<Rightarrow> bindE (put_bytes ''buf'' (map of_char str) st) (print_buf rest args)
             | _ \<Rightarrow> Inl (Fault ''printf: argument''))
          else print_buf rest args st)"

text \<open>\<open>printf\<close>: the frame of the final \<open>write(buf, buf_ptr)\<close> and the buffer it passes.\<close>

definition printf :: "TrapFrame \<Rightarrow> u32 \<Rightarrow> string \<Rightarrow> arg list \<Rightarrow> u8 list \<Rightarrow> error + TrapFrame \<times> u8 list" where
  "printf r buf_addr ctl args buf =
     bindE (print_buf ctl args (buf, 0)) (\<lambda>(buf, n). Inr (lib_write r buf_addr (of_nat n), buf))"

section \<open>What printf writes\<close>

lemma put_hex_same: "put_hex = put_hex_digit"
  by (simp add: fun_eq_iff put_hex_def put_hex_digit_def add.commute)

lemma print_same: "print_d = format_d" "print_x = format_x"
  by (simp_all add: fun_eq_iff print_d_def format_d_def print_x_def format_x_def put_hex_same)

lemma drop_past: "length xs = n \<Longrightarrow> drop (n + k) (xs @ ys) = drop k ys"
  by simp

lemma put_then:
  assumes "p \<le> length buf"
    and "\<And>buf p. p \<le> length (buf :: u8 list) \<Longrightarrow> f (buf, p) =
      (if p + length out \<le> length buf then Inr (take p buf @ out @ drop (p + length out) buf, p + length out)
       else Inl (Fault what))"
  shows "bindE (put_bytes what cs (buf, p)) f =
     (if p + length (cs @ out) \<le> length buf
      then Inr (take p buf @ (cs @ out) @ drop (p + length (cs @ out)) buf, p + length (cs @ out)) else Inl (Fault what))"
proof (cases "p + length cs \<le> length buf")
  case True
  let ?b = "take p buf @ cs @ drop (p + length cs) buf"
  have l: "length ?b = length buf" "p + length cs \<le> length ?b" using True by simp_all
  have tk: "take (p + length cs) ?b = take p buf @ cs" using assms(1) by simp
  have k: "length (take p buf @ cs) = p + length cs" using assms(1) by simp
  have "drop (p + length cs + length out) ?b = drop (p + length cs + length out) buf"
    using drop_past [OF k, of "length out" "drop (p + length cs) buf"] by (simp only: append_assoc drop_drop add.commute)
  note tk this
  then show ?thesis using True assms(2) [OF l(2)] l(1) put_bytes_spec [OF assms(1), of what cs]
    by (simp add: add.assoc)
next
  case False
  then show ?thesis using put_bytes_spec [OF assms(1), of what cs] by simp
qed

lemma print_buf_spec:
  "vfprintf ctl args = Inr out \<Longrightarrow> p \<le> length buf \<Longrightarrow> print_buf ctl args (buf, p) =
     (if p + length out \<le> length buf then Inr (take p buf @ out @ drop (p + length out) buf, p + length out)
      else Inl (Fault ''buf''))"
proof (induction ctl args arbitrary: out buf p rule: vfprintf.induct)
  case (1 args)
  then show ?case by simp
next
  case (2 c ctl args)
  show ?case
  proof (cases "c = CHR ''%''")
    case False
    then obtain o' where o': "vfprintf ctl args = Inr o'" "out = of_char c # o'"
      using "2.prems"(1) by (auto simp: bindE_eq_Inr)
    show ?thesis
      using put_then [OF "2.prems"(2) "2.IH"(1) [OF False o'(1)], where cs = "[of_char c]"] False o'(2) by simp
  next
    case True
    then obtain k rest where ctl: "ctl = k # rest" using "2.prems"(1) by (cases ctl) auto
    note v = "2.prems"(1) [unfolded True ctl]
    consider "k = CHR ''d'' \<or> k = CHR ''x'' \<or> k = CHR ''c''" | "k = CHR ''s''" | "k = CHR ''%''"
      | "k \<notin> {CHR ''d'', CHR ''x'', CHR ''c'', CHR ''s'', CHR ''%''}" by blast
    then show ?thesis
    proof cases
      case 1
      then obtain w args' o' where o': "args = ArgWord w # args'" "vfprintf rest args' = Inr o'"
        "out = (if k = CHR ''d'' then format_d w else if k = CHR ''x'' then format_x w else [ucast w]) @ o'"
        using v by (auto simp: bindE_eq_Inr split: list.splits arg.splits)
      have "print_buf rest args' (b, q) =
          (if q + length o' \<le> length b then Inr (take q b @ o' @ drop (q + length o') b, q + length o')
           else Inl (Fault ''buf''))" if "q \<le> length b" for b q
        using "2.IH"(2) [OF _ ctl 1 o'(1) refl o'(2) that] True by simp
      note pt = put_then [OF "2.prems"(2) this]
      define cs where "cs = (if k = CHR ''d'' then format_d w else if k = CHR ''x'' then format_x w else [ucast w])"
      have "print_buf (c # ctl) args (buf, p) = bindE (put_bytes ''buf'' cs (buf, p)) (print_buf rest args')"
        using 1 True ctl o'(1) by (simp add: print_same cs_def)
      then show ?thesis using pt [of cs] o'(3) cs_def by simp
    next
      case 2
      then obtain str args' o' where o': "args = ArgStr str # args'" "vfprintf rest args' = Inr o'" "out = map of_char str @ o'"
        using v by (auto simp: bindE_eq_Inr split: list.splits arg.splits)
      have "print_buf rest args' (b, q) =
          (if q + length o' \<le> length b then Inr (take q b @ o' @ drop (q + length o') b, q + length o')
           else Inl (Fault ''buf''))" if "q \<le> length b" for b q
        using "2.IH"(3) [OF _ ctl _ 2 o'(1) refl o'(2) that] True 2 by simp
      from put_then [OF "2.prems"(2) this, where cs = "map of_char str"]
      show ?thesis using 2 True ctl o' by simp
    next
      case 3
      then obtain o' where o': "vfprintf rest args = Inr o'" "out = of_char (CHR ''%'') # o'"
        using v by (auto simp: bindE_eq_Inr)
      have "print_buf rest args (b, q) =
          (if q + length o' \<le> length b then Inr (take q b @ o' @ drop (q + length o') b, q + length o')
           else Inl (Fault ''buf''))" if "q \<le> length b" for b q
        using "2.IH"(4) [OF _ ctl _ _ 3 o'(1) that] True 3 by simp
      from put_then [OF "2.prems"(2) this, where cs = "[of_char (CHR ''%'')]"]
      show ?thesis using 3 True ctl o' by simp
    next
      case 4
      then have "vfprintf rest args = Inr out" using v by simp
      from "2.IH"(5) [OF _ ctl _ _ _ this "2.prems"(2)] show ?thesis using 4 True ctl by simp
    qed
  qed
qed

text \<open>C38: \<open>printf\<close> writes what the kernel's formatter would print: for a format and arguments that
  \<open>vfprintf\<close> accepts, one \<open>write\<close> of exactly those characters follows if they fit the buffer of 200;
  a longer output is written past the end of the buffer.\<close>

theorem printf_writes_formatted:
  assumes "vfprintf ctl args = Inr out" "length buf = Buffer_Size"
  shows "printf r buf_addr ctl args buf =
     (if length out \<le> Buffer_Size
      then Inr (lib_write r buf_addr (of_nat (length out)), out @ drop (length out) buf)
      else Inl (Fault ''buf''))"
  using print_buf_spec [OF assms(1), of 0 buf] assms(2) by (simp add: printf_def)

theorem printf_writes_formatted_witness:
  "\<exists>b. printf read_frame 0x9000 ''%d%%'' [ArgWord (- 42)] (replicate 200 0) = Inr (lib_write read_frame 0x9000 4, b) \<and>
     take 4 b = [45, 52, 50, 37]"
proof -
  have "vfprintf ''%d%%'' [ArgWord (- 42)] = Inr [45, 52, 50, 37]"
    by (simp add: format_d_def dec_digits.simps put_digit_def signed_divide_int_def signed_modulo_int_def)
  from printf_writes_formatted [OF this, of "replicate 200 0" read_frame "0x9000"] show ?thesis
    by (simp add: Buffer_Size_def)
qed

end
