(* ===== verification/Arguments.thy ===== *)
theory Arguments
  imports Oslib IdeServer
begin

text \<open>
  The way of the arguments of a program: packed by \<open>execv\<close> of the user library, copied out of the
  address space of the caller by \<open>Exec_uthread\<close> of the process server, and found again there.
\<close>


section \<open>The arguments of a program\<close>

text \<open>The search for the ends of the arguments in \<open>Exec_uthread\<close>, on the bytes alone: the number of the last byte and
  the places where arguments start.\<close>

fun split_args :: "(nat \<Rightarrow> u8) \<Rightarrow> nat \<Rightarrow> nat \<Rightarrow> nat \<Rightarrow> nat list \<Rightarrow> (nat \<times> nat list) option" where
  "split_args b 0 right left os = None"
| "split_args b (Suc n) right left os =
     (if b (Suc right) = 0 then
        if b right = 0 then Some (Suc right, os)
        else if length os < NR_argv then split_args b n (Suc right) (Suc (Suc right)) (os @ [left]) else None
      else split_args b n (Suc right) left os)"

definition bytes_at :: "(nat \<Rightarrow> u8) \<Rightarrow> nat \<Rightarrow> u8 list \<Rightarrow> bool" where
  "bytes_at b p xs \<longleftrightarrow> (\<forall>i < length xs. b (p + i) = xs ! i)"

lemma all_less_Suc_split: "(\<forall>i < Suc n. P i) \<longleftrightarrow> P 0 \<and> (\<forall>i < n. P (Suc i))"
  by (metis Suc_less_eq less_Suc_eq_0_disj)

lemma bytes_at_simps [simp]:
  "bytes_at b p []"
  "bytes_at b p (x # xs) \<longleftrightarrow> b p = x \<and> bytes_at b (Suc p) xs"
  by (simp_all add: bytes_at_def all_less_Suc_split)

declare split_args.simps(2) [simp del]

lemma bytes_at_append [simp]:
  "bytes_at b p (xs @ ys) \<longleftrightarrow> bytes_at b p xs \<and> bytes_at b (p + length xs) ys"
  by (induction xs arbitrary: p) auto

fun starts :: "nat \<Rightarrow> u8 list list \<Rightarrow> nat list" where
  "starts p [] = []"
| "starts p (s # ss) = p # starts (p + length s + 1) ss"

definition packed :: "u8 list list \<Rightarrow> u8 list" where
  "packed args = concat (map (\<lambda>s. s @ [0]) args)"

lemma packed_simps [simp]: "packed [] = []" "packed (s # ss) = s @ 0 # packed ss"
  by (simp_all add: packed_def)

lemma length_starts [simp]: "length (starts p ss) = length ss"
  by (induction ss arbitrary: p) auto

lemma split_args_skip:
  "bytes_at b (Suc right) s \<Longrightarrow> 0 \<notin> set s \<Longrightarrow>
     split_args b (length s + n) right left os = split_args b n (right + length s) left os"
  by (induction s arbitrary: right) (auto simp: split_args.simps(2))

lemma split_args_string:
  assumes "bytes_at b right (c # s @ [0])" "c \<noteq> 0" "0 \<notin> set s" "length os < NR_argv"
  shows "split_args b (Suc (length s) + n) right left os =
    split_args b n (right + length s + 1) (right + length s + 2) (os @ [left])"
proof -
  have z: "b (right + length s) \<noteq> 0" "b (Suc (right + length s)) = 0"
  proof (cases s rule: rev_cases)
    case (snoc t d)
    then show "b (right + length s) \<noteq> 0" using assms(1,3) by auto
  qed (use assms in auto)
  have "split_args b (length s + Suc n) right left os = split_args b (Suc n) (right + length s) left os"
    using assms by (intro split_args_skip) auto
  then show ?thesis using z assms(4) by (simp add: split_args.simps(2) [of b n])
qed

lemma split_args_rest:
  "bytes_at b z (0 # packed ss @ [0]) \<Longrightarrow> \<forall>s \<in> set ss. s \<noteq> [] \<and> 0 \<notin> set s \<Longrightarrow> length os + length ss \<le> NR_argv \<Longrightarrow>
     split_args b (length (packed ss) + Suc n) z (Suc z) os = Some (z + length (packed ss) + 1, os @ starts (Suc z) ss)"
proof (induction ss arbitrary: z os)
  case Nil
  then show ?case by (simp add: split_args.simps(2))
next
  case (Cons s ss)
  obtain c t where s: "s = c # t" "c \<noteq> 0" "0 \<notin> set t" using Cons.prems(2) by (cases s) auto
  let ?n = "length (packed ss) + Suc n"
  have "split_args b (length (packed (s # ss)) + Suc n) z (Suc z) os = split_args b (Suc (Suc (length t)) + ?n) z (Suc z) os"
    using s by (simp add: add.assoc)
  also have "\<dots> = split_args b (Suc (length t) + ?n) (Suc z) (Suc z) os"
  proof -
    have "split_args b (Suc N) z (Suc z) os = split_args b N (Suc z) (Suc z) os" for N
      using Cons.prems(1) s by (simp add: split_args.simps(2))
    from this [of "Suc (length t) + ?n"] show ?thesis by (simp only: add_Suc)
  qed
  also have "\<dots> = split_args b ?n (Suc z + length t + 1) (Suc z + length t + 2) (os @ [Suc z])"
    using Cons.prems s by (intro split_args_string) auto
  also have "\<dots> = Some (Suc z + length t + 1 + length (packed ss) + 1, (os @ [Suc z]) @ starts (Suc (Suc z + length t + 1)) ss)"
    using Cons.IH [of "Suc z + length t + 1" "os @ [Suc z]"] Cons.prems s by simp
  finally show ?case using s by simp
qed

lemma split_args_packed:
  assumes "bytes_at b 0 (packed args @ [0])" "args \<noteq> []" "\<forall>s \<in> set args. s \<noteq> [] \<and> 0 \<notin> set s"
    "length args \<le> NR_argv" "length (packed args) \<le> n"
  shows "split_args b n 0 0 [] = Some (length (packed args), starts 0 args)"
proof -
  obtain s ss where a: "args = s # ss" using assms(2) by (cases args) auto
  obtain c t where s: "s = c # t" "c \<noteq> 0" "0 \<notin> set t" using assms(3) a by (cases s) auto
  obtain k where n: "n = Suc (length t) + (length (packed ss) + Suc k)"
    using assms(5) a s by (auto dest!: le_Suc_ex simp: add_ac)
  have "split_args b n 0 0 [] = split_args b (length (packed ss) + Suc k) (0 + length t + 1) (0 + length t + 2) ([] @ [0])"
    unfolding n using assms(1,4) a s by (intro split_args_string) auto
  also have "\<dots> = Some (length t + 1 + length (packed ss) + 1, [0] @ starts (Suc (length t + 1)) ss)"
    using split_args_rest [of b "length t + 1" ss "[0]"] assms a s by simp
  finally show ?thesis using a s by simp
qed

lemma starts_string:
  "i < length ss \<Longrightarrow> bytes_at b p (packed ss) \<Longrightarrow> bytes_at b (starts p ss ! i) (ss ! i @ [0])"
proof (induction ss arbitrary: p i)
  case (Cons s ss)
  then show ?case by (cases i) auto
qed simp


lemma starts_bound: "i < length ss \<Longrightarrow> starts p ss ! i + length (ss ! i) < p + length (packed ss)"
proof (induction ss arbitrary: p i)
  case (Cons s ss)
  then show ?case using Cons.IH [of "i - 1" "p + length s + 1"] by (cases i) auto
qed simp

text \<open>The arrays \<open>argv\<close> and \<open>argv_ptr\<close> of the process server lie apart in the kernel's memory.\<close>

definition argv_layout :: "pm_addrs \<Rightarrow> bool" where
  "argv_layout A \<longleftrightarrow> aligned4 (pm_argv_ptr A) \<and> unat KOFFSET \<le> unat (pm_argv A) \<and> unat KOFFSET \<le> unat (pm_argv_ptr A) \<and>
     unat (pm_argv A) + argv_size \<le> 2 ^ 32 \<and> unat (pm_argv_ptr A) + 4 * NR_argv \<le> 2 ^ 32 \<and>
     (unat (pm_argv A) + argv_size \<le> unat (pm_argv_ptr A) \<or> unat (pm_argv_ptr A) + 4 * NR_argv \<le> unat (pm_argv A))"

abbreviation argv_byte :: "pm_addrs \<Rightarrow> nat \<Rightarrow> u32" where
  "argv_byte A i \<equiv> kphys (pm_argv A + of_nat i)"

abbreviation argv_cell :: "pm_addrs \<Rightarrow> nat \<Rightarrow> u32" where
  "argv_cell A j \<equiv> kphys (pm_argv_ptr A + 4 * of_nat j)"

definition argv_bytes :: "pm_addrs \<Rightarrow> u32 set" where
  "argv_bytes A = argv_byte A ` {..<argv_size} \<union> (\<Union>j<NR_argv. word_bytes (argv_cell A j))"

lemma kphys_unat:
  assumes "unat KOFFSET \<le> unat p" "unat p + k < 2 ^ 32"
  shows "unat (kphys (p + of_nat k)) = unat p + k - unat KOFFSET"
proof -
  have u: "unat (p + of_nat k) = unat p + k" using assms(2) by (simp add: unat_word_ariths unat_of_nat)
  then have "KOFFSET \<le> p + of_nat k" using assms(1) by (simp add: word_le_nat_alt)
  then show ?thesis using u by (simp add: kphys_def in_kernel_def va_to_pa_def unat_sub)
qed

lemma argv_addresses:
  assumes "argv_layout A"
  shows "i < argv_size \<Longrightarrow> unat (argv_byte A i) = unat (pm_argv A) + i - unat KOFFSET"
    "j < NR_argv \<Longrightarrow> k < 4 \<Longrightarrow> unat (argv_cell A j + of_nat k) = unat (pm_argv_ptr A) + (4 * j + k) - unat KOFFSET"
    "j < NR_argv \<Longrightarrow> aligned4 (argv_cell A j)"
proof -
  show "unat (argv_byte A i) = unat (pm_argv A) + i - unat KOFFSET" if "i < argv_size"
    using assms that by (intro kphys_unat) (simp_all add: argv_layout_def)
  have c: "unat (argv_cell A j) = unat (pm_argv_ptr A) + 4 * j - unat KOFFSET" if "j < NR_argv"
    using assms that kphys_unat [of "pm_argv_ptr A" "4 * j"] by (simp add: argv_layout_def)
  have K: "4 dvd unat KOFFSET" by (simp add: KOFFSET_def)
  show "aligned4 (argv_cell A j)" if "j < NR_argv"
    using c [OF that] assms K unfolding aligned4_def argv_layout_def
    by (metis dvd_add dvd_diff_nat dvd_triv_left)
  show "unat (argv_cell A j + of_nat k) = unat (pm_argv_ptr A) + (4 * j + k) - unat KOFFSET" if "j < NR_argv" "k < 4"
  proof -
    have "unat (argv_cell A j) + k < 2 ^ 32" "unat KOFFSET \<le> unat (pm_argv_ptr A)"
      using c [OF that(1)] assms that by (auto simp: argv_layout_def KOFFSET_def)
    then show ?thesis using c [OF that(1)] by (simp add: unat_word_ariths unat_of_nat)
  qed
qed

lemma argv_apart:
  assumes "argv_layout A"
  shows "i < argv_size \<Longrightarrow> i' < argv_size \<Longrightarrow> argv_byte A i = argv_byte A i' \<longleftrightarrow> i = i'"
    "i < argv_size \<Longrightarrow> j < NR_argv \<Longrightarrow> k < 4 \<Longrightarrow> argv_byte A i \<noteq> argv_cell A j + of_nat k"
    "j < NR_argv \<Longrightarrow> j' < NR_argv \<Longrightarrow> argv_cell A j = argv_cell A j' \<longleftrightarrow> j = j'"
proof -
  note a = argv_addresses [OF assms]
  show "argv_byte A i = argv_byte A i' \<longleftrightarrow> i = i'" if "i < argv_size" "i' < argv_size"
    using a(1) [OF that(1)] a(1) [OF that(2)] assms by (auto simp: argv_layout_def)
  show "argv_byte A i \<noteq> argv_cell A j + of_nat k" if "i < argv_size" "j < NR_argv" "k < 4"
    using a(1) [OF that(1)] a(2) [OF that(2,3)] assms that by (auto simp: argv_layout_def)
  show "argv_cell A j = argv_cell A j' \<longleftrightarrow> j = j'" if "j < NR_argv" "j' < NR_argv"
    using a(2) [OF that(1), of 0] a(2) [OF that(2), of 0] assms by (auto simp: argv_layout_def)
qed

text \<open>What the loop has in memory after the byte \<open>right\<close>.\<close>

definition parsed :: "pm_addrs \<Rightarrow> (nat \<Rightarrow> u8) \<Rightarrow> nat \<Rightarrow> nat list \<Rightarrow> memory \<Rightarrow> bool" where
  "parsed A b right os m \<longleftrightarrow> (\<forall>i \<le> right. m (argv_byte A i) = b i) \<and>
     (\<forall>j < length os. load32 m (argv_cell A j) = of_nat (os ! j))"

lemma parsed_byte:
  assumes "argv_layout A" "parsed A b right os m" "Suc right < argv_size" "length os \<le> NR_argv"
  shows "parsed A b (Suc right) os (m(argv_byte A (Suc right) := b (Suc right)))"
  unfolding parsed_def
proof (intro conjI allI impI)
  note ap = argv_apart [OF assms(1)]
  fix i assume "i \<le> Suc right"
  then show "(m(argv_byte A (Suc right) := b (Suc right))) (argv_byte A i) = b i"
    using assms(2,3) ap(1) [of "Suc right" i] by (cases "i = Suc right") (auto simp: parsed_def)
next
  note ap = argv_apart [OF assms(1)]
  fix j assume j: "j < length os"
  have "argv_byte A (Suc right) \<noteq> argv_cell A j + of_nat k" if "k < 4" for k
    using ap(2) [OF assms(3) _ that, of j] j assms(4) by simp
  from this [of 0] this [of 1] this [of 2] this [of 3]
  have "load32 (m(argv_byte A (Suc right) := b (Suc right))) (argv_cell A j) = load32 m (argv_cell A j)"
    by (intro load32_cong) auto
  then show "load32 (m(argv_byte A (Suc right) := b (Suc right))) (argv_cell A j) = of_nat (os ! j)"
    using assms(2) j by (simp add: parsed_def)
qed

lemma parsed_cell:
  assumes "argv_layout A" "parsed A b right os m" "right < argv_size" "length os < NR_argv"
  shows "parsed A b right (os @ [left]) (store32 (argv_cell A (length os)) (of_nat left) m)"
  unfolding parsed_def
proof (intro conjI allI impI)
  note ap = argv_apart [OF assms(1)]
  fix i assume i: "i \<le> right"
  have "argv_byte A i \<noteq> argv_cell A (length os) + of_nat k" if "k < 4" for k
    using ap(2) [OF _ assms(4) that, of i] i assms(3) by simp
  from this [of 0] this [of 1] this [of 2] this [of 3]
  show "store32 (argv_cell A (length os)) (of_nat left) m (argv_byte A i) = b i"
    using assms(2) i by (simp add: store32_other parsed_def)
next
  note ap = argv_apart [OF assms(1)] and al = argv_addresses(3) [OF assms(1)]
  fix j assume j: "j < length (os @ [left])"
  show "load32 (store32 (argv_cell A (length os)) (of_nat left) m) (argv_cell A j) = of_nat ((os @ [left]) ! j)"
  proof (cases "j = length os")
    case False
    then have l: "j < length os" using j by simp
    then have "load32 (store32 (argv_cell A (length os)) (of_nat left) m) (argv_cell A j) = load32 m (argv_cell A j)"
      using ap(3) [of j "length os"] al assms(4) by (intro load32_store32_other) auto
    then show ?thesis using l assms(2) by (simp add: parsed_def nth_append)
  qed simp
qed

lemma parse_args_splits:
  assumes "argv_layout A"
  shows "split_args b n right left os = Some (r, os') \<Longrightarrow> right + n < argv_size \<Longrightarrow> length os \<le> NR_argv \<Longrightarrow>
     user_mapped m cr3 va Buffer_Size a \<Longrightarrow> tables_apart m cr3 va Buffer_Size (argv_bytes A) \<Longrightarrow>
     \<forall>i < Buffer_Size. a i \<notin> argv_bytes A \<and> m (a i) = b i \<Longrightarrow> parsed A b right os m \<Longrightarrow>
     \<exists>m'. parse_args A cr3 va n right left (length os) m = Some (Inr (r, length os', m')) \<and> parsed A b r os' m' \<and>
       (\<forall>x. x \<notin> argv_bytes A \<longrightarrow> m' x = m x)"
proof (induction n arbitrary: right left os m)
  case 0
  then show ?case by simp
next
  case (Suc n)
  have r: "Suc right < argv_size" "Suc right < Buffer_Size" using Suc.prems(2) by (simp_all add: argv_size_def Buffer_Size_def)
  have inW: "argv_byte A (Suc right) \<in> argv_bytes A"
    unfolding argv_bytes_def using r(1) by (intro UnI1 imageI) simp
  define m1 where "m1 = m(argv_byte A (Suc right) := b (Suc right))"
  have c: "copy_to_kernel cr3 (pm_argv A + of_nat (Suc right)) (va + of_nat (Suc right)) 1 m = Some m1"
    using copy_to_byte [OF Suc.prems(4,5) inW r(2)] Suc.prems(6) r(2) by (simp add: m1_def)
  have k1: "\<forall>x. x \<notin> argv_bytes A \<longrightarrow> m1 x = m x" using inW by (auto simp: m1_def)
  note u1 = user_mapped_keep [OF Suc.prems(4,5) k1]
  have p1: "parsed A b (Suc right) os m1" unfolding m1_def by (rule parsed_byte [OF assms Suc.prems(7) r(1) Suc.prems(3)])
  then have b1: "m1 (argv_byte A (Suc right)) = b (Suc right)" "m1 (argv_byte A right) = b right"
    by (auto simp: parsed_def)
  have s1: "\<forall>i < Buffer_Size. a i \<notin> argv_bytes A \<and> m1 (a i) = b i" using Suc.prems(6) k1 by simp
  have unf: "parse_args A cr3 va (Suc n) right left (length os) m =
     (if b (Suc right) = 0 then
        if b right = 0 then Some (Inr (Suc right, length os, m1))
        else if length os < NR_argv then
          parse_args A cr3 va n (Suc right) (Suc (Suc right)) (length (os @ [left])) (store32 (argv_cell A (length os)) (of_nat left) m1)
        else Some (Inl (Fault ''argv_ptr[argc]''))
      else parse_args A cr3 va n (Suc right) left (length os) m1)"
    using c b1 by (simp add: Let_def)
  note sp = Suc.prems(1) [unfolded split_args.simps(2)]
  consider "b (Suc right) = 0" "b right = 0" | "b (Suc right) = 0" "b right \<noteq> 0" "length os < NR_argv" | "b (Suc right) \<noteq> 0"
    using sp by (auto split: if_splits)
  then show ?case
  proof cases
    case 1
    then show ?thesis using sp unf p1 k1 by (intro exI [of _ m1]) simp
  next
    case 2
    define m2 where "m2 = store32 (argv_cell A (length os)) (of_nat left) m1"
    have "word_bytes (argv_cell A (length os)) \<subseteq> argv_bytes A" using 2(3) by (auto simp: argv_bytes_def)
    then have k2: "\<forall>x. x \<notin> argv_bytes A \<longrightarrow> m2 x = m1 x"
      by (auto simp: m2_def word_bytes_def intro!: store32_other)
    note u2 = user_mapped_keep [OF u1 k2]
    have "parsed A b (Suc right) (os @ [left]) m2" unfolding m2_def by (rule parsed_cell [OF assms p1 r(1) 2(3)])
    moreover have "\<forall>i < Buffer_Size. a i \<notin> argv_bytes A \<and> m2 (a i) = b i" using s1 k2 by simp
    ultimately obtain m' where "parse_args A cr3 va n (Suc right) (Suc (Suc right)) (length (os @ [left])) m2 = Some (Inr (r, length os', m'))"
      "parsed A b r os' m'" "\<forall>x. x \<notin> argv_bytes A \<longrightarrow> m' x = m2 x"
      using Suc.IH [of "Suc right" "Suc (Suc right)" "os @ [left]" m2] sp 2 u2 Suc.prems(2) by auto
    then show ?thesis using unf 2 k1 k2 by (intro exI [of _ m']) (simp add: m2_def)
  next
    case 3
    then obtain m' where "parse_args A cr3 va n (Suc right) left (length os) m1 = Some (Inr (r, length os', m'))"
      "parsed A b r os' m'" "\<forall>x. x \<notin> argv_bytes A \<longrightarrow> m' x = m1 x"
      using Suc.IH [of "Suc right" left os m1] sp u1 s1 p1 Suc.prems(2,3) by auto
    then show ?thesis using unf 3 k1 by (intro exI [of _ m']) simp
  qed
qed


lemma put_args_spec:
  "p \<le> length buf \<Longrightarrow> put_args argv (buf, p) =
     (if p + length (packed argv) \<le> length buf
      then Inr (take p buf @ packed argv @ drop (p + length (packed argv)) buf, p + length (packed argv))
      else Inl (Fault ''argv_buf''))"
proof (induction argv arbitrary: buf p)
  case Nil
  then show ?case by simp
next
  case (Cons s ss)
  have "bindE (put_bytes ''argv_buf'' [0] (b, q)) (put_args ss) =
      (if q + length ([0] @ packed ss) \<le> length b
       then Inr (take q b @ ([0] @ packed ss) @ drop (q + length ([0] @ packed ss)) b, q + length ([0] @ packed ss))
       else Inl (Fault ''argv_buf''))" if "q \<le> length b" for b q
    using put_then [OF that Cons.IH] .
  from put_then [OF Cons.prems this, where cs = s] show ?case by simp
qed

text \<open>What \<open>execv\<close> packs.\<close>

lemma execv_packs:
  assumes "execv r file_name args va buf = Inr (tf, buf')" "length buf = Buffer_Size" "length (packed args) < argv_size"
  shows "buf' = packed args @ 0 # drop (length (packed args) + 1) buf"
proof -
  let ?n = "length (packed args)"
  have n: "?n < length buf" using assms(2,3) by (simp add: argv_size_def Buffer_Size_def)
  then have "buf' = (packed args @ drop ?n buf)[?n := 0]"
    using assms(1,2) put_args_spec [of 0 buf args] by (simp add: execv_def)
  also have "drop ?n buf = buf ! ?n # drop (Suc ?n) buf" using n by (simp add: Cons_nth_drop_Suc)
  finally show ?thesis by simp
qed

text \<open>The loop on packed arguments.\<close>

lemma packed_args_parsed:
  assumes args: "args \<noteq> []" "length args \<le> NR_argv" "\<forall>s \<in> set args. s \<noteq> [] \<and> 0 \<notin> set s"
      "length (packed args) < argv_size"
    and bp: "bytes_at b 0 (packed args @ [0])"
    and lay: "argv_layout A" "user_mapped m cr3 va Buffer_Size a" "tables_apart m cr3 va Buffer_Size (argv_bytes A)"
      "\<forall>i < Buffer_Size. a i \<notin> argv_bytes A \<and> m (a i) = b i"
  shows "\<exists>m0 m'. copy_to_kernel cr3 (pm_argv A) va 1 m = Some m0 \<and>
     parse_args A cr3 va (argv_size - 1) 0 0 0 m0 = Some (Inr (length (packed args), length args, m')) \<and>
     parsed A b (length (packed args)) (starts 0 args) m' \<and> (\<forall>x. x \<notin> argv_bytes A \<longrightarrow> m' x = m x)"
proof -
  have sp: "split_args b (argv_size - 1) 0 0 [] = Some (length (packed args), starts 0 args)"
    using args bp by (intro split_args_packed) (simp_all add: argv_size_def)
  define m0 where "m0 = m(argv_byte A 0 := b 0)"
  have inW: "argv_byte A 0 \<in> argv_bytes A"
    unfolding argv_bytes_def by (intro UnI1 imageI) (simp add: argv_size_def)
  have c0: "copy_to_kernel cr3 (pm_argv A) va 1 m = Some m0"
    using copy_to_byte [OF lay(2,3), of "pm_argv A" 0] inW lay(4) by (simp add: m0_def Buffer_Size_def)
  have k0: "\<forall>x. x \<notin> argv_bytes A \<longrightarrow> m0 x = m x" using inW by (auto simp: m0_def)
  have p0: "parsed A b 0 [] m0" by (simp add: parsed_def m0_def)
  have s0: "\<forall>i < Buffer_Size. a i \<notin> argv_bytes A \<and> m0 (a i) = b i" using lay(4) k0 by simp
  have "0 + (argv_size - 1) < argv_size" "length ([] :: nat list) \<le> NR_argv" by (simp_all add: argv_size_def)
  from parse_args_splits [OF lay(1) sp this user_mapped_keep [OF lay(2,3) k0] s0 p0] obtain m' where
    "parse_args A cr3 va (argv_size - 1) 0 0 0 m0 = Some (Inr (length (packed args), length args, m'))"
      "parsed A b (length (packed args)) (starts 0 args) m'" "\<forall>x. x \<notin> argv_bytes A \<longrightarrow> m' x = m0 x" by auto
  then show ?thesis using c0 k0 by (intro exI [of _ m0] exI [of _ m']) simp
qed

text \<open>The arguments of a program survive the way from \<open>execv\<close> to the process server: for at most ten
  non-empty strings that fit \<open>argv\<close>, the buffer that \<open>execv\<close> packs is unpacked by \<open>Exec_uthread\<close> into as many
  arguments, the offset of each is that of the same string with its NUL, and nothing but the two arrays of the
  server changes.\<close>

theorem execv_arguments_arrive:
  assumes args: "args \<noteq> []" "length args \<le> NR_argv" "\<forall>s \<in> set args. s \<noteq> [] \<and> 0 \<notin> set s"
      "length (packed args) < argv_size"
    and ex: "execv r file_name args va buf = Inr (tf, buf')" "length buf = Buffer_Size"
    and lay: "argv_layout A" "user_mapped m cr3 va Buffer_Size a" "tables_apart m cr3 va Buffer_Size (argv_bytes A)"
      "\<forall>i < Buffer_Size. a i \<notin> argv_bytes A \<and> m (a i) = buf' ! i"
  shows "\<exists>m0 m'. copy_to_kernel cr3 (pm_argv A) va 1 m = Some m0 \<and>
     parse_args A cr3 va (argv_size - 1) 0 0 0 m0 = Some (Inr (length (packed args), length args, m')) \<and>
     (\<forall>i < length args. \<forall>j \<le> length (args ! i).
        m' (kphys (pm_argv A + load32 m' (argv_cell A i) + of_nat j)) = (args ! i @ [0]) ! j) \<and>
     (\<forall>x. x \<notin> argv_bytes A \<longrightarrow> m' x = m x)"
proof -
  note buf' = execv_packs [OF ex args(4)]
  define b where "b = (\<lambda>i. buf' ! i)"
  have bp: "bytes_at b 0 (packed args @ [0])"
    unfolding b_def buf' bytes_at_def by (auto simp: nth_append)
  have mb: "\<forall>i < Buffer_Size. a i \<notin> argv_bytes A \<and> m (a i) = b i" using lay(4) by (simp add: b_def)
  obtain m0 m' where m': "copy_to_kernel cr3 (pm_argv A) va 1 m = Some m0"
      "parse_args A cr3 va (argv_size - 1) 0 0 0 m0 = Some (Inr (length (packed args), length args, m'))"
      "parsed A b (length (packed args)) (starts 0 args) m'" "\<forall>x. x \<notin> argv_bytes A \<longrightarrow> m' x = m x"
    using packed_args_parsed [OF args bp lay(1-3) mb] by blast
  have "m' (kphys (pm_argv A + load32 m' (argv_cell A i) + of_nat j)) = (args ! i @ [0]) ! j"
    if i: "i < length args" and j: "j \<le> length (args ! i)" for i j
  proof -
    let ?k = "starts 0 args ! i + j"
    have st: "bytes_at b (starts 0 args ! i) (args ! i @ [0])" using starts_string [OF i, of b 0] bp by simp
    have le: "?k \<le> length (packed args)" using starts_bound [OF i, of 0] j by simp
    have "load32 m' (argv_cell A i) = of_nat (starts 0 args ! i)" using m'(3) i by (simp add: parsed_def)
    then have "m' (kphys (pm_argv A + load32 m' (argv_cell A i) + of_nat j)) = m' (argv_byte A ?k)" by (simp add: add.assoc)
    also have "\<dots> = b ?k" using m'(3) le unfolding parsed_def by blast
    also have "\<dots> = (args ! i @ [0]) ! j" using st j by (simp add: bytes_at_def del: bytes_at_append)
    finally show ?thesis .
  qed
  then show ?thesis using m' by (intro exI [of _ m0] exI [of _ m']) simp
qed


text \<open>A process whose page at \<open>0x8000\<close> holds the packed arguments \<open>a\<close> and \<open>bc\<close>.\<close>

definition two_args :: "u8 list" where
  "two_args = [97, 0, 98, 99, 0, 0] @ replicate 194 0"

definition args_memory :: memory where
  "args_memory = (\<lambda>x. if 0x5000 \<le> x \<and> x < 0x50C8 then two_args ! unat (x - 0x5000) else fork_memory x)"

definition args_addrs :: pm_addrs where
  "args_addrs = \<lparr>pm_buf = 0, pm_segment_buf = 0, pm_argv = 0xC0100000, pm_argv_ptr = 0xC0100100, pm_key = 0, pm_argc = 0,
     asm_do_int80_exit = 0\<rparr>"

lemma args_walk:
  assumes "i < Buffer_Size"
  shows "pde_ptr 0x1000 (0x8000 + of_nat i) = 0x1000" "pte_ptr args_memory 0x1000 (0x8000 + of_nat i) = 0x2020"
    "translate args_memory 0x1000 (0x8000 + of_nat i) = Some (0x5000 + of_nat i)"
proof -
  have i: "unat (0x8000 :: u32) mod 4096 + i < 4096" using assms by (simp add: Buffer_Size_def)
  note sp = same_page [OF i]
  show 1: "pde_ptr 0x1000 (0x8000 + of_nat i) = 0x1000" by (simp add: pde_ptr_def sp frame_addr_def)
  have l: "load32 args_memory 0x1000 = 0x2007" "load32 args_memory 0x2020 = 0x5007"
    by (simp_all add: args_memory_def fork_memory_def load32_def store32_def)
  show 2: "pte_ptr args_memory 0x1000 (0x8000 + of_nat i) = 0x2020"
    unfolding pte_ptr_def 1 by (simp add: sp l frame_addr_def)
  show "translate args_memory 0x1000 (0x8000 + of_nat i) = Some (0x5000 + of_nat i)"
    unfolding translate_def 1 2 using frame_or_offset [of "0x5007" "0x8000 + of_nat i"]
    by (simp add: sp l frame_addr_def present_def)
qed

lemma that_byte: "x \<in> word_bytes p \<Longrightarrow> \<exists>k < 4. x = p + of_nat k"
  by (auto simp: word_bytes_def intro: exI [of _ 0] exI [of _ 1] exI [of _ 2] exI [of _ 3])

lemma args_ok:
  "argv_layout args_addrs" "user_mapped args_memory 0x1000 0x8000 Buffer_Size (\<lambda>i. 0x5000 + of_nat i)"
  "tables_apart args_memory 0x1000 0x8000 Buffer_Size (argv_bytes args_addrs)"
  "\<forall>i < Buffer_Size. 0x5000 + of_nat i \<notin> argv_bytes args_addrs \<and> args_memory (0x5000 + of_nat i) = two_args ! i"
proof -
  show lay: "argv_layout args_addrs"
    by (simp add: argv_layout_def args_addrs_def aligned4_def KOFFSET_def argv_size_def NR_argv_def)
  have off: "unat (0x5000 + of_nat i :: u32) = 0x5000 + i" if "i < Buffer_Size" for i
    using that by (simp add: Buffer_Size_def unat_word_ariths unat_of_nat)
  have high: "0x100000 \<le> unat x" if x: "x \<in> argv_bytes args_addrs" for x
  proof -
    note ad = argv_addresses [OF lay]
    have n: "unat (pm_argv args_addrs) = unat KOFFSET + 0x100000" "unat (pm_argv_ptr args_addrs) = unat KOFFSET + 0x100100"
      by (simp_all add: args_addrs_def KOFFSET_def)
    from x consider i where "i < argv_size" "x = argv_byte args_addrs i"
      | j where "j < NR_argv" "x \<in> word_bytes (argv_cell args_addrs j)" by (auto simp: argv_bytes_def)
    then show ?thesis
    proof cases
      case 1
      then show ?thesis using ad(1) [OF 1(1)] n by simp
    next
      case 2
      then obtain k where "k < 4" "x = argv_cell args_addrs j + of_nat k"
        using that_byte [of x "argv_cell args_addrs j"] by blast
      then show ?thesis using ad(2) [OF 2(1), of k] n by simp
    qed
  qed
  show "user_mapped args_memory 0x1000 0x8000 Buffer_Size (\<lambda>i. 0x5000 + of_nat i)"
    using args_walk off by (auto simp: user_mapped_def KOFFSET_def word_less_nat_alt Buffer_Size_def)
  show "tables_apart args_memory 0x1000 0x8000 Buffer_Size (argv_bytes args_addrs)"
    unfolding tables_apart_def using high args_walk by (fastforce simp: word_bytes_def)
  show "\<forall>i < Buffer_Size. 0x5000 + of_nat i \<notin> argv_bytes args_addrs \<and> args_memory (0x5000 + of_nat i) = two_args ! i"
  proof (intro allI impI conjI)
    fix i assume i: "i < Buffer_Size"
    show "0x5000 + of_nat i \<notin> argv_bytes args_addrs" using high off [OF i] i by (fastforce simp: Buffer_Size_def)
    have "0x5000 + of_nat i < (0x50C8 :: u32)" "0x5000 \<le> (0x5000 + of_nat i :: u32)"
      using off [OF i] i by (simp_all add: word_less_nat_alt word_le_nat_alt Buffer_Size_def)
    moreover have "unat (0x5000 + of_nat i - 0x5000 :: u32) = i" using i by (simp add: unat_of_nat Buffer_Size_def)
    ultimately show "args_memory (0x5000 + of_nat i) = two_args ! i" by (simp add: args_memory_def)
  qed
qed

theorem execv_arguments_arrive_witness:
  "\<exists>m0 m'. parse_args args_addrs 0x1000 0x8000 149 0 0 0 m0 = Some (Inr (5, 2, m')) \<and>
     m' (kphys (0xC0100000 + load32 m' (argv_cell args_addrs 1) + 1)) = 99"
proof -
  let ?args = "[[97], [98, 99]] :: u8 list list"
  have a: "?args \<noteq> []" "length ?args \<le> NR_argv" "\<forall>s \<in> set ?args. s \<noteq> [] \<and> 0 \<notin> set s" "length (packed ?args) < argv_size"
    by (simp_all add: NR_argv_def argv_size_def)
  have e: "execv read_frame 2 ?args 0x8000 (replicate 200 0) = Inr (syscall_2 read_frame INT80_EXEC 2 0x8000, two_args)"
    "length (replicate 200 (0 :: u8)) = Buffer_Size"
    by (simp_all add: execv_def numeral_eq_Suc two_args_def Buffer_Size_def)
  from execv_arguments_arrive [OF a e args_ok] obtain m0 m' where
    m': "parse_args args_addrs 0x1000 0x8000 (argv_size - 1) 0 0 0 m0 = Some (Inr (length (packed ?args), length ?args, m'))"
    "\<forall>i < length ?args. \<forall>j \<le> length (?args ! i).
        m' (kphys (pm_argv args_addrs + load32 m' (argv_cell args_addrs i) + of_nat j)) = (?args ! i @ [0]) ! j"
    by blast
  have "m' (kphys (pm_argv args_addrs + load32 m' (argv_cell args_addrs 1) + of_nat 1)) = 99"
    using m'(2) [rule_format, of 1 1] by simp
  then show ?thesis using m'(1) by (intro exI [of _ m0] exI [of _ m']) (simp add: argv_size_def args_addrs_def)
qed

end
