(* ===== verification/Boot.thy ===== *)
theory Boot
  imports Pm IdeServer
begin

text \<open>
  The boot loader (boot/main.c): it reads the kernel, an ELF file behind the boot block, from the disk into
  memory, polling the drive, and finds the entry point. Paging is off, so an address is a physical one.
\<close>

section \<open>Reading sectors\<close>

definition SECTSIZE :: nat where "SECTSIZE = 512"

partial_function (option) waitdisk :: "'d device \<Rightarrow> 'd \<Rightarrow> 'd option" where
  "waitdisk dev d =
     (if fst (d_in_byte dev 0x1F7 d) AND 0xC0 \<noteq> 0x40 then waitdisk dev (snd (d_in_byte dev 0x1F7 d))
      else Some (snd (d_in_byte dev 0x1F7 d)))"

fun fetch_longs :: "'d device \<Rightarrow> u32 \<Rightarrow> nat \<Rightarrow> nat \<Rightarrow> memory \<times> 'd \<Rightarrow> memory \<times> 'd" where
  "fetch_longs dev dst 0 i st = st"
| "fetch_longs dev dst (Suc n) i (m, d) =
     (case d_in_long dev 0x1F0 d of (w, d) \<Rightarrow>
        fetch_longs dev dst n (i + 1) (store32 (dst + 4 * of_nat i) w m, d))"

definition issue_sector :: "'d device \<Rightarrow> u32 \<Rightarrow> 'd \<Rightarrow> 'd" where
  "issue_sector dev offset d =
     (let d = d_out_byte dev 0x1F2 1 d;
          d = d_out_byte dev 0x1F3 (ucast offset) d;
          d = d_out_byte dev 0x1F4 (ucast (drop_bit 8 offset)) d;
          d = d_out_byte dev 0x1F5 (ucast (drop_bit 16 offset)) d;
          d = d_out_byte dev 0x1F6 (ucast (drop_bit 24 offset OR 0xE0)) d
      in d_out_byte dev 0x1F7 0x20 d)"

definition readsect :: "'d device \<Rightarrow> u32 \<Rightarrow> u32 \<Rightarrow> memory \<times> 'd \<Rightarrow> (memory \<times> 'd) option" where
  "readsect dev dst offset = (\<lambda>(m, d).
     case waitdisk dev d of
       None \<Rightarrow> None
     | Some d \<Rightarrow>
         (case waitdisk dev (issue_sector dev offset d) of
            None \<Rightarrow> None
          | Some d \<Rightarrow> Some (fetch_longs dev dst (SECTSIZE div 4) 0 (m, d))))"

partial_function (option) read_sects :: "'d device \<Rightarrow> u32 \<Rightarrow> u32 \<Rightarrow> u32 \<Rightarrow> memory \<times> 'd \<Rightarrow> (memory \<times> 'd) option" where
  "read_sects dev pa epa offset st =
     (if pa < epa then
        (case readsect dev pa offset st of
           None \<Rightarrow> None
         | Some st \<Rightarrow> read_sects dev (pa + of_nat SECTSIZE) epa (offset + 1) st)
      else Some st)"

definition readseg :: "'d device \<Rightarrow> u32 \<Rightarrow> u32 \<Rightarrow> u32 \<Rightarrow> memory \<times> 'd \<Rightarrow> (memory \<times> 'd) option" where
  "readseg dev pa len offset st =
     read_sects dev (pa - of_int (sint offset smod int SECTSIZE)) (pa + len)
       (of_int (sint offset sdiv int SECTSIZE + 1)) st"

section \<open>Loading the kernel\<close>

definition ph_paddr :: "memory \<Rightarrow> u32 \<Rightarrow> u32" where "ph_paddr m ph = load32 m (kphys (ph + 12))"

partial_function (option) zero_fill :: "u32 \<Rightarrow> u32 \<Rightarrow> u32 \<Rightarrow> memory \<Rightarrow> memory option" where
  "zero_fill pa ph i m = (if i < pa + ph_memsz m ph then zero_fill pa ph (i + 1) (m(i := 0)) else Some m)"

definition boot_segment :: "'d device \<Rightarrow> u32 \<Rightarrow> memory \<times> 'd \<Rightarrow> (memory \<times> 'd) option" where
  "boot_segment dev ph = (\<lambda>(m, d).
     let pa = ph_paddr m ph - KOFFSET in
     case readseg dev pa (ph_filesz m ph) (ph_off m ph) (m, d) of
       None \<Rightarrow> None
     | Some (m, d) \<Rightarrow>
         (case zero_fill pa ph (pa + ph_filesz m ph) m of None \<Rightarrow> None | Some m \<Rightarrow> Some (m, d)))"

fun boot_segments :: "'d device \<Rightarrow> nat \<Rightarrow> u32 \<Rightarrow> memory \<times> 'd \<Rightarrow> (memory \<times> 'd) option" where
  "boot_segments dev 0 ph st = Some st"
| "boot_segments dev (Suc n) ph st =
     (case boot_segment dev ph st of None \<Rightarrow> None | Some st \<Rightarrow> boot_segments dev n (ph + 32) st)"

text \<open>The address that is called at the end, with the memory and the drive at that moment.\<close>

definition bootmain :: "'d device \<Rightarrow> memory \<times> 'd \<Rightarrow> (u32 \<times> memory \<times> 'd) option" where
  "bootmain dev st =
     (let elf = 0x8000 in
      case readseg dev elf 4096 0 st of
        None \<Rightarrow> None
      | Some (m, d) \<Rightarrow>
          (case boot_segments dev (unat (elf_phnum m elf)) (elf + elf_phoff m elf) (m, d) of
             None \<Rightarrow> None
           | Some (m, d) \<Rightarrow> Some (elf_entry m elf - KOFFSET, m, d)))"

section \<open>Runs of bytes\<close>

definition put :: "u32 \<Rightarrow> u8 list \<Rightarrow> memory \<Rightarrow> memory" where
  "put a bs m = (\<lambda>x. if unat (x - a) < length bs then bs ! unat (x - a) else m x)"

lemma put_Nil [simp]: "put a [] m = m"
  by (simp add: put_def)

lemma put_append:
  assumes "length as + length bs \<le> 2 ^ 32"
  shows "put a (as @ bs) m = put (a + of_nat (length as)) bs (put a as m)"
proof
  fix x
  define y where "y = x - a"
  have e: "x - (a + of_nat (length as)) = y - of_nat (length as)" by (simp add: y_def)
  have y: "unat y < 2 ^ 32" using unsigned_less [of y] by simp
  show "put a (as @ bs) m x = put (a + of_nat (length as)) bs (put a as m) x"
  proof (cases "length as \<le> unat y")
    case True
    then have n: "unat (of_nat (length as) :: u32) = length as" using y by (simp add: unat_of_nat)
    then have "unat (y - of_nat (length as)) = unat y - length as"
      using True by (simp add: unat_sub word_le_nat_alt)
    then show ?thesis using True by (auto simp: put_def e nth_append y_def [symmetric])
  next
    case False
    have "bs \<noteq> [] \<Longrightarrow> length bs \<le> unat (y - of_nat (length as))"
    proof -
      assume "bs \<noteq> []"
      then have l: "length as < 2 ^ 32" using assms by (cases bs) auto
      have n: "unat (of_nat (length as) :: u32) = length as" using l by (simp add: unat_of_nat)
      show ?thesis using False assms by (simp add: unat_sub_if' n)
    qed
    then show ?thesis using False by (cases "bs = []") (auto simp: put_def e nth_append y_def [symmetric])
  qed
qed

lemma store32_put: "store32 a w m = put a (bytes_of w) m"
proof
  fix x
  define y where "y = x - a"
  have x: "x = a + y" by (simp add: y_def)
  have "unat y < 4 \<Longrightarrow> y = 0 \<or> y = 1 \<or> y = 2 \<or> y = 3"
  proof -
    assume "unat y < 4"
    then have "unat y = unat (0 :: u32) \<or> unat y = unat (1 :: u32) \<or> unat y = unat (2 :: u32) \<or> unat y = unat (3 :: u32)"
      by simp arith
    then show ?thesis by (simp only: word_unat_eq_iff)
  qed
  then show "store32 a w m x = put a (bytes_of w) m x"
    unfolding x by (auto simp: store32_def put_def bytes_of_def)
qed

lemma length_bytes_of [simp]: "length (bytes_of w) = 4"
  by (simp add: bytes_of_def)

lemma put_at:
  assumes "unat a + length bs \<le> 2 ^ 32"
  shows "i < length bs \<Longrightarrow> put a bs m (a + of_nat i) = bs ! i"
    "unat x < unat a \<or> unat a + length bs \<le> unat x \<Longrightarrow> put a bs m x = m x"
proof -
  show "put a bs m (a + of_nat i) = bs ! i" if "i < length bs"
    using that assms by (simp add: put_def unat_of_nat)
  show "put a bs m x = m x" if h: "unat x < unat a \<or> unat a + length bs \<le> unat x"
  proof (cases "unat a \<le> unat x")
    case True
    then have "unat (x - a) = unat x - unat a" by (simp add: unat_sub word_le_nat_alt)
    then show ?thesis using h True by (auto simp: put_def)
  next
    case False
    then have "\<not> unat (x - a) < length bs" using assms by (simp add: unat_sub_if')
    then show ?thesis by (simp add: put_def)
  qed
qed


section \<open>A polled drive\<close>

text \<open>What the documentation of ATA drives promises a program that polls the status register.\<close>

fun polls :: "'d device \<Rightarrow> nat \<Rightarrow> 'd \<Rightarrow> 'd option" where
  "polls dev 0 d = (case d_in_byte dev 0x1F7 d of (r, e) \<Rightarrow> if r AND 0xC0 = 0x40 then Some e else None)"
| "polls dev (Suc k) d = (case d_in_byte dev 0x1F7 d of (r, e) \<Rightarrow> if r AND 0xC0 = 0x40 then None else polls dev k e)"

definition read_command :: "'d device \<Rightarrow> u8 \<Rightarrow> u8 \<Rightarrow> u8 \<Rightarrow> u8 \<Rightarrow> 'd \<Rightarrow> 'd" where
  "read_command dev b0 b1 b2 b3 d =
     d_out_byte dev 0x1F7 0x20 (d_out_byte dev 0x1F6 b3 (d_out_byte dev 0x1F5 b2 (d_out_byte dev 0x1F4 b1
       (d_out_byte dev 0x1F3 b0 (d_out_byte dev 0x1F2 1 d)))))"

definition polled_drive :: "'d device \<Rightarrow> ('d \<Rightarrow> bool) \<Rightarrow> ('d \<Rightarrow> u32 \<Rightarrow> u8 list) \<Rightarrow> bool" where
  "polled_drive dev idle disk \<longleftrightarrow>
     (\<forall>d n. idle d \<longrightarrow> length (disk d n) = 512) \<and>
     (\<forall>d. idle d \<longrightarrow> (\<exists>k e. polls dev k d = Some e \<and> idle e \<and> disk e = disk d)) \<and>
     (\<forall>d b0 b1 b2 b3. idle d \<longrightarrow> b3 AND 0xF0 = 0xE0 \<longrightarrow>
        (\<exists>k e ws f. polls dev k (read_command dev b0 b1 b2 b3 d) = Some e \<and>
           in_longs dev 128 e = (ws, f) \<and> concat (map bytes_of ws) = disk d (lba b0 b1 b2 b3) \<and>
           idle f \<and> disk f = disk d))"

lemma waitdisk_polls: "polls dev k d = Some e \<Longrightarrow> waitdisk dev d = Some e"
proof (induction k arbitrary: d)
  case 0
  then show ?case by (subst waitdisk.simps) (auto split: prod.splits if_splits)
next
  case (Suc k)
  then show ?case by (subst waitdisk.simps) (auto split: prod.splits if_splits)
qed

lemma length_in_longs: "in_longs dev n d = (ws, e) \<Longrightarrow> length ws = n"
  by (induction n arbitrary: d ws) (auto split: prod.splits)

lemma length_words [simp]: "length (concat (map bytes_of ws)) = 4 * length ws"
  by (induction ws) simp_all

lemma fetch_longs_put:
  "in_longs dev n d = (ws, e) \<Longrightarrow> 4 * n \<le> 2 ^ 32 \<Longrightarrow>
     fetch_longs dev dst n i (m, d) = (put (dst + 4 * of_nat i) (concat (map bytes_of ws)) m, e)"
proof (induction n arbitrary: i m d ws)
  case 0
  then show ?case by simp
next
  case (Suc n)
  obtain w d1 where w: "d_in_long dev 0x1F0 d = (w, d1)" by fastforce
  obtain ws' where ws: "in_longs dev n d1 = (ws', e)" "ws = w # ws'"
    using Suc.prems(1) w by (auto split: prod.splits)
  have l: "length (bytes_of w) + length (concat (map bytes_of ws')) \<le> 2 ^ 32"
    using length_in_longs [OF ws(1)] Suc.prems(2) by simp
  have "fetch_longs dev dst (Suc n) i (m, d) = fetch_longs dev dst n (i + 1) (put (dst + 4 * of_nat i) (bytes_of w) m, d1)"
    using w by (simp add: store32_put)
  also have "\<dots> = (put (dst + 4 * of_nat (i + 1)) (concat (map bytes_of ws')) (put (dst + 4 * of_nat i) (bytes_of w) m), e)"
    using Suc.prems(2) by (intro Suc.IH ws(1)) simp
  also have "dst + 4 * of_nat (i + 1) = dst + 4 * of_nat i + of_nat (length (bytes_of w))" by (simp add: algebra_simps)
  finally show ?case unfolding ws(2) using put_append [OF l] by simp
qed

lemma low_byte: "(ucast ((n :: u32) AND 0xFF) :: u8) = ucast n" "(ucast (0xE0 OR (n AND 0xFF)) :: u8) = ucast (n OR 0xE0)"
proof -
  have m: "(0xFF :: u32) = mask 8" by (simp add: mask_eq_exp_minus_1)
  show "(ucast (n AND 0xFF) :: u8) = ucast n" "(ucast (0xE0 OR (n AND 0xFF)) :: u8) = ucast (n OR 0xE0)"
    unfolding m by (auto intro!: bit_word_eqI simp: bit_simps)
qed

lemma readsect_spec:
  assumes a: "polled_drive dev idle disk" and d: "idle d" and s: "s < 2 ^ 28"
  shows "\<exists>e. readsect dev pa s (m, d) = Some (put pa (disk d s) m, e) \<and> idle e \<and> disk e = disk d"
proof -
  obtain k1 d1 where d1: "polls dev k1 d = Some d1" "idle d1" "disk d1 = disk d"
    using a d by (auto simp: polled_drive_def)
  note b = lba_of_sector [OF s, unfolded low_byte]
  have c: "issue_sector dev s d1 = read_command dev (ucast s) (ucast (drop_bit 8 s)) (ucast (drop_bit 16 s))
      (ucast (drop_bit 24 s OR 0xE0)) d1"
    by (simp add: issue_sector_def read_command_def)
  have "\<And>d b0 b1 b2 b3. idle d \<Longrightarrow> b3 AND 0xF0 = 0xE0 \<Longrightarrow>
        \<exists>k e ws f. polls dev k (read_command dev b0 b1 b2 b3 d) = Some e \<and>
           in_longs dev 128 e = (ws, f) \<and> concat (map bytes_of ws) = disk d (lba b0 b1 b2 b3) \<and>
           idle f \<and> disk f = disk d"
    using a by (simp add: polled_drive_def)
  from this [OF d1(2) b(2), of "ucast s" "ucast (drop_bit 8 s)" "ucast (drop_bit 16 s)"] obtain k2 d2 ws f where
    d2: "polls dev k2 (issue_sector dev s d1) = Some d2" "in_longs dev 128 d2 = (ws, f)"
      "concat (map bytes_of ws) = disk d1 s" "idle f" "disk f = disk d1"
    unfolding c b(1) by blast
  have "fetch_longs dev pa 128 0 (m, d2) = (put pa (disk d s) m, f)"
    using fetch_longs_put [OF d2(2), of pa 0 m] d2(3) d1(3) by simp
  then show ?thesis
    using waitdisk_polls [OF d1(1)] waitdisk_polls [OF d2(1)] d2(4,5) d1(3)
    by (simp add: readsect_def SECTSIZE_def)
qed

definition sectors :: "(u32 \<Rightarrow> u8 list) \<Rightarrow> nat \<Rightarrow> nat \<Rightarrow> u8 list" where
  "sectors D s n = concat (map (\<lambda>k. D (of_nat k)) [s..<s + n])"

lemma length_sectors: "\<forall>k. length (D k) = 512 \<Longrightarrow> length (sectors D s n) = 512 * n"
  by (induction n) (simp_all add: sectors_def)

lemma sectors_Suc: "sectors D s (Suc n) = D (of_nat s) @ sectors D (Suc s) n"
  by (simp add: sectors_def upt_conv_Cons del: upt_Suc)

lemma read_sects_spec:
  assumes a: "polled_drive dev idle disk"
  shows "idle d \<Longrightarrow> s + n \<le> 2 ^ 28 \<Longrightarrow> unat pa + 512 * n < 2 ^ 32 \<Longrightarrow> n = (unat epa - unat pa + 511) div 512 \<Longrightarrow>
    \<exists>e. read_sects dev pa epa (of_nat s) (m, d) = Some (put pa (sectors (disk d) s n) m, e) \<and> idle e \<and> disk e = disk d"
proof (induction n arbitrary: pa s m d)
  case 0
  then have "unat epa \<le> unat pa" by (simp add: div_eq_0_iff)
  then have "\<not> pa < epa" by (simp add: word_less_nat_alt)
  then show ?case using 0(1) by (subst read_sects.simps) (simp add: sectors_def)
next
  case (Suc n)
  have lt: "unat pa < unat epa" using Suc.prems(4) by (cases "unat pa < unat epa") auto
  then have pe: "pa < epa" by (simp add: word_less_nat_alt)
  have s: "(of_nat s :: u32) < 2 ^ 28"
    using Suc.prems(2) by (simp add: word_less_nat_alt unat_of_nat)
  obtain e where e: "readsect dev pa (of_nat s) (m, d) = Some (put pa (disk d (of_nat s)) m, e)" "idle e" "disk e = disk d"
    using readsect_spec [OF a Suc.prems(1) s] by blast
  have u: "unat (pa + 512) = unat pa + 512" using Suc.prems(3) by (simp add: unat_word_ariths)
  have n: "n = (unat epa - unat (pa + 512) + 511) div 512"
  proof -
    have "n = k" if "Suc n = (x - p + 511) div 512" "p < x" "k = (x - (p + 512) + 511) div 512" for x p k :: nat
      using that by (cases "x \<le> p + 512") (auto simp: div_eq_dividend_iff)
    from this [OF Suc.prems(4) lt refl] show ?thesis unfolding u .
  qed
  have "Suc s + n \<le> 2 ^ 28" "unat (pa + 512) + 512 * n < 2 ^ 32" using Suc.prems(2,3) u by simp_all
  from Suc.IH [OF e(2) this n] obtain f where
    f: "read_sects dev (pa + 512) epa (of_nat (Suc s)) (put pa (disk d (of_nat s)) m, e) =
      Some (put (pa + 512) (sectors (disk e) (Suc s) n) (put pa (disk d (of_nat s)) m), f)" "idle f" "disk f = disk e" by blast
  have l: "\<forall>k. length (disk d k) = 512" using a Suc.prems(1) by (simp add: polled_drive_def)
  have "length (disk d (of_nat s)) + length (sectors (disk d) (Suc s) n) \<le> 2 ^ 32"
    using l length_sectors [OF l] Suc.prems(3) by simp
  from put_append [OF this, of pa m] l
  have "put pa (sectors (disk d) s (Suc n)) m = put (pa + 512) (sectors (disk d) (Suc s) n) (put pa (disk d (of_nat s)) m)"
    by (simp add: sectors_Suc)
  moreover have "read_sects dev pa epa (of_nat s) (m, d) =
      read_sects dev (pa + 512) epa (of_nat (Suc s)) (put pa (disk d (of_nat s)) m, e)"
    using pe e(1) by (subst read_sects.simps) (simp add: SECTSIZE_def add.commute)
  ultimately show ?case using f e(3) by simp
qed


text \<open>The byte of the disk at a byte offset.\<close>

definition disk_byte :: "(u32 \<Rightarrow> u8 list) \<Rightarrow> nat \<Rightarrow> u8" where
  "disk_byte D k = D (of_nat (k div 512)) ! (k mod 512)"

lemma sectors_nth:
  assumes "\<forall>k. length (D k) = 512" "j < 512 * n"
  shows "sectors D s n ! j = disk_byte D (512 * s + j)"
  using assms(2)
proof (induction n arbitrary: s j)
  case 0
  then show ?case by simp
next
  case (Suc n)
  show ?case
  proof (cases "j < 512")
    case True
    then show ?thesis using assms(1) by (simp add: sectors_Suc nth_append disk_byte_def)
  next
    case False
    then have "sectors D s (Suc n) ! j = disk_byte D (512 * Suc s + (j - 512))"
      using Suc assms(1) by (simp add: sectors_Suc nth_append)
    then show ?thesis using False by simp
  qed
qed

text \<open>Where a read of \<open>len\<close> bytes at \<open>o\<close> to \<open>pa\<close> starts, and how many sectors it takes.\<close>

definition seg_start :: "nat \<Rightarrow> nat \<Rightarrow> nat" where
  "seg_start pa off = pa - off mod 512"

definition seg_sectors :: "nat \<Rightarrow> nat \<Rightarrow> nat" where
  "seg_sectors len off = (len + off mod 512 + 511) div 512"

definition seg_fits :: "nat \<Rightarrow> nat \<Rightarrow> nat \<Rightarrow> bool" where
  "seg_fits pa len off \<longleftrightarrow> off mod 512 \<le> pa \<and> off < 2 ^ 31 \<and> pa + len + 512 < 2 ^ 32"

lemma int_sdiv_smod:
  "int k smod int SECTSIZE = int (k mod 512)" "int k sdiv int SECTSIZE = int (k div 512)"
  by (simp_all add: SECTSIZE_def signed_modulo_int_def signed_divide_int_def sgn_if of_nat_mod of_nat_div)

lemma readseg_spec:
  assumes a: "polled_drive dev idle disk" and d: "idle d" and f: "seg_fits (unat pa) (unat len) (unat off)"
  shows "\<exists>e. readseg dev pa len off (m, d) =
      Some (put (pa - of_nat (unat off mod 512)) (sectors (disk d) (unat off div 512 + 1) (seg_sectors (unat len) (unat off))) m, e) \<and>
    idle e \<and> disk e = disk d"
proof -
  let ?o = "unat off" and ?r = "unat off mod 512"
  let ?n = "seg_sectors (unat len) ?o"
  have so: "sint off = int ?o"
  proof -
    have "?o < 2147483648" using f by (simp add: seg_fits_def)
    moreover have u: "uint off = int ?o" by simp
    ultimately have "uint off < 2147483648" by linarith
    have "- (2 ^ 31) \<le> (0 :: int)" by simp
    also have "0 \<le> uint off" by simp
    finally have "- (2 ^ 31) \<le> uint off" .
    moreover have "uint off < 2 ^ 31" using \<open>uint off < _\<close> by simp
    ultimately have "signed_take_bit 31 (uint off) = uint off" by (rule signed_take_bit_int_eq_self)
    then show ?thesis by (simp add: sint_uint)
  qed
  have e1: "of_int (sint off smod int SECTSIZE) = (of_nat ?r :: u32)"
    "of_int (sint off sdiv int SECTSIZE + 1) = (of_nat (?o div 512 + 1) :: u32)"
    unfolding so int_sdiv_smod by (simp_all only: of_int_of_nat_eq of_nat_add of_int_add of_nat_1 of_int_1)
  have r: "unat (of_nat ?r :: u32) = ?r" by (simp add: unat_of_nat)
  have p: "unat (pa - of_nat ?r) = unat pa - ?r" using f r by (simp add: unat_sub word_le_nat_alt seg_fits_def)
  have q: "unat (pa + len) = unat pa + unat len" using f by (simp add: unat_word_ariths seg_fits_def)
  have n: "?n = (unat (pa + len) - unat (pa - of_nat ?r) + 511) div 512"
    unfolding p q seg_sectors_def using f by (simp add: seg_fits_def)
  have "?n * 512 \<le> unat len + ?r + 511" unfolding seg_sectors_def by simp
  then have b: "unat (pa - of_nat ?r) + 512 * ?n < 2 ^ 32" "?o div 512 + 1 + ?n \<le> 2 ^ 28"
    using f unfolding p by (auto simp: seg_fits_def)
  from read_sects_spec [OF a d b(2,1) n, of m] show ?thesis
    unfolding readseg_def e1 by blast
qed


section \<open>Segments\<close>

text \<open>The ELF header and the program headers lie in the 4096 bytes at \<open>0x8000\<close>.\<close>

definition same_header :: "memory \<Rightarrow> memory \<Rightarrow> bool" where
  "same_header m m' \<longleftrightarrow> (\<forall>x. 0x8000 \<le> unat x \<and> unat x < 0x9000 \<longrightarrow> m' x = m x)"

definition header_at :: "u32 \<Rightarrow> bool" where
  "header_at ph \<longleftrightarrow> 0x8000 \<le> unat ph \<and> unat ph + 32 \<le> 0x9000"

lemma same_header_load:
  assumes "same_header m m'" "0x8000 \<le> unat a" "unat a + 4 \<le> 0x9000"
  shows "load32 m' (kphys a) = load32 m (kphys a)"
proof -
  have "a < KOFFSET" using assms by (simp add: KOFFSET_def word_less_nat_alt)
  then have k: "kphys a = a" by simp
  have "unat (a + 1) = unat a + 1" "unat (a + 2) = unat a + 2" "unat (a + 3) = unat a + 3"
    using assms by (simp_all add: unat_word_ariths)
  then show ?thesis unfolding k using assms by (intro load32_cong) (auto simp: same_header_def)
qed

lemma same_header_fields:
  assumes "same_header m m'" "header_at ph"
  shows "ph_paddr m' ph = ph_paddr m ph" "ph_filesz m' ph = ph_filesz m ph" "ph_memsz m' ph = ph_memsz m ph"
    "ph_off m' ph = ph_off m ph"
proof -
  have u: "unat (ph + of_nat k) = unat ph + k" if "k < 32" for k
    using assms(2) that by (simp add: header_at_def unat_word_ariths unat_of_nat)
  have "load32 m' (kphys (ph + of_nat k)) = load32 m (kphys (ph + of_nat k))" if "k \<le> 28" for k
    using assms u [of k] that by (intro same_header_load [OF assms(1)]) (auto simp: header_at_def)
  from this [of 12] this [of 16] this [of 20] this [of 4]
  show "ph_paddr m' ph = ph_paddr m ph" "ph_filesz m' ph = ph_filesz m ph" "ph_memsz m' ph = ph_memsz m ph"
    "ph_off m' ph = ph_off m ph"
    by (simp_all add: ph_paddr_def ph_filesz_def ph_memsz_def ph_off_def)
qed

lemma zero_fill_spec:
  assumes h: "header_at ph" and e: "pa + ph_memsz m ph = e"
    and out: "\<forall>x. i \<le> x \<and> x < e \<longrightarrow> unat x < 0x8000 \<or> 0x9000 \<le> unat x"
  shows "zero_fill pa ph i m = Some (\<lambda>x. if i \<le> x \<and> x < e then 0 else m x)"
  using e out
proof (induction "unat e - unat i" arbitrary: i m)
  case 0
  then have "\<not> i < e" by (simp add: word_less_nat_alt)
  then show ?case using 0(2) by (subst zero_fill.simps) (auto simp: fun_eq_iff)
next
  case (Suc n)
  then have lt: "i < e" by (simp add: word_less_nat_alt)
  have "unat e < 2 ^ 32" using unsigned_less [of e] by simp
  then have u: "unat (i + 1) = unat i + 1" using lt by (simp add: unat_word_ariths word_less_nat_alt)
  have le: "i + 1 \<le> x \<longleftrightarrow> i \<le> x \<and> x \<noteq> i" for x by (auto simp: word_le_nat_alt u word_unat_eq_iff)
  have i: "unat i < 0x8000 \<or> 0x9000 \<le> unat i" using Suc.prems(2) lt by auto
  have "same_header m (m(i := 0))" using i by (auto simp: same_header_def)
  then have "pa + ph_memsz (m(i := 0)) ph = e" using same_header_fields(3) [OF _ h] Suc.prems(1) by simp
  moreover have "n = unat e - unat (i + 1)" using Suc.hyps(2) u by simp
  moreover have "\<forall>x. i + 1 \<le> x \<and> x < e \<longrightarrow> unat x < 0x8000 \<or> 0x9000 \<le> unat x" using Suc.prems(2) le by blast
  ultimately have "zero_fill pa ph (i + 1) (m(i := 0)) = Some (\<lambda>x. if i + 1 \<le> x \<and> x < e then 0 else (m(i := 0)) x)"
    using Suc.hyps(1) by blast
  moreover have "zero_fill pa ph i m = zero_fill pa ph (i + 1) (m(i := 0))"
    using lt Suc.prems(1) by (subst zero_fill.simps) simp
  moreover have "(\<lambda>x. if i + 1 \<le> x \<and> x < e then 0 else (m(i := 0)) x) = (\<lambda>x. if i \<le> x \<and> x < e then 0 else m x)"
    using le lt by (auto simp: fun_eq_iff)
  ultimately show ?case by simp
qed

text \<open>Place, length in the file, length in memory and file offset of the segment of a program header.\<close>

abbreviation seg_pa :: "memory \<Rightarrow> u32 \<Rightarrow> nat" where "seg_pa m ph \<equiv> unat (ph_paddr m ph - KOFFSET)"
abbreviation seg_len :: "memory \<Rightarrow> u32 \<Rightarrow> nat" where "seg_len m ph \<equiv> unat (ph_filesz m ph)"
abbreviation seg_mem :: "memory \<Rightarrow> u32 \<Rightarrow> nat" where "seg_mem m ph \<equiv> unat (ph_memsz m ph)"
abbreviation seg_off :: "memory \<Rightarrow> u32 \<Rightarrow> nat" where "seg_off m ph \<equiv> unat (ph_off m ph)"

definition seg_ok :: "memory \<Rightarrow> u32 \<Rightarrow> bool" where
  "seg_ok m ph \<longleftrightarrow> seg_fits (seg_pa m ph) (seg_len m ph) (seg_off m ph) \<and> seg_len m ph \<le> seg_mem m ph \<and>
     seg_pa m ph + seg_mem m ph < 2 ^ 32"

text \<open>The addresses that loading it writes to, whole sectors and the zeroed rest.\<close>

definition seg_range :: "memory \<Rightarrow> u32 \<Rightarrow> nat set" where
  "seg_range m ph = {seg_start (seg_pa m ph) (seg_off m ph)..<
     max (seg_pa m ph + seg_mem m ph)
       (seg_start (seg_pa m ph) (seg_off m ph) + 512 * seg_sectors (seg_len m ph) (seg_off m ph))}"

text \<open>The segment of \<open>ph\<close> is in the memory \<open>m'\<close>: its bytes of the file, then zeros.\<close>

definition loaded :: "(u32 \<Rightarrow> u8 list) \<Rightarrow> memory \<Rightarrow> u32 \<Rightarrow> memory \<Rightarrow> bool" where
  "loaded D m ph m' \<longleftrightarrow> (\<forall>i < seg_mem m ph. m' (of_nat (seg_pa m ph + i)) =
     (if i < seg_len m ph then disk_byte D (512 + seg_off m ph + i) else 0))"

lemma unat_small: "k < 2 ^ 32 \<Longrightarrow> unat (of_nat k :: u32) = k"
  by (simp add: unat_of_nat)

lemma boot_segment_spec:
  assumes a: "polled_drive dev idle disk" and d: "idle d" and ok: "seg_ok m ph"
    and h: "header_at ph" and apart: "seg_range m ph \<inter> {0x8000..<0x9000} = {}"
  shows "\<exists>m' e. boot_segment dev ph (m, d) = Some (m', e) \<and> idle e \<and> disk e = disk d \<and>
    loaded (disk d) m ph m' \<and> (\<forall>x. unat x \<notin> seg_range m ph \<longrightarrow> m' x = m x)"
proof -
  let ?pa = "ph_paddr m ph - KOFFSET" and ?len = "ph_filesz m ph" and ?off = "ph_off m ph"
  let ?p = "unat ?pa" and ?o = "unat ?off" and ?l = "unat ?len" and ?n = "seg_sectors (unat ?len) (unat ?off)"
  let ?r = "?o mod 512" and ?S = "sectors (disk d) (?o div 512 + 1) ?n"
  have f: "seg_fits ?p ?l ?o" "?l \<le> seg_mem m ph" "?p + seg_mem m ph < 2 ^ 32" using ok by (simp_all add: seg_ok_def)
  obtain e where e: "readseg dev ?pa ?len ?off (m, d) = Some (put (?pa - of_nat ?r) ?S m, e)" "idle e" "disk e = disk d"
    using readseg_spec [OF a d f(1), of m] by blast
  let ?m1 = "put (?pa - of_nat ?r) ?S m"
  let ?b = "?pa + ?len" and ?e = "?pa + ph_memsz m ph"
  let ?m' = "\<lambda>x. if ?b \<le> x \<and> x < ?e then 0 else ?m1 x"
  have l512: "\<forall>k. length (disk d k) = 512" using a d by (simp add: polled_drive_def)
  have r: "unat (of_nat ?r :: u32) = ?r" by (simp add: unat_of_nat)
  have st: "unat (?pa - of_nat ?r) = ?p - ?r" using f(1) r by (simp add: unat_sub word_le_nat_alt seg_fits_def)
  have nle: "?n * 512 \<le> ?l + ?r + 511" "?l + ?r \<le> ?n * 512" unfolding seg_sectors_def by simp_all
  have lenS: "length ?S = 512 * ?n" by (rule length_sectors [OF l512])
  have fit: "unat (?pa - of_nat ?r) + length ?S \<le> 2 ^ 32"
    unfolding st lenS using f(1) [unfolded seg_fits_def] nle(1) by linarith
  have ends: "unat (?pa + ?len) = ?p + ?l" "unat (?pa + ph_memsz m ph) = ?p + seg_mem m ph"
    using f by (simp_all add: unat_word_ariths)
  have put_out: "?m1 x = m x" if "unat x < ?p - ?r \<or> ?p - ?r + 512 * ?n \<le> unat x" for x
    by (rule put_at(2) [OF fit]) (use that in \<open>simp only: st lenS\<close>)
  have range: "unat x \<in> seg_range m ph" if "?p - ?r \<le> unat x" "unat x < ?p + seg_mem m ph \<or> unat x < ?p - ?r + 512 * ?n" for x :: u32
    using that by (auto simp: seg_range_def seg_start_def)
  have "same_header m ?m1"
    unfolding same_header_def
  proof (intro allI impI)
    fix x :: u32 assume x: "0x8000 \<le> unat x \<and> unat x < 0x9000"
    then have "unat x \<notin> seg_range m ph" using apart by auto
    then have "unat x < ?p - ?r \<or> ?p - ?r + 512 * ?n \<le> unat x" using range [of x] by linarith
    then show "?m1 x = m x" by (rule put_out)
  qed
  note hd = same_header_fields [OF this h]
  have "zero_fill ?pa ph ?b ?m1 = Some ?m'"
  proof (rule zero_fill_spec [OF h])
    show "?pa + ph_memsz ?m1 ph = ?e" using hd by simp
    show "\<forall>x. ?b \<le> x \<and> x < ?e \<longrightarrow> unat x < 0x8000 \<or> 0x9000 \<le> unat x"
    proof (intro allI impI)
      fix x assume "?b \<le> x \<and> x < ?e"
      then have "?p + ?l \<le> unat x" "unat x < ?p + seg_mem m ph" by (simp_all only: word_le_nat_alt word_less_nat_alt ends)
      then have "unat x \<in> seg_range m ph" by (intro range) auto
      then show "unat x < 0x8000 \<or> 0x9000 \<le> unat x" using apart by force
    qed
  qed
  then have run: "boot_segment dev ph (m, d) = Some (?m', e)" using e(1) hd(2) by (simp add: boot_segment_def Let_def)
  have addr: "unat (of_nat (?p + i) :: u32) = ?p + i" if "i < seg_mem m ph" for i
    by (rule unat_small) (use that f(3) in linarith)
  have "?m' (of_nat (?p + i)) = (if i < ?l then disk_byte (disk d) (512 + ?o + i) else 0)" if i: "i < seg_mem m ph" for i
  proof (cases "i < ?l")
    case True
    have z: "\<not> ?pa + ?len \<le> of_nat (?p + i)" using True by (simp only: word_le_nat_alt ends addr [OF i])
    have j: "?r + i < length ?S" using True nle(2) lenS by simp
    have x: "of_nat (?p + i) = ?pa - of_nat ?r + of_nat (?r + i)" by simp
    have "?m' (of_nat (?p + i)) = ?m1 (of_nat (?p + i))" using z by simp
    also have "\<dots> = ?S ! (?r + i)" unfolding x by (rule put_at(1) [OF fit j])
    also have "\<dots> = disk_byte (disk d) (512 * (?o div 512 + 1) + (?r + i))"
      using j lenS by (intro sectors_nth [OF l512]) simp
    also have "512 * (?o div 512 + 1) + (?r + i) = 512 + ?o + i" by simp
    finally show ?thesis using True by simp
  next
    case False
    have "?pa + ?len \<le> of_nat (?p + i)" "of_nat (?p + i) < ?pa + ph_memsz m ph"
      using False i addr [OF i] by (simp_all only: word_le_nat_alt word_less_nat_alt ends)
    then show ?thesis using False by simp
  qed
  then have ld: "loaded (disk d) m ph ?m'" by (simp only: loaded_def) blast
  have "?m' x = m x" if x: "unat x \<notin> seg_range m ph" for x
  proof -
    have h: "unat x < ?p - ?r \<or> (?p + seg_mem m ph \<le> unat x \<and> ?p - ?r + 512 * ?n \<le> unat x)"
      using x by (auto simp: seg_range_def seg_start_def)
    then have "\<not> (?pa + ?len \<le> x \<and> x < ?pa + ph_memsz m ph)"
      using f(2) by (simp only: word_le_nat_alt word_less_nat_alt ends) linarith
    moreover have "?m1 x = m x" using h by (intro put_out) auto
    ultimately show ?thesis by auto
  qed
  then show ?thesis using run e(2,3) ld by blast
qed


text \<open>The segments of \<open>n\<close> program headers from \<open>ph\<close> on: each fits, none touches the headers, and loading a later
  one does not touch an earlier one.\<close>

definition kernel_layout :: "memory \<Rightarrow> nat \<Rightarrow> u32 \<Rightarrow> bool" where
  "kernel_layout m n ph \<longleftrightarrow>
     (\<forall>k < n. header_at (ph + 32 * of_nat k) \<and> seg_ok m (ph + 32 * of_nat k) \<and>
        seg_range m (ph + 32 * of_nat k) \<inter> {0x8000..<0x9000} = {}) \<and>
     (\<forall>j < n. \<forall>k < j. seg_range m (ph + 32 * of_nat j) \<inter>
        {seg_pa m (ph + 32 * of_nat k)..<seg_pa m (ph + 32 * of_nat k) + seg_mem m (ph + 32 * of_nat k)} = {})"

lemma kernel_layout_step:
  assumes "kernel_layout m (Suc n) ph"
  shows "header_at ph" "seg_ok m ph" "seg_range m ph \<inter> {0x8000..<0x9000} = {}" "kernel_layout m n (ph + 32)"
    "\<forall>j < n. seg_range m (ph + 32 + 32 * of_nat j) \<inter> {seg_pa m ph..<seg_pa m ph + seg_mem m ph} = {}"
proof -
  have e: "ph + 32 + 32 * of_nat k = ph + 32 * of_nat (Suc k)" for k by (simp add: algebra_simps)
  have all: "\<forall>k < Suc n. header_at (ph + 32 * of_nat k) \<and> seg_ok m (ph + 32 * of_nat k) \<and>
        seg_range m (ph + 32 * of_nat k) \<inter> {0x8000..<0x9000} = {}"
    and dis: "\<And>j k. j < Suc n \<Longrightarrow> k < j \<Longrightarrow> seg_range m (ph + 32 * of_nat j) \<inter>
        {seg_pa m (ph + 32 * of_nat k)..<seg_pa m (ph + 32 * of_nat k) + seg_mem m (ph + 32 * of_nat k)} = {}"
    using assms by (auto simp only: kernel_layout_def)
  from all [rule_format, of 0] show "header_at ph" "seg_ok m ph" "seg_range m ph \<inter> {0x8000..<0x9000} = {}" by simp_all
  have d0: "ph + 32 * of_nat 0 = ph" by simp
  show "\<forall>j < n. seg_range m (ph + 32 + 32 * of_nat j) \<inter> {seg_pa m ph..<seg_pa m ph + seg_mem m ph} = {}"
    unfolding e using dis [of _ 0, unfolded d0] by blast
  show "kernel_layout m n (ph + 32)"
    unfolding kernel_layout_def e using all dis by (metis Suc_less_eq)
qed

lemma loaded_cong:
  assumes "loaded D m ph m1" "\<forall>x. unat x \<in> {seg_pa m ph..<seg_pa m ph + seg_mem m ph} \<longrightarrow> m2 x = m1 x" "seg_ok m ph"
  shows "loaded D m ph m2"
  unfolding loaded_def
proof (intro allI impI)
  fix i assume i: "i < seg_mem m ph"
  then have "seg_pa m ph + i < 2 ^ 32" using assms(3) by (simp add: seg_ok_def)
  then have "unat (of_nat (seg_pa m ph + i) :: u32) = seg_pa m ph + i" by (rule unat_small)
  then have "m2 (of_nat (seg_pa m ph + i)) = m1 (of_nat (seg_pa m ph + i))" using assms(2) i by auto
  then show "m2 (of_nat (seg_pa m ph + i)) = (if i < seg_len m ph then disk_byte D (512 + seg_off m ph + i) else 0)"
    using assms(1) i by (simp only: loaded_def)
qed

lemma boot_segments_spec:
  assumes a: "polled_drive dev idle disk"
  shows "idle d \<Longrightarrow> kernel_layout m0 n ph \<Longrightarrow> same_header m0 m \<Longrightarrow>
    \<exists>m' e. boot_segments dev n ph (m, d) = Some (m', e) \<and> idle e \<and> disk e = disk d \<and> same_header m0 m' \<and>
      (\<forall>k < n. loaded (disk d) m0 (ph + 32 * of_nat k) m') \<and>
      (\<forall>x. (\<forall>k < n. unat x \<notin> seg_range m0 (ph + 32 * of_nat k)) \<longrightarrow> m' x = m x)"
proof (induction n arbitrary: ph m d)
  case 0
  then show ?case by simp
next
  case (Suc n)
  note ks = kernel_layout_step [OF Suc.prems(2)]
  note hd = same_header_fields [OF Suc.prems(3) ks(1)]
  have ok: "seg_ok m ph" "seg_range m ph = seg_range m0 ph" "loaded D m ph = loaded D m0 ph" for D
    using ks(2) by (simp_all add: seg_ok_def seg_range_def loaded_def [abs_def] hd)
  obtain m1 e1 where s1: "boot_segment dev ph (m, d) = Some (m1, e1)" "idle e1" "disk e1 = disk d"
    "loaded (disk d) m0 ph m1" "\<forall>x. unat x \<notin> seg_range m0 ph \<longrightarrow> m1 x = m x"
    using boot_segment_spec [OF a Suc.prems(1) ok(1) ks(1)] ks(3) unfolding ok(2,3) by blast
  have "m1 x = m x" if "0x8000 \<le> unat x \<and> unat x < 0x9000" for x
  proof -
    have "unat x \<notin> seg_range m0 ph" using ks(3) that by auto
    then show ?thesis using s1(5) by blast
  qed
  then have sh: "same_header m0 m1" using Suc.prems(3) by (simp add: same_header_def)
  from Suc.IH [OF s1(2) ks(4) sh] obtain m' e where
    s2: "boot_segments dev n (ph + 32) (m1, e1) = Some (m', e)" "idle e" "disk e = disk e1" "same_header m0 m'"
      "\<forall>k < n. loaded (disk e1) m0 (ph + 32 + 32 * of_nat k) m'"
      "\<forall>x. (\<forall>k < n. unat x \<notin> seg_range m0 (ph + 32 + 32 * of_nat k)) \<longrightarrow> m' x = m1 x" by blast
  have e: "ph + 32 + 32 * of_nat k = ph + 32 * of_nat (Suc k)" for k by (simp add: algebra_simps)
  have "m' x = m1 x" if "unat x \<in> {seg_pa m0 ph..<seg_pa m0 ph + seg_mem m0 ph}" for x
    using s2(6) ks(5) that by blast
  then have l0: "loaded (disk d) m0 ph m'" using loaded_cong [OF s1(4) _ ks(2)] by blast
  have "loaded (disk d) m0 (ph + 32 * of_nat k) m'" if "k < Suc n" for k
    using that l0 s2(5) s1(3) unfolding e by (cases k) (simp_all del: of_nat_Suc)
  moreover have "m' x = m x" if "\<forall>k < Suc n. unat x \<notin> seg_range m0 (ph + 32 * of_nat k)" for x
  proof -
    have "unat x \<notin> seg_range m0 ph" using that [rule_format, of 0] by simp
    moreover have "\<forall>k < n. unat x \<notin> seg_range m0 (ph + 32 + 32 * of_nat k)" unfolding e using that by blast
    ultimately show ?thesis using s2(6) s1(5) by metis
  qed
  moreover have "boot_segments dev (Suc n) ph (m, d) = Some (m', e)" using s1(1) s2(1) by simp
  ultimately show ?case using s2(2,3,4) s1(3) by (metis (no_types, lifting))
qed

text \<open>The memory after the headers are read.\<close>

definition with_headers :: "(u32 \<Rightarrow> u8 list) \<Rightarrow> memory \<Rightarrow> memory" where
  "with_headers D m = put 0x8000 (sectors D 1 8) m"

lemma with_headers_at:
  assumes "\<forall>k. length (D k) = 512" "i < 4096"
  shows "with_headers D m (0x8000 + of_nat i) = disk_byte D (512 + i)"
proof -
  have l: "length (sectors D 1 8) = 4096" using length_sectors [OF assms(1)] by simp
  have u: "unat (0x8000 :: u32) + length (sectors D 1 8) \<le> 2 ^ 32" using l by simp
  have "with_headers D m (0x8000 + of_nat i) = sectors D 1 8 ! i"
    unfolding with_headers_def by (rule put_at(1) [OF u]) (simp only: l assms(2))
  then show ?thesis using sectors_nth [OF assms(1), of i 8 1] assms(2) by simp
qed

text \<open>C39: the boot loader loads the kernel: from a disk whose drive keeps the polling protocol, with an ELF file behind the
  boot block whose segments have room, it returns, jumps to the file's entry point, and leaves every segment in
  memory as the bytes of the file followed by zeros, whatever the order of the segments; nothing else changes but
  the scratch page of the headers.\<close>

theorem boot_loads_kernel:
  assumes "polled_drive dev idle disk" "idle d"
    and mh: "mh = with_headers (disk d) m" "n = unat (elf_phnum mh 0x8000)" "ph = 0x8000 + elf_phoff mh 0x8000"
    and lay: "kernel_layout mh n ph"
  shows "\<exists>m' e. bootmain dev (m, d) = Some (elf_entry mh 0x8000 - KOFFSET, m', e) \<and> disk e = disk d \<and>
    (\<forall>k < n. loaded (disk d) mh (ph + 32 * of_nat k) m') \<and>
    (\<forall>x. unat x \<notin> {0x8000..<0x9000} \<and> (\<forall>k < n. unat x \<notin> seg_range mh (ph + 32 * of_nat k)) \<longrightarrow> m' x = m x)"
proof -
  have f: "seg_fits (unat (0x8000 :: u32)) (unat (4096 :: u32)) (unat (0 :: u32))" by (simp add: seg_fits_def)
  obtain d1 where d1: "readseg dev 0x8000 4096 0 (m, d) = Some (mh, d1)" "idle d1" "disk d1 = disk d"
    using readseg_spec [OF assms(1,2) f, of m] by (auto simp: seg_sectors_def mh(1) with_headers_def)
  have "same_header mh mh" by (simp add: same_header_def)
  from boot_segments_spec [OF assms(1) d1(2) lay this] obtain m' e where
    b: "boot_segments dev n ph (mh, d1) = Some (m', e)" "disk e = disk d1" "same_header mh m'"
      "\<forall>k < n. loaded (disk d1) mh (ph + 32 * of_nat k) m'"
      "\<forall>x. (\<forall>k < n. unat x \<notin> seg_range mh (ph + 32 * of_nat k)) \<longrightarrow> m' x = mh x" by blast
  have "elf_entry m' 0x8000 = elf_entry mh 0x8000"
    unfolding elf_entry_def by (rule same_header_load [OF b(3)]) simp_all
  then have "bootmain dev (m, d) = Some (elf_entry mh 0x8000 - KOFFSET, m', e)"
    using d1(1) b(1) mh(2,3) by (simp add: bootmain_def Let_def)
  moreover have "m' x = m x" if "unat x \<notin> {0x8000..<0x9000}" "\<forall>k < n. unat x \<notin> seg_range mh (ph + 32 * of_nat k)" for x
  proof -
    have l: "length (sectors (disk d) 1 8) = 4096"
      using length_sectors [of "disk d" 1 8] assms(1,2) by (simp add: polled_drive_def)
    have u: "unat (0x8000 :: u32) + length (sectors (disk d) 1 8) \<le> 2 ^ 32" using l by simp
    have "mh x = m x" unfolding mh(1) with_headers_def using that(1) l by (intro put_at(2) [OF u]) auto
    then show ?thesis using b(5) that(2) by metis
  qed
  ultimately show ?thesis using b(2,4) d1(3) by metis
qed


text \<open>A disk with one program: the header in sector 1 names one segment of four bytes, to be loaded with four zeros
  behind it at \<open>0x100000\<close>.\<close>

definition kernel_file :: "u8 list" where
  "kernel_file = replicate 24 0 @ [0, 0, 0x10, 0xC0, 52, 0, 0, 0] @ replicate 12 0 @ [1, 0] @ replicate 6 0 @
     [1, 0, 0, 0, 84, 0, 0, 0, 0, 0, 0x10, 0xC0, 0, 0, 0x10, 0xC0, 4, 0, 0, 0, 8, 0, 0, 0] @ replicate 8 0 @
     [11, 22, 33, 44] @ replicate 424 0"

definition kernel_disk :: "u32 \<Rightarrow> u8 list" where
  "kernel_disk n = (if n = 1 then kernel_file else replicate 512 0)"

lemma kernel_disk_length: "length (kernel_disk n) = 512"
  by (simp add: kernel_disk_def kernel_file_def)

lemma sample_polled: "polled_drive sample_drive sample_idle sd_disk"
  unfolding polled_drive_def
proof (intro conjI allI impI)
  fix d n assume "sample_idle d"
  then show "length (sd_disk d n) = 512" by (simp add: sample_idle_def)
next
  fix d assume "sample_idle d"
  then have "polls sample_drive 0 d = Some d" by (simp add: sample_drive_def)
  then show "\<exists>k e. polls sample_drive k d = Some e \<and> sample_idle e \<and> sd_disk e = sd_disk d" using \<open>sample_idle d\<close> by blast
next
  fix d b0 b1 b2 b3 assume d: "sample_idle d"
  let ?p = "d\<lparr>sd_regs := (((((sd_regs d)(0x1F2 := 1))(0x1F3 := b0))(0x1F4 := b1))(0x1F5 := b2))(0x1F6 := b3)\<rparr>"
  let ?ws = "map (long_at (sd_disk d (lba b0 b1 b2 b3))) [0..<128]"
  have o: "read_command sample_drive b0 b1 b2 b3 d = ?p\<lparr>sd_words := ?ws\<rparr>"
    by (simp add: read_command_def sample_drive_def sd_lba_def del: upt_rec_numeral)
  have "polls sample_drive 0 (?p\<lparr>sd_words := ?ws\<rparr>) = Some (?p\<lparr>sd_words := ?ws\<rparr>)" by (simp add: sample_drive_def del: upt_rec_numeral)
  moreover have "in_longs sample_drive 128 (?p\<lparr>sd_words := ?ws\<rparr>) = (?ws, ?p\<lparr>sd_words := []\<rparr>)"
    using sample_in_longs [of ?ws ?p] by (simp del: upt_rec_numeral)
  moreover have "concat (map bytes_of ?ws) = sd_disk d (lba b0 b1 b2 b3)"
    using d by (intro bytes_of_longs) (simp add: sample_idle_def)
  moreover have "sample_idle (?p\<lparr>sd_words := []\<rparr>)" "sd_disk (?p\<lparr>sd_words := []\<rparr>) = sd_disk d"
    using d by (simp_all add: sample_idle_def)
  ultimately show "\<exists>k e ws f. polls sample_drive k (read_command sample_drive b0 b1 b2 b3 d) = Some e \<and>
      in_longs sample_drive 128 e = (ws, f) \<and> concat (map bytes_of ws) = sd_disk d (lba b0 b1 b2 b3) \<and>
      sample_idle f \<and> sd_disk f = sd_disk d"
    unfolding o by blast
qed

lemma kernel_byte:
  assumes "i < 512"
  shows "with_headers kernel_disk m (0x8000 + of_nat i) = kernel_file ! i"
proof -
  have "with_headers kernel_disk m (0x8000 + of_nat i) = disk_byte kernel_disk (512 + i)"
    using assms by (intro with_headers_at) (simp_all add: kernel_disk_length)
  also have "(512 + i) div 512 = 1" "(512 + i) mod 512 = i" using assms by (simp_all add: div_add_self1)
  then have "disk_byte kernel_disk (512 + i) = kernel_file ! i" by (simp add: disk_byte_def kernel_disk_def)
  finally show ?thesis .
qed

lemma kernel_word:
  assumes "i + 3 < 512"
  shows "load32 (with_headers kernel_disk m) (kphys (0x8000 + of_nat i)) =
     ucast (kernel_file ! i) OR push_bit 8 (ucast (kernel_file ! (i + 1))) OR
     push_bit 16 (ucast (kernel_file ! (i + 2))) OR push_bit 24 (ucast (kernel_file ! (i + 3)))"
proof -
  have u: "unat (0x8000 + of_nat i :: u32) = 0x8000 + i" using assms by (simp add: unat_word_ariths unat_of_nat)
  have "(0x8000 + of_nat i :: u32) < KOFFSET" using assms u by (simp add: word_less_nat_alt KOFFSET_def)
  then have k: "kphys (0x8000 + of_nat i) = 0x8000 + of_nat i" by simp
  have "with_headers kernel_disk m (0x8000 + of_nat i + of_nat j) = kernel_file ! (i + j)" if "j < 4" for j
    using kernel_byte [of "i + j" m] assms that by (simp add: add.assoc)
  from this [of 0] this [of 1] this [of 2] this [of 3] show ?thesis
    unfolding k by (simp add: load32_def add.assoc)
qed

lemma kernel_fields:
  fixes m :: memory
  defines "mh \<equiv> with_headers kernel_disk m"
  shows "elf_entry mh 0x8000 = 0xC0100000" "elf_phoff mh 0x8000 = 52" "elf_phnum mh 0x8000 = 1"
    "ph_off mh 0x8034 = 84" "ph_paddr mh 0x8034 = 0xC0100000" "ph_filesz mh 0x8034 = 4" "ph_memsz mh 0x8034 = 8"
proof -
  note w = kernel_word [of _ m, folded mh_def]
  note f = kernel_file_def nth_append nth_Cons_numeral
  show "elf_entry mh 0x8000 = 0xC0100000" using w [of 24] by (simp add: elf_entry_def f)
  show "elf_phoff mh 0x8000 = 52" using w [of 28] by (simp add: elf_phoff_def f)
  show "ph_off mh 0x8034 = 84" using w [of 56] by (simp add: ph_off_def f)
  show "ph_paddr mh 0x8034 = 0xC0100000" using w [of 64] by (simp add: ph_paddr_def f)
  show "ph_filesz mh 0x8034 = 4" using w [of 68] by (simp add: ph_filesz_def f)
  show "ph_memsz mh 0x8034 = 8" using w [of 72] by (simp add: ph_memsz_def f)
  have "mh 0x802C = 1" "mh 0x802D = 0" using kernel_byte [of 44 m] kernel_byte [of 45 m]
    by (simp_all add: mh_def f)
  moreover have "kphys 0x802C = 0x802C" by (simp add: kphys_def in_kernel_def KOFFSET_def)
  ultimately show "elf_phnum mh 0x8000 = 1" by (simp add: elf_phnum_def load16_def)
qed

theorem boot_loads_kernel_witness:
  "\<exists>m' e. bootmain sample_drive ((\<lambda>_. 7), \<lparr>sd_regs = (\<lambda>_. 0), sd_words = [], sd_disk = kernel_disk\<rparr>) = Some (0x100000, m', e) \<and>
     m' 0x100002 = 33 \<and> m' 0x100006 = 0 \<and> m' 0x7FFF = 7"
proof -
  let ?d = "\<lparr>sd_regs = (\<lambda>_. 0), sd_words = [], sd_disk = kernel_disk\<rparr> :: sample"
  define mh where "mh = with_headers kernel_disk (\<lambda>_. 7)"
  have idle: "sample_idle ?d" by (simp add: sample_idle_def kernel_disk_length)
  note kf = kernel_fields [of "\<lambda>_. 7", folded mh_def]
  have mh: "mh = with_headers (sd_disk ?d) (\<lambda>_. 7)" "1 = unat (elf_phnum mh 0x8000)" "0x8034 = 0x8000 + elf_phoff mh 0x8000"
    using kf by (simp_all add: mh_def)
  have pa: "seg_pa mh 0x8034 = 0x100000" "seg_len mh 0x8034 = 4" "seg_mem mh 0x8034 = 8" "seg_off mh 0x8034 = 84"
    using kf by (simp_all add: KOFFSET_def)
  have range: "seg_range mh 0x8034 = {0x100000 - 84..<0x100000 - 84 + 512}"
    by (simp add: seg_range_def seg_start_def seg_sectors_def pa)
  have lay: "kernel_layout mh 1 0x8034"
    using range by (simp add: kernel_layout_def seg_ok_def seg_fits_def header_at_def pa)
  from boot_loads_kernel [OF sample_polled idle mh lay] obtain m' e where
    b: "bootmain sample_drive ((\<lambda>_. 7), ?d) = Some (elf_entry mh 0x8000 - KOFFSET, m', e)"
      "\<forall>k < (1 :: nat). loaded kernel_disk mh (0x8034 + 32 * of_nat k) m'"
      "\<forall>x. unat x \<notin> {0x8000..<0x9000} \<and> (\<forall>k < (1 :: nat). unat x \<notin> seg_range mh (0x8034 + 32 * of_nat k)) \<longrightarrow> m' x = 7"
    by auto
  have l: "loaded kernel_disk mh 0x8034 m'" using b(2) by simp
  have "m' 0x100002 = disk_byte kernel_disk 598" "m' 0x100006 = 0"
    using l [unfolded loaded_def pa, rule_format, of 2] l [unfolded loaded_def pa, rule_format, of 6] by simp_all
  moreover have "disk_byte kernel_disk 598 = 33"
    by (simp add: disk_byte_def kernel_disk_def kernel_file_def nth_append nth_Cons_numeral)
  moreover have "m' 0x7FFF = 7" using b(3) range by simp
  ultimately show ?thesis using b(1) kf(1) by (simp add: KOFFSET_def)
qed

end
