(* ===== verification/Descriptors.thy ===== *)
theory Descriptors
  imports Memory
begin

text \<open>
  The descriptor tables of the processor: the segments of kernel/memory/kvm.c and the gates of
  kernel/irq/idt.c, with the layouts of kernel/include/x86/memory.h, and the bytes that set up the interrupt
  controller (kernel/irq/i8259.c).
\<close>

section \<open>Bit fields\<close>

text \<open>A structure of bit fields in memory: the first field at bit 0, each field behind the one before it.\<close>

definition field :: "'a::len word \<Rightarrow> nat \<times> 64 word" where
  "field w = (LENGTH('a), ucast w)"

fun packed_fields :: "(nat \<times> 64 word) list \<Rightarrow> 64 word" where
  "packed_fields [] = 0"
| "packed_fields ((n, w) # fs) = take_bit n w OR push_bit n (packed_fields fs)"

section \<open>Segments\<close>

record SegmentDescriptor =
  limit_15_0 :: u16
  base_15_0 :: u16
  base_23_16 :: u8
  sd_type :: "4 word"
  segment_type :: "1 word"
  sd_privilege_level :: "2 word"
  sd_present :: "1 word"
  limit_19_16 :: "4 word"
  soft_use :: "1 word"
  operation_size :: "1 word"
  sd_pad0 :: "1 word"
  granularity :: "1 word"
  base_31_24 :: u8

definition segment_word :: "SegmentDescriptor \<Rightarrow> 64 word" where
  "segment_word s = packed_fields
     [field (limit_15_0 s), field (base_15_0 s), field (base_23_16 s), field (sd_type s), field (segment_type s),
      field (sd_privilege_level s), field (sd_present s), field (limit_19_16 s), field (soft_use s),
      field (operation_size s), field (sd_pad0 s), field (granularity s), field (base_31_24 s)]"

definition SEG_WRITABLE :: u32 where "SEG_WRITABLE = 0x2"
definition SEG_READABLE :: u32 where "SEG_READABLE = 0x2"
definition SEG_EXECUTABLE :: u32 where "SEG_EXECUTABLE = 0x8"
definition DPL_KERNEL :: u32 where "DPL_KERNEL = 0"
definition NR_SEGMENTS :: nat where "NR_SEGMENTS = 3"
definition SEG_KERNEL_CODE :: nat where "SEG_KERNEL_CODE = 1"
definition SEG_KERNEL_DATA :: nat where "SEG_KERNEL_DATA = 2"

definition set_segment :: "u32 \<Rightarrow> SegmentDescriptor" where
  "set_segment ty =
     \<lparr>limit_15_0 = 0xFFFF, base_15_0 = 0, base_23_16 = 0, sd_type = ucast ty, segment_type = 1,
      sd_privilege_level = ucast DPL_KERNEL, sd_present = 1, limit_19_16 = 0xF, soft_use = 0, operation_size = 0,
      sd_pad0 = 1, granularity = 1, base_31_24 = 0\<rparr>"

definition zero_segment :: SegmentDescriptor where
  "zero_segment =
     \<lparr>limit_15_0 = 0, base_15_0 = 0, base_23_16 = 0, sd_type = 0, segment_type = 0, sd_privilege_level = 0,
      sd_present = 0, limit_19_16 = 0, soft_use = 0, operation_size = 0, sd_pad0 = 0, granularity = 0, base_31_24 = 0\<rparr>"

text \<open>The three words that \<open>lgdt\<close> and \<open>lidt\<close> load: the limit and the address of the table.\<close>

definition save_table :: "u32 \<Rightarrow> u32 \<Rightarrow> u16 list" where
  "save_table addr len = [ucast (len - 1), ucast addr, ucast (drop_bit 16 addr)]"

text \<open>\<open>init_segment\<close>: the table and the words for \<open>lgdt\<close>, the table being at \<open>addr\<close>.\<close>

definition init_segment :: "u32 \<Rightarrow> SegmentDescriptor list \<times> u16 list" where
  "init_segment addr =
     (let gdt = replicate NR_SEGMENTS zero_segment;
          gdt = gdt[SEG_KERNEL_CODE := set_segment (SEG_EXECUTABLE OR SEG_READABLE)];
          gdt = gdt[SEG_KERNEL_DATA := set_segment SEG_WRITABLE]
      in (gdt, save_table addr (8 * of_nat NR_SEGMENTS)))"

section \<open>Gates\<close>

record GateDescriptor =
  offset_15_0 :: u16
  gd_segment :: u16
  gd_pad0 :: u8
  gd_type :: "4 word"
  gd_system :: "1 word"
  gd_privilege_level :: "2 word"
  gd_present :: "1 word"
  offset_31_16 :: u16

definition gate_word :: "GateDescriptor \<Rightarrow> 64 word" where
  "gate_word g = packed_fields
     [field (offset_15_0 g), field (gd_segment g), field (gd_pad0 g), field (gd_type g), field (gd_system g),
      field (gd_privilege_level g), field (gd_present g), field (offset_31_16 g)]"

definition INTERRUPT_GATE_32 :: "4 word" where "INTERRUPT_GATE_32 = 0xE"
definition TRAP_GATE_32 :: "4 word" where "TRAP_GATE_32 = 0xF"

definition set_intr :: "u32 \<Rightarrow> u32 \<Rightarrow> u32 \<Rightarrow> GateDescriptor" where
  "set_intr selector offset dpl =
     \<lparr>offset_15_0 = ucast (offset AND 0xFFFF), gd_segment = ucast selector, gd_pad0 = 0, gd_type = INTERRUPT_GATE_32,
      gd_system = 0, gd_privilege_level = ucast dpl, gd_present = 1, offset_31_16 = ucast (drop_bit 16 offset AND 0xFFFF)\<rparr>"

definition set_trap :: "u32 \<Rightarrow> u32 \<Rightarrow> u32 \<Rightarrow> GateDescriptor" where
  "set_trap selector offset dpl =
     \<lparr>offset_15_0 = ucast (offset AND 0xFFFF), gd_segment = ucast selector, gd_pad0 = 0, gd_type = TRAP_GATE_32,
      gd_system = 0, gd_privilege_level = ucast dpl, gd_present = 1, offset_31_16 = ucast (drop_bit 16 offset AND 0xFFFF)\<rparr>"

text \<open>The entry points of irq/do_irq.S: \<open>vec0\<close> to \<open>vec14\<close>, \<open>vecsys\<close>, \<open>irq0\<close>, \<open>irq1\<close>, \<open>irq14\<close> and \<open>irq_empty\<close>.\<close>

record vectors =
  vec :: "nat \<Rightarrow> u32"
  vecsys :: u32
  v_irq0 :: u32
  v_irq1 :: u32
  v_irq14 :: u32
  irq_empty :: u32

definition NR_GATES :: nat where "NR_GATES = 256"

definition init_idt :: "vectors \<Rightarrow> u32 \<Rightarrow> GateDescriptor list \<Rightarrow> GateDescriptor list \<times> u16 list" where
  "init_idt V addr idt =
     (let sel = push_bit 3 (of_nat SEG_KERNEL_CODE) :: u32;
          idt = fold (\<lambda>i idt. idt[i := set_trap sel (irq_empty V) DPL_KERNEL]) [0..<NR_GATES] idt;
          idt = fold (\<lambda>i idt. idt[i := set_trap sel (vec V i) DPL_KERNEL]) [0..<15] idt;
          idt = idt[0x80 := set_trap sel (vecsys V) DPL_KERNEL];
          idt = idt[32 := set_intr sel (v_irq0 V) DPL_KERNEL];
          idt = idt[32 + 1 := set_intr sel (v_irq1 V) DPL_KERNEL];
          idt = idt[32 + 14 := set_intr sel (v_irq14 V) DPL_KERNEL]
      in (idt, save_table addr (8 * of_nat NR_GATES)))"

section \<open>The interrupt controller\<close>

definition PORT_PIC_MASTER :: u16 where "PORT_PIC_MASTER = 0x20"
definition PORT_PIC_SLAVE :: u16 where "PORT_PIC_SLAVE = 0xA0"

definition init_intr :: "(u16 \<times> u8) list" where
  "init_intr =
     [(PORT_PIC_MASTER + 1, 0xFF), (PORT_PIC_SLAVE + 1, 0xFF), (PORT_PIC_MASTER, 0x11), (PORT_PIC_MASTER + 1, 32),
      (PORT_PIC_MASTER + 1, push_bit 2 1), (PORT_PIC_MASTER + 1, 0x3), (PORT_PIC_SLAVE, 0x11),
      (PORT_PIC_SLAVE + 1, 32 + 8), (PORT_PIC_SLAVE + 1, 2), (PORT_PIC_SLAVE + 1, 0x3),
      (PORT_PIC_MASTER, 0x68), (PORT_PIC_MASTER, 0x0A), (PORT_PIC_SLAVE, 0x68), (PORT_PIC_SLAVE, 0x0A)]"

section \<open>What the processor reads\<close>

text \<open>The processor's view of a segment: base, limit in units, and the bits for code, 32-bit operands, 64-bit code
  and page units.\<close>

definition seg_base :: "64 word \<Rightarrow> u32" where
  "seg_base w = ucast (drop_bit 16 w AND 0xFFFFFF) OR push_bit 24 (ucast (drop_bit 56 w AND 0xFF))"

definition seg_limit :: "64 word \<Rightarrow> nat" where
  "seg_limit w = (let n = unat (w AND 0xFFFF) + 65536 * unat (drop_bit 48 w AND 0xF) in
     if bit w 55 then 4096 * (n + 1) - 1 else n)"

definition flat_segment :: "bool \<Rightarrow> 64 word \<Rightarrow> bool" where
  "flat_segment code w \<longleftrightarrow> seg_base w = 0 \<and> seg_limit w = 2 ^ 32 - 1 \<and> bit w 47 \<and> bit w 44 \<and>
     \<not> bit w 46 \<and> \<not> bit w 45 \<and> bit w 43 = code \<and> bit w 41 \<and> bit w 54 \<and> \<not> bit w 53"

text \<open>The processor's view of a gate: handler, selector, and whether interrupts stay enabled.\<close>

definition gate_offset :: "64 word \<Rightarrow> u32" where
  "gate_offset w = ucast (ucast w :: u16) OR push_bit 16 (ucast (ucast (drop_bit 48 w) :: u16))"

definition gate_selector :: "64 word \<Rightarrow> u16" where
  "gate_selector w = ucast (drop_bit 16 w)"

definition gate_type :: "64 word \<Rightarrow> 5 word" where
  "gate_type w = ucast (drop_bit 40 w)"

text \<open>The global descriptor table describes flat segments: the processor reads the entries of the kernel's code and data
  as present ring 0 segments of 32-bit code (readable) and data (writable) from address 0 up to the last, although the
  structure names the bit of 32-bit operands \<open>pad0\<close> and that of 64-bit code \<open>operation_size\<close>.\<close>

theorem init_segment_flat:
  "flat_segment True (segment_word (fst (init_segment addr) ! SEG_KERNEL_CODE)) \<and>
   flat_segment False (segment_word (fst (init_segment addr) ! SEG_KERNEL_DATA)) \<and>
   segment_word (fst (init_segment addr) ! 0) = 0"
proof -
  note sd = set_segment_def SEG_EXECUTABLE_def SEG_READABLE_def SEG_WRITABLE_def DPL_KERNEL_def
  have g: "fst (init_segment addr) ! SEG_KERNEL_CODE = set_segment (SEG_EXECUTABLE OR SEG_READABLE)"
    "fst (init_segment addr) ! SEG_KERNEL_DATA = set_segment SEG_WRITABLE" "fst (init_segment addr) ! 0 = zero_segment"
    by (simp_all add: init_segment_def Let_def SEG_KERNEL_CODE_def SEG_KERNEL_DATA_def NR_SEGMENTS_def)
  have w: "segment_word (fst (init_segment addr) ! SEG_KERNEL_CODE) = 0x00CF9A000000FFFF"
    "segment_word (fst (init_segment addr) ! SEG_KERNEL_DATA) = 0x00CF92000000FFFF"
    "segment_word (fst (init_segment addr) ! 0) = 0"
    unfolding g segment_word_def by (simp_all add: sd zero_segment_def field_def)
  show ?thesis unfolding w by (simp add: flat_segment_def seg_base_def seg_limit_def Let_def)
qed


section \<open>The interrupt descriptor table\<close>

lemma fold_update_length [simp]: "length (fold (\<lambda>i xs. xs[i := f i]) is xs) = length xs"
  by (induction "is" arbitrary: xs) simp_all

lemma fold_update_nth:
  "i < length xs \<Longrightarrow> fold (\<lambda>i xs. xs[i := f i]) is xs ! i = (if i \<in> set is then f i else xs ! i)"
  by (induction "is" arbitrary: xs) (auto simp: nth_list_update)

lemma bit_packed_fields [simp]:
  "bit (packed_fields []) k = False"
  "bit (packed_fields ((n, w) # fs)) k = (if k < n then bit w k else k < 64 \<and> bit (packed_fields fs) (k - n))"
  by (auto simp: bit_simps dest: bit_imp_le_length)

lemma gate_fields:
  fixes g :: GateDescriptor and off :: u32
  assumes "offset_15_0 g = ucast (off AND 0xFFFF)" "offset_31_16 g = ucast (drop_bit 16 off AND 0xFFFF)"
  shows "gate_offset (gate_word g) = off" "gate_selector (gate_word g) = gd_segment g"
    "gate_type (gate_word g) = ucast (gd_type g) OR push_bit 4 (ucast (gd_system g))"
    "bit (gate_word g) 47 = bit (gd_present g) 0"
proof -
  have f [simp]: "bit (gate_word g) n =
      (if n < 16 then bit off n else if n < 32 then bit (gd_segment g) (n - 16) else if n < 40 then bit (gd_pad0 g) (n - 32)
       else if n < 44 then bit (gd_type g) (n - 40) else if n < 45 then bit (gd_system g) (n - 44)
       else if n < 47 then bit (gd_privilege_level g) (n - 45) else if n < 48 then bit (gd_present g) (n - 47)
       else n < 64 \<and> bit off (n - 32))" for n
  proof -
    have d: "n - a < b \<longleftrightarrow> n < a + b" if "0 < b" for a b :: nat using that by arith
    have "ucast (0xFFFF :: u32) = (- 1 :: u16)" by simp
    then have l: "(ucast (x AND 0xFFFF) :: u16) = ucast x" for x :: u32
      by (simp only: unsigned_and_eq and.right_neutral)
    show ?thesis unfolding gate_word_def field_def bit_packed_fields assms l
      by (auto simp: d bit_simps split: if_splits)
  qed
  show "gate_offset (gate_word g) = off" 
    by (rule bit_word_eqI) (auto simp: gate_offset_def bit_simps)
  show "gate_selector (gate_word g) = gd_segment g"
    by (rule bit_word_eqI) (auto simp: gate_selector_def bit_simps)
  show "bit (gate_word g) 47 = bit (gd_present g) 0" by simp
  show "gate_type (gate_word g) = ucast (gd_type g) OR push_bit 4 (ucast (gd_system g))"
    by (rule bit_word_eqI) (auto simp: gate_type_def bit_simps dest: bit_imp_le_length)
qed

text \<open>The entry point the table is meant to name for vector \<open>i\<close>.\<close>

definition handler_of :: "vectors \<Rightarrow> nat \<Rightarrow> u32" where
  "handler_of V i = (if i < 15 then vec V i else if i = 32 then v_irq0 V else if i = 33 then v_irq1 V
     else if i = 46 then v_irq14 V else if i = 0x80 then vecsys V else irq_empty V)"

lemma init_idt_nth:
  assumes "length idt = NR_GATES" "i < NR_GATES"
  shows "fst (init_idt V addr idt) ! i = (if i \<in> {32, 33, 46} then set_intr else set_trap) 8 (handler_of V i) 0"
  using assms by (simp add: init_idt_def Let_def nth_list_update fold_update_nth handler_of_def NR_GATES_def DPL_KERNEL_def SEG_KERNEL_CODE_def
     del: upt_rec_numeral)

text \<open>After \<open>init_idt\<close> every one of the 256 vectors has a present gate into the kernel's code segment: the processor
  finds the exception entries at 0 to 14, the timer, keyboard and disk entries at 32, 33 and 46, the system call entry at
  0x80 and \<open>irq_empty\<close> elsewhere, and only the three hardware interrupts pass interrupt gates, which disable interrupts.\<close>

theorem init_idt_dispatch:
  assumes "length idt = NR_GATES" "i < NR_GATES"
  shows "gate_offset (gate_word (fst (init_idt V addr idt) ! i)) = handler_of V i \<and>
     gate_selector (gate_word (fst (init_idt V addr idt) ! i)) = push_bit 3 (of_nat SEG_KERNEL_CODE) \<and>
     gate_type (gate_word (fst (init_idt V addr idt) ! i)) = (if i \<in> {32, 33, 46} then 0xE else 0xF) \<and>
     bit (gate_word (fst (init_idt V addr idt) ! i)) 47"
proof -
  define g where "g = fst (init_idt V addr idt) ! i"
  have g: "g = (if i \<in> {32, 33, 46} then set_intr else set_trap) 8 (handler_of V i) 0"
    unfolding g_def by (rule init_idt_nth [OF assms])
  have "offset_15_0 g = ucast (handler_of V i AND 0xFFFF)" "offset_31_16 g = ucast (drop_bit 16 (handler_of V i) AND 0xFFFF)"
    by (simp_all add: g set_intr_def set_trap_def)
  note gate_fields [OF this]
  then show ?thesis unfolding g_def [symmetric]
    by (simp add: g set_intr_def set_trap_def INTERRUPT_GATE_32_def TRAP_GATE_32_def SEG_KERNEL_CODE_def)
qed

theorem init_idt_dispatch_witness:
  "let g = gate_word (fst (init_idt \<lparr>vec = \<lambda>i. of_nat i, vecsys = 0xC0100080, v_irq0 = 0xC0100020, v_irq1 = 1, v_irq14 = 2, irq_empty = 3\<rparr>
     0 (replicate 256 (set_trap 0 0 0))) ! 0x80) in gate_offset g = 0xC0100080 \<and> gate_type g = 0xF"
  using init_idt_dispatch [where idt = "replicate 256 (set_trap 0 0 0)" and i = "0x80" and V = "\<lparr>vec = \<lambda>i. of_nat i, vecsys = 0xC0100080, v_irq0 = 0xC0100020, v_irq1 = 1, v_irq14 = 2, irq_empty = 3\<rparr>" and addr = "0"]
  unfolding Let_def NR_GATES_def handler_of_def by simp

end
