(* ===== verification/Startup.thy ===== *)
theory Startup
  imports TtyServer IdeServer Pm Interrupts Descriptors
begin

text \<open>
  The start of the kernel (kernel/main.c): \<open>os_init\<close> builds the page tables, sets up the tables of the
  processor, the console, the drivers and the servers, creates the six kernel threads and loads the first user
  process. The state of all components is one record here.
\<close>

section \<open>The whole kernel\<close>

text \<open>What the linker decides: the functions of the threads and the addresses of the tables.\<close>

record kernel_image =
  timer_driver_thread :: u32
  tty_driver_thread :: u32
  ide_driver_thread :: u32
  FileManagement :: u32
  MemoryManagement :: u32
  ProcessManagement :: u32
  kpagetable_addr :: u32
  gdt_addr :: u32
  idt_addr :: u32
  entry_points :: vectors

record os =
  os_sys :: sys
  os_gdt :: "SegmentDescriptor list"
  os_gdtr :: "u16 list"
  os_irqs :: "routine_name irq_table"
  os_idt :: "GateDescriptor list"
  os_idtr :: "u16 list"
  os_ports :: "(u16 \<times> u8) list"
  os_timer :: timer
  os_tty :: tty
  os_cache :: "sector_cache list"
  os_frames :: "u32 \<Rightarrow> u8"
  os_waiting :: wait_queue
  pid_TTY :: int
  pid_IDE :: int
  pid_FM :: int
  pid_MM :: int
  pid_PM :: int

section \<open>Initialising the drivers and servers\<close>

definition os_register :: "nat \<Rightarrow> routine_name \<Rightarrow> os \<Rightarrow> error + os" where
  "os_register irq r k = bindE (add_irq_handle irq r (os_irqs k)) (\<lambda>t. Inr (k\<lparr>os_irqs := t\<rparr>))"

definition timer_driver_initialize :: "os \<Rightarrow> error + os" where
  "timer_driver_initialize k =
     os_register 0 Timer_intr
       (k\<lparr>os_ports := os_ports k @ init_100hz_timer, os_timer := init_alarm (os_timer k)\<rparr>)"

definition tty_driver_initialize :: "os \<Rightarrow> error + os" where
  "tty_driver_initialize k =
     bindE (os_register 1 Keyboard_intr k) (\<lambda>k. Inr (k\<lparr>os_tty := init_read_stack (os_tty k)\<rparr>))"

definition ide_driver_initialize :: "os \<Rightarrow> error + os" where
  "ide_driver_initialize k =
     bindE (os_register 14 Ide_intr k) (\<lambda>k.
     bindE (os_register 0 Time_intr k) (\<lambda>k.
     Inr (k\<lparr>os_cache := cache_init (os_cache k)\<rparr>)))"

definition init_drivers :: "os \<Rightarrow> error + os" where
  "init_drivers k =
     bindE (timer_driver_initialize k) (\<lambda>k. bindE (tty_driver_initialize k) ide_driver_initialize)"

definition init_servers :: "os \<Rightarrow> os" where
  "init_servers k =
     (let v = init_MM \<lparr>mm_mem = mem (os_sys k), Ppage_flag = os_frames k\<rparr>;
          k = k\<lparr>os_sys := (os_sys k)\<lparr>mem := mm_mem v\<rparr>, os_frames := Ppage_flag v\<rparr>
      in k\<lparr>os_waiting := init_PM (os_waiting k)\<rparr>)"

section \<open>Messages of the start\<close>

definition os_print :: "(console \<Rightarrow> error + console) \<Rightarrow> os \<Rightarrow> error + os" where
  "os_print f k = bindE (f (con (os_sys k))) (\<lambda>c. Inr (k\<lparr>os_sys := (os_sys k)\<lparr>con := c\<rparr>\<rparr>))"

definition load_info :: "os \<Rightarrow> error + os" where
  "load_info k =
     bindE (forE (\<lambda>i k. os_print (printk ''Process %d, CR3 = %x\<newline>''
              [ArgWord (of_nat i), ArgWord (p_cr3 (proc (os_sys k) i))]) k) [0..<8] k) (\<lambda>k.
     bindE (os_print (printk ''============================\<newline>'' []) k) (\<lambda>k.
     bindE (os_print (green_printk ''[OK!] '' []) k) (\<lambda>k.
     os_print (printk ''Loading kernel process.\<newline>'' []) k)))"

definition welcome_user :: "os \<Rightarrow> error + os" where
  "welcome_user k =
     bindE (os_print (red_printk ''Welcome to Yinyanghu OS!\<newline>'' []) k) (\<lambda>k.
     os_print (red_printk ''Hello Yinyanghu!\<newline>'' []) k)"

section \<open>\<open>os_init\<close>\<close>

definition os_thread :: "u32 \<Rightarrow> os \<Rightarrow> error + os" where
  "os_thread thread k = bindE (Create_kthread thread (os_sys k)) (\<lambda>s. Inr (k\<lparr>os_sys := s\<rparr>))"

text \<open>The tables of the processor, the screen and the interrupt controller.\<close>

definition os_tables :: "kernel_image \<Rightarrow> os \<Rightarrow> os" where
  "os_tables L k =
     (let s = os_sys k; (cr3, m) = init_page (kpagedir_addr s) (kpagetable_addr L) (mem s);
          k = k\<lparr>os_sys := s\<lparr>mem := m, cpu := (cpu s)\<lparr>cr3_reg := cr3\<rparr>\<rparr>\<rparr>;
          (gdt, gdtr) = init_segment (gdt_addr L);
          k = k\<lparr>os_gdt := gdt, os_gdtr := gdtr\<rparr>;
          k = k\<lparr>os_sys := (os_sys k)\<lparr>con := init_screen (con (os_sys k))\<rparr>\<rparr>;
          k = k\<lparr>os_irqs := init_handle (os_irqs k)\<rparr>;
          (idt, idtr) = init_idt (entry_points L) (idt_addr L) (os_idt k);
          k = k\<lparr>os_idt := idt, os_idtr := idtr\<rparr>
      in k\<lparr>os_ports := os_ports k @ init_intr\<rparr>)"

text \<open>The kernel threads, in the order that gives them their pids.\<close>

definition os_threads :: "kernel_image \<Rightarrow> os \<Rightarrow> error + os" where
  "os_threads L k =
     bindE (os_thread (timer_driver_thread L) k) (\<lambda>k.
     let k = k\<lparr>os_timer := (os_timer k)\<lparr>TIMER := 1\<rparr>\<rparr> in
     bindE (os_thread (tty_driver_thread L) k) (\<lambda>k.
     let k = k\<lparr>pid_TTY := 2\<rparr> in
     bindE (os_thread (ide_driver_thread L) k) (\<lambda>k.
     let k = k\<lparr>pid_IDE := 3\<rparr> in
     bindE (os_thread (FileManagement L) k) (\<lambda>k.
     let k = k\<lparr>pid_FM := 4\<rparr> in
     bindE (os_thread (MemoryManagement L) k) (\<lambda>k.
     let k = k\<lparr>pid_MM := 5\<rparr> in
     bindE (os_thread (ProcessManagement L) k) (\<lambda>k.
     Inr (k\<lparr>pid_PM := 6\<rparr>)))))))"

text \<open>Up to \<open>enable_interrupt\<close>.\<close>

definition os_start :: "kernel_image \<Rightarrow> os \<Rightarrow> error + os" where
  "os_start L k =
     bindE (init_drivers (os_tables L k)) (\<lambda>k.
     bindE (os_print (green_printk ''[OK!] '' []) k) (\<lambda>k.
     bindE (os_print (printk ''Initializing drivers.\<newline>'' []) k) (\<lambda>k.
     let k = init_servers k in
     bindE (os_print (green_printk ''[OK!] '' []) k) (\<lambda>k.
     bindE (os_print (printk ''Initializing servers.\<newline>'' []) k) (\<lambda>k.
     bindE (os_threads L (k\<lparr>os_sys := init_proc (os_sys k)\<rparr>)) (\<lambda>k.
     bindE (load_info k) (\<lambda>k.
     bindE (welcome_user k) (\<lambda>k.
     let s = os_sys k in Inr (k\<lparr>os_sys := s\<lparr>cpu := (cpu s)\<lparr>intr_flag := True\<rparr>\<rparr>\<rparr>)))))))))"

text \<open>The rest runs with interrupts on, as process 0, next to the threads; then it idles for ever. \<open>w\<close> is the
  part of the state that only \<open>call\<close> changes.\<close>

definition os_init ::
    "message \<Rightarrow> 'w world call \<Rightarrow> pm_addrs \<Rightarrow> kernel_image \<Rightarrow> 'w \<Rightarrow> os \<Rightarrow> (error + os \<times> 'w) option" where
  "os_init m call A L w k =
     bindR (Some (os_start L k)) (\<lambda>k.
     bindR (Create_uthread m call A 1 ((os_frames k, w), os_sys k)) (\<lambda>((fl, w), s).
     bindR (Some (os_print (green_printk ''[OK!] '' []) (k\<lparr>os_frames := fl, os_sys := s\<rparr>))) (\<lambda>k.
     bindR (Some (os_print (printk ''Loading user process.\<newline>'' []) k)) (\<lambda>k.
     Some (Inr (k, w))))))"

section \<open>Printing\<close>

text \<open>A step that changes the screen only.\<close>

definition only_prints :: "os \<Rightarrow> os \<Rightarrow> bool" where
  "only_prints k k' \<longleftrightarrow> (\<exists>c. console_ok c \<and> k' = k\<lparr>os_sys := (os_sys k)\<lparr>con := c\<rparr>\<rparr>)"

lemma os_print_only:
  assumes "prints f" "console_ok (con (os_sys k))"
  obtains k' where "os_print f k = Inr k'" "only_prints k k'"
proof -
  obtain c where c: "f (con (os_sys k)) = Inr c" "console_ok c" using assms by (auto simp: prints_def)
  then have "os_print f k = Inr (k\<lparr>os_sys := (os_sys k)\<lparr>con := c\<rparr>\<rparr>)"
    "only_prints k (k\<lparr>os_sys := (os_sys k)\<lparr>con := c\<rparr>\<rparr>)"
    by (auto simp: os_print_def only_prints_def)
  then show thesis by (rule that)
qed

lemma only_prints_con: "only_prints k k' \<Longrightarrow> console_ok (con (os_sys k'))"
  by (auto simp: only_prints_def)

lemma only_prints_trans: "only_prints k k1 \<Longrightarrow> only_prints k1 k2 \<Longrightarrow> only_prints k k2"
  by (auto simp: only_prints_def)

lemma forE_only_prints:
  assumes "\<And>i k. prints (f i k)" "console_ok (con (os_sys k))"
  shows "\<exists>k'. forE (\<lambda>i k. os_print (f i k) k) is k = Inr k' \<and> console_ok (con (os_sys k')) \<and> (is \<noteq> [] \<longrightarrow> only_prints k k')"
  using assms(2)
proof (induction "is" arbitrary: k)
  case Nil
  then show ?case by simp
next
  case (Cons i "is")
  obtain k1 where k1: "os_print (f i k) k = Inr k1" "only_prints k k1"
    by (rule os_print_only [OF assms(1) Cons.prems])
  from Cons.IH [OF only_prints_con [OF k1(2)]] obtain k2 where
    k2: "forE (\<lambda>i k. os_print (f i k) k) is k1 = Inr k2" "console_ok (con (os_sys k2))" "is \<noteq> [] \<longrightarrow> only_prints k1 k2" by blast
  then have "only_prints k k2" using k1(2) only_prints_trans by (cases "is = []") auto
  then show ?case using k1(1) k2 by auto
qed

lemma load_info_only_prints:
  assumes "console_ok (con (os_sys k))"
  obtains k' where "load_info k = Inr k'" "only_prints k k'"
proof -
  have v: "\<exists>s. vfprintf ''Process %d, CR3 = %x\<newline>'' [ArgWord v, ArgWord w] = Inr s" for v w by simp
  let ?f = "\<lambda>i k. printk ''Process %d, CR3 = %x\<newline>'' [ArgWord (of_nat i), ArgWord (p_cr3 (proc (os_sys k) i))]"
  have "prints (?f i k)" for i k using v prints_printk(1) by blast
  from forE_only_prints [of ?f k "[0..<8]", OF this assms] obtain k1 where
    k1: "forE (\<lambda>i k. os_print (?f i k) k) [0..<8] k = Inr k1" "only_prints k k1"
    by (auto simp del: upt_rec_numeral)
  have p: "prints (printk ''============================\<newline>'' [])" "prints (green_printk ''[OK!] '' [])"
    "prints (printk ''Loading kernel process.\<newline>'' [])"
    by (rule prints_printk, simp)+
  obtain k2 where k2: "os_print (printk ''============================\<newline>'' []) k1 = Inr k2" "only_prints k1 k2"
    by (rule os_print_only [OF p(1) only_prints_con [OF k1(2)]])
  obtain k3 where k3: "os_print (green_printk ''[OK!] '' []) k2 = Inr k3" "only_prints k2 k3"
    by (rule os_print_only [OF p(2) only_prints_con [OF k2(2)]])
  obtain k4 where k4: "os_print (printk ''Loading kernel process.\<newline>'' []) k3 = Inr k4" "only_prints k3 k4"
    by (rule os_print_only [OF p(3) only_prints_con [OF k3(2)]])
  have "load_info k = Inr k4" by (simp only: load_info_def k1(1) k2(1) k3(1) k4(1) bindE_simps)
  moreover have "only_prints k k4" using k1(2) k2(2) k3(2) k4(2) only_prints_trans by blast
  ultimately show thesis by (rule that)
qed

lemma welcome_only_prints:
  assumes "console_ok (con (os_sys k))"
  obtains k' where "welcome_user k = Inr k'" "only_prints k k'"
proof -
  have p: "prints (red_printk ''Welcome to Yinyanghu OS!\<newline>'' [])" "prints (red_printk ''Hello Yinyanghu!\<newline>'' [])"
    by (rule prints_printk, simp)+
  obtain k1 where k1: "os_print (red_printk ''Welcome to Yinyanghu OS!\<newline>'' []) k = Inr k1" "only_prints k k1"
    by (rule os_print_only [OF p(1) assms])
  obtain k2 where k2: "os_print (red_printk ''Hello Yinyanghu!\<newline>'' []) k1 = Inr k2" "only_prints k1 k2"
    by (rule os_print_only [OF p(2) only_prints_con [OF k1(2)]])
  have "welcome_user k = Inr k2" by (simp only: welcome_user_def k1(1) k2(1) bindE_simps)
  moreover have "only_prints k k2" using k1(2) k2(2) by (rule only_prints_trans)
  ultimately show thesis by (rule that)
qed

section \<open>The kernel threads\<close>

text \<open>The arrays of an entry of the process table have their sizes.\<close>

definition pool_sizes :: "pcb \<Rightarrow> bool" where
  "pool_sizes p \<longleftrightarrow> length (Msg_rec_Pool p) = Max_Message_Pool \<and> length (queue (Msg_lock p)) = Max_Sem_Queue"

text \<open>A process without messages, in the address space of the kernel.\<close>

definition kernel_process :: "sys \<Rightarrow> nat \<Rightarrow> bool" where
  "kernel_process s i \<longleftrightarrow> box s i [] [] [] 0 \<and> p_cr3 (proc s i) = make_cr3 (va_to_pa (kpagedir_addr s))"

text \<open>Each thread in the list runs with the next pid, from 1 on, and has its first frame on its stack.\<close>

definition threads_ok :: "sys \<Rightarrow> u32 list \<Rightarrow> bool" where
  "threads_ok s ts \<longleftrightarrow> layout_ok s \<and> proc_table_ok s [0..<Suc (length ts)] \<and>
     (\<forall>i < MAX_PROC. pool_sizes (proc s i)) \<and> (\<forall>i \<le> length ts. kernel_process s i) \<and>
     (\<forall>i \<le> length ts. p_status (proc s i) = STATUS_WAITING) \<and>
     (\<forall>i < MAX_PROC. length ts < i \<longrightarrow> p_flag (proc s i)) \<and>
     (\<forall>i < length ts. p_esp (proc s (Suc i)) = kstack_addr s (Suc i) + STACK_SIZE - 52 \<and>
        frame_words (ts ! i) (kstack_addr s (Suc i) + STACK_SIZE) (mem s))"

lemma kstack_top_unat:
  assumes "layout_ok s" "i < MAX_PROC" "k \<le> 2048"
  shows "unat (kphys (kstack_addr s i + STACK_SIZE - 4 * of_nat k)) =
    unat (Proc_addr s) - 3221225472 + i * 20480 + 8200 - 4 * k"
proof -
  let ?T = "kstack_addr s i + STACK_SIZE" and ?p = "unat (Proc_addr s)"
  have lim: "3221225472 \<le> ?p" "?p + 655360 \<le> 3238002688"
    using assms(1) by (simp_all add: layout_ok_def KOFFSET_def)
  have i: "i < 32" using assms(2) by (simp add: MAX_PROC_def)
  have "unat (Proc_addr s + of_nat (i * 20480 + 8200)) = ?p + (i * 20480 + 8200)"
    using lim i by (simp add: unat_word_ariths unat_of_nat)
  moreover have "?T = Proc_addr s + of_nat (i * 20480 + 8200)"
    by (simp add: kstack_addr_def pcb_addr_def sizeof_PCB_def STACK_SIZE_def)
  ultimately have T: "unat ?T = ?p + (i * 20480 + 8200)" by metis
  have le: "4 * k \<le> unat ?T" using T assms(3) lim by simp
  have k4: "unat (4 * of_nat k :: u32) = 4 * k" using assms(3) by (simp add: unat_4_of_nat)
  have Tk: "unat (?T - 4 * of_nat k) = ?p + (i * 20480 + 8200) - 4 * k"
    using le k4 T by (simp add: unat_sub word_le_nat_alt)
  then have ge: "3221225472 \<le> unat (?T - 4 * of_nat k)" using lim assms(3) by simp
  then have "kphys (?T - 4 * of_nat k) = ?T - 4 * of_nat k - 0xC0000000"
    by (simp add: kphys_def va_to_pa_def in_kernel_def KOFFSET_def word_le_nat_alt)
  moreover have "unat (?T - 4 * of_nat k - 0xC0000000) = unat (?T - 4 * of_nat k) - 3221225472"
    using ge by (subst unat_sub) (simp_all add: word_le_nat_alt)
  ultimately show ?thesis using Tk lim assms(3) by simp
qed

lemma kthread_frame_other:
  assumes lay: "layout_ok s" and ij: "i < MAX_PROC" "j < MAX_PROC" "i \<noteq> j" and k: "1 \<le> k" "k \<le> 13"
  shows "load32 (snd (kthread_frame thread (kstack_addr s i + STACK_SIZE, m))) (kphys (kstack_addr s j + STACK_SIZE - 4 * of_nat k))
    = load32 m (kphys (kstack_addr s j + STACK_SIZE - 4 * of_nat k))"
proof -
  let ?T = "kstack_addr s i + STACK_SIZE" and ?b = "kphys (kstack_addr s j + STACK_SIZE - 4 * of_nat k)"
  let ?ws = "[push_bit 9 1, 8, thread] @ replicate 9 0 @ [?T - 48]"
  have "?b = kphys (kstack_addr s j + STACK_SIZE) - 4 * of_nat k"
    using k by (intro kstack_top_addr(1) [OF lay ij(2)]) simp
  then have al: "aligned4 ?b" using aligned4_offset(2) kstack_top_addr(2) [OF lay ij(2), of 0] by simp
  have "?b \<noteq> kphys ?T - 4 * of_nat l" if l: "1 \<le> l" "l \<le> length ?ws" for l
  proof
    assume "?b = kphys ?T - 4 * of_nat l"
    also have "\<dots> = kphys (?T - 4 * of_nat l)"
      using l by (intro kstack_top_addr(1) [OF lay ij(1), symmetric]) simp
    finally have "unat ?b = unat (kphys (?T - 4 * of_nat l))" by (rule arg_cong)
    moreover have "k \<le> 2048" "l \<le> 2048" using k l by simp_all
    ultimately have "j * 20480 + 8200 - 4 * k = i * 20480 + 8200 - 4 * l"
      using kstack_top_unat [OF lay ij(2)] kstack_top_unat [OF lay ij(1)] k l by simp
    moreover have "l \<le> 13" using l by simp
    ultimately show False using ij(3) k l by (cases "i < j") auto
  qed
  then show ?thesis unfolding kthread_frame_words
    using push_words_other [OF kstack_top_addr(2) [OF lay ij(1), of 0] al, of ?ws m] kstack_top_addr(1) [OF lay ij(1)]
    by simp
qed

lemma new_mailbox:
  assumes "pool_sizes p"
  shows "pool_sizes (init_message_pool p)" "mbox (init_message_pool p) [] [] []"
    "token (Msg_lock (init_message_pool p)) = 0" "queue_tail (Msg_lock (init_message_pool p)) = 0"
  using assms init_message_pool_mbox [of p] by (simp_all add: pool_sizes_def init_message_pool_def Sem_init_def)

lemma pool_sizes_fields [simp]:
  "pool_sizes (p_status_update a p) = pool_sizes p" "pool_sizes (p_pid_update b p) = pool_sizes p" "pool_sizes (p_flag_update c p) = pool_sizes p"
  "pool_sizes (time_elapsed_update d p) = pool_sizes p" "pool_sizes (p_cr3_update e p) = pool_sizes p" "pool_sizes (p_esp_update e p) = pool_sizes p"
  "pool_sizes (p_next_update n p) = pool_sizes p" "pool_sizes (p_prev_update n p) = pool_sizes p"
  by (simp_all add: pool_sizes_def)

lemma Create_kthread_mail:
  assumes len: "length (Proc s) = MAX_PROC" and new: "Find_Empty_PCB s = Some new" and run: "Create_kthread t s = Inr s'"
    and sizes: "\<forall>i < MAX_PROC. pool_sizes (proc s i)"
  shows "kpagedir_addr s' = kpagedir_addr s" "\<forall>i < MAX_PROC. pool_sizes (proc s' i)" "kernel_process s' new"
    "\<And>i. i \<noteq> new \<Longrightarrow> kernel_process s i \<Longrightarrow> kernel_process s' i"
proof -
  have n: "new < MAX_PROC" by (rule Find_Empty_PCB_Some [OF new])
  obtain P where P: "link_before_init new (Proc s) = Inr P" using run by (auto simp: Create_kthread_def new elim!: bindE_InrE)
  then have same: "same_but_links (Proc s) P"
    by (auto simp: link_before_init_def Let_def elim!: bindE_InrE intro!: same_but_links_steps)
  define f where "f = (\<lambda>p. init_message_pool (p\<lparr>p_status := STATUS_WAITING, p_pid := int new,
      p_flag := False, time_elapsed := 0, p_cr3 := make_cr3 (va_to_pa (kpagedir_addr s))\<rparr>))"
  define st where "st = kthread_frame t (kstack_addr s new + STACK_SIZE, mem s)"
  have s': "s' = upd_proc new (p_esp_update (\<lambda>_. fst st)) (upd_proc new f (s\<lparr>Proc := P\<rparr>)\<lparr>mem := snd st\<rparr>)"
    using run by (simp add: Create_kthread_def new P Let_def f_def st_def kstack_addr_def pcb_addr_def)
  have lenP: "length P = MAX_PROC" using same_but_links_length [OF same] len by simp
  have at: "P ! i = (proc s i)\<lparr>p_next := p_next (P ! i), p_prev := p_prev (P ! i)\<rparr>" if "i < MAX_PROC" for i
    using same that len by (simp add: same_but_links_def)
  have szP: "pool_sizes (P ! i)" if "i < MAX_PROC" for i
    using at [OF that] sizes that by (metis pool_sizes_fields(7,8))
  have an: "proc s' new = (f (P ! new))\<lparr>p_esp := fst st\<rparr>" using n lenP by (simp add: s')
  have ao: "proc s' i = P ! i" if "i \<noteq> new" for i using that by (simp add: s')
  show kp: "kpagedir_addr s' = kpagedir_addr s" by (simp add: s')
  note mb = new_mailbox [of "(P ! new)\<lparr>p_status := STATUS_WAITING, p_pid := int new,
      p_flag := False, time_elapsed := 0, p_cr3 := make_cr3 (va_to_pa (kpagedir_addr s))\<rparr>", folded f_def, simplified, OF szP [OF n]]
  show "\<forall>i < MAX_PROC. pool_sizes (proc s' i)"
  proof (intro allI impI)
    fix i assume i: "i < MAX_PROC"
    show "pool_sizes (proc s' i)" using szP [OF i] mb(1) ao [of i] by (cases "i = new") (simp_all add: an f_def)
  qed
  show "kernel_process s' new"
    using mb n lenP by (simp add: kernel_process_def box_def an kp) (simp add: s' f_def mbox_def pool_sizes_def)
  show "kernel_process s' i" if i: "i \<noteq> new" "kernel_process s i" for i
  proof -
    have "i < MAX_PROC" using i(2) len by (simp add: kernel_process_def box_def)
    note a = at [OF this]
    have "mbox (P ! i) R I T = mbox (proc s i) R I T" for R I T by (subst a) (simp add: mbox_def)
    moreover have "p_pid (P ! i) = p_pid (proc s i)" "Msg_lock (P ! i) = Msg_lock (proc s i)" "p_cr3 (P ! i) = p_cr3 (proc s i)"
      by (subst a, simp)+
    ultimately show ?thesis using i lenP len by (simp add: kernel_process_def box_def ao kp) (simp add: s')
  qed
qed

text \<open>The frame lies in the process table.\<close>

abbreviation table_area :: "sys \<Rightarrow> u32 set" where
  "table_area s \<equiv> kbytes (Proc_addr s) 655360"

lemma kthread_frame_only:
  assumes lay: "layout_ok s" and i: "i < MAX_PROC"
  shows "only (table_area s) m (snd (kthread_frame t (kstack_addr s i + STACK_SIZE, m)))"
proof -
  let ?T = "kstack_addr s i + STACK_SIZE"
  have "fst (foldl Push_Stack_4Byte (?T, m) ws) = ?T - 4 * of_nat (length ws) \<and>
      only (table_area s) m (snd (foldl Push_Stack_4Byte (?T, m) ws))" if "length ws \<le> 13" for ws
    using that
  proof (induction ws rule: rev_induct)
    case Nil
    then show ?case by simp
  next
    case (snoc w ws)
    let ?st = "foldl Push_Stack_4Byte (?T, m) ws" and ?k = "Suc (length ws)"
    have k: "?k \<le> 2048" using snoc.prems by simp
    have e: "?T - 4 * of_nat (length ws) - 4 = ?T - 4 * of_nat ?k" by (simp add: algebra_simps)
    have u: "unat (kphys (?T - 4 * of_nat ?k)) = unat (Proc_addr s) - 3221225472 + i * 20480 + 8200 - 4 * ?k"
      by (rule kstack_top_unat [OF lay i k])
    have lim: "3221225472 \<le> unat (Proc_addr s)" "unat (Proc_addr s) + 655360 \<le> 3238002688" "i < 32"
      using lay i by (simp_all add: layout_ok_def KOFFSET_def MAX_PROC_def)
    have "kphys (?T - 4 * of_nat ?k) + of_nat j \<in> table_area s" if "j < 4" for j
    proof -
      have "unat (kphys (?T - 4 * of_nat ?k) + of_nat j) = unat (kphys (?T - 4 * of_nat ?k)) + j"
        using u lim that k by (simp add: unat_word_ariths unat_of_nat)
      moreover have "4 * ?k \<le> 52" "i * 20480 \<le> 634880" using snoc.prems lim(3) by simp_all
      ultimately show ?thesis unfolding kbytes_def mem_Collect_eq using u lim that by linarith
    qed
    from this [of 0] this [of 1] this [of 2] this [of 3]
    have "only (table_area s) (snd ?st) (store32 (kphys (?T - 4 * of_nat ?k)) w (snd ?st))"
      by (auto simp: only_def intro!: store32_other)
    then show ?case using snoc only_trans [of "table_area s" m "snd ?st"]
      by (simp add: Push_Stack_4Byte_def [of ?st] Let_def e del: of_nat_Suc)
  qed
  from this [of "[push_bit 9 1, 8, t] @ replicate 9 0 @ [?T - 48]"] show ?thesis
    unfolding kthread_frame_words by simp
qed

text \<open>The entry of the table that the next thread or process gets.\<close>

lemma first_free:
  assumes "threads_ok s ts" "Suc (length ts) < MAX_PROC"
  shows "Find_Empty_PCB s = Some (Suc (length ts))"
proof -
  let ?n = "Suc (length ts)"
  have tab: "proc_table_ok s [0..<?n]" and flags: "\<And>i. i < MAX_PROC \<Longrightarrow> length ts < i \<Longrightarrow> p_flag (proc s i)"
    using assms(1) by (simp_all add: threads_ok_def)
  show ?thesis
  proof (cases "Find_Empty_PCB s")
    case None
    then show ?thesis using flags [of ?n] assms(2) by (simp add: Find_Empty_PCB_None)
  next
    case (Some i)
    note i = Find_Empty_PCB_Some [OF Some]
    have "\<not> i < ?n" using proc_table_ok_in [OF tab, of i] i(3) by (auto simp: less_Suc_eq)
    moreover have "\<not> ?n < i" using i(4) [of ?n] flags [of ?n] assms(2) by auto
    ultimately show ?thesis using Some by simp
  qed
qed

text \<open>What does not change while threads are created.\<close>

definition threads_added :: "sys \<Rightarrow> sys \<Rightarrow> bool" where
  "threads_added s s' \<longleftrightarrow> con s' = con s \<and> cpu s' = cpu s \<and> current_pcb s' = current_pcb s \<and> Proc_addr s' = Proc_addr s \<and>
     kpagedir_addr s' = kpagedir_addr s \<and> only (table_area s) (mem s) (mem s')"

lemma threads_added_refl: "threads_added s s"
  by (simp add: threads_added_def)

lemma threads_added_trans: "threads_added s s1 \<Longrightarrow> threads_added s1 s2 \<Longrightarrow> threads_added s s2"
  by (auto simp: threads_added_def intro: only_trans)

lemma threads_step:
  assumes ok: "threads_ok s ts" and room: "Suc (length ts) < MAX_PROC"
  shows "\<exists>s'. Create_kthread t s = Inr s' \<and> threads_ok s' (ts @ [t]) \<and> threads_added s s'"
proof -
  let ?n = "Suc (length ts)"
  have lay: "layout_ok s" and tab: "proc_table_ok s [0..<?n]"
    and flags: "\<And>i. i < MAX_PROC \<Longrightarrow> length ts < i \<Longrightarrow> p_flag (proc s i)"
    using ok by (simp_all add: threads_ok_def)
  have new: "Find_Empty_PCB s = Some ?n" by (rule first_free [OF assms])
  from Create_kthread_spec [OF tab lay new, of t] obtain s' where
    s': "Create_kthread t s = Inr s'" "proc_table_ok s' ([0..<?n] @ [?n])" "p_status (proc s' ?n) = STATUS_WAITING"
      "p_esp (proc s' ?n) = kstack_addr s ?n + STACK_SIZE - 52" "frame_words t (kstack_addr s ?n + STACK_SIZE) (mem s')"
      "mem s' = snd (kthread_frame t (kstack_addr s ?n + STACK_SIZE, mem s))"
      "\<forall>i < MAX_PROC. i = ?n \<or> p_status (proc s' i) = p_status (proc s i) \<and> p_esp (proc s' i) = p_esp (proc s i) \<and>
         p_flag (proc s' i) = p_flag (proc s i)"
      "con s' = con s" "cpu s' = cpu s" "current_pcb s' = current_pcb s" "Proc_addr s' = Proc_addr s" by blast
  have len: "length (Proc s) = MAX_PROC" using tab by (simp add: proc_table_ok_def)
  have sizes: "\<forall>i < MAX_PROC. pool_sizes (proc s i)" using ok by (simp add: threads_ok_def)
  note mail = Create_kthread_mail [OF len new s'(1) sizes]
  have kp: "kernel_process s' i" if "i \<le> length (ts @ [t])" for i
    using mail(3,4) ok that by (cases "i = ?n") (auto simp: threads_ok_def)
  have ks: "kstack_addr s' i = kstack_addr s i" for i using s'(11) by (simp add: kstack_addr_def pcb_addr_def)
  have fw: "frame_words (ts ! i) (kstack_addr s (Suc i) + STACK_SIZE) (mem s')" if "i < length ts" for i
    using ok that room kthread_frame_other [OF lay room _ _ , of "Suc i" _ t "mem s"]
    unfolding threads_ok_def frame_words_def s'(6) by (auto simp del: of_nat_Suc)
  have old: "p_status (proc s' i) = p_status (proc s i)" "p_esp (proc s' i) = p_esp (proc s i)" if "i < ?n" for i
  proof -
    have "i < MAX_PROC" "i \<noteq> ?n" using that room by auto
    then show "p_status (proc s' i) = p_status (proc s i)" "p_esp (proc s' i) = p_esp (proc s i)" using s'(7) by blast+
  qed
  have "threads_ok s' (ts @ [t])"
    unfolding threads_ok_def
  proof (intro conjI allI impI)
    show "layout_ok s'" using lay s'(11) by (simp add: layout_ok_def)
    show "proc_table_ok s' [0..<Suc (length (ts @ [t]))]" using s'(2) by simp
    show "pool_sizes (proc s' i)" if "i < MAX_PROC" for i using mail(2) that by blast
    show "kernel_process s' i" if "i \<le> length (ts @ [t])" for i by (rule kp [OF that])
    show "p_status (proc s' i) = STATUS_WAITING" if "i \<le> length (ts @ [t])" for i
    proof (cases "i = ?n")
      case False
      then have "i < ?n" using that by simp
      then show ?thesis using old(1) ok by (simp add: threads_ok_def)
    qed (simp add: s'(3))
    show "p_flag (proc s' i)" if "i < MAX_PROC" "length (ts @ [t]) < i" for i
    proof -
      have "i \<noteq> ?n" "length ts < i" using that(2) by simp_all
      then show ?thesis using s'(7) flags [OF that(1)] that(1) by metis
    qed
    fix i assume i: "i < length (ts @ [t])"
    show "p_esp (proc s' (Suc i)) = kstack_addr s' (Suc i) + STACK_SIZE - 52"
      "frame_words ((ts @ [t]) ! i) (kstack_addr s' (Suc i) + STACK_SIZE) (mem s')"
    proof (atomize (full), cases "i = length ts")
      case True
      then show "p_esp (proc s' (Suc i)) = kstack_addr s' (Suc i) + STACK_SIZE - 52 \<and>
        frame_words ((ts @ [t]) ! i) (kstack_addr s' (Suc i) + STACK_SIZE) (mem s')" using s'(4,5) by (simp add: ks)
    next
      case False
      then have "i < length ts" using i by simp
      then show "p_esp (proc s' (Suc i)) = kstack_addr s' (Suc i) + STACK_SIZE - 52 \<and>
        frame_words ((ts @ [t]) ! i) (kstack_addr s' (Suc i) + STACK_SIZE) (mem s')"
        using old(2) [of "Suc i"] ok fw by (simp add: ks nth_append threads_ok_def)
    qed
  qed
  moreover have "threads_added s s'"
    using s'(6,8-11) mail(1) kthread_frame_only [OF lay room] by (simp add: threads_added_def)
  ultimately show ?thesis using s'(1) by blast
qed

lemma threads_ok_init:
  assumes "length (Proc s) = MAX_PROC" "layout_ok s" "\<forall>i < MAX_PROC. pool_sizes (proc s i)"
  shows "threads_ok (init_proc s) []" "kpagedir_addr (init_proc s) = kpagedir_addr s" "mem (init_proc s) = mem s"
    "cpu (init_proc s) = cpu s"
proof -
  define p where "p = (proc s 0)\<lparr>p_prev := Some 0, p_next := Some 0, p_flag := False, p_pid := 0,
    p_status := STATUS_WAITING, time_elapsed := 0\<rparr>"
  define s1 where "s1 = upd_proc 0 (\<lambda>_. (init_message_pool p)\<lparr>p_cr3 := make_cr3 (va_to_pa (kpagedir_addr s))\<rparr>) s"
  define s2 where "s2 = fold (\<lambda>i. upd_proc i (p_flag_update (\<lambda>_. True))) [1..<MAX_PROC] s1"
  have i: "init_proc s = s2\<lparr>current_pcb := 0\<rparr>"
    using assms(1) by (simp add: init_proc_def Let_def s2_def s1_def p_def init_pcb_def upd_proc_def upd_at_def MAX_PROC_def del: upt_rec_numeral)
  have kp: "kpagedir_addr (fold (\<lambda>i. upd_proc i f) is s) = kpagedir_addr s" "mem (fold (\<lambda>i. upd_proc i f) is s) = mem s"
    "cpu (fold (\<lambda>i. upd_proc i f) is s) = cpu s" for f s "is"
    by (induction "is" arbitrary: s) simp_all
  show k: "kpagedir_addr (init_proc s) = kpagedir_addr s" "mem (init_proc s) = mem s" "cpu (init_proc s) = cpu s"
    by (simp_all add: i s2_def s1_def kp)
  have len: "length (Proc s1) = MAX_PROC" "length (Proc s2) = MAX_PROC" by (simp_all add: s1_def s2_def fold_set_flags assms(1))
  have at1: "proc s1 j = (if j = 0 then (init_message_pool p)\<lparr>p_cr3 := make_cr3 (va_to_pa (kpagedir_addr s))\<rparr> else proc s j)" if "j < MAX_PROC" for j
    using that assms(1) by (simp add: s1_def nth_upd_at)
  have at2: "proc s2 j = (if 1 \<le> j then (proc s1 j)\<lparr>p_flag := True\<rparr> else proc s1 j)" if "j < MAX_PROC" for j
    using that len(1) by (simp add: s2_def fold_set_flags del: upt_rec_numeral)
  have p: "pool_sizes p" using assms(3) by (simp add: p_def MAX_PROC_def)
  have 0: "0 < MAX_PROC" by (simp add: MAX_PROC_def)
  have "pool_sizes (proc (init_proc s) j)" if "j < MAX_PROC" for j
    using at1 [OF that] at2 [OF that] assms(3) that new_mailbox(1) [OF p] by (auto simp: i)
  moreover have "kernel_process (init_proc s) 0"
    using at1 [OF 0] at2 [OF 0] new_mailbox [OF p] 0 len(2) k(1)
    by (simp add: kernel_process_def box_def i) (simp add: pool_sizes_def init_message_pool_def p_def)
  ultimately show "threads_ok (init_proc s) []"
    using init_proc_ok [OF assms(1)] assms(2) by (auto simp: threads_ok_def layout_ok_def init_pcb_def)
qed

lemma init_proc_con: "con (init_proc s) = con s"
proof -
  have "con (fold (\<lambda>i. upd_proc i f) is s) = con s" for "is" f s
    by (induction "is" arbitrary: s) simp_all
  then show ?thesis by (simp add: init_proc_def Let_def)
qed

lemma kernel_process_cong [simp]: "kernel_process (s\<lparr>con := c\<rparr>) = kernel_process s" "kernel_process (s\<lparr>cpu := d\<rparr>) = kernel_process s"
  by (simp_all add: kernel_process_def box_def fun_eq_iff)

lemma threads_ok_con [simp]: "threads_ok (s\<lparr>con := c\<rparr>) ts = threads_ok s ts"
  by (simp add: threads_ok_def layout_ok_def proc_table_ok_def kstack_addr_def pcb_addr_def)

lemma threads_ok_cpu [simp]: "threads_ok (s\<lparr>cpu := c\<rparr>) ts = threads_ok s ts"
  by (simp add: threads_ok_def layout_ok_def proc_table_ok_def kstack_addr_def pcb_addr_def)

definition thread_list :: "kernel_image \<Rightarrow> u32 list" where
  "thread_list L = [timer_driver_thread L, tty_driver_thread L, ide_driver_thread L, FileManagement L,
     MemoryManagement L, ProcessManagement L]"

text \<open>Creating a list of threads, each followed by an assignment to another part of the state.\<close>

lemma threads_run:
  assumes "threads_ok (os_sys k) ts" "length ts + length l < MAX_PROC"
    and "\<forall>(t, f) \<in> set l. \<forall>k s. f (k\<lparr>os_sys := s\<rparr>) = (f k)\<lparr>os_sys := s\<rparr> \<and> os_sys (f k) = os_sys k"
  shows "\<exists>s. forE (\<lambda>(t, f) k. bindE (os_thread t k) (\<lambda>k. Inr (f k))) l k = Inr ((fold snd l k)\<lparr>os_sys := s\<rparr>) \<and>
    threads_ok s (ts @ map fst l) \<and> threads_added (os_sys k) s"
  using assms
proof (induction l arbitrary: k ts)
  case Nil
  then show ?case by (intro exI [of _ "os_sys k"]) (simp add: threads_added_refl)
next
  case (Cons x l)
  obtain t f where x: "x = (t, f)" by fastforce
  have f: "f (k\<lparr>os_sys := s\<rparr>) = (f k)\<lparr>os_sys := s\<rparr>" "os_sys (f k) = os_sys k" for k s using Cons.prems(3) x by auto
  have fo: "fold snd l (k\<lparr>os_sys := s\<rparr>) = (fold snd l k)\<lparr>os_sys := s\<rparr>" for k s
    using Cons.prems(3) by (induction l arbitrary: k) auto
  from threads_step [OF Cons.prems(1), of t] Cons.prems(2) obtain s where
    s: "Create_kthread t (os_sys k) = Inr s" "threads_ok s (ts @ [t])" "threads_added (os_sys k) s" by auto
  have "threads_ok (os_sys (f (k\<lparr>os_sys := s\<rparr>))) (ts @ [t])" using s(2) f(2) by simp
  from Cons.IH [OF this] Cons.prems(2,3) show ?case
    using s(1) f threads_added_trans [OF s(3)] by (auto simp: x os_thread_def fo)
qed

lemma os_threads_run:
  assumes "threads_ok (os_sys k) []"
  obtains s where "os_threads L k = Inr (k\<lparr>os_sys := s, os_timer := (os_timer k)\<lparr>TIMER := 1\<rparr>, pid_TTY := 2, pid_IDE := 3,
      pid_FM := 4, pid_MM := 5, pid_PM := 6\<rparr>)"
    "threads_ok s (thread_list L)" "threads_added (os_sys k) s"
proof -
  let ?l = "[(timer_driver_thread L, \<lambda>k. k\<lparr>os_timer := (os_timer k)\<lparr>TIMER := 1\<rparr>\<rparr>), (tty_driver_thread L, pid_TTY_update (\<lambda>_. 2)),
    (ide_driver_thread L, pid_IDE_update (\<lambda>_. 3)), (FileManagement L, pid_FM_update (\<lambda>_. 4)),
    (MemoryManagement L, pid_MM_update (\<lambda>_. 5)), (ProcessManagement L, pid_PM_update (\<lambda>_. 6))]"
  have e: "os_threads L k = forE (\<lambda>(t, f) k. bindE (os_thread t k) (\<lambda>k. Inr (f k))) ?l k"
    by (simp add: os_threads_def Let_def bindE_assoc)
  have "length [] + length ?l < MAX_PROC" by (simp add: MAX_PROC_def)
  from threads_run [OF assms this] obtain s where s: "os_threads L k = Inr ((fold snd ?l k)\<lparr>os_sys := s\<rparr>)"
      "threads_ok s ([] @ map fst ?l)" "threads_added (os_sys k) s"
    unfolding e by auto
  show thesis by (rule that [of s]) (use s in \<open>simp_all add: thread_list_def\<close>)
qed

section \<open>The start as a whole\<close>

lemma init_drivers_register:
  assumes "register driver_routines (os_irqs k) = Inr t"
  shows "init_drivers k = Inr (k\<lparr>os_irqs := t, os_ports := os_ports k @ init_100hz_timer, os_timer := init_alarm (os_timer k),
    os_tty := init_read_stack (os_tty k), os_cache := cache_init (os_cache k)\<rparr>)"
proof -
  obtain t1 t2 t3 where "add_irq_handle 0 Timer_intr (os_irqs k) = Inr t1" "add_irq_handle 1 Keyboard_intr t1 = Inr t2"
      "add_irq_handle 14 Ide_intr t2 = Inr t3" "add_irq_handle 0 Time_intr t3 = Inr t"
    using assms by (auto simp: driver_routines_def elim!: bindE_InrE)
  then show ?thesis
    by (simp add: init_drivers_def timer_driver_initialize_def tty_driver_initialize_def ide_driver_initialize_def os_register_def)
qed

lemma os_tables_parts:
  "mem (os_sys (os_tables L k)) = snd (init_page (kpagedir_addr (os_sys k)) (kpagetable_addr L) (mem (os_sys k)))"
  "kpagedir_addr (os_sys (os_tables L k)) = kpagedir_addr (os_sys k)" "os_cache (os_tables L k) = os_cache k"
  "enter_interrupt (cpu (os_sys (os_tables L k))) = enter_interrupt (cpu (os_sys k))"
  "Proc (os_sys (os_tables L k)) = Proc (os_sys k)" "Proc_addr (os_sys (os_tables L k)) = Proc_addr (os_sys k)"
  "console_ok (con (os_sys (os_tables L k)))" "os_irqs (os_tables L k) = init_handle (os_irqs k)"
  using init_screen_ok by (simp_all add: os_tables_def Let_def split: prod.split)

text \<open>The kernel image before \<open>os_init\<close>: arrays of their sizes, no routine registered, \<open>Proc\<close> where the linker may put it.\<close>

definition image_ok :: "os \<Rightarrow> bool" where
  "image_ok k \<longleftrightarrow> length (Proc (os_sys k)) = MAX_PROC \<and> layout_ok (os_sys k) \<and> (\<forall>i < MAX_PROC. pool_sizes (proc (os_sys k) i)) \<and>
     length (handle_pool (os_irqs k)) = NR_IRQ_HANDLE \<and> length (handles (os_irqs k)) = NR_IRQ \<and> handle_count (os_irqs k) = 0"

text \<open>What the start leaves in memory: the tables of \<open>init_page\<close>, and above them only the process table is written; all
  frames are free.\<close>

definition started_from :: "kernel_image \<Rightarrow> os \<Rightarrow> os \<Rightarrow> bool" where
  "started_from L k k' \<longleftrightarrow> Proc_addr (os_sys k') = Proc_addr (os_sys k) \<and> kpagedir_addr (os_sys k') = kpagedir_addr (os_sys k) \<and>
     enter_interrupt (cpu (os_sys k')) = enter_interrupt (cpu (os_sys k)) \<and>
     only (table_area (os_sys k)) (snd (init_page (kpagedir_addr (os_sys k)) (kpagetable_addr L) (mem (os_sys k)))) (mem (os_sys k')) \<and>
     os_cache k' = cache_init (os_cache k) \<and> (\<forall>i < NR_PPAGE_ENTRY. os_frames k' (of_nat i) = 0)"

lemma init_MM_frames: "n \<le> NR_PPAGE_ENTRY \<Longrightarrow> i < n \<Longrightarrow> fold (\<lambda>i f. f(of_nat i := (0 :: u8))) [0..<n] fl (of_nat i :: u32) = 0"
  by (induction n) (auto simp: less_Suc_eq)

lemma os_start_threads:
  assumes "image_ok k"
  obtains k' t where "os_start L k = Inr k'" "threads_ok (os_sys k') (thread_list L)" "console_ok (con (os_sys k'))"
    "current_pcb (os_sys k') = init_pcb" "intr_flag (cpu (os_sys k'))"
    "register driver_routines (init_handle (os_irqs k)) = Inr t" "os_irqs k' = t"
    "[timer.TIMER (os_timer k'), pid_TTY k', pid_IDE k', pid_FM k', pid_MM k', pid_PM k'] = [1, 2, 3, 4, 5, 6]"
    "started_from L k k'"
proof -
  note i = init_handle_empty [of "os_irqs k"]
  have k: "length (Proc (os_sys k)) = MAX_PROC" "layout_ok (os_sys k)" using assms by (simp_all add: image_ok_def)
  have "irq_ok (init_handle (os_irqs k))" "handle_count (init_handle (os_irqs k)) + length driver_routines \<le> NR_IRQ_HANDLE"
      "\<forall>r \<in> set driver_routines. fst r < NR_IRQ" "\<forall>j < NR_IRQ. routines (handle_pool (init_handle (os_irqs k))) (handles (init_handle (os_irqs k)) ! j) []"
    using i assms by (simp_all add: image_ok_def driver_routines_def NR_IRQ_HANDLE_def NR_IRQ_def)
  from register_routines [OF this] obtain t where t: "register driver_routines (init_handle (os_irqs k)) = Inr t" by blast
  note tab = os_tables_parts [of L k]
  obtain k1 where k1: "init_drivers (os_tables L k) = Inr k1" "os_sys k1 = os_sys (os_tables L k)" "os_irqs k1 = t"
      "os_cache k1 = cache_init (os_cache k)"
    using init_drivers_register [of "os_tables L k" t] t tab(3,8) by auto
  have p: "prints (green_printk ''[OK!] '' [])" "prints (printk ''Initializing drivers.\<newline>'' [])"
    "prints (printk ''Initializing servers.\<newline>'' [])"
    by (rule prints_printk, simp)+
  have "console_ok (con (os_sys k1))" using k1(2) tab(7) by simp
  then obtain k2 where k2: "os_print (green_printk ''[OK!] '' []) k1 = Inr k2" "only_prints k1 k2" by (rule os_print_only [OF p(1)])
  obtain k3 where k3: "os_print (printk ''Initializing drivers.\<newline>'' []) k2 = Inr k3" "only_prints k2 k3"
    by (rule os_print_only [OF p(2) only_prints_con [OF k2(2)]])
  define k4 where "k4 = init_servers k3"
  have k4: "Proc (os_sys k4) = Proc (os_sys k3)" "Proc_addr (os_sys k4) = Proc_addr (os_sys k3)" "con (os_sys k4) = con (os_sys k3)"
      "os_irqs k4 = os_irqs k3" "mem (os_sys k4) = mem (os_sys k3)" "kpagedir_addr (os_sys k4) = kpagedir_addr (os_sys k3)"
      "cpu (os_sys k4) = cpu (os_sys k3)" "os_cache k4 = os_cache k3"
    by (simp_all add: k4_def init_servers_def Let_def init_MM_def)
  have frames: "\<forall>i < NR_PPAGE_ENTRY. os_frames k4 (of_nat i) = 0"
    using init_MM_frames [of NR_PPAGE_ENTRY] by (simp add: k4_def init_servers_def Let_def init_MM_def del: upt_rec_numeral NR_PPAGE_ENTRY_val)
  have "console_ok (con (os_sys k4))" using only_prints_con [OF k3(2)] k4(3) by simp
  then obtain k5 where k5: "os_print (green_printk ''[OK!] '' []) k4 = Inr k5" "only_prints k4 k5" by (rule os_print_only [OF p(1)])
  obtain k6 where k6: "os_print (printk ''Initializing servers.\<newline>'' []) k5 = Inr k6" "only_prints k5 k6"
    by (rule os_print_only [OF p(3) only_prints_con [OF k5(2)]])
  have sys6: "Proc (os_sys k6) = Proc (os_sys k)" "Proc_addr (os_sys k6) = Proc_addr (os_sys k)" "os_irqs k6 = t"
    "mem (os_sys k6) = snd (init_page (kpagedir_addr (os_sys k)) (kpagetable_addr L) (mem (os_sys k)))"
    "kpagedir_addr (os_sys k6) = kpagedir_addr (os_sys k)" "enter_interrupt (cpu (os_sys k6)) = enter_interrupt (cpu (os_sys k))"
    "os_cache k6 = cache_init (os_cache k)" "os_frames k6 = os_frames k4"
    using k2(2) k3(2) k5(2) k6(2) k1(2-4) k4(1,2,4-8) tab(1,2,4-6) by (auto simp: only_prints_def)
  have "length (Proc (os_sys k6)) = MAX_PROC" "layout_ok (os_sys k6)" "\<forall>i < MAX_PROC. pool_sizes (proc (os_sys k6) i)"
    using assms sys6(1,2) by (simp_all add: image_ok_def layout_ok_def)
  note init6 = threads_ok_init [OF this]
  have init: "threads_ok (os_sys (k6\<lparr>os_sys := init_proc (os_sys k6)\<rparr>)) []" using init6(1) by simp
  obtain s where s: "os_threads L (k6\<lparr>os_sys := init_proc (os_sys k6)\<rparr>) = Inr (k6\<lparr>os_sys := s,
      os_timer := (os_timer k6)\<lparr>TIMER := 1\<rparr>, pid_TTY := 2, pid_IDE := 3, pid_FM := 4, pid_MM := 5, pid_PM := 6\<rparr>)"
      "threads_ok s (thread_list L)" "threads_added (init_proc (os_sys k6)) s"
    by (rule os_threads_run [OF init, of L]) auto
  have s3: "con s = con (os_sys k6)" "current_pcb s = init_pcb"
    using s(3) init_proc_ok(3) k(1) sys6(1) by (simp_all add: threads_added_def init_proc_con)
  define k7 where "k7 = k6\<lparr>os_sys := s, os_timer := (os_timer k6)\<lparr>TIMER := 1\<rparr>, pid_TTY := 2, pid_IDE := 3, pid_FM := 4,
    pid_MM := 5, pid_PM := 6\<rparr>"
  have "console_ok (con (os_sys k7))" using only_prints_con [OF k6(2)] s3(1) by (simp add: k7_def)
  then obtain k8 where k8: "load_info k7 = Inr k8" "only_prints k7 k8" by (rule load_info_only_prints)
  obtain k9 where k9: "welcome_user k8 = Inr k9" "only_prints k8 k9" by (rule welcome_only_prints [OF only_prints_con [OF k8(2)]])
  have "only_prints k7 k9" using k8(2) k9(2) by (rule only_prints_trans)
  then obtain c where c: "console_ok c" "k9 = k7\<lparr>os_sys := s\<lparr>con := c\<rparr>\<rparr>" by (auto simp: only_prints_def k7_def)
  have "os_start L k = Inr (k9\<lparr>os_sys := (os_sys k9)\<lparr>cpu := (cpu (os_sys k9))\<lparr>intr_flag := True\<rparr>\<rparr>\<rparr>)"
    by (simp only: os_start_def k1(1) k2(1) k3(1) k4_def [symmetric] k5(1) k6(1) s(1) k7_def [symmetric] k8(1) k9(1) bindE_simps Let_def)
  then show thesis
  proof (rule that)
    show "started_from L k (k9\<lparr>os_sys := (os_sys k9)\<lparr>cpu := (cpu (os_sys k9))\<lparr>intr_flag := True\<rparr>\<rparr>\<rparr>)"
      using s(3) sys6 init6(2-4) frames init_proc_ok(4) k(1) by (simp add: started_from_def threads_added_def c(2) k7_def)
  qed (use c s(2) s3(2) t sys6(3) in \<open>simp_all add: k7_def\<close>)
qed

lemma dispatch_registered:
  assumes "image_ok k" "register driver_routines (init_handle (os_irqs k)) = Inr t" "irq < NR_IRQ"
  shows "irq_handle t run (1000 + int irq) s = Some (forE run (registered driver_routines irq) s)"
proof -
  have i: "irq_ok (init_handle (os_irqs k))" "\<forall>j < NR_IRQ. routines (handle_pool (init_handle (os_irqs k))) (handles (init_handle (os_irqs k)) ! j) []"
    "handle_count (init_handle (os_irqs k)) = 0"
    using init_handle_empty [of "os_irqs k"] assms(1) by (simp_all add: image_ok_def)
  have "handle_count (init_handle (os_irqs k)) + length driver_routines \<le> NR_IRQ_HANDLE" "\<forall>r \<in> set driver_routines. fst r < NR_IRQ"
    using i(3) by (simp_all add: driver_routines_def NR_IRQ_HANDLE_def NR_IRQ_def)
  from register_routines [OF i(1) this i(2)] assms(2) have
    t: "irq_ok t" "routines (handle_pool t) (handles t ! irq) (registered driver_routines irq)" using assms(3) by auto
  have "irq < length (handles t)" using t(1) assms(3) by (simp add: irq_ok_def)
  then show ?thesis using call_handlers_routines [OF t(2), of run s] by (simp add: irq_handle_def)
qed

lemma threads_ok_context:
  assumes "threads_ok s ts" "i < length ts"
  shows "restore_context (\<lambda>a. load32 (mem s) (kphys a)) (p_esp (proc s (Suc i))) = kthread_context (ts ! i) (kstack_addr s (Suc i) + STACK_SIZE)"
  using assms frame_words_restore [of "ts ! i" "kstack_addr s (Suc i) + STACK_SIZE" "mem s"] by (simp add: threads_ok_def)

text \<open>C40: From the kernel image \<open>os_init\<close> reaches the point where it enables interrupts, without a panic. There the run
  list is the idle process followed by the six threads, all ready; each server pid that the kernel uses (\<open>TIMER\<close>, \<open>TTY\<close>, \<open>IDE\<close>,
  \<open>FM\<close>, \<open>MM\<close>, \<open>PM\<close>) is the pid of the thread whose first switch starts that server's function on an empty stack with
  interrupts on; and a hardware interrupt runs exactly the routines of its drivers, for the timer interrupt the disk driver's
  before the timer's.\<close>

theorem os_start_runs_servers:
  assumes "image_ok k"
  shows "\<exists>k'. os_start L k = Inr k' \<and> proc_table_ok (os_sys k') [0..<7] \<and>
    (\<forall>i < 7. p_status (proc (os_sys k') i) = STATUS_WAITING) \<and>
    current_pcb (os_sys k') = init_pcb \<and> intr_flag (cpu (os_sys k')) \<and>
    [timer.TIMER (os_timer k'), pid_TTY k', pid_IDE k', pid_FM k', pid_MM k', pid_PM k'] = [TIMER, TTY, IDE, FM, MM, PM] \<and>
    (\<forall>(pid, thread) \<in> set (zip [TIMER, TTY, IDE, FM, MM, PM] (thread_list L)).
       restore_context (\<lambda>a. load32 (mem (os_sys k')) (kphys a)) (p_esp (proc (os_sys k') (nat pid))) =
       kthread_context thread (kstack_addr (os_sys k') (nat pid) + STACK_SIZE)) \<and>
    (\<forall>irq < NR_IRQ. irq_handle (os_irqs k') run (1000 + int irq) s =
       Some (forE run (if irq = 0 then [Time_intr, Timer_intr] else if irq = 1 then [Keyboard_intr]
         else if irq = 14 then [Ide_intr] else []) s))"
proof -
  obtain k' t where k': "os_start L k = Inr k'" "threads_ok (os_sys k') (thread_list L)" "current_pcb (os_sys k') = init_pcb"
    "intr_flag (cpu (os_sys k'))" "register driver_routines (init_handle (os_irqs k)) = Inr t" "os_irqs k' = t"
    "[timer.TIMER (os_timer k'), pid_TTY k', pid_IDE k', pid_FM k', pid_MM k', pid_PM k'] = [1, 2, 3, 4, 5, 6]"
    by (rule os_start_threads [OF assms, of L])
  have len: "length (thread_list L) = 6" by (simp add: thread_list_def)
  have tab: "proc_table_ok (os_sys k') [0..<7]" "\<forall>i < 7. p_status (proc (os_sys k') i) = STATUS_WAITING"
    using k'(2) by (simp_all add: threads_ok_def len del: upt_rec_numeral upt_Suc)
  have pids: "[TIMER, TTY, IDE, FM, MM, PM] = [1, 2, 3, 4, 5, 6]"
    by (simp add: TIMER_def TTY_def IDE_def FM_def MM_def PM_def)
  note c = threads_ok_context [OF k'(2)]
  have ctx: "\<forall>(pid, thread) \<in> set (zip [TIMER, TTY, IDE, FM, MM, PM] (thread_list L)).
       restore_context (\<lambda>a. load32 (mem (os_sys k')) (kphys a)) (p_esp (proc (os_sys k') (nat pid))) =
       kthread_context thread (kstack_addr (os_sys k') (nat pid) + STACK_SIZE)"
    using c [of 0] c [of 1] c [of 2] c [of 3] c [of 4] c [of 5] unfolding pids
    by (simp add: len) (simp add: thread_list_def numeral_eq_Suc)
  have reg: "registered driver_routines irq = (if irq = 0 then [Time_intr, Timer_intr] else if irq = 1 then [Keyboard_intr]
      else if irq = 14 then [Ide_intr] else [])" for irq
    by (simp add: registered_def driver_routines_def)
  have irqs: "\<forall>irq < NR_IRQ. irq_handle (os_irqs k') run (1000 + int irq) s =
       Some (forE run (if irq = 0 then [Time_intr, Timer_intr] else if irq = 1 then [Keyboard_intr]
         else if irq = 14 then [Ide_intr] else []) s)"
    using dispatch_registered [OF assms k'(5), of _ run s] unfolding k'(6) reg by (intro allI impI)
  show ?thesis
    by (intro exI [of _ k'] conjI k'(1) tab k'(3,4) ctx irqs) (use k'(7) pids in simp)
qed

definition boot_image :: kernel_image where
  "boot_image = \<lparr>timer_driver_thread = 0xC0100000, tty_driver_thread = 0xC0101000, ide_driver_thread = 0xC0102000,
     FileManagement = 0xC0103000, MemoryManagement = 0xC0104000, ProcessManagement = 0xC0105000,
     kpagetable_addr = 0xC0210000, gdt_addr = 0xC0107000, idt_addr = 0xC0108000,
     entry_points = \<lparr>vec = \<lambda>_. 0, vecsys = 0, v_irq0 = 0, v_irq1 = 0, v_irq14 = 0, irq_empty = 0\<rparr>\<rparr>"

theorem os_start_runs_servers_witness:
  "\<exists>k k'. image_ok k \<and> os_start boot_image k = Inr k' \<and> proc_table_ok (os_sys k') [0..<7] \<and>
     ctx_eip (restore_context (\<lambda>a. load32 (mem (os_sys k')) (kphys a)) (p_esp (proc (os_sys k') 4))) = 0xC0103000 \<and>
     irq_handle (os_irqs k') (\<lambda>r log. Inr (log @ [r])) 1000 [] = Some (Inr [Time_intr, Timer_intr])"
proof -
  obtain k :: os where k: "os_sys k = boot_sys" "os_irqs k = boot_irq_table"
    by (metis os.select_convs(1) os.select_convs(4))
  have ok: "image_ok k"
    using boot_sys_layout by (simp add: image_ok_def k boot_irq_table_def boot_sys_def pool_sizes_def zero_pcb_def)
  let ?L = boot_image
  obtain k' where k': "os_start ?L k = Inr k'" "proc_table_ok (os_sys k') [0..<7]"
    "\<forall>(pid, thread) \<in> set (zip [TIMER, TTY, IDE, FM, MM, PM] (thread_list ?L)).
       restore_context (\<lambda>a. load32 (mem (os_sys k')) (kphys a)) (p_esp (proc (os_sys k') (nat pid))) =
       kthread_context thread (kstack_addr (os_sys k') (nat pid) + STACK_SIZE)"
    "\<forall>irq < NR_IRQ. irq_handle (os_irqs k') (\<lambda>r log. Inr (log @ [r])) (1000 + int irq) [] =
       Some (forE (\<lambda>r log. Inr (log @ [r])) (if irq = 0 then [Time_intr, Timer_intr] else if irq = 1 then [Keyboard_intr]
         else if irq = 14 then [Ide_intr] else []) [])"
    using os_start_runs_servers [OF ok, of ?L "\<lambda>r log. Inr (log @ [r])" "[]"] by (elim exE conjE) (rule that)
  have "(FM, FileManagement ?L) \<in> set (zip [TIMER, TTY, IDE, FM, MM, PM] (thread_list ?L))" by (simp add: thread_list_def)
  then have "ctx_eip (restore_context (\<lambda>a. load32 (mem (os_sys k')) (kphys a)) (p_esp (proc (os_sys k') 4))) = 0xC0103000"
    using k'(3) by (fastforce simp: FM_def kthread_context_def boot_image_def)
  moreover have "irq_handle (os_irqs k') (\<lambda>r log. Inr (log @ [r])) 1000 [] = Some (Inr [Time_intr, Timer_intr])"
    using k'(4) [rule_format, of 0] by (simp add: NR_IRQ_def)
  ultimately show ?thesis using k'(1,2) ok by blast
qed

end
