(* ===== verification/Semaphore.thy ===== *)
theory Semaphore
  imports Process
begin

text \<open>
  What the semaphores of kernel/semaphore.c (defined in Kernel) promise to the processes that use one: in every
  interleaving of \<open>Sem_P\<close>, \<open>Sem_V\<close> and scheduling decisions no token is lost or made, nobody sleeps while a token is free,
  and the array of waiting processes never overflows.
\<close>

section \<open>A semaphore in use\<close>

text \<open>\<open>granted\<close> counts the calls of \<open>Sem_P\<close> that have taken a token or have been woken with one, \<open>released\<close> the calls of
  \<open>Sem_V\<close>.\<close>

record sem_use =
  su_sem :: sem
  su_sys :: sys
  granted :: nat
  released :: nat

inductive sem_step :: "sem_use \<Rightarrow> sem_use \<Rightarrow> bool" where
  sem_step_P: "p_status (proc (su_sys u) (current_pcb (su_sys u))) \<noteq> STATUS_SLEEPING \<Longrightarrow>
    Sem_P (su_sem u) (su_sys u) = Inr (blocked, sem, s) \<Longrightarrow>
    sem_step u (u\<lparr>su_sem := sem, su_sys := s, granted := granted u + (if blocked then 0 else 1)\<rparr>)"
| sem_step_V: "Sem_V (su_sem u) (su_sys u) = Inr (sem, s) \<Longrightarrow>
    sem_step u (u\<lparr>su_sem := sem, su_sys := s, granted := granted u + (if queue_tail (su_sem u) \<noteq> 0 then 1 else 0),
      released := Suc (released u)\<rparr>)"
| sem_step_switch: "schedule ((su_sys u)\<lparr>need_sched := True\<rparr>) = Some (Inr s) \<Longrightarrow> sem_step u (u\<lparr>su_sys := s\<rparr>)"

definition asleep :: "sys \<Rightarrow> nat \<Rightarrow> bool" where
  "asleep s i \<longleftrightarrow> p_status (proc s i) = STATUS_SLEEPING"

abbreviation waiting_pids :: "sem \<Rightarrow> int list" where
  "waiting_pids sem \<equiv> take (queue_tail sem) (queue sem)"

definition sem_inv :: "nat list \<Rightarrow> int \<Rightarrow> sem_use \<Rightarrow> bool" where
  "sem_inv l n u \<longleftrightarrow> sched_ok (su_sys u) l \<and> length (queue (su_sem u)) = Max_Sem_Queue \<and>
     queue_tail (su_sem u) \<le> Max_Sem_Queue \<and>
     distinct (waiting_pids (su_sem u)) \<and> set (waiting_pids (su_sem u)) = int ` {i \<in> set l. asleep (su_sys u) i} \<and>
     0 \<le> token (su_sem u) \<and> (queue_tail (su_sem u) \<noteq> 0 \<longrightarrow> token (su_sem u) = 0) \<and>
     int (granted u) + token (su_sem u) = n + int (released u)"

section \<open>Every step keeps the invariant\<close>

lemma sched_ok_cpu [simp]: "sched_ok (s\<lparr>cpu := c\<rparr>) l = sched_ok s l"
  by (simp add: sched_ok_def proc_table_ok_def)

lemma sched_ok_lock [simp]: "sched_ok (lock s) l = sched_ok s l" "sched_ok (unlock s) l = sched_ok s l"
  by (simp_all add: lock_def unlock_def)

lemma asleep_lock [simp]: "asleep (lock s) = asleep s" "asleep (unlock s) = asleep s"
  by (simp_all add: asleep_def fun_eq_iff)

lemma sched_ok_status:
  assumes "sched_ok s l" "v \<noteq> STATUS_RUNNING"
  shows "sched_ok (upd_proc i (p_status_update (\<lambda>_. v)) s) l"
proof -
  have "run_list (Proc (upd_proc i (p_status_update (\<lambda>_. v)) s)) l"
    unfolding upd_proc_simps by (rule run_list_upd_at) (use sched_okD [OF assms(1)] in simp_all)
  moreover have "proc (upd_proc i (p_status_update (\<lambda>_. v)) s) j =
      (if j = i then (proc s j)\<lparr>p_status := v\<rparr> else proc s j)" if "j \<in> set l" for j
    using sched_okD(4,5) [OF assms(1)] that by (simp add: nth_upd_at)
  ultimately show ?thesis using assms by (simp add: sched_ok_def proc_table_ok_def list_all_iff)
qed

lemma asleep_status:
  assumes "i < length (Proc s)"
  shows "asleep (upd_proc i (p_status_update (\<lambda>_. v)) s) j = (if j = i then v = STATUS_SLEEPING else asleep s j)"
  using assms by (simp add: asleep_def nth_upd_at)

lemma waiting_bound:
  assumes "sem_inv l n u"
  shows "queue_tail (su_sem u) \<le> card {i \<in> set l. asleep (su_sys u) i}" "card {i \<in> set l. asleep (su_sys u) i} \<le> MAX_PROC"
proof -
  have ok: "sched_ok (su_sys u) l" and d: "distinct (waiting_pids (su_sem u))"
    and e: "set (waiting_pids (su_sem u)) = int ` {i \<in> set l. asleep (su_sys u) i}"
    and t: "queue_tail (su_sem u) \<le> length (queue (su_sem u))"
    using assms by (simp_all add: sem_inv_def)
  have "queue_tail (su_sem u) = length (waiting_pids (su_sem u))" using t by simp
  also have "\<dots> = card (int ` {i \<in> set l. asleep (su_sys u) i})" using distinct_card [OF d] e by simp
  also have "\<dots> = card {i \<in> set l. asleep (su_sys u) i}" by (rule card_image) simp
  finally show "queue_tail (su_sem u) \<le> card {i \<in> set l. asleep (su_sys u) i}" by simp
  have "{i \<in> set l. asleep (su_sys u) i} \<subseteq> {..<MAX_PROC}" using sched_okD(5) [OF ok] by auto
  from card_mono [OF _ this] show "card {i \<in> set l. asleep (su_sys u) i} \<le> MAX_PROC" by simp
qed

lemma sem_P_keeps:
  assumes inv: "sem_inv l n u" and awake: "\<not> asleep (su_sys u) (current_pcb (su_sys u))"
  shows "\<exists>blocked sem s. Sem_P (su_sem u) (su_sys u) = Inr (blocked, sem, s) \<and>
    sem_inv l n (u\<lparr>su_sem := sem, su_sys := s, granted := granted u + (if blocked then 0 else 1)\<rparr>)"
proof -
  let ?s = "su_sys u" and ?q = "su_sem u" and ?c = "current_pcb (su_sys u)"
  have ok: "sched_ok ?s l" and len: "length (queue ?q) = Max_Sem_Queue" and d: "distinct (waiting_pids ?q)"
    and e: "set (waiting_pids ?q) = int ` {i \<in> set l. asleep ?s i}"
    using inv by (simp_all add: sem_inv_def)
  note k = sched_okD [OF ok]
  show ?thesis
  proof (cases "token ?q > 0")
    case True
    then have "Sem_P ?q ?s = Inr (False, ?q\<lparr>token := token ?q - 1\<rparr>, unlock (lock ?s))"
      by (simp add: Sem_P_def Let_def)
    moreover have "sem_inv l n (u\<lparr>su_sem := ?q\<lparr>token := token ?q - 1\<rparr>, su_sys := unlock (lock ?s), granted := granted u + 1\<rparr>)"
      using inv True unfolding sem_inv_def by auto
    ultimately show ?thesis by (intro exI [of _ False]) simp
  next
    case False
    then have t0: "token ?q = 0" using inv by (simp add: sem_inv_def)
    have room: "queue_tail ?q < Max_Sem_Queue"
      using waiting_bound [OF inv] by (simp add: MAX_PROC_def Max_Sem_Queue_def)
    have c: "?c \<in> set l" "?c < length (Proc ?s)" "p_pid (proc ?s ?c) = int ?c"
      using k ok by (auto simp: sched_ok_def proc_table_ok_def list_all_iff)
    define q where "q = (queue ?q)[queue_tail ?q := int ?c]"
    define s where "s = unlock (upd_proc ?c (p_status_update (\<lambda>_. STATUS_SLEEPING)) (lock ?s))"
    have P: "Sem_P ?q ?s = Inr (True, ?q\<lparr>queue := q, queue_tail := queue_tail ?q + 1\<rparr>, s)"
      using False room len c(3) by (simp add: Sem_P_def Let_def q_def s_def)
    have W: "take (queue_tail ?q + 1) q = waiting_pids ?q @ [int ?c]"
      using room len by (simp add: q_def take_Suc_conv_app_nth)
    have "int ?c \<notin> set (waiting_pids ?q)" using awake unfolding e by auto
    moreover have "{i \<in> set l. asleep s i} = insert ?c {i \<in> set l. asleep ?s i}"
      using c(1,2) by (auto simp: s_def asleep_status)
    moreover have "sched_ok s l" unfolding s_def sched_ok_lock by (rule sched_ok_status) (use ok in simp_all)
    ultimately have "sem_inv l n (u\<lparr>su_sem := ?q\<lparr>queue := q, queue_tail := queue_tail ?q + 1\<rparr>, su_sys := s\<rparr>)"
      using inv W d e t0 room len unfolding sem_inv_def by (simp add: q_def)
    then show ?thesis using P by auto
  qed
qed

lemma sem_V_keeps:
  assumes inv: "sem_inv l n u"
  shows "\<exists>sem s. Sem_V (su_sem u) (su_sys u) = Inr (sem, s) \<and>
    sem_inv l n (u\<lparr>su_sem := sem, su_sys := s, granted := granted u + (if queue_tail (su_sem u) \<noteq> 0 then 1 else 0),
      released := Suc (released u)\<rparr>)"
proof -
  let ?s = "su_sys u" and ?q = "su_sem u"
  have ok: "sched_ok ?s l" and len: "length (queue ?q) = Max_Sem_Queue" and d: "distinct (waiting_pids ?q)"
    and e: "set (waiting_pids ?q) = int ` {i \<in> set l. asleep ?s i}" and t: "queue_tail ?q \<le> Max_Sem_Queue"
    using inv by (simp_all add: sem_inv_def)
  note k = sched_okD [OF ok]
  show ?thesis
  proof (cases "queue_tail ?q")
    case 0
    then have "Sem_V ?q ?s = Inr (?q\<lparr>token := token ?q + 1\<rparr>, unlock (lock ?s))"
      by (simp add: Sem_V_def Let_def)
    moreover have "sem_inv l n (u\<lparr>su_sem := ?q\<lparr>token := token ?q + 1\<rparr>, su_sys := unlock (lock ?s), granted := granted u,
        released := Suc (released u)\<rparr>)"
      using inv 0 unfolding sem_inv_def by simp
    ultimately show ?thesis using 0 by simp
  next
    case (Suc m)
    have W: "waiting_pids ?q = take m (queue ?q) @ [queue ?q ! m]"
      using Suc t len by (simp add: take_Suc_conv_app_nth)
    then have "queue ?q ! m \<in> int ` {i \<in> set l. asleep ?s i}" using e by auto
    then obtain i where i: "queue ?q ! m = int i" "i \<in> set l" "asleep ?s i" by blast
    have iM: "i < length (Proc ?s)" using k i(2) by auto
    define s where "s = unlock (upd_proc i (p_status_update (\<lambda>_. STATUS_WAITING)) (lock ?s))"
    have V: "Sem_V ?q ?s = Inr (?q\<lparr>queue_tail := m\<rparr>, s)"
      using Suc t len i(1) iM by (simp add: Sem_V_def Let_def s_def)
    have "set (take m (queue ?q)) = int ` {i \<in> set l. asleep ?s i} - {int i}"
      using d e W i(1) by auto
    also have "\<dots> = int ` ({i \<in> set l. asleep ?s i} - {i})" by auto
    also have "{i \<in> set l. asleep ?s i} - {i} = {i \<in> set l. asleep s i}"
      using iM by (auto simp: s_def asleep_status)
    finally have "set (take m (queue ?q)) = int ` {i \<in> set l. asleep s i}" .
    moreover have "sched_ok s l" unfolding s_def sched_ok_lock by (rule sched_ok_status) (use ok in simp_all)
    moreover have "distinct (take m (queue ?q))" using d W by simp
    ultimately show ?thesis using inv V Suc unfolding sem_inv_def by simp
  qed
qed

lemma sem_switch_keeps:
  assumes inv: "sem_inv l n u" and st: "schedule ((su_sys u)\<lparr>need_sched := True\<rparr>) = Some (Inr s)"
  shows "sem_inv l n (u\<lparr>su_sys := s\<rparr>)"
proof -
  let ?s = "(su_sys u)\<lparr>need_sched := True\<rparr>"
  have ok: "sched_ok ?s l" using inv by (simp add: sem_inv_def sched_ok_def proc_table_ok_def)
  obtain i where i: "find (ready ?s) (ready_order l (current_pcb ?s)) = Some i" "sched_ok s l" "dispatched ?s i s"
    using schedule_step [OF ok] st by (cases "find (ready ?s) (ready_order l (current_pcb ?s))") auto
  have "ready ?s i" using i(1) by (auto simp: find_Some_iff)
  then have "asleep s j = asleep (su_sys u) j" for j
    using i(3) unfolding dispatched_def ready_def asleep_def
    by (cases "j = i"; cases "j = current_pcb ?s") (auto split: if_splits)
  then show ?thesis using inv i(2) by (simp add: sem_inv_def)
qed

lemma sem_step_keeps:
  assumes "sem_step u u'" "sem_inv l n u"
  shows "sem_inv l n u'"
  using assms
proof (induction rule: sem_step.induct)
  case (sem_step_P u blocked sem s)
  then show ?case using sem_P_keeps [OF sem_step_P.prems] by (auto simp: asleep_def)
next
  case (sem_step_V u sem s)
  then show ?case using sem_V_keeps [OF sem_step_V.prems] by auto
next
  case (sem_step_switch u s)
  then show ?case using sem_switch_keeps by blast
qed

interpretation semaphores: transition_invariant sem_step "sem_inv l n" for l n
  by unfold_locales (rule sem_step_keeps)

section \<open>The promise of a semaphore\<close>


text \<open>Process 0 takes the only token of a semaphore and then finds it taken.\<close>

definition one_token :: sem where
  "one_token = \<lparr>token = 0, queue_tail = 0, queue = replicate Max_Sem_Queue 0\<rparr>"


end
