(* ===== verification/UserSpace.thy ===== *)
theory UserSpace
  imports Lifecycle UserBuffer
begin

text \<open>
  The memory of one process as it sees it: the address spaces of \<open>AddressSpace\<close>, which the memory server keeps, together
  with the byte copies of \<open>UserBuffer\<close>, which the other servers use. A space whose pages are frames of its own is an array
  of bytes: adding pages to it and writing elsewhere leave the bytes in it as they are.
\<close>

section \<open>Bytes of a process\<close>

text \<open>A byte as the process reads it through its page tables.\<close>

definition user_byte :: "memory \<Rightarrow> u32 \<Rightarrow> u32 \<Rightarrow> u8" where
  "user_byte m cr3 va = (case translate m cr3 va of None \<Rightarrow> 0 | Some pa \<Rightarrow> m pa)"

lemma user_byte_mapped: "user_mapped m cr3 va n a \<Longrightarrow> i < n \<Longrightarrow> user_byte m cr3 (va + of_nat i) = m (a i)"
  by (simp add: user_byte_def user_mapped_def)

section \<open>Spaces with frames of their own\<close>

definition own_pages :: "mm \<Rightarrow> u32 \<Rightarrow> bool" where
  "own_pages s pd \<longleftrightarrow> wf_user s pd \<and>
     (\<forall>v < 786432. \<forall>w < 786432. \<forall>f. vmap (mm_mem s) pd v = Some f \<longrightarrow> vmap (mm_mem s) pd w = Some f \<longrightarrow> v = w)"

lemma own_pages_wf: "own_pages s pd \<Longrightarrow> wf_space s pd" "own_pages s pd \<Longrightarrow> good_dir pd"
  by (simp_all add: own_pages_def wf_user_def wf_space_def)

lemma own_pages_frame:
  assumes "own_pages s pd" "v < 786432" "vmap (mm_mem s) pd v = Some f"
  shows "user_frame f" "in_use s f" "f \<notin> tables (mm_mem s) pd"
  using assms by (auto simp: own_pages_def wf_user_def)

lemma own_pages_inj:
  assumes "own_pages s pd" "v < 786432" "w < 786432" "vmap (mm_mem s) pd v = Some f" "vmap (mm_mem s) pd w = Some f"
  shows "v = w"
  using assms unfolding own_pages_def by blast

text \<open>Where the byte at \<open>va\<close> lies.\<close>

definition place :: "memory \<Rightarrow> u32 \<Rightarrow> u32 \<Rightarrow> u32" where
  "place m pd va = the (vmap m pd (unat va div 4096)) OR (va AND 0xFFF)"

abbreviation cr3_of :: "u32 \<Rightarrow> u32" where
  "cr3_of pd \<equiv> make_cr3 (va_to_pa pd)"

text \<open>The bytes of the tables.\<close>

definition table_bytes :: "memory \<Rightarrow> u32 \<Rightarrow> u32 set" where
  "table_bytes m pd = page (va_to_pa pd) \<union> \<Union> (page ` tables m pd)"

lemma translate_place:
  "good_dir pd \<Longrightarrow> vmap m pd (unat va div 4096) = Some f \<Longrightarrow> translate m (cr3_of pd) va = Some (place m pd va)"
  by (simp add: translate_vmap place_def)

lemma place_in_page:
  assumes "user_frame f" "vmap m pd (unat va div 4096) = Some f"
  shows "place m pd va = f + of_nat (unat va mod 4096)" "place m pd va \<in> page f" "place m pd va < KOFFSET"
proof -
  have o: "unat (va AND 0xFFF) = unat va mod 4096" by (rule field_offset)
  then have "va AND 0xFFF = of_nat (unat va mod 4096)" by (metis of_nat_unat ucast_id)
  moreover have "f = frame_addr f"
    using assms(1) by (simp add: user_frame_def word_unat_eq_iff unat_frame_addr)
  then have "f OR (va AND 0xFFF) = f + (va AND 0xFFF)" using frame_or_offset [of f va] by metis
  ultimately show p: "place m pd va = f + of_nat (unat va mod 4096)" by (simp add: place_def assms(2))
  show "place m pd va \<in> page f" unfolding p by (rule offset_in_page [OF user_frame_arrays(1) [OF assms(1)]]) simp
  then have "unat (place m pd va) < unat f + 4096" by (simp add: page_def)
  then show "place m pd va < KOFFSET" using assms(1) by (simp add: user_frame_def KOFFSET_def word_less_nat_alt)
qed

lemma walk_in_tables:
  assumes "wf_space s pd" "vmap (mm_mem s) pd (unat va div 4096) \<noteq> None"
  shows "word_bytes (pde_ptr (cr3_of pd) va) \<subseteq> table_bytes (mm_mem s) pd"
    "word_bytes (pte_ptr (mm_mem s) (cr3_of pd) va) \<subseteq> table_bytes (mm_mem s) pd"
    "pde_ptr (cr3_of pd) va < KOFFSET" "pte_ptr (mm_mem s) (cr3_of pd) va < KOFFSET"
proof -
  let ?m = "mm_mem s" and ?i = "unat va div 4096 div 1024" and ?j = "unat va div 4096 mod 1024"
  have gd: "good_dir pd" by (rule wf_space_dir [OF assms(1)])
  have i: "?i < 1024" using unsigned_less [of va] by (simp add: div_less_iff_less_mult)
  have fr: "frame_addr (cr3_of pd) = va_to_pa pd"
    using gd by (auto simp: good_dir_def make_cr3_def frame_addr_def word_unat_eq_iff
        unat_frame_addr [unfolded frame_addr_def])
  then have pde: "pde_ptr (cr3_of pd) va = word_at (va_to_pa pd) ?i"
    by (simp add: pde_ptr_def word_at_def field_pde [symmetric] flip: div_mult2_eq)
  then have "load32 ?m (pde_ptr (cr3_of pd) va) = dir ?m pd ?i" by (simp add: dir_def)
  then have pte: "pte_ptr ?m (cr3_of pd) va = word_at (tab ?m pd ?i) ?j"
    by (simp add: pte_ptr_def tab_def word_at_def field_pte [symmetric])
  have pr: "present (dir ?m pd ?i)" using assms(2) by (auto simp: vmap_def split: if_splits)
  note uf = wf_space_tab(1) [OF assms(1) i pr]
  have t: "tab ?m pd ?i \<in> tables ?m pd" using i pr by (auto simp: tables_def)
  show "word_bytes (pde_ptr (cr3_of pd) va) \<subseteq> table_bytes ?m pd"
    using word_at_in_page [OF good_dir_arrays(1) [OF gd] i] by (auto simp: pde table_bytes_def)
  show "word_bytes (pte_ptr ?m (cr3_of pd) va) \<subseteq> table_bytes ?m pd"
    using word_at_in_page [OF user_frame_arrays(1) [OF uf], of ?j] t by (auto simp: pte table_bytes_def)
  have "unat (word_at (va_to_pa pd) ?i) < 0x1000000"
    using unat_word_at [OF good_dir_arrays(1) [OF gd] i] gd i by (simp add: good_dir_def)
  then show "pde_ptr (cr3_of pd) va < KOFFSET" by (simp add: pde KOFFSET_def word_less_nat_alt)
  show "pte_ptr ?m (cr3_of pd) va < KOFFSET" unfolding pte by (rule user_frame_low [OF uf]) simp
qed

text \<open>Tables and pages are apart.\<close>

lemma page_not_table:
  assumes "own_pages s pd" "v < 786432" "vmap (mm_mem s) pd v = Some f"
  shows "page f \<inter> table_bytes (mm_mem s) pd = {}"
proof -
  note f = own_pages_frame [OF assms]
  have "page f \<inter> page t = {}" if "t \<in> tables (mm_mem s) pd" for t
    using that f(3) own_pages_wf(1) [OF assms(1)] by (intro pages_disjoint [OF f(1)]) (auto simp: wf_space_def)
  moreover have "page f \<inter> page (va_to_pa pd) = {}"
    using dir_page_disjoint [OF own_pages_wf(2) [OF assms(1)] f(1)] by blast
  ultimately show ?thesis by (auto simp: table_bytes_def)
qed

text \<open>A range of the space whose pages are all there is a buffer in the sense of \<open>Paging\<close>.\<close>

definition covered :: "memory \<Rightarrow> u32 \<Rightarrow> u32 \<Rightarrow> nat \<Rightarrow> bool" where
  "covered m pd va n \<longleftrightarrow> unat va + n \<le> 0xC0000000 \<and>
     (\<forall>v. unat va div 4096 \<le> v \<and> v * 4096 < unat va + n \<longrightarrow> vmap m pd v \<noteq> None)"

lemma covered_byte:
  assumes "covered m pd va n" "i < n"
  shows "unat (va + of_nat i) = unat va + i" "(unat va + i) div 4096 < 786432" "vmap m pd ((unat va + i) div 4096) \<noteq> None"
proof -
  show "unat (va + of_nat i) = unat va + i" using assms by (simp add: covered_def unat_word_ariths unat_of_nat)
  show "(unat va + i) div 4096 < 786432" using assms by (simp add: covered_def div_less_iff_less_mult)
  have "unat va div 4096 \<le> (unat va + i) div 4096" by (simp add: div_le_mono)
  moreover have "(unat va + i) div 4096 * 4096 < unat va + n"
    using assms(2) by (intro order.strict_trans1 [OF div_times_less_eq_dividend]) simp
  ultimately show "vmap m pd ((unat va + i) div 4096) \<noteq> None" using assms(1) by (simp add: covered_def)
qed

lemma own_buffer:
  assumes own: "own_pages s pd" and c: "covered (mm_mem s) pd va n"
  defines "a \<equiv> \<lambda>i. place (mm_mem s) pd (va + of_nat i)"
  shows "user_mapped (mm_mem s) (cr3_of pd) va n a"
    "W \<inter> table_bytes (mm_mem s) pd = {} \<Longrightarrow> tables_apart (mm_mem s) (cr3_of pd) va n W"
    "inj_on a {..<n}" "a ` {..<n} \<inter> table_bytes (mm_mem s) pd = {}"
    "\<And>i. i < n \<Longrightarrow> \<exists>f. user_frame f \<and> in_use s f \<and> f \<notin> tables (mm_mem s) pd \<and> a i \<in> page f"
proof -
  let ?m = "mm_mem s"
  have at: "\<exists>f. vmap ?m pd (unat (va + of_nat i) div 4096) = Some f \<and> (unat va + i) div 4096 < 786432 \<and>
      unat (va + of_nat i) = unat va + i \<and> user_frame f \<and> in_use s f \<and> f \<notin> tables ?m pd \<and>
      page f \<inter> table_bytes ?m pd = {}"
    if "i < n" for i
  proof -
    note cb = covered_byte [OF c that]
    then obtain f where f: "vmap ?m pd ((unat va + i) div 4096) = Some f" by auto
    show ?thesis using cb f own_pages_frame [OF own cb(2) f] page_not_table [OF own cb(2) f] by auto
  qed
  have "translate ?m (cr3_of pd) (va + of_nat i) = Some (a i) \<and> a i < KOFFSET \<and>
      pde_ptr (cr3_of pd) (va + of_nat i) < KOFFSET \<and> pte_ptr ?m (cr3_of pd) (va + of_nat i) < KOFFSET" if "i < n" for i
    using at [OF that] translate_place [OF own_pages_wf(2) [OF own]] place_in_page(3)
      walk_in_tables(3,4) [OF own_pages_wf(1) [OF own], of "va + of_nat i"] by (auto simp: a_def)
  then show "user_mapped ?m (cr3_of pd) va n a" using c by (simp add: user_mapped_def covered_def)
  show "tables_apart ?m (cr3_of pd) va n W" if "W \<inter> table_bytes ?m pd = {}"
    unfolding tables_apart_def using at walk_in_tables(1,2) [OF own_pages_wf(1) [OF own]] that by blast
  show "\<exists>f. user_frame f \<and> in_use s f \<and> f \<notin> tables ?m pd \<and> a i \<in> page f" if "i < n" for i
    using at [OF that] place_in_page(2) unfolding a_def by blast
  then show "a ` {..<n} \<inter> table_bytes ?m pd = {}" using at place_in_page(2) unfolding a_def by blast
  show "inj_on a {..<n}"
  proof (rule inj_onI)
    fix i j assume "i \<in> {..<n}" "j \<in> {..<n}" and eq: "a i = a j"
    then obtain f g where f: "vmap ?m pd ((unat va + i) div 4096) = Some f" "user_frame f" "(unat va + i) div 4096 < 786432"
        "unat (va + of_nat i) = unat va + i"
      and g: "vmap ?m pd ((unat va + j) div 4096) = Some g" "user_frame g" "(unat va + j) div 4096 < 786432"
        "unat (va + of_nat j) = unat va + j"
      using at [of i] at [of j] by auto
    have p: "a i = f + of_nat ((unat va + i) mod 4096)" "a j = g + of_nat ((unat va + j) mod 4096)"
      "a i \<in> page f" "a j \<in> page g"
      using place_in_page [OF f(2), of ?m pd "va + of_nat i"] place_in_page [OF g(2), of ?m pd "va + of_nat j"] f g
      by (simp_all add: a_def)
    have "f = g" using p(3,4) eq pages_disjoint [OF f(2) g(2)] by auto
    then have q: "(unat va + i) div 4096 = (unat va + j) div 4096" using own_pages_inj [OF own f(3) g(3) f(1)] g(1) by simp
    have "unat (of_nat ((unat va + i) mod 4096) :: u32) = unat (of_nat ((unat va + j) mod 4096) :: u32)"
      using p(1,2) eq \<open>f = g\<close> by simp
    then have r: "(unat va + i) mod 4096 = (unat va + j) mod 4096" by (simp add: unat_of_nat)
    have "unat va + i = unat va + j" using q r by (metis div_mult_mod_eq)
    then show "i = j" by simp
  qed
qed

section \<open>Writing to a space\<close>

text \<open>Writing anywhere but to the tables keeps the space.\<close>

lemma tables_kept:
  assumes wf: "wf_space s pd" and w: "only W (mm_mem s) m'" "W \<inter> table_bytes (mm_mem s) pd = {}"
  shows "\<forall>k < 1024. dir m' pd k = dir (mm_mem s) pd k" "\<forall>v < 1048576. vmap m' pd v = vmap (mm_mem s) pd v"
proof -
  let ?m = "mm_mem s"
  have gd: "good_dir pd" by (rule wf_space_dir [OF wf])
  have off: "W \<inter> page (va_to_pa pd) = {}" "W \<inter> page (tab ?m pd k) = {}" if "k < 1024" "present (dir ?m pd k)" for k
    using w(2) that by (auto simp: table_bytes_def tables_def)
  show d: "\<forall>k < 1024. dir m' pd k = dir ?m pd k"
    unfolding dir_def using load_only [OF w(1) _ good_dir_arrays(1) [OF gd]] w(2) by (auto simp: table_bytes_def)
  show "\<forall>v < 1048576. vmap m' pd v = vmap ?m pd v"
  proof (intro allI impI)
    fix v :: nat assume "v < 1048576"
    then have i: "v div 1024 < 1024" by (simp add: div_less_iff_less_mult)
    show "vmap m' pd v = vmap ?m pd v"
    proof (cases "present (dir ?m pd (v div 1024))")
      case True
      note uf = wf_space_tab(1) [OF wf i True]
      have t: "tab m' pd (v div 1024) = tab ?m pd (v div 1024)" using d i by (simp add: tab_def)
      have "pte m' pd (v div 1024) (v mod 1024) = pte ?m pd (v div 1024) (v mod 1024)"
        unfolding pte_def t by (rule load_only [OF w(1) off(2) [OF i True] user_frame_arrays(1) [OF uf]]) simp
      then show ?thesis using d i by (simp add: vmap_def)
    qed (use d i in \<open>simp add: vmap_def\<close>)
  qed
qed

lemma own_pages_write:
  assumes own: "own_pages s pd" and w: "only W (mm_mem s) (mm_mem s')" "W \<inter> table_bytes (mm_mem s) pd = {}"
    and u: "\<forall>f. user_frame f \<longrightarrow> in_use s f \<longrightarrow> in_use s' f"
  shows "own_pages s' pd" "table_bytes (mm_mem s') pd = table_bytes (mm_mem s) pd"
    "\<And>v. v < 1048576 \<Longrightarrow> vmap (mm_mem s') pd v = vmap (mm_mem s) pd v"
proof -
  have wf: "wf_space s pd" by (rule own_pages_wf(1) [OF own])
  note k = tables_kept [OF wf w]
  have c: "wf_space s' pd" "tables (mm_mem s') pd = tables (mm_mem s) pd" using wf_space_cong [OF wf k(1) u] .
  show "table_bytes (mm_mem s') pd = table_bytes (mm_mem s) pd" by (simp add: table_bytes_def c(2))
  show v: "vmap (mm_mem s') pd v = vmap (mm_mem s) pd v" if "v < 1048576" for v using k(2) that by simp
  have v': "vmap (mm_mem s') pd v = vmap (mm_mem s) pd v" if "v < 786432" for v by (rule v) (use that in simp)
  show "own_pages s' pd"
    using own c u unfolding own_pages_def wf_user_def by (simp add: v')
qed

lemma user_byte_write:
  assumes own: "own_pages s pd" and w: "only W (mm_mem s) m'" "W \<inter> table_bytes (mm_mem s) pd = {}"
    and p: "vmap (mm_mem s) pd (unat va div 4096) = Some f" "place (mm_mem s) pd va \<notin> W"
  shows "user_byte m' (cr3_of pd) va = user_byte (mm_mem s) (cr3_of pd) va"
proof -
  let ?m = "mm_mem s"
  have gd: "good_dir pd" by (rule own_pages_wf(2) [OF own])
  have "unat va div 4096 < 1048576" using unsigned_less [of va] by (simp add: div_less_iff_less_mult)
  then have v: "vmap m' pd (unat va div 4096) = Some f"
    using tables_kept(2) [OF own_pages_wf(1) [OF own] w] p(1) by simp
  have "place m' pd va = place ?m pd va" by (simp add: place_def v p(1))
  then show ?thesis
    using translate_place [OF gd v] translate_place [OF gd p(1)] w(1) p(2) by (simp add: user_byte_def only_def)
qed

section \<open>Adding pages\<close>

lemma mapped_from_cases:
  assumes mf: "mapped_from M v fs M'" and u: "w < 786432" "M' w = Some f"
  shows "(\<exists>k < length fs. w = v + k \<and> f = fs ! k) \<or> M w = Some f"
proof (cases "w < v \<or> v + length fs \<le> w")
  case True
  then show ?thesis using mf u by (auto simp: mapped_from_def)
next
  case False
  then obtain k where "k < length fs" "w = v + k" by (metis add_diff_inverse_nat nat_add_left_cancel_less not_le)
  then show ?thesis using mf u(2) by (auto simp: mapped_from_def)
qed

lemma own_pages_adds:
  assumes own: "own_pages s pd" and a: "adds pd v s s' fs c" and v: "v + length fs \<le> 786432"
  shows "own_pages s' pd"
proof -
  let ?m = "mm_mem s" and ?m' = "mm_mem s'"
  have g: "grows pd s s'" and nf: "new_frames pd s s' fs" and mf: "mapped_from (vmap ?m pd) v fs (vmap ?m' pd)"
    using a by (simp_all add: adds_def)
  note cases = mapped_from_cases [OF mf]
  have new: "user_frame (fs ! k)" "\<not> in_use s (fs ! k)" "in_use s' (fs ! k)" "fs ! k \<notin> tables ?m' pd"
    if "k < length fs" for k
    using nf that by (auto simp: new_frames_def)
  have old: "user_frame f" "in_use s f" "in_use s' f" "f \<notin> tables ?m' pd" if "w < 786432" "vmap ?m pd w = Some f" for w f
  proof -
    note o = own_pages_frame [OF own that]
    then show "user_frame f" "in_use s f" "in_use s' f" using grows_in_use [OF g] by blast+
    show "f \<notin> tables ?m' pd" using g o(2,3) by (auto simp: grows_def)
  qed
  show ?thesis
    unfolding own_pages_def wf_user_def
  proof (intro conjI allI impI)
    show "wf_space s' pd" by (rule grows_wf [OF g])
    show "user_frame f" "in_use s' f" "f \<notin> tables ?m' pd" if "w < 786432" "vmap ?m' pd w = Some f" for w f
      using cases [OF that] new old(1,3,4) that(1) by blast+
    fix w u f assume w: "w < 786432" "u < 786432" "vmap ?m' pd w = Some f" "vmap ?m' pd u = Some f"
    from cases [OF w(1,3)] cases [OF w(2,4)] show "w = u"
    proof (elim disjE exE conjE)
      fix k l assume kl: "k < length fs" "w = v + k" "f = fs ! k" "l < length fs" "u = v + l" "f = fs ! l"
      then show ?thesis using nf by (auto simp: new_frames_def nth_eq_iff_index_eq)
    next
      assume "vmap ?m pd w = Some f" "vmap ?m pd u = Some f"
      then show ?thesis by (rule own_pages_inj [OF own w(1,2)])
    qed (use new(2) old(2) w in blast)+
  qed
qed

lemma user_byte_adds:
  assumes own: "own_pages s pd" and a: "adds pd v s s' fs c"
    and p: "unat va div 4096 < 786432" "vmap (mm_mem s) pd (unat va div 4096) = Some f"
  shows "vmap (mm_mem s') pd (unat va div 4096) = Some f"
    "user_byte (mm_mem s') (cr3_of pd) va = user_byte (mm_mem s) (cr3_of pd) va"
proof -
  let ?m = "mm_mem s" and ?m' = "mm_mem s'" and ?w = "unat va div 4096"
  have g: "grows pd s s'" and mf: "mapped_from (vmap ?m pd) v fs (vmap ?m' pd)" using a by (simp_all add: adds_def)
  have "?w < v \<or> v + length fs \<le> ?w"
  proof (rule ccontr)
    assume "\<not> ?thesis"
    then have "?w - v < length fs" "v + (?w - v) = ?w" by auto
    then have "vmap ?m pd ?w = None" using mf unfolding mapped_from_def by metis
    then show False using p(2) by simp
  qed
  moreover have "?w < 1048576" using p(1) by simp
  ultimately show v': "vmap ?m' pd ?w = Some f" using mf p(2) unfolding mapped_from_def by metis
  note o = own_pages_frame [OF own p]
  have gd: "good_dir pd" by (rule own_pages_wf(2) [OF own])
  have pl: "place ?m' pd va = place ?m pd va" by (simp add: place_def v' p(2))
  have "?m' (place ?m pd va) = ?m (place ?m pd va)"
  proof (rule ccontr)
    let ?x = "place ?m pd va"
    have x: "?x \<in> page f" by (rule place_in_page(2) [OF o(1) p(2)])
    assume "?m' ?x \<noteq> ?m ?x"
    then consider "?x \<in> page (va_to_pa pd)" | h where "user_frame h" "?x \<in> page h" "h \<in> tables ?m pd \<or> \<not> in_use s h"
      using g unfolding grows_def by blast
    then show False
    proof cases
      case 1
      then show ?thesis using x dir_page_disjoint [OF gd o(1)] by blast
    next
      case 2
      then have "h = f" using x pages_disjoint [OF 2(1) o(1)] by blast
      then show ?thesis using 2(3) o by simp
    qed
  qed
  then show "user_byte ?m' (cr3_of pd) va = user_byte ?m (cr3_of pd) va"
    using translate_place [OF gd v'] translate_place [OF gd p(2)] by (simp add: user_byte_def pl)
qed

section \<open>Clearing a space\<close>

text \<open>The frames of a space: its tables and the pages of its user half.\<close>

definition space_frames :: "memory \<Rightarrow> u32 \<Rightarrow> u32 set" where
  "space_frames m pd = tables m pd \<union> {f. \<exists>u < 786432. vmap m pd u = Some f}"

text \<open>What the user half refers to.\<close>

lemma own_reference:
  assumes own: "own_pages v pd" and x: "x \<in> set (all_references (mm_mem v) pd 768)"
  obtains f where "x = pa_to_id f" "user_frame f" "in_use v f"
    "(\<exists>i < 768. present (dir (mm_mem v) pd i) \<and> f = tab (mm_mem v) pd i) \<or> (\<exists>u < 786432. vmap (mm_mem v) pd u = Some f)"
proof -
  let ?m = "mm_mem v"
  note wf = own_pages_wf(1) [OF own]
  obtain i where i: "i < 768" "x \<in> set (references ?m pd i)" using x by (auto simp: all_references_def)
  then have pr: "present (dir ?m pd i)" by (auto simp: references_def split: if_splits)
  then consider "x = pa_to_id (tab ?m pd i)" | j where "j < 1024" "present (pte ?m pd i j)" "x = pa_to_id (frame_addr (pte ?m pd i j))"
    using i(2) by (auto simp: references_def)
  then show thesis
  proof cases
    case 1
    then show ?thesis using that wf_space_tab [OF wf _ pr] i(1) pr by auto
  next
    case (2 j)
    have u: "i * 1024 + j < 786432" using i(1) 2(1) by simp
    have "vmap ?m pd (i * 1024 + j) = Some (frame_addr (pte ?m pd i j))" using 2(1,2) pr by (simp add: vmap_def)
    then show ?thesis using that 2(3) own_pages_frame [OF own u] u by blast
  qed
qed

text \<open>A space with frames of its own is cleared without touching the frames of others, and gets a new page for the stack.\<close>

lemma exec_page_spec:
  assumes own: "own_pages v pd" and enough: "2 + need \<le> card (free_frames v)"
  shows "\<exists>v'. exec_page pd v = Inr v' \<and> own_pages v' pd \<and> need \<le> card (free_frames v') \<and>
    (\<forall>u < 786432. vmap (mm_mem v') pd u \<noteq> None \<longleftrightarrow> u = 786431) \<and>
    space_frames (mm_mem v') pd \<union> free_frames v' \<subseteq> free_frames v \<union> space_frames (mm_mem v) pd \<and>
    only (page (va_to_pa pd) \<union> \<Union> (page ` {f \<in> free_frames v \<union> space_frames (mm_mem v) pd. user_frame f})) (mm_mem v) (mm_mem v')"
proof -
  let ?m = "mm_mem v" and ?R = "all_references (mm_mem v) pd 768"
  note wf = own_pages_wf(1) [OF own]
  have sep: "\<forall>k < 1024. 768 \<le> k \<longrightarrow> present (dir ?m pd k) \<longrightarrow> pa_to_id (tab ?m pd k) \<notin> set ?R"
  proof (intro allI impI notI)
    fix k assume k: "k < 1024" "768 \<le> k" "present (dir ?m pd k)" "pa_to_id (tab ?m pd k) \<in> set ?R"
    note t = wf_space_tab [OF wf k(1,3)]
    from own_reference [OF own k(4)] obtain f where f: "pa_to_id (tab ?m pd k) = pa_to_id f" "user_frame f"
      "(\<exists>i < 768. present (dir ?m pd i) \<and> f = tab ?m pd i) \<or> (\<exists>u < 786432. vmap ?m pd u = Some f)" by metis
    have "f = tab ?m pd k" using f(1) pa_to_id_inj [OF t(1) f(2)] by simp
    then show False using f(3)
    proof (elim disjE exE conjE)
      fix i assume i: "i < 768" "present (dir ?m pd i)" "f = tab ?m pd k" "f = tab ?m pd i"
      have "inj_on (tab ?m pd) {i. i < 1024 \<and> present (dir ?m pd i)}" using wf by (simp add: wf_space_def)
      from inj_onD [OF this, of i k] show False using i k(1-3) by simp
    next
      fix u assume "u < 786432" "vmap ?m pd u = Some f" "f = tab ?m pd k"
      then show False using own_pages_frame(3) [OF own] k(1,3) unfolding tables_def by blast
    qed
  qed
  define s where "s = fold (release_table pd) [0..<768] v"
  note r = exec_page_release [OF wf sep, folded s_def]
  have vu: "vmap (mm_mem s) pd u = None" if "u < 786432" for u using r(6) [of u] that by simp
  have own_s: "own_pages s pd" using r(4) vu by (simp add: own_pages_def wf_user_def)
  have flag: "Ppage_flag s x = Ppage_flag v x - of_nat (count_list ?R x)" for x by (simp add: r(3) drop_counts_def)
  have freed: "free_frames s \<subseteq> free_frames v \<union> space_frames ?m pd"
  proof
    fix f assume f: "f \<in> free_frames s"
    show "f \<in> free_frames v \<union> space_frames ?m pd"
    proof (cases "pa_to_id f \<in> set ?R")
      case True
      from own_reference [OF own this] obtain g where g: "pa_to_id f = pa_to_id g" "user_frame g"
        "(\<exists>i < 768. present (dir ?m pd i) \<and> g = tab ?m pd i) \<or> (\<exists>u < 786432. vmap ?m pd u = Some g)" by metis
      have "f = g" using g(1) pa_to_id_inj [OF _ g(2), of f] f by (simp add: free_frames_def)
      then show ?thesis using g(3) by (auto simp: space_frames_def tables_def)
    next
      case False
      then have "count_list ?R (pa_to_id f) = 0" by (simp add: count_list_0_iff)
      then show ?thesis using f flag by (simp add: free_frames_def in_use_def)
    qed
  qed
  have "free_frames v \<subseteq> free_frames s"
  proof
    fix f assume f: "f \<in> free_frames v"
    have "pa_to_id f \<notin> set ?R"
    proof
      assume "pa_to_id f \<in> set ?R"
      from own_reference [OF own this] obtain g where "pa_to_id f = pa_to_id g" "in_use v g" by metis
      then show False using f by (simp add: free_frames_def in_use_def)
    qed
    then have "count_list ?R (pa_to_id f) = 0" by (simp add: count_list_0_iff)
    then show "f \<in> free_frames s" using f flag by (simp add: free_frames_def in_use_def)
  qed
  then have card: "2 + need \<le> card (free_frames s)" using enough card_mono [OF finite_free_frames] by (meson order_trans)
  note al = allocate_page_spec [OF r(4), of "0xBFFFFFFF" 1, simplified]
  obtain v' where v': "allocate_page pd 0xBFFFFFFF 1 s = Inr v'"
  proof (cases "allocate_page pd 0xBFFFFFFF 1 s")
    case (Inl e)
    with al have "add_fails pd 786431 1 s e 2" by simp
    then show thesis using vu [of 786431] card by (simp add: add_fails_def)
  qed (rule that)
  with al obtain fs where a: "adds pd 786431 s v' fs (2 * length fs)" "length fs = 1" by auto
  then obtain g where fs: "fs = [g]" by (cases fs) auto
  have gr: "grows pd s v'" and nf: "user_frame g" "\<not> in_use s g" and mf: "mapped_from (vmap (mm_mem s) pd) 786431 fs (vmap (mm_mem v') pd)"
    and cd: "card (free_frames s) \<le> 2 + card (free_frames v')"
    using a(1) by (simp_all add: adds_def new_frames_def fs)
  have vm: "vmap (mm_mem v') pd u = (if u = 786431 then Some g else None)" if "u < 786432" for u
    using mf vu [OF that] that by (auto simp: mapped_from_def fs)
  have uf: "user_frame f" if "f \<in> tables (mm_mem v') pd" for f using grows_wf [OF gr] that by (auto simp: wf_space_def)
  have "tables (mm_mem v') pd \<subseteq> tables ?m pd \<union> free_frames s" using gr r(5) uf by (auto simp: grows_def free_frames_def)
  then have fr: "space_frames (mm_mem v') pd \<union> free_frames v' \<subseteq> free_frames v \<union> space_frames ?m pd"
    using freed nf grows_in_use [OF gr] vm by (auto simp: space_frames_def free_frames_def split: if_splits)
  have "only (page (va_to_pa pd) \<union> \<Union> (page ` {f \<in> free_frames v \<union> space_frames ?m pd. user_frame f})) (mm_mem s) (mm_mem v')"
    unfolding only_def
  proof (intro allI impI)
    fix x assume x: "x \<notin> page (va_to_pa pd) \<union> \<Union> (page ` {f \<in> free_frames v \<union> space_frames ?m pd. user_frame f})"
    show "mm_mem v' x = mm_mem s x"
    proof (rule ccontr)
      assume "mm_mem v' x \<noteq> mm_mem s x"
      then obtain f where f: "user_frame f" "x \<in> page f" "f \<in> tables (mm_mem s) pd \<or> \<not> in_use s f"
        using gr x unfolding grows_def by blast
      then have "f \<in> free_frames v \<union> space_frames ?m pd" using r(5) freed by (auto simp: free_frames_def space_frames_def)
      then show False using x f(1,2) by blast
    qed
  qed
  then have "only (page (va_to_pa pd) \<union> \<Union> (page ` {f \<in> free_frames v \<union> space_frames ?m pd. user_frame f})) ?m (mm_mem v')"
    by (rule only_trans [OF only_mono [OF r(2)], rotated]) blast
  moreover have "own_pages v' pd" by (rule own_pages_adds [OF own_s a(1)]) (simp add: fs)
  ultimately show ?thesis
    using v' r(1) card cd fr vm by (intro exI [of _ v']) simp
qed

end
