(* ===== verification/UserFrame.thy ===== *)
theory UserFrame
  imports Arguments UserSpace
begin

text \<open>
  The first stack of a user program, as \<open>load_init_proc\<close> and \<open>Exec_uthread\<close> of kernel/pm.c build it word by word through
  the page tables of the new process, and the context that the first switch to it restores.
\<close>

section \<open>Words of a process\<close>

text \<open>A word as the process reads it, byte by byte through its page tables.\<close>

definition user_load :: "memory \<Rightarrow> u32 \<Rightarrow> u32 \<Rightarrow> u32" where
  "user_load m cr3 va = load32 (\<lambda>x. user_byte m cr3 x) va"

definition byte_of :: "u32 \<Rightarrow> nat \<Rightarrow> u8" where
  "byte_of w i = ucast (drop_bit (8 * i) w)"

definition word_in :: "memory \<Rightarrow> (nat \<Rightarrow> u32) \<Rightarrow> nat \<Rightarrow> u32 \<Rightarrow> bool" where
  "word_in m a p w \<longleftrightarrow> (\<forall>i < 4. m (a (p + i)) = byte_of w i)"

lemma store32_byte: "i < 4 \<Longrightarrow> store32 p w m (p + of_nat i) = byte_of w i"
  unfolding less_4 by (auto simp: store32_def byte_of_def)

lemma user_load_in:
  assumes "user_mapped m cr3 va n a" "p + 4 \<le> n" "word_in m a p w"
  shows "user_load m cr3 (va + of_nat p) = w"
proof -
  have b: "user_byte m cr3 (va + of_nat p + of_nat i) = byte_of w i" if "i < 4" for i
  proof -
    have "p + i < n" using assms(2) that by simp
    then have "translate m cr3 (va + of_nat (p + i)) = Some (a (p + i))"
      using assms(1) by (simp add: user_mapped_def del: of_nat_add)
    then show ?thesis using assms(3) that by (simp add: user_byte_def word_in_def add.assoc)
  qed
  show ?thesis
    using b [of 0] b [of 1] b [of 2] b [of 3] bytes_of_word [of w] by (simp add: user_load_def load32_def byte_of_def)
qed

section \<open>Pushing words\<close>

text \<open>The part of the stack that is written: \<open>n\<close> words from \<open>va\<close> on, at \<open>a 0, a 1, \<dots>\<close>, and the variable \<open>key\<close>.\<close>

definition stack_part :: "memory \<Rightarrow> u32 \<Rightarrow> u32 \<Rightarrow> nat \<Rightarrow> (nat \<Rightarrow> u32) \<Rightarrow> u32 \<Rightarrow> bool" where
  "stack_part m cr3 va n a key_p \<longleftrightarrow>
     user_mapped m cr3 va (4 * n) a \<and> tables_apart m cr3 va (4 * n) (a ` {..<4 * n} \<union> word_bytes (kphys key_p)) \<and>
     inj_on a {..<4 * n} \<and> (\<forall>i < 4 * n. a i \<notin> word_bytes (kphys key_p)) \<and>
     (\<forall>i < 4. kphys (key_p + of_nat i) = kphys key_p + of_nat i)"

abbreviation written :: "nat \<Rightarrow> (nat \<Rightarrow> u32) \<Rightarrow> u32 \<Rightarrow> u32 set" where
  "written n a key_p \<equiv> a ` {..<4 * n} \<union> word_bytes (kphys key_p)"

lemma stack_part_keep:
  assumes "stack_part m cr3 va n a key_p" "\<forall>x. x \<notin> written n a key_p \<longrightarrow> m' x = m x"
  shows "stack_part m' cr3 va n a key_p"
  using assms user_mapped_keep [of m cr3 va "4 * n" a "written n a key_p" m'] by (simp add: stack_part_def)

lemma push_user_spec:
  assumes st: "stack_part m cr3 va n a key_p" and k: "k < n"
  shows "\<exists>m'. push_user cr3 key_p w (va + of_nat (4 * Suc k), m) = Some (va + of_nat (4 * k), m') \<and>
    word_in m' a (4 * k) w \<and> (\<forall>x. x \<notin> written n a key_p \<longrightarrow> m' x = m x) \<and>
    (\<forall>j < 4 * n. j \<notin> {4 * k..<4 * k + 4} \<longrightarrow> m' (a j) = m (a j))"
proof -
  let ?W = "written n a key_p" and ?p = "4 * k" and ?m1 = "store32 (kphys key_p) w m"
  have inj: "inj_on a {..<4 * n}" and off: "\<forall>i < 4 * n. a i \<notin> word_bytes (kphys key_p)"
    and key: "\<And>i. i < 4 \<Longrightarrow> kphys (key_p + of_nat i) = kphys key_p + of_nat i"
    using st by (simp_all add: stack_part_def)
  have m1: "?m1 x = m x" if "x \<notin> word_bytes (kphys key_p)" for x
    using that by (intro store32_other) (auto simp: word_bytes_def)
  then have "\<forall>x. x \<notin> ?W \<longrightarrow> ?m1 x = m x" by simp
  from stack_part_keep [OF st this] have um: "user_mapped ?m1 cr3 va (4 * n) a" "tables_apart ?m1 cr3 va (4 * n) ?W"
    by (simp_all add: stack_part_def)
  have id: "\<forall>x. x \<notin> ?W \<longrightarrow> ?m1 x = ?m1 x" by simp
  have p: "?p < 4 * n" "4 \<le> 4 * n - ?p" using k by simp_all
  note at = user_mapped_step [OF um id p(1)]
  let ?b = "\<lambda>i. a (?p + i)"
  have sub: "?b ` {..<4} \<subseteq> ?W" using k by auto
  have c: "user_mapped ?m1 cr3 (va + of_nat ?p) (unat (4 :: u32)) ?b" "tables_apart ?m1 cr3 (va + of_nat ?p) (unat (4 :: u32)) (?b ` {..<unat (4 :: u32)})"
    using user_mapped_mono [OF at(1) p(2)] tables_apart_mono [OF at(2) p(2) sub] by simp_all
  define m' where "m' = copy_bytes ?b (\<lambda>i. kphys (key_p + of_nat i)) 4 ?m1"
  have cf: "copy_from_kernel cr3 (va + of_nat ?p) key_p 4 ?m1 = Some m'"
    using copy_from_pages_spec [OF c, of key_p] by (simp add: copy_from_kernel_def Let_def m'_def)
  have sp: "va + of_nat (4 * Suc k) - 4 = va + of_nat ?p" by simp
  have "inj_on ?b {..<4}"
  proof (rule inj_onI)
    fix x y assume "x \<in> {..<4 :: nat}" "y \<in> {..<4 :: nat}" "?b x = ?b y"
    then show "x = y" using inj_onD [OF inj, of "?p + x" "?p + y"] k by simp
  qed
  moreover have "\<forall>i < 4. \<forall>j < 4. ?b i \<noteq> kphys (key_p + of_nat j)"
    using off k key by (auto simp: word_bytes_nth)
  ultimately have "m' (?b i) = byte_of w i" if "i < 4" for i
    using copy_bytes_at [of ?b 4 "\<lambda>i. kphys (key_p + of_nat i)" i ?m1] that key store32_byte by (simp add: m'_def)
  then have win: "word_in m' a ?p w" by (simp add: word_in_def)
  have oth: "m' x = ?m1 x" if "\<forall>i < 4. x \<noteq> ?b i" for x
    unfolding m'_def using that by (rule copy_bytes_other)
  have keep: "m' x = m x" if "x \<notin> ?W" for x
  proof -
    have "\<forall>i < 4. x \<noteq> ?b i" using that sub by blast
    then have "m' x = ?m1 x" by (rule oth)
    also have "\<dots> = m x" by (rule m1) (use that in simp)
    finally show ?thesis .
  qed
  have old: "m' (a j) = m (a j)" if "j < 4 * n" "j \<notin> {?p..<?p + 4}" for j
  proof -
    have "a j \<noteq> ?b i" if "i < 4" for i
    proof
      assume "a j = ?b i"
      then have "j = ?p + i" using inj_onD [OF inj, of j "?p + i"] k \<open>j < 4 * n\<close> that by simp
      then show False using \<open>j \<notin> {?p..<?p + 4}\<close> that by simp
    qed
    then have "m' (a j) = ?m1 (a j)" by (intro oth) simp
    also have "\<dots> = m (a j)" by (rule m1) (use off that(1) in simp)
    finally show ?thesis .
  qed
  have "push_user cr3 key_p w (va + of_nat (4 * Suc k), m) = Some (va + of_nat ?p, m')"
    unfolding push_user_def prod.case sp cf by simp
  then show ?thesis using win keep old by (intro exI [of _ m'] conjI allI impI) blast+
qed

lemma push_all_spec:
  assumes "stack_part m cr3 va n a key_p" "length ks \<le> k" "k \<le> n"
  shows "\<exists>m'. push_all cr3 key_p ks (va + of_nat (4 * k), m) = Some (va + of_nat (4 * (k - length ks)), m') \<and>
    (\<forall>i < length ks. word_in m' a (4 * (k - Suc i)) (ks ! i)) \<and>
    (\<forall>x. x \<notin> written n a key_p \<longrightarrow> m' x = m x) \<and>
    (\<forall>j < 4 * n. 4 * k \<le> j \<longrightarrow> m' (a j) = m (a j))"
  using assms
proof (induction ks arbitrary: k m)
  case Nil
  then show ?case by simp
next
  case (Cons w ks)
  then obtain l where k: "k = Suc l" by (cases k) auto
  then have l: "l < n" "length ks \<le> l" "l \<le> n" using Cons.prems by simp_all
  obtain m1 where m1: "push_user cr3 key_p w (va + of_nat (4 * Suc l), m) = Some (va + of_nat (4 * l), m1)"
    "word_in m1 a (4 * l) w" "\<forall>x. x \<notin> written n a key_p \<longrightarrow> m1 x = m x"
    "\<forall>j < 4 * n. j \<notin> {4 * l..<4 * l + 4} \<longrightarrow> m1 (a j) = m (a j)"
    using push_user_spec [OF Cons.prems(1) l(1)] by blast
  from Cons.IH [OF stack_part_keep [OF Cons.prems(1) m1(3)] l(2,3)] obtain m' where
    ih: "push_all cr3 key_p ks (va + of_nat (4 * l), m1) = Some (va + of_nat (4 * (l - length ks)), m')"
      "\<forall>i < length ks. word_in m' a (4 * (l - Suc i)) (ks ! i)"
      "\<forall>x. x \<notin> written n a key_p \<longrightarrow> m' x = m1 x" "\<forall>j < 4 * n. 4 * l \<le> j \<longrightarrow> m' (a j) = m1 (a j)" by blast
  have "word_in m' a (4 * l) w" using m1(2) ih(4) l(1) by (simp add: word_in_def)
  then have "\<forall>i < length (w # ks). word_in m' a (4 * (k - Suc i)) ((w # ks) ! i)"
    using ih(2) by (auto simp: k less_Suc_eq_0_disj)
  then show ?case using m1(1,3,4) ih(1,3,4)
    by (intro exI [of _ m']) (simp add: k del: of_nat_mult of_nat_Suc of_nat_add)
qed

section \<open>The first frame\<close>

lemma user_frame_spec:
  assumes "stack_part m cr3 (sp - 56) 14 a (pm_key A)"
  shows "\<exists>m'. user_frame A cr3 eip (sp, m) = Some (sp - 56, m') \<and>
    restore_context (user_load m' cr3) (sp - 56) = kthread_context eip (sp - 4) \<and>
    user_load m' cr3 (sp - 4) = asm_do_int80_exit A \<and>
    (\<forall>x. x \<notin> written 14 a (pm_key A) \<longrightarrow> m' x = m x)"
proof -
  let ?va = "sp - 56" and ?ks = "[asm_do_int80_exit A, push_bit 9 1, 8, eip] @ replicate 9 0"
  have len: "length ?ks = 13" by simp
  have top: "?va + of_nat (4 * 14) = sp" by simp
  from push_all_spec [OF assms, of ?ks 14] obtain m1 where
    m1: "push_all cr3 (pm_key A) ?ks (sp, m) = Some (?va + of_nat (4 * (14 - 13)), m1)"
      "\<forall>i < 13. word_in m1 a (4 * (14 - Suc i)) (?ks ! i)" "\<forall>x. x \<notin> written 14 a (pm_key A) \<longrightarrow> m1 x = m x"
    unfolding len top by auto
  have st1: "stack_part m1 cr3 ?va 14 a (pm_key A)" by (rule stack_part_keep [OF assms m1(3)])
  obtain m' where m': "push_user cr3 (pm_key A) (?va + 4) (?va + of_nat (4 * Suc 0), m1) = Some (?va + of_nat (4 * 0), m')"
    "word_in m' a (4 * 0) (?va + 4)" "\<forall>x. x \<notin> written 14 a (pm_key A) \<longrightarrow> m' x = m1 x"
    "\<forall>j < 4 * 14. j \<notin> {4 * 0..<4 * 0 + 4} \<longrightarrow> m' (a j) = m1 (a j)"
    using push_user_spec [OF st1, of 0 "?va + 4"] by auto
  have run: "user_frame A cr3 eip (sp, m) = Some (sp - 56, m')"
    using m1(1) m'(1) by (simp add: user_frame_def)
  have um: "user_mapped m' cr3 ?va 56 a" using stack_part_keep [OF st1 m'(3)] by (simp add: stack_part_def)
  have w: "user_load m' cr3 (?va + of_nat (4 * (13 - i))) = ?ks ! i" if i: "i < 13" for i
  proof (rule user_load_in [OF um])
    show "4 * (13 - i) + 4 \<le> 56" using i by simp
    have "14 - Suc i = 13 - i" by simp
    then have "word_in m1 a (4 * (13 - i)) (?ks ! i)" using m1(2) i by metis
    moreover have "m' (a (4 * (13 - i) + j)) = m1 (a (4 * (13 - i) + j))" if "j < 4" for j
      using m'(4) i that by simp
    ultimately show "word_in m' a (4 * (13 - i)) (?ks ! i)" by (simp add: word_in_def)
  qed
  have w0: "user_load m' cr3 ?va = ?va + 4" using user_load_in [OF um _ m'(2)] by simp
  have r: "user_load m' cr3 (sp - 4) = asm_do_int80_exit A" "user_load m' cr3 (sp - 8) = 0x200" "user_load m' cr3 (sp - 12) = 8"
    "user_load m' cr3 (sp - 16) = eip" "user_load m' cr3 (sp - 20) = 0" "user_load m' cr3 (sp - 24) = 0"
    "user_load m' cr3 (sp - 28) = 0" "user_load m' cr3 (sp - 32) = 0" "user_load m' cr3 (sp - 36) = 0"
    "user_load m' cr3 (sp - 40) = 0" "user_load m' cr3 (sp - 44) = 0" "user_load m' cr3 (sp - 48) = 0" "user_load m' cr3 (sp - 52) = 0"
    using w [of 0] w [of 1] w [of 2] w [of 3] w [of 4] w [of 5] w [of 6] w [of 7] w [of 8] w [of 9] w [of 10] w [of 11] w [of 12]
    by (simp_all add: numeral_eq_Suc)
  have "restore_context (user_load m' cr3) (sp - 56) = kthread_context eip (sp - 4)"
    using r w0 by (simp add: restore_context_def kthread_context_def Let_def numeral_eq_Suc)
  then show ?thesis using run r(1) m1(3) m'(3) by auto
qed

text \<open>The words that \<open>load_init_proc\<close> and \<open>Exec_uthread\<close> push below \<open>sp\<close> are what the context switch pops: the first
  switch to the new program, which reads through the program's own page tables, continues at its entry point in the
  kernel's code segment with cleared registers and interrupts on, with a stack whose top word is the return
  address, the routine that ends the process; nothing outside this part of the stack and the variable \<open>key\<close> changes.\<close>

theorem user_frame_starts_program:
  assumes "stack_part m cr3 (sp - 56) 14 a (pm_key A)"
  shows "\<exists>m'. user_frame A cr3 eip (sp, m) = Some (sp - 56, m') \<and>
    restore_context (user_load m' cr3) (sp - 56) = kthread_context eip (sp - 4) \<and>
    user_load m' cr3 (sp - 4) = asm_do_int80_exit A \<and>
    (\<forall>x. x \<notin> written 14 a (pm_key A) \<longrightarrow> m' x = m x)"
  using assms by (rule user_frame_spec)

text \<open>The memory of \<open>args_memory\<close>: the page at \<open>0x8000\<close> lies in frame \<open>5\<close>; the program starts at \<open>0x1234\<close>.\<close>

definition frame_addrs :: pm_addrs where
  "frame_addrs = args_addrs\<lparr>pm_key := 0xC0200000, asm_do_int80_exit := 0xC0004000\<rparr>"

lemma args_stack: "stack_part args_memory 0x1000 0x8000 14 (\<lambda>i. 0x5000 + of_nat i) (pm_key frame_addrs)"
proof -
  let ?a = "\<lambda>i. 0x5000 + of_nat i :: u32" and ?key = "pm_key frame_addrs"
  have u: "unat (?a i) = 0x5000 + i" if "i < 56" for i
    using that by (simp add: unat_word_ariths unat_of_nat)
  have key: "kphys (?key + of_nat i) = kphys ?key + of_nat i" if "i < 4" for i
    using that unfolding less_4 by (auto simp: frame_addrs_def kphys_def va_to_pa_def in_kernel_def KOFFSET_def)
  have high: "0x100000 \<le> unat x" if "x \<in> word_bytes (kphys ?key)" for x
    using that by (auto simp: frame_addrs_def kphys_def va_to_pa_def in_kernel_def KOFFSET_def word_bytes_def)
  have low: "x \<notin> written 14 ?a ?key" if "unat x < 0x5000" for x
    using that u high [of x] by fastforce
  have small: "i < Buffer_Size" if "i < 56" for i using that by (simp add: Buffer_Size_def)
  have "user_mapped args_memory 0x1000 0x8000 56 ?a"
    using user_mapped_mono [OF args_ok(2), of 56] by (simp add: Buffer_Size_def)
  moreover have "tables_apart args_memory 0x1000 0x8000 56 (written 14 ?a ?key)"
    unfolding tables_apart_def using low args_walk(1,2) [OF small] by (simp add: word_bytes_def disjoint_iff)
  moreover have "inj_on ?a {..<56}" by (rule inj_onI) (use u in \<open>metis lessThan_iff add_left_cancel\<close>)
  moreover have "?a i \<notin> word_bytes (kphys ?key)" if "i < 56" for i using high [of "?a i"] u [OF that] that by auto
  ultimately show ?thesis using key by (simp add: stack_part_def)
qed

theorem user_frame_starts_program_witness:
  "\<exists>m'. user_frame frame_addrs 0x1000 0x1234 (0x8038, args_memory) = Some (0x8000, m') \<and>
     restore_context (user_load m' 0x1000) 0x8000 = kthread_context 0x1234 0x8034 \<and>
     user_load m' 0x1000 0x8034 = 0xC0004000"
proof -
  have "stack_part args_memory 0x1000 (0x8038 - 56) 14 (\<lambda>i. 0x5000 + of_nat i) (pm_key frame_addrs)"
    using args_stack by simp
  from user_frame_starts_program [OF this] show ?thesis by (fastforce simp: frame_addrs_def)
qed

end
