(* ===== verification/Rpc.thy ===== *)
theory Rpc
  imports Server
begin

text \<open>
  Requests and answers between processes: what may change while a process waits for an answer, and the schedule in
  which a request is served at once, with \<open>send\<close> and \<open>receive\<close> of kernel/message.c on both sides.
\<close>

section \<open>Changes of mail\<close>

text \<open>What may change while a server waits for an answer, besides memory: the mail of the processes \<open>D\<close>.\<close>

definition mail_change :: "nat set \<Rightarrow> sys \<Rightarrow> sys \<Rightarrow> bool" where
  "mail_change D s s' \<longleftrightarrow> length (Proc s') = length (Proc s) \<and> current_pcb s' = current_pcb s \<and>
     Proc_addr s' = Proc_addr s \<and> kpagedir_addr s' = kpagedir_addr s \<and> con s' = con s \<and>
     enter_interrupt (cpu s') = enter_interrupt (cpu s) \<and>
     (\<forall>j. j \<notin> D \<longrightarrow> proc s' j = proc s j) \<and> (\<forall>j. mail_eq (proc s j) (proc s' j))"

lemma mail_change_refl [simp]: "mail_change D s s"
  by (simp add: mail_change_def)

lemma mail_change_mem [simp]: "mail_change D s (s'\<lparr>mem := m\<rparr>) = mail_change D s s'" "mail_change D (s\<lparr>mem := m\<rparr>) s' = mail_change D s s'"
  by (simp_all add: mail_change_def)

lemma mail_change_trans: "mail_change D s s1 \<Longrightarrow> mail_change D s1 s2 \<Longrightarrow> mail_change D s s2"
  unfolding mail_change_def by (metis mail_eq_trans)

lemma mail_change_addr: "mail_change D s s' \<Longrightarrow> pcb_addr s' i = pcb_addr s i" "mail_change D s s' \<Longrightarrow> pagedir_addr s' i = pagedir_addr s i"
  by (simp_all add: mail_change_def pcb_addr_def pagedir_addr_def)

lemma mail_change_cr3: "mail_change D s s' \<Longrightarrow> p_cr3 (proc s' i) = p_cr3 (proc s i)"
  using mail_eqD(7) by (auto simp: mail_change_def)

lemma mail_change_status: "mail_change D s s' \<Longrightarrow> p_status (proc s' i) = p_status (proc s i)"
  using mail_eqD(1) by (auto simp: mail_change_def)

lemma mail_change_table:
  assumes "mail_change D s s'" "proc_table_ok s l"
  shows "proc_table_ok s' l"
  by (rule proc_table_ok_cong [OF assms(2)]) (use assms(1) mail_eqD in \<open>auto simp: mail_change_def\<close>)

text \<open>The processes of \<open>D\<close> have no messages, and the processor is not in an interrupt.\<close>

definition quiet :: "nat set \<Rightarrow> sys \<Rightarrow> bool" where
  "quiet D s \<longleftrightarrow> (\<forall>j \<in> D. box s j [] [] [] 0) \<and> enter_interrupt (cpu s) \<noteq> 1"

section \<open>A request that is served at once\<close>

text \<open>The request of process \<open>c\<close> to server \<open>t\<close> in the schedule where the server runs next and nothing else does: \<open>c\<close>
  sends, \<open>t\<close> receives and handles the message, and \<open>c\<close> receives the answer. \<open>None\<close> is a process left waiting.\<close>

definition rpc :: "(message \<Rightarrow> 'x \<times> sys \<Rightarrow> (error + 'x \<times> sys) option) \<Rightarrow> nat \<Rightarrow> nat \<Rightarrow> message \<Rightarrow> 'x \<times> sys \<Rightarrow>
    (error + message \<times> 'x \<times> sys) option" where
  "rpc handler c t m = (\<lambda>(x, s).
     bindR (Some (send (int t) m s)) (\<lambda>s.
     bindR (receive ANY (s\<lparr>current_pcb := t\<rparr>)) (\<lambda>out.
     case out of
       Asleep s \<Rightarrow> None
     | Received m s \<Rightarrow>
         bindR (handler m (x, s)) (\<lambda>(x, s).
         bindR (receive (int t) (s\<lparr>current_pcb := c\<rparr>)) (\<lambda>out.
         case out of Asleep s \<Rightarrow> None | Received m s \<Rightarrow> Some (Inr (m, x, s)))))))"

definition call_now :: "(message \<Rightarrow> 'x \<times> sys \<Rightarrow> (error + 'x \<times> sys) option) \<Rightarrow> nat \<Rightarrow>
    int \<Rightarrow> message \<Rightarrow> 'x \<times> sys \<Rightarrow> error + message \<times> 'x \<times> sys" where
  "call_now handler c t m st =
     (case rpc handler c (nat t) m st of None \<Rightarrow> Inl (Fault ''no answer'') | Some r \<Rightarrow> r)"

lemma box_current [simp]: "box (s\<lparr>current_pcb := c\<rparr>) = box s"
  by (simp add: box_def fun_eq_iff)

lemma box_mem [simp]: "box (s\<lparr>mem := m\<rparr>) = box s"
  by (simp add: box_def fun_eq_iff)

lemma box_frame: "mail_frame c s s' \<Longrightarrow> t \<noteq> c \<Longrightarrow> box s t R I T k \<Longrightarrow> box s' t R I T k"
  by (simp add: box_def mail_frame_def)

lemma mail_frame_cr3: "mail_frame c s s' \<Longrightarrow> p_cr3 (proc s' j) = p_cr3 (proc s j)"
  by (cases "j = c") (auto simp: mail_frame_def mail_eqD(7))

text \<open>The message that a lone receiver takes.\<close>

lemma receive_one:
  assumes b: "box s c [n] [] [] 1" and c: "current_pcb s = c" and m: "slot_msgs (proc s c) [n] = [m]" "accepts pid m"
  obtains s' where "receive pid s = Some (Inr (Received m s'))" "box s' c [] [] [] 0" "mail_frame c s s'"
proof -
  have "box s (current_pcb s) [n] [] [] (length [n])" using b c by simp
  from receive_spec [OF this, of pid] have "delivers s (receive pid s) (Some m, [], [])"
    using m c by (simp add: deliver_def slot_msgs_def)
  then obtain s' R I where r: "receive pid s = Some (Inr (Received m s'))" "box s' c R I [] (length R)"
      "slot_msgs (proc s' c) R = []" "slot_msgs (proc s' c) I = []" "mail_frame c s s'"
    using c by (auto simp: delivers_def)
  then have "R = []" "I = []" by (simp_all add: slot_msgs_def)
  then show thesis using that r by simp
qed

text \<open>A step on the mailbox of \<open>t\<close> is a change of mail.\<close>

lemma mail_frame_change: "mail_frame t s s' \<Longrightarrow> t \<in> D \<Longrightarrow> mail_change D s s'"
  unfolding mail_frame_def mail_change_def by (metis mail_eq_simps(1))

lemma mail_frame_quiet: "mail_frame t s s' \<Longrightarrow> box s' t [] [] [] 0 \<Longrightarrow> quiet (D - {t}) s \<Longrightarrow> quiet D s'"
  unfolding quiet_def by (metis (no_types, lifting) DiffI box_frame mail_frame_def singletonD)

lemma quiet_current [simp]: "quiet D (s\<lparr>current_pcb := c\<rparr>) = quiet D s" "quiet D (s\<lparr>mem := m\<rparr>) = quiet D s"
  by (simp_all add: quiet_def)

lemma quiet_mono: "quiet D s \<Longrightarrow> C \<subseteq> D \<Longrightarrow> quiet C s"
  by (auto simp: quiet_def)

text \<open>A request from \<open>c\<close> to \<open>t\<close>: if the handler, run by \<open>t\<close> on a quiet system, ends with one answer \<open>r\<close> to \<open>c\<close> and leaves
  the system quiet, then \<open>c\<close> gets this answer, and what the handler did has happened.\<close>

lemma rpc_quiet:
  assumes q: "quiet D s" "c \<in> D" "t \<in> D" "c \<noteq> t" and cur: "current_pcb s = c"
    and h: "\<And>s1. quiet D s1 \<Longrightarrow> mem s1 = mem s \<Longrightarrow> mail_change D (s\<lparr>current_pcb := t\<rparr>) s1 \<Longrightarrow>
      \<exists>r x' s2. handler (m\<lparr>m_src := int c, m_dest := int t\<rparr>) (x, s1) = Some (reply (int c) r (x', s2)) \<and>
        quiet D s2 \<and> mail_change D s1 s2 \<and> Q r x' (mem s2)"
  shows "\<exists>r x' s'. rpc handler c t m (x, s) = Some (Inr (r\<lparr>m_src := int t, m_dest := int c\<rparr>, x', s')) \<and>
    quiet D s' \<and> mail_change D s s' \<and> Q r x' (mem s')"
proof -
  have ct: "box s c [] [] [] 0" "box s t [] [] [] 0" "enter_interrupt (cpu s) \<noteq> 1"
    using q by (simp_all add: quiet_def)
  have room: "length ([] @ [] @ []) \<noteq> Max_Message_Pool" by (simp add: Max_Message_Pool_def)
  have pid: "p_pid (proc s c) = int c" using ct(1) by (simp add: box_def)
  let ?m = "m\<lparr>m_src := int c, m_dest := int t\<rparr>"
  obtain n s1 where s1: "send (int t) m s = Inr s1" "box s1 t ([] @ [n]) [] [] (Suc 0)" "mail_frame t s s1"
    "slot_msgs (proc s1 t) ([] @ [n]) = slot_msgs (proc s t) [] @ [stamped s (int t) m]"
    by (rule send_box [OF ct(2) room])
  have st1: "stamped s (int t) m = ?m" using ct(3) cur pid by (simp add: stamped_def)
  let ?s1 = "s1\<lparr>current_pcb := t\<rparr>"
  have b1: "box ?s1 t [n] [] [] 1" "slot_msgs (proc ?s1 t) [n] = [?m]" using s1(2,4) st1 by (simp_all add: slot_msgs_def)
  obtain s2 where s2: "receive ANY ?s1 = Some (Inr (Received ?m s2))" "box s2 t [] [] [] 0" "mail_frame t ?s1 s2"
    by (rule receive_one [OF b1(1) _ b1(2), of ANY]) (simp_all add: accepts_def)
  have mf2: "mail_frame t (s\<lparr>current_pcb := t\<rparr>) s2"
    by (rule mail_frame_trans [OF _ s2(3)]) (use s1(3) in \<open>simp add: mail_frame_def\<close>)
  have q2: "quiet D s2" by (rule mail_frame_quiet [OF mf2 s2(2)]) (use quiet_mono [OF q(1), of "D - {t}"] in auto)
  have mc2: "mail_change D (s\<lparr>current_pcb := t\<rparr>) s2" by (rule mail_frame_change [OF mf2 q(3)])
  have "mem s2 = mem s" using mf2 by (simp add: mail_frame_def)
  from h [OF q2 this mc2] obtain r x' s3 where s3: "handler ?m (x, s2) = Some (reply (int c) r (x', s3))"
    "quiet D s3" "mail_change D s2 s3" "Q r x' (mem s3)" by blast
  have "box s3 c [] [] [] 0" using s3(2) q(2) by (simp add: quiet_def)
  then obtain k s4 where s4: "send (int c) r s3 = Inr s4" "box s4 c ([] @ [k]) [] [] (Suc 0)" "mail_frame c s3 s4"
    "slot_msgs (proc s4 c) ([] @ [k]) = slot_msgs (proc s3 c) [] @ [stamped s3 (int c) r]"
    by (rule send_box [OF _ room])
  have c3: "current_pcb s3 = t" "enter_interrupt (cpu s3) \<noteq> 1" "p_pid (proc s3 t) = int t"
    using mc2 s3(2,3) q(3) by (simp_all add: mail_change_def quiet_def box_def)
  let ?r = "r\<lparr>m_src := int t, m_dest := int c\<rparr>"
  have st4: "stamped s3 (int c) r = ?r" using c3 by (simp add: stamped_def)
  have h4: "handler ?m (x, s2) = Some (Inr (x', s4))" using s3(1) s4(1) by (simp add: reply_def)
  let ?s4 = "s4\<lparr>current_pcb := c\<rparr>"
  have b4: "box ?s4 c [k] [] [] 1" "slot_msgs (proc ?s4 c) [k] = [?r]" using s4(2,4) st4 by (simp_all add: slot_msgs_def)
  obtain s5 where s5: "receive (int t) ?s4 = Some (Inr (Received ?r s5))" "box s5 c [] [] [] 0" "mail_frame c ?s4 s5"
    by (rule receive_one [OF b4(1) _ b4(2), of "int t"]) (simp_all add: accepts_def)
  have mf5: "mail_frame c (s3\<lparr>current_pcb := c\<rparr>) s5"
    by (rule mail_frame_trans [OF _ s5(3)]) (use s4(3) in \<open>simp add: mail_frame_def\<close>)
  have q5: "quiet D s5" by (rule mail_frame_quiet [OF mf5 s5(2)]) (use quiet_mono [OF s3(2), of "D - {c}"] in auto)
  have "mail_change D (s\<lparr>current_pcb := t\<rparr>) s3" by (rule mail_change_trans [OF mc2 s3(3)])
  then have "mail_change D s (s3\<lparr>current_pcb := c\<rparr>)" using cur by (simp add: mail_change_def)
  then have "mail_change D s s5" using mail_frame_change [OF mf5 q(2)] by (rule mail_change_trans)
  moreover have "mem s5 = mem s3" using mf5 by (simp add: mail_frame_def)
  moreover have "rpc handler c t m (x, s) = Some (Inr (?r, x', s5))" using s1(1) s2(1) h4 s5(1) by (simp add: rpc_def)
  ultimately show ?thesis using q5 s3(4) by auto
qed

end
