(* ===== verification/FileService.thy ===== *)
theory FileService
  imports Fm IdeServer Rpc
begin

text \<open>
  A request for a file, through all the parts that serve it: the file server asks the disk driver by message, the driver
  reads the device through its cache, writes through the page tables of the file server and answers by message. The
  disk holds the image that the image tool has written.
\<close>

section \<open>A file from the disk\<close>

text \<open>Two processes without messages.\<close>

definition at_rest :: "nat \<Rightarrow> nat \<Rightarrow> sys \<Rightarrow> bool" where
  "at_rest c t s \<longleftrightarrow> c \<noteq> t \<and> box s c [] [] [] 0 \<and> box s t [] [] [] 0 \<and> enter_interrupt (cpu s) \<noteq> 1"

text \<open>The driver's work on a read request, up to the answer.\<close>

lemma ide_read_work:
  assumes a: "ata_drive dev idle disk" "idle d" "cache_ok cache (disk d)"
    and n: "n = unat (dev_length m)" "m_type m = DEV_READ" "m_src m = int c"
    and map: "user_mapped (mem s) (p_cr3 (proc s c)) (dev_buf m) n a"
      "tables_apart (mem s) (p_cr3 (proc s c)) (dev_buf m) n (a ` {..<n} \<union> word_bytes (kphys data_p))"
      "inj_on a {..<n}" "\<forall>i < n. a i \<notin> word_bytes (kphys data_p)"
  obtains M cache' e where
    "\<And>s1. mem s1 = mem s \<Longrightarrow> p_cr3 (proc s1 c) = p_cr3 (proc s c) \<Longrightarrow> c < length (Proc s1) \<Longrightarrow>
      ide_message dev data_p m ((cache, d), s1) =
        Some (reply (int c) (m\<lparr>m_type := -1, m_w0 := dev_length m\<rparr>) ((cache', e), s1\<lparr>mem := M\<rparr>))"
    "\<forall>j < n. M (a j) = device_byte cache (disk d) (dev_offset m + of_nat j)"
    "\<forall>x. x \<notin> a ` {..<n} \<union> word_bytes (kphys data_p) \<longrightarrow> M x = mem s x"
    "idle e" "cache_ok cache' (disk e)" "device_byte cache' (disk e) = device_byte cache (disk d)"
proof -
  have z: "0 + n = n" by simp
  from read_loop_spec [OF a(1) map(3,4) refl z map(1,2) a(2,3), of "dev_offset m"]
  obtain M cache' e where l: "read_loop dev (p_cr3 (proc s c)) data_p (dev_buf m) (dev_offset m) n 0 (mem s, cache, d) =
      Some (Inr (M, cache', e))" "idle e" "cache_ok cache' (disk e)"
      "device_byte cache' (disk e) = device_byte cache (disk d)"
      "\<forall>i < n. M (a i) = device_byte cache (disk d) (dev_offset m + of_nat i)"
      "\<forall>x. x \<notin> a ` {..<n} \<union> word_bytes (kphys data_p) \<longrightarrow> M x = mem s x"
    by auto
  show thesis
  proof (rule that [OF _ l(5,6,2-4)])
    fix s1 assume "mem s1 = mem s" "p_cr3 (proc s1 c) = p_cr3 (proc s c)" "c < length (Proc s1)"
    then show "ide_message dev data_p m ((cache, d), s1) =
        Some (reply (int c) (m\<lparr>m_type := -1, m_w0 := dev_length m\<rparr>) ((cache', e), s1\<lparr>mem := M\<rparr>))"
      using l(1) n fetch_pcb_ok [of c s1] by (simp add: ide_message_def not_hard_intr)
  qed
qed

text \<open>Where the bytes of a request for reading lie on the disk: only \<open>FM_READ_FILE\<close> looks at the name of the file.\<close>

definition disk_place :: "message \<Rightarrow> u32" where
  "disk_place m = fm_offset m + Kernel_Size + (if m_type m = FM_READ_FILE then (fm_file_name m - 1) * File_Size else 0)"

text \<open>The file server's work on a request for reading, up to its answer: the request to the driver is served at once, and its
  bytes, here \<open>b 0, b 1, \<dots>\<close>, are in the buffer.\<close>

lemma file_read_work:
  assumes q: "quiet D s" "nat FM \<in> D" "nat IDE \<in> D" "current_pcb s = nat FM"
    and drive: "ata_drive dev idle disk" "idle d" "cache_ok cache (disk d)"
    and m: "m_type m = FM_READ_FILE \<or> m_type m = FM_READ" "m_src m = int t" "unat (fm_length m) = n"
    and bytes: "\<forall>j < n. device_byte cache (disk d) (disk_place m + of_nat j) = b j"
    and map: "user_mapped (mem s) (p_cr3 (proc s (nat FM))) (fm_buf m) n a"
      "tables_apart (mem s) (p_cr3 (proc s (nat FM))) (fm_buf m) n (a ` {..<n} \<union> word_bytes (kphys data_p))"
      "inj_on a {..<n}" "\<forall>j < n. a j \<notin> word_bytes (kphys data_p)"
  shows "\<exists>cache' e s'. fm_message m0 (call_now (ide_message dev data_p) (nat FM)) FM m ((cache, d), s) =
      reply (int t) (m\<lparr>m_w0 := fm_length m, m_type := -1\<rparr>) ((cache', e), s') \<and>
    quiet D s' \<and> mail_change D s s' \<and> (\<forall>j < n. mem s' (a j) = b j) \<and>
    (\<forall>x. x \<notin> a ` {..<n} \<union> word_bytes (kphys data_p) \<longrightarrow> mem s' x = mem s x) \<and>
    idle e \<and> cache_ok cache' (disk e) \<and> device_byte cache' (disk e) = device_byte cache (disk d)"
proof -
  let ?c = "nat FM" and ?t = "nat IDE" and ?ide = "ide_message dev data_p"
  have ids: "int ?c = FM" "int ?t = IDE" "of_int FM = (4 :: u32)" "?c \<noteq> ?t" by (simp_all add: FM_def IDE_def)
  define req where "req = m0\<lparr>m_type := DEV_READ, m_w0 := of_int FM, m_w1 := fm_buf m,
     m_w2 := disk_place m, m_w3 := fm_length m\<rparr>"
  define rm where "rm = req\<lparr>m_src := int ?c, m_dest := int ?t\<rparr>"
  have rm: "n = unat (dev_length rm)" "m_type rm = DEV_READ" "m_src rm = int ?c" "dev_buf rm = fm_buf m"
    "dev_offset rm = disk_place m" "dev_length rm = fm_length m"
    using m(3) by (simp_all add: rm_def req_def dev_length_def dev_buf_def dev_offset_def)
  from ide_read_work [OF drive rm(1-3) map [folded rm(4)]] obtain M cache' e where w:
    "\<And>s1. mem s1 = mem s \<Longrightarrow> p_cr3 (proc s1 ?c) = p_cr3 (proc s ?c) \<Longrightarrow> ?c < length (Proc s1) \<Longrightarrow>
      ?ide rm ((cache, d), s1) = Some (reply (int ?c) (rm\<lparr>m_type := -1, m_w0 := dev_length rm\<rparr>) ((cache', e), s1\<lparr>mem := M\<rparr>))"
    "\<forall>j < n. M (a j) = device_byte cache (disk d) (dev_offset rm + of_nat j)"
    "\<forall>x. x \<notin> a ` {..<n} \<union> word_bytes (kphys data_p) \<longrightarrow> M x = mem s x"
    "idle e" "cache_ok cache' (disk e)" "device_byte cache' (disk e) = device_byte cache (disk d)"
    by metis
  have len: "?c < length (Proc s)" using q(1,2) by (simp add: quiet_def box_def)
  have work: "\<exists>r x' s2. ?ide rm ((cache, d), s1) = Some (reply (int ?c) r (x', s2)) \<and>
      quiet D s2 \<and> mail_change D s1 s2 \<and> int_p1 r = fm_length m \<and> x' = (cache', e) \<and> mem s2 = M"
    if "quiet D s1" "mem s1 = mem s" "mail_change D (s\<lparr>current_pcb := ?t\<rparr>) s1" for s1
  proof -
    have "p_cr3 (proc s1 ?c) = p_cr3 (proc s ?c)" "?c < length (Proc s1)"
      using mail_change_cr3 [OF that(3), of ?c] that(3) len by (simp_all add: mail_change_def)
    note e = w(1) [OF that(2) this]
    show ?thesis unfolding e using that(1) rm(6)
      by (intro exI [of _ "rm\<lparr>m_type := -1, m_w0 := dev_length rm\<rparr>"] exI [of _ "(cache', e)"] exI [of _ "s1\<lparr>mem := M\<rparr>"])
        (simp add: int_p1_def)
  qed
  have "\<exists>r x' s'. rpc ?ide ?c ?t req ((cache, d), s) = Some (Inr (r\<lparr>m_src := int ?t, m_dest := int ?c\<rparr>, x', s')) \<and>
      quiet D s' \<and> mail_change D s s' \<and> int_p1 r = fm_length m \<and> x' = (cache', e) \<and> mem s' = M"
    by (rule rpc_quiet [OF q(1-3) ids(4) q(4)]) (rule work [unfolded rm_def])
  then obtain r s' where r: "rpc ?ide ?c ?t req ((cache, d), s) = Some (Inr (r\<lparr>m_src := int ?t, m_dest := int ?c\<rparr>, (cache', e), s'))"
    "quiet D s'" "mail_change D s s'" "int_p1 r = fm_length m" "mem s' = M" by blast
  have "call_now ?ide ?c IDE req ((cache, d), s) = Inr (r\<lparr>m_src := int ?t, m_dest := int ?c\<rparr>, (cache', e), s')"
    using r(1) by (simp add: call_now_def)
  then have fm: "fm_message m0 (call_now ?ide ?c) FM m ((cache, d), s) =
      reply (int t) (m\<lparr>m_w0 := fm_length m, m_type := -1\<rparr>) ((cache', e), s')"
    using m(1,2) r(4)
    by (auto simp: fm_message_def do_read_file_def fm_do_read_def req_def disk_place_def int_p1_def fm_numbers)
  have "M (a j) = b j" if j: "j < n" for j using w(2) bytes j rm(5) by simp
  then show ?thesis using fm r(2,3,5) w(3-6) by blast
qed

text \<open>C34: A file request end to end. The disk shows the image that the image tool made of some files (through whatever the
  cache holds); process \<open>t\<close> has asked the file server for \<open>n\<close> bytes of file \<open>i\<close> from place \<open>k\<close>. Then the server's request to
  the driver, the driver's reading, and both answers go through: the buffer holds exactly these bytes of the file, no
  byte of memory but the buffer and the driver's variable changes, the disk still shows the image, \<open>t\<close> has one answer with the
  length, and the mailboxes of server and driver are empty again.\<close>

theorem file_request_served:
  assumes image: "length kern \<le> unat Kernel_Size" "\<forall>f \<in> set files. length f \<le> unat File_Size"
      "makefs (kern # files) = Some (Some img)" "\<forall>j < length img. device_byte cache (disk d) (of_nat j) = img ! j"
    and place: "i < length files" "k + n \<le> length (files ! i)"
    and drive: "ata_drive dev idle disk" "idle d" "cache_ok cache (disk d)"
    and m: "m_type m = FM_READ_FILE" "m_src m = int t" "fm_file_name m = of_nat (Suc i)" "fm_offset m = of_nat k"
      "fm_length m = of_nat n"
    and rest: "at_rest (nat FM) (nat IDE) s" "current_pcb s = nat FM"
    and asker: "unread s t q ms" "q < Max_Message_Pool" "t \<noteq> nat FM" "t \<noteq> nat IDE"
    and map: "user_mapped (mem s) (p_cr3 (proc s (nat FM))) (fm_buf m) n a"
      "tables_apart (mem s) (p_cr3 (proc s (nat FM))) (fm_buf m) n (a ` {..<n} \<union> word_bytes (kphys data_p))"
      "inj_on a {..<n}" "\<forall>j < n. a j \<notin> word_bytes (kphys data_p)"
  shows "\<exists>s' cache' e r.
    fm_message m0 (call_now (ide_message dev data_p) (nat FM)) FM m ((cache, d), s) = Inr ((cache', e), s') \<and>
    (\<forall>j < n. mem s' (a j) = files ! i ! (k + j)) \<and>
    (\<forall>x. x \<notin> a ` {..<n} \<union> word_bytes (kphys data_p) \<longrightarrow> mem s' x = mem s x) \<and>
    idle e \<and> cache_ok cache' (disk e) \<and> device_byte cache' (disk e) = device_byte cache (disk d) \<and>
    unread s' t (Suc q) (ms @ [r]) \<and> m_type r = -1 \<and> int_p1 r = fm_length m \<and>
    box s' (nat FM) [] [] [] 0 \<and> box s' (nat IDE) [] [] [] 0"
proof -
  let ?D = "{nat FM, nat IDE}" and ?a = "m\<lparr>m_w0 := fm_length m, m_type := -1\<rparr>"
  have "files ! i \<in> set files" using place(1) by simp
  then have "k + n \<le> 65536" using image(2) place(2) sizes by fastforce
  then have len: "unat (fm_length m) = n" by (simp add: m(5) unat_of_nat)
  have bytes: "\<forall>j < n. device_byte cache (disk d) (disk_place m + of_nat j) = files ! i ! (k + j)"
  proof (intro allI impI)
    fix j assume "j < n"
    then have kj: "k + j < length (files ! i)" using place(2) by simp
    have "disk_place m + of_nat j = of_nat (1048576 + (i * 65536 + (k + j)))"
      using m by (simp add: disk_place_def Kernel_Size_def File_Size_def)
    then show "device_byte cache (disk d) (disk_place m + of_nat j) = files ! i ! (k + j)"
      using image(4) image_file_byte [OF image(1-3) place(1) kj] by metis
  qed
  have q: "quiet ?D s" using rest(1) by (auto simp: at_rest_def quiet_def)
  have D: "nat FM \<in> ?D" "nat IDE \<in> ?D" by simp_all
  obtain cache' e s1 where s1: "fm_message m0 (call_now (ide_message dev data_p) (nat FM)) FM m ((cache, d), s) = reply (int t) ?a ((cache', e), s1)"
    "quiet ?D s1" "mail_change ?D s s1" "\<forall>j < n. mem s1 (a j) = files ! i ! (k + j)"
    "\<forall>x. x \<notin> a ` {..<n} \<union> word_bytes (kphys data_p) \<longrightarrow> mem s1 x = mem s x"
    "idle e" "cache_ok cache' (disk e)" "device_byte cache' (disk e) = device_byte cache (disk d)"
    using file_read_work [OF q D rest(2) drive _ m(2) len bytes map] m(1) by blast
  have u1: "unread s1 t q ms"
    using unread_proc_cong [OF asker(1)] s1(3) asker(3,4) by (simp add: mail_change_def)
  obtain s2 where s2: "send (int t) ?a s1 = Inr s2" "unread s2 t (Suc q) (ms @ [stamped s1 (int t) ?a])" "mem s2 = mem s1"
    "length (Proc s2) = length (Proc s1)" "\<forall>j. j \<noteq> t \<longrightarrow> proc s2 j = proc s1 j"
    using send_unread [OF u1 asker(2), of ?a] by blast
  have "box s2 (nat FM) [] [] [] 0" "box s2 (nat IDE) [] [] [] 0"
    using s1(2) s2(4,5) asker(3,4) by (simp_all add: quiet_def box_def)
  moreover have "fm_message m0 (call_now (ide_message dev data_p) (nat FM)) FM m ((cache, d), s) = Inr ((cache', e), s2)"
    using s1(1) s2(1) by (simp add: reply_def)
  moreover have "m_type (stamped s1 (int t) ?a) = -1" "int_p1 (stamped s1 (int t) ?a) = fm_length m"
    by (simp_all add: stamped_def int_p1_def)
  ultimately show ?thesis using s1(4-8) s2(2,3) by metis
qed

text \<open>With nothing in the cache the reader sees the disk.\<close>

lemma device_byte_unused:
  assumes "\<forall>i < 127. \<not> sc_used (cache ! i)" "j < 2 ^ 32"
  shows "device_byte cache D (of_nat j) = D (of_nat (j div 512)) ! (j mod 512)"
proof -
  have u: "unat (of_nat j :: u32) = j" using assms(2) by (simp add: unat_of_nat)
  have "(of_nat j :: u32) AND 511 = take_bit 9 (of_nat j)" by (simp add: take_bit_eq_mask mask_eq_exp_minus_1)
  then have "unat ((of_nat j :: u32) AND 511) = take_bit 9 j" using u by (simp only: unsigned_take_bit_eq)
  moreover have d: "unat (drop_bit 9 (of_nat j :: u32)) = drop_bit 9 j" using u by (simp only: unat_drop_bit_eq)
  ultimately have "unat ((of_nat j :: u32) AND 511) = j mod 512" "unat (drop_bit 9 (of_nat j :: u32)) = j div 512"
    by (simp_all only: take_bit_eq_mod drop_bit_eq_div) simp_all
  moreover from this(2) have "drop_bit 9 (of_nat j :: u32) = of_nat (j div 512)" by (subst word_unat_eq_iff) (use assms(2) in \<open>simp add: unat_of_nat\<close>)
  ultimately show ?thesis using assms(1) by (simp add: device_byte_def view_def Let_def)
qed

section \<open>An example\<close>

text \<open>A system whose 32 processes share the two pages of \<open>Paging\<close>, and an image on the disk.\<close>

definition desk :: sys where
  "desk = boot_sys\<lparr>Proc := map (\<lambda>i. (init_message_pool zero_pcb)\<lparr>p_pid := int i, p_cr3 := 0x1000\<rparr>) [0..<MAX_PROC],
     current_pcb := 4, mem := two_pages\<rparr>"

lemma desk_box:
  assumes "c < MAX_PROC"
  shows "box desk c [] [] [] 0" "p_cr3 (proc desk c) = 0x1000"
proof -
  have p: "proc desk c = (init_message_pool zero_pcb)\<lparr>p_pid := int c, p_cr3 := 0x1000\<rparr>"
    using assms by (simp add: desk_def)
  have "mbox (init_message_pool zero_pcb) [] [] []"
    by (rule init_message_pool_mbox) (simp add: zero_pcb_def)
  then show "box desk c [] [] [] 0" using assms
    by (simp add: box_def p mbox_def) (simp add: desk_def init_message_pool_def zero_pcb_def Sem_init_def)
  show "p_cr3 (proc desk c) = 0x1000" by (simp add: p)
qed

definition image_disk :: "u8 list \<Rightarrow> sample" where
  "image_disk img = \<lparr>sd_regs = (\<lambda>_. 0), sd_words = [],
     sd_disk = (\<lambda>n. map (\<lambda>j. if 512 * unat n + j < length img then img ! (512 * unat n + j) else 0) [0..<512])\<rparr>"

lemma image_disk_byte:
  assumes "j < length img" "length img < 2 ^ 32"
  shows "device_byte (replicate 127 blank_slot) (sd_disk (image_disk img)) (of_nat j) = img ! j"
proof -
  have "\<forall>i < 127. \<not> sc_used (replicate 127 blank_slot ! i)" by (simp add: blank_slot_def)
  moreover have "512 * (j div 512) + j mod 512 = j" by simp
  moreover have "unat (of_nat (j div 512) :: u32) = j div 512" using assms by (simp add: unat_of_nat)
  ultimately show ?thesis using assms
    by (simp add: device_byte_unused image_disk_def del: upt_rec_numeral)
qed

theorem file_request_served_witness:
  "\<exists>img s' x r. makefs ([7] # [[1, 2], [3, 4]]) = Some (Some img) \<and>
     fm_message zero_message (call_now (ide_message sample_drive 0x300) (nat FM)) FM
       (zero_message\<lparr>m_type := FM_READ_FILE, m_w0 := 2, m_w1 := 0xFFE, m_w2 := 1, m_w3 := 1\<rparr>)
       ((replicate 127 blank_slot, image_disk img), desk) = Inr (x, s') \<and>
     mem s' 0x5FFE = 4 \<and> unread s' 0 1 [r] \<and> int_p1 r = 1"
proof -
  let ?files = "[[1, 2], [3, 4]] :: u8 list list"
  let ?m = "zero_message\<lparr>m_type := FM_READ_FILE, m_w0 := 2, m_w1 := 0xFFE, m_w2 := 1, m_w3 := 1\<rparr>"
  let ?cache = "replicate 127 blank_slot"
  have fits: "length [7 :: u8] \<le> unat Kernel_Size" "\<forall>f \<in> set ?files. length f \<le> unat File_Size" by (simp_all add: sizes)
  define img where "img = padded (unat Kernel_Size) [7] @ concat (map (padded (unat File_Size)) ?files)"
  have mk: "makefs ([7] # ?files) = Some (Some img)" unfolding img_def by (rule makefs_image [OF fits])
  have "length img < 2 ^ 32" unfolding img_def by (simp add: sizes padded_def)
  then have shown: "\<forall>j < length img. device_byte ?cache (sd_disk (image_disk img)) (of_nat j) = img ! j"
    using image_disk_byte by blast
  have place: "1 < length ?files" "1 + 1 \<le> length (?files ! 1)" by simp_all
  have drive: "sample_idle (image_disk img)" "cache_ok ?cache (sd_disk (image_disk img))"
    by (simp_all add: sample_idle_def image_disk_def cache_ok_def slot_ok_def blank_slot_def)
  have m: "m_type ?m = FM_READ_FILE" "m_src ?m = int 0" "fm_file_name ?m = of_nat (Suc 1)" "fm_offset ?m = of_nat 1"
      "fm_length ?m = of_nat 1"
    by (simp_all add: zero_message_def fm_file_name_def fm_offset_def fm_length_def)
  have ids: "nat FM < MAX_PROC" "nat IDE < MAX_PROC" "(0 :: nat) < MAX_PROC" "nat FM \<noteq> nat IDE" "current_pcb desk = nat FM"
      "0 \<noteq> nat FM" "0 \<noteq> nat IDE" by (simp_all add: FM_def IDE_def MAX_PROC_def desk_def)
  have rest: "at_rest (nat FM) (nat IDE) desk"
    using desk_box ids by (simp add: at_rest_def desk_def boot_sys_def)
  have u: "unread desk 0 0 []" "0 < Max_Message_Pool"
    using desk_box(1) [OF ids(3)] unfolding unread_def Max_Message_Pool_def
    by (auto simp: box_def slot_msgs_def intro!: exI [of _ "[]"])
  have buf: "fm_buf ?m = 0xFFE" by (simp add: fm_buf_def)
  have sub: "two_pages_at ` {..<1} \<union> word_bytes (kphys 0x300) \<subseteq> two_pages_at ` {..<3} \<union> word_bytes (kphys 0x300)"
    by (rule Un_mono) auto
  have cr3: "p_cr3 (proc desk (nat FM)) = 0x1000" "mem desk = two_pages" by (rule desk_box(2) [OF ids(1)]) (simp add: desk_def)
  have map: "user_mapped (mem desk) (p_cr3 (proc desk (nat FM))) (fm_buf ?m) 1 two_pages_at"
    "tables_apart (mem desk) (p_cr3 (proc desk (nat FM))) (fm_buf ?m) 1 (two_pages_at ` {..<1} \<union> word_bytes (kphys 0x300))"
    "inj_on two_pages_at {..<1}" "\<forall>j < 1. two_pages_at j \<notin> word_bytes (kphys 0x300)"
    unfolding cr3 buf
    using user_mapped_mono [OF two_pages_mapped, of 1] tables_apart_mono [OF two_pages_apart [OF io_apart] _ sub, of 1] io_buffer(2)
    by (simp_all add: inj_on_def)
  from file_request_served [OF fits mk shown place sample_ata drive m rest ids(5) u ids(6,7) map, of zero_message]
  obtain s' x r where r: "fm_message zero_message (call_now (ide_message sample_drive 0x300) (nat FM)) FM ?m ((?cache, image_disk img), desk) = Inr (x, s')"
    "\<forall>j < 1. mem s' (two_pages_at j) = ?files ! 1 ! (1 + j)" "unread s' 0 (Suc 0) ([] @ [r])" "int_p1 r = fm_length ?m"
    by fastforce
  have "mem s' 0x5FFE = 4" using r(2) by (simp add: two_pages_at_def)
  then show ?thesis using mk r(1,3,4) m(5) by auto
qed

end
