(* ===== verification/Loader.thy ===== *)
theory Loader
  imports UserSpace UserFrame Rpc
begin

text \<open>
  Loading a program (\<open>load_init_proc\<close> of kernel/pm.c) with the services it uses as an interface: a file service that
  fills a buffer of the kernel, and a memory service that adds pages to an address space.
\<close>

lemma low_apart: "\<forall>x \<in> X. unat x < 0x1000000 \<Longrightarrow> AddressSpace.user_frame f \<Longrightarrow> X \<inter> page f = {}"
  by (fastforce simp: AddressSpace.user_frame_def page_def)

section \<open>Program files\<close>

text \<open>A file as a memory from address 0 on, so that the fields of its headers are read with the functions of \<open>Pm\<close>.\<close>

definition image_mem :: "u8 list \<Rightarrow> memory" where
  "image_mem P = (\<lambda>x. if unat x < length P then P ! unat x else 0)"

definition program_headers :: "u8 list \<Rightarrow> nat list" where
  "program_headers P = map (\<lambda>k. unat (elf_phoff (image_mem P) 0) + 32 * k) [0..<unat (elf_phnum (image_mem P) 0)]"

text \<open>The segment of the program header at \<open>q\<close>: its place in the file, its bytes, its address, and the pages asked for it.\<close>

definition seg_off :: "u8 list \<Rightarrow> nat \<Rightarrow> nat" where "seg_off P q = unat (ph_off (image_mem P) (of_nat q))"
definition seg_bytes :: "u8 list \<Rightarrow> nat \<Rightarrow> nat" where "seg_bytes P q = unat (ph_filesz (image_mem P) (of_nat q))"
definition seg_va :: "u8 list \<Rightarrow> nat \<Rightarrow> u32" where "seg_va P q = ph_vaddr (image_mem P) (of_nat q)"
definition seg_first :: "u8 list \<Rightarrow> nat \<Rightarrow> nat" where "seg_first P q = unat (seg_va P q) div 4096"
definition seg_count :: "u8 list \<Rightarrow> nat \<Rightarrow> nat" where
  "seg_count P q = unat (ph_memsz (image_mem P) (of_nat q)) div 4096 + 1"
definition seg_pages :: "u8 list \<Rightarrow> nat \<Rightarrow> nat set" where
  "seg_pages P q = {seg_first P q..<seg_first P q + seg_count P q}"

text \<open>A segment that the loader can load with the bytes of \<open>Q\<close>, which may be another file: it lies in \<open>Q\<close>, fits \<open>segment_buf\<close> and the pages asked for it, and these
  are below the page of the stack.\<close>

definition seg_ok :: "u8 list \<Rightarrow> u8 list \<Rightarrow> nat \<Rightarrow> bool" where
  "seg_ok P Q q \<longleftrightarrow> q + 32 \<le> 4096 \<and> seg_off P q + seg_bytes P q \<le> length Q \<and> seg_bytes P q \<le> 4200 \<and>
     unat (seg_va P q) mod 4096 + seg_bytes P q \<le> 4096 * seg_count P q \<and> seg_first P q + seg_count P q \<le> 786431"

fun segments_ok :: "u8 list \<Rightarrow> u8 list \<Rightarrow> nat list \<Rightarrow> bool" where
  "segments_ok P Q [] = True"
| "segments_ok P Q (q # qs) = (seg_ok P Q q \<and> (\<forall>r \<in> set qs. seg_pages P q \<inter> seg_pages P r = {}) \<and> segments_ok P Q qs)"

lemma segments_ok_all: "segments_ok P Q qs \<Longrightarrow> q \<in> set qs \<Longrightarrow> seg_ok P Q q"
  by (induction qs) auto

definition loadable :: "u8 list \<Rightarrow> u8 list \<Rightarrow> bool" where
  "loadable P Q \<longleftrightarrow> 4096 \<le> length P \<and> Q \<noteq> [] \<and> segments_ok P Q (program_headers P)"

abbreviation program_ok :: "u8 list \<Rightarrow> bool" where
  "program_ok P \<equiv> loadable P P"

text \<open>The header in the buffer is the beginning of the file.\<close>

definition has_header :: "memory \<Rightarrow> u32 \<Rightarrow> u8 list \<Rightarrow> bool" where
  "has_header m buf P \<longleftrightarrow> (\<forall>j < 4096. m (kphys (buf + of_nat j)) = P ! j)"

lemma has_header_keep:
  assumes "has_header m buf P" "kdata buf 4096" "only W m m'" "W \<inter> kbytes buf 4096 = {}"
  shows "has_header m' buf P"
  unfolding has_header_def
proof (intro allI impI)
  fix j :: nat assume j: "j < 4096"
  have "kphys (buf + of_nat j) \<notin> W" using kdata_at(2) [OF assms(2) j] assms(4) by blast
  then show "m' (kphys (buf + of_nat j)) = P ! j" using assms(1,3) j by (simp add: has_header_def only_def)
qed

lemma header_field:
  assumes h: "has_header m buf P" and b: "kdata buf 4096" and P: "4096 \<le> length P" and q: "q + 4 \<le> 4096"
  shows "load32 m (kphys (buf + of_nat q)) = load32 (image_mem P) (kphys (of_nat q))"
    "load16 m (kphys (buf + of_nat q)) = load16 (image_mem P) (kphys (of_nat q))"
proof -
  have low: "kphys (of_nat j :: u32) = of_nat j" if "j < 4096" for j
    using that by (intro kphys_low) (simp add: KOFFSET_def word_less_nat_alt unat_of_nat)
  have "m (kphys (buf + of_nat q) + of_nat i) = image_mem P (kphys (of_nat q) + of_nat i)" if i: "i < 4" for i
  proof -
    have j: "q + i < 4096" "q < 4096" using i q by simp_all
    have "kphys (buf + of_nat q) + of_nat i = kphys (buf + of_nat (q + i))"
      using kdata_at(3) [OF b j(1)] kdata_at(3) [OF b j(2)] by simp
    moreover have "kphys (of_nat q) + of_nat i = (of_nat (q + i) :: u32)" using low [OF j(2)] by simp
    moreover have "image_mem P (of_nat (q + i)) = P ! (q + i)" using j(1) P by (simp add: image_mem_def unat_of_nat del: of_nat_add)
    moreover have "m (kphys (buf + of_nat (q + i))) = P ! (q + i)" using h j(1) unfolding has_header_def by blast
    ultimately show ?thesis by simp
  qed
  from this [of 0] this [of 1] this [of 2] this [of 3]
  show "load32 m (kphys (buf + of_nat q)) = load32 (image_mem P) (kphys (of_nat q))"
    "load16 m (kphys (buf + of_nat q)) = load16 (image_mem P) (kphys (of_nat q))"
    by (simp_all add: load32_def load16_def)
qed

lemma header_fields:
  assumes "has_header m buf P" "kdata buf 4096" "4096 \<le> length P"
  shows "elf_entry m buf = elf_entry (image_mem P) 0" "elf_phoff m buf = elf_phoff (image_mem P) 0"
    "elf_phnum m buf = elf_phnum (image_mem P) 0"
  using header_field(1) [OF assms, of 24] header_field(1) [OF assms, of 28] header_field(2) [OF assms, of 44]
  by (simp_all add: elf_entry_def elf_phoff_def elf_phnum_def)

lemma segment_fields:
  assumes "has_header m buf P" "kdata buf 4096" "4096 \<le> length P" "q + 32 \<le> 4096"
  shows "unat (ph_off m (buf + of_nat q)) = seg_off P q" "ph_vaddr m (buf + of_nat q) = seg_va P q"
    "unat (ph_filesz m (buf + of_nat q)) = seg_bytes P q" "unat (drop_bit 12 (ph_memsz m (buf + of_nat q)) + 1) = seg_count P q"
proof -
  have f: "load32 m (kphys (buf + of_nat q + of_nat k)) = load32 (image_mem P) (kphys (of_nat q + of_nat k))" if "k + 4 \<le> 32" for k
    using header_field(1) [OF assms(1-3), of "q + k"] that assms(4) by (simp add: add.assoc)
  show "unat (ph_off m (buf + of_nat q)) = seg_off P q" using f [of 4] by (simp add: ph_off_def seg_off_def)
  show "ph_vaddr m (buf + of_nat q) = seg_va P q" using f [of 8] by (simp add: ph_vaddr_def seg_va_def)
  show "unat (ph_filesz m (buf + of_nat q)) = seg_bytes P q" using f [of 16] by (simp add: ph_filesz_def seg_bytes_def)
  have "ph_memsz m (buf + of_nat q) = ph_memsz (image_mem P) (of_nat q)" using f [of 20] by (simp add: ph_memsz_def)
  moreover have "unat (drop_bit 12 x + 1) = unat x div 4096 + 1" for x :: u32
  proof -
    have u: "unat (drop_bit 12 x) = unat x div 4096" by (simp add: drop_bit_eq_div unat_div_distrib)
    have "unat x < 2 ^ 32" using unsigned_less [of x] by simp
    then have "unat x div 4096 < 1048576" by (simp add: div_less_iff_less_mult)
    then show ?thesis using u by (simp add: unat_word_ariths)
  qed
  ultimately show "unat (drop_bit 12 (ph_memsz m (buf + of_nat q)) + 1) = seg_count P q" by (simp add: seg_count_def)
qed

section \<open>A space that is being loaded\<close>

text \<open>The bytes of the segment at \<open>q\<close> are in the space.\<close>

definition seg_loaded :: "u8 list \<Rightarrow> u8 list \<Rightarrow> u32 \<Rightarrow> memory \<Rightarrow> nat \<Rightarrow> bool" where
  "seg_loaded P Q pd m q \<longleftrightarrow> (\<forall>j < seg_bytes P q.
     vmap m pd (unat (seg_va P q + of_nat j) div 4096) \<noteq> None \<and>
     user_byte m (cr3_of pd) (seg_va P q + of_nat j) = Q ! (seg_off P q + j))"

text \<open>The space has only pages of \<open>V\<close>, among them that of the stack; \<open>need\<close> frames are free; the frames of the
  space and the free ones are among \<open>FR\<close>.\<close>

definition space_for :: "u32 \<Rightarrow> u32 set \<Rightarrow> nat set \<Rightarrow> nat \<Rightarrow> mm \<Rightarrow> bool" where
  "space_for pd FR V need v \<longleftrightarrow> own_pages v pd \<and>
     vmap (mm_mem v) pd 786431 \<noteq> None \<and> (\<forall>u < 786432. vmap (mm_mem v) pd u \<noteq> None \<longrightarrow> u \<in> V) \<and>
     need \<le> card (free_frames v) \<and> tables (mm_mem v) pd \<subseteq> FR \<and> free_frames v \<subseteq> FR \<and>
     (\<forall>u < 786432. \<forall>f. vmap (mm_mem v) pd u = Some f \<longrightarrow> f \<in> FR)"

text \<open>And in addition the header of the file is in the buffer and the segments \<open>qs\<close> are loaded.\<close>

definition load_state ::
    "pm_addrs \<Rightarrow> u8 list \<Rightarrow> u8 list \<Rightarrow> u32 \<Rightarrow> u32 set \<Rightarrow> nat set \<Rightarrow> nat \<Rightarrow> nat set \<Rightarrow> mm \<Rightarrow> bool" where
  "load_state A P Q pd FR V need qs v \<longleftrightarrow> space_for pd FR V need v \<and> has_header (mm_mem v) (pm_buf A) P \<and>
     (\<forall>q \<in> qs. seg_loaded P Q pd (mm_mem v) q)"

lemmas load_state_all = load_state_def space_for_def

lemma seg_page:
  assumes "seg_ok P Q q" "j < seg_bytes P q"
  shows "unat (seg_va P q + of_nat j) = unat (seg_va P q) + j" "(unat (seg_va P q) + j) div 4096 \<in> seg_pages P q"
    "(unat (seg_va P q) + j) div 4096 < 786431"
proof -
  let ?v = "unat (seg_va P q)"
  have ok: "?v mod 4096 + seg_bytes P q \<le> 4096 * seg_count P q" "?v div 4096 + seg_count P q \<le> 786431"
    using assms(1) by (simp_all add: seg_ok_def seg_first_def)
  have "?v + j = 4096 * (?v div 4096) + (?v mod 4096 + j)" by simp
  then have "?v + j < 4096 * (?v div 4096) + 4096 * seg_count P q" using ok(1) assms(2) by linarith
  then have "?v + j < 4096 * (?v div 4096 + seg_count P q)" by (simp only: distrib_left)
  then have hi: "(?v + j) div 4096 < ?v div 4096 + seg_count P q" by (simp add: div_less_iff_less_mult mult.commute)
  moreover have "?v div 4096 \<le> (?v + j) div 4096" by (simp add: div_le_mono)
  ultimately show "(?v + j) div 4096 \<in> seg_pages P q" by (simp add: seg_pages_def seg_first_def)
  show "(?v + j) div 4096 < 786431" using hi ok(2) by simp
  then have "?v + j < 786431 * 4096" by (simp add: div_less_iff_less_mult)
  then show "unat (seg_va P q + of_nat j) = ?v + j" by (simp add: unat_word_ariths unat_of_nat)
qed

text \<open>Writing besides the tables keeps the space.\<close>

lemma space_for_write:
  assumes l: "space_for pd FR V need v" and w: "only W (mm_mem v) (mm_mem v')" "Ppage_flag v' = Ppage_flag v"
    and off: "W \<inter> table_bytes (mm_mem v) pd = {}"
  shows "space_for pd FR V need v'" "\<And>u. u < 786432 \<Longrightarrow> vmap (mm_mem v') pd u = vmap (mm_mem v) pd u"
proof -
  have own: "own_pages v pd" using l by (simp add: space_for_def)
  have iu: "in_use v' f = in_use v f" for f by (simp add: in_use_def w(2))
  have ff: "free_frames v' = free_frames v" by (simp add: free_frames_def iu)
  note k = own_pages_write [OF own w(1) off]
  have own': "own_pages v' pd" and tb: "tables (mm_mem v') pd = tables (mm_mem v) pd"
    and vm: "\<And>u. u < 1048576 \<Longrightarrow> vmap (mm_mem v') pd u = vmap (mm_mem v) pd u"
    using k iu wf_space_cong(2) [OF own_pages_wf(1) [OF own] tables_kept(1) [OF own_pages_wf(1) [OF own] w(1) off]] by auto
  show vm': "vmap (mm_mem v') pd u = vmap (mm_mem v) pd u" if "u < 786432" for u by (rule vm) (use that in simp)
  show "space_for pd FR V need v'" using l own' vm' by (simp add: space_for_def tb ff)
qed

text \<open>Writing besides the tables, the header and the segments that are loaded.\<close>

lemma load_state_write:
  assumes l: "load_state A P Q pd FR V need qs v" and w: "only W (mm_mem v) (mm_mem v')" "Ppage_flag v' = Ppage_flag v"
    and off: "W \<inter> table_bytes (mm_mem v) pd = {}" "W \<inter> kbytes (pm_buf A) 4096 = {}" "kdata (pm_buf A) 4096"
    and segs: "\<And>q u f. q \<in> qs \<Longrightarrow> u \<in> seg_pages P q \<Longrightarrow> vmap (mm_mem v) pd u = Some f \<Longrightarrow> W \<inter> page f = {}"
    and ok: "\<forall>q \<in> qs. seg_ok P Q q"
  shows "load_state A P Q pd FR V need qs v'"
proof -
  have sp: "space_for pd FR V need v" using l by (simp add: load_state_def)
  have own: "own_pages v pd" using sp by (simp add: space_for_def)
  note sw = space_for_write [OF sp w off(1)]
  note vm' = sw(2)
  have "has_header (mm_mem v) (pm_buf A) P" using l by (simp add: load_state_all)
  then have "has_header (mm_mem v') (pm_buf A) P" by (rule has_header_keep [OF _ off(3) w(1) off(2)])
  moreover have "seg_loaded P Q pd (mm_mem v') q" if q: "q \<in> qs" for q
    unfolding seg_loaded_def
  proof (intro allI impI)
    fix j assume j: "j < seg_bytes P q"
    let ?va = "seg_va P q + of_nat j"
    note p = seg_page [OF bspec [OF ok q] j]
    have s: "vmap (mm_mem v) pd (unat ?va div 4096) \<noteq> None" "user_byte (mm_mem v) (cr3_of pd) ?va = Q ! (seg_off P q + j)"
      using l q j by (simp_all add: load_state_all seg_loaded_def)
    then obtain f where f: "vmap (mm_mem v) pd (unat ?va div 4096) = Some f" by auto
    have u: "unat ?va div 4096 < 786432" "unat ?va div 4096 \<in> seg_pages P q" using p by simp_all
    have "place (mm_mem v) pd ?va \<notin> W"
      using place_in_page(2) [OF own_pages_frame(1) [OF own u(1) f] f] segs [OF q u(2) f] by blast
    from user_byte_write [OF own w(1) off(1) f this]
    show "vmap (mm_mem v') pd (unat ?va div 4096) \<noteq> None \<and> user_byte (mm_mem v') (cr3_of pd) ?va = Q ! (seg_off P q + j)"
      using s vm' [OF u(1)] by simp
  qed
  ultimately show ?thesis
    using sw(1) by (simp add: load_state_def)
qed

text \<open>Adding the pages of another segment.\<close>

lemma load_state_adds:
  assumes l: "load_state A P Q pd FR V (2 * length fs + need) qs v" and a: "adds pd u0 v v' fs (2 * length fs)"
    and u0: "u0 + length fs \<le> 786431"
    and off: "kdata (pm_buf A) 4096" "kbytes (pm_buf A) 4096 \<inter> page (va_to_pa pd) = {}"
    and ok: "\<forall>q \<in> qs. seg_ok P Q q"
  shows "load_state A P Q pd FR (V \<union> {u0..<u0 + length fs}) need qs v'"
    "only (page (va_to_pa pd) \<union> \<Union> (page ` {f \<in> FR. AddressSpace.user_frame f})) (mm_mem v) (mm_mem v')"
    "\<And>k. k < length fs \<Longrightarrow> vmap (mm_mem v') pd (u0 + k) \<noteq> None"
proof -
  let ?m = "mm_mem v" and ?m' = "mm_mem v'"
  have own: "own_pages v pd" and FR: "tables ?m pd \<subseteq> FR" "free_frames v \<subseteq> FR"
    using l by (simp_all add: load_state_all)
  have g: "grows pd v v'" and nf: "new_frames pd v v' fs" and mf: "mapped_from (vmap ?m pd) u0 fs (vmap ?m' pd)"
    and card: "card (free_frames v) \<le> 2 * length fs + card (free_frames v')"
    using a by (simp_all add: adds_def)
  show on: "only (page (va_to_pa pd) \<union> \<Union> (page ` {f \<in> FR. AddressSpace.user_frame f})) ?m ?m'"
    using g FR unfolding grows_def only_def free_frames_def by blast
  show new: "vmap ?m' pd (u0 + k) \<noteq> None" if "k < length fs" for k using mf that by (simp add: mapped_from_def)
  have set_fs: "fs ! k \<in> FR" if "k < length fs" for k
    using nf FR(2) that by (auto simp: new_frames_def free_frames_def)
  note cases = mapped_from_cases [OF mf]
  have kept: "vmap ?m' pd (unat va div 4096) \<noteq> None \<and> user_byte ?m' (cr3_of pd) va = user_byte ?m (cr3_of pd) va"
    if va: "unat va div 4096 < 786432" "vmap ?m pd (unat va div 4096) \<noteq> None" for va
  proof -
    obtain f where "vmap ?m pd (unat va div 4096) = Some f" using va(2) by auto
    then show ?thesis using user_byte_adds [OF own a va(1)] by simp
  qed
  have "own_pages v' pd" by (rule own_pages_adds [OF own a]) (use u0 in simp)
  moreover have "has_header ?m' (pm_buf A) P"
  proof -
    have "kbytes (pm_buf A) 4096 \<inter> \<Union> (page ` {f \<in> FR. AddressSpace.user_frame f}) = {}"
      using low_apart [of "kbytes (pm_buf A) 4096"] kbytes_low [OF off(1)] by blast
    then have "(page (va_to_pa pd) \<union> \<Union> (page ` {f \<in> FR. AddressSpace.user_frame f})) \<inter> kbytes (pm_buf A) 4096 = {}"
      using off(2) by blast
    moreover have "has_header ?m (pm_buf A) P" using l by (simp add: load_state_all)
    ultimately show ?thesis using has_header_keep [OF _ off(1) on] by blast
  qed
  moreover have "vmap ?m' pd 786431 \<noteq> None"
    using l mf u0 unfolding load_state_all mapped_from_def by simp
  moreover have "u \<in> V \<union> {u0..<u0 + length fs}" if "u < 786432" "vmap ?m' pd u \<noteq> None" for u
    using that cases [of u] l by (auto simp: load_state_all)
  moreover have "seg_loaded P Q pd ?m' q" if q: "q \<in> qs" for q
    unfolding seg_loaded_def
  proof (intro allI impI)
    fix j assume j: "j < seg_bytes P q"
    let ?va = "seg_va P q + of_nat j"
    have "vmap ?m pd (unat ?va div 4096) \<noteq> None" "user_byte ?m (cr3_of pd) ?va = Q ! (seg_off P q + j)"
      using l q j by (simp_all add: load_state_all seg_loaded_def)
    then show "vmap ?m' pd (unat ?va div 4096) \<noteq> None \<and> user_byte ?m' (cr3_of pd) ?va = Q ! (seg_off P q + j)"
      using kept [of ?va] seg_page(1,3) [OF bspec [OF ok q] j] by simp
  qed
  moreover have "need \<le> card (free_frames v')" using l card by (simp add: load_state_all)
  moreover have "tables ?m' pd \<subseteq> FR" "free_frames v' \<subseteq> FR"
  proof -
    have uf: "AddressSpace.user_frame f" if "f \<in> tables ?m' pd" for f using grows_wf [OF g] that by (auto simp: wf_space_def)
    show "tables ?m' pd \<subseteq> FR" using g FR uf unfolding grows_def free_frames_def by blast
    show "free_frames v' \<subseteq> FR" using FR(2) grows_in_use [OF g] by (auto simp: free_frames_def)
  qed
  moreover have "f \<in> FR" if "u < 786432" "vmap ?m' pd u = Some f" for u f
    using cases [OF that] set_fs l that(1) by (auto simp: load_state_all)
  ultimately show "load_state A P Q pd FR (V \<union> {u0..<u0 + length fs}) need qs v'"
    unfolding load_state_all by blast
qed

text \<open>Copying the bytes of a segment, once its pages are there.\<close>

lemma seg_covered:
  assumes "seg_ok P Q q" "\<forall>k < seg_count P q. vmap m pd (seg_first P q + k) \<noteq> None"
  shows "covered m pd (seg_va P q) (seg_bytes P q)"
proof -
  let ?v = "unat (seg_va P q)"
  have ok: "?v mod 4096 + seg_bytes P q \<le> 4096 * seg_count P q" "?v div 4096 + seg_count P q \<le> 786431"
    using assms(1) by (simp_all add: seg_ok_def seg_first_def)
  have "?v = 4096 * (?v div 4096) + ?v mod 4096" by simp
  then have e: "?v + seg_bytes P q \<le> 4096 * (?v div 4096 + seg_count P q)" using ok(1) unfolding distrib_left by linarith
  have "vmap m pd u \<noteq> None" if u: "?v div 4096 \<le> u" "u * 4096 < ?v + seg_bytes P q" for u
  proof -
    have "u * 4096 < (?v div 4096 + seg_count P q) * 4096" by (rule less_le_trans [OF u(2)]) (use e in \<open>simp only: mult.commute\<close>)
    then have "u < ?v div 4096 + seg_count P q" by simp
    then have "u - ?v div 4096 < seg_count P q" "seg_first P q + (u - ?v div 4096) = u" using u(1) by (simp_all add: seg_first_def)
    then show ?thesis using assms(2) by metis
  qed
  moreover have "?v + seg_bytes P q \<le> 4096 * 786431" by (rule order_trans [OF e mult_le_mono2 [OF ok(2)]])
  then have "?v + seg_bytes P q \<le> 0xC0000000" by simp
  ultimately show ?thesis by (simp add: covered_def)
qed

lemma segment_copied:
  assumes st: "load_state A P Q pd FR V need qs v" and pg: "\<forall>k < seg_count P q. vmap (mm_mem v) pd (seg_first P q + k) \<noteq> None"
    and ok: "seg_ok P Q q" "\<forall>p \<in> qs. seg_ok P Q p" "\<forall>p \<in> qs. seg_pages P p \<inter> seg_pages P q = {}"
    and src: "kdata src (seg_bytes P q)" "\<forall>j < seg_bytes P q. mm_mem v (kphys (src + of_nat j)) = Q ! (seg_off P q + j)"
    and len: "unat len = seg_bytes P q" and b: "kdata (pm_buf A) 4096"
  shows "\<exists>m'. copy_from_kernel (cr3_of pd) (seg_va P q) src len (mm_mem v) = Some m' \<and>
    only (\<Union> (page ` {f \<in> FR. AddressSpace.user_frame f})) (mm_mem v) m' \<and>
    load_state A P Q pd FR V need (insert q qs) (v\<lparr>mm_mem := m'\<rparr>)"
proof -
  let ?m = "mm_mem v" and ?va = "seg_va P q" and ?n = "seg_bytes P q"
  let ?a = "\<lambda>j. place ?m pd (?va + of_nat j)" and ?s = "\<lambda>j. kphys (src + of_nat j)"
  define W where "W = ?a ` {..<?n}"
  have own: "own_pages v pd" using st by (simp add: load_state_all)
  have cov: "covered ?m pd ?va ?n" by (rule seg_covered [OF ok(1) pg])
  note ob = own_buffer [OF own cov]
  have off: "W \<inter> table_bytes ?m pd = {}" using ob(4) by (simp add: W_def)
  note ap = ob(2) [OF off]
  have in_page: "\<exists>u f. u \<in> seg_pages P q \<and> u < 786432 \<and> vmap ?m pd u = Some f \<and> AddressSpace.user_frame f \<and> f \<in> FR \<and> ?a j \<in> page f"
    if j: "j < ?n" for j
  proof -
    note p = seg_page [OF ok(1) j]
    obtain f where f: "vmap ?m pd ((unat ?va + j) div 4096) = Some f" using covered_byte(3) [OF cov j] by auto
    have u: "(unat ?va + j) div 4096 < 786432" using p(3) by simp
    have "f \<in> FR" using st u f unfolding load_state_all by blast
    then show ?thesis using p(1,2) u f own_pages_frame(1) [OF own u f] place_in_page(2) [of f ?m pd "?va + of_nat j"] by auto
  qed
  have Wp: "W \<subseteq> \<Union> (page ` {f \<in> FR. AddressSpace.user_frame f})" using in_page by (fastforce simp: W_def)
  have low: "W \<inter> {x. unat x < 0x1000000} = {}" using in_page low_apart [of "{x. unat x < 0x1000000}"] by (fastforce simp: W_def)
  define m' where "m' = copy_bytes ?a ?s ?n ?m"
  have run: "copy_from_kernel (cr3_of pd) ?va src len ?m = Some m'"
    using copy_from_pages_spec [of ?m "cr3_of pd" ?va len ?a W src] ob(1) ap len
    by (simp add: copy_from_kernel_def Let_def m'_def W_def)
  have on: "only W ?m m'" unfolding only_def m'_def W_def by (auto intro!: copy_bytes_other)
  have ne: "\<forall>i < ?n. \<forall>j < ?n. ?a i \<noteq> ?s j"
  proof (intro allI impI)
    fix i j assume "i < ?n" "j < ?n"
    then have "?a i \<in> W" "unat (?s j) < 0x1000000" using kbytes_low [OF src(1) kdata_at(2) [OF src(1)]] by (auto simp: W_def)
    then show "?a i \<noteq> ?s j" using low by force
  qed
  have val: "m' (?a j) = Q ! (seg_off P q + j)" if "j < ?n" for j
    unfolding m'_def using copy_bytes_at [OF ob(3) ne that] src(2) that by simp
  let ?v' = "v\<lparr>mm_mem := m'\<rparr>"
  have st': "load_state A P Q pd FR V need qs ?v'"
  proof (rule load_state_write [OF st _ _ off _ b _ ok(2)])
    show "only W ?m (mm_mem ?v')" using on by simp
    show "W \<inter> kbytes (pm_buf A) 4096 = {}" using low kbytes_low [OF b] by blast
    show "W \<inter> page f = {}" if p: "p \<in> qs" "u \<in> seg_pages P p" "vmap ?m pd u = Some f" for p u f
    proof -
      have u: "u < 786432" using ok(2) p(1,2) by (fastforce simp: seg_ok_def seg_pages_def)
      have "?a j \<notin> page f" if j: "j < ?n" for j
      proof
        assume "?a j \<in> page f"
        obtain w g where w: "w \<in> seg_pages P q" "w < 786432" "vmap ?m pd w = Some g" "AddressSpace.user_frame g" "?a j \<in> page g"
          using in_page [OF j] by blast
        have "g = f" using pages_disjoint [OF w(4) own_pages_frame(1) [OF own u p(3)]] w(5) \<open>?a j \<in> page f\<close> by blast
        then have "w = u" using own_pages_inj [OF own w(2) u w(3)] p(3) by simp
        then show False using ok(3) p(1,2) w(1) by blast
      qed
      then show ?thesis by (auto simp: W_def)
    qed
  qed simp
  have on': "\<forall>x. x \<notin> W \<longrightarrow> m' x = ?m x" using on by (simp add: only_def)
  have um: "user_mapped m' (cr3_of pd) ?va ?n ?a" by (rule user_mapped_keep(1) [OF ob(1) ap on'])
  have "seg_loaded P Q pd m' q"
    unfolding seg_loaded_def
  proof (intro allI impI conjI)
    fix j assume j: "j < ?n"
    show "user_byte m' (cr3_of pd) (?va + of_nat j) = Q ! (seg_off P q + j)" using user_byte_mapped [OF um j] val [OF j] by simp
    obtain u f where "u = unat (?va + of_nat j) div 4096" "vmap ?m pd u = Some f" "u < 786432"
      using covered_byte [OF cov j] by auto
    then show "vmap m' pd (unat (?va + of_nat j) div 4096) \<noteq> None"
      using tables_kept(2) [OF own_pages_wf(1) [OF own] on off] by simp
  qed
  then have "load_state A P Q pd FR V need (insert q qs) ?v'" using st' by (simp add: load_state_all)
  moreover have "only (\<Union> (page ` {f \<in> FR. AddressSpace.user_frame f})) ?m m'" by (rule only_mono [OF on Wp])
  ultimately show ?thesis using run by blast
qed

section \<open>The stack\<close>

text \<open>A process that runs the program \<open>P\<close> when it is switched to: its segments are in its memory, and the frame on its
  stack starts it at the entry point of the file, with the exit routine as return address.\<close>

definition shows_segments :: "u8 list \<Rightarrow> u8 list \<Rightarrow> u32 \<Rightarrow> memory \<Rightarrow> bool" where
  "shows_segments P Q cr3 m \<longleftrightarrow>
     (\<forall>q \<in> set (program_headers P). \<forall>j < seg_bytes P q. user_byte m cr3 (seg_va P q + of_nat j) = Q ! (seg_off P q + j))"

definition runs_program :: "pm_addrs \<Rightarrow> u8 list \<Rightarrow> u32 \<Rightarrow> memory \<Rightarrow> u32 \<Rightarrow> bool" where
  "runs_program A P cr3 m esp \<longleftrightarrow> shows_segments P P cr3 m \<and>
     restore_context (user_load m cr3) esp = kthread_context (elf_entry (image_mem P) 0) 0xBFFFFFFC \<and>
     user_load m cr3 0xBFFFFFFC = asm_do_int80_exit A"

lemma stack_ready:
  assumes st: "load_state A P Q pd FR V need qs v" and key: "kdata (pm_key A) 4" "kbytes (pm_key A) 4 \<inter> page (va_to_pa pd) = {}"
  shows "\<exists>a. stack_part (mm_mem v) (cr3_of pd) (0xC0000000 - 56) 14 a (pm_key A) \<and>
    (\<forall>f. vmap (mm_mem v) pd 786431 = Some f \<longrightarrow> a ` {..<56} \<subseteq> page f) \<and> written 14 a (pm_key A) \<inter> table_bytes (mm_mem v) pd = {}"
proof -
  let ?va = "0xBFFFFFC8 :: u32" and ?m = "mm_mem v"
  let ?a = "\<lambda>i. place ?m pd (?va + of_nat i)"
  have own: "own_pages v pd" and sp: "vmap ?m pd 786431 \<noteq> None" using st by (simp_all add: load_state_all)
  have cov: "covered ?m pd ?va 56"
  proof -
    have "vmap ?m pd u \<noteq> None" if "unat ?va div 4096 \<le> u" "u * 4096 < unat ?va + 56" for u
    proof -
      have "u = 786431" using that by simp
      then show ?thesis using sp by metis
    qed
    then show ?thesis by (simp add: covered_def)
  qed
  note ob = own_buffer [OF own cov]
  have wb: "word_bytes (kphys (pm_key A)) = kbytes (pm_key A) 4" by (rule kdata_word [OF key(1)])
  have klow: "\<forall>x \<in> kbytes (pm_key A) 4. unat x < 0x1000000" using kbytes_low [OF key(1)] by blast
  have kt: "kbytes (pm_key A) 4 \<inter> table_bytes ?m pd = {}"
    using low_apart [OF klow] key(2) own_pages_wf(1) [OF own] unfolding table_bytes_def wf_space_def by blast
  have off: "written 14 ?a (pm_key A) \<inter> table_bytes ?m pd = {}" using ob(4) kt by (auto simp: wb)
  have "?a i \<notin> kbytes (pm_key A) 4" if "i < 56" for i using ob(5) [OF that] low_apart [OF klow] by blast
  then have "stack_part ?m (cr3_of pd) ?va 14 ?a (pm_key A)"
    using ob(1,3) ob(2) [OF off] kdata_at(3) [OF key(1)] by (simp add: stack_part_def wb)
  moreover have "?a i \<in> page f" if i: "i < 56" and f: "vmap ?m pd 786431 = Some f" for i f
  proof -
    have "unat (?va + of_nat i) = 0xBFFFFFC8 + i" using covered_byte(1) [OF cov i] by simp
    then have "unat (?va + of_nat i) div 4096 = 786431" using i by simp
    then show ?thesis using place_in_page(2) [OF own_pages_frame(1) [OF own _ f]] f by simp
  qed
  ultimately show ?thesis using off by (intro exI [of _ ?a]) auto
qed

text \<open>Writing to the page of the stack, and to variables of the kernel, keeps the segments.\<close>

lemma stack_keeps_segments:
  assumes st: "load_state A P Q pd FR V need (set (program_headers P)) v" and P: "segments_ok P Q (program_headers P)"
    and b: "kdata (pm_buf A) 4096" and g: "vmap (mm_mem v) pd 786431 = Some g"
    and W: "only W (mm_mem v) m'" "W \<inter> table_bytes (mm_mem v) pd = {}" "W \<subseteq> page g \<union> X"
    and X: "\<forall>x \<in> X. unat x < 0x1000000" "X \<inter> kbytes (pm_buf A) 4096 = {}"
  shows "shows_segments P Q (cr3_of pd) m'"
proof -
  have own: "own_pages v pd" using st by (simp add: load_state_all)
  have gf: "AddressSpace.user_frame g" using own_pages_frame(1) [OF own _ g] by simp
  have okq: "\<forall>q \<in> set (program_headers P). seg_ok P Q q" using segments_ok_all [OF P] by blast
  have bg: "kbytes (pm_buf A) 4096 \<inter> page g = {}" by (rule low_apart [OF _ gf]) (use kbytes_low [OF b] in blast)
  have "load_state A P Q pd FR V need (set (program_headers P)) (v\<lparr>mm_mem := m'\<rparr>)"
  proof (rule load_state_write [OF st _ _ W(2) _ b _ okq])
    show "only W (mm_mem v) (mm_mem (v\<lparr>mm_mem := m'\<rparr>))" using W(1) by simp
    show "W \<inter> kbytes (pm_buf A) 4096 = {}" using W(3) X(2) bg by blast
    show "W \<inter> page f = {}" if q: "q \<in> set (program_headers P)" "u \<in> seg_pages P q" "vmap (mm_mem v) pd u = Some f" for q u f
    proof -
      have u: "u < 786431" using okq q(1,2) by (fastforce simp: seg_ok_def seg_pages_def)
      then have f: "AddressSpace.user_frame f" using own_pages_frame(1) [OF own _ q(3)] by simp
      have "f \<noteq> g" using own_pages_inj [OF own _ _ q(3), of 786431] g u by fastforce
      then show ?thesis using W(3) pages_disjoint [OF gf f] low_apart [OF X(1) f] by blast
    qed
  qed simp
  then show ?thesis by (simp add: shows_segments_def load_state_def seg_loaded_def)
qed

lemma frame_pushed:
  assumes st: "load_state A P P pd FR V need (set (program_headers P)) v" and P: "segments_ok P P (program_headers P)"
    and key: "kdata (pm_key A) 4" "kbytes (pm_key A) 4 \<inter> (page (va_to_pa pd) \<union> kbytes (pm_buf A) 4096) = {}"
    and b: "kdata (pm_buf A) 4096"
  shows "\<exists>m'. user_frame A (cr3_of pd) (elf_entry (image_mem P) 0) (0xC0000000, mm_mem v) = Some (0xBFFFFFC8, m') \<and>
    runs_program A P (cr3_of pd) m' 0xBFFFFFC8 \<and>
    only (kbytes (pm_key A) 4 \<union> \<Union> (page ` {f \<in> FR. AddressSpace.user_frame f})) (mm_mem v) m'"
proof -
  have own: "own_pages v pd" using st by (simp add: load_state_all)
  have "vmap (mm_mem v) pd 786431 \<noteq> None" using st by (simp add: load_state_all)
  then obtain g where g: "vmap (mm_mem v) pd 786431 = Some g" by auto
  have "\<forall>u < 786432. \<forall>f. vmap (mm_mem v) pd u = Some f \<longrightarrow> f \<in> FR" using st by (simp add: load_state_all)
  from this [rule_format, OF _ g] have gf: "AddressSpace.user_frame g" "g \<in> FR" using own_pages_frame(1) [OF own _ g] by simp_all
  have "kbytes (pm_key A) 4 \<inter> page (va_to_pa pd) = {}" using key(2) by blast
  from stack_ready [OF st key(1) this] obtain a where a: "stack_part (mm_mem v) (cr3_of pd) (0xC0000000 - 56) 14 a (pm_key A)"
    "\<forall>f. vmap (mm_mem v) pd 786431 = Some f \<longrightarrow> a ` {..<56} \<subseteq> page f" "written 14 a (pm_key A) \<inter> table_bytes (mm_mem v) pd = {}"
    by (elim exE conjE)
  let ?W = "written 14 a (pm_key A)"
  from user_frame_spec [OF a(1), of "elf_entry (image_mem P) 0"]
  obtain m' where m': "user_frame A (cr3_of pd) (elf_entry (image_mem P) 0) (0xC0000000, mm_mem v) = Some (0xC0000000 - 56, m')"
    "restore_context (user_load m' (cr3_of pd)) (0xC0000000 - 56) = kthread_context (elf_entry (image_mem P) 0) (0xC0000000 - 4)"
    "user_load m' (cr3_of pd) (0xC0000000 - 4) = asm_do_int80_exit A" "\<forall>x. x \<notin> ?W \<longrightarrow> m' x = mm_mem v x"
    by (elim exE conjE)
  have on: "only ?W (mm_mem v) m'" using m'(4) by (simp add: only_def)
  have wb: "word_bytes (kphys (pm_key A)) = kbytes (pm_key A) 4" by (rule kdata_word [OF key(1)])
  have W: "?W \<subseteq> page g \<union> kbytes (pm_key A) 4" using a(2) [rule_format, OF g] by (auto simp: wb)
  have "shows_segments P P (cr3_of pd) m'"
    by (rule stack_keeps_segments [OF st P b g on a(3) W]) (use kbytes_low [OF key(1)] key(2) in blast)+
  then have "runs_program A P (cr3_of pd) m' 0xBFFFFFC8"
    using m'(2,3) by (simp add: runs_program_def)
  moreover have "only (kbytes (pm_key A) 4 \<union> \<Union> (page ` {f \<in> FR. AddressSpace.user_frame f})) (mm_mem v) m'"
    by (rule only_mono [OF on]) (use W gf in blast)
  ultimately show ?thesis using m'(1) by simp
qed

text \<open>Printing by the loader.\<close>

lemma print_sys_total:
  assumes "console_ok (con s)" "vfprintf ctl args = Inr out"
  obtains c where "print_sys (printk ctl args) (x, s) = Inr (x, s\<lparr>con := c\<rparr>)" "console_ok c"
proof -
  obtain c where "printk ctl args (con s) = Inr c" "console_ok c" using print_total(1) [OF assms] by blast
  then show thesis using that by (simp add: print_sys_def)
qed

section \<open>The services\<close>

lemma only_disjoint: "only W m m' \<Longrightarrow> W \<inter> X = {} \<Longrightarrow> \<forall>x \<in> X. m' x = m x"
  by (auto simp: only_def)

text \<open>What the client may do between two requests: anything but to the processes of \<open>D\<close> and to who is running.\<close>

definition leaves_alone :: "nat set \<Rightarrow> sys \<Rightarrow> sys \<Rightarrow> bool" where
  "leaves_alone D s s' \<longleftrightarrow> length (Proc s') = length (Proc s) \<and> current_pcb s' = current_pcb s \<and>
     Proc_addr s' = Proc_addr s \<and> enter_interrupt (cpu s') = enter_interrupt (cpu s) \<and> (\<forall>j \<in> D. proc s' j = proc s j)"

text \<open>The loader's buffers are apart from each other, from the memory \<open>S\<close> of the services, and from the new page directory.\<close>

definition layout :: "pm_addrs \<Rightarrow> u32 set \<Rightarrow> u32 \<Rightarrow> bool" where
  "layout A S pd \<longleftrightarrow> kdata (pm_buf A) 4096 \<and> kdata (pm_segment_buf A) 4200 \<and> kdata (pm_key A) 4 \<and>
     (kbytes (pm_buf A) 4096 \<union> kbytes (pm_segment_buf A) 4200 \<union> kbytes (pm_key A) 4) \<inter> (S \<union> page (va_to_pa pd)) = {} \<and>
     kbytes (pm_buf A) 4096 \<inter> (kbytes (pm_segment_buf A) 4200 \<union> kbytes (pm_key A) 4) = {} \<and>
     kbytes (pm_segment_buf A) 4200 \<inter> kbytes (pm_key A) 4 = {} \<and> page (va_to_pa pd) \<inter> S = {}"

definition writes :: "pm_addrs \<Rightarrow> u32 set \<Rightarrow> u32 \<Rightarrow> u32 set \<Rightarrow> u32 set" where
  "writes A scratch pd FR = kbytes (pm_buf A) 4096 \<union> kbytes (pm_segment_buf A) 4200 \<union> kbytes (pm_key A) 4 \<union> scratch \<union>
     page (va_to_pa pd) \<union> \<Union> (page ` {f \<in> FR. AddressSpace.user_frame f})"

text \<open>The client's calls, from a state that is \<open>ready\<close>: bytes of a program into a buffer of the kernel, and pages for a
  process. The services keep their own data in \<open>scratch\<close> and rely on the memory \<open>K\<close>.\<close>

locale program_services =
  fixes call :: "'w world call"
    and ready :: "'w world \<Rightarrow> bool"
    and D :: "nat set"
    and K :: "u32 set"
    and scratch :: "u32 set"
    and source :: "u32 \<Rightarrow> u32 \<Rightarrow> u8 list"
  assumes low: "x \<in> K \<union> scratch \<Longrightarrow> unat x < 0x1000000"
    and read_bytes: "ready ((fl, w), s) \<Longrightarrow> kdata (fm_buf m) n \<Longrightarrow>
      kbytes (fm_buf m) n \<inter> (K \<union> scratch) = {} \<Longrightarrow> n = unat (fm_length m) \<Longrightarrow>
      source (m_type m) (fm_file_name m) \<noteq> [] \<Longrightarrow> unat (fm_offset m) + n \<le> length (source (m_type m) (fm_file_name m)) \<Longrightarrow>
      \<exists>r w' s'. call FM m ((fl, w), s) = Inr (r, (fl, w'), s') \<and> ready ((fl, w'), s') \<and> mail_change D s s' \<and>
        only (kbytes (fm_buf m) n \<union> scratch) (mem s) (mem s') \<and>
        (\<forall>j < n. mem s' (kphys (fm_buf m + of_nat j)) = source (m_type m) (fm_file_name m) ! (unat (fm_offset m) + j))"
    and allocate: "ready ((fl, w), s) \<Longrightarrow> m_type m = MM_ALLOCATE \<Longrightarrow> mm_target m = pcb_addr s i \<Longrightarrow> i < MAX_PROC \<Longrightarrow>
      allocate_page (pagedir_addr s i) (mm_start m) (mm_length m) (mm_of (fl, s)) = Inr v \<Longrightarrow>
      only W (mem s) (mm_mem v) \<Longrightarrow> W \<inter> K = {} \<Longrightarrow>
      \<exists>r s'. call MM m ((fl, w), s) = Inr (r, (Ppage_flag v, w), s') \<and> ready ((Ppage_flag v, w), s') \<and>
        mail_change D s s' \<and> mem s' = mm_mem v"
    and ready_keep: "ready ((fl, w), s) \<Longrightarrow> leaves_alone D s s' \<Longrightarrow> \<forall>x \<in> K. mem s' x = mem s x \<Longrightarrow> ready ((fl', w), s')"
begin

lemma low_off_tables:
  assumes "own_pages v pd" "\<forall>x \<in> X. unat x < 0x1000000" "X \<inter> page (va_to_pa pd) = {}"
  shows "X \<inter> table_bytes (mm_mem v) pd = {}"
  using assms(1,3) low_apart [OF assms(2)] own_pages_wf(1) [OF assms(1)]
  unfolding table_bytes_def wf_space_def by blast

text \<open>One segment. First the request for its bytes.\<close>

lemma segment_bytes_read:
  assumes r: "ready ((fl, w), s)"
    and st: "load_state A P (source ty name) pd FR V need qs (mm_of (fl, s))"
    and lay: "layout A (K \<union> scratch) pd" and len: "4096 \<le> length P" and ne: "source ty name \<noteq> []"
    and q: "seg_ok P (source ty name) q" "\<forall>p \<in> qs. seg_ok P (source ty name) p"
  shows "\<exists>r w' s'. call FM (segment_request m A ty name (pm_buf A + of_nat q) (mem s)) ((fl, w), s) = Inr (r, (fl, w'), s') \<and>
    ready ((fl, w'), s') \<and> mail_change D s s' \<and> only (writes A scratch pd FR) (mem s) (mem s') \<and>
    (\<forall>j < seg_bytes P q. mem s' (kphys (pm_segment_buf A + of_nat j)) = source ty name ! (seg_off P q + j)) \<and>
    load_state A P (source ty name) pd FR V need qs (mm_of (fl, s'))"
proof -
  let ?P = P and ?Q = "source ty name" and ?ph = "pm_buf A + of_nat q" and ?sb = "pm_segment_buf A"
  define n where "n = seg_bytes ?P q"
  have lay': "kdata (pm_buf A) 4096" "kdata ?sb 4200" using lay by (simp_all add: layout_def)
  have own: "own_pages (mm_of (fl, s)) pd" and hdr: "has_header (mem s) (pm_buf A) ?P"
    using st by (simp_all add: load_state_all mm_of_def)
  have q32: "q + 32 \<le> 4096" "seg_off ?P q + n \<le> length ?Q" "n \<le> 4200" using q(1) by (simp_all add: seg_ok_def n_def)
  note sf = segment_fields [OF hdr lay'(1) len q32(1)]
  have kn: "kdata ?sb n" "kbytes ?sb n \<subseteq> kbytes ?sb 4200" using kdata_mono lay'(2) q32(3) by blast+
  let ?m1 = "segment_request m A ty name ?ph (mem s)"
  have m1: "m_type ?m1 = ty" "fm_buf ?m1 = ?sb" "n = unat (fm_length ?m1)" "unat (fm_offset ?m1) = seg_off ?P q"
    "fm_file_name ?m1 = name"
    by (simp_all add: segment_request_def fm_buf_def fm_length_def fm_offset_def fm_file_name_def sf n_def)
  have "kbytes ?sb n \<inter> (K \<union> scratch) = {}" using lay kn(2) by (auto simp: layout_def)
  from read_bytes [OF r _ _ m1(3), unfolded m1(1,2,4,5), OF kn(1) \<open>_ = {}\<close> ne q32(2)]
  obtain r1 w1 s1 where c1: "call FM ?m1 ((fl, w), s) = Inr (r1, (fl, w1), s1)" "ready ((fl, w1), s1)" "mail_change D s s1"
    "only (kbytes ?sb n \<union> scratch) (mem s) (mem s1)" "\<forall>j < n. mem s1 (kphys (?sb + of_nat j)) = ?Q ! (seg_off ?P q + j)"
    by blast
  let ?W1 = "kbytes ?sb n \<union> scratch"
  have W1: "\<forall>x \<in> ?W1. unat x < 0x1000000" "?W1 \<inter> page (va_to_pa pd) = {}" "?W1 \<inter> kbytes (pm_buf A) 4096 = {}"
    "?W1 \<subseteq> writes A scratch pd FR"
    using lay kn kbytes_low [OF kn(1)] low by (auto simp: layout_def writes_def)
  have "load_state A ?P ?Q pd FR V need qs (mm_of (fl, s1))"
  proof (rule load_state_write [OF st _ _ _ W1(3) lay'(1) _ q(2)])
    show "only ?W1 (mm_mem (mm_of (fl, s))) (mm_mem (mm_of (fl, s1)))" using c1(4) by (simp add: mm_of_def)
    show "?W1 \<inter> table_bytes (mm_mem (mm_of (fl, s))) pd = {}" by (rule low_off_tables [OF own W1(1,2)])
    show "?W1 \<inter> page f = {}" if "p \<in> qs" "u \<in> seg_pages ?P p" "vmap (mm_mem (mm_of (fl, s))) pd u = Some f" for p u f
    proof -
      have "u < 786432" using q(2) that(1,2) by (fastforce simp: seg_ok_def seg_pages_def)
      then show ?thesis using low_apart [OF W1(1)] own_pages_frame(1) [OF own _ that(3)] by blast
    qed
  qed (simp add: mm_of_def)
  then show ?thesis using c1 only_mono [OF c1(4) W1(4)] by (auto simp: n_def)
qed

text \<open>Then the request for its pages, which succeeds: they are not there yet, and there are frames enough.\<close>

lemma segment_pages_added:
  assumes r: "ready ((fl, w), s)" and i: "i < MAX_PROC"
    and st: "load_state A P (source ty name) (pagedir_addr s i) FR V (2 * seg_count P q + need) qs (mm_of (fl, s))"
    and lay: "layout A (K \<union> scratch) (pagedir_addr s i)" and len: "4096 \<le> length P"
    and q: "seg_ok P (source ty name) q" "\<forall>p \<in> qs. seg_ok P (source ty name) p" "seg_pages P q \<inter> V = {}"
  shows "\<exists>r fl' s'. call MM (space_request m (pcb_addr s i) (seg_va P q) (mem s) (pm_buf A + of_nat q)) ((fl, w), s) =
      Inr (r, (fl', w), s') \<and>
    ready ((fl', w), s') \<and> mail_change D s s' \<and> only (writes A scratch (pagedir_addr s i) FR) (mem s) (mem s') \<and>
    (\<forall>x. unat x < 0x1000000 \<longrightarrow> x \<notin> page (va_to_pa (pagedir_addr s i)) \<longrightarrow> mem s' x = mem s x) \<and>
    (\<forall>k < seg_count P q. vmap (mem s') (pagedir_addr s i) (seg_first P q + k) \<noteq> None) \<and>
    load_state A P (source ty name) (pagedir_addr s i) FR (V \<union> seg_pages P q) need qs (mm_of (fl', s'))"
proof -
  let ?P = P and ?Q = "source ty name" and ?pd = "pagedir_addr s i" and ?ph = "pm_buf A + of_nat q"
  have lay': "kdata (pm_buf A) 4096" using lay by (simp add: layout_def)
  have hdr: "has_header (mem s) (pm_buf A) ?P" using st by (simp add: load_state_all mm_of_def)
  have q32: "q + 32 \<le> 4096" and fit: "seg_first ?P q + seg_count ?P q \<le> 786431" using q(1) by (simp_all add: seg_ok_def)
  note sf = segment_fields [OF hdr lay' len q32]
  let ?m2 = "space_request m (pcb_addr s i) (seg_va ?P q) (mem s) ?ph"
  have m2: "m_type ?m2 = MM_ALLOCATE" "mm_target ?m2 = pcb_addr s i" "mm_start ?m2 = seg_va ?P q" "unat (mm_length ?m2) = seg_count ?P q"
    by (simp_all add: space_request_def mm_target_def mm_start_def mm_length_def sf del: unat_plus_simple)
  have own: "own_pages (mm_of (fl, s)) ?pd" using st by (simp add: load_state_all)
  obtain v fs where al: "allocate_page ?pd (seg_va ?P q) (mm_length ?m2) (mm_of (fl, s)) = Inr v"
    "adds ?pd (seg_first ?P q) (mm_of (fl, s)) v fs (2 * length fs)" "length fs = seg_count ?P q"
  proof -
    have "unat (seg_va ?P q) div 4096 + unat (mm_length ?m2) \<le> 1048576" using fit m2(4) by (simp add: seg_first_def)
    note sp = allocate_page_spec [OF own_pages_wf(1) [OF own] this]
    show thesis
    proof (cases "allocate_page ?pd (seg_va ?P q) (mm_length ?m2) (mm_of (fl, s))")
      case (Inr v)
      with sp m2(4) show thesis using that by (auto simp: seg_first_def)
    next
      case (Inl e)
      have card: "2 * seg_count ?P q \<le> card (free_frames (mm_of (fl, s)))" using st by (simp add: load_state_all)
      from Inl sp m2(4) card obtain k where "k < seg_count ?P q" "vmap (mm_mem (mm_of (fl, s))) ?pd (seg_first ?P q + k) \<noteq> None"
        by (auto simp: add_fails_def seg_first_def)
      then have "seg_first ?P q + k \<in> V" "seg_first ?P q + k \<in> seg_pages ?P q"
        using st fit by (simp_all add: load_state_all seg_pages_def)
      then show thesis using q(3) by blast
    qed
  qed
  have pages: "seg_pages ?P q = {seg_first ?P q..<seg_first ?P q + length fs}" by (simp add: seg_pages_def al(3))
  have hb: "kbytes (pm_buf A) 4096 \<inter> page (va_to_pa ?pd) = {}" using lay by (auto simp: layout_def)
  note ad = load_state_adds [OF st [folded al(3)] al(2) _ lay' hb q(2), folded pages]
  let ?W = "page (va_to_pa ?pd) \<union> \<Union> (page ` {f \<in> FR. AddressSpace.user_frame f})"
  have fit': "seg_first ?P q + length fs \<le> 786431" using fit al(3) by simp
  have K: "?W \<inter> K = {}" "?W \<subseteq> writes A scratch ?pd FR" using lay low_apart [of K] low by (auto simp: layout_def writes_def)
  have on: "only ?W (mem s) (mm_mem v)" using ad(2) [OF fit'] by (simp add: mm_of_def)
  from allocate [OF r m2(1,2) i, unfolded m2(3), OF al(1) on K(1)]
  obtain r2 s2 where c: "call MM ?m2 ((fl, w), s) = Inr (r2, (Ppage_flag v, w), s2)" "ready ((Ppage_flag v, w), s2)"
    "mail_change D s s2" "mem s2 = mm_mem v" by blast
  have v: "mm_of (Ppage_flag v, s2) = v" using c(4) by (simp add: mm_of_def)
  have "mem s2 x = mem s x" if "unat x < 0x1000000" "x \<notin> page (va_to_pa ?pd)" for x
  proof -
    have "x \<notin> page f" if "AddressSpace.user_frame f" for f using low_apart [of "{x}" f] that \<open>unat x < 0x1000000\<close> by simp
    then show ?thesis using on that(2) by (auto simp: c(4) only_def)
  qed
  then show ?thesis
    using c v ad(1) [OF fit'] ad(3) [OF fit'] only_mono [OF on K(2)] al(3)
    by (intro exI [of _ r2] exI [of _ "Ppage_flag v"] exI [of _ s2]) simp
qed

text \<open>The two requests and the copy.\<close>

lemma client_writes:
  assumes "ready ((fl, w), s)" "only W (mem s) m" "W \<inter> K = {}"
  shows "ready ((fl', w), s\<lparr>mem := m\<rparr>)"
  by (rule ready_keep [OF assms(1)]) (use assms(2,3) in \<open>auto simp: leaves_alone_def only_def\<close>)

lemma load_segment_step:
  assumes r: "ready ((fl, w), s)" and i: "i < MAX_PROC" "p_cr3 (proc s i) = cr3_of pd" "pagedir_addr s i = pd"
    and st: "load_state A P (source ty name) pd FR V (2 * seg_count P q + need) qs (mm_of (fl, s))"
    and lay: "layout A (K \<union> scratch) pd" and len: "4096 \<le> length P" and ne: "source ty name \<noteq> []"
    and q: "seg_ok P (source ty name) q" "\<forall>p \<in> qs. seg_ok P (source ty name) p \<and> seg_pages P p \<subseteq> V"
      "seg_pages P q \<inter> V = {}"
  shows "\<exists>fl' w' s'. load_segment m call A ty name i (pm_buf A + of_nat q) ((fl, w), s) = Some (Inr ((fl', w'), s')) \<and>
    ready ((fl', w'), s') \<and> mail_change D s s' \<and> only (writes A scratch pd FR) (mem s) (mem s') \<and>
    load_state A P (source ty name) pd FR (V \<union> seg_pages P q) need (insert q qs) (mm_of (fl', s'))"
proof -
  let ?P = P and ?Q = "source ty name" and ?ph = "pm_buf A + of_nat q" and ?sb = "pm_segment_buf A"
  have qs: "\<forall>p \<in> qs. seg_ok ?P ?Q p" using q(2) by blast
  have lay': "kdata (pm_buf A) 4096" "kdata ?sb 4200" using lay by (simp_all add: layout_def)
  have q32: "q + 32 \<le> 4096" "seg_bytes ?P q \<le> 4200" using q(1) by (simp_all add: seg_ok_def)
  have kn: "kdata ?sb (seg_bytes ?P q)" "kbytes ?sb (seg_bytes ?P q) \<subseteq> kbytes ?sb 4200" using kdata_mono lay'(2) q32(2) by blast+
  have va: "ph_vaddr (mem s) ?ph = seg_va ?P q"
    using st lay'(1) len q32(1) by (intro segment_fields(2)) (simp_all add: load_state_def mm_of_def)
  obtain r1 w1 s1 where c1: "call FM (segment_request m A ty name ?ph (mem s)) ((fl, w), s) = Inr (r1, (fl, w1), s1)"
    "ready ((fl, w1), s1)" "mail_change D s s1" "only (writes A scratch pd FR) (mem s) (mem s1)"
    "\<forall>j < seg_bytes ?P q. mem s1 (kphys (?sb + of_nat j)) = ?Q ! (seg_off ?P q + j)"
    "load_state A ?P ?Q pd FR V (2 * seg_count ?P q + need) qs (mm_of (fl, s1))"
    using segment_bytes_read [OF r st lay len ne q(1) qs] by blast
  have pd1: "pagedir_addr s1 i = pd" "p_cr3 (proc s1 i) = cr3_of pd"
    using mail_change_addr(2) [OF c1(3)] mail_change_cr3 [OF c1(3)] i(2,3) by simp_all
  obtain r2 fl2 s2 where c2: "call MM (space_request r1 (pcb_addr s1 i) (seg_va ?P q) (mem s1) ?ph) ((fl, w1), s1) =
      Inr (r2, (fl2, w1), s2)" "ready ((fl2, w1), s2)" "mail_change D s1 s2" "only (writes A scratch pd FR) (mem s1) (mem s2)"
    "\<forall>x. unat x < 0x1000000 \<longrightarrow> x \<notin> page (va_to_pa pd) \<longrightarrow> mem s2 x = mem s1 x"
    "\<forall>k < seg_count ?P q. vmap (mem s2) pd (seg_first ?P q + k) \<noteq> None"
    "load_state A ?P ?Q pd FR (V \<union> seg_pages ?P q) need qs (mm_of (fl2, s2))"
    using segment_pages_added [OF c1(2) i(1) c1(6) [folded pd1(1)] lay [folded pd1(1)] len q(1) qs q(3), unfolded pd1(1)] by blast
  have cr3: "p_cr3 (proc s2 i) = cr3_of pd" using mail_change_cr3 [OF c2(3)] pd1(2) by simp
  have len2: "unat (ph_filesz (mem s2) ?ph) = seg_bytes ?P q"
    using c2(7) lay'(1) len q32(1) by (intro segment_fields(3)) (simp_all add: load_state_def mm_of_def)
  have src: "mem s2 (kphys (?sb + of_nat j)) = ?Q ! (seg_off ?P q + j)" if j: "j < seg_bytes ?P q" for j
  proof -
    note k = kdata_at(2) [OF kn(1) j]
    have "kphys (?sb + of_nat j) \<notin> page (va_to_pa pd)" using k kn(2) lay by (auto simp: layout_def)
    then show ?thesis using c1(5) c2(5) kbytes_low [OF kn(1) k] j by simp
  qed
  have dis: "\<forall>p \<in> qs. seg_pages ?P p \<inter> seg_pages ?P q = {}" using q(2,3) by blast
  obtain m' where c3: "copy_from_kernel (cr3_of pd) (seg_va ?P q) ?sb (ph_filesz (mem s2) ?ph) (mem s2) = Some m'"
    "only (\<Union> (page ` {f \<in> FR. AddressSpace.user_frame f})) (mem s2) m'"
    "load_state A ?P ?Q pd FR (V \<union> seg_pages ?P q) need (insert q qs) ((mm_of (fl2, s2))\<lparr>mm_mem := m'\<rparr>)"
    using segment_copied [OF c2(7) _ q(1) qs dis kn(1) _ len2 lay'(1)] c2(6) src by (auto simp: mm_of_def)
  let ?s3 = "s2\<lparr>mem := m'\<rparr>"
  have "\<Union> (page ` {f \<in> FR. AddressSpace.user_frame f}) \<inter> K = {}" using low_apart [of K] low by blast
  then have r3: "ready ((fl2, w1), ?s3)" by (rule client_writes [OF c2(2) c3(2)])
  have "\<Union> (page ` {f \<in> FR. AddressSpace.user_frame f}) \<subseteq> writes A scratch pd FR" by (auto simp: writes_def)
  from only_trans [OF only_trans [OF c1(4) c2(4)] only_mono [OF c3(2) this]]
  have on: "only (writes A scratch pd FR) (mem s) (mem ?s3)" by simp
  have mc: "mail_change D s ?s3" using mail_change_trans [OF c1(3) c2(3)] by simp
  have st3: "load_state A ?P ?Q pd FR (V \<union> seg_pages ?P q) need (insert q qs) (mm_of (fl2, ?s3))" using c3(3) by (simp add: mm_of_def)
  have run: "load_segment m call A ty name i ?ph ((fl, w), s) = Some (Inr ((fl2, w1), ?s3))"
    by (simp add: load_segment_def Let_def va c1(1) c2(1) cr3 c3(1))
  show ?thesis using run r3 mc on st3 by blast
qed

lemma load_segments_spec:
  assumes "ready ((fl, w), s)" "i < MAX_PROC" "p_cr3 (proc s i) = cr3_of pd" "pagedir_addr s i = pd"
    "load_state A P (source ty name) pd FR V (2 * sum_list (map (seg_count P) qs) + need) done (mm_of (fl, s))"
    "layout A (K \<union> scratch) pd" "4096 \<le> length P" "source ty name \<noteq> []" "qs = map (\<lambda>k. q + 32 * k) [0..<n]" "segments_ok P (source ty name) qs"
    "\<forall>p \<in> done. seg_ok P (source ty name) p \<and> seg_pages P p \<subseteq> V" "\<forall>p \<in> set qs. seg_pages P p \<inter> V = {}"
  shows "\<exists>fl' w' s' V'. load_segments m call A ty name i n (pm_buf A + of_nat q) ((fl, w), s) = Some (Inr ((fl', w'), s')) \<and>
    ready ((fl', w'), s') \<and> mail_change D s s' \<and> only (writes A scratch pd FR) (mem s) (mem s') \<and>
    load_state A P (source ty name) pd FR V' need (done \<union> set qs) (mm_of (fl', s'))"
  using assms
proof (induction n arbitrary: q qs V "done" fl w s)
  case 0
  then show ?case by (intro exI [of _ fl] exI [of _ w] exI [of _ s] exI [of _ V]) simp
next
  case (Suc n)
  let ?P = P and ?Q = "source ty name"
  define rest where "rest = map (\<lambda>k. (q + 32) + 32 * k) [0..<n]"
  have qs: "qs = q # rest" unfolding Suc.prems(9) rest_def by (simp add: upt_conv_Cons map_Suc_upt [symmetric] del: upt_Suc)
  have ok: "seg_ok ?P ?Q q" "segments_ok ?P ?Q rest" "\<forall>p \<in> set rest. seg_pages ?P q \<inter> seg_pages ?P p = {}"
    using Suc.prems(10) by (simp_all add: qs)
  have st: "load_state A ?P ?Q pd FR V (2 * seg_count ?P q + (2 * sum_list (map (seg_count ?P) rest) + need)) done (mm_of (fl, s))"
    using Suc.prems(5) by (simp add: qs algebra_simps)
  have qV: "seg_pages ?P q \<inter> V = {}" using Suc.prems(12) by (simp add: qs)
  obtain fl1 w1 s1 where s1: "load_segment m call A ty name i (pm_buf A + of_nat q) ((fl, w), s) = Some (Inr ((fl1, w1), s1))"
    "ready ((fl1, w1), s1)" "mail_change D s s1" "only (writes A scratch pd FR) (mem s) (mem s1)"
    "load_state A ?P ?Q pd FR (V \<union> seg_pages ?P q) (2 * sum_list (map (seg_count ?P) rest) + need) (insert q done) (mm_of (fl1, s1))"
    using load_segment_step [OF Suc.prems(1-4) st Suc.prems(6-8) ok(1) Suc.prems(11) qV] by blast
  have p1: "p_cr3 (proc s1 i) = cr3_of pd" "pagedir_addr s1 i = pd"
    using mail_change_cr3 [OF s1(3)] mail_change_addr(2) [OF s1(3)] Suc.prems(3,4) by simp_all
  have d1: "\<forall>p \<in> insert q done. seg_ok ?P ?Q p \<and> seg_pages ?P p \<subseteq> V \<union> seg_pages ?P q" using Suc.prems(11) ok(1) by auto
  have d2: "\<forall>p \<in> set rest. seg_pages ?P p \<inter> (V \<union> seg_pages ?P q) = {}" using Suc.prems(12) ok(3) by (auto simp: qs)
  obtain fl2 w2 s2 V2 where s2: "load_segments m call A ty name i n (pm_buf A + of_nat (q + 32)) ((fl1, w1), s1) = Some (Inr ((fl2, w2), s2))"
    "ready ((fl2, w2), s2)" "mail_change D s1 s2" "only (writes A scratch pd FR) (mem s1) (mem s2)"
    "load_state A ?P ?Q pd FR V2 need (insert q done \<union> set rest) (mm_of (fl2, s2))"
    using Suc.IH [OF s1(2) Suc.prems(2) p1 s1(5) Suc.prems(6-8) rest_def ok(2) d1 d2] by blast
  have "load_segments m call A ty name i (Suc n) (pm_buf A + of_nat q) ((fl, w), s) = Some (Inr ((fl2, w2), s2))"
    using s1(1) s2(1) by (simp add: add.assoc)
  then show ?case
    using s2(2,5) mail_change_trans [OF s1(3) s2(3)] only_trans [OF s1(4) s2(4)] by (auto simp: qs)
qed

text \<open>Reading the header, and then all segments.\<close>

lemma header_read:
  assumes r: "ready ((fl, w), s)" and sp: "space_for pd FR V need (mm_of (fl, s))"
    and lay: "layout A (K \<union> scratch) pd" and len: "4096 \<le> length (source FM_READ_FILE name)"
  shows "\<exists>r w' s'. call FM (header_request m A name) ((fl, w), s) = Inr (r, (fl, w'), s') \<and>
    ready ((fl, w'), s') \<and> mail_change D s s' \<and> only (writes A scratch pd FR) (mem s) (mem s') \<and>
    load_state A (source FM_READ_FILE name) Q pd FR V need {} (mm_of (fl, s'))"
proof -
  let ?m = "header_request m A name" and ?b = "pm_buf A"
  have m: "m_type ?m = FM_READ_FILE" "fm_buf ?m = ?b" "4096 = unat (fm_length ?m)" "unat (fm_offset ?m) = 0" "fm_file_name ?m = name"
    by (simp_all add: header_request_def fm_buf_def fm_length_def fm_offset_def fm_file_name_def)
  have b: "kdata ?b 4096" "kbytes ?b 4096 \<inter> (K \<union> scratch) = {}" using lay by (auto simp: layout_def)
  have "source FM_READ_FILE name \<noteq> []" "0 + 4096 \<le> length (source FM_READ_FILE name)" using len by auto
  from read_bytes [OF r _ _ m(3), unfolded m(1,2,4,5), OF b this]
  obtain r1 w1 s1 where c: "call FM ?m ((fl, w), s) = Inr (r1, (fl, w1), s1)" "ready ((fl, w1), s1)" "mail_change D s s1"
    "only (kbytes ?b 4096 \<union> scratch) (mem s) (mem s1)" "\<forall>j < 4096. mem s1 (kphys (?b + of_nat j)) = source FM_READ_FILE name ! (0 + j)"
    by blast
  let ?W = "kbytes ?b 4096 \<union> scratch"
  have W: "\<forall>x \<in> ?W. unat x < 0x1000000" "?W \<inter> page (va_to_pa pd) = {}" "?W \<subseteq> writes A scratch pd FR"
    using lay kbytes_low [OF b(1)] low by (auto simp: layout_def writes_def)
  have own: "own_pages (mm_of (fl, s)) pd" using sp by (simp add: space_for_def)
  have "space_for pd FR V need (mm_of (fl, s1))"
    by (rule space_for_write(1) [OF sp, of ?W]) (use c(4) low_off_tables [OF own W(1,2)] in \<open>simp_all add: mm_of_def\<close>)
  moreover have "has_header (mem s1) ?b (source FM_READ_FILE name)" using c(5) by (simp add: has_header_def)
  ultimately have "load_state A (source FM_READ_FILE name) Q pd FR V need {} (mm_of (fl, s1))" by (simp add: load_state_def mm_of_def)
  then show ?thesis using c(1-3) only_mono [OF c(4) W(3)] by blast
qed

lemma load_program_spec:
  assumes r: "ready ((fl, w), s)" and i: "i < MAX_PROC" "p_cr3 (proc s i) = cr3_of pd" "pagedir_addr s i = pd"
    and sp: "space_for pd FR {786431} (2 * sum_list (map (seg_count (source FM_READ_FILE name)) (program_headers (source FM_READ_FILE name)))) (mm_of (fl, s))"
    and lay: "layout A (K \<union> scratch) pd" and P: "loadable (source FM_READ_FILE name) (source ty name)" and con: "console_ok (con s)"
  shows "\<exists>fl' w' s' c V. load_program m call A ty name i ((fl, w), s) = Some (Inr ((fl', w'), s'\<lparr>con := c\<rparr>)) \<and>
    mail_change D s s' \<and> only (writes A scratch pd FR) (mem s) (mem s') \<and> console_ok c \<and>
    load_state A (source FM_READ_FILE name) (source ty name) pd FR V 0 (set (program_headers (source FM_READ_FILE name))) (mm_of (fl', s'))"
proof -
  let ?P = "source FM_READ_FILE name" and ?Q = "source ty name" and ?buf = "pm_buf A"
  let ?qs = "program_headers ?P" and ?n = "unat (elf_phnum (image_mem (source FM_READ_FILE name)) 0)"
  have len: "4096 \<le> length ?P" and ne: "?Q \<noteq> []" and ok: "segments_ok ?P ?Q ?qs" using P by (simp_all add: loadable_def)
  have buf: "kdata ?buf 4096" using lay by (simp add: layout_def)
  obtain r1 w1 s1 where s1: "call FM (header_request m A name) ((fl, w), s) = Inr (r1, (fl, w1), s1)"
    "ready ((fl, w1), s1)" "mail_change D s s1" "only (writes A scratch pd FR) (mem s) (mem s1)"
    "load_state A ?P ?Q pd FR {786431} (2 * sum_list (map (seg_count ?P) ?qs)) {} (mm_of (fl, s1))"
    using header_read [OF r sp lay len] by blast
  have hd: "has_header (mem s1) ?buf ?P" using s1(5) by (simp add: load_state_def mm_of_def)
  note ef = header_fields [OF hd buf len]
  have p1: "p_cr3 (proc s1 i) = cr3_of pd" "pagedir_addr s1 i = pd"
    using mail_change_cr3 [OF s1(3)] mail_change_addr(2) [OF s1(3)] i(2,3) by simp_all
  have st: "load_state A ?P ?Q pd FR {786431} (2 * sum_list (map (seg_count ?P) ?qs) + 0) {} (mm_of (fl, s1))" using s1(5) by simp
  have "seg_ok ?P ?Q p" if "p \<in> set ?qs" for p using segments_ok_all [OF ok that] .
  then have dis: "\<forall>p \<in> set ?qs. seg_pages ?P p \<inter> {786431} = {}" by (fastforce simp: seg_ok_def seg_pages_def)
  have none: "\<forall>p \<in> {}. seg_ok ?P ?Q p \<and> seg_pages ?P p \<subseteq> {786431}" by simp
  obtain fl2 w2 s2 V where s2: "load_segments r1 call A ty name i ?n (?buf + of_nat (unat (elf_phoff (image_mem ?P) 0))) ((fl, w1), s1) =
      Some (Inr ((fl2, w2), s2))"
    "mail_change D s1 s2" "only (writes A scratch pd FR) (mem s1) (mem s2)" "load_state A ?P ?Q pd FR V 0 ({} \<union> set ?qs) (mm_of (fl2, s2))"
    using load_segments_spec [OF s1(2) i(1) p1 st lay len ne program_headers_def ok none dis] by blast
  have con2: "console_ok (con s2)" using s1(3) s2(2) con by (simp add: mail_change_def)
  obtain c where c: "print_sys (printk ''Finish analyse ELF header!\<newline>'' []) ((fl2, w2), s2) = Inr ((fl2, w2), s2\<lparr>con := c\<rparr>)" "console_ok c"
    by (rule print_sys_total [OF con2, of "''Finish analyse ELF header!\<newline>''" "[]"]) simp_all
  have "load_program m call A ty name i ((fl, w), s) = Some (Inr ((fl2, w2), s2\<lparr>con := c\<rparr>))"
    using s1(1) s2(1) c(1) by (simp add: load_program_def ef)
  then show ?thesis
    using mail_change_trans [OF s1(3) s2(2)] only_trans [OF s1(4) s2(3)] c(2) s2(4) by auto
qed

text \<open>\<open>load_init_proc\<close> as a whole.\<close>

lemma load_init_proc_spec:
  assumes r: "ready ((fl, w), s)" and i: "i < MAX_PROC" "p_cr3 (proc s i) = cr3_of pd" "pagedir_addr s i = pd" "i < length (Proc s)"
    and sp: "space_for pd FR {786431} (2 * sum_list (map (seg_count (source FM_READ_FILE name)) (program_headers (source FM_READ_FILE name)))) (mm_of (fl, s))"
    and lay: "layout A (K \<union> scratch) pd" and P: "program_ok (source FM_READ_FILE name)" and con: "console_ok (con s)"
  shows "\<exists>fl' w' s1 m' c. load_init_proc m call A name i ((fl, w), s) =
      Some (Inr ((fl', w'), upd_proc i (p_esp_update (\<lambda>_. 0xBFFFFFC8)) (s1\<lparr>con := c, mem := m'\<rparr>))) \<and>
    mail_change D s s1 \<and> only (writes A scratch pd FR) (mem s) m' \<and> console_ok c \<and>
    runs_program A (source FM_READ_FILE name) (cr3_of pd) m' 0xBFFFFFC8"
proof -
  let ?P = "source FM_READ_FILE name"
  obtain fl2 w2 s2 c V where s2: "load_program m call A FM_READ_FILE name i ((fl, w), s) = Some (Inr ((fl2, w2), s2\<lparr>con := c\<rparr>))"
    "mail_change D s s2" "only (writes A scratch pd FR) (mem s) (mem s2)" "console_ok c"
    "load_state A ?P ?P pd FR V 0 (set (program_headers ?P)) (mm_of (fl2, s2))"
    using load_program_spec [OF r i(1-3) sp lay P con] by blast
  have cr3: "p_cr3 (proc s2 i) = cr3_of pd" using mail_change_cr3 [OF s2(2)] i(2) by simp
  have kd: "kdata (pm_key A) 4" "kbytes (pm_key A) 4 \<inter> (page (va_to_pa pd) \<union> kbytes (pm_buf A) 4096) = {}" "kdata (pm_buf A) 4096"
    using lay by (auto simp: layout_def)
  have hd: "has_header (mem s2) (pm_buf A) ?P" and ok: "4096 \<le> length ?P" "segments_ok ?P ?P (program_headers ?P)"
    using s2(5) P by (simp_all add: load_state_def mm_of_def loadable_def)
  obtain m' where m': "user_frame A (cr3_of pd) (elf_entry (image_mem ?P) 0) (0xC0000000, mem s2) = Some (0xBFFFFFC8, m')"
    "runs_program A ?P (cr3_of pd) m' 0xBFFFFFC8"
    "only (kbytes (pm_key A) 4 \<union> \<Union> (page ` {f \<in> FR. AddressSpace.user_frame f})) (mem s2) m'"
    using frame_pushed [OF s2(5) ok(2) kd] by (auto simp: mm_of_def)
  have "load_init_proc m call A name i ((fl, w), s) =
      Some (Inr ((fl2, w2), upd_proc i (p_esp_update (\<lambda>_. 0xBFFFFFC8)) (s2\<lparr>con := c, mem := m'\<rparr>)))"
    using s2(1) m'(1) cr3 header_fields(1) [OF hd kd(3) ok(1)] by (simp add: load_init_proc_def)
  moreover have "only (writes A scratch pd FR) (mem s) m'"
    by (rule only_trans [OF s2(3) only_mono [OF m'(3)]]) (auto simp: writes_def)
  ultimately show ?thesis using s2(2,4) m'(2) by blast
qed

end

text \<open>The space that \<open>init_user_page\<close> makes.\<close>

lemma new_space:
  assumes pd: "good_dir pd" and enough: "6 + need \<le> card (free_frames v)"
  shows "\<exists>v'. init_user_page pd v = Inr (cr3_of pd, v') \<and> space_for pd (free_frames v) {786431} need v' \<and>
    only (page (va_to_pa pd) \<union> \<Union> (page ` {f \<in> free_frames v. AddressSpace.user_frame f})) (mm_mem v) (mm_mem v')"
proof -
  note sp = init_user_page_spec [OF pd, of v]
  show ?thesis
  proof (cases "init_user_page pd v")
    case (Inl e)
    then show ?thesis using sp enough by simp
  next
    case (Inr r)
    then obtain v' where r: "r = (cr3_of pd, v')" using sp by (cases r) auto
    from sp obtain g where v': "wf_space v' pd" "only (page (va_to_pa pd) \<union> free_bytes v) (mm_mem v) (mm_mem v')"
      "card (free_frames v) \<le> 6 + card (free_frames v')" "\<forall>f. AddressSpace.user_frame f \<longrightarrow> in_use v f \<longrightarrow> in_use v' f"
      "\<forall>f \<in> tables (mm_mem v') pd. \<not> in_use v f" "AddressSpace.user_frame g" "\<not> in_use v g" "in_use v' g" "g \<notin> tables (mm_mem v') pd"
      "\<And>u. u < 1048576 \<Longrightarrow> vmap (mm_mem v') pd u = (if u = 786431 then Some g
        else if 786432 \<le> u \<and> u < 790528 then Some (push_bit 12 (of_nat (u - 786432))) else None)"
      unfolding Inr r by auto
    have vm: "vmap (mm_mem v') pd u = (if u = 786431 then Some g else None)" if "u < 786432" for u
      using v'(10) [of u] that by simp
    have "own_pages v' pd" using v'(1,6,8,9) by (simp add: own_pages_def wf_user_def vm split: if_splits)
    moreover have "tables (mm_mem v') pd \<subseteq> free_frames v" "free_frames v' \<subseteq> free_frames v" "g \<in> free_frames v"
      using v'(1,4-7) by (auto simp: free_frames_def wf_space_def)
    ultimately have "space_for pd (free_frames v) {786431} need v'"
      using v'(3) enough by (auto simp: space_for_def vm split: if_splits)
    moreover have "free_bytes v = \<Union> (page ` {f \<in> free_frames v. AddressSpace.user_frame f})"
      by (auto simp: free_bytes_def free_frames_def)
    ultimately show ?thesis using v'(2) Inr r by auto
  qed
qed

text \<open>The entry of the table for a new process, before its address space.\<close>

definition set_up :: "nat \<Rightarrow> pcb \<Rightarrow> pcb" where
  "set_up new p = init_message_pool (p\<lparr>p_pid := int new, p_flag := False, time_elapsed := 0\<rparr>)"

lemma set_up_fields [simp]:
  "p_next (set_up new p) = p_next p" "p_prev (set_up new p) = p_prev p" "p_flag (set_up new p) = False"
  "p_pid (set_up new p) = int new" "p_status (set_up new p) = p_status p"
  by (simp_all add: set_up_def init_message_pool_def)

context program_services
begin

text \<open>\<open>Create_uthread\<close>. First the address space.\<close>

lemma Create_uthread_space:
  assumes r: "ready ((fl, w), s)" and new: "new \<notin> D" "new < length (Proc s)"
    and pd: "good_dir (pagedir_addr s new)" and lay: "layout A (K \<union> scratch) (pagedir_addr s new)" and con: "console_ok (con s)"
    and enough: "6 + need \<le> card (free_frames (mm_of (fl, s)))"
  defines "s1 \<equiv> upd_proc new (set_up new) (lock s)"
  shows "\<exists>v s2. init_user_page (pagedir_addr s1 new) (mm_of (fl, s1)) = Inr (cr3_of (pagedir_addr s new), v) \<and>
    s2 = unlock (upd_proc new (p_cr3_update (\<lambda>_. cr3_of (pagedir_addr s new))) (s1\<lparr>mem := mm_mem v\<rparr>)) \<and>
    ready ((Ppage_flag v, w), s2) \<and> pagedir_addr s2 new = pagedir_addr s new \<and> length (Proc s2) = length (Proc s) \<and>
    console_ok (con s2) \<and> (\<forall>i. proc s2 i = (if i = new then (set_up new (proc s new))\<lparr>p_cr3 := cr3_of (pagedir_addr s new)\<rparr> else proc s i)) \<and>
    space_for (pagedir_addr s new) (free_frames (mm_of (fl, s))) {786431} need (mm_of (Ppage_flag v, s2)) \<and>
    only (writes A scratch (pagedir_addr s new) (free_frames (mm_of (fl, s)))) (mem s) (mem s2)"
proof -
  let ?pd = "pagedir_addr s new" and ?FR = "free_frames (mm_of (fl, s))"
  define W where "W = page (va_to_pa ?pd) \<union> \<Union> (page ` {f \<in> ?FR. AddressSpace.user_frame f})"
  have pd1: "pagedir_addr s1 new = ?pd" by (simp add: s1_def pagedir_addr_def pcb_addr_def)
  have mm1: "mm_of (fl, s1) = mm_of (fl, s)" by (simp add: s1_def mm_of_def)
  obtain v where v: "init_user_page ?pd (mm_of (fl, s)) = Inr (cr3_of ?pd, v)" "space_for ?pd ?FR {786431} need v"
    "only W (mem s) (mm_mem v)"
    using new_space [OF pd enough] by (auto simp: mm_of_def W_def)
  define s2 where "s2 = unlock (upd_proc new (p_cr3_update (\<lambda>_. cr3_of ?pd)) (s1\<lparr>mem := mm_mem v\<rparr>))"
  have p2: "Proc s2 = upd_at new (p_cr3_update (\<lambda>_. cr3_of ?pd) \<circ> set_up new) (Proc s)" by (simp add: s2_def s1_def)
  have at2: "proc s2 i = (if i = new then (set_up new (proc s new))\<lparr>p_cr3 := cr3_of ?pd\<rparr> else proc s i)" for i
    using new(2) by (simp add: p2 nth_upd_at)
  have s2: "mem s2 = mm_mem v" "con s2 = con s" "Proc_addr s2 = Proc_addr s" "current_pcb s2 = current_pcb s"
    "enter_interrupt (cpu s2) = enter_interrupt (cpu s)" "length (Proc s2) = length (Proc s)"
    by (simp_all add: s2_def s1_def p2)
  have W: "W \<inter> K = {}" "W \<subseteq> writes A scratch ?pd ?FR"
    using lay low_apart [of K] low by (auto simp: W_def layout_def writes_def)
  have "leaves_alone D s s2" using new(1) at2 s2 by (auto simp: leaves_alone_def)
  from ready_keep [OF r this only_disjoint [OF v(3) W(1), folded s2(1)]]
  have "ready ((Ppage_flag v, w), s2)" .
  moreover have "pagedir_addr s2 new = ?pd" by (simp add: pagedir_addr_def pcb_addr_def s2)
  moreover have "space_for ?pd ?FR {786431} need (mm_of (Ppage_flag v, s2))"
  proof -
    have "mm_of (Ppage_flag v, s2) = v" by (cases v) (simp add: mm_of_def s2)
    then show ?thesis using v(2) by simp
  qed
  moreover have "only (writes A scratch ?pd ?FR) (mem s) (mem s2)" using only_mono [OF v(3) W(2)] by (simp add: s2)
  ultimately show ?thesis
    using at2 s2 con v(1) by (intro exI [of _ v] exI [of _ s2]) (simp add: pd1 mm1 s2_def)
qed

text \<open>Then the program, the run list, and the status.\<close>

lemma Create_uthread_spec:
  assumes r: "ready ((fl, w), s)" and tab: "proc_table_ok s l" and new: "Find_Empty_PCB s = Some new" "new \<notin> D"
    and pd: "good_dir (pagedir_addr s new)" and lay: "layout A (K \<union> scratch) (pagedir_addr s new)"
    and P: "program_ok (source FM_READ_FILE name)" and con: "console_ok (con s)"
    and enough: "6 + 2 * sum_list (map (seg_count (source FM_READ_FILE name)) (program_headers (source FM_READ_FILE name))) \<le> card (free_frames (mm_of (fl, s)))"
  shows "\<exists>x s'. Create_uthread m call A name ((fl, w), s) = Some (Inr (x, s')) \<and>
    proc_table_ok s' (l @ [new]) \<and> p_status (proc s' new) = STATUS_WAITING \<and>
    runs_program A (source FM_READ_FILE name) (p_cr3 (proc s' new)) (mem s') (p_esp (proc s' new)) \<and>
    only (writes A scratch (pagedir_addr s new) (free_frames (mm_of (fl, s)))) (mem s) (mem s') \<and> console_ok (con s') \<and>
    (\<forall>i < MAX_PROC. i \<noteq> new \<longrightarrow> p_status (proc s' i) = p_status (proc s i))"
proof -
  let ?pd = "pagedir_addr s new" and ?P = "source FM_READ_FILE name" and ?FR = "free_frames (mm_of (fl, s))"
  have n: "new < MAX_PROC" "new < length (Proc s)" and nl: "new \<notin> set l"
    using Find_Empty_PCB_Some [OF new(1)] tab proc_table_ok_in [OF tab] by (auto simp: proc_table_ok_def)
  define s1 where "s1 = upd_proc new (set_up new) (lock s)"
  obtain v s2 where v: "init_user_page (pagedir_addr s1 new) (mm_of (fl, s1)) = Inr (cr3_of ?pd, v)"
    and s2_def: "s2 = unlock (upd_proc new (p_cr3_update (\<lambda>_. cr3_of ?pd)) (s1\<lparr>mem := mm_mem v\<rparr>))"
    and r2: "ready ((Ppage_flag v, w), s2)" and pd2: "pagedir_addr s2 new = ?pd" and l2: "length (Proc s2) = length (Proc s)"
    and c2: "console_ok (con s2)" and at2: "\<forall>i. proc s2 i = (if i = new then (set_up new (proc s new))\<lparr>p_cr3 := cr3_of ?pd\<rparr> else proc s i)"
    and sp2: "space_for ?pd ?FR {786431} (2 * sum_list (map (seg_count ?P) (program_headers ?P))) (mm_of (Ppage_flag v, s2))"
    and on2: "only (writes A scratch ?pd ?FR) (mem s) (mem s2)"
    using Create_uthread_space [OF r new(2) n(2) pd lay con enough, folded s1_def] by blast
  have p2: "p_cr3 (proc s2 new) = cr3_of ?pd" "new < length (Proc s2)" using at2 n(2) by (simp_all add: l2)
  obtain fl3 w3 s3 m' c where s3: "load_init_proc m call A name new ((Ppage_flag v, w), s2) =
      Some (Inr ((fl3, w3), upd_proc new (p_esp_update (\<lambda>_. 0xBFFFFFC8)) (s3\<lparr>con := c, mem := m'\<rparr>)))"
    "mail_change D s2 s3" "only (writes A scratch ?pd ?FR) (mem s2) m'" "console_ok c" "runs_program A ?P (cr3_of ?pd) m' 0xBFFFFFC8"
    using load_init_proc_spec [OF r2 n(1) p2(1) pd2 p2(2) sp2 lay P c2, of m] by metis
  let ?top = "kstack_addr (upd_proc new (p_esp_update (\<lambda>_. 0xBFFFFFC8)) (s3\<lparr>con := c, mem := m'\<rparr>)) new + STACK_SIZE"
  define g where "g = (\<lambda>p :: pcb. p\<lparr>p_esp := 0xBFFFFFC8, p_kstack_top := ?top\<rparr>)"
  define s4 where "s4 = upd_proc new g (s3\<lparr>con := c, mem := m'\<rparr>)"
  have s4: "upd_proc new (p_kstack_top_update (\<lambda>_. ?top) \<circ> p_esp_update (\<lambda>_. 0xBFFFFFC8)) (s3\<lparr>con := c, mem := m'\<rparr>) = s4"
    by (simp add: s4_def g_def comp_def)
  have con4: "console_ok (con s4)" using s3(4) by (simp add: s4_def)
  obtain c' where c': "print_sys (printk ''ready to schedule................!!!!\<newline>'' []) ((fl3, w3), s4) = Inr ((fl3, w3), s4\<lparr>con := c'\<rparr>)"
    "console_ok c'"
    by (rule print_sys_total [OF con4, of "''ready to schedule................!!!!\<newline>''" "[]"]) simp_all
  have tab3: "proc_table_ok s3 l"
    by (rule mail_change_table [OF s3(2)], rule proc_table_ok_cong [OF tab]) (use nl at2 l2 in auto)
  have tab4: "proc_table_ok s4 l"
  proof (rule proc_table_ok_cong [OF tab3])
    fix i assume "i \<in> set l"
    then have "i \<noteq> new" using nl by blast
    then have "proc s4 i = proc s3 i" by (simp add: s4_def)
    then show "p_next (proc s4 i) = p_next (proc s3 i) \<and> p_prev (proc s4 i) = p_prev (proc s3 i) \<and>
      p_flag (proc s4 i) = p_flag (proc s3 i) \<and> p_pid (proc s4 i) = p_pid (proc s3 i)" by simp
  qed (simp add: s4_def)
  have ln3: "new < length (Proc s3)" using tab3 n(1) by (simp add: proc_table_ok_def)
  have eq3: "mail_eq (proc s2 new) (proc s3 new)" using s3(2) by (simp add: mail_change_def)
  have at4: "\<not> p_flag (proc s4 new)" "p_pid (proc s4 new) = int new" "p_cr3 (proc s4 new) = cr3_of ?pd" "p_esp (proc s4 new) = 0xBFFFFFC8"
    using mail_eqD [OF eq3] ln3 at2 by (simp_all add: s4_def g_def nth_upd_at)
  have st4: "p_status (proc s4 i) = p_status (proc s i)" if "i \<noteq> new" for i
    using that at2 mail_change_status [OF s3(2), of i] by (simp add: s4_def nth_upd_at)
  obtain Q where Q: "link_before_init new (Proc s4) = Inr Q"
    "\<forall>s'. Proc s' = upd_at new (p_status_update (\<lambda>_. STATUS_WAITING)) Q \<longrightarrow> proc_table_ok s' (l @ [new])"
    "p_status (upd_at new (p_status_update (\<lambda>_. STATUS_WAITING)) Q ! new) = STATUS_WAITING"
    "p_cr3 (upd_at new (p_status_update (\<lambda>_. STATUS_WAITING)) Q ! new) = cr3_of ?pd"
    "p_esp (upd_at new (p_status_update (\<lambda>_. STATUS_WAITING)) Q ! new) = 0xBFFFFFC8"
    "\<forall>i < MAX_PROC. i \<noteq> new \<longrightarrow> p_status (upd_at new (p_status_update (\<lambda>_. STATUS_WAITING)) Q ! i) = p_status (proc s4 i)"
    using link_new_process [OF tab4 n(1) nl at4(1,2)] at4(3,4) unfolding Let_def by metis
  define s' where "s' = unlock (upd_proc new (p_status_update (\<lambda>_. STATUS_WAITING)) ((lock (s4\<lparr>con := c'\<rparr>))\<lparr>Proc := Q\<rparr>))"
  have fe: "Find_Empty_PCB (lock s) = Some new" using new(1) by (simp add: Find_Empty_PCB_def)
  have run: "Create_uthread m call A name ((fl, w), s) = Some (Inr ((fl3, w3), s'))"
    using s3(1) c'(1) Q(1)
    by (simp add: Create_uthread_def fe Let_def set_up_def [symmetric] s1_def [symmetric] v s2_def [symmetric] s4 s'_def)
  have Ps: "Proc s' = upd_at new (p_status_update (\<lambda>_. STATUS_WAITING)) Q" and ms: "mem s' = m'" "con s' = c'"
    by (simp_all add: s'_def s4_def)
  have "only (writes A scratch ?pd ?FR) (mem s) m'"
    by (rule only_trans [OF on2 s3(3)])
  then show ?thesis
    using run Q(2-6) Ps ms c'(2) s3(5) st4 by (intro exI [of _ "(fl3, w3)"] exI [of _ s']) simp
qed

end

end
