(* ===== verification/Services.thy ===== *)
theory Services
  imports Loader FileService
begin

text \<open>
  The services a loader uses, provided by the servers: file server, disk driver and memory server, with each request
  served at once. This interprets the interface of \<open>Loader\<close> and so joins the process server to all the
  servers below it.
\<close>

section \<open>The servers\<close>

text \<open>One round of the file server and of the memory server on the state of all servers: the use counts of the frames, the
  cache and the disk, and the system.\<close>

definition fm_round ::
    "'d device \<Rightarrow> u32 \<Rightarrow> message \<Rightarrow> message \<Rightarrow> (sector_cache list \<times> 'd) world \<Rightarrow> (error + (sector_cache list \<times> 'd) world) option" where
  "fm_round dev data_p m0 m = (\<lambda>((fl, w), s).
     Some (bindE (fm_message m0 (call_now (ide_message dev data_p) (nat FM)) FM m (w, s)) (\<lambda>(w, s). Inr ((fl, w), s))))"

definition mm_round :: "message \<Rightarrow> 'w world \<Rightarrow> (error + 'w world) option" where
  "mm_round m = (\<lambda>((fl, w), s). Some (bindE (mm_message m (fl, s)) (\<lambda>(fl, s). Inr ((fl, w), s))))"

text \<open>The calls of process \<open>c\<close>.\<close>

definition serve :: "'d device \<Rightarrow> u32 \<Rightarrow> message \<Rightarrow> nat \<Rightarrow> (sector_cache list \<times> 'd) world call" where
  "serve dev data_p m0 c t m st =
     (if t = FM then call_now (fm_round dev data_p m0) c FM m st
      else if t = MM then call_now mm_round c MM m st else Inl (Fault ''server''))"

abbreviation server_set :: "nat \<Rightarrow> nat set" where
  "server_set c \<equiv> {c, nat FM, nat IDE, nat MM}"

text \<open>The files of the disk as the file server shows them, each with the zeros that fill its place.\<close>

definition disk_files :: "u8 list list \<Rightarrow> u32 \<Rightarrow> u8 list" where
  "disk_files files f =
     (if 1 \<le> unat f \<and> unat f \<le> length files then padded (unat File_Size) (files ! (unat f - 1)) else [])"

text \<open>What a request for reading shows: \<open>FM_READ\<close> ignores the name of the file and reads from the first file on.\<close>

definition disk_source :: "u8 list list \<Rightarrow> u32 \<Rightarrow> u32 \<Rightarrow> u8 list" where
  "disk_source files ty f =
     (if ty = FM_READ_FILE then disk_files files f
      else if ty = FM_READ then concat (map (padded (unat File_Size)) files) else [])"

lemma disk_source_file: "disk_source files FM_READ_FILE f = disk_files files f"
  by (simp add: disk_source_def)

text \<open>Everyone waits, the kernel's tables are in \<open>K\<close>, and the disk has the image.\<close>

definition servers_ready ::
    "('d \<Rightarrow> bool) \<Rightarrow> ('d \<Rightarrow> u32 \<Rightarrow> u8 list) \<Rightarrow> u8 list \<Rightarrow> u32 set \<Rightarrow> nat \<Rightarrow> (sector_cache list \<times> 'd) world \<Rightarrow> bool" where
  "servers_ready idle disk img K c = (\<lambda>((fl, cache, d), s).
     quiet (server_set c) s \<and> current_pcb s = c \<and> length (Proc s) = MAX_PROC \<and>
     kernel_space (mem s) (p_cr3 (proc s (nat FM))) K \<and> idle d \<and> cache_ok cache (disk d) \<and>
     (\<forall>j < length img. device_byte cache (disk d) (of_nat j) = img ! j))"

text \<open>What has to hold once and for all.\<close>

definition installed ::
    "'d device \<Rightarrow> ('d \<Rightarrow> bool) \<Rightarrow> ('d \<Rightarrow> u32 \<Rightarrow> u8 list) \<Rightarrow> u8 list \<Rightarrow> u8 list list \<Rightarrow> u8 list \<Rightarrow> u32 set \<Rightarrow> u32 \<Rightarrow> nat \<Rightarrow> bool" where
  "installed dev idle disk kern files img K data_p c \<longleftrightarrow> ata_drive dev idle disk \<and>
     length kern \<le> unat Kernel_Size \<and> (\<forall>f \<in> set files. length f \<le> unat File_Size) \<and> makefs (kern # files) = Some (Some img) \<and>
     kdata data_p 4 \<and> (\<forall>x \<in> K. unat x < 0x1000000) \<and> K \<inter> kbytes data_p 4 = {} \<and> c < MAX_PROC \<and> c \<notin> {nat FM, nat IDE, nat MM}"

lemma server_ids [simp]: "nat FM \<noteq> nat IDE" "nat FM \<noteq> nat MM" "nat IDE \<noteq> nat MM" "int (nat FM) = FM" "int (nat MM) = MM" "int (nat IDE) = IDE"
  by (simp_all add: FM_def IDE_def MM_def)

lemma quiet_box: "quiet D s \<Longrightarrow> j \<in> D \<Longrightarrow> box s j [] [] [] 0"
  by (simp add: quiet_def)

lemma disk_source_byte:
  assumes "length kern \<le> unat Kernel_Size" "\<forall>f \<in> set files. length f \<le> unat File_Size" "makefs (kern # files) = Some (Some img)"
    and seen: "\<forall>i < length img. b (of_nat i :: u32) = img ! i"
    and k: "unat (fm_offset m) + j < length (disk_source files (m_type m) (fm_file_name m))"
  shows "b (disk_place m + of_nat j) = disk_source files (m_type m) (fm_file_name m) ! (unat (fm_offset m) + j)"
proof -
  let ?k = "unat (fm_offset m)"
  have img: "img = padded (unat Kernel_Size) kern @ concat (map (padded (unat File_Size)) files)"
    using makefs_image [OF assms(1,2)] assms(3) by simp
  have pk: "length (padded (unat Kernel_Size) kern) = 1048576" using length_padded [OF assms(1)] by (simp add: sizes)
  show ?thesis
  proof (cases "m_type m = FM_READ_FILE")
    case True
    then have d: "disk_source files (m_type m) (fm_file_name m) = disk_files files (fm_file_name m)" by (simp add: disk_source_def)
    then have "disk_files files (fm_file_name m) \<noteq> []" using k by auto
    then have nm: "1 \<le> unat (fm_file_name m)" "unat (fm_file_name m) \<le> length files" by (auto simp: disk_files_def split: if_splits)
    define i where "i = unat (fm_file_name m) - 1"
    have i: "i < length files" "fm_file_name m = of_nat (Suc i)" using nm by (simp_all add: i_def)
    have f: "disk_files files (fm_file_name m) = padded (unat File_Size) (files ! i)" using nm by (simp add: disk_files_def i_def)
    have "files ! i \<in> set files" using i(1) by simp
    then have "length (padded (unat File_Size) (files ! i)) = 65536" using assms(2) length_padded sizes by metis
    then have kj: "?k + j < 65536" using k by (simp add: d f)
    note ip = image_place_byte [OF assms(1-3) i(1) kj]
    have "disk_place m + of_nat j = of_nat (1048576 + (i * 65536 + (?k + j)))"
      using True i(2) by (simp add: disk_place_def Kernel_Size_def File_Size_def)
    then show ?thesis using ip seen unfolding d f by metis
  next
    case False
    then have d: "disk_source files (m_type m) (fm_file_name m) = concat (map (padded (unat File_Size)) files)"
      using k by (auto simp: disk_source_def split: if_splits)
    have "disk_place m + of_nat j = of_nat (1048576 + (?k + j))" using False by (simp add: disk_place_def Kernel_Size_def)
    moreover have "1048576 + (?k + j) < length img" "img ! (1048576 + (?k + j)) = concat (map (padded (unat File_Size)) files) ! (?k + j)"
      using k pk by (simp_all add: d img nth_append)
    ultimately show ?thesis using seen unfolding d by metis
  qed
qed

text \<open>A request to the file server.\<close>

lemma serve_read_file:
  assumes ins: "installed dev idle disk kern files img K data_p c"
    and r: "servers_ready idle disk img K c ((fl, w), s)"
    and buf: "kdata (fm_buf m) n" "kbytes (fm_buf m) n \<inter> (K \<union> kbytes data_p 4) = {}"
    and ne: "disk_source files (m_type m) (fm_file_name m) \<noteq> []"
    and n: "n = unat (fm_length m)" "unat (fm_offset m) + n \<le> length (disk_source files (m_type m) (fm_file_name m))"
  shows "\<exists>r w' s'. serve dev data_p m0 c FM m ((fl, w), s) = Inr (r, (fl, w'), s') \<and>
    servers_ready idle disk img K c ((fl, w'), s') \<and> mail_change (server_set c) s s' \<and>
    only (kbytes (fm_buf m) n \<union> kbytes data_p 4) (mem s) (mem s') \<and>
    (\<forall>j < n. mem s' (kphys (fm_buf m + of_nat j)) = disk_source files (m_type m) (fm_file_name m) ! (unat (fm_offset m) + j))"
proof -
  let ?D = "server_set c" and ?k = "unat (fm_offset m)"
  define m' where "m' = m\<lparr>m_src := int c, m_dest := int (nat FM)\<rparr>"
  define a where "a = (\<lambda>i. kphys (fm_buf m + of_nat i))"
  obtain cache d where w: "w = (cache, d)" by (cases w)
  have I: "ata_drive dev idle disk" "length kern \<le> unat Kernel_Size" "\<forall>f \<in> set files. length f \<le> unat File_Size"
    "makefs (kern # files) = Some (Some img)" "kdata data_p 4" "K \<inter> kbytes data_p 4 = {}" "c \<noteq> nat FM"
    using ins by (simp_all add: installed_def)
  have R: "quiet ?D s" "current_pcb s = c" "kernel_space (mem s) (p_cr3 (proc s (nat FM))) K" "idle d" "cache_ok cache (disk d)"
    "\<forall>j < length img. device_byte cache (disk d) (of_nat j) = img ! j" "length (Proc s) = MAX_PROC"
    using r by (simp_all add: servers_ready_def w)
  have bytes: "\<forall>j < n. device_byte cache (disk d) (disk_place m + of_nat j) = disk_source files (m_type m) (fm_file_name m) ! (?k + j)"
    using disk_source_byte [OF I(2-4)] R(6) n(2) by simp
  have ty: "m_type m = FM_READ_FILE \<or> m_type m = FM_READ" using ne by (auto simp: disk_source_def split: if_splits)
  have wb: "word_bytes (kphys data_p) = kbytes data_p 4" by (rule kdata_word [OF I(5)])
  let ?W = "kbytes (fm_buf m) n \<union> kbytes data_p 4"
  have WK: "?W \<inter> K = {}" using buf(2) I(6) by blast
  have im: "a ` {..<n} \<union> word_bytes (kphys data_p) \<subseteq> ?W" using kdata_at(2) [OF buf(1)] by (auto simp: wb a_def)
  have off: "\<forall>j < n. a j \<notin> word_bytes (kphys data_p)" using kdata_at(2) [OF buf(1)] buf(2) unfolding wb a_def by blast
  have work: "\<exists>r x' s2. fm_round dev data_p m0 m' (((fl, w), s1)) = Some (reply (int c) r (x', s2)) \<and> quiet ?D s2 \<and> mail_change ?D s1 s2 \<and>
      (\<exists>cache' e. x' = (fl, cache', e) \<and> idle e \<and> cache_ok cache' (disk e) \<and> device_byte cache' (disk e) = device_byte cache (disk d) \<and>
        only ?W (mem s) (mem s2) \<and> (\<forall>j < n. mem s2 (a j) = disk_source files (m_type m) (fm_file_name m) ! (?k + j)))"
    if s1: "quiet ?D s1" "mem s1 = mem s" "mail_change ?D (s\<lparr>current_pcb := nat FM\<rparr>) s1" for s1
  proof -
    have c: "current_pcb s1 = nat FM" "p_cr3 (proc s1 (nat FM)) = p_cr3 (proc s (nat FM))"
      using s1(3) mail_change_cr3 [OF s1(3), of "nat FM"] by (simp_all add: mail_change_def)
    have ks: "kernel_space (mem s1) (p_cr3 (proc s1 (nat FM))) K" using R(3) by (simp add: c(2) s1(2))
    note kb = kernel_buffer [OF ks buf(1)]
    have apt: "tables_apart (mem s1) (p_cr3 (proc s1 (nat FM))) (fm_buf m') n (a ` {..<n} \<union> word_bytes (kphys data_p))"
      using kb(2) [of "a ` {..<n} \<union> word_bytes (kphys data_p)"] im WK by (auto simp: fm_buf_def m'_def a_def)
    have mp: "user_mapped (mem s1) (p_cr3 (proc s1 (nat FM))) (fm_buf m') n a" using kb(1) by (simp add: fm_buf_def m'_def a_def)
    have mm: "m_type m' = FM_READ_FILE \<or> m_type m' = FM_READ" "m_src m' = int c" "unat (fm_length m') = n"
      using ty n(1) by (simp_all add: fm_length_def m'_def)
    have dp: "disk_place m' = disk_place m" by (simp add: m'_def disk_place_def fm_offset_def fm_file_name_def)
    have D: "nat FM \<in> ?D" "nat IDE \<in> ?D" by simp_all
    from file_read_work [OF s1(1) D c(1) I(1) R(4,5) mm bytes [folded dp] mp apt kdata_inj [OF buf(1), folded a_def] off, of m0]
    obtain cache' e s2 where s2: "fm_message m0 (call_now (ide_message dev data_p) (nat FM)) FM m' ((cache, d), s1) =
        reply (int c) (m'\<lparr>m_w0 := fm_length m', m_type := -1\<rparr>) ((cache', e), s2)"
      "quiet ?D s2" "mail_change ?D s1 s2" "\<forall>j < n. mem s2 (a j) = disk_source files (m_type m) (fm_file_name m) ! (?k + j)"
      "\<forall>x. x \<notin> a ` {..<n} \<union> word_bytes (kphys data_p) \<longrightarrow> mem s2 x = mem s1 x"
      "idle e" "cache_ok cache' (disk e)" "device_byte cache' (disk e) = device_byte cache (disk d)"
      by (elim exE conjE)
    have "only (a ` {..<n} \<union> word_bytes (kphys data_p)) (mem s) (mem s2)" using s2(5) by (simp only: only_def s1(2))
    then have on: "only ?W (mem s) (mem s2)" by (rule only_mono) (rule im)
    have round: "fm_round dev data_p m0 m' ((fl, w), s1) =
        Some (reply (int c) (m'\<lparr>m_w0 := fm_length m', m_type := -1\<rparr>) ((fl, cache', e), s2))"
    proof -
      have "bindE (reply (int c) r ((cache', e), s2)) (\<lambda>(w, s). Inr ((fl, w), s)) = reply (int c) r ((fl, cache', e), s2)" for r
        by (cases "send (int c) r s2") (simp_all add: reply_def)
      then show ?thesis by (simp add: fm_round_def w s2(1) del: int_nat_eq)
    qed
    show ?thesis
      by (intro exI conjI) (rule round s2 on refl)+
  qed
  have D: "c \<in> ?D" "nat FM \<in> ?D" by simp_all
  have "\<exists>r x' s'. rpc (fm_round dev data_p m0) c (nat FM) m ((fl, w), s) = Some (Inr (r\<lparr>m_src := int (nat FM), m_dest := int c\<rparr>, x', s')) \<and>
      quiet ?D s' \<and> mail_change ?D s s' \<and>
      (\<exists>cache' e. x' = (fl, cache', e) \<and> idle e \<and> cache_ok cache' (disk e) \<and> device_byte cache' (disk e) = device_byte cache (disk d) \<and>
        only ?W (mem s) (mem s') \<and> (\<forall>j < n. mem s' (a j) = disk_source files (m_type m) (fm_file_name m) ! (?k + j)))"
    by (rule rpc_quiet [OF R(1) D I(7) R(2)]) (rule work [unfolded m'_def])
  then obtain r cache' e s' where f: "rpc (fm_round dev data_p m0) c (nat FM) m ((fl, w), s) =
      Some (Inr (r\<lparr>m_src := int (nat FM), m_dest := int c\<rparr>, (fl, cache', e), s'))"
    "quiet ?D s'" "mail_change ?D s s'" "idle e" "cache_ok cache' (disk e)" "device_byte cache' (disk e) = device_byte cache (disk d)"
    "only ?W (mem s) (mem s')" "\<forall>j < n. mem s' (a j) = disk_source files (m_type m) (fm_file_name m) ! (?k + j)" by blast
  have "serve dev data_p m0 c FM m ((fl, w), s) = Inr (r\<lparr>m_src := int (nat FM), m_dest := int c\<rparr>, (fl, cache', e), s')"
    using f(1) by (simp add: serve_def call_now_def)
  moreover have "servers_ready idle disk img K c ((fl, cache', e), s')"
    using f(2-6) R mail_change_cr3 [OF f(3), of "nat FM"] kernel_space_keep [OF R(3) only_disjoint [OF f(7) WK]]
    by (simp add: servers_ready_def mail_change_def)
  ultimately show ?thesis using f(3,7,8) unfolding a_def by blast
qed

text \<open>A request to the memory server that it serves by writing to the memory.\<close>

lemma serve_memory:
  assumes r: "servers_ready idle disk img K c ((fl, w), s)" and c: "c \<noteq> nat MM" "c \<noteq> nat FM"
    and round: "\<And>s1. length (Proc s1) = MAX_PROC \<Longrightarrow> Proc_addr s1 = Proc_addr s \<Longrightarrow> mem s1 = mem s \<Longrightarrow>
      mm_message (m\<lparr>m_src := int c, m_dest := int (nat MM)\<rparr>) (fl, s1) = reply (int c) r1 (Ppage_flag v, s1\<lparr>mem := mm_mem v\<rparr>)"
    and W: "only W (mem s) (mm_mem v)" "W \<inter> K = {}"
  shows "\<exists>r s'. serve dev data_p m0 c MM m ((fl, w), s) = Inr (r, (Ppage_flag v, w), s') \<and>
    servers_ready idle disk img K c ((Ppage_flag v, w), s') \<and> mail_change (server_set c) s s' \<and> mem s' = mm_mem v"
proof -
  let ?D = "server_set c" and ?m = "m\<lparr>m_src := int c, m_dest := int (nat MM)\<rparr>"
  obtain cache d where w: "w = (cache, d)" by (cases w)
  have R: "quiet ?D s" "current_pcb s = c" "kernel_space (mem s) (p_cr3 (proc s (nat FM))) K" "idle d" "cache_ok cache (disk d)"
    "\<forall>j < length img. device_byte cache (disk d) (of_nat j) = img ! j" "length (Proc s) = MAX_PROC"
    using r by (simp_all add: servers_ready_def w)
  have work: "\<exists>r x' s2. mm_round ?m ((fl, w), s1) = Some (reply (int c) r (x', s2)) \<and> quiet ?D s2 \<and> mail_change ?D s1 s2 \<and>
      x' = (Ppage_flag v, w) \<and> mem s2 = mm_mem v"
    if s1: "quiet ?D s1" "mem s1 = mem s" "mail_change ?D (s\<lparr>current_pcb := nat MM\<rparr>) s1" for s1
  proof -
    have "length (Proc s1) = MAX_PROC" "Proc_addr s1 = Proc_addr s" using s1(3) R(7) by (simp_all add: mail_change_def)
    note rd = round [OF this s1(2)]
    have "bindE (reply (int c) r (f, s2)) (\<lambda>(fl, s). Inr ((fl, w), s)) = reply (int c) r ((f, w), s2)" for r f s2
      by (cases "send (int c) r s2") (simp_all add: reply_def)
    with rd have e: "mm_round ?m ((fl, w), s1) = Some (reply (int c) r1 ((Ppage_flag v, w), s1\<lparr>mem := mm_mem v\<rparr>))"
      by (simp add: mm_round_def del: int_nat_eq)
    show ?thesis by (intro exI conjI, rule e) (simp_all add: s1(1))
  qed
  have D: "c \<in> ?D" "nat MM \<in> ?D" by simp_all
  have "\<exists>r x' s'. rpc mm_round c (nat MM) m ((fl, w), s) = Some (Inr (r\<lparr>m_src := int (nat MM), m_dest := int c\<rparr>, x', s')) \<and>
      quiet ?D s' \<and> mail_change ?D s s' \<and> x' = (Ppage_flag v, w) \<and> mem s' = mm_mem v"
    by (rule rpc_quiet [OF R(1) D c(1) R(2)]) (rule work)
  then obtain r s' where f: "rpc mm_round c (nat MM) m ((fl, w), s) = Some (Inr (r\<lparr>m_src := int (nat MM), m_dest := int c\<rparr>, (Ppage_flag v, w), s'))"
    "quiet ?D s'" "mail_change ?D s s'" "mem s' = mm_mem v" by blast
  have "MM \<noteq> FM" by (simp add: MM_def FM_def)
  then have "serve dev data_p m0 c MM m ((fl, w), s) = Inr (r\<lparr>m_src := int (nat MM), m_dest := int c\<rparr>, (Ppage_flag v, w), s')"
    using f(1) by (simp add: serve_def call_now_def)
  moreover have "kernel_space (mm_mem v) (p_cr3 (proc s (nat FM))) K" by (rule kernel_space_keep [OF R(3) only_disjoint [OF W]])
  then have "servers_ready idle disk img K c ((Ppage_flag v, w), s')"
    using f(2-4) R mail_change_cr3 [OF f(3), of "nat FM"] by (simp add: servers_ready_def mail_change_def w)
  ultimately show ?thesis using f(3,4) by blast
qed

text \<open>The pages of a segment, and the clearing of a space.\<close>

lemma serve_allocate:
  assumes r: "servers_ready idle disk img K c ((fl, w), s)" and c: "c \<noteq> nat MM" "c \<noteq> nat FM"
    and m: "m_type m = MM_ALLOCATE" "mm_target m = pcb_addr s i" "i < MAX_PROC"
    and v: "allocate_page (pagedir_addr s i) (mm_start m) (mm_length m) (mm_of (fl, s)) = Inr v"
    and W: "only W (mem s) (mm_mem v)" "W \<inter> K = {}"
  shows "\<exists>r s'. serve dev data_p m0 c MM m ((fl, w), s) = Inr (r, (Ppage_flag v, w), s') \<and>
    servers_ready idle disk img K c ((Ppage_flag v, w), s') \<and> mail_change (server_set c) s s' \<and> mem s' = mm_mem v"
proof (rule serve_memory [OF r c _ W])
  fix s1 :: sys
  assume s1: "length (Proc s1) = MAX_PROC" "Proc_addr s1 = Proc_addr s" "mem s1 = mem s"
  then have a: "pcb_addr s1 i = pcb_addr s i" "pagedir_addr s1 i = pagedir_addr s i" by (simp_all add: pcb_addr_def pagedir_addr_def)
  show "mm_message (m\<lparr>m_src := int c, m_dest := int (nat MM)\<rparr>) (fl, s1) =
      reply (int c) (m\<lparr>m_src := int c, m_dest := int (nat MM), m_type := -1\<rparr>) (Ppage_flag v, s1\<lparr>mem := mm_mem v\<rparr>)"
    using v m pcb_of_addr [OF s1(1) m(3)] a s1(3)
    by (simp add: mm_message_def mm_target_def mm_start_def mm_length_def Let_def put_mm_def mm_of_def)
qed

lemma serve_reset:
  assumes r: "servers_ready idle disk img K c ((fl, w), s)" and c: "c \<noteq> nat MM" "c \<noteq> nat FM"
    and m: "m_type m = MM_EXEC" "mm_target m = pcb_addr s i" "i < MAX_PROC"
    and v: "exec_page (pagedir_addr s i) (mm_of (fl, s)) = Inr v"
    and W: "only W (mem s) (mm_mem v)" "W \<inter> K = {}"
  shows "\<exists>r s'. serve dev data_p m0 c MM m ((fl, w), s) = Inr (r, (Ppage_flag v, w), s') \<and>
    servers_ready idle disk img K c ((Ppage_flag v, w), s') \<and> mail_change (server_set c) s s' \<and> mem s' = mm_mem v"
proof (rule serve_memory [OF r c _ W])
  fix s1 :: sys
  assume s1: "length (Proc s1) = MAX_PROC" "Proc_addr s1 = Proc_addr s" "mem s1 = mem s"
  then have a: "pcb_addr s1 i = pcb_addr s i" "pagedir_addr s1 i = pagedir_addr s i" by (simp_all add: pcb_addr_def pagedir_addr_def)
  show "mm_message (m\<lparr>m_src := int c, m_dest := int (nat MM)\<rparr>) (fl, s1) =
      reply (int c) (m\<lparr>m_src := int c, m_dest := int (nat MM), m_type := -1\<rparr>) (Ppage_flag v, s1\<lparr>mem := mm_mem v\<rparr>)"
    using v m pcb_of_addr [OF s1(1) m(3)] a s1(3)
    by (simp add: mm_message_def mm_types mm_target_def Let_def put_mm_def mm_of_def)
qed

text \<open>Together: the interface of the loader.\<close>

lemma serve_services:
  assumes ins: "installed dev idle disk kern files img K data_p c"
  shows "program_services (serve dev data_p m0 c) (servers_ready idle disk img K c) (server_set c) K (kbytes data_p 4) (disk_source files)"
proof
  have I: "kdata data_p 4" "\<forall>x \<in> K. unat x < 0x1000000" "c \<noteq> nat FM" "c \<noteq> nat MM"
    using ins by (simp_all add: installed_def)
  show "unat x < 0x1000000" if "x \<in> K \<union> kbytes data_p 4" for x using that I kbytes_low by blast
  show "\<exists>r w' s'. serve dev data_p m0 c FM m ((fl, w), s) = Inr (r, (fl, w'), s') \<and>
      servers_ready idle disk img K c ((fl, w'), s') \<and> mail_change (server_set c) s s' \<and>
      only (kbytes (fm_buf m) n \<union> kbytes data_p 4) (mem s) (mem s') \<and>
      (\<forall>j < n. mem s' (kphys (fm_buf m + of_nat j)) = disk_source files (m_type m) (fm_file_name m) ! (unat (fm_offset m) + j))"
    if "servers_ready idle disk img K c ((fl, w), s)" "kdata (fm_buf m) n"
      "kbytes (fm_buf m) n \<inter> (K \<union> kbytes data_p 4) = {}" "n = unat (fm_length m)" "disk_source files (m_type m) (fm_file_name m) \<noteq> []"
      "unat (fm_offset m) + n \<le> length (disk_source files (m_type m) (fm_file_name m))" for fl w s m n
    by (rule serve_read_file [OF ins that(1-3,5,4,6)])
  show "\<exists>r s'. serve dev data_p m0 c MM m ((fl, w), s) = Inr (r, (Ppage_flag v, w), s') \<and>
      servers_ready idle disk img K c ((Ppage_flag v, w), s') \<and> mail_change (server_set c) s s' \<and> mem s' = mm_mem v"
    if "servers_ready idle disk img K c ((fl, w), s)" "m_type m = MM_ALLOCATE" "mm_target m = pcb_addr s i" "i < MAX_PROC"
      "allocate_page (pagedir_addr s i) (mm_start m) (mm_length m) (mm_of (fl, s)) = Inr v" "only W (mem s) (mm_mem v)" "W \<inter> K = {}"
    for fl w s m i v W
    by (rule serve_allocate [OF that(1) I(4,3) that(2-7)])
  show "servers_ready idle disk img K c ((fl', w), s')"
    if r: "servers_ready idle disk img K c ((fl, w), s)" and l: "leaves_alone (server_set c) s s'" and k: "\<forall>x \<in> K. mem s' x = mem s x"
    for fl fl' w s s'
  proof -
    obtain cache d where w: "w = (cache, d)" by (cases w)
    have "box s' j = box s j" if "j \<in> server_set c" for j
    proof -
      have "proc s' j = proc s j" "length (Proc s') = length (Proc s)" using l that unfolding leaves_alone_def by blast+
      then show ?thesis by (simp add: box_def fun_eq_iff)
    qed
    then have "quiet (server_set c) s'" using r l by (simp add: servers_ready_def w quiet_def leaves_alone_def)
    moreover have "kernel_space (mem s') (p_cr3 (proc s (nat FM))) K"
      using r by (intro kernel_space_keep [OF _ k]) (simp add: servers_ready_def w)
    ultimately show ?thesis using r l by (simp add: servers_ready_def w leaves_alone_def)
  qed
qed

end
