(* ===== verification/FirstProgram.thy ===== *)
theory FirstProgram
  imports Startup Services
begin

text \<open>
  From the kernel image to the first user process: the state in which \<open>os_init\<close> (kernel/main.c) enables interrupts is one
  where the servers of \<open>Services\<close> serve requests, so its call of \<open>Create_uthread\<close> loads program 1 from the disk.
\<close>

section \<open>The tables of the kernel\<close>

lemma kphys_kernel: "0xC0000000 \<le> unat p \<Longrightarrow> kphys p = va_to_pa p"
  by (simp add: kphys_def in_kernel_def KOFFSET_def word_le_nat_alt)

lemma kbytes_word:
  assumes "kdata p (4 * n)" "k < n"
  shows "word_bytes (word_at (va_to_pa p) k) \<subseteq> kbytes p (4 * n)"
proof
  fix x assume "x \<in> word_bytes (word_at (va_to_pa p) k)"
  then obtain i where i: "i < 4" "x = word_at (va_to_pa p) k + of_nat i" by (auto simp: word_bytes_nth)
  have l: "4 * k + i < 4 * n" using i(1) assms(2) by linarith
  have "x = kphys p + of_nat (4 * k + i)" using i(2) assms(1) by (simp add: word_at_def kphys_kernel kdata_def)
  then have "x = kphys (p + of_nat (4 * k + i))" using kdata_at(3) [OF assms(1) l] by simp
  then show "x \<in> kbytes p (4 * n)" using kdata_at(2) [OF assms(1) l] by simp
qed

lemma kdata_pa: "kdata p n \<Longrightarrow> unat (va_to_pa p) = unat p - 0xC0000000"
  by (auto simp: kdata_def va_to_pa_def KOFFSET_def unat_sub word_le_nat_alt)

lemma kdata_array: "kdata p (4 * n) \<Longrightarrow> 4096 dvd unat (va_to_pa p) \<Longrightarrow> warray (va_to_pa p) n"
  using kdata_pa [of p "4 * n"] by (auto simp: warray_def aligned4_def kdata_def intro: dvd_trans [of 4 4096])

text \<open>The page directory at \<open>dirp\<close> and the 32 page tables at \<open>tabp\<close>.\<close>

definition kernel_tables :: "u32 \<Rightarrow> u32 \<Rightarrow> u32 set" where
  "kernel_tables dirp tabp = kbytes dirp 4096 \<union> kbytes tabp 131072"

definition tables_placed :: "u32 \<Rightarrow> u32 \<Rightarrow> bool" where
  "tables_placed dirp tabp \<longleftrightarrow> kdata dirp 4096 \<and> kdata tabp 131072 \<and> 4096 dvd unat (va_to_pa dirp) \<and>
     4096 dvd unat (va_to_pa tabp) \<and> (unat dirp + 4096 \<le> unat tabp \<or> unat tabp + 131072 \<le> unat dirp)"

lemma init_page_kernel_space:
  assumes "tables_placed dirp tabp"
  shows "kernel_space (snd (init_page dirp tabp m)) (make_cr3 (va_to_pa dirp)) (kernel_tables dirp tabp)"
proof -
  have p: "kdata dirp (4 * 1024)" "kdata tabp (4 * 32768)" "4096 dvd unat (va_to_pa dirp)" "4096 dvd unat (va_to_pa tabp)"
    using assms by (simp_all add: tables_placed_def)
  have d: "warray (va_to_pa dirp) 1024" and t: "warray (va_to_pa tabp) 32768" using kdata_array p by blast+
  have "apart (va_to_pa dirp) 1024 (va_to_pa tabp) 32768"
    using assms kdata_pa [OF p(1)] kdata_pa [OF p(2)] by (auto simp: apart_def tables_placed_def kdata_def)
  note up = init_page_tables(2) [OF t d this, of m] and cr3 = make_cr3_frame [OF p(3)]
  show ?thesis
    unfolding kernel_space_def
  proof (intro conjI allI impI ballI)
    show "unat x < 0x1000000" if "x \<in> kernel_tables dirp tabp" for x
      using that kbytes_low [OF p(1)] kbytes_low [OF p(2)] by (auto simp: kernel_tables_def)
    fix va :: u32 assume va: "0xC0000000 \<le> unat va" "unat va < 0xC1000000"
    have q: "unat va div 4194304 < 32 \<or> 768 \<le> unat va div 4194304 \<and> unat va div 4194304 < 800" using va by linarith
    note walk = tables_upto_walk [OF t p(4) up cr3 q]
    have "\<not> va < USER_MEM_HIGH" "KOFFSET \<le> va" "va < KOFFSET + USER_MEM_HIGH"
      using va by (simp_all add: USER_MEM_HIGH_def KOFFSET_def word_less_nat_alt word_le_nat_alt)
    then show "translate (snd (init_page dirp tabp m)) (make_cr3 (va_to_pa dirp)) va = Some (kphys va)"
      using tables_upto_translate [OF t p(4) up cr3] va by (simp add: kphys_kernel)
    have "unat va div 4194304 < 1024" using q by linarith
    then show "word_bytes (pde_ptr (make_cr3 (va_to_pa dirp)) va) \<subseteq> kernel_tables dirp tabp"
      using kbytes_word [OF p(1)] by (auto simp: walk(1) kernel_tables_def)
    show "word_bytes (pte_ptr (snd (init_page dirp tabp m)) (make_cr3 (va_to_pa dirp)) va) \<subseteq> kernel_tables dirp tabp"
      using kbytes_word [OF p(2) walk(3)] by (auto simp: walk(2) kernel_tables_def)
  qed
qed

section \<open>The servers after the start\<close>

lemma all_frames_free:
  assumes "\<forall>i < NR_PPAGE_ENTRY. fl (of_nat i) = 0"
  shows "28672 \<le> card (free_frames (mm_of (fl, s)))"
proof -
  have inj: "inj_on (\<lambda>i. id_to_pa (of_nat i)) {..<28672}"
  proof (rule inj_onI)
    fix i j :: nat
    assume "i \<in> {..<28672}" "j \<in> {..<28672}" and e: "id_to_pa (of_nat i) = id_to_pa (of_nat j)"
    then have ij: "i < 28672" "j < 28672" by (simp_all only: lessThan_iff)
    have "unat (id_to_pa (of_nat i)) = unat (id_to_pa (of_nat j))" using e by (rule arg_cong)
    then show "i = j" unfolding unat_id_to_pa [OF ij(1)] unat_id_to_pa [OF ij(2)] by simp
  qed
  have "id_to_pa (of_nat i) \<in> free_frames (mm_of (fl, s))" if "i < 28672" for i
    using that assms by (simp add: free_frames_def AddressSpace.user_frame_def in_use_def unat_id_to_pa mm_of_def)
  then have "(\<lambda>i. id_to_pa (of_nat i)) ` {..<28672} \<subseteq> free_frames (mm_of (fl, s))" by auto
  from card_mono [OF finite_free_frames this] show ?thesis by (simp add: card_image [OF inj])
qed

lemma cache_init_at:
  assumes "length cache = 127"
  shows "length (cache_init cache) = 127" "\<forall>i < 127. cache_init cache ! i = (cache ! i)\<lparr>sc_used := False\<rparr>"
proof -
  have f: "length (fold (\<lambda>i. upd_at i (sc_used_update (\<lambda>_. False))) [0..<n] cache) = length cache \<and>
      (\<forall>i < length cache. fold (\<lambda>i. upd_at i (sc_used_update (\<lambda>_. False))) [0..<n] cache ! i =
        (if i < n then (cache ! i)\<lparr>sc_used := False\<rparr> else cache ! i))" for n
    by (induction n) (auto simp: nth_upd_at less_Suc_eq)
  show "length (cache_init cache) = 127" "\<forall>i < 127. cache_init cache ! i = (cache ! i)\<lparr>sc_used := False\<rparr>"
    using f [of NR_SEC_CACHE] assms by (auto simp: cache_init_def NR_SEC_CACHE_def simp del: upt_rec_numeral)
qed

text \<open>An array of slots as the loader leaves it: nothing to be written back.\<close>

definition clean_cache :: "sector_cache list \<Rightarrow> bool" where
  "clean_cache cache \<longleftrightarrow> length cache = 127 \<and> (\<forall>c \<in> set cache. \<not> sc_dirty c)"

text \<open>The disk holds the image.\<close>

definition on_disk :: "(u32 \<Rightarrow> u8 list) \<Rightarrow> u8 list \<Rightarrow> bool" where
  "on_disk D img \<longleftrightarrow> length img \<le> 2 ^ 32 \<and> (\<forall>j < length img. D (of_nat (j div 512)) ! (j mod 512) = img ! j)"

lemma cache_init_shows:
  assumes "clean_cache cache" "on_disk D img"
  shows "cache_ok (cache_init cache) D" "\<forall>j < length img. device_byte (cache_init cache) D (of_nat j) = img ! j"
proof -
  have len: "length cache = 127" "\<forall>i < 127. \<not> sc_dirty (cache ! i)" using assms(1) by (auto simp: clean_cache_def)
  note c = cache_init_at [OF len(1)]
  show "cache_ok (cache_init cache) D" using c len(2) by (simp add: cache_ok_def slot_ok_def)
  have "\<forall>i < 127. \<not> sc_used (cache_init cache ! i)" using c(2) by simp
  from device_byte_unused [OF this] assms(2)
  show "\<forall>j < length img. device_byte (cache_init cache) D (of_nat j) = img ! j" by (simp add: on_disk_def)
qed

text \<open>Where the linker has put the parts of the kernel that the start uses.\<close>

definition kernel_linked :: "kernel_image \<Rightarrow> pm_addrs \<Rightarrow> u32 \<Rightarrow> sys \<Rightarrow> bool" where
  "kernel_linked L A data_p s \<longleftrightarrow> (let K = kernel_tables (kpagedir_addr s) (kpagetable_addr L) in
     tables_placed (kpagedir_addr s) (kpagetable_addr L) \<and> table_area s \<inter> K = {} \<and> kdata data_p 4 \<and> K \<inter> kbytes data_p 4 = {} \<and>
     layout A (K \<union> kbytes data_p 4) (pagedir_addr s 7))"

lemma servers_after_start:
  assumes k: "started_from L k k'" "threads_ok (os_sys k') (thread_list L)" "current_pcb (os_sys k') = init_pcb"
    and link: "kernel_linked L A data_p (os_sys k)" and off: "enter_interrupt (cpu (os_sys k)) \<noteq> 1"
    and disk: "idle d" "clean_cache (os_cache k)" "on_disk (disk d) img"
  shows "servers_ready idle disk img (kernel_tables (kpagedir_addr (os_sys k)) (kpagetable_addr L)) 0
    ((os_frames k', cache_init (os_cache k), d), os_sys k')"
proof -
  let ?s = "os_sys k'" and ?K = "kernel_tables (kpagedir_addr (os_sys k)) (kpagetable_addr L)"
  have len: "length (thread_list L) = 6" by (simp add: thread_list_def)
  have p: "kernel_process ?s i" if "i \<le> 6" for i using k(2) that by (simp add: threads_ok_def len)
  have ids: "nat FM \<le> 6" "nat IDE \<le> 6" "nat MM \<le> 6" by (simp_all add: FM_def IDE_def MM_def)
  have "box ?s j [] [] [] 0" if "j \<in> server_set 0" for j using p [of j] that ids by (auto simp: kernel_process_def)
  moreover have "enter_interrupt (cpu ?s) \<noteq> 1" using k(1) off by (simp add: started_from_def)
  ultimately have q: "quiet (server_set 0) ?s" unfolding quiet_def by blast
  have cr3: "p_cr3 (proc ?s (nat FM)) = make_cr3 (va_to_pa (kpagedir_addr (os_sys k)))"
    using p [OF ids(1)] k(1) by (simp add: kernel_process_def started_from_def)
  have tp: "tables_placed (kpagedir_addr (os_sys k)) (kpagetable_addr L)" and ta: "table_area (os_sys k) \<inter> ?K = {}"
    using link by (simp_all add: kernel_linked_def Let_def)
  have "only (table_area (os_sys k)) (snd (init_page (kpagedir_addr (os_sys k)) (kpagetable_addr L) (mem (os_sys k)))) (mem ?s)"
    using k(1) by (simp add: started_from_def)
  then have "kernel_space (mem ?s) (p_cr3 (proc ?s (nat FM))) ?K"
    unfolding cr3 by (intro kernel_space_keep [OF init_page_kernel_space [OF tp]] only_disjoint [OF _ ta])
  moreover have "length (Proc ?s) = MAX_PROC" using k(2) by (simp add: threads_ok_def proc_table_ok_def)
  ultimately show ?thesis
    using q k(3) disk(1) cache_init_shows [OF disk(2,3)] by (simp add: servers_ready_def init_pcb_def)
qed

section \<open>The first user process\<close>

lemma pagedir_good:
  assumes "layout_ok s" "i < MAX_PROC"
  shows "good_dir (pagedir_addr s i)"
proof -
  let ?p = "unat (Proc_addr s)"
  have p: "4096 dvd ?p" "3221225472 \<le> ?p" "?p + 655360 \<le> 3238002688" "i < 32"
    using assms by (simp_all add: layout_ok_def KOFFSET_def MAX_PROC_def)
  have u: "unat (pagedir_addr s i) = ?p + (i * 20480 + 16384)"
    using p by (simp add: pagedir_addr_def pcb_addr_def sizeof_PCB_def unat_word_ariths unat_of_nat)
  have ge: "KOFFSET \<le> pagedir_addr s i" using u p(2) by (simp add: KOFFSET_def word_le_nat_alt)
  have v: "unat (va_to_pa (pagedir_addr s i)) = ?p + (i * 20480 + 16384) - 3221225472"
    using u ge by (simp add: va_to_pa_def KOFFSET_def unat_sub)
  obtain q where "?p = 4096 * q" using p(1) by (auto elim: dvdE)
  then have "unat (va_to_pa (pagedir_addr s i)) = 4096 * (q + 5 * i + 4 - 786432)" using v p(2) by simp
  then have "4096 dvd unat (va_to_pa (pagedir_addr s i))" by (rule dvdI)
  moreover have "i * 20480 \<le> 634880" using p(4) by simp
  then have "unat (va_to_pa (pagedir_addr s i)) + 4096 \<le> 0x1000000" unfolding v using p(2,3) by linarith
  ultimately show ?thesis using ge by (simp add: good_dir_def)
qed

lemma os_init_spec:
  assumes k: "image_ok k" "enter_interrupt (cpu (os_sys k)) \<noteq> 1" "kernel_linked L A data_p (os_sys k)"
    and image: "length kern \<le> unat Kernel_Size" "\<forall>f \<in> set files. length f \<le> unat File_Size" "makefs (kern # files) = Some (Some img)"
    and disk: "ata_drive dev idle disk" "idle d" "on_disk (disk d) img" "clean_cache (os_cache k)"
    and P: "program_ok (disk_files files 1)"
      "6 + 2 * sum_list (map (seg_count (disk_files files 1)) (program_headers (disk_files files 1))) \<le> 28672"
  shows "\<exists>k' w'. os_init m (serve dev data_p m0 0) A L (cache_init (os_cache k), d) k = Some (Inr (k', w')) \<and>
    proc_table_ok (os_sys k') [0..<8] \<and> (\<forall>i < 8. p_status (proc (os_sys k') i) = STATUS_WAITING) \<and>
    runs_program A (disk_files files 1) (p_cr3 (proc (os_sys k') 7)) (mem (os_sys k')) (p_esp (proc (os_sys k') 7))"
proof -
  let ?K = "kernel_tables (kpagedir_addr (os_sys k)) (kpagetable_addr L)" and ?P = "disk_files files 1"
  obtain k1 where k1: "os_start L k = Inr k1" "threads_ok (os_sys k1) (thread_list L)" "console_ok (con (os_sys k1))"
    "current_pcb (os_sys k1) = init_pcb" "started_from L k k1"
    by (rule os_start_threads [OF k(1), of L])
  have len: "length (thread_list L) = 6" by (simp add: thread_list_def)
  have L: "tables_placed (kpagedir_addr (os_sys k)) (kpagetable_addr L)" "kdata data_p 4" "?K \<inter> kbytes data_p 4 = {}"
    "layout A (?K \<union> kbytes data_p 4) (pagedir_addr (os_sys k) 7)"
    using k(3) by (simp_all add: kernel_linked_def Let_def)
  have K: "\<forall>x \<in> ?K. unat x < 0x1000000"
    using init_page_kernel_space [OF L(1), of "\<lambda>_. 0"] by (simp add: kernel_space_def)
  have ids: "0 < MAX_PROC" "0 \<notin> {nat FM, nat IDE, nat MM}" "7 \<notin> server_set 0" "7 < MAX_PROC"
    by (simp_all add: MAX_PROC_def FM_def IDE_def MM_def)
  have ins: "installed dev idle disk kern files img ?K data_p 0"
    unfolding installed_def by (intro conjI disk(1) image L(2,3) K ids(1,2))
  note ready = servers_after_start [where disk = disk and idle = idle, OF k1(5,2,4) k(3,2) disk(2,4,3)]
  have tab: "proc_table_ok (os_sys k1) [0..<7]" "\<forall>i \<le> 6. p_status (proc (os_sys k1) i) = STATUS_WAITING" "layout_ok (os_sys k1)"
    using k1(2) by (simp_all add: threads_ok_def len del: upt_rec_numeral upt_Suc)
  have new: "Find_Empty_PCB (os_sys k1) = Some 7" using first_free [OF k1(2)] by (simp add: len MAX_PROC_def)
  have pd: "pagedir_addr (os_sys k1) 7 = pagedir_addr (os_sys k) 7" "good_dir (pagedir_addr (os_sys k1) 7)"
    using k1(5) pagedir_good [OF tab(3) ids(4)] by (simp_all add: started_from_def pagedir_addr_def pcb_addr_def)
  have "28672 \<le> card (free_frames (mm_of (os_frames k1, os_sys k1)))" by (rule all_frames_free) (use k1(5) in \<open>simp add: started_from_def\<close>)
  then have enough: "6 + 2 * sum_list (map (seg_count ?P) (program_headers ?P)) \<le> card (free_frames (mm_of (os_frames k1, os_sys k1)))"
    using P(2) by linarith
  obtain fl w s where s: "Create_uthread m (serve dev data_p m0 0) A 1 ((os_frames k1, cache_init (os_cache k), d), os_sys k1) = Some (Inr ((fl, w), s))"
    "proc_table_ok s ([0..<7] @ [7])" "p_status (proc s 7) = STATUS_WAITING"
    "runs_program A ?P (p_cr3 (proc s 7)) (mem s) (p_esp (proc s 7))" "console_ok (con s)"
    "\<forall>i < MAX_PROC. i \<noteq> 7 \<longrightarrow> p_status (proc s i) = p_status (proc (os_sys k1) i)"
    using program_services.Create_uthread_spec [OF serve_services [OF ins] ready tab(1) new ids(3) pd(2) L(4) [folded pd(1)],
        where name = 1, unfolded disk_source_file, OF P(1) k1(3) enough, of m m0]
    by (elim exE conjE) (metis prod.exhaust)
  let ?k = "k1\<lparr>os_frames := fl, os_sys := s\<rparr>"
  have pr: "prints (green_printk ''[OK!] '' [])" "prints (printk ''Loading user process.\<newline>'' [])"
    by (rule prints_printk, simp)+
  have "console_ok (con (os_sys ?k))" using s(5) by simp
  then obtain k2 where k2: "os_print (green_printk ''[OK!] '' []) ?k = Inr k2" "only_prints ?k k2" by (rule os_print_only [OF pr(1)])
  obtain k3 where k3: "os_print (printk ''Loading user process.\<newline>'' []) k2 = Inr k3" "only_prints k2 k3"
    by (rule os_print_only [OF pr(2) only_prints_con [OF k2(2)]])
  have "only_prints ?k k3" by (rule only_prints_trans [OF k2(2) k3(2)])
  then have sys: "Proc (os_sys k3) = Proc s" "mem (os_sys k3) = mem s" by (auto simp: only_prints_def)
  have "os_init m (serve dev data_p m0 0) A L (cache_init (os_cache k), d) k = Some (Inr (k3, w))"
    by (simp add: os_init_def k1(1) s(1) k2(1) k3(1))
  moreover have "[0..<8] = [0..<7] @ [7 :: nat]" by (simp add: upt_rec)
  then have "proc_table_ok (os_sys k3) [0..<8]" using s(2) sys(1) by (simp only: proc_table_ok_def)
  moreover have "p_status (proc (os_sys k3) i) = STATUS_WAITING" if "i < 8" for i
    using that s(3,6) tab(2) ids(4) sys(1) by (cases "i = 7") (auto simp: MAX_PROC_def)
  ultimately show ?thesis using s(4) sys by auto
qed

section \<open>A system to start\<close>

text \<open>A program of two bytes, a jump to itself: the fields of its headers at their places in the file.\<close>

definition tiny_program :: "u8 list" where
  "tiny_program = [
    0, 0, 0, 0, 0, 0, 0, 0, 0, 0, 0, 0, 0, 0, 0, 0, 0, 0, 0, 0, 0, 0,
    0, 0, 0, 128, 4, 8, 52, 0, 0, 0, 0, 0, 0, 0, 0, 0, 0, 0, 0, 0, 0, 0,
    1, 0, 0, 0, 0, 0, 0, 0, 1, 0, 0, 0, 84, 0, 0, 0, 0, 128, 4, 8, 0, 0,
    0, 0, 2, 0, 0, 0, 2, 0, 0, 0, 0, 0, 0, 0, 0, 0, 0, 0, 235, 254]"

definition tiny_files :: "u8 list list" where "tiny_files = [tiny_program]"
definition tiny_image :: "u8 list" where
  "tiny_image = padded (unat Kernel_Size) [7] @ concat (map (padded (unat File_Size)) tiny_files)"

lemma tiny_length: "length tiny_program = 86"
  by (simp add: tiny_program_def)

lemma tiny_fits: "length [7 :: u8] \<le> unat Kernel_Size" "\<forall>f \<in> set tiny_files. length f \<le> unat File_Size"
  "makefs ([7] # tiny_files) = Some (Some tiny_image)"
proof -
  show f: "length [7 :: u8] \<le> unat Kernel_Size" "\<forall>f \<in> set tiny_files. length f \<le> unat File_Size"
    by (simp_all add: sizes tiny_files_def tiny_length)
  show "makefs ([7] # tiny_files) = Some (Some tiny_image)" unfolding tiny_image_def by (rule makefs_image [OF f])
qed

lemma tiny_file: "disk_files tiny_files 1 = padded 65536 tiny_program"
  by (simp add: disk_files_def tiny_files_def sizes)

lemma tiny_byte: "unat x < 86 \<Longrightarrow> image_mem (padded 65536 tiny_program) x = tiny_program ! unat x"
  by (simp add: image_mem_def padded_def tiny_length nth_append)

lemma tiny_fields:
  "elf_entry (image_mem (padded 65536 tiny_program)) 0 = 0x8048000" "program_headers (padded 65536 tiny_program) = [52]"
  "seg_off (padded 65536 tiny_program) 52 = 84" "seg_bytes (padded 65536 tiny_program) 52 = 2"
  "seg_va (padded 65536 tiny_program) 52 = 0x8048000" "seg_count (padded 65536 tiny_program) 52 = 1"
  by (simp_all add: elf_entry_def program_headers_def elf_phoff_def elf_phnum_def seg_off_def seg_bytes_def seg_va_def seg_count_def
      ph_off_def ph_filesz_def ph_vaddr_def ph_memsz_def kphys_def in_kernel_def KOFFSET_def load32_def load16_def tiny_byte)
    (simp_all add: tiny_program_def)

lemma tiny_program_ok: "program_ok (disk_files tiny_files 1)"
  by (simp add: tiny_file loadable_def tiny_fields seg_ok_def seg_first_def)
    (simp add: padded_def tiny_length)

text \<open>Addresses for the variables of the process server and of the driver, behind the tables.\<close>

definition boot_addrs :: pm_addrs where
  "boot_addrs = \<lparr>pm_buf = 0xC0240000, pm_segment_buf = 0xC0242000, pm_argv = 0xC0244000, pm_argv_ptr = 0xC0245000,
     pm_key = 0xC0246000, pm_argc = 0xC0246004, asm_do_int80_exit = 0xC0106000\<rparr>"

lemma kbytes_disjoint: "unat p + n \<le> unat q \<or> unat q + k \<le> unat p \<Longrightarrow> kbytes p n \<inter> kbytes q k = {}"
  by (auto simp: kbytes_def)

lemma kbytes_page: "unat f + 4096 + 0xC0000000 \<le> unat p \<Longrightarrow> kbytes p n \<inter> page f = {}"
  by (auto simp: kbytes_def page_def)

lemma boot_linked: "kernel_linked boot_image boot_addrs 0xC0250000 boot_sys"
proof -
  have a: "Proc_addr boot_sys = 0xC0120000" "kpagedir_addr boot_sys = 0xC0200000" "kpagetable_addr boot_image = 0xC0210000"
    by (simp_all add: boot_sys_def boot_image_def)
  have pd: "pagedir_addr boot_sys 7 = 0xC0147000"
    by (simp add: pagedir_addr_def pcb_addr_def a sizeof_PCB_def)
  have pg: "va_to_pa 0xC0147000 = 0x147000" by (simp add: va_to_pa_def KOFFSET_def)
  have dis: "page 0x147000 \<inter> kbytes p n = {}" if "0xC0200000 \<le> unat p" for p n
    using that by (auto simp: kbytes_def page_def)
  have kd: "kdata p n" if "0xC0200000 \<le> unat p" "unat p + n \<le> 0xC1000000" for p n using that by (simp add: kdata_def)
  note k = kbytes_disjoint dis dis [unfolded Int_commute [of "page _"]]
  have t: "tables_placed 0xC0200000 0xC0210000" by (simp add: tables_placed_def kdata_def va_to_pa_def KOFFSET_def)
  have l: "layout boot_addrs (kernel_tables 0xC0200000 0xC0210000 \<union> kbytes 0xC0250000 4) 0xC0147000"
    by (simp add: layout_def boot_addrs_def kernel_tables_def pg kd Int_Un_distrib Int_Un_distrib2 k)
  show ?thesis
    using t l by (simp add: kernel_linked_def a pd kernel_tables_def Int_Un_distrib Int_Un_distrib2 k kd)
qed

text \<open>The disk of this system, and the services on it.\<close>

lemma tiny_disk: "on_disk (sd_disk (image_disk tiny_image)) tiny_image" "sample_idle (image_disk tiny_image)"
proof -
  have len: "length tiny_image < 2 ^ 32" by (simp add: tiny_image_def tiny_files_def tiny_length sizes padded_def)
  have "sd_disk (image_disk tiny_image) (of_nat (j div 512)) ! (j mod 512) = tiny_image ! j" if j: "j < length tiny_image" for j
  proof -
    have "unat (of_nat (j div 512) :: u32) = j div 512" using j len by (simp add: unat_of_nat)
    moreover have "512 * (j div 512) + j mod 512 = j" by simp
    ultimately show ?thesis using j by (simp add: image_disk_def del: upt_rec_numeral)
  qed
  then show "on_disk (sd_disk (image_disk tiny_image)) tiny_image" using len by (simp add: on_disk_def)
  show "sample_idle (image_disk tiny_image)" by (simp add: sample_idle_def image_disk_def)
qed

abbreviation boot_tables :: "u32 set" where
  "boot_tables \<equiv> kernel_tables 0xC0200000 0xC0210000"

lemma tiny_installed: "installed sample_drive sample_idle sd_disk [7] tiny_files tiny_image boot_tables 0xC0250000 0"
proof -
  have l: "tables_placed 0xC0200000 0xC0210000" "kdata 0xC0250000 4" "boot_tables \<inter> kbytes 0xC0250000 4 = {}"
    using boot_linked by (simp_all add: kernel_linked_def Let_def boot_sys_def boot_image_def)
  have "\<forall>x \<in> boot_tables. unat x < 0x1000000"
    using init_page_kernel_space [OF l(1), of "\<lambda>_. 0"] by (simp add: kernel_space_def)
  moreover have "0 < MAX_PROC" "0 \<notin> {nat FM, nat IDE, nat MM}" by (simp_all add: MAX_PROC_def FM_def IDE_def MM_def)
  ultimately show ?thesis unfolding installed_def by (intro conjI sample_ata tiny_fits l(2,3))
qed

interpretation tiny: program_services "serve sample_drive 0xC0250000 zero_message 0" "servers_ready sample_idle sd_disk tiny_image boot_tables 0"
  "server_set 0" boot_tables "kbytes 0xC0250000 4" "disk_source tiny_files"
  by (rule serve_services [OF tiny_installed])

lemma boot_state:
  obtains k :: os where "os_sys k = boot_sys" "os_irqs k = boot_irq_table" "os_cache k = replicate 127 blank_slot"
  by (metis os.select_convs(1,4,10))

lemma boot_ok:
  assumes "os_sys k = boot_sys" "os_irqs k = boot_irq_table" "os_cache k = replicate 127 blank_slot"
  shows "image_ok k" "enter_interrupt (cpu (os_sys k)) \<noteq> 1" "kernel_linked boot_image boot_addrs 0xC0250000 (os_sys k)"
    "clean_cache (os_cache k)"
  using boot_sys_layout boot_linked
  by (simp_all add: image_ok_def assms boot_irq_table_def pool_sizes_def zero_pcb_def clean_cache_def blank_slot_def boot_sys_def)

lemma tiny_runs:
  assumes "runs_program A (disk_files tiny_files 1) cr3 m esp"
  shows "user_byte m cr3 0x8048000 = 0xEB" "ctx_eip (restore_context (user_load m cr3) esp) = 0x8048000"
proof -
  have "user_byte m cr3 0x8048000 = padded 65536 tiny_program ! 84"
    using assms tiny_fields by (fastforce simp: runs_program_def shows_segments_def tiny_file)
  also have "\<dots> = 0xEB" by (simp add: padded_def tiny_length nth_append) (simp add: tiny_program_def)
  finally show "user_byte m cr3 0x8048000 = 0xEB" .
  show "ctx_eip (restore_context (user_load m cr3) esp) = 0x8048000"
    using assms by (simp add: runs_program_def tiny_file tiny_fields kthread_context_def)
qed

text \<open>This system after the start.\<close>

lemma tiny_started:
  obtains k :: os where
    "servers_ready sample_idle sd_disk tiny_image boot_tables 0
       ((os_frames k, cache_init (replicate 127 blank_slot), image_disk tiny_image), os_sys k)"
    "threads_ok (os_sys k) (thread_list boot_image)" "console_ok (con (os_sys k))" "pagedir_addr (os_sys k) 7 = 0xC0147000"
    "28672 \<le> card (free_frames (mm_of (os_frames k, os_sys k)))"
    "layout boot_addrs (boot_tables \<union> kbytes 0xC0250000 4) (pagedir_addr (os_sys k) 7)"
proof -
  obtain k :: os where k: "os_sys k = boot_sys" "os_irqs k = boot_irq_table" "os_cache k = replicate 127 blank_slot"
    by (rule boot_state)
  note ok = boot_ok [OF k]
  obtain k1 where k1: "threads_ok (os_sys k1) (thread_list boot_image)" "console_ok (con (os_sys k1))"
    "current_pcb (os_sys k1) = init_pcb" "started_from boot_image k k1"
    by (rule os_start_threads [OF ok(1), of boot_image])
  have t: "kernel_tables (kpagedir_addr (os_sys k)) (kpagetable_addr boot_image) = boot_tables"
    by (simp add: k boot_sys_def boot_image_def)
  note ready = servers_after_start [where disk = sd_disk and idle = sample_idle, OF k1(4,1,3) ok(3,2) tiny_disk(2) ok(4) tiny_disk(1), unfolded t k(3)]
  have pd: "pagedir_addr (os_sys k1) 7 = pagedir_addr (os_sys k) 7"
    using k1(4) by (simp add: started_from_def pagedir_addr_def pcb_addr_def)
  then have "layout boot_addrs (boot_tables \<union> kbytes 0xC0250000 4) (pagedir_addr (os_sys k1) 7)"
    using ok(3) t by (simp add: kernel_linked_def Let_def)
  moreover have "pagedir_addr (os_sys k1) 7 = 0xC0147000"
    unfolding pd by (simp add: k boot_sys_def pagedir_addr_def pcb_addr_def sizeof_PCB_def)
  moreover have "28672 \<le> card (free_frames (mm_of (os_frames k1, os_sys k1)))"
    by (rule all_frames_free) (use k1(4) in \<open>simp add: started_from_def\<close>)
  ultimately show thesis using that ready k1(1,2) by blast
qed

text \<open>C9: Loading a program through all servers. When the servers wait for requests, the disk (through whatever the cache holds)
  has the image that the image tool made of some files, and file \<open>name\<close> is a program whose segments fit, then
  \<open>Create_uthread\<close> ends, whatever process asks for it: the new process is the last of the run list and ready, its address space
  shows every byte of every segment of the file at the address the program header gives it, and its first switch starts at the entry
  point of the file, with the exit routine as return address. Nothing else in memory changes but the loader's buffers, the
  driver's variable, the new page directory and frames that were free, and the other processes keep their states.\<close>

theorem create_uthread_loads_program:
  assumes "installed dev idle disk kern files img K data_p c" "servers_ready idle disk img K c ((fl, w), s)"
    and "proc_table_ok s l" "Find_Empty_PCB s = Some new" "new \<notin> server_set c" "good_dir (pagedir_addr s new)"
    and "layout A (K \<union> kbytes data_p 4) (pagedir_addr s new)" "console_ok (con s)"
    and "program_ok (disk_files files name)"
      "6 + 2 * sum_list (map (seg_count (disk_files files name)) (program_headers (disk_files files name))) \<le> card (free_frames (mm_of (fl, s)))"
  shows "\<exists>x s'. Create_uthread m (serve dev data_p m0 c) A name ((fl, w), s) = Some (Inr (x, s')) \<and>
    proc_table_ok s' (l @ [new]) \<and> p_status (proc s' new) = STATUS_WAITING \<and>
    runs_program A (disk_files files name) (p_cr3 (proc s' new)) (mem s') (p_esp (proc s' new)) \<and>
    only (writes A (kbytes data_p 4) (pagedir_addr s new) (free_frames (mm_of (fl, s)))) (mem s) (mem s') \<and> console_ok (con s') \<and>
    (\<forall>i < MAX_PROC. i \<noteq> new \<longrightarrow> p_status (proc s' i) = p_status (proc s i))"
  using program_services.Create_uthread_spec [OF serve_services [OF assms(1)] assms(2-7), where name = name,
    unfolded disk_source_file, OF assms(9,8,10)] .


theorem create_uthread_loads_program_witness:
  "\<exists>(k :: os) x s'. Create_uthread zero_message (serve sample_drive 0xC0250000 zero_message 0) boot_addrs 1
       ((os_frames k, cache_init (replicate 127 blank_slot), image_disk tiny_image), os_sys k) = Some (Inr (x, s')) \<and>
     proc_table_ok s' ([0..<7] @ [7]) \<and> user_byte (mem s') (p_cr3 (proc s' 7)) 0x8048000 = 0xEB"
proof -
  obtain k1 :: os where k1: "servers_ready sample_idle sd_disk tiny_image boot_tables 0
      ((os_frames k1, cache_init (replicate 127 blank_slot), image_disk tiny_image), os_sys k1)"
    "threads_ok (os_sys k1) (thread_list boot_image)" "console_ok (con (os_sys k1))" "pagedir_addr (os_sys k1) 7 = 0xC0147000"
    "28672 \<le> card (free_frames (mm_of (os_frames k1, os_sys k1)))"
    "layout boot_addrs (boot_tables \<union> kbytes 0xC0250000 4) (pagedir_addr (os_sys k1) 7)"
    by (rule tiny_started)
  have len: "length (thread_list boot_image) = 6" by (simp add: thread_list_def)
  have new: "Find_Empty_PCB (os_sys k1) = Some 7" using first_free [OF k1(2)] by (simp add: len MAX_PROC_def)
  have tab: "proc_table_ok (os_sys k1) [0..<7]" "layout_ok (os_sys k1)"
    using k1(2) by (simp_all add: threads_ok_def len del: upt_rec_numeral upt_Suc)
  have 7: "7 \<notin> server_set 0" "7 < MAX_PROC" by (simp_all add: MAX_PROC_def FM_def IDE_def MM_def)
  have enough: "6 + 2 * sum_list (map (seg_count (disk_files tiny_files 1)) (program_headers (disk_files tiny_files 1))) \<le>
      card (free_frames (mm_of (os_frames k1, os_sys k1)))" using k1(5) unfolding tiny_file by (simp add: tiny_fields)
  obtain x s' where "Create_uthread zero_message (serve sample_drive 0xC0250000 zero_message 0) boot_addrs 1
      ((os_frames k1, cache_init (replicate 127 blank_slot), image_disk tiny_image), os_sys k1) = Some (Inr (x, s'))"
    "proc_table_ok s' ([0..<7] @ [7])" "runs_program boot_addrs (disk_files tiny_files 1) (p_cr3 (proc s' 7)) (mem s') (p_esp (proc s' 7))"
    using create_uthread_loads_program [OF tiny_installed k1(1) tab(1) new 7(1) pagedir_good [OF tab(2) 7(2)] k1(6,3) tiny_program_ok enough,
    of zero_message zero_message] by (elim exE conjE)
  then show ?thesis using tiny_runs(1) by blast
qed


end
