(* ===== verification/Exec.thy ===== *)
theory Exec
  imports Services
begin

text \<open>
  Replacing a program (\<open>Exec_uthread\<close> of kernel/pm.c) with the services of \<open>Loader\<close>: the arguments leave the old address space,
  the memory server clears it, the new program is loaded into it, and its stack is set up with the arguments on it.
\<close>

section \<open>The stack with arguments\<close>

text \<open>\<open>N\<close> bytes of the stack from \<open>va\<close> on, at \<open>a 0, a 1, \<dots>\<close>, apart from the variables \<open>X\<close> of the process server.\<close>

definition arg_stack :: "memory \<Rightarrow> u32 \<Rightarrow> u32 \<Rightarrow> nat \<Rightarrow> (nat \<Rightarrow> u32) \<Rightarrow> u32 set \<Rightarrow> bool" where
  "arg_stack m cr3 va N a X \<longleftrightarrow> user_mapped m cr3 va N a \<and> tables_apart m cr3 va N (a ` {..<N} \<union> X) \<and>
     inj_on a {..<N} \<and> a ` {..<N} \<inter> X = {}"

lemma arg_stack_keep: "arg_stack m cr3 va N a X \<Longrightarrow> only (a ` {..<N} \<union> X) m m' \<Longrightarrow> arg_stack m' cr3 va N a X"
  using user_mapped_keep [of m cr3 va N a "a ` {..<N} \<union> X" m'] by (simp add: arg_stack_def only_def)

lemma arg_stack_part:
  assumes "arg_stack m cr3 va N a X" "4 * n \<le> N" "kdata key 4" "kbytes key 4 \<subseteq> X"
  shows "stack_part m cr3 va n a key"
proof -
  have s: "{..<4 * n} \<subseteq> {..<N}" using assms(2) by auto
  have sub: "a ` {..<4 * n} \<union> word_bytes (kphys key) \<subseteq> a ` {..<N} \<union> X"
    unfolding kdata_word [OF assms(3)] by (intro Un_mono image_mono s assms(4))
  have um: "user_mapped m cr3 va N a" and ta: "tables_apart m cr3 va N (a ` {..<N} \<union> X)" using assms(1) by (simp_all only: arg_stack_def)
  note user_mapped_mono [OF um assms(2)] tables_apart_mono [OF ta assms(2) sub]
  moreover have "inj_on a {..<4 * n}" using assms(1) s by (auto simp: arg_stack_def intro: inj_on_subset)
  moreover have "a i \<notin> word_bytes (kphys key)" if "i < 4 * n" for i
  proof -
    have "a i \<in> a ` {..<N}" using that assms(2) by simp
    then show ?thesis unfolding kdata_word [OF assms(3)] using assms(1,4) unfolding arg_stack_def by blast
  qed
  ultimately show ?thesis using kdata_at(3) [OF assms(3)] by (simp add: stack_part_def)
qed

lemma load32_kbytes:
  assumes "kdata p 4" "only W m m'" "W \<inter> kbytes p 4 = {}"
  shows "load32 m' (kphys p) = load32 m (kphys p)"
proof -
  have "m' x = m x" if "x \<in> word_bytes (kphys p)" for x
    using assms(2,3) that kdata_word [OF assms(1)] by (auto simp: only_def)
  then show ?thesis by (intro load32_cong) (simp_all add: word_bytes_def)
qed

lemma word_in_keep: "word_in m a p w \<Longrightarrow> only W m m' \<Longrightarrow> \<forall>i < 4. a (p + i) \<notin> W \<Longrightarrow> word_in m' a p w"
  by (simp add: word_in_def only_def)

lemma push_at:
  assumes st: "arg_stack m cr3 va N a X" and k: "4 * Suc k \<le> N" and key: "kdata key 4" "kbytes key 4 \<subseteq> X"
  shows "\<exists>m'. push_user cr3 key w (va + of_nat (4 * Suc k), m) = Some (va + of_nat (4 * k), m') \<and>
    word_in m' a (4 * k) w \<and> only (a ` {4 * k..<4 * k + 4} \<union> kbytes key 4) m m'"
proof -
  from push_user_spec [OF arg_stack_part [OF st k key], of k w]
  obtain m' where m': "push_user cr3 key w (va + of_nat (4 * Suc k), m) = Some (va + of_nat (4 * k), m')"
    "word_in m' a (4 * k) w" "\<forall>x. x \<notin> written (Suc k) a key \<longrightarrow> m' x = m x"
    "\<forall>j < 4 * Suc k. j \<notin> {4 * k..<4 * k + 4} \<longrightarrow> m' (a j) = m (a j)" by blast
  have "only (a ` {4 * k..<4 * k + 4} \<union> kbytes key 4) m m'"
    unfolding only_def
  proof (intro allI impI)
    fix x assume x: "x \<notin> a ` {4 * k..<4 * k + 4} \<union> kbytes key 4"
    show "m' x = m x"
    proof (cases "x \<in> a ` {..<4 * Suc k}")
      case True
      then obtain j where "j < 4 * Suc k" "x = a j" by auto
      then show ?thesis using m'(4) x by blast
    next
      case False
      then show ?thesis using m'(3) x kdata_word [OF key(1)] by blast
    qed
  qed
  then show ?thesis using m'(1,2) by blast
qed

text \<open>The pointers to the arguments.\<close>

lemma cell_data:
  assumes "kdata p (4 * n)" "i < n"
  shows "kdata (p + 4 * of_nat i) 4" "kbytes (p + 4 * of_nat i) 4 \<subseteq> kbytes p (4 * n)"
    "j < i \<Longrightarrow> kbytes (p + 4 * of_nat i) 4 \<inter> kbytes (p + 4 * of_nat j) 4 = {}"
proof -
  have u: "unat (p + 4 * of_nat k) = unat p + 4 * k" if "k < n" for k
    using kdata_at(4) [OF assms(1), of "4 * k"] that by simp
  show "kdata (p + 4 * of_nat i) 4" "kbytes (p + 4 * of_nat i) 4 \<subseteq> kbytes p (4 * n)"
    using assms by (auto simp: kdata_def kbytes_def u)
  show "kbytes (p + 4 * of_nat i) 4 \<inter> kbytes (p + 4 * of_nat j) 4 = {}" if "j < i"
    using that assms(2) u [of i] u [of j] by (auto simp: kbytes_def)
qed

lemma push_args_spec:
  assumes "arg_stack (mem s) cr3 va N a X" "4 * (b + i) \<le> N" "i \<le> n" "kdata (pm_argv_ptr A) (4 * n)"
    "kbytes (pm_argv_ptr A) (4 * n) \<subseteq> X" "console_ok (con s)"
  shows "\<exists>c m'. push_args A cr3 base i (va + of_nat (4 * (b + i)), x, s) =
      Some (Inr (va + of_nat (4 * b), x, s\<lparr>con := c, mem := m'\<rparr>)) \<and> console_ok c \<and>
    (\<forall>j < i. word_in m' a (4 * (b + j)) (load32 (mem s) (argv_cell A j) + base)) \<and>
    only (a ` {4 * b..<4 * (b + i)} \<union> kbytes (pm_argv_ptr A) (4 * n)) (mem s) m'"
  using assms
proof (induction i arbitrary: s)
  case 0
  then show ?case by (intro exI [of _ "con s"] exI [of _ "mem s"]) simp
next
  case (Suc i)
  let ?p = "pm_argv_ptr A + 4 * of_nat i" and ?X = "kbytes (pm_argv_ptr A) (4 * n)"
  have i: "i < n" "4 * Suc (b + i) \<le> N" using Suc.prems(2,3) by simp_all
  note cd = cell_data [OF Suc.prems(4) i(1)]
  define v where "v = load32 (mem s) (kphys ?p) + base"
  have "kbytes ?p 4 \<subseteq> X" using cd(2) Suc.prems(5) by blast
  from push_at [OF Suc.prems(1) i(2) cd(1) this] obtain m1 where m1:
    "push_user cr3 ?p v (va + of_nat (4 * Suc (b + i)), mem s) = Some (va + of_nat (4 * (b + i)), m1)"
    "word_in m1 a (4 * (b + i)) v" "only (a ` {4 * (b + i)..<4 * (b + i) + 4} \<union> kbytes ?p 4) (mem s) m1" by blast
  let ?sp = "va + of_nat (4 * (b + i))"
  have sp: "va + of_nat (4 * (b + Suc i)) - 4 = ?sp" by simp
  have cp: "copy_from_kernel cr3 ?sp ?p 4 (store32 (kphys ?p) v (mem s)) = Some m1"
  proof -
    have "va + of_nat (4 * Suc (b + i)) - 4 = ?sp" by simp
    then show ?thesis using m1(1) unfolding push_user_def prod.case by (auto split: option.splits)
  qed
  let ?s1 = "s\<lparr>mem := store32 (kphys ?p) v (mem s)\<rparr>"
  have c1: "console_ok (con ?s1)" using Suc.prems(6) by simp
  obtain c where c: "print_sys (printk ''%d : %x, stack %x\<newline>'' [ArgWord (of_nat i), ArgWord v, ArgWord ?sp]) (x, ?s1) = Inr (x, ?s1\<lparr>con := c\<rparr>)"
    "console_ok c"
    by (rule print_sys_total [OF c1, of "''%d : %x, stack %x\<newline>''" "[ArgWord (of_nat i), ArgWord v, ArgWord ?sp]"]) simp
  let ?s2 = "s\<lparr>con := c, mem := m1\<rparr>"
  have W: "a ` {4 * (b + i)..<4 * (b + i) + 4} \<union> kbytes ?p 4 \<subseteq> a ` {..<N} \<union> X" using i(2) cd(2) Suc.prems(5) by auto
  have st1: "arg_stack (mem ?s2) cr3 va N a X" using arg_stack_keep [OF Suc.prems(1) only_mono [OF m1(3) W]] by simp
  have le: "4 * (b + i) \<le> N" "i \<le> n" "console_ok (con ?s2)" using Suc.prems(2) i c(2) by simp_all
  from Suc.IH [OF st1 le(1,2) Suc.prems(4,5) le(3)] obtain c' m' where ih:
    "push_args A cr3 base i (?sp, x, ?s2) = Some (Inr (va + of_nat (4 * b), x, ?s2\<lparr>con := c', mem := m'\<rparr>))" "console_ok c'"
    "\<forall>j < i. word_in m' a (4 * (b + j)) (load32 m1 (argv_cell A j) + base)"
    "only (a ` {4 * b..<4 * (b + i)} \<union> ?X) m1 m'" by auto
  have inj: "inj_on a {..<N}" and off: "a ` {..<N} \<inter> X = {}" using Suc.prems(1) by (simp_all add: arg_stack_def)
  have cells: "load32 m1 (argv_cell A j) = load32 (mem s) (argv_cell A j)" if j: "j < i" for j
  proof (rule load32_kbytes [OF _ m1(3)])
    have jn: "j < n" using j i(1) by simp
    note cj = cell_data [OF Suc.prems(4) jn]
    show "kdata (pm_argv_ptr A + 4 * of_nat j) 4" by (rule cj(1))
    have "a ` {4 * (b + i)..<4 * (b + i) + 4} \<subseteq> a ` {..<N}" by (rule image_mono) (use i(2) in auto)
    then have "a ` {4 * (b + i)..<4 * (b + i) + 4} \<inter> X = {}" using off by blast
    then show "(a ` {4 * (b + i)..<4 * (b + i) + 4} \<union> kbytes ?p 4) \<inter> kbytes (pm_argv_ptr A + 4 * of_nat j) 4 = {}"
      using cd(3) [OF j] cj(2) Suc.prems(5) by blast
  qed
  have apart: "a (4 * (b + i) + l) \<notin> a ` {4 * b..<4 * (b + i)} \<union> ?X" if l: "l < 4" for l
  proof -
    have lt: "4 * (b + i) + l < N" using l i(2) by simp
    have "a (4 * (b + i) + l) \<noteq> a j" if "j \<in> {4 * b..<4 * (b + i)}" for j
      using inj_onD [OF inj, of "4 * (b + i) + l" j] lt that by auto
    then show ?thesis using off lt Suc.prems(5) by blast
  qed
  have "word_in m' a (4 * (b + i)) v" by (rule word_in_keep [OF m1(2) ih(4)]) (use apart in blast)
  then have words: "\<forall>j < Suc i. word_in m' a (4 * (b + j)) (load32 (mem s) (argv_cell A j) + base)"
    using ih(3) cells by (auto simp: less_Suc_eq v_def)
  have "only (a ` {4 * b..<4 * (b + Suc i)} \<union> ?X) (mem s) m'"
    by (rule only_trans [OF only_mono [OF m1(3)] only_mono [OF ih(4)]]) (use cd(2) in auto)
  moreover have "push_args A cr3 base (Suc i) (va + of_nat (4 * (b + Suc i)), x, s) =
      Some (Inr (va + of_nat (4 * b), x, s\<lparr>con := c', mem := m'\<rparr>))"
    using c(1) cp ih(1) unfolding push_args.simps Let_def sp v_def by simp
  ultimately show ?case using words ih(2) by blast
qed

text \<open>The variables of the process server that \<open>exec_stack\<close> uses, with \<open>R\<close> bytes of \<open>argv\<close> and \<open>n\<close> pointers.\<close>

definition exec_vars :: "pm_addrs \<Rightarrow> nat \<Rightarrow> nat \<Rightarrow> u32 set" where
  "exec_vars A R n = kbytes (pm_argv A) R \<union> kbytes (pm_argv_ptr A) (4 * n) \<union> kbytes (pm_key A) 4 \<union> kbytes (pm_argc A) 4"

definition exec_vars_ok :: "pm_addrs \<Rightarrow> nat \<Rightarrow> nat \<Rightarrow> bool" where
  "exec_vars_ok A R n \<longleftrightarrow> kdata (pm_argv A) R \<and> kdata (pm_argv_ptr A) (4 * n) \<and> kdata (pm_key A) 4 \<and> kdata (pm_argc A) 4 \<and>
     kdata (pm_buf A) 4096 \<and> kbytes (pm_buf A) 4096 \<inter> exec_vars A R n = {}"

text \<open>The strings at the top.\<close>

lemma strings_copied:
  assumes st: "arg_stack m cr3 va (q + R) a X" and top: "unat va + q + R \<le> 0xC0000000" and src: "kdata src R" "kbytes src R \<subseteq> X"
    and R0: "0 < R"
  shows "\<exists>m'. copy_from_kernel cr3 (va + of_nat q) src (of_nat R) m = Some m' \<and> only (a ` {q..<q + R}) m m' \<and>
    (\<forall>j < R. m' (a (q + j)) = m (kphys (src + of_nat j)))"
proof -
  let ?b = "\<lambda>j. a (q + j)" and ?s = "\<lambda>j. kphys (src + of_nat j)"
  have um: "user_mapped m cr3 va (q + R) a" and ta: "tables_apart m cr3 va (q + R) (a ` {..<q + R} \<union> X)"
    and inj: "inj_on a {..<q + R}" and off: "a ` {..<q + R} \<inter> X = {}" using st by (simp_all only: arg_stack_def)
  have R: "unat (of_nat R :: u32) = R" using top by (simp add: unat_of_nat)
  have id: "\<forall>x. x \<notin> a ` {..<q + R} \<union> X \<longrightarrow> m x = m x" by simp
  define m' where "m' = copy_bytes ?b ?s R m"
  have run: "copy_from_kernel cr3 (va + of_nat q) src (of_nat R) m = Some m'"
  proof -
    have q: "q < q + R" using R0 by simp
    note at = user_mapped_step [OF um ta id q]
    have n: "q + R - q = R" by simp
    have um': "user_mapped m cr3 (va + of_nat q) (unat (of_nat R :: u32)) ?b"
      and ta': "tables_apart m cr3 (va + of_nat q) (unat (of_nat R :: u32)) (a ` {..<q + R} \<union> X)"
      using at(1,2) unfolding n R .
    have "\<forall>i < unat (of_nat R :: u32). ?b i \<in> a ` {..<q + R} \<union> X" unfolding R by auto
    from copy_from_pages_spec [OF um' ta' this, of src] show ?thesis
      by (simp add: copy_from_kernel_def Let_def m'_def R)
  qed
  have ib: "inj_on ?b {..<R}"
  proof (rule inj_onI)
    fix x y assume "x \<in> {..<R}" "y \<in> {..<R}" "?b x = ?b y"
    then show "x = y" using inj_onD [OF inj, of "q + x" "q + y"] by simp
  qed
  have ne: "?b i \<noteq> ?s j" if "i < R" "j < R" for i j
  proof -
    have "?b i \<in> a ` {..<q + R}" using that(1) by simp
    moreover have "?s j \<in> X" using kdata_at(2) [OF src(1) that(2)] src(2) by blast
    ultimately show ?thesis using off by auto
  qed
  have "m' (?b j) = m (?s j)" if "j < R" for j
    unfolding m'_def by (rule copy_bytes_at [OF ib _ that]) (use ne in simp)
  moreover have "only (a ` {q..<q + R}) m m'"
    unfolding only_def m'_def
  proof (intro allI impI copy_bytes_other)
    fix x i assume "x \<notin> a ` {q..<q + R}" "i < R"
    then show "x \<noteq> ?b i" by auto
  qed
  ultimately show ?thesis using run by (intro exI [of _ m']) simp
qed

text \<open>All of it.\<close>

lemma print_sys_prints:
  assumes "prints f" "console_ok (con s)"
  obtains c where "print_sys f (x, s) = Inr (x, s\<lparr>con := c\<rparr>)" "console_ok c"
  using assms by (auto simp: prints_def print_sys_def)

text \<open>The stack with the arguments, before the frame that starts the program: the strings at the top, their addresses from word 16 on,
  and the two parameters of \<open>main\<close>.\<close>

definition args_pushed :: "memory \<Rightarrow> (nat \<Rightarrow> u32) \<Rightarrow> u32 \<Rightarrow> nat \<Rightarrow> nat \<Rightarrow> (nat \<Rightarrow> u32) \<Rightarrow> (nat \<Rightarrow> u8) \<Rightarrow> bool" where
  "args_pushed m a va argc R ptr chars \<longleftrightarrow> word_in m a (4 * 14) (of_nat argc) \<and> word_in m a (4 * 15) (va + 64) \<and>
     (\<forall>j < argc. word_in m a (4 * (16 + j)) (ptr j)) \<and> (\<forall>j < R. m (a (4 * (16 + argc) + j)) = chars j)"

lemma exec_args_spec:
  fixes argc right :: nat
  defines "R \<equiv> right + 1" and "N \<equiv> 4 * (16 + argc) + (right + 1)"
  assumes st: "arg_stack (mem s) cr3 va N a (exec_vars A R argc)" and top: "unat va + N = 0xC0000000"
    and vars: "exec_vars_ok A R argc" and con: "console_ok (con s)"
  shows "\<exists>c m'. exec_stack A cr3 right argc (x, s) =
      (case user_frame A cr3 (elf_entry m' (pm_buf A)) (va + 56, m') of None \<Rightarrow> None
       | Some (sp, mm) \<Rightarrow> Some (Inr (sp, x, s\<lparr>con := c, mem := mm\<rparr>))) \<and> console_ok c \<and>
    only (a ` {56..<N} \<union> exec_vars A R argc) (mem s) m' \<and>
    args_pushed m' a va argc R (\<lambda>j. load32 (mem s) (argv_cell A j) + (0xC0000000 - of_nat R)) (\<lambda>j. mem s (argv_byte A j))"
proof -
  let ?X = "exec_vars A R argc" and ?q = "4 * (16 + argc)" and ?base = "0xC0000000 - of_nat R :: u32"
  have N: "N = ?q + R" by (simp add: N_def R_def)
  have base: "va + of_nat ?q = ?base"
  proof -
    have "unat (va + of_nat N) = unat va + N" using top by (simp add: unat_word_ariths unat_of_nat)
    then have "va + of_nat N = 0xC0000000" using top by (simp add: word_unat_eq_iff)
    moreover have "va + of_nat N = va + of_nat ?q + of_nat R" by (simp add: N)
    ultimately show ?thesis by (metis add_diff_cancel_right')
  qed
  have kd: "kdata (pm_argv A) R" "kdata (pm_argv_ptr A) (4 * argc)" "kdata (pm_key A) 4" "kdata (pm_argc A) 4"
    "kdata (pm_buf A) 4096" "kbytes (pm_buf A) 4096 \<inter> ?X = {}" using vars by (simp_all add: exec_vars_ok_def)
  have kX: "kbytes (pm_argv A) R \<subseteq> ?X" "kbytes (pm_argv_ptr A) (4 * argc) \<subseteq> ?X" "kbytes (pm_key A) 4 \<subseteq> ?X" "kbytes (pm_argc A) 4 \<subseteq> ?X"
    by (auto simp: exec_vars_def)
  have inj: "inj_on a {..<N}" and off: "a ` {..<N} \<inter> ?X = {}" using st by (simp_all only: arg_stack_def)
  have aN: "a ` {k..<l} \<subseteq> a ` {..<N}" if "l \<le> N" for k l by (rule image_mono) (use that in auto)
  have apart: "a j \<notin> a ` {k..<l} \<union> Y" if "j < N" "l \<le> N" "j < k \<or> l \<le> j" "Y \<subseteq> ?X" for j k l Y
  proof -
    have "a j \<noteq> a i" if "i \<in> {k..<l}" for i using inj_onD [OF inj, of j i] \<open>j < N\<close> \<open>l \<le> N\<close> \<open>j < k \<or> l \<le> j\<close> that by auto
    moreover have "a j \<in> a ` {..<N}" using that(1) by simp
    ultimately show ?thesis using off that(4) by blast
  qed
  obtain m1 where m1: "copy_from_kernel cr3 ?base (pm_argv A) (of_nat R) (mem s) = Some m1" "only (a ` {?q..<?q + R}) (mem s) m1"
    "\<forall>j < R. m1 (a (?q + j)) = mem s (argv_byte A j)"
    using strings_copied [OF st [unfolded N] _ kd(1) kX(1)] top unfolding base by (auto simp: N R_def)
  have st1: "arg_stack m1 cr3 va N a ?X" by (rule arg_stack_keep [OF st only_mono [OF m1(2)]]) (use aN [of "?q + R" ?q] N in auto)
  let ?s1 = "s\<lparr>mem := m1\<rparr>"
  have pr: "prints (printk ''base = %x\<newline>'' [ArgWord ?base])" "prints (green_printk ''argc = %d\<newline>'' [ArgWord (of_nat argc)])"
    "prints (green_printk ''Finish copy parameters!\<newline>'' [])"
    by (rule prints_printk, simp)+
  have con1: "console_ok (con ?s1)" using con by simp
  obtain c1 where c1: "print_sys (printk ''base = %x\<newline>'' [ArgWord ?base]) (x, ?s1) = Inr (x, ?s1\<lparr>con := c1\<rparr>)" "console_ok c1"
    by (rule print_sys_prints [OF pr(1) con1])
  have con2: "console_ok (con (?s1\<lparr>con := c1\<rparr>))" using c1(2) by simp
  obtain c2 where c2: "print_sys (green_printk ''argc = %d\<newline>'' [ArgWord (of_nat argc)]) (x, ?s1\<lparr>con := c1\<rparr>) = Inr (x, ?s1\<lparr>con := c2\<rparr>)" "console_ok c2"
    by (rule print_sys_prints [OF pr(2) con2]) auto
  let ?s2 = "?s1\<lparr>con := c2\<rparr>"
  have h2: "arg_stack (mem ?s2) cr3 va N a ?X" "4 * (16 + argc) \<le> N" "argc \<le> argc" "console_ok (con ?s2)"
    using st1 c2(2) by (simp_all add: N)
  obtain c3 m3 where m3: "push_args A cr3 ?base argc (?base, x, ?s2) = Some (Inr (va + of_nat (4 * 16), x, ?s2\<lparr>con := c3, mem := m3\<rparr>))"
    "console_ok c3" "\<forall>j < argc. word_in m3 a (4 * (16 + j)) (load32 m1 (argv_cell A j) + ?base)"
    "only (a ` {4 * 16..<4 * (16 + argc)} \<union> kbytes (pm_argv_ptr A) (4 * argc)) m1 m3"
    using push_args_spec [OF h2(1-3) kd(2) kX(2) h2(4), of ?base x] unfolding base by auto
  have st3: "arg_stack m3 cr3 va N a ?X"
    by (rule arg_stack_keep [OF st1 only_mono [OF m3(4)]]) (use aN [of "4 * (16 + argc)" "4 * 16"] kX(2) N in auto)
  have k15: "4 * Suc 15 \<le> N" "4 * Suc 14 \<le> N" by (simp_all add: N)
  obtain m4 where m4: "push_user cr3 (pm_key A) (va + 64) (va + of_nat (4 * Suc 15), m3) = Some (va + of_nat (4 * 15), m4)"
    "word_in m4 a (4 * 15) (va + 64)" "only (a ` {4 * 15..<4 * 15 + 4} \<union> kbytes (pm_key A) 4) m3 m4"
    using push_at [OF st3 k15(1) kd(3) kX(3)] by blast
  have st4: "arg_stack m4 cr3 va N a ?X"
    by (rule arg_stack_keep [OF st3 only_mono [OF m4(3)]]) (use aN [of "4 * 15 + 4" "4 * 15"] kX(3) k15 in auto)
  obtain m5 where m5: "push_user cr3 (pm_argc A) (of_nat argc) (va + of_nat (4 * Suc 14), m4) = Some (va + of_nat (4 * 14), m5)"
    "word_in m5 a (4 * 14) (of_nat argc)" "only (a ` {4 * 14..<4 * 14 + 4} \<union> kbytes (pm_argc A) 4) m4 m5"
    using push_at [OF st4 k15(2) kd(4) kX(4)] by blast
  have st5: "arg_stack m5 cr3 va N a ?X"
    by (rule arg_stack_keep [OF st4 only_mono [OF m5(3)]]) (use aN [of "4 * 14 + 4" "4 * 14"] kX(4) k15 in auto)
  have con5: "console_ok (con (?s2\<lparr>con := c3, mem := m5\<rparr>))" using m3(2) by simp
  obtain c5 where c5: "print_sys (green_printk ''Finish copy parameters!\<newline>'' []) (x, ?s2\<lparr>con := c3, mem := m5\<rparr>) =
      Inr (x, (?s2\<lparr>con := c3, mem := m5\<rparr>)\<lparr>con := c5\<rparr>)" "console_ok c5"
    by (rule print_sys_prints [OF pr(3) con5])
  have sp: "va + of_nat (4 * 16) = va + of_nat (4 * Suc 15)" "va + of_nat (4 * 15) = va + of_nat (4 * Suc 14)" "va + of_nat (4 * 14) = va + 56"
    "va + 64 = va + of_nat (4 * Suc 15)" by simp_all
  have run: "exec_stack A cr3 right argc (x, s) =
      (case user_frame A cr3 (elf_entry m5 (pm_buf A)) (va + 56, m5) of None \<Rightarrow> None
       | Some (sp, mm) \<Rightarrow> Some (Inr (sp, x, s\<lparr>con := c5, mem := mm\<rparr>)))"
  proof -
    have "push_user cr3 (pm_key A) (va + of_nat (4 * 16)) (va + of_nat (4 * 16), m3) = Some (va + of_nat (4 * 15), m4)"
      "push_user cr3 (pm_argc A) (of_nat argc) (va + of_nat (4 * 15), m4) = Some (va + 56, m5)"
      using m4(1) m5(1) by simp_all
    then show ?thesis
      using m1(1) c1(1) c2(1) m3(1) c5(1) by (simp add: exec_stack_def Let_def R_def split: option.split)
  qed
  have ap: "a (4 * k + l) \<notin> a ` {4 * k'..<4 * k' + 4} \<union> Y" if "l < 4" "4 * k + 4 \<le> N" "k' < k" "Y \<subseteq> ?X" for k k' l Y
    by (rule apart) (use that in auto)
  have w15: "word_in m5 a (4 * 15) (va + 64)"
    by (rule word_in_keep [OF m4(2) m5(3)]) (intro allI impI ap; use kX(4) N in simp)
  have cells: "load32 m1 (argv_cell A j) = load32 (mem s) (argv_cell A j)" if "j < argc" for j
  proof (rule load32_kbytes [OF cell_data(1) [OF kd(2) that] m1(2)])
    show "a ` {?q..<?q + R} \<inter> kbytes (pm_argv_ptr A + 4 * of_nat j) 4 = {}"
      using aN [of "?q + R" ?q] off cell_data(2) [OF kd(2) that] kX(2) N by blast
  qed
  have wj: "word_in m5 a (4 * (16 + j)) (load32 (mem s) (argv_cell A j) + ?base)" if j: "j < argc" for j
  proof -
    have jN: "4 * (16 + j) + 4 \<le> N" using j by (simp add: N)
    have "word_in m3 a (4 * (16 + j)) (load32 (mem s) (argv_cell A j) + ?base)" using m3(3) j cells by simp
    then have "word_in m4 a (4 * (16 + j)) (load32 (mem s) (argv_cell A j) + ?base)"
      by (rule word_in_keep [OF _ m4(3)]) (intro allI impI ap; use kX(3) jN in simp)
    then show ?thesis
      by (rule word_in_keep [OF _ m5(3)]) (intro allI impI ap; use kX(4) jN in simp)
  qed
  have tx: "m5 (a (?q + j)) = mem s (argv_byte A j)" if j: "j < R" for j
  proof -
    have jN: "?q + j < N" using j by (simp add: N)
    have "a (?q + j) \<notin> a ` {4 * 16..<4 * (16 + argc)} \<union> kbytes (pm_argv_ptr A) (4 * argc)"
      "a (?q + j) \<notin> a ` {4 * 15..<4 * 15 + 4} \<union> kbytes (pm_key A) 4" "a (?q + j) \<notin> a ` {4 * 14..<4 * 14 + 4} \<union> kbytes (pm_argc A) 4"
      by (rule apart; use jN kX N in simp)+
    then have "m3 (a (?q + j)) = m1 (a (?q + j))" "m4 (a (?q + j)) = m3 (a (?q + j))" "m5 (a (?q + j)) = m4 (a (?q + j))"
      using m3(4) m4(3) m5(3) unfolding only_def by blast+
    then show ?thesis using m1(3) j by simp
  qed
  let ?Y = "a ` {56..<N} \<union> ?X"
  have sub: "a ` {k..<l} \<union> Z \<subseteq> ?Y" if "56 \<le> k" "l \<le> N" "Z \<subseteq> ?X" for k l Z
    by (rule Un_mono [OF image_mono that(3)]) (use that in auto)
  have "only ?Y (mem s) m1" by (rule only_mono [OF m1(2)]) (use sub [of ?q "?q + R" "{}"] N in simp)
  moreover have "only ?Y m1 m3" by (rule only_mono [OF m3(4) sub]) (use kX N in simp_all)
  moreover have "only ?Y m3 m4" by (rule only_mono [OF m4(3) sub]) (use kX N in simp_all)
  moreover have "only ?Y m4 m5" by (rule only_mono [OF m5(3) sub]) (use kX N in simp_all)
  ultimately have "only ?Y (mem s) m5" by (meson only_trans)
  moreover have "args_pushed m5 a va argc R (\<lambda>j. load32 (mem s) (argv_cell A j) + ?base) (\<lambda>j. mem s (argv_byte A j))"
    using m5(2) w15 wj tx by (simp add: args_pushed_def)
  ultimately show ?thesis using run c5(2) by blast
qed

text \<open>Then the frame.\<close>

lemma exec_stack_spec:
  fixes argc right :: nat
  defines "R \<equiv> right + 1" and "N \<equiv> 4 * (16 + argc) + (right + 1)"
  assumes st: "arg_stack (mem s) cr3 va N a (exec_vars A R argc)" and top: "unat va + N = 0xC0000000"
    and vars: "exec_vars_ok A R argc" "kbytes (pm_buf A) 4096 \<inter> a ` {..<N} = {}" and con: "console_ok (con s)"
  shows "\<exists>c m'. exec_stack A cr3 right argc (x, s) = Some (Inr (va, x, s\<lparr>con := c, mem := m'\<rparr>)) \<and> console_ok c \<and>
    only (a ` {..<N} \<union> exec_vars A R argc) (mem s) m' \<and>
    restore_context (user_load m' cr3) va = kthread_context (elf_entry (mem s) (pm_buf A)) (va + 52) \<and>
    user_load m' cr3 (va + 52) = asm_do_int80_exit A \<and> user_load m' cr3 (va + 56) = of_nat argc \<and>
    user_load m' cr3 (va + 60) = va + 64 \<and>
    (\<forall>i < argc. user_load m' cr3 (va + 64 + 4 * of_nat i) = load32 (mem s) (argv_cell A i) + (0xC0000000 - of_nat R)) \<and>
    (\<forall>j < R. user_byte m' cr3 (0xC0000000 - of_nat R + of_nat j) = mem s (argv_byte A j))"
proof -
  let ?X = "exec_vars A R argc" and ?q = "4 * (16 + argc)" and ?base = "0xC0000000 - of_nat R :: u32"
  have N: "N = ?q + R" by (simp add: N_def R_def)
  have base: "va + of_nat ?q = ?base"
  proof -
    have "unat (va + of_nat N) = unat va + N" using top by (simp add: unat_word_ariths unat_of_nat)
    then have "va + of_nat N = 0xC0000000" using top by (simp add: word_unat_eq_iff)
    moreover have "va + of_nat N = va + of_nat ?q + of_nat R" by (simp add: N)
    ultimately show ?thesis by (metis add_diff_cancel_right')
  qed
  have kd: "kdata (pm_key A) 4" "kdata (pm_buf A) 4096" "kbytes (pm_buf A) 4096 \<inter> ?X = {}" using vars(1) by (simp_all add: exec_vars_ok_def)
  have kX: "kbytes (pm_key A) 4 \<subseteq> ?X" by (auto simp: exec_vars_def)
  have inj: "inj_on a {..<N}" and off: "a ` {..<N} \<inter> ?X = {}" using st by (simp_all only: arg_stack_def)
  obtain c m5 where m5: "exec_stack A cr3 right argc (x, s) =
      (case user_frame A cr3 (elf_entry m5 (pm_buf A)) (va + 56, m5) of None \<Rightarrow> None
       | Some (sp, mm) \<Rightarrow> Some (Inr (sp, x, s\<lparr>con := c, mem := mm\<rparr>)))" "console_ok c"
    "only (a ` {56..<N} \<union> ?X) (mem s) m5"
    "args_pushed m5 a va argc R (\<lambda>j. load32 (mem s) (argv_cell A j) + ?base) (\<lambda>j. mem s (argv_byte A j))"
    using exec_args_spec [OF st [unfolded R_def N_def] top [unfolded N_def] vars(1) [unfolded R_def] con, of x, folded R_def N_def]
    by (elim exE conjE)
  let ?Y = "a ` {..<N} \<union> ?X"
  have on5: "only ?Y (mem s) m5" by (rule only_mono [OF m5(3)]) (intro Un_mono image_mono subset_refl, auto)
  have st5: "arg_stack m5 cr3 va N a ?X" by (rule arg_stack_keep [OF st on5])
  have ent: "elf_entry m5 (pm_buf A) = elf_entry (mem s) (pm_buf A)"
  proof -
    have u: "unat (pm_buf A + 24) = unat (pm_buf A) + 24" using kdata_at(4) [OF kd(2), of 24] by simp
    have "kdata (pm_buf A + 24) 4" using kd(2) by (simp add: kdata_def u)
    moreover have "kbytes (pm_buf A + 24) 4 \<subseteq> kbytes (pm_buf A) 4096" by (auto simp: kbytes_def u)
    then have "?Y \<inter> kbytes (pm_buf A + 24) 4 = {}" using vars(2) kd(3) by blast
    ultimately show ?thesis unfolding elf_entry_def by (intro load32_kbytes [OF _ on5])
  qed
  have N56: "4 * 14 \<le> N" by (simp add: N)
  have part: "stack_part m5 cr3 (va + 56 - 56) 14 a (pm_key A)" using arg_stack_part [OF st5 N56 kd(1) kX] by simp
  obtain m' where m': "user_frame A cr3 (elf_entry m5 (pm_buf A)) (va + 56, m5) = Some (va + 56 - 56, m')"
    "restore_context (user_load m' cr3) (va + 56 - 56) = kthread_context (elf_entry m5 (pm_buf A)) (va + 56 - 4)"
    "user_load m' cr3 (va + 56 - 4) = asm_do_int80_exit A" "\<forall>x. x \<notin> written 14 a (pm_key A) \<longrightarrow> m' x = m5 x"
    using user_frame_spec [OF part, of "elf_entry m5 (pm_buf A)"] by (elim exE conjE)
  have on': "only (a ` {..<56} \<union> kbytes (pm_key A) 4) m5 m'" using m'(4) by (simp add: only_def kdata_word [OF kd(1)])
  have keep: "a k \<notin> a ` {..<56} \<union> kbytes (pm_key A) 4" if k: "56 \<le> k" "k < N" for k
  proof -
    have "a k \<noteq> a i" if "i < 56" for i using inj_onD [OF inj, of k i] k that by auto
    moreover have "a k \<in> a ` {..<N}" using k by simp
    ultimately show ?thesis using off kX by blast
  qed
  have onY: "only ?Y (mem s) m'"
    by (rule only_trans [OF on5 only_mono [OF on']]) (intro Un_mono image_mono kX, use N in auto)
  have um: "user_mapped m' cr3 va N a" using arg_stack_keep [OF st onY] by (simp only: arg_stack_def)
  have word: "user_load m' cr3 (va + of_nat p) = w" if "word_in m5 a p w" "56 \<le> p" "p + 4 \<le> N" for p w
    by (rule user_load_in [OF um that(3)], rule word_in_keep [OF that(1) on']) (use keep that(2,3) in simp)
  note ap = m5(4) [unfolded args_pushed_def]
  have w14: "user_load m' cr3 (va + 56) = of_nat argc" "user_load m' cr3 (va + 60) = va + 64"
    using word [of "4 * 14" "of_nat argc"] word [of "4 * 15" "va + 64"] ap N by simp_all
  have ptr: "user_load m' cr3 (va + 64 + 4 * of_nat i) = load32 (mem s) (argv_cell A i) + ?base" if i: "i < argc" for i
  proof -
    have "va + of_nat (4 * (16 + i)) = va + 64 + 4 * of_nat i" by simp
    then show ?thesis unfolding add.assoc using word [of "4 * (16 + i)" "load32 (mem s) (argv_cell A i) + ?base"] ap i N by simp
  qed
  have chars: "user_byte m' cr3 (?base + of_nat j) = mem s (argv_byte A j)" if j: "j < R" for j
  proof -
    have jN: "?q + j < N" "56 \<le> ?q + j" using j N by simp_all
    have e: "?base + of_nat j = va + of_nat (?q + j)" unfolding base [symmetric] by simp
    have "user_byte m' cr3 (?base + of_nat j) = m' (a (?q + j))" unfolding e by (rule user_byte_mapped [OF um jN(1)])
    also have "\<dots> = m5 (a (?q + j))" using on' keep [OF jN(2,1)] unfolding only_def by blast
    also have "\<dots> = mem s (argv_byte A j)" using ap j by blast
    finally show ?thesis .
  qed
  have "exec_stack A cr3 right argc (x, s) = Some (Inr (va, x, s\<lparr>con := c, mem := m'\<rparr>))" using m5(1) m'(1) by simp
  then show ?thesis
    using m5(2) onY m'(2,3) ent w14 ptr chars
    by (intro exI [of _ c] exI [of _ m'] conjI allI impI) (simp_all add: add.commute [of 52])
qed

section \<open>The arguments in the server\<close>

text \<open>The variables that hold the arguments, apart from those of the loader.\<close>

definition arg_data :: "pm_addrs \<Rightarrow> u32 set" where
  "arg_data A = kbytes (pm_argv A) argv_size \<union> kbytes (pm_argv_ptr A) (4 * NR_argv) \<union> kbytes (pm_argc A) 4"

definition exec_layout :: "pm_addrs \<Rightarrow> u32 set \<Rightarrow> u32 \<Rightarrow> bool" where
  "exec_layout A S pd \<longleftrightarrow> layout A S pd \<and> argv_layout A \<and> kdata (pm_argv A) argv_size \<and>
     kdata (pm_argv_ptr A) (4 * NR_argv) \<and> kdata (pm_argc A) 4 \<and>
     arg_data A \<inter> (S \<union> page (va_to_pa pd) \<union> kbytes (pm_buf A) 4096 \<union> kbytes (pm_segment_buf A) 4200 \<union> kbytes (pm_key A) 4) = {}"

text \<open>Arguments that the server can hold.\<close>

definition args_fit :: "u8 list list \<Rightarrow> bool" where
  "args_fit args \<longleftrightarrow> args \<noteq> [] \<and> length args \<le> NR_argv \<and> (\<forall>s \<in> set args. s \<noteq> [] \<and> 0 \<notin> set s) \<and> length (packed args) < argv_size"

text \<open>The arguments in \<open>argv\<close>, and where each begins there.\<close>

definition args_read :: "pm_addrs \<Rightarrow> u8 list list \<Rightarrow> memory \<Rightarrow> bool" where
  "args_read A args m \<longleftrightarrow> (\<forall>j \<le> length (packed args). m (argv_byte A j) = (packed args @ [0]) ! j) \<and>
     (\<forall>k < length args. load32 m (argv_cell A k) = of_nat (starts 0 args ! k))"

lemma arg_data_low:
  assumes "exec_layout A S pd" "x \<in> arg_data A"
  shows "unat x < 0x1000000"
  using assms kbytes_low unfolding exec_layout_def arg_data_def by blast

lemma argv_bytes_data:
  assumes "exec_layout A S pd"
  shows "argv_bytes A \<subseteq> arg_data A"
proof -
  have k: "kdata (pm_argv A) argv_size" "kdata (pm_argv_ptr A) (4 * NR_argv)" using assms by (simp_all add: exec_layout_def)
  have "argv_byte A i \<in> arg_data A" if "i < argv_size" for i using kdata_at(2) [OF k(1) that] by (simp add: arg_data_def)
  moreover have "word_bytes (argv_cell A j) \<subseteq> arg_data A" if "j < NR_argv" for j
  proof -
    have "word_bytes (argv_cell A j) = kbytes (pm_argv_ptr A + 4 * of_nat j) 4" by (rule kdata_word [OF cell_data(1) [OF k(2) that]])
    then show ?thesis using cell_data(2) [OF k(2) that] by (auto simp: arg_data_def)
  qed
  ultimately show ?thesis by (auto simp: argv_bytes_def)
qed

lemma args_read_keep:
  assumes lay: "exec_layout A S pd" and fit: "args_fit args" and r: "args_read A args m" and w: "only W m m'" "W \<inter> arg_data A = {}"
  shows "args_read A args m'"
proof -
  have k: "kdata (pm_argv A) argv_size" "kdata (pm_argv_ptr A) (4 * NR_argv)" using lay by (simp_all add: exec_layout_def)
  have len: "length (packed args) < argv_size" "length args \<le> NR_argv" using fit by (simp_all add: args_fit_def)
  have "m' (argv_byte A j) = m (argv_byte A j)" if "j \<le> length (packed args)" for j
  proof -
    have "j < argv_size" using that len(1) by simp
    then have "argv_byte A j \<in> arg_data A" using kdata_at(2) [OF k(1)] by (simp add: arg_data_def)
    then show ?thesis using w unfolding only_def by blast
  qed
  moreover have "load32 m' (argv_cell A j) = load32 m (argv_cell A j)" if "j < length args" for j
  proof -
    have j: "j < NR_argv" using that len(2) by simp
    show ?thesis
      by (rule load32_kbytes [OF cell_data(1) [OF k(2) j] w(1)])
        (use cell_data(2) [OF k(2) j] w(2) in \<open>auto simp: arg_data_def\<close>)
  qed
  ultimately show ?thesis using r by (simp add: args_read_def)
qed

lemma args_fetched:
  assumes own: "own_pages v pd" and cov: "covered (mm_mem v) pd va Buffer_Size" and lay: "exec_layout A S pd" and fit: "args_fit args"
    and bytes: "\<forall>j \<le> length (packed args). user_byte (mm_mem v) (cr3_of pd) (va + of_nat j) = (packed args @ [0]) ! j"
  shows "\<exists>m0 m'. copy_to_kernel (cr3_of pd) (pm_argv A) va 1 (mm_mem v) = Some m0 \<and>
    parse_args A (cr3_of pd) va (argv_size - 1) 0 0 0 m0 = Some (Inr (length (packed args), length args, m')) \<and>
    args_read A args m' \<and> only (arg_data A) (mm_mem v) m'"
proof -
  let ?m = "mm_mem v" and ?a = "\<lambda>i. place (mm_mem v) pd (va + of_nat i)"
  define b where "b = (\<lambda>i. user_byte ?m (cr3_of pd) (va + of_nat i))"
  note ob = own_buffer [OF own cov]
  have al: "\<forall>x \<in> argv_bytes A. unat x < 0x1000000" using argv_bytes_data [OF lay] arg_data_low [OF lay] by blast
  have "argv_bytes A \<inter> page (va_to_pa pd) = {}" using argv_bytes_data [OF lay] lay unfolding exec_layout_def by blast
  then have "argv_bytes A \<inter> table_bytes ?m pd = {}"
    using low_apart [OF al] own_pages_wf(1) [OF own] unfolding table_bytes_def wf_space_def by blast
  note ap = ob(2) [OF this]
  have bp: "bytes_at b 0 (packed args @ [0])"
    unfolding bytes_at_def b_def using bytes by (simp add: less_Suc_eq_le)
  have mb: "\<forall>i < Buffer_Size. ?a i \<notin> argv_bytes A \<and> ?m (?a i) = b i"
  proof (intro allI impI conjI)
    fix i assume i: "i < Buffer_Size"
    obtain f where "AddressSpace.user_frame f" "?a i \<in> page f" using ob(5) [OF i] by blast
    then show "?a i \<notin> argv_bytes A" using low_apart [OF al, of f] by blast
    show "?m (?a i) = b i" using user_byte_mapped [OF ob(1) i] by (simp add: b_def)
  qed
  have la: "argv_layout A" using lay by (simp add: exec_layout_def)
  note f = fit [unfolded args_fit_def, THEN conjunct1] fit [unfolded args_fit_def, THEN conjunct2, THEN conjunct1]
    fit [unfolded args_fit_def, THEN conjunct2, THEN conjunct2, THEN conjunct1] fit [unfolded args_fit_def, THEN conjunct2, THEN conjunct2, THEN conjunct2]
  obtain m0 m' where m': "copy_to_kernel (cr3_of pd) (pm_argv A) va 1 ?m = Some m0"
    "parse_args A (cr3_of pd) va (argv_size - 1) 0 0 0 m0 = Some (Inr (length (packed args), length args, m'))"
    "parsed A b (length (packed args)) (starts 0 args) m'" "\<forall>x. x \<notin> argv_bytes A \<longrightarrow> m' x = ?m x"
    using packed_args_parsed [OF f bp la ob(1) ap mb] by (elim exE conjE)
  have "args_read A args m'"
    using m'(3) bp by (simp add: args_read_def parsed_def bytes_at_def less_Suc_eq_le)
  moreover have "only (arg_data A) ?m m'" using m'(4) argv_bytes_data [OF lay] unfolding only_def by blast
  ultimately show ?thesis using m'(1,2) by blast
qed

text \<open>The space of the old program, cleared, is one for the loader.\<close>

lemma exec_space:
  assumes "own_pages v pd" "2 + need \<le> card (free_frames v)"
  defines "FR \<equiv> free_frames v \<union> space_frames (mm_mem v) pd"
  shows "\<exists>v'. exec_page pd v = Inr v' \<and> space_for pd FR {786431} need v' \<and>
    only (page (va_to_pa pd) \<union> \<Union> (page ` {f \<in> FR. AddressSpace.user_frame f})) (mm_mem v) (mm_mem v')"
proof -
  obtain v' where v': "exec_page pd v = Inr v'" "own_pages v' pd" "need \<le> card (free_frames v')"
    "\<forall>u < 786432. vmap (mm_mem v') pd u \<noteq> None \<longleftrightarrow> u = 786431" "space_frames (mm_mem v') pd \<union> free_frames v' \<subseteq> FR"
    "only (page (va_to_pa pd) \<union> \<Union> (page ` {f \<in> FR. AddressSpace.user_frame f})) (mm_mem v) (mm_mem v')"
    using exec_page_spec [OF assms(1,2)] unfolding FR_def by (elim exE conjE)
  have "tables (mm_mem v') pd \<subseteq> FR" "free_frames v' \<subseteq> FR" "\<forall>u < 786432. \<forall>f. vmap (mm_mem v') pd u = Some f \<longrightarrow> f \<in> FR"
    using v'(5) by (auto simp: space_frames_def)
  then have "space_for pd FR {786431} need v'" using v'(2-4) by (simp add: space_for_def)
  then show ?thesis using v'(1,6) by blast
qed

section \<open>The program and its arguments\<close>

text \<open>The arguments as \<open>main\<close> finds them: \<open>argv\<close> points to the addresses of the strings.\<close>

definition shows_args :: "memory \<Rightarrow> u32 \<Rightarrow> u32 \<Rightarrow> u8 list list \<Rightarrow> bool" where
  "shows_args m cr3 argv args \<longleftrightarrow> (\<forall>k < length args. \<forall>j \<le> length (args ! k).
     user_byte m cr3 (user_load m cr3 (argv + 4 * of_nat k) + of_nat j) = (args ! k @ [0]) ! j)"

text \<open>A process that runs the program with the headers \<open>P\<close> and the bytes \<open>Q\<close> when it is switched to: the frame on its
  stack starts it at the entry point, above it are the return address, \<open>argc\<close> and \<open>argv\<close>.\<close>

definition runs_with_args :: "pm_addrs \<Rightarrow> u8 list \<Rightarrow> u8 list \<Rightarrow> u8 list list \<Rightarrow> u32 \<Rightarrow> memory \<Rightarrow> u32 \<Rightarrow> bool" where
  "runs_with_args A P Q args cr3 m esp \<longleftrightarrow> shows_segments P Q cr3 m \<and>
     restore_context (user_load m cr3) esp = kthread_context (elf_entry (image_mem P) 0) (esp + 52) \<and>
     user_load m cr3 (esp + 52) = asm_do_int80_exit A \<and> user_load m cr3 (esp + 56) = of_nat (length args) \<and>
     shows_args m cr3 (user_load m cr3 (esp + 60)) args"

lemma exec_vars_data:
  assumes "exec_layout A S pd" "args_fit args"
  shows "exec_vars A (length (packed args) + 1) (length args) \<subseteq> arg_data A \<union> kbytes (pm_key A) 4"
    "exec_vars_ok A (length (packed args) + 1) (length args)"
proof -
  have n: "length (packed args) + 1 \<le> argv_size" "4 * length args \<le> 4 * NR_argv" using assms(2) by (simp_all add: args_fit_def)
  have k: "kdata (pm_argv A) argv_size" "kdata (pm_argv_ptr A) (4 * NR_argv)" "kdata (pm_argc A) 4" "kdata (pm_key A) 4" "kdata (pm_buf A) 4096"
    "kbytes (pm_buf A) 4096 \<inter> kbytes (pm_key A) 4 = {}" "kbytes (pm_buf A) 4096 \<inter> arg_data A = {}"
    using assms(1) by (auto simp: exec_layout_def layout_def)
  show sub: "exec_vars A (length (packed args) + 1) (length args) \<subseteq> arg_data A \<union> kbytes (pm_key A) 4"
    using kdata_mono(2) [OF n(1)] kdata_mono(2) [OF n(2)] by (auto simp: exec_vars_def arg_data_def)
  show "exec_vars_ok A (length (packed args) + 1) (length args)"
    using kdata_mono(1) [OF k(1) n(1)] kdata_mono(1) [OF k(2) n(2)] k sub unfolding exec_vars_ok_def by blast
qed

text \<open>The stack page of a space that is loaded, as a stack for the arguments.\<close>

lemma loaded_stack:
  assumes st: "load_state A P Q pd FR V need qs v" and N: "N \<le> 4096"
    and X: "\<forall>x \<in> X. unat x < 0x1000000" "X \<inter> page (va_to_pa pd) = {}"
  shows "\<exists>a g. arg_stack (mm_mem v) (cr3_of pd) (0xC0000000 - of_nat N) N a X \<and> vmap (mm_mem v) pd 786431 = Some g \<and>
    a ` {..<N} \<subseteq> page g \<and> AddressSpace.user_frame g \<and> g \<in> FR \<and> (a ` {..<N} \<union> X) \<inter> table_bytes (mm_mem v) pd = {}"
proof -
  let ?va = "0xC0000000 - of_nat N :: u32" and ?m = "mm_mem v"
  let ?a = "\<lambda>i. place ?m pd (?va + of_nat i)"
  have own: "own_pages v pd" and "vmap ?m pd 786431 \<noteq> None" and fr: "\<forall>u < 786432. \<forall>f. vmap ?m pd u = Some f \<longrightarrow> f \<in> FR"
    using st by (simp_all add: load_state_all)
  then obtain g where g: "vmap ?m pd 786431 = Some g" by auto
  have gf: "AddressSpace.user_frame g" "g \<in> FR" using own_pages_frame(1) [OF own _ g] fr [rule_format, OF _ g] by simp_all
  have u: "unat ?va = 0xC0000000 - N" using N by (simp add: unat_sub unat_of_nat word_le_nat_alt)
  have cov: "covered ?m pd ?va N"
  proof -
    have "vmap ?m pd w \<noteq> None" if "unat ?va div 4096 \<le> w" "w * 4096 < unat ?va + N" for w
    proof -
      have "0xC0000000 - N < (w + 1) * 4096" using that(1) u by (simp add: div_less_iff_less_mult less_Suc_eq_le [symmetric])
      then have "w = 786431" using that(2) u N by simp
      then show ?thesis using g by simp
    qed
    then show ?thesis using u N by (simp add: covered_def)
  qed
  note ob = own_buffer [OF own cov]
  have tb: "X \<inter> table_bytes ?m pd = {}"
    using low_apart [OF X(1)] X(2) own_pages_wf(1) [OF own] unfolding table_bytes_def wf_space_def by blast
  have off: "(?a ` {..<N} \<union> X) \<inter> table_bytes ?m pd = {}" using ob(4) tb by blast
  have ag: "?a i \<in> page g" if i: "i < N" for i
  proof -
    note cb = covered_byte [OF cov i]
    have "unat (?va + of_nat i) div 4096 = 786431" using cb(1) u N i by simp
    then show ?thesis using place_in_page(2) [OF gf(1)] g by simp
  qed
  then have sub: "?a ` {..<N} \<subseteq> page g" by blast
  have "?a ` {..<N} \<inter> X = {}" using sub low_apart [OF X(1) gf(1)] by blast
  then have "arg_stack ?m (cr3_of pd) ?va N ?a X" using ob(1,3) ob(2) [OF off] by (simp only: arg_stack_def)
  then show ?thesis using sub g gf off by blast
qed

lemma pushed_strings:
  assumes rd: "args_read A args m" and ptr: "\<forall>i < length args. user_load m' cr3 (argv + 4 * of_nat i) = load32 m (argv_cell A i) + base"
    and chars: "\<forall>j < length (packed args) + 1. user_byte m' cr3 (base + of_nat j) = m (argv_byte A j)"
  shows "shows_args m' cr3 argv args"
  unfolding shows_args_def
proof (intro allI impI)
  fix k j assume k: "k < length args" and j: "j \<le> length (args ! k)"
  let ?p = "starts 0 args ! k"
  have le: "?p + j \<le> length (packed args)" using starts_bound [OF k, of 0] j by simp
  have at: "user_load m' cr3 (argv + 4 * of_nat k) + of_nat j = base + of_nat (?p + j)"
    using ptr rd k by (simp add: args_read_def)
  have "user_byte m' cr3 (base + of_nat (?p + j)) = m (argv_byte A (?p + j))"
    by (rule chars [rule_format]) (use le in simp)
  also have "\<dots> = (packed args @ [0]) ! (?p + j)" using rd le unfolding args_read_def by blast
  also have "\<dots> = (args ! k @ [0]) ! j"
    using starts_string [OF k, of "\<lambda>i. (packed args @ [0]) ! i" 0] j by (simp add: bytes_at_def nth_append)
  finally show "user_byte m' cr3 (user_load m' cr3 (argv + 4 * of_nat k) + of_nat j) = (args ! k @ [0]) ! j" unfolding at .
qed

lemma exec_stack_loaded:
  assumes st: "load_state A P Q pd FR V need (set (program_headers P)) (mm_of (fl, s))" and P: "loadable P Q"
    and lay: "exec_layout A S pd" and fit: "args_fit args" and rd: "args_read A args (mem s)" and con: "console_ok (con s)"
  shows "\<exists>c m' sp. exec_stack A (cr3_of pd) (length (packed args)) (length args) (x, s) = Some (Inr (sp, x, s\<lparr>con := c, mem := m'\<rparr>)) \<and>
    console_ok c \<and> runs_with_args A P Q args (cr3_of pd) m' sp \<and>
    only (arg_data A \<union> kbytes (pm_key A) 4 \<union> \<Union> (page ` {f \<in> FR. AddressSpace.user_frame f})) (mem s) m'"
proof -
  let ?n = "length args" and ?cr3 = "cr3_of pd" and ?qs = "program_headers P"
  define R where "R = length (packed args) + 1"
  define N where "N = 4 * (16 + ?n) + R"
  define X where "X = exec_vars A R ?n"
  define va where "va = (0xC0000000 - of_nat N :: u32)"
  have mm: "mm_mem (mm_of (fl, s)) = mem s" by (simp add: mm_of_def)
  have ly: "layout A S pd" "kdata (pm_key A) 4" "kdata (pm_buf A) 4096" "kbytes (pm_key A) 4 \<inter> page (va_to_pa pd) = {}"
    "arg_data A \<inter> page (va_to_pa pd) = {}"
    using lay by (auto simp: exec_layout_def layout_def)
  note ev = exec_vars_data [OF lay fit, folded R_def, folded X_def]
  have low: "\<forall>x \<in> X. unat x < 0x1000000" using ev(1) arg_data_low [OF lay] kbytes_low [OF ly(2)] by blast
  have Xpd: "X \<inter> page (va_to_pa pd) = {}" using ev(1) ly(4,5) by blast
  have N: "N \<le> 4096" using fit by (simp add: N_def R_def args_fit_def NR_argv_def argv_size_def)
  have top: "unat va + N = 0xC0000000" using N by (simp add: va_def unat_sub unat_of_nat word_le_nat_alt)
  obtain a g where a: "arg_stack (mem s) ?cr3 va N a X" and g: "vmap (mem s) pd 786431 = Some g" "a ` {..<N} \<subseteq> page g"
    "AddressSpace.user_frame g" "g \<in> FR" and off: "(a ` {..<N} \<union> X) \<inter> table_bytes (mem s) pd = {}"
    using loaded_stack [OF st N low Xpd, unfolded mm, folded va_def] by (elim exE conjE)
  have bg: "kbytes (pm_buf A) 4096 \<inter> page g = {}" by (rule low_apart [OF _ g(3)]) (use kbytes_low [OF ly(3)] in blast)
  have bX: "kbytes (pm_buf A) 4096 \<inter> X = {}" using ev(2) by (simp add: exec_vars_ok_def X_def)
  have ba: "kbytes (pm_buf A) 4096 \<inter> a ` {..<N} = {}" using bg g(2) by blast
  obtain c m' where m': "exec_stack A ?cr3 (length (packed args)) ?n (x, s) = Some (Inr (va, x, s\<lparr>con := c, mem := m'\<rparr>))" "console_ok c"
    "only (a ` {..<N} \<union> X) (mem s) m'"
    "restore_context (user_load m' ?cr3) va = kthread_context (elf_entry (mem s) (pm_buf A)) (va + 52)"
    "user_load m' ?cr3 (va + 52) = asm_do_int80_exit A" "user_load m' ?cr3 (va + 56) = of_nat ?n" "user_load m' ?cr3 (va + 60) = va + 64"
    "\<forall>i < ?n. user_load m' ?cr3 (va + 64 + 4 * of_nat i) = load32 (mem s) (argv_cell A i) + (0xC0000000 - of_nat R)"
    "\<forall>j < R. user_byte m' ?cr3 (0xC0000000 - of_nat R + of_nat j) = mem s (argv_byte A j)"
    using exec_stack_spec [OF a [unfolded N_def X_def R_def] top [unfolded N_def R_def] ev(2) [unfolded R_def]
        ba [unfolded N_def R_def] con, folded R_def, folded N_def X_def, of x] by (elim exE conjE)
  have ok: "segments_ok P Q ?qs" using P by (simp add: loadable_def)
  have on: "only (a ` {..<N} \<union> X) (mm_mem (mm_of (fl, s))) m'" and off': "(a ` {..<N} \<union> X) \<inter> table_bytes (mm_mem (mm_of (fl, s))) pd = {}"
    and g': "vmap (mm_mem (mm_of (fl, s))) pd 786431 = Some g" using m'(3) off g(1) by (simp_all only: mm)
  have seg: "shows_segments P Q ?cr3 m'"
    by (rule stack_keeps_segments [OF st ok ly(3) g' on off' _ low]) (use g(2) bX in blast)+
  have "has_header (mem s) (pm_buf A) P" "4096 \<le> length P" using st P by (simp_all add: load_state_def loadable_def mm)
  note ent = header_fields(1) [OF this(1) ly(3) this(2)]
  have args: "shows_args m' ?cr3 (va + 64) args" by (rule pushed_strings [OF rd m'(8,9) [unfolded R_def]])
  have "runs_with_args A P Q args ?cr3 m' va"
    using seg args m'(4-7) ent by (simp add: runs_with_args_def)
  moreover have "only (arg_data A \<union> kbytes (pm_key A) 4 \<union> \<Union> (page ` {f \<in> FR. AddressSpace.user_frame f})) (mem s) m'"
    by (rule only_mono [OF m'(3)]) (use ev(1) g(2-4) in blast)
  ultimately show ?thesis using m'(1,2) by blast
qed

section \<open>Replacing a program\<close>

lemma space_frames_kept:
  assumes own: "own_pages v pd" and w: "only W (mm_mem v) m'" "W \<inter> table_bytes (mm_mem v) pd = {}"
  shows "space_frames m' pd = space_frames (mm_mem v) pd"
proof -
  note k = tables_kept [OF own_pages_wf(1) [OF own] w]
  have "tables m' pd = tables (mm_mem v) pd" unfolding tables_def tab_def using k(1) by (metis (no_types, lifting))
  then show ?thesis using k(2) by (auto simp: space_frames_def)
qed

text \<open>The services with the request that clears a space.\<close>

locale exec_services = program_services +
  assumes reset: "ready ((fl, w), s) \<Longrightarrow> m_type m = MM_EXEC \<Longrightarrow> mm_target m = pcb_addr s i \<Longrightarrow> i < MAX_PROC \<Longrightarrow>
      exec_page (pagedir_addr s i) (mm_of (fl, s)) = Inr v \<Longrightarrow> only W (mem s) (mm_mem v) \<Longrightarrow> W \<inter> K = {} \<Longrightarrow>
      \<exists>r s'. call MM m ((fl, w), s) = Inr (r, (Ppage_flag v, w), s') \<and> ready ((Ppage_flag v, w), s') \<and>
        mail_change D s s' \<and> mem s' = mm_mem v"
begin

text \<open>First the arguments are read and the space is cleared.\<close>

lemma exec_cleared:
  assumes r: "ready ((fl, w), s)" and i: "i < MAX_PROC" "i \<notin> D" "p_cr3 (proc s i) = cr3_of pd" "pagedir_addr s i = pd" "i < length (Proc s)"
    and lay: "exec_layout A (K \<union> scratch) pd" and fit: "args_fit args"
    and own: "own_pages (mm_of (fl, s)) pd" "2 + need \<le> card (free_frames (mm_of (fl, s)))" and cov: "covered (mem s) pd va Buffer_Size"
    and bytes: "\<forall>j \<le> length (packed args). user_byte (mem s) (cr3_of pd) (va + of_nat j) = (packed args @ [0]) ! j"
  defines "s1 \<equiv> upd_proc i (\<lambda>p. init_message_pool (p\<lparr>time_elapsed := 0\<rparr>)) s"
    and "FR \<equiv> free_frames (mm_of (fl, s)) \<union> space_frames (mem s) pd"
  shows "\<exists>m0 m1 r' (v :: mm) s2. copy_to_kernel (cr3_of pd) (pm_argv A) va 1 (mem s) = Some m0 \<and>
    parse_args A (cr3_of pd) va (argv_size - 1) 0 0 0 m0 = Some (Inr (length (packed args), length args, m1)) \<and>
    call MM (m\<lparr>m_type := MM_EXEC, m_w0 := pcb_addr s i\<rparr>) ((fl, w), s1\<lparr>mem := m1\<rparr>) = Inr (r', (Ppage_flag v, w), s2) \<and>
    ready ((Ppage_flag v, w), s2) \<and> mail_change D s1 s2 \<and> args_read A args (mem s2) \<and>
    space_for pd FR {786431} need (mm_of (Ppage_flag v, s2)) \<and> only (writes A scratch pd FR \<union> arg_data A) (mem s) (mem s2)"
proof -
  let ?v = "mm_of (fl, s)" and ?W = "page (va_to_pa pd) \<union> \<Union> (page ` {f \<in> FR. AddressSpace.user_frame f})"
  have mm: "mm_mem ?v = mem s" by (simp add: mm_of_def)
  have ly: "layout A (K \<union> scratch) pd" "arg_data A \<inter> page (va_to_pa pd) = {}" "arg_data A \<inter> K = {}"
    using lay by (auto simp: exec_layout_def)
  have alow: "\<forall>x \<in> arg_data A. unat x < 0x1000000" using arg_data_low [OF lay] by blast
  obtain m0 m1 where m1: "copy_to_kernel (cr3_of pd) (pm_argv A) va 1 (mem s) = Some m0"
    "parse_args A (cr3_of pd) va (argv_size - 1) 0 0 0 m0 = Some (Inr (length (packed args), length args, m1))"
    "args_read A args m1" "only (arg_data A) (mem s) m1"
    using args_fetched [OF own(1) _ lay fit, unfolded mm, OF cov bytes] by (elim exE conjE)
  let ?s1 = "s1\<lparr>mem := m1\<rparr>"
  have v1: "mm_of (fl, ?s1) = ?v\<lparr>mm_mem := m1\<rparr>" by (simp add: mm_of_def s1_def)
  have off: "arg_data A \<inter> table_bytes (mm_mem ?v) pd = {}" by (rule low_off_tables [OF own(1) alow ly(2)])
  have on: "only (arg_data A) (mm_mem ?v) m1" using m1(4) by (simp add: mm)
  have own1: "own_pages (mm_of (fl, ?s1)) pd"
    by (rule own_pages_write(1) [OF own(1) _ off]) (use on in \<open>simp_all add: v1 in_use_def\<close>)
  have ff: "free_frames (mm_of (fl, ?s1)) = free_frames ?v" by (simp add: v1 free_frames_def in_use_def)
  have FR: "free_frames (mm_of (fl, ?s1)) \<union> space_frames (mm_mem (mm_of (fl, ?s1))) pd = FR"
    using space_frames_kept [OF own(1) on off] by (simp only: ff FR_def mm) (simp add: v1)
  obtain v where v: "exec_page pd (mm_of (fl, ?s1)) = Inr v" "space_for pd FR {786431} need v" "only ?W (mm_mem (mm_of (fl, ?s1))) (mm_mem v)"
    using exec_space [OF own1 own(2) [folded ff], unfolded FR] by (elim exE conjE)
  have "proc ?s1 j = proc s j" if "j \<in> D" for j
  proof -
    have "j \<noteq> i" using i(2) that by blast
    then show ?thesis by (simp add: s1_def)
  qed
  then have "leaves_alone D s ?s1" by (simp add: leaves_alone_def s1_def)
  moreover have "\<forall>x \<in> K. mem ?s1 x = mem s x" using only_disjoint [OF m1(4) ly(3)] by simp
  ultimately have r1: "ready ((fl, w), ?s1)" by (rule ready_keep [OF r])
  have WK: "?W \<inter> K = {}" "?W \<subseteq> writes A scratch pd FR"
    using ly(1) low_apart [of K] low by (auto simp: layout_def writes_def)
  have t: "m_type (m\<lparr>m_type := MM_EXEC, m_w0 := pcb_addr s i\<rparr>) = MM_EXEC"
    "mm_target (m\<lparr>m_type := MM_EXEC, m_w0 := pcb_addr s i\<rparr>) = pcb_addr ?s1 i" "pagedir_addr ?s1 i = pd"
    using i(4) by (simp_all add: mm_target_def pcb_addr_def pagedir_addr_def s1_def)
  have on1: "only ?W (mem ?s1) (mm_mem v)" using v(3) by (simp add: mm_of_def)
  obtain r' s2 where s2: "call MM (m\<lparr>m_type := MM_EXEC, m_w0 := pcb_addr s i\<rparr>) ((fl, w), ?s1) = Inr (r', (Ppage_flag v, w), s2)"
    "ready ((Ppage_flag v, w), s2)" "mail_change D ?s1 s2" "mem s2 = mm_mem v"
    using reset [OF r1 t(1,2) i(1), unfolded t(3), OF v(1) on1 WK(1)] by blast
  have v2: "mm_of (Ppage_flag v, s2) = v" by (cases v) (simp add: mm_of_def s2(4))
  have "?W \<inter> arg_data A = {}" using ly(2) low_apart [OF alow] by blast
  then have rd: "args_read A args (mem s2)" using on1 by (intro args_read_keep [OF lay fit m1(3)]) (simp_all add: s2(4))
  have "only (writes A scratch pd FR \<union> arg_data A) (mem s) (mem s2)"
    by (rule only_trans [OF only_mono [OF m1(4)] only_mono [OF on1 [unfolded s2(4) [symmetric]], simplified]]) (use WK(2) in auto)
  then show ?thesis using m1(1,2) s2(1-3) rd v(2) v2
    by - (rule exI [of _ m0], rule exI [of _ m1], intro exI [of _ r'] exI [of _ v] exI [of _ s2], simp)
qed

text \<open>Then the new program is loaded, and its stack is made.\<close>

lemma Exec_uthread_spec:
  assumes r: "ready ((fl, w), s)" and i: "i < MAX_PROC" "i \<notin> D" "p_cr3 (proc s i) = cr3_of pd" "pagedir_addr s i = pd" "i < length (Proc s)"
    and lay: "exec_layout A (K \<union> scratch) pd" and fit: "args_fit args"
    and own: "own_pages (mm_of (fl, s)) pd" and cov: "covered (mem s) pd va Buffer_Size"
    and bytes: "\<forall>j \<le> length (packed args). user_byte (mem s) (cr3_of pd) (va + of_nat j) = (packed args @ [0]) ! j"
    and P: "loadable (source FM_READ_FILE name) (source FM_READ name)" and con: "console_ok (con s)"
    and enough: "2 + 2 * sum_list (map (seg_count (source FM_READ_FILE name)) (program_headers (source FM_READ_FILE name))) \<le> card (free_frames (mm_of (fl, s)))"
  defines "FR \<equiv> free_frames (mm_of (fl, s)) \<union> space_frames (mem s) pd"
  shows "\<exists>x s'. Exec_uthread m call A (int i) name va ((fl, w), s) = Some (Inr (x, s')) \<and>
    p_status (proc s' i) = STATUS_WAITING \<and> p_cr3 (proc s' i) = cr3_of pd \<and>
    runs_with_args A (source FM_READ_FILE name) (source FM_READ name) args (cr3_of pd) (mem s') (p_esp (proc s' i)) \<and>
    only (writes A scratch pd FR \<union> arg_data A) (mem s) (mem s') \<and> console_ok (con s') \<and>
    (\<forall>j. j \<noteq> i \<longrightarrow> mail_eq (proc s j) (proc s' j))"
proof -
  let ?P = "source FM_READ_FILE name" and ?Q = "source FM_READ name" and ?cr3 = "cr3_of pd"
  let ?U = "writes A scratch pd FR \<union> arg_data A"
  define s1 where "s1 = upd_proc i (\<lambda>p. init_message_pool (p\<lparr>time_elapsed := 0\<rparr>)) s"
  have ly: "layout A (K \<union> scratch) pd" "arg_data A \<inter> writes A scratch pd FR = {}"
  proof -
    show "layout A (K \<union> scratch) pd" using lay by (simp add: exec_layout_def)
    have "arg_data A \<inter> page f = {}" if "AddressSpace.user_frame f" for f
      by (rule low_apart [OF _ that]) (use arg_data_low [OF lay] in blast)
    then show "arg_data A \<inter> writes A scratch pd FR = {}" using lay unfolding writes_def exec_layout_def by blast
  qed
  obtain m0 m1 r' s2 and v :: mm where s2: "copy_to_kernel ?cr3 (pm_argv A) va 1 (mem s) = Some m0"
    "parse_args A ?cr3 va (argv_size - 1) 0 0 0 m0 = Some (Inr (length (packed args), length args, m1))"
    "call MM (m\<lparr>m_type := MM_EXEC, m_w0 := pcb_addr s i\<rparr>) ((fl, w), s1\<lparr>mem := m1\<rparr>) = Inr (r', (Ppage_flag v, w), s2)"
    "ready ((Ppage_flag v, w), s2)" "mail_change D s1 s2" "args_read A args (mem s2)"
    "space_for pd FR {786431} (2 * sum_list (map (seg_count ?P) (program_headers ?P))) (mm_of (Ppage_flag v, s2))"
    "only ?U (mem s) (mem s2)"
    using exec_cleared [OF r i lay fit own enough cov bytes, of m, folded s1_def FR_def] by (elim exE conjE)
  have c1: "p_cr3 (proc s1 i) = ?cr3" "pagedir_addr s1 i = pd" "pcb_addr s1 i = pcb_addr s i" "con s1 = con s" "mem s1 = mem s"
    using i(3-5) by (simp_all add: s1_def pagedir_addr_def pcb_addr_def init_message_pool_def)
  have p2: "p_cr3 (proc s2 i) = ?cr3" "pagedir_addr s2 i = pd" "console_ok (con s2)"
    using mail_change_cr3 [OF s2(5)] mail_change_addr(2) [OF s2(5)] c1 con s2(5) by (simp_all add: mail_change_def)
  obtain fl3 w3 s3 c V where s3: "load_program r' call A FM_READ name i ((Ppage_flag v, w), s2) = Some (Inr ((fl3, w3), s3\<lparr>con := c\<rparr>))"
    "mail_change D s2 s3" "only (writes A scratch pd FR) (mem s2) (mem s3)" "console_ok c"
    "load_state A ?P ?Q pd FR V 0 (set (program_headers ?P)) (mm_of (fl3, s3))"
    using load_program_spec [OF s2(4) i(1) p2(1,2) s2(7) ly(1) P p2(3)] by blast
  let ?s3 = "s3\<lparr>con := c\<rparr>"
  have rd: "args_read A args (mem ?s3)" using args_read_keep [OF lay fit s2(6) s3(3)] ly(2) by (simp add: Int_commute)
  have st: "load_state A ?P ?Q pd FR V 0 (set (program_headers ?P)) (mm_of (fl3, ?s3))" using s3(5) by (simp add: mm_of_def)
  have con3: "console_ok (con ?s3)" using s3(4) by simp
  obtain c4 m4 sp where s4: "exec_stack A ?cr3 (length (packed args)) (length args) ((fl3, w3), ?s3) =
      Some (Inr (sp, (fl3, w3), ?s3\<lparr>con := c4, mem := m4\<rparr>))" "console_ok c4" "runs_with_args A ?P ?Q args ?cr3 m4 sp"
    "only (arg_data A \<union> kbytes (pm_key A) 4 \<union> \<Union> (page ` {f \<in> FR. AddressSpace.user_frame f})) (mem ?s3) m4"
    using exec_stack_loaded [OF st P lay fit rd con3, of "(fl3, w3)"] by (elim exE conjE)
  define s4 where "s4 = upd_proc i (p_esp_update (\<lambda>_. sp)) (s3\<lparr>con := c4, mem := m4\<rparr>)"
  have con4: "console_ok (con s4)" using s4(2) by (simp add: s4_def)
  have pr: "prints (green_printk ''Ready to execute!\<newline>'' [])" by (rule prints_printk) simp
  obtain c5 where c5: "print_sys (green_printk ''Ready to execute!\<newline>'' []) ((fl3, w3), s4) = Inr ((fl3, w3), s4\<lparr>con := c5\<rparr>)" "console_ok c5"
    by (rule print_sys_prints [OF pr con4])
  define s' where "s' = unlock (upd_proc i (p_status_update (\<lambda>_. STATUS_WAITING)) (lock (s4\<lparr>con := c5\<rparr>)))"
  have cr3: "p_cr3 (proc s3 i) = ?cr3" using mail_change_cr3 [OF s3(2)] p2(1) by simp
  have run: "Exec_uthread m call A (int i) name va ((fl, w), s) = Some (Inr ((fl3, w3), s'))"
    using s2(1-3) s3(1) s4(1) c5(1) c1 cr3
    unfolding Exec_uthread_def prod.case proc_index_of_nat [OF i(5)] bindR_simps Let_def s1_def [symmetric]
    by (simp add: s4_def [symmetric] s'_def)
  have len: "i < length (Proc s3)" using i(5) s2(5) s3(2) by (simp add: mail_change_def s1_def)
  have Ps: "Proc s' = upd_at i (p_status_update (\<lambda>_. STATUS_WAITING) \<circ> p_esp_update (\<lambda>_. sp)) (Proc s3)" and ms: "mem s' = m4" "con s' = c5"
    by (simp_all add: s'_def s4_def)
  have "mail_eq (proc s j) (proc s' j)" if "j \<noteq> i" for j
  proof -
    have e: "proc s1 j = proc s j" "proc s' j = proc s3 j" using that by (simp_all add: s1_def Ps)
    have "mail_eq (proc s1 j) (proc s3 j)" using mail_change_trans [OF s2(5) s3(2)] unfolding mail_change_def by blast
    then show ?thesis unfolding e .
  qed
  moreover have "only ?U (mem s) m4"
  proof (rule only_trans [OF s2(8)], rule only_trans)
    show "only ?U (mem s2) (mem s3)" by (rule only_mono [OF s3(3)]) blast
    have "only ?U (mem ?s3) m4" by (rule only_mono [OF s4(4)]) (auto simp: writes_def)
    then show "only ?U (mem s3) m4" by simp
  qed
  ultimately show ?thesis
    using run Ps ms c5(2) s4(3) cr3 len by (intro exI [of _ "(fl3, w3)"] exI [of _ s']) simp
qed

end

text \<open>The servers provide these services.\<close>

lemma serve_exec_services:
  assumes ins: "installed dev idle disk kern files img K data_p c"
  shows "exec_services (serve dev data_p m0 c) (servers_ready idle disk img K c) (server_set c) K (kbytes data_p 4) (disk_source files)"
proof -
  have c: "c \<noteq> nat MM" "c \<noteq> nat FM" using ins by (simp_all add: installed_def)
  show ?thesis
    by (rule exec_services.intro [OF serve_services [OF ins]], rule exec_services_axioms.intro, rule serve_reset [OF _ c])
qed

end
