(* ===== verification/ExecProgram.thy ===== *)
theory ExecProgram
  imports FirstProgram Exec
begin

text \<open>
  From \<open>execv\<close> of the user library (lib/oslib.c) to the new program: the message \<open>PM_EXEC\<close> at the process server, which has
  the old program's memory cleared, loads the new one through all servers, and leaves the arguments where \<open>main\<close> finds them.
\<close>

section \<open>Replacing a program through all servers\<close>

text \<open>The bytes that \<open>FM_READ\<close> shows: those of all files, one after the other.\<close>

definition all_files :: "u8 list list \<Rightarrow> u8 list" where
  "all_files files = concat (map (padded (unat File_Size)) files)"

text \<open>A user process whose memory has \<open>buf\<close> at \<open>va\<close>.\<close>

definition user_has :: "(u32 \<Rightarrow> u8) \<Rightarrow> sys \<Rightarrow> nat \<Rightarrow> u32 \<Rightarrow> u8 list \<Rightarrow> bool" where
  "user_has fl s i va buf \<longleftrightarrow> i < MAX_PROC \<and> p_cr3 (proc s i) = cr3_of (pagedir_addr s i) \<and> own_pages (mm_of (fl, s)) (pagedir_addr s i) \<and>
     covered (mem s) (pagedir_addr s i) va (length buf) \<and>
     (\<forall>j < length buf. user_byte (mem s) (p_cr3 (proc s i)) (va + of_nat j) = buf ! j)"

lemma disk_sources: "disk_source files FM_READ_FILE name = disk_files files name" "disk_source files FM_READ name = all_files files"
  by (simp_all add: disk_source_def all_files_def FM_READ_FILE_def FM_READ_def)

text \<open>Another client of the servers.\<close>

lemma servers_switch:
  assumes "servers_ready idle disk img K c ((fl, w), s)" "box s c' [] [] [] 0"
  shows "servers_ready idle disk img K c' ((fl, w), s\<lparr>current_pcb := c'\<rparr>)"
  using assms by (cases w) (auto simp: servers_ready_def quiet_def)

text \<open>C11: From \<open>execv\<close> to \<open>main\<close>. When a user process has packed arguments that fit with \<open>execv\<close> and the request that
  the system call of \<open>execv\<close> posts reaches the process server, while the other servers wait and the disk has the image, the round of the process server ends without a
  panic: the process is ready, its address space shows the segments that the headers of file \<open>name\<close> describe, its first switch
  starts at the entry point of that file, and \<open>argc\<close> and \<open>argv\<close> on its stack are the strings given to \<open>execv\<close>. Only the
  loader's variables, the driver's, the page directory of the process, and frames that were its own or free change, and no other
  process does but for its mail. The bytes of the segments are read from the beginning of the first file on (\<open>all_files\<close>), not
  from that of file \<open>name\<close>: the requests are \<open>FM_READ\<close>, not \<open>FM_READ_FILE\<close>.\<close>

theorem execv_starts_program:
  assumes "installed dev idle disk kern files img K data_p c" "servers_ready idle disk img K c ((fl, w), s)"
    and "execv r name args va buf = Inr (tf, buf')" "length buf = Buffer_Size" "args_fit args"
    and "i \<notin> server_set c" "user_has fl s i va buf'"
    and "int80_request (int i) tf sm = Some (t, req)"
    and "exec_layout A (K \<union> kbytes data_p 4) (pagedir_addr s i)" "console_ok (con s)"
    and "loadable (disk_files files name) (all_files files)"
      "2 + 2 * sum_list (map (seg_count (disk_files files name)) (program_headers (disk_files files name))) \<le> card (free_frames (mm_of (fl, s)))"
  shows "\<exists>x s'. pm_message m (serve dev data_p m0 c) A (req\<lparr>m_src := int i, m_dest := t\<rparr>) (q, (fl, w), s) = Some (Inr (q, x, s')) \<and>
    p_status (proc s' i) = STATUS_WAITING \<and> p_cr3 (proc s' i) = p_cr3 (proc s i) \<and>
    runs_with_args A (disk_files files name) (all_files files) args (p_cr3 (proc s' i)) (mem s') (p_esp (proc s' i)) \<and>
    only (writes A (kbytes data_p 4) (pagedir_addr s i) (free_frames (mm_of (fl, s)) \<union> space_frames (mem s) (pagedir_addr s i)) \<union> arg_data A)
      (mem s) (mem s') \<and> console_ok (con s') \<and> (\<forall>j. j \<noteq> i \<longrightarrow> mail_eq (proc s j) (proc s' j))"
proof -
  let ?pd = "pagedir_addr s i"
  have len: "length (packed args) < argv_size" using assms(5) by (simp add: args_fit_def)
  note buf' = execv_packs [OF assms(3,4) len]
  have n: "length buf' = Buffer_Size" using len assms(4) by (simp add: buf' argv_size_def Buffer_Size_def)
  have u: "i < MAX_PROC" "p_cr3 (proc s i) = cr3_of ?pd" "own_pages (mm_of (fl, s)) ?pd" "covered (mem s) ?pd va Buffer_Size"
    using assms(7) by (simp_all add: user_has_def n)
  have at: "\<forall>j < Buffer_Size. user_byte (mem s) (cr3_of ?pd) (va + of_nat j) = buf' ! j"
    using assms(7) u(2) by (simp add: user_has_def n)
  have bytes: "\<forall>j \<le> length (packed args). user_byte (mem s) (cr3_of ?pd) (va + of_nat j) = (packed args @ [0]) ! j"
    using at len by (auto simp: buf' nth_append argv_size_def Buffer_Size_def)
  have ln: "i < length (Proc s)" using assms(2) u(1) by (cases w) (simp add: servers_ready_def)
  obtain x s' where "Exec_uthread m (serve dev data_p m0 c) A (int i) name va ((fl, w), s) = Some (Inr (x, s'))"
    and rest: "p_status (proc s' i) = STATUS_WAITING" "p_cr3 (proc s' i) = cr3_of ?pd"
    "runs_with_args A (disk_files files name) (all_files files) args (cr3_of ?pd) (mem s') (p_esp (proc s' i))"
    "only (writes A (kbytes data_p 4) ?pd (free_frames (mm_of (fl, s)) \<union> space_frames (mem s) ?pd) \<union> arg_data A) (mem s) (mem s')"
    "console_ok (con s')" "\<forall>j. j \<noteq> i \<longrightarrow> mail_eq (proc s j) (proc s' j)"
    using exec_services.Exec_uthread_spec [OF serve_exec_services [OF assms(1)] assms(2) u(1) assms(6) u(2) refl ln assms(9,5) u(3,4) bytes,
        where name = name, unfolded disk_sources, OF assms(11,10,12), of m m0] by (elim exE conjE)
  moreover have "tf_eax tf = INT80_EXEC" "tf_ebx tf = name" "tf_ecx tf = va"
    using assms(3) by (auto simp: execv_def syscall_2_def bindE_eq_Inr)
  then have "t = PM" "req = sm\<lparr>m_type := PM_EXEC, m_w0 := name, m_w1 := of_int (int i), m_w2 := va\<rparr>"
    using assms(8) by (simp_all add: int80_request_def int80_numbers)
  moreover have "sint (of_nat i :: u32) = int i" using u(1) by (simp add: MAX_PROC_def signed_of_nat signed_take_bit_int_eq_self)
  ultimately show ?thesis
    using u(2) by (intro exI [of _ x] exI [of _ s']) (simp add: pm_message_def PM_LOAD_PROC_def PM_EXIT_PROC_def PM_WAITPID_def PM_FORK_def PM_EXEC_def pm_pid_def pm_file_name_def pm_p1_def)
qed

section \<open>A process that asks for a program\<close>

text \<open>The small system of \<open>FirstProgram\<close> with a new process 7 that has the packed arguments \<open>a\<close> and \<open>bc\<close> at the beginning of
  its stack page; the process server runs.\<close>

lemma tiny_installed_pm: "installed sample_drive sample_idle sd_disk [7] tiny_files tiny_image boot_tables 0xC0250000 (nat PM)"
proof -
  have "nat PM < MAX_PROC" "nat PM \<notin> {nat FM, nat IDE, nat MM}" by (simp_all add: MAX_PROC_def PM_def FM_def IDE_def MM_def)
  then show ?thesis using tiny_installed by (simp add: installed_def)
qed

interpretation tiny_pm: exec_services "serve sample_drive 0xC0250000 zero_message (nat PM)"
  "servers_ready sample_idle sd_disk tiny_image boot_tables (nat PM)" "server_set (nat PM)" boot_tables "kbytes 0xC0250000 4" "disk_source tiny_files"
  by (rule serve_exec_services [OF tiny_installed_pm])

text \<open>Bytes at the beginning of a frame.\<close>

definition page_with :: "u32 \<Rightarrow> u8 list \<Rightarrow> memory \<Rightarrow> memory" where
  "page_with g bs m = (\<lambda>x. if unat g \<le> unat x \<and> unat x < unat g + length bs then bs ! (unat x - unat g) else m x)"

lemma page_with_only: "length bs \<le> 4096 \<Longrightarrow> only (page g) m (page_with g bs m)"
  by (auto simp: only_def page_with_def page_def)

lemma stack_page_with:
  assumes sp: "space_for pd FR V need v" and g: "vmap (mm_mem v) pd 786431 = Some g" and bs: "length bs \<le> 4096"
  defines "v' \<equiv> v\<lparr>mm_mem := page_with g bs (mm_mem v)\<rparr>"
  shows "space_for pd FR V need v'" "covered (mm_mem v') pd 0xBFFFF000 (length bs)"
    "\<forall>j < length bs. user_byte (mm_mem v') (cr3_of pd) (0xBFFFF000 + of_nat j) = bs ! j"
proof -
  have own: "own_pages v pd" using sp by (simp add: space_for_def)
  have gf: "AddressSpace.user_frame g" using own_pages_frame(1) [OF own _ g] by simp
  have on: "only (page g) (mm_mem v) (mm_mem v')" using page_with_only [OF bs] by (simp add: v'_def)
  have off: "page g \<inter> table_bytes (mm_mem v) pd = {}" by (rule page_not_table [OF own _ g]) simp
  note sw = space_for_write [OF sp on _ off]
  show sp': "space_for pd FR V need v'" by (rule sw(1)) (simp add: v'_def)
  have g': "vmap (mm_mem v') pd 786431 = Some g" using sw(2) [of 786431] g by (simp add: v'_def)
  show cov: "covered (mm_mem v') pd 0xBFFFF000 (length bs)"
  proof -
    have "vmap (mm_mem v') pd u \<noteq> None" if "unat (0xBFFFF000 :: u32) div 4096 \<le> u" "u * 4096 < unat (0xBFFFF000 :: u32) + length bs" for u
    proof -
      have "u = 786431" using that bs by simp
      then show ?thesis using g' by simp
    qed
    then show ?thesis using bs by (simp add: covered_def)
  qed
  have own': "own_pages v' pd" using sp' by (simp add: space_for_def)
  show "\<forall>j < length bs. user_byte (mm_mem v') (cr3_of pd) (0xBFFFF000 + of_nat j) = bs ! j"
  proof (intro allI impI)
    fix j assume j: "j < length bs"
    have "unat (0xBFFFF000 + of_nat j :: u32) = 0xBFFFF000 + j" using covered_byte(1) [OF cov j] by simp
    moreover have "0xBFFFF000 + j = j + 786431 * 4096" by simp
    ultimately have u: "unat (0xBFFFF000 + of_nat j :: u32) = j + 786431 * 4096" by (simp only:)
    have d: "unat (0xBFFFF000 + of_nat j :: u32) div 4096 = 786431" "unat (0xBFFFF000 + of_nat j :: u32) mod 4096 = j"
      unfolding u div_mult_self3 mod_mult_self1 using j bs by simp_all
    have "vmap (mm_mem v') pd (unat (0xBFFFF000 + of_nat j :: u32) div 4096) = Some g" unfolding d by (rule g')
    then have "place (mm_mem v') pd (0xBFFFF000 + of_nat j) = g + of_nat (unat (0xBFFFF000 + of_nat j :: u32) mod 4096)"
      by (rule place_in_page(1) [OF gf])
    then have "place (mm_mem v') pd (0xBFFFF000 + of_nat j) = g + of_nat j" by (simp only: d)
    moreover have "unat (g + of_nat j) = unat g + j" using gf j bs by (simp add: AddressSpace.user_frame_def unat_word_ariths unat_of_nat)
    ultimately have "mm_mem v' (place (mm_mem v') pd (0xBFFFF000 + of_nat j)) = bs ! j" using j by (simp add: v'_def page_with_def)
    then show "user_byte (mm_mem v') (cr3_of pd) (0xBFFFF000 + of_nat j) = bs ! j"
      using user_byte_mapped [OF own_buffer(1) [OF own' cov] j] by simp
  qed
qed

lemma boot_exec_layout:
  assumes "layout boot_addrs (boot_tables \<union> kbytes 0xC0250000 4) 0xC0147000"
  shows "exec_layout boot_addrs (boot_tables \<union> kbytes 0xC0250000 4) 0xC0147000"
proof -
  have pg: "va_to_pa 0xC0147000 = 0x147000" by (simp add: va_to_pa_def KOFFSET_def)
  have dis: "kbytes p n \<inter> page 0x147000 = {}" if "0xC0200000 \<le> unat p" for p n
    using that by (auto simp: kbytes_def page_def)
  show ?thesis
    using assms by (simp add: exec_layout_def argv_layout_def arg_data_def boot_addrs_def kernel_tables_def pg kdata_def KOFFSET_def
        argv_size_def NR_argv_def aligned4_def Int_Un_distrib Int_Un_distrib2 kbytes_disjoint dis)
qed

lemma exec_state:
  obtains fl :: "u32 \<Rightarrow> u8" and s :: sys where
    "servers_ready sample_idle sd_disk tiny_image boot_tables (nat PM)
       ((fl, cache_init (replicate 127 blank_slot), image_disk tiny_image), s)"
    "user_has fl s 7 0xBFFFF000 two_args" "pagedir_addr s 7 = 0xC0147000" "console_ok (con s)" "4 \<le> card (free_frames (mm_of (fl, s)))"
    "exec_layout boot_addrs (boot_tables \<union> kbytes 0xC0250000 4) (pagedir_addr s 7)"
proof -
  let ?w = "(cache_init (replicate 127 blank_slot), image_disk tiny_image)"
  obtain k :: os where k: "servers_ready sample_idle sd_disk tiny_image boot_tables 0 ((os_frames k, ?w), os_sys k)"
    "threads_ok (os_sys k) (thread_list boot_image)" "console_ok (con (os_sys k))" "pagedir_addr (os_sys k) 7 = 0xC0147000"
    "28672 \<le> card (free_frames (mm_of (os_frames k, os_sys k)))"
    "layout boot_addrs (boot_tables \<union> kbytes 0xC0250000 4) (pagedir_addr (os_sys k) 7)"
    by (rule tiny_started)
  let ?s = "os_sys k" and ?pd = "pagedir_addr (os_sys k) 7"
  have len: "length (thread_list boot_image) = 6" by (simp add: thread_list_def)
  have new: "7 \<notin> server_set 0" "7 < length (Proc ?s)" "7 < MAX_PROC" using k(1)
    by (simp_all add: servers_ready_def MAX_PROC_def FM_def IDE_def MM_def)
  have lay: "layout_ok ?s" and bx: "box ?s 6 [] [] [] 0" using k(2) by (simp_all add: threads_ok_def len kernel_process_def)
  have room: "6 + 4 \<le> card (free_frames (mm_of (os_frames k, ?s)))" using k(5) by simp
  obtain s2 and v :: mm where s2: "servers_ready sample_idle sd_disk tiny_image boot_tables 0 ((Ppage_flag v, ?w), s2)" "pagedir_addr s2 7 = ?pd"
    "length (Proc s2) = length (Proc ?s)" "console_ok (con s2)"
    "\<forall>i. proc s2 i = (if i = 7 then (set_up 7 (proc ?s 7))\<lparr>p_cr3 := cr3_of ?pd\<rparr> else proc ?s i)"
    "space_for ?pd (free_frames (mm_of (os_frames k, ?s))) {786431} 4 (mm_of (Ppage_flag v, s2))"
    using tiny.Create_uthread_space [OF k(1) new(1,2) pagedir_good [OF lay new(3)] k(6,3) room] by blast
  obtain g where g: "vmap (mm_mem (mm_of (Ppage_flag v, s2))) ?pd 786431 = Some g" using s2(6) by (auto simp: space_for_def)
  have n: "length two_args = 200" by (simp add: two_args_def)
  define s3 where "s3 = s2\<lparr>mem := page_with g two_args (mem s2)\<rparr>"
  have m3: "mm_of (Ppage_flag v, s3) = (mm_of (Ppage_flag v, s2))\<lparr>mm_mem := page_with g two_args (mm_mem (mm_of (Ppage_flag v, s2)))\<rparr>"
    "mm_mem (mm_of (Ppage_flag v, s3)) = mem s3" by (simp_all add: s3_def mm_of_def)
  have n4: "length two_args \<le> 4096" by (simp add: n)
  note w = stack_page_with [OF s2(6) g n4, folded m3(1), unfolded m3(2)]
  have "AddressSpace.user_frame g" using s2(6) own_pages_frame(1) [OF _ _ g] by (simp add: space_for_def)
  then have "page g \<inter> boot_tables = {}" using low_apart [of boot_tables g] tiny.low by blast
  then have r3: "servers_ready sample_idle sd_disk tiny_image boot_tables 0 ((Ppage_flag v, ?w), s3)"
    unfolding s3_def by (rule tiny.client_writes [OF s2(1) page_with_only [OF n4]])
  have p6: "proc s3 6 = proc ?s 6" "length (Proc s3) = length (Proc ?s)" using s2(3,5) by (simp_all add: s3_def)
  then have b3: "box s3 6 [] [] [] 0" using bx by (simp add: box_def)
  let ?s' = "s3\<lparr>current_pcb := nat PM\<rparr>"
  have "servers_ready sample_idle sd_disk tiny_image boot_tables (nat PM) ((Ppage_flag v, ?w), ?s')"
    by (rule servers_switch [OF r3]) (use b3 in \<open>simp add: PM_def\<close>)
  moreover have pd: "pagedir_addr ?s' 7 = ?pd" using s2(2) by (simp add: s3_def pagedir_addr_def pcb_addr_def)
  moreover have "user_has (Ppage_flag v) ?s' 7 0xBFFFF000 two_args"
  proof -
    have e: "mm_of (Ppage_flag v, ?s') = mm_of (Ppage_flag v, s3)" "p_cr3 (proc s3 7) = cr3_of ?pd"
      using s2(5) by (simp_all add: mm_of_def s3_def)
    show ?thesis using w new(3) by (simp add: user_has_def pd e space_for_def)
  qed
  moreover have "4 \<le> card (free_frames (mm_of (Ppage_flag v, ?s')))" using w(1) by (simp add: space_for_def mm_of_def)
  moreover have "console_ok (con ?s')" using s2(4) by (simp add: s3_def)
  moreover have "exec_layout boot_addrs (boot_tables \<union> kbytes 0xC0250000 4) (pagedir_addr ?s' 7)"
    using boot_exec_layout k(4,6) pd by simp
  ultimately show thesis using that k(4) by metis
qed

theorem execv_starts_program_witness:
  "\<exists>fl w (s :: sys) q x s'. pm_message zero_message (serve sample_drive 0xC0250000 zero_message (nat PM)) boot_addrs
       (zero_message\<lparr>m_type := PM_EXEC, m_w0 := 1, m_w1 := 7, m_w2 := 0xBFFFF000, m_src := 7, m_dest := PM\<rparr>) (q, (fl, w), s) =
       Some (Inr (q, x, s')) \<and> p_status (proc s' 7) = STATUS_WAITING \<and>
     user_byte (mem s') (p_cr3 (proc s' 7)) 0x8048000 = 0xEB \<and> user_load (mem s') (p_cr3 (proc s' 7)) (p_esp (proc s' 7) + 56) = 2"
proof -
  let ?args = "[[97], [98, 99]] :: u8 list list"
  obtain fl :: "u32 \<Rightarrow> u8" and s :: sys where s: "servers_ready sample_idle sd_disk tiny_image boot_tables (nat PM)
      ((fl, cache_init (replicate 127 blank_slot), image_disk tiny_image), s)"
    "user_has fl s 7 0xBFFFF000 two_args" "pagedir_addr s 7 = 0xC0147000" "console_ok (con s)" "4 \<le> card (free_frames (mm_of (fl, s)))"
    "exec_layout boot_addrs (boot_tables \<union> kbytes 0xC0250000 4) (pagedir_addr s 7)"
    by (rule exec_state)
  have e: "execv read_frame 1 ?args 0xBFFFF000 (replicate 200 0) = Inr (syscall_2 read_frame INT80_EXEC 1 0xBFFFF000, two_args)"
    "length (replicate 200 (0 :: u8)) = Buffer_Size" "args_fit ?args"
    by (simp_all add: execv_def numeral_eq_Suc two_args_def Buffer_Size_def) (simp add: args_fit_def NR_argv_def argv_size_def)
  have i: "7 \<notin> server_set (nat PM)" by (simp add: PM_def FM_def IDE_def MM_def)
  have m: "int80_request (int 7) (syscall_2 read_frame INT80_EXEC 1 0xBFFFF000) zero_message =
      Some (PM, zero_message\<lparr>m_type := PM_EXEC, m_w0 := 1, m_w1 := 7, m_w2 := 0xBFFFF000\<rparr>)"
    by (simp add: int80_request_def syscall_2_def int80_numbers)
  have all: "all_files tiny_files = disk_files tiny_files 1" by (simp add: all_files_def tiny_files_def disk_files_def)
  have enough: "2 + 2 * sum_list (map (seg_count (disk_files tiny_files 1)) (program_headers (disk_files tiny_files 1))) \<le>
      card (free_frames (mm_of (fl, s)))" using s(5) unfolding tiny_file by (simp add: tiny_fields)
  have ok: "loadable (disk_files tiny_files 1) (all_files tiny_files)" unfolding all by (rule tiny_program_ok)
  obtain x s' where x: "pm_message zero_message (serve sample_drive 0xC0250000 zero_message (nat PM)) boot_addrs
      (zero_message\<lparr>m_type := PM_EXEC, m_w0 := 1, m_w1 := 7, m_w2 := 0xBFFFF000, m_src := int 7, m_dest := PM\<rparr>)
      (\<lparr>WaitQueue = [], WQ_ptr = 0\<rparr>, (fl, cache_init (replicate 127 blank_slot), image_disk tiny_image), s) = Some (Inr (\<lparr>WaitQueue = [], WQ_ptr = 0\<rparr>, x, s'))"
    "p_status (proc s' 7) = STATUS_WAITING"
    "runs_with_args boot_addrs (disk_files tiny_files 1) (all_files tiny_files) ?args (p_cr3 (proc s' 7)) (mem s') (p_esp (proc s' 7))"
    using execv_starts_program [OF tiny_installed_pm s(1) e i s(2) m s(6,4) ok enough, of zero_message zero_message "\<lparr>WaitQueue = [], WQ_ptr = 0\<rparr>"] by blast
  have "user_byte (mem s') (p_cr3 (proc s' 7)) 0x8048000 = padded 65536 tiny_program ! 84"
    using x(3) tiny_fields by (fastforce simp: runs_with_args_def shows_segments_def all tiny_file)
  also have "\<dots> = 0xEB" by (simp add: padded_def tiny_length nth_append) (simp add: tiny_program_def)
  finally have ub: "user_byte (mem s') (p_cr3 (proc s' 7)) 0x8048000 = 0xEB" .
  have "user_load (mem s') (p_cr3 (proc s' 7)) (p_esp (proc s' 7) + 56) = 2" using x(3) by (simp add: runs_with_args_def)
  then show ?thesis using x(1,2) ub by (intro exI conjI) (simp_all only: of_nat_numeral)
qed

end
