(* ===== verification/Spec2Isabelle.thy ===== *)
theory Spec2Isabelle
  imports Prelude Ring Chain Printf Console Memory Kernel Process Message Timer Paging Mm AddressSpace Fork Lifecycle Server MemoryServer Ide UserBuffer IdeServer Interrupts Tty TtyServer Fm Pm Oslib Arguments Boot Descriptors Startup Semaphore UserSpace UserFrame Rpc FileService Loader Services FirstProgram Exec ExecProgram
begin

text \<open>
  YinyangOS: a verification development of a message-passing kernel for the 32-bit PC.

  \<^bold>\<open>The program.\<close> The kernel under src/kernel runs kernel threads (drivers and servers) and user processes, all in ring 0,
  each with its own page directory. They talk by messages: \<open>send\<close> puts a message into one of the 128 slots of the receiver
  and \<open>receive\<close> waits on a semaphore for one from a given sender. An interrupt becomes a message to a driver; a system call
  becomes a message to a server whose answer is the result. The drivers are the timer (alarms), the terminal (line editor
  on the console) and the disk (write-back cache); the servers are for files, memory (page frames and address spaces) and
  processes (fork, exec, wait, exit). src/boot loads the kernel, src/tools builds the disk image, src/lib is the library of
  the user programs.

  \<^bold>\<open>Conventions.\<close> C integers are words at their width; a pointer into a fixed array is the index of the element; memory is
  a map from 32-bit physical addresses to bytes, and a pointer of the kernel is taken through \<open>kphys\<close>, the mapping that
  \<open>init_page\<close> builds. A routine that may stop the kernel gives \<open>error + 'a\<close>: \<open>Panic\<close> is a call of \<open>panic\<close>, \<open>Fault\<close> an access
  outside an array or through \<open>NULL\<close>. A loop without a bound of its own is a \<open>partial_function\<close> of type \<open>option\<close>, where \<open>None\<close>
  is a run without end; the theorems on such routines show that they return. There is no fuel anywhere.

  \<^bold>\<open>Theories.\<close> The basis:
  \<^item> \<open>Prelude\<close>: integers, errors, sequencing, checked arrays, and the locale \<open>transition_invariant\<close> for step relations.
    \<open>Ring\<close>: circular doubly linked lists with the locale \<open>link_store\<close>, which the run list (\<open>Process\<close>) and the message lists
    (\<open>Message\<close>) interpret. \<open>Chain\<close>: lists that end in \<open>NULL\<close>. \<open>Memory\<close>: bytes and 32-bit words.
  \<^item> \<open>Printf\<close> (vfprintf.c), \<open>Console\<close> (console.c): numerals read back as the number that was printed; the video memory refines
    a terminal that scrolls.
  \<^item> \<open>Kernel\<close> (message.h, semaphore.h, process.h, lock.c, semaphore.c): the shared state \<open>sys\<close>, with the process table, the
    interrupt flag, memory and console; locks and semaphores. \<open>Semaphore\<close>: semaphores keep count in every interleaving.
  \<^item> \<open>Process\<close> (process/util.c, process/schedule.c): the run list, creating kernel threads, and the scheduler: round robin,
    with bounded waiting. \<open>Message\<close> (message.c): \<open>send\<close> appends, \<open>receive\<close> is a selective receive on two lists, and the
    protocol between them, as a step relation at the grain of the locked sections, loses no wake-up and never panics.

  Memory:
  \<^item> \<open>Paging\<close> (memory/kvm.c, memory/util.c, the copies of process/util.c): the kernel's tables, and the copies between
    address spaces, equal to a copy byte by byte through the translation. \<open>UserBuffer\<close>: the locale \<open>user_buffer\<close> that the
    clients of these copies use, and buffers of the kernel in its own address space.
  \<^item> \<open>Mm\<close> (mm.c) has the operations of the memory server; \<open>AddressSpace\<close> says what an address space is and what allocating
    does to it, \<open>Fork\<close> is \<open>copy_page\<close>, \<open>Lifecycle\<close> the making, clearing and releasing of a space, \<open>MemoryServer\<close> one round
    of the server. \<open>Server\<close>: the locale \<open>post_office\<close>, what a server may rely on when it answers; \<open>send\<close> provides it.
    \<open>UserSpace\<close>: the bytes of a process, and which writes and allocations leave them alone.

  Drivers, interrupts, servers:
  \<^item> \<open>Timer\<close> (drivers/timer.c): the queue of differences is a queue of deadlines. \<open>Ide\<close>, \<open>IdeServer\<close> (drivers/ide.c): the
    cache shows the device as an array of bytes, and requests read and write it. \<open>Tty\<close>, \<open>TtyServer\<close> (drivers/tty.c): the
    line editor is a line with a cursor that the screen shows, and lines go through the pool to the readers.
  \<^item> \<open>Interrupts\<close> (irq/irq_handle.c): dispatch, and the system call handler in its two halves around the sleep.
    \<open>Descriptors\<close> (irq/idt.c, irq/i8259.c, memory/kvm.c): the processor's tables bit by bit.
  \<^item> \<open>Fm\<close> (fm.c and tools/makefs.c): the server finds a file where the image tool put it.
    \<open>Pm\<close> (pm.c): fork, exec, wait, exit and loading. \<open>UserFrame\<close>: the stack it builds for a program is what the switch pops.
    \<open>Oslib\<close> (lib/oslib.c), \<open>Arguments\<close>: the user library, and the arguments of \<open>execv\<close> on both sides.
  \<^item> \<open>Boot\<close> (boot/main.c): loading the kernel. \<open>Startup\<close> (main.c): \<open>os_init\<close> on the state of all components at once, and
    what it has set up when it enables interrupts.

  The parts together:
  \<^item> \<open>Rpc\<close>: a request to a server with its answer, in the schedule in which the server runs next, and what it may change.
    \<open>FileService\<close>: a request for a file through file server, messages, disk driver and page tables.
  \<^item> \<open>Loader\<close>: \<open>load_init_proc\<close> and \<open>Create_uthread\<close> of pm.c as a client of the locale \<open>program_services\<close>, a file service
    and a memory service; each segment goes through a request for its bytes, one for its pages, and a copy. \<open>Services\<close>: the
    file server, disk driver and memory server of the model provide these services, on a disk of the image tool.
    \<open>Exec\<close>: \<open>Exec_uthread\<close> as a client of \<open>exec_services\<close>, which adds the request that clears a space: the arguments
    leave the old space, and come to the stack of the new program.
  \<^item> \<open>FirstProgram\<close>: the state that \<open>os_init\<close> sets up is one in which the services are ready, so it loads program 1 and comes
    to its idle loop; with a kernel image and a disk on which all of this happens. \<open>ExecProgram\<close>: a request of \<open>execv\<close>,
    from the system call to the new program that finds its arguments, on the same system.

  \<^bold>\<open>Parameters.\<close> The disk drive is a record \<open>device\<close> of port functions on a state of its own; the theorems assume the
  documented protocol of ATA drives (\<open>ata_drive\<close> with interrupts, \<open>polled_drive\<close> for the boot loader), and \<open>IdeServer\<close> has a
  drive that keeps it. \<open>call\<close> is a request of a server to another server with the wait for its answer, in which the rest of
  the system runs; \<open>Services\<close> gives it as \<open>serve\<close>, where the servers asked run next and nothing else does. The addresses that the linker chooses are fields of records. The message buffer of \<open>scanf\<close> comes from
  the parameter that is the \<open>read\<close> system call.

  \<^bold>\<open>Not modelled.\<close> The assembly of irq/do_irq.S and boot/start.S (its effect on the stack is \<open>restore_context\<close> and the trap
  frames) and the inline assembly of x86/cpu.h beyond the flags, \<open>%cr3\<close> and the words given
  to \<open>lgdt\<close> and \<open>lidt\<close>; the superseded mm_backup.c and process/backup_util.c, which are not compiled; the test threads of
  kernel/test and the example programs of src/user, which only use what is modelled; input and output errors of the image
  tool. What \<open>panic\<close> prints before it stops the kernel is not part of the error value.
\<close>

end
